(* ===== verification/Prelude.thy ===== *)
theory Prelude
imports Main "HOL-Library.Char_ord" "HOL-Library.List_Lexorder" "HOL-Library.Word"
begin

text \<open>
  Shared vocabulary of the development.

  Strings are Rust's UTF-8 byte strings: a \<^typ>\<open>string\<close> is a list of bytes and
  the order of \<^theory_text>\<open>List_Lexorder\<close> over \<^theory_text>\<open>Char_ord\<close> is Rust's byte order on
  \<open>str\<close>.  A \<open>BTreeMap\<close> is an association list strictly sorted by key
  (\<open>bt_wf\<close>), a \<open>Result\<close> is a sum with the error on the left.  The theory also
  holds the string operations the code uses everywhere (\<open>rfind('/')\<close>,
  \<open>split('/')\<close>, \<open>starts_with\<close>, \<open>strip_prefix\<close>) with the facts the component
  theories share.
\<close>

section \<open>Collections of facts\<close>

named_theorems bt_simps \<open>lookup and key equations of the map operations\<close>
named_theorems path_simps \<open>facts on separators, prefixes and ancestors\<close>
named_theorems res_simps \<open>case distinctions on results\<close>

section \<open>Results\<close>

type_synonym ('e, 'a) result = "'e + 'a"

abbreviation Ok :: "'a \<Rightarrow> ('e, 'a) result" where
  "Ok \<equiv> Inr"

abbreviation Err :: "'e \<Rightarrow> ('e, 'a) result" where
  "Err \<equiv> Inl"

definition rbind :: "('e, 'a) result \<Rightarrow> ('a \<Rightarrow> ('e, 'b) result) \<Rightarrow> ('e, 'b) result" where
  "rbind r f = (case r of Inl e \<Rightarrow> Inl e | Inr x \<Rightarrow> f x)"

definition is_ok :: "('e, 'a) result \<Rightarrow> bool" where
  "is_ok r = (case r of Inl _ \<Rightarrow> False | Inr _ \<Rightarrow> True)"

lemma rbind_simps [simp, res_simps]:
  "rbind (Inl e) f = Inl e"
  "rbind (Inr x) f = f x"
  by (simp_all add: rbind_def)

lemma is_ok_simps [simp, res_simps]:
  "is_ok (Inl e) = False"
  "is_ok (Inr x) = True"
  by (simp_all add: is_ok_def)

lemma rbind_ok_iff [res_simps]:
  "rbind r f = Inr y \<longleftrightarrow> (\<exists>x. r = Inr x \<and> f x = Inr y)"
  by (cases r) simp_all

lemma is_ok_rbind [res_simps]:
  "is_ok (rbind r f) \<longleftrightarrow> (\<exists>x. r = Inr x \<and> is_ok (f x))"
  by (cases r) simp_all

text \<open>Run a fallible check over a list, stopping at the first error, as a
  \<open>for\<close> loop whose body uses \<open>?\<close> does.\<close>

fun check_all :: "('a \<Rightarrow> ('e, unit) result) \<Rightarrow> 'a list \<Rightarrow> ('e, unit) result" where
  "check_all f [] = Inr ()"
| "check_all f (x # xs) = rbind (f x) (\<lambda>_. check_all f xs)"

lemma check_all_ok [res_simps]:
  "check_all f xs = Inr () \<longleftrightarrow> (\<forall>x\<in>set xs. f x = Inr ())"
  by (induction xs) (auto simp: rbind_ok_iff)

lemma check_all_err:
  "check_all f xs = Inl e \<Longrightarrow> \<exists>x\<in>set xs. f x = Inl e"
proof (induction xs)
  case (Cons a xs)
  then show ?case by (cases "f a") auto
qed simp

lemma check_all_cases:
  "(\<exists>x\<in>set xs. \<exists>e. f x = Inl e) \<longleftrightarrow> \<not> is_ok (check_all f xs)"
proof (induction xs)
  case (Cons a xs)
  then show ?case by (cases "f a") auto
qed simp

section \<open>Sorted association lists: Rust's BTreeMap\<close>

type_synonym ('k, 'v) btree = "('k \<times> 'v) list"

definition bt_wf :: "('k::linorder, 'v) btree \<Rightarrow> bool" where
  "bt_wf m = sorted_wrt (<) (map fst m)"

abbreviation bt_get :: "('k, 'v) btree \<Rightarrow> 'k \<Rightarrow> 'v option" where
  "bt_get \<equiv> map_of"

definition bt_keys :: "('k, 'v) btree \<Rightarrow> 'k list" where
  "bt_keys m = map fst m"

fun bt_insert :: "'k::linorder \<Rightarrow> 'v \<Rightarrow> ('k, 'v) btree \<Rightarrow> ('k, 'v) btree" where
  "bt_insert k v [] = [(k, v)]"
| "bt_insert k v ((k', v') # m) =
     (if k < k' then (k, v) # (k', v') # m
      else if k = k' then (k, v) # m
      else (k', v') # bt_insert k v m)"

definition bt_remove :: "'k \<Rightarrow> ('k, 'v) btree \<Rightarrow> ('k, 'v) btree" where
  "bt_remove k m = filter (\<lambda>(k', _). k' \<noteq> k) m"

definition bt_contains :: "('k, 'v) btree \<Rightarrow> 'k \<Rightarrow> bool" where
  "bt_contains m k = (map_of m k \<noteq> None)"

lemma bt_get_insert [simp, bt_simps]:
  "bt_get (bt_insert k v m) = (bt_get m)(k \<mapsto> v)"
  by (induction m rule: bt_insert.induct) (auto simp: fun_eq_iff)

lemma bt_get_remove [simp, bt_simps]:
  "bt_get (bt_remove k m) = (bt_get m)(k := None)"
  by (induction m) (auto simp: bt_remove_def fun_eq_iff)

lemma set_bt_keys [simp, bt_simps]:
  "set (bt_keys m) = dom (bt_get m)"
  by (simp add: bt_keys_def dom_map_of_conv_image_fst)

lemma set_bt_insert_keys [bt_simps]:
  "fst ` set (bt_insert k v m) = insert k (fst ` set m)"
  by (induction m rule: bt_insert.induct) auto

lemma bt_wf_Nil [simp]: "bt_wf []"
  by (simp add: bt_wf_def)

lemma bt_wf_Cons:
  "bt_wf ((k, v) # m) \<longleftrightarrow> (\<forall>k' \<in> fst ` set m. k < k') \<and> bt_wf m"
  by (auto simp: bt_wf_def)

lemma bt_wf_insert [simp, intro]:
  "bt_wf m \<Longrightarrow> bt_wf (bt_insert k v m)"
proof (induction m rule: bt_insert.induct)
  case (2 k v k' v' m)
  then show ?case
    by (auto simp: bt_wf_Cons set_bt_insert_keys)
qed (simp add: bt_wf_Cons)

lemma bt_wf_filter [simp, intro]:
  "bt_wf m \<Longrightarrow> bt_wf (filter P m)"
  by (induction m) (auto simp: bt_wf_Cons)

lemma bt_wf_remove [simp, intro]:
  "bt_wf m \<Longrightarrow> bt_wf (bt_remove k m)"
  by (simp add: bt_remove_def)

lemma bt_wf_distinct:
  "bt_wf m \<Longrightarrow> distinct (map fst m)"
  by (simp add: bt_wf_def strict_sorted_iff)

lemma bt_wf_sorted:
  "bt_wf m \<Longrightarrow> sorted (map fst m)"
  by (simp add: bt_wf_def strict_sorted_iff)

lemma bt_keys_distinct [simp]:
  "bt_wf m \<Longrightarrow> distinct (bt_keys m)"
  by (simp add: bt_keys_def bt_wf_distinct)

lemma bt_get_in_set:
  "bt_wf m \<Longrightarrow> bt_get m k = Some v \<longleftrightarrow> (k, v) \<in> set m"
  by (simp add: bt_wf_distinct map_of_eq_Some_iff)

text \<open>Two maps with the same lookups are the same map: the model's equality
  is the code's \<open>PartialEq\<close>.\<close>

lemma bt_ext:
  assumes "bt_wf m1" "bt_wf m2" "\<And>k. bt_get m1 k = bt_get m2 k"
  shows "m1 = m2"
proof -
  have "set m1 = set m2"
    using assms by (auto simp: bt_get_in_set [symmetric])
  moreover have "inj_on fst (set m1 \<union> set m2)"
    using assms bt_wf_distinct calculation by (metis distinct_map sup.idem)
  ultimately show ?thesis
    using assms by (intro map_sorted_distinct_set_unique [of fst])
      (auto simp: bt_wf_sorted bt_wf_distinct)
qed

text \<open>The interface the components use a map through, with what follows from it
  once; \<open>BTreeMap\<close> provides it.\<close>

locale map_ops =
  fixes lookup :: "'m \<Rightarrow> 'k \<Rightarrow> 'v option"
    and ins :: "'k \<Rightarrow> 'v \<Rightarrow> 'm \<Rightarrow> 'm"
    and del :: "'k \<Rightarrow> 'm \<Rightarrow> 'm"
    and wf :: "'m \<Rightarrow> bool"
  assumes lookup_ins: "lookup (ins k v m) = (lookup m)(k \<mapsto> v)"
    and lookup_del: "lookup (del k m) = (lookup m)(k := None)"
    and wf_ins: "wf m \<Longrightarrow> wf (ins k v m)"
    and wf_del: "wf m \<Longrightarrow> wf (del k m)"
    and lookup_ext: "wf m \<Longrightarrow> wf n \<Longrightarrow> lookup m = lookup n \<Longrightarrow> m = n"
begin

lemma lookup_fold_ins:
  "lookup (fold (\<lambda>(k, v). ins k v) kvs m) k =
     (case map_of (rev kvs) k of Some v \<Rightarrow> Some v | None \<Rightarrow> lookup m k)"
  by (induction kvs arbitrary: m)
    (auto simp: lookup_ins map_of_append map_add_def split: option.splits)

lemma wf_fold_ins: "wf m \<Longrightarrow> wf (fold (\<lambda>(k, v). ins k v) kvs m)"
  by (induction kvs arbitrary: m) (auto simp: wf_ins)

lemma lookup_fold_del:
  "lookup (fold del ks m) k = (if k \<in> set ks then None else lookup m k)"
  by (induction ks arbitrary: m) (auto simp: lookup_del)

lemma wf_fold_del: "wf m \<Longrightarrow> wf (fold del ks m)"
  by (induction ks arbitrary: m) (auto simp: wf_del)

lemma ins_commute:
  "wf m \<Longrightarrow> k \<noteq> k' \<Longrightarrow> ins k v (ins k' v' m) = ins k' v' (ins k v m)"
  by (intro lookup_ext) (auto simp: wf_ins lookup_ins)

lemma ins_same: "wf m \<Longrightarrow> lookup m k = Some v \<Longrightarrow> ins k v m = m"
  by (intro lookup_ext) (auto simp: wf_ins lookup_ins)

lemma ins_del: "wf m \<Longrightarrow> lookup m k = None \<Longrightarrow> del k (ins k v m) = m"
  by (intro lookup_ext) (auto simp: wf_ins wf_del lookup_ins lookup_del)

end

interpretation bt: map_ops
  "bt_get :: ('k::linorder, 'v) btree \<Rightarrow> 'k \<Rightarrow> 'v option" bt_insert bt_remove bt_wf
  by unfold_locales (auto intro: bt_ext)

lemma map_of_rev_wf: "bt_wf m \<Longrightarrow> map_of (rev m) = map_of m"
  by (rule map_of_inject_set [THEN iffD2])
    (simp_all add: bt_wf_distinct rev_map [symmetric])

lemma map_of_filter_fst:
  "map_of (filter (\<lambda>kv. P (fst kv)) m) k = (if P k then map_of m k else None)"
  by (induction m) auto

text \<open>Sorted, duplicate-free union of key lists: a \<open>BTreeSet\<close> collected from
  chained iterators.\<close>

definition bt_set :: "'k::linorder list \<Rightarrow> 'k list" where
  "bt_set ks = remdups (sort ks)"

lemma bt_set_props [simp]:
  "set (bt_set ks) = set ks" "distinct (bt_set ks)" "sorted (bt_set ks)"
  by (simp_all add: bt_set_def)

end
