(* ===== verification/Strings.thy ===== *)
theory Strings
imports Prelude
begin

text \<open>
  The \<open>str\<close> operations the code applies to paths and identifiers:
  \<open>starts_with\<close>, \<open>strip_prefix\<close>, \<open>rfind\<close>, \<open>split\<close>, the chain of
  \<open>rfind('/')\<close> ancestors, and \<open>std::path::Path::components\<close> on Unix.
\<close>

section \<open>Bytes\<close>

abbreviation byte_of :: "char \<Rightarrow> nat" where
  "byte_of c \<equiv> of_char c"

lemma byte_less [simp]: "byte_of c < 256"
  using of_char_mod_256 [where 'a = nat, of c] mod_less_divisor [of 256 "byte_of c"] by linarith

section \<open>Prefixes\<close>

fun starts_with :: "'a list \<Rightarrow> 'a list \<Rightarrow> bool" where
  "starts_with xs [] = True"
| "starts_with [] (p # ps) = False"
| "starts_with (x # xs) (p # ps) = (x = p \<and> starts_with xs ps)"

definition strip_prefix :: "'a list \<Rightarrow> 'a list \<Rightarrow> 'a list option" where
  "strip_prefix s p = (if starts_with s p then Some (drop (List.length p) s) else None)"

lemma starts_with_iff [path_simps]:
  "starts_with s p \<longleftrightarrow> (\<exists>q. s = p @ q)"
  by (induction s p rule: starts_with.induct) auto

lemma strip_prefix_Some [path_simps]:
  "strip_prefix s p = Some q \<longleftrightarrow> s = p @ q"
  by (auto simp: strip_prefix_def starts_with_iff)

lemma strip_prefix_None [path_simps]:
  "strip_prefix s p = None \<longleftrightarrow> (\<forall>q. s \<noteq> p @ q)"
  by (auto simp: strip_prefix_def starts_with_iff)

section \<open>Searching and splitting\<close>

fun rfind :: "'a \<Rightarrow> 'a list \<Rightarrow> nat option" where
  "rfind c [] = None"
| "rfind c (x # xs) =
     (case rfind c xs of Some i \<Rightarrow> Some (Suc i) | None \<Rightarrow> if x = c then Some 0 else None)"

fun split_on :: "'a \<Rightarrow> 'a list \<Rightarrow> 'a list list" where
  "split_on c [] = [[]]"
| "split_on c (x # xs) =
     (if x = c then [] # split_on c xs
      else (case split_on c xs of [] \<Rightarrow> [[x]] | w # ws \<Rightarrow> (x # w) # ws))"

fun join_with :: "'a \<Rightarrow> 'a list list \<Rightarrow> 'a list" where
  "join_with c [] = []"
| "join_with c [w] = w"
| "join_with c (w # v # ws) = w @ c # join_with c (v # ws)"

lemma rfind_None [path_simps]:
  "rfind c s = None \<longleftrightarrow> c \<notin> set s"
  by (induction s) (auto split: option.splits)

lemma rfind_Some [path_simps]:
  "rfind c s = Some i \<longleftrightarrow> i < length s \<and> s ! i = c \<and> c \<notin> set (drop (Suc i) s)"
proof (induction s arbitrary: i)
  case (Cons x xs)
  show ?case
  proof (cases i)
    case 0
    then show ?thesis
      using rfind_None [of c xs] by (auto split: option.splits)
  next
    case (Suc j)
    then show ?thesis
      using Cons.IH [of j] by (auto split: option.splits)
  qed
qed simp

lemma rfind_less: "rfind c s = Some i \<Longrightarrow> i < length s"
  by (simp add: rfind_Some)

lemma rfind_decomp:
  assumes "rfind c s = Some i"
  shows "s = take i s @ c # drop (Suc i) s" "c \<notin> set (drop (Suc i) s)"
  using assms by (auto simp: rfind_Some id_take_nth_drop)

lemma rfind_append_last:
  "c \<notin> set q \<Longrightarrow> rfind c (p @ c # q) = Some (length p)"
  by (simp add: rfind_Some)

lemma split_on_ne [simp]: "split_on c s \<noteq> []"
  by (induction s) (auto split: list.splits)

lemma join_with_Cons_head:
  "join_with c ((x # w) # ws) = x # join_with c (w # ws)"
  by (cases ws) auto

lemma join_with_Nil_head:
  "ws \<noteq> [] \<Longrightarrow> join_with c ([] # ws) = c # join_with c ws"
  by (cases ws) auto

lemma join_split [simp]: "join_with c (split_on c s) = s"
proof (induction s)
  case (Cons x xs)
  then show ?case
    by (cases "split_on c xs") (auto simp: join_with_Cons_head join_with_Nil_head)
qed simp

lemma split_on_no_sep:
  "w \<in> set (split_on c s) \<Longrightarrow> c \<notin> set w"
proof (induction s arbitrary: w)
  case (Cons x xs)
  then show ?case
    by (cases "split_on c xs") (auto split: if_splits)
qed simp

lemma split_on_single: "c \<notin> set s \<Longrightarrow> split_on c s = [s]"
  by (induction s) auto

lemma split_on_append [path_simps]:
  "split_on c (p @ c # q) = split_on c p @ split_on c q"
proof (induction p)
  case (Cons x xs)
  then show ?case
    by (cases "split_on c xs") auto
qed simp

lemma split_on_inj: "split_on c s = split_on c t \<Longrightarrow> s = t"
  by (metis join_split)

lemma split_join:
  assumes "ws \<noteq> []" "\<forall>w\<in>set ws. c \<notin> set w"
  shows "split_on c (join_with c ws) = ws"
  using assms
proof (induction c ws rule: join_with.induct)
  case (3 c w v ws)
  then show ?case by (simp add: split_on_append split_on_single)
qed (simp_all add: split_on_single)

section \<open>Ancestors of a path\<close>

text \<open>\<open>while let Some(idx) = rest.rfind('/') { rest = &rest[..idx]; .. }\<close>:
  every proper prefix of the path that ends just before a separator, longest
  first.\<close>

function ancestors :: "string \<Rightarrow> string list" where
  "ancestors s =
     (case rfind CHR ''/'' s of
        None \<Rightarrow> []
      | Some i \<Rightarrow> take i s # ancestors (take i s))"
  by auto
termination
  by (relation "measure length") (auto dest: rfind_less)

declare ancestors.simps [simp del]

lemma ancestors_iff [path_simps]:
  "a \<in> set (ancestors s) \<longleftrightarrow> (\<exists>q. s = a @ CHR ''/'' # q)"
proof (induction s rule: ancestors.induct)
  case (1 s)
  show ?case
  proof (cases "rfind CHR ''/'' s")
    case None
    then have "ancestors s = []"
      by (simp add: ancestors.simps)
    then show ?thesis
      using None by (auto simp: rfind_None)
  next
    case (Some i)
    let ?t = "take i s" and ?u = "drop (Suc i) s"
    have s: "s = ?t @ CHR ''/'' # ?u" and nu: "CHR ''/'' \<notin> set ?u"
      using rfind_decomp [OF Some] by auto
    have step: "(\<exists>q. s = a @ CHR ''/'' # q) \<longleftrightarrow> a = ?t \<or> (\<exists>q. ?t = a @ CHR ''/'' # q)"
    proof
      assume "\<exists>q. s = a @ CHR ''/'' # q"
      then obtain q where "?t @ CHR ''/'' # ?u = a @ CHR ''/'' # q"
        using s by auto
      then show "a = ?t \<or> (\<exists>q. ?t = a @ CHR ''/'' # q)"
        using nu by (auto simp: append_eq_append_conv2 Cons_eq_append_conv append_eq_Cons_conv)
    next
      assume "a = ?t \<or> (\<exists>q. ?t = a @ CHR ''/'' # q)"
      then show "\<exists>q. s = a @ CHR ''/'' # q"
        by (metis s append.assoc append_Cons)
    qed
    show ?thesis
      using Some 1 [OF Some] step by (simp add: ancestors.simps [of s])
  qed
qed

lemma ancestors_shorter:
  "a \<in> set (ancestors s) \<Longrightarrow> length a < length s"
  by (auto simp: ancestors_iff)

section \<open>Path components\<close>

text \<open>\<open>std::path::Path::components\<close> on Unix: empty components vanish, and a
  \<open>.\<close> component survives only at the very start of a relative path.\<close>

datatype component = RootDir | CurDir | ParentDir | Normal string

fun segment_component :: "string \<Rightarrow> component list" where
  "segment_component s =
     (if s = '''' \<or> s = ''.'' then []
      else if s = ''..'' then [ParentDir]
      else [Normal s])"

fun path_components :: "string \<Rightarrow> component list" where
  "path_components s =
     (case split_on CHR ''/'' s of
        [] \<Rightarrow> []
      | c # cs \<Rightarrow>
          (if starts_with s ''/'' then [RootDir]
           else if c = ''.'' then [CurDir]
           else segment_component c) @ concat (map segment_component cs))"

definition to_ascii_lower :: "char \<Rightarrow> char" where
  "to_ascii_lower c =
     (if 65 \<le> (of_char c :: nat) \<and> (of_char c :: nat) \<le> 90
      then char_of ((of_char c :: nat) + 32) else c)"

definition eq_ignore_ascii_case :: "string \<Rightarrow> string \<Rightarrow> bool" where
  "eq_ignore_ascii_case a b = (map to_ascii_lower a = map to_ascii_lower b)"

end
