(* ===== verification/Decimal.thy ===== *)
theory Decimal
imports Strings
begin

text \<open>
  Decimal text: what \<open>{n}\<close> and \<open>{n:0w}\<close> of Rust's \<open>format!\<close> produce for unsigned
  numbers, with the reader that inverts it.
\<close>

definition digit_char :: "nat \<Rightarrow> char" where
  "digit_char d = char_of (48 + d)"

definition char_digit :: "char \<Rightarrow> nat option" where
  "char_digit c =
     (let b = (of_char c :: nat) in if 48 \<le> b \<and> b \<le> 57 then Some (b - 48) else None)"

fun nat_to_dec :: "nat \<Rightarrow> string" where
  "nat_to_dec n =
     (if n < 10 then [digit_char n] else nat_to_dec (n div 10) @ [digit_char (n mod 10)])"

declare nat_to_dec.simps [simp del]

definition pad_dec :: "nat \<Rightarrow> nat \<Rightarrow> string" where
  "pad_dec w n = (let s = nat_to_dec n in replicate (w - length s) CHR ''0'' @ s)"

fun dec_digits :: "nat \<Rightarrow> string \<Rightarrow> nat option" where
  "dec_digits acc [] = Some acc"
| "dec_digits acc (c # cs) =
     (case char_digit c of None \<Rightarrow> None | Some d \<Rightarrow> dec_digits (acc * 10 + d) cs)"

definition dec_to_nat :: "string \<Rightarrow> nat option" where
  "dec_to_nat s = (if s = '''' then None else dec_digits 0 s)"

lemma of_char_digit_char [simp]:
  "d < 10 \<Longrightarrow> (of_char (digit_char d) :: nat) = 48 + d"
  by (simp add: digit_char_def)

lemma char_digit_digit_char [simp]:
  "d < 10 \<Longrightarrow> char_digit (digit_char d) = Some d"
  by (simp add: char_digit_def)

lemma dec_digits_append:
  "dec_digits acc (xs @ ys) =
     (case dec_digits acc xs of None \<Rightarrow> None | Some a \<Rightarrow> dec_digits a ys)"
  by (induction xs arbitrary: acc) (auto split: option.splits)

lemma nat_to_dec_ne [simp]: "nat_to_dec n \<noteq> []"
  by (subst nat_to_dec.simps) simp

lemma dec_digits_nat_to_dec [simp]: "dec_digits 0 (nat_to_dec n) = Some n"
proof (induction n rule: nat_to_dec.induct)
  case (1 n)
  then show ?case
    by (subst nat_to_dec.simps) (simp add: dec_digits_append)
qed

lemma dec_to_nat_nat_to_dec [simp]: "dec_to_nat (nat_to_dec n) = Some n"
  by (simp add: dec_to_nat_def)

lemma nat_to_dec_inj: "nat_to_dec m = nat_to_dec n \<Longrightarrow> m = n"
  by (metis dec_to_nat_nat_to_dec option.inject)

lemma nat_to_dec_digits:
  "c \<in> set (nat_to_dec n) \<Longrightarrow> 48 \<le> (of_char c :: nat) \<and> (of_char c :: nat) \<le> 57"
proof (induction n rule: nat_to_dec.induct)
  case (1 n)
  then show ?case
    by (subst (asm) (2) nat_to_dec.simps) (auto split: if_splits)
qed

lemma nat_to_dec_no:
  "(of_char c :: nat) < 48 \<or> 57 < (of_char c :: nat) \<Longrightarrow> c \<notin> set (nat_to_dec n)"
  using nat_to_dec_digits by fastforce

lemma dec_digits_zeros [simp]:
  "dec_digits 0 (replicate k CHR ''0'' @ s) = dec_digits 0 s"
  by (induction k) (simp_all add: char_digit_def)

lemma dec_to_nat_pad_dec [simp]: "dec_to_nat (pad_dec w n) = Some n"
  by (simp add: pad_dec_def dec_to_nat_def Let_def)

lemma nat_to_dec_length:
  "n < 10 ^ Suc k \<Longrightarrow> length (nat_to_dec n) \<le> Suc k"
proof (induction k arbitrary: n)
  case 0
  then show ?case by (simp add: nat_to_dec.simps)
next
  case (Suc k)
  have "n div 10 < 10 ^ Suc k"
    using Suc.prems by (simp add: div_less_iff_less_mult)
  then show ?case
    using Suc.IH [of "n div 10"] by (simp add: nat_to_dec.simps [of n])
qed

lemma pad_dec_length:
  "n < 10 ^ w \<Longrightarrow> 0 < w \<Longrightarrow> length (pad_dec w n) = w"
  using nat_to_dec_length [of n "w - 1"] by (cases w) (simp_all add: pad_dec_def Let_def)

lemma pad_dec_no:
  "(of_char c :: nat) < 48 \<or> 57 < (of_char c :: nat) \<Longrightarrow> c \<notin> set (pad_dec w n)"
  using nat_to_dec_no [of c n] by (auto simp: pad_dec_def Let_def)

lemma pad_dec_inj: "pad_dec w m = pad_dec w n \<Longrightarrow> m = n"
  by (metis dec_to_nat_pad_dec option.inject)

end
