(* ===== verification/Calendar.thy ===== *)
theory Calendar
imports Decimal
begin

text \<open>
  \<open>core/src/merge.rs\<close>, \<open>conflict_stamp\<close> and \<open>civil_from_days\<close>: the UTC timestamp
  that goes into the name of a conflict copy.  The specification is the
  proleptic Gregorian calendar, given by the length of its months and the day
  after a date.
\<close>

definition civil_from_days :: "int \<Rightarrow> int \<times> int \<times> int" where
  "civil_from_days z0 =
     (let z = z0 + 719468;
          era = z div 146097;
          doe = z mod 146097;
          yoe = (doe - doe div 1460 + doe div 36524 - doe div 146096) div 365;
          y = yoe + era * 400;
          doy = doe - (365 * yoe + yoe div 4 - yoe div 100);
          mp = (5 * doy + 2) div 153;
          d = doy - (153 * mp + 2) div 5 + 1;
          m = (if mp < 10 then mp + 3 else mp - 9)
      in (if m \<le> 2 then y + 1 else y, m, d))"

definition conflict_stamp :: "int \<Rightarrow> string" where
  "conflict_stamp now =
     (let secs = (if now < 0 then 0 else now);
          days = secs div 86400;
          tod = secs mod 86400;
          (y, m, d) = civil_from_days days;
          h = tod div 3600;
          mi = tod mod 3600 div 60;
          s = tod mod 60
      in pad_dec 4 (nat y) @ ''-'' @ pad_dec 2 (nat m) @ ''-'' @ pad_dec 2 (nat d) @ '' ''
         @ pad_dec 2 (nat h) @ pad_dec 2 (nat mi) @ pad_dec 2 (nat s))"

section \<open>The calendar\<close>

definition leap_year :: "int \<Rightarrow> bool" where
  "leap_year y = (y mod 4 = 0 \<and> (y mod 100 \<noteq> 0 \<or> y mod 400 = 0))"

definition month_days :: "int \<Rightarrow> int \<Rightarrow> int" where
  "month_days y m =
     (if m = 2 then (if leap_year y then 29 else 28)
      else if m \<in> {4, 6, 9, 11} then 30 else 31)"

definition next_date :: "int \<times> int \<times> int \<Rightarrow> int \<times> int \<times> int" where
  "next_date = (\<lambda>(y, m, d).
     if d < month_days y m then (y, m, d + 1)
     else if m < 12 then (y, m + 1, 1)
     else (y + 1, 1, 1))"

section \<open>The year within an era\<close>

text \<open>Years start in March: \<open>year_start k\<close> is the first day of year \<open>k\<close> of a
  400-year era.\<close>

definition year_start :: "int \<Rightarrow> int" where
  "year_start k = 365 * k + k div 4 - k div 100"

definition yoe_num :: "int \<Rightarrow> int" where
  "yoe_num doe = doe - doe div 1460 + doe div 36524 - doe div 146096"

definition yoe_of :: "int \<Rightarrow> int" where
  "yoe_of doe = yoe_num doe div 365"

lemma yoe_num_step: "yoe_num (int n) \<le> yoe_num (int (Suc n))"
proof -
  have eq: "yoe_num (int k) =
      int k - int (k div 1460) + int (k div 36524) - int (k div 146096)" for k
    by (simp add: yoe_num_def zdiv_int)

  have "Suc n mod 146096 = 0 \<Longrightarrow> Suc n mod 36524 = 0"
    using mod_mod_cancel [of 36524 146096 "Suc n"] by simp
  then show ?thesis
    unfolding eq by (simp add: div_Suc)
qed

lemma yoe_num_mono:
  assumes "0 \<le> a" "a \<le> b"
  shows "yoe_num a \<le> yoe_num b"
  using lift_Suc_mono_le [of "\<lambda>n. yoe_num (int n)" "nat a" "nat b"] yoe_num_step assms
  by (simp add: nat_mono)

definition year_end :: "int \<Rightarrow> int" where
  "year_end k = (if k = 399 then 146097 else year_start (k + 1))"

lemma year_check:
  "list_all (\<lambda>k. 0 \<le> year_start k \<and> 365 * k \<le> yoe_num (year_start k)
       \<and> yoe_num (year_end k - 1) \<le> 365 * k + 364
       \<and> year_end k - year_start k = (if leap_year (k + 1) then 366 else 365)) [0..399]"
  by code_simp

lemma year_facts:
  assumes "0 \<le> k" "k \<le> 399"
  shows "0 \<le> year_start k" "365 * k \<le> yoe_num (year_start k)"
    "yoe_num (year_end k - 1) \<le> 365 * k + 364"
    "year_end k - year_start k = (if leap_year (k + 1) then 366 else 365)"
  using year_check assms by (auto simp: list_all_iff)

lemma yoe_of_eq:
  assumes "0 \<le> k" "k \<le> 399" "year_start k \<le> doe" "doe < year_end k"
  shows "yoe_of doe = k"
proof -
  have "yoe_num (year_start k) \<le> yoe_num doe" "yoe_num doe \<le> yoe_num (year_end k - 1)"
    using year_facts [OF assms(1,2)] assms(3,4) by (auto intro!: yoe_num_mono)
  then have "365 * k \<le> yoe_num doe" "yoe_num doe \<le> 365 * k + 364"
    using year_facts [OF assms(1,2)] by linarith+
  then show ?thesis
    by (simp add: yoe_of_def)
qed

lemma year_exists:
  assumes "0 \<le> doe" "doe < year_end (int n)" "n \<le> 399"
  shows "\<exists>k. 0 \<le> k \<and> k \<le> int n \<and> year_start k \<le> doe \<and> doe < year_end k"
  using assms
proof (induction n)
  case 0
  then show ?case by (intro exI [of _ 0]) (simp add: year_start_def)
next
  case (Suc n)
  show ?case
  proof (cases "year_start (int (Suc n)) \<le> doe")
    case True
    then show ?thesis using Suc.prems by (intro exI [of _ "int (Suc n)"]) simp
  next
    case False
    then have "doe < year_end (int n)"
      using Suc.prems by (simp add: year_end_def add.commute)
    then show ?thesis
      using Suc.IH Suc.prems by fastforce
  qed
qed

lemma year_of_doe:
  assumes "0 \<le> doe" "doe < 146097"
  obtains k where "0 \<le> k" "k \<le> 399" "year_start k \<le> doe" "doe < year_end k" "yoe_of doe = k"
  using year_exists [of doe 399] assms yoe_of_eq by (auto simp: year_end_def)

section \<open>The day within a year\<close>

definition md_of :: "int \<Rightarrow> int \<times> int" where
  "md_of doy =
     (let mp = (5 * doy + 2) div 153
      in (if mp < 10 then mp + 3 else mp - 9, doy - (153 * mp + 2) div 5 + 1))"

definition date_of :: "int \<Rightarrow> int \<Rightarrow> int \<times> int \<times> int" where
  "date_of y doy = (case md_of doy of (m, d) \<Rightarrow> (if m \<le> 2 then y + 1 else y, m, d))"

lemma civil_date_of:
  "civil_from_days z =
     (let e = (z + 719468) div 146097; doe = (z + 719468) mod 146097; k = yoe_of doe
      in date_of (k + e * 400) (doe - year_start k))"
  by (simp only: civil_from_days_def date_of_def md_of_def yoe_of_def yoe_num_def year_start_def
      Let_def prod.case)

definition md_step_ok :: "int \<Rightarrow> bool" where
  "md_step_ok doy =
     (case (md_of doy, md_of (doy + 1)) of ((m, d), (m', d')) \<Rightarrow>
        (let len = (if m = 2 then 28 else if m \<in> {4, 6, 9, 11} then 30 else 31)
         in if d < len then m' = m \<and> d' = d + 1
            else m \<noteq> 2 \<and> d' = 1 \<and> m' = (if m < 12 then m + 1 else 1) \<and> m \<le> 12))"

lemma md_check: "list_all md_step_ok [0..363]"
  by code_simp

lemma md_pos:
  assumes "0 \<le> doy" "doy \<le> 363" "md_of doy = (m, d)"
  shows "1 \<le> m"
proof -
  have "list_all (\<lambda>doy. 1 \<le> fst (md_of doy)) [0..363]"
    by code_simp
  then have "1 \<le> fst (md_of doy)"
    using assms(1,2) by (simp add: list_all_iff)
  then show ?thesis
    using assms(3) by simp
qed

lemma md_values:
  "md_of 0 = (3, 1)" "md_of 364 = (2, 28)" "md_of 365 = (2, 29)"
  by (simp_all add: md_of_def)

lemma next_date_cases:
  assumes "\<And>y. days y m = len"
    and "if d < len then m' = m \<and> d' = d + 1
         else d' = 1 \<and> m' = (if m < 12 then m + 1 else 1) \<and> m \<le> 12"
    and "1 \<le> m" "m \<noteq> (2::int)"
  shows "(if m' \<le> 2 then y + 1 else y, m', d') =
    (if d < days (if m \<le> 2 then y + 1 else y) m then (if m \<le> 2 then y + 1 else y, m, d + (1::int))
     else if m < 12 then (if m \<le> 2 then y + 1 else y, m + 1, 1)
     else ((if m \<le> 2 then y + 1 else y) + (1::int), 1, 1))"
proof (cases "d < len")
  case False
  with assms show ?thesis by (cases "m < 12") simp_all
qed (use assms in simp)

lemma date_of_step:
  assumes "0 \<le> doy" "doy \<le> 363"
  shows "date_of y (doy + 1) = next_date (date_of y doy)"
proof -
  have "md_step_ok doy"
    using md_check assms by (auto simp: list_all_iff)
  moreover obtain m d m' d' where md: "md_of doy = (m, d)" "md_of (doy + 1) = (m', d')"
    by fastforce
  ultimately have *: "if d < (if m = 2 then 28 else if m \<in> {4, 6, 9, 11} then 30 else 31)
      then m' = m \<and> d' = d + 1
      else m \<noteq> 2 \<and> d' = 1 \<and> m' = (if m < 12 then m + 1 else 1) \<and> m \<le> 12"
    by (simp only: md_step_ok_def Let_def prod.case)
  show ?thesis
  proof (cases "m = 2")
    case True
    then show ?thesis
      using * by (simp add: date_of_def next_date_def md month_days_def split: if_splits)
  next
    case False
    define len :: int where "len = (if m \<in> {4, 6, 9, 11} then 30 else 31)"
    have md_len: "month_days y' m = len" for y'
      using False by (simp add: month_days_def len_def)
    have step: "if d < len then m' = m \<and> d' = d + 1
        else d' = 1 \<and> m' = (if m < 12 then m + 1 else 1) \<and> m \<le> 12"
      using * False unfolding len_def by simp
    have pos: "1 \<le> m"
      using md_pos [OF assms md(1)] .
    show ?thesis
      unfolding date_of_def next_date_def md prod.case
      by (rule next_date_cases [where days = month_days, OF md_len step pos False])
  qed
qed

lemma leap_year_era: "leap_year (k + e * 400 + 1) = leap_year (k + 1)"
proof -
  have eq: "(k + e * 400 + 1) mod d = (k + 1) mod d" if "c * d = 400" for c d
  proof -
    have "k + e * 400 + 1 = (k + 1) + (e * c) * d"
      using that by (simp only: mult.assoc)
    then show ?thesis
      by (simp only: mod_mult_self1)
  qed
  have "(k + e * 400 + 1) mod 4 = (k + 1) mod 4" "(k + e * 400 + 1) mod 100 = (k + 1) mod 100"
    "(k + e * 400 + 1) mod 400 = (k + 1) mod 400"
    by (rule eq [of 100], simp) (rule eq [of 4], simp, rule eq [of 1], simp)
  then show ?thesis
    by (simp only: leap_year_def)
qed

lemma date_of_last:
  assumes "doy = (if leap_year (y + 1) then 365 else 364)"
  shows "next_date (date_of y doy) = (y + 1, 3, 1)"
  using assms by (simp add: date_of_def next_date_def month_days_def md_values split: if_splits)

lemma date_of_step_year:
  assumes "0 \<le> doy" "doy + 1 < (if leap_year (y + 1) then 366 else 365)"
  shows "date_of y (doy + 1) = next_date (date_of y doy)"
proof (cases "doy = 364")
  case True
  then show ?thesis
    using assms by (simp add: date_of_def next_date_def month_days_def md_values split: if_splits)
qed (use assms date_of_step in \<open>auto split: if_splits\<close>)

lemma date_of_first: "date_of y 0 = (y, 3, 1)"
  by (simp add: date_of_def md_values)

lemma md_range_check:
  "list_all (\<lambda>doy. case md_of doy of (m, d) \<Rightarrow> 1 \<le> m \<and> m \<le> 12 \<and> 1 \<le> d \<and> d \<le> 31) [0..365]"
  by code_simp

lemma date_of_range:
  assumes "0 \<le> doy" "doy \<le> 365" "date_of y doy = (y', m, d)"
  shows "1 \<le> m \<and> m \<le> 12 \<and> 1 \<le> d \<and> d \<le> 31"
  using md_range_check assms by (force simp: list_all_iff date_of_def split: prod.splits if_splits)

lemma civil_epoch: "civil_from_days 0 = (1970, 1, 1)"
  by code_simp

lemma year_end_le: "0 \<le> k \<Longrightarrow> k \<le> 399 \<Longrightarrow> year_end k \<le> 146097"
  by (cases "k = 399") (auto simp: year_end_def year_start_def)

lemma div_mod_succ:
  fixes a b :: int
  assumes "0 < b"
  shows "a mod b + 1 < b \<Longrightarrow> (a + 1) div b = a div b \<and> (a + 1) mod b = a mod b + 1"
    "a mod b + 1 = b \<Longrightarrow> (a + 1) div b = a div b + 1 \<and> (a + 1) mod b = 0"
proof -
  have a: "a + 1 = b * (a div b) + (a mod b + 1)"
    by simp
  have pos: "0 \<le> a mod b"
    using assms by simp
  show "a mod b + 1 < b \<Longrightarrow> (a + 1) div b = a div b \<and> (a + 1) mod b = a mod b + 1"
    using pos int_div_pos_eq [OF a] int_mod_pos_eq [OF a] by auto
  show "a mod b + 1 = b \<Longrightarrow> (a + 1) div b = a div b + 1 \<and> (a + 1) mod b = 0"
    using int_div_pos_eq [of "a + 1" b "a div b + 1" 0] int_mod_pos_eq [of "a + 1" b "a div b + 1" 0]
      a assms by (auto simp: algebra_simps)
qed

lemma civil_of_year:
  assumes "(z + 719468) div 146097 = e" "(z + 719468) mod 146097 = doe"
    and "0 \<le> k" "k \<le> 399" "year_start k \<le> doe" "doe < year_end k"
  shows "civil_from_days z = date_of (k + e * 400) (doe - year_start k)"
  using yoe_of_eq [OF assms(3-6)] by (simp add: civil_date_of assms(1,2))

lemma civil_obtain:
  obtains k e doe where "(z + 719468) div 146097 = e" "(z + 719468) mod 146097 = doe"
    "0 \<le> k" "k \<le> 399" "year_start k \<le> doe" "doe < year_end k"
    "civil_from_days z = date_of (k + e * 400) (doe - year_start k)"
    "year_end k - year_start k = (if leap_year (k + e * 400 + 1) then 366 else 365)"
proof -
  have "0 \<le> (z + 719468) mod 146097" "(z + 719468) mod 146097 < 146097"
    by simp_all
  then obtain k where k: "0 \<le> k" "k \<le> 399" "year_start k \<le> (z + 719468) mod 146097"
    "(z + 719468) mod 146097 < year_end k"
    using year_of_doe by metis
  have "year_end k - year_start k
      = (if leap_year (k + (z + 719468) div 146097 * 400 + 1) then 366 else 365)"
    using year_facts(4) [OF k(1,2)] by (simp only: leap_year_era)
  then show thesis
    using that [OF refl refl k civil_of_year [OF refl refl k]] by simp
qed

text \<open>\<open>civil_from_days\<close> is the Gregorian calendar: day 0 is 1970-01-01 and
  the day after day \<open>z\<close> is the calendar's next date, for every \<open>z\<close> (before the
  epoch too); month and day are in range, so the casts to \<open>u32\<close> are exact.\<close>

theorem civil_from_days_calendar:
  "civil_from_days 0 = (1970, 1, 1)
   \<and> civil_from_days (z + 1) = next_date (civil_from_days z)
   \<and> (case civil_from_days z of (y, m, d) \<Rightarrow> 1 \<le> m \<and> m \<le> 12 \<and> 1 \<le> d \<and> d \<le> 31)"
proof -
  obtain k e doe where z: "(z + 719468) div 146097 = e" "(z + 719468) mod 146097 = doe"
    and k: "0 \<le> k" "k \<le> 399" "year_start k \<le> doe" "doe < year_end k"
    and civil: "civil_from_days z = date_of (k + e * 400) (doe - year_start k)"
    and len: "year_end k - year_start k = (if leap_year (k + e * 400 + 1) then 366 else 365)"
    using civil_obtain [of z] .
  let ?y = "k + e * 400" and ?doy = "doe - year_start k"
  have le: "year_end k \<le> 146097"
    using year_end_le k by blast
  consider (same) "doe + 1 < year_end k" | (next_year) "doe + 1 = year_end k" "k < 399"
    | (next_era) "doe + 1 = 146097" "k = 399"
  proof -
    have "doe + 1 < year_end k \<or> doe + 1 = year_end k"
      using k(4) by linarith
    moreover have "k < 399 \<or> k = 399 \<and> year_end k = 146097"
      using k(2) by (auto simp: year_end_def)
    ultimately show thesis
      using that by metis
  qed
  then have "civil_from_days (z + 1) = next_date (civil_from_days z)"
  proof cases
    case same
    then have "civil_from_days (z + 1) = date_of ?y (doe + 1 - year_start k)"
      using div_mod_succ(1) [of 146097 "z + 719468"] z k le
      by (intro civil_of_year) (auto simp: algebra_simps)
    then show ?thesis
      using date_of_step_year [of ?doy ?y] len same k civil by (simp add: algebra_simps)
  next
    case next_year
    have "year_end k = year_start (k + 1)"
      using next_year by (simp add: year_end_def)
    moreover have "year_start (k + 1) < year_end (k + 1)"
      using year_facts(4) [of "k + 1"] next_year k by (simp split: if_splits)
    ultimately have "civil_from_days (z + 1) = date_of (k + 1 + e * 400) (doe + 1 - year_start (k + 1))"
      using div_mod_succ(1) [of 146097 "z + 719468"] z k le next_year year_end_le [of "k + 1"]
      by (intro civil_of_year) (auto simp: algebra_simps)
    moreover have "next_date (date_of ?y ?doy) = (?y + 1, 3, 1)"
      using len next_year by (intro date_of_last) (simp split: if_splits)
    ultimately show ?thesis
      using civil next_year \<open>year_end k = _\<close> by (simp add: date_of_first)
  next
    case next_era
    have "civil_from_days (z + 1) = date_of (0 + (e + 1) * 400) (0 - year_start 0)"
      using div_mod_succ(2) [of 146097 "z + 719468"] z next_era
      by (intro civil_of_year) (auto simp: algebra_simps year_start_def year_end_def)
    moreover have "next_date (date_of ?y ?doy) = (?y + 1, 3, 1)"
      using len next_era by (intro date_of_last) (simp add: year_end_def split: if_splits)
    ultimately show ?thesis
      using civil next_era by (simp add: date_of_first year_start_def)
  qed
  moreover have "case civil_from_days z of (y, m, d) \<Rightarrow> 1 \<le> m \<and> m \<le> 12 \<and> 1 \<le> d \<and> d \<le> 31"
  proof -
    have "0 \<le> ?doy" "?doy \<le> 365"
      using k len by (simp_all split: if_splits)
    then show ?thesis
      using date_of_range [of ?doy ?y] civil by (auto split: prod.splits)
  qed
  ultimately show ?thesis
    using civil_epoch by blast
qed

end
