(* ===== verification/Manifest.thy ===== *)
theory Manifest
imports Strings
begin

text \<open>
  \<open>core/src/manifest.rs\<close> and \<open>core/src/lib.rs\<close>: the manifest of a workspace
  (path \<open>\<rightarrow>\<close> file entry), the difference of two manifests, the validation every
  manifest from disk or network goes through, and the workspace metadata file.
  \<open>serde_json\<close> is a parameter of \<open>load\<close>, \<open>load_workspace\<close> and
  \<open>init_workspace\<close>; a file read is a value of \<open>read_outcome\<close>.
\<close>

section \<open>Data\<close>

record file_entry =
  fe_size :: "64 word"
  fe_mode :: "32 word"
  fe_mtime_secs :: int
  fe_mtime_nanos :: int
  fe_chunks :: "string list"

record manifest =
  mf_version :: "32 word"
  mf_workspace_id :: string
  mf_scanned_at_secs :: int
  mf_files :: "(string, file_entry) btree"

record manifest_diff =
  md_added :: "string list"
  md_changed :: "string list"
  md_deleted :: "string list"

definition FORMAT_VERSION :: "32 word" where
  "FORMAT_VERSION = 1"

definition manifest_new :: "string \<Rightarrow> manifest" where
  "manifest_new wid =
     \<lparr>mf_version = FORMAT_VERSION, mf_workspace_id = wid, mf_scanned_at_secs = 0, mf_files = []\<rparr>"

abbreviation entry_at :: "manifest \<Rightarrow> string \<Rightarrow> file_entry option" where
  "entry_at m \<equiv> bt_get (mf_files m)"

definition manifest_wf :: "manifest \<Rightarrow> bool" where
  "manifest_wf m = bt_wf (mf_files m)"

section \<open>Difference of two manifests\<close>

definition diff :: "manifest \<Rightarrow> manifest \<Rightarrow> manifest_diff" where
  "diff old new =
     \<lparr>md_added = filter (\<lambda>path. entry_at old path = None) (bt_keys (mf_files new)),
      md_changed =
        filter (\<lambda>path. case entry_at old path of
                         None \<Rightarrow> False
                       | Some entry \<Rightarrow> Some entry \<noteq> entry_at new path) (bt_keys (mf_files new)),
      md_deleted = filter (\<lambda>path. \<not> bt_contains (mf_files new) path) (bt_keys (mf_files old))\<rparr>"

definition diff_empty :: "manifest_diff \<Rightarrow> bool" where
  "diff_empty d = (md_added d = [] \<and> md_changed d = [] \<and> md_deleted d = [])"

text \<open>The specification of a difference: what applying it means.\<close>

definition patch_files ::
  "(string, file_entry) btree \<Rightarrow> manifest_diff \<Rightarrow> (string, file_entry) btree \<Rightarrow> (string, file_entry) btree" where
  "patch_files new d old =
     fold (\<lambda>p m. case bt_get new p of None \<Rightarrow> m | Some e \<Rightarrow> bt_insert p e m)
       (md_added d @ md_changed d) (fold bt_remove (md_deleted d) old)"

section \<open>Validation\<close>

datatype manifest_error =
    EmptyPath
  | NonCanonicalPath string
  | UnsafePath string
  | TargetsPear string
  | BadChunkHash string string
  | FileDirConflict string string

definition is_normal :: "component \<Rightarrow> bool" where
  "is_normal c = (case c of Normal _ \<Rightarrow> True | _ \<Rightarrow> False)"

definition targets_pear :: "string \<Rightarrow> bool" where
  "targets_pear rel =
     (case path_components rel of
        Normal first # _ \<Rightarrow> eq_ignore_ascii_case first ''.pear''
      | _ \<Rightarrow> False)"

definition validate_path :: "string \<Rightarrow> (manifest_error, unit) result" where
  "validate_path rel =
     (if rel = '''' then Inl EmptyPath
      else if list_ex (\<lambda>c. c = '''') (split_on CHR ''/'' rel) then Inl (NonCanonicalPath rel)
      else if list_ex (\<lambda>c. \<not> is_normal c) (path_components rel) then Inl (UnsafePath rel)
      else if targets_pear rel then Inl (TargetsPear rel)
      else Inr ())"

definition is_digest_byte :: "char \<Rightarrow> bool" where
  "is_digest_byte c =
     (let b = (of_char c :: nat) in (48 \<le> b \<and> b \<le> 57) \<or> (97 \<le> b \<and> b \<le> 102))"

definition is_chunk_hash :: "string \<Rightarrow> bool" where
  "is_chunk_hash hash = (length hash = 64 \<and> list_all is_digest_byte hash)"

definition validate_entry :: "string \<times> file_entry \<Rightarrow> (manifest_error, unit) result" where
  "validate_entry kv =
     rbind (validate_path (fst kv)) (\<lambda>_.
       check_all (\<lambda>hash. if is_chunk_hash hash then Inr () else Inl (BadChunkHash hash (fst kv)))
         (fe_chunks (snd kv)))"

definition check_ancestors :: "manifest \<Rightarrow> string \<Rightarrow> (manifest_error, unit) result" where
  "check_ancestors m path =
     (case find (\<lambda>ancestor. bt_contains (mf_files m) ancestor) (ancestors path) of
        None \<Rightarrow> Inr ()
      | Some ancestor \<Rightarrow> Inl (FileDirConflict path ancestor))"

definition validate :: "manifest \<Rightarrow> (manifest_error, unit) result" where
  "validate m =
     rbind (check_all validate_entry (mf_files m)) (\<lambda>_.
       check_all (check_ancestors m) (bt_keys (mf_files m)))"

section \<open>Loading from disk\<close>

datatype 'a read_outcome = ReadOk 'a | ReadNotFound | ReadFailed

datatype load_error = ParseError | InvalidManifest manifest_error | IoError

definition load ::
  "('b \<Rightarrow> manifest option) \<Rightarrow> 'b read_outcome \<Rightarrow> (load_error, manifest option) result" where
  "load from_slice r =
     (case r of
        ReadOk data \<Rightarrow>
          (case from_slice data of
             None \<Rightarrow> Inl ParseError
           | Some m \<Rightarrow>
               (case validate m of
                  Inl e \<Rightarrow> Inl (InvalidManifest e)
                | Inr _ \<Rightarrow> Inr (Some m)))
      | ReadNotFound \<Rightarrow> Inr None
      | ReadFailed \<Rightarrow> Inl IoError)"

section \<open>Workspace metadata\<close>

record workspace_meta =
  wm_id :: string
  wm_version :: "32 word"

datatype workspace_error = WsParse | WsIo | WsRetarget string string

definition load_workspace ::
  "('b \<Rightarrow> workspace_meta option) \<Rightarrow> 'b read_outcome
     \<Rightarrow> (workspace_error, workspace_meta option) result" where
  "load_workspace from_slice r =
     (case r of
        ReadOk data \<Rightarrow>
          (case from_slice data of None \<Rightarrow> Inl WsParse | Some meta \<Rightarrow> Inr (Some meta))
      | ReadNotFound \<Rightarrow> Inr None
      | ReadFailed \<Rightarrow> Inl WsIo)"

text \<open>\<open>init_workspace\<close> returns the metadata, whether it was created, and the
  content of \<open>workspace.json\<close> afterwards; \<open>random\<close> is the hex form of the
  sixteen random bytes drawn when no id is given.\<close>

definition init_workspace ::
  "('b \<Rightarrow> workspace_meta option) \<Rightarrow> (workspace_meta \<Rightarrow> 'b) \<Rightarrow> string
     \<Rightarrow> 'b read_outcome \<Rightarrow> string option
     \<Rightarrow> (workspace_error, (workspace_meta \<times> bool) \<times> 'b read_outcome) result" where
  "init_workspace from_slice to_vec random disk wanted =
     rbind (load_workspace from_slice disk) (\<lambda>existing.
       case existing of
         Some meta \<Rightarrow>
           (case wanted of
              Some want \<Rightarrow>
                (if wm_id meta \<noteq> want then Inl (WsRetarget (wm_id meta) want)
                 else Inr ((meta, False), disk))
            | None \<Rightarrow> Inr ((meta, False), disk))
       | None \<Rightarrow>
           (let meta = \<lparr>wm_id = (case wanted of Some i \<Rightarrow> i | None \<Rightarrow> random),
                        wm_version = FORMAT_VERSION\<rparr>
            in Inr ((meta, True), ReadOk (to_vec meta))))"

section \<open>Facts on the difference\<close>

lemma diff_added_iff [bt_simps]:
  "p \<in> set (md_added (diff old new)) \<longleftrightarrow> entry_at old p = None \<and> entry_at new p \<noteq> None"
  by (auto simp: diff_def)

lemma diff_changed_iff [bt_simps]:
  "p \<in> set (md_changed (diff old new)) \<longleftrightarrow>
     (\<exists>e f. entry_at old p = Some e \<and> entry_at new p = Some f \<and> e \<noteq> f)"
  by (auto simp: diff_def split: option.splits)

lemma diff_deleted_iff [bt_simps]:
  "p \<in> set (md_deleted (diff old new)) \<longleftrightarrow> entry_at old p \<noteq> None \<and> entry_at new p = None"
  by (auto simp: diff_def bt_contains_def)

lemma diff_wf_lists:
  assumes "manifest_wf old" "manifest_wf new"
  shows "sorted_wrt (<) (md_added (diff old new))"
    "sorted_wrt (<) (md_changed (diff old new))"
    "sorted_wrt (<) (md_deleted (diff old new))"
  using assms
  by (simp_all add: diff_def manifest_wf_def bt_wf_def bt_keys_def sorted_wrt_filter)

lemmas fold_bt_remove [bt_simps] = bt.lookup_fold_del
lemmas fold_bt_remove_wf = bt.wf_fold_del

lemma fold_insert_from [bt_simps]:
  "bt_get (fold (\<lambda>p m. case bt_get new p of None \<Rightarrow> m | Some e \<Rightarrow> bt_insert p e m) ks m) q =
     (if q \<in> set ks \<and> bt_get new q \<noteq> None then bt_get new q else bt_get m q)"
proof (induction ks arbitrary: m)
  case (Cons k ks)
  then show ?case by (auto split: option.splits)
qed simp

lemma fold_insert_from_wf:
  "bt_wf m \<Longrightarrow>
   bt_wf (fold (\<lambda>p m. case bt_get new p of None \<Rightarrow> m | Some e \<Rightarrow> bt_insert p e m) ks m)"
  by (induction ks arbitrary: m) (auto split: option.splits)

lemma patch_files_wf:
  "bt_wf old \<Longrightarrow> bt_wf (patch_files new d old)"
  by (simp add: patch_files_def fold_insert_from_wf fold_bt_remove_wf)

lemma Nil_iff: "xs = [] \<longleftrightarrow> (\<forall>p. p \<notin> set xs)"
  by (cases xs) auto

lemma diff_empty_iff:
  "diff_empty d \<longleftrightarrow>
     (\<forall>p. p \<notin> set (md_added d) \<and> p \<notin> set (md_changed d) \<and> p \<notin> set (md_deleted d))"
  by (simp only: diff_empty_def Nil_iff) blast

text \<open>The difference of two manifests is exact: patching the old files with
  it gives the new files, entry for entry, and it is empty exactly when the two
  file maps are equal.\<close>

theorem diff_patch:
  assumes "manifest_wf old" "manifest_wf new"
  shows "patch_files (mf_files new) (diff old new) (mf_files old) = mf_files new
    \<and> (diff_empty (diff old new) \<longleftrightarrow> mf_files old = mf_files new)"
proof
  have wf: "bt_wf (mf_files old)" "bt_wf (mf_files new)"
    using assms by (simp_all add: manifest_wf_def)
  show "patch_files (mf_files new) (diff old new) (mf_files old) = mf_files new"
  proof (rule bt_ext)
    fix k
    show "bt_get (patch_files (mf_files new) (diff old new) (mf_files old)) k = entry_at new k"
      by (cases "entry_at old k"; cases "entry_at new k")
        (simp_all add: patch_files_def bt_simps del: set_bt_keys)
  qed (use wf patch_files_wf in auto)

  have "p \<notin> set (md_added (diff old new)) \<and> p \<notin> set (md_changed (diff old new))
      \<and> p \<notin> set (md_deleted (diff old new)) \<longleftrightarrow> entry_at old p = entry_at new p" for p
    by (cases "entry_at old p"; cases "entry_at new p") (simp_all add: bt_simps)
  then have "diff_empty (diff old new) \<longleftrightarrow> (\<forall>k. entry_at old k = entry_at new k)"
    by (simp only: diff_empty_iff)
  then show "diff_empty (diff old new) \<longleftrightarrow> mf_files old = mf_files new"
    using wf bt_ext by metis
qed

lemma diff_patch_witness:
  "patch_files (mf_files (manifest_new ''w'')) (diff (manifest_new ''w'') (manifest_new ''w''))
     (mf_files (manifest_new ''w'')) = mf_files (manifest_new ''w'')"
  using diff_patch [of "manifest_new ''w''" "manifest_new ''w''"]
  by (simp add: manifest_wf_def manifest_new_def)

section \<open>Facts on validation\<close>

definition path_ok :: "string \<Rightarrow> bool" where
  "path_ok rel =
     (let segs = split_on CHR ''/'' rel in
        '''' \<notin> set segs \<and> ''..'' \<notin> set segs \<and> hd segs \<noteq> ''.''
          \<and> \<not> eq_ignore_ascii_case (hd segs) ''.pear'')"

lemma segment_components_normal:
  "(\<forall>c\<in>set (concat (map segment_component cs)). is_normal c) \<longleftrightarrow> ''..'' \<notin> set cs"
  by (induction cs) (auto simp: is_normal_def)

lemma segment_components_ok:
  assumes "'''' \<notin> set cs" "''..'' \<notin> set cs"
  shows "concat (map segment_component cs) = map Normal (filter (\<lambda>s. s \<noteq> ''.'') cs)"
  using assms by (induction cs) auto

lemma split_on_abs: "starts_with s ''/'' \<Longrightarrow> '''' \<in> set (split_on CHR ''/'' s)"
  by (cases s) auto

lemma validate_path_ok [res_simps]:
  "validate_path rel = Inr () \<longleftrightarrow> path_ok rel"
proof (cases "split_on CHR ''/'' rel")
  case (Cons c cs)
  have e: "rel = '''' \<Longrightarrow> '''' \<in> set (split_on CHR ''/'' rel)" by simp
  show ?thesis
  proof (cases "'''' \<in> set (split_on CHR ''/'' rel)")
    case True
    then show ?thesis
      by (auto simp: validate_path_def path_ok_def list_ex_iff)
  next
    case False
    then have "\<not> starts_with rel ''/''" "rel \<noteq> ''''" "c \<noteq> ''''"
      using split_on_abs [of rel] e Cons by auto
    then show ?thesis
      using False Cons segment_components_normal [of cs]
      by (auto simp: validate_path_def path_ok_def list_ex_iff targets_pear_def is_normal_def
          simp del: set_concat)
  qed
qed simp

lemma validate_entry_ok [res_simps]:
  "validate_entry (p, e) = Inr () \<longleftrightarrow> path_ok p \<and> (\<forall>h\<in>set (fe_chunks e). is_chunk_hash h)"
  by (auto simp: validate_entry_def res_simps)

lemma check_ancestors_ok [res_simps]:
  "check_ancestors m p = Inr () \<longleftrightarrow> (\<forall>a q. p = a @ CHR ''/'' # q \<longrightarrow> entry_at m a = None)"
proof (cases "find (\<lambda>ancestor. bt_contains (mf_files m) ancestor) (ancestors p)")
  case None
  then have "\<forall>a\<in>set (ancestors p). entry_at m a = None"
    by (auto simp: find_None_iff bt_contains_def)
  then show ?thesis
    using None by (auto simp: check_ancestors_def ancestors_iff)
next
  case (Some a)
  then have "a \<in> set (ancestors p)" "entry_at m a \<noteq> None"
    by (auto simp: find_Some_iff bt_contains_def)
  then show ?thesis
    using Some by (auto simp: check_ancestors_def ancestors_iff)
qed

lemma validate_exact:
  "validate m = Inr () \<longleftrightarrow>
     (\<forall>(p, e) \<in> set (mf_files m). path_ok p \<and> (\<forall>h\<in>set (fe_chunks e). is_chunk_hash h))
     \<and> (\<forall>a q. entry_at m (a @ CHR ''/'' # q) \<noteq> None \<longrightarrow> entry_at m a = None)"
proof -
  have "(\<forall>p \<in> set (bt_keys (mf_files m)). check_ancestors m p = Inr ())
      \<longleftrightarrow> (\<forall>a q. entry_at m (a @ CHR ''/'' # q) \<noteq> None \<longrightarrow> entry_at m a = None)"
    by (auto simp: check_ancestors_ok domIff)
  moreover have "(\<forall>kv \<in> set (mf_files m). validate_entry kv = Inr ()) \<longleftrightarrow>
      (\<forall>(p, e) \<in> set (mf_files m). path_ok p \<and> (\<forall>h\<in>set (fe_chunks e). is_chunk_hash h))"
    by (auto simp: validate_entry_ok)
  moreover have "validate m = Inr () \<longleftrightarrow>
      (\<forall>kv \<in> set (mf_files m). validate_entry kv = Inr ())
      \<and> (\<forall>p \<in> set (bt_keys (mf_files m)). check_ancestors m p = Inr ())"
    by (simp add: validate_def rbind_ok_iff check_all_ok [symmetric] del: set_bt_keys)
  ultimately show ?thesis
    by (simp only:)
qed


lemma filter_neq_id: "a \<notin> set xs \<Longrightarrow> filter (\<lambda>s. s \<noteq> a) xs = xs"
  by (induction xs) auto

lemma path_ok_components:
  assumes "path_ok p"
  shows "path_components p = map Normal (filter (\<lambda>s. s \<noteq> ''.'') (split_on CHR ''/'' p))"
proof (cases "split_on CHR ''/'' p")
  case (Cons c cs)
  then have "\<not> starts_with p ''/''"
    using assms split_on_abs [of p] by (auto simp: path_ok_def Let_def)
  then show ?thesis
    using assms Cons segment_components_ok [of cs]
    by (auto simp: path_ok_def Let_def simp del: set_concat)
qed simp

lemma path_ok_segments:
  assumes "path_ok p"
  obtains c cs where "split_on CHR ''/'' p = c # cs"
    "c \<notin> {'''', ''.'', ''..''}" "\<not> eq_ignore_ascii_case c ''.pear''"
    "'''' \<notin> set cs" "''..'' \<notin> set cs"
  using assms by (cases "split_on CHR ''/'' p") (auto simp: path_ok_def Let_def)

text \<open>Where a manifest key lands on disk: the names \<open>PathBuf::join\<close> descends
  through, relative to the workspace root.\<close>

definition disk_names :: "string \<Rightarrow> string list" where
  "disk_names p =
     concat (map (\<lambda>c. case c of Normal n \<Rightarrow> [n] | ParentDir \<Rightarrow> [''..''] | _ \<Rightarrow> [])
               (path_components p))"

lemma disk_names_ok:
  "path_ok p \<Longrightarrow> disk_names p = filter (\<lambda>s. s \<noteq> ''.'') (split_on CHR ''/'' p)"
  by (simp add: disk_names_def path_ok_components comp_def
      del: path_components.simps)

lemma validate_key_ok:
  assumes "validate m = Inr ()" "entry_at m p = Some e"
  shows "path_ok p" "\<forall>h\<in>set (fe_chunks e). is_chunk_hash h"
  using assms map_of_SomeD [of "mf_files m" p e] by (auto simp: validate_exact)

text \<open>A validated manifest cannot reach outside its tree or into pear's own
  store: every key is a relative path that descends through at least one real
  name, never through \<open>..\<close>, and whose first name is not \<open>.pear\<close> in any ASCII
  case.\<close>

theorem validated_path_confined:
  assumes "validate m = Inr ()" "entry_at m p = Some e"
  shows "\<exists>n ns. path_components p = map Normal (n # ns) \<and> disk_names p = n # ns
    \<and> (\<forall>x\<in>set (n # ns). x \<notin> {'''', ''.'', ''..''} \<and> CHR ''/'' \<notin> set x)
    \<and> \<not> eq_ignore_ascii_case n ''.pear''"
proof -
  have ok: "path_ok p"
    using validate_key_ok [OF assms] by simp
  obtain c cs where seg: "split_on CHR ''/'' p = c # cs"
    "c \<notin> {'''', ''.'', ''..''}" "\<not> eq_ignore_ascii_case c ''.pear''"
    "'''' \<notin> set cs" "''..'' \<notin> set cs"
    using path_ok_segments [OF ok] .
  have sep: "\<forall>x\<in>set (c # cs). CHR ''/'' \<notin> set x"
    using split_on_no_sep [of _ "CHR ''/''" p] seg(1) by auto
  have "path_components p = map Normal (c # filter (\<lambda>s. s \<noteq> ''.'') cs)"
    "disk_names p = c # filter (\<lambda>s. s \<noteq> ''.'') cs"
    using path_ok_components [OF ok] disk_names_ok [OF ok] seg by auto
  moreover have "\<forall>x\<in>set (c # filter (\<lambda>s. s \<noteq> ''.'') cs).
      x \<notin> {'''', ''.'', ''..''} \<and> CHR ''/'' \<notin> set x"
    using seg sep by auto
  ultimately show ?thesis
    using seg(3) by blast
qed

text \<open>A small valid manifest, used to instantiate hypotheses.\<close>

definition sample_hash :: string where
  "sample_hash = replicate 64 CHR ''a''"

definition sample_entry :: "int \<Rightarrow> file_entry" where
  "sample_entry t = \<lparr>fe_size = 1, fe_mode = 420, fe_mtime_secs = t, fe_mtime_nanos = 0,
     fe_chunks = [sample_hash]\<rparr>"

definition sample_manifest :: "string list \<Rightarrow> manifest" where
  "sample_manifest ps = (manifest_new ''w'')\<lparr>mf_files := map (\<lambda>p. (p, sample_entry 1)) ps\<rparr>"


lemma sample_hash_ok: "is_chunk_hash sample_hash"
  by (simp add: sample_hash_def is_chunk_hash_def list_all_iff is_digest_byte_def)

lemma validated_path_confined_witness:
  "\<exists>n ns. path_components ''d/f'' = map Normal (n # ns) \<and> disk_names ''d/f'' = n # ns
    \<and> (\<forall>x\<in>set (n # ns). x \<notin> {'''', ''.'', ''..''} \<and> CHR ''/'' \<notin> set x)
    \<and> \<not> eq_ignore_ascii_case n ''.pear''"
proof (rule validated_path_confined)
  show "validate (sample_manifest [''d/f'']) = Inr ()"
    by code_simp
  show "entry_at (sample_manifest [''d/f'']) ''d/f'' = Some (sample_entry 1)"
    by (simp add: sample_manifest_def)
qed

text \<open>In a validated manifest the keys without a \<open>.\<close> component are
  canonical: two of them that land on the same disk path are the same key, and
  none lands inside another.\<close>

theorem validated_keys_no_alias:
  assumes "validate m = Inr ()" "entry_at m p \<noteq> None" "entry_at m q \<noteq> None"
    and "''.'' \<notin> set (split_on CHR ''/'' p)" "''.'' \<notin> set (split_on CHR ''/'' q)"
    and "disk_names q = disk_names p @ rest"
  shows "rest = [] \<and> p = q"
proof -
  have ok: "path_ok p" "path_ok q"
    using assms(1-3) validate_key_ok(1) by blast+
  have names: "disk_names p = split_on CHR ''/'' p" "disk_names q = split_on CHR ''/'' q"
    using ok assms(4,5) by (simp_all add: disk_names_ok filter_neq_id)
  show ?thesis
  proof (cases rest)
    case Nil
    then show ?thesis
      using assms(6) names split_on_inj by (metis append_Nil2)
  next
    case (Cons r rs)
    have "\<forall>w\<in>set (r # rs). CHR ''/'' \<notin> set w"
      using split_on_no_sep [of _ "CHR ''/''" q] assms(6) names Cons by auto
    then have "split_on CHR ''/'' (p @ CHR ''/'' # join_with CHR ''/'' (r # rs)) = split_on CHR ''/'' q"
      using assms(6) names Cons split_join [of "r # rs" "CHR ''/''"] by (simp add: split_on_append)
    then have "q = p @ CHR ''/'' # join_with CHR ''/'' (r # rs)"
      using split_on_inj by metis
    then show ?thesis
      using assms(1-3) unfolding validate_exact by metis
  qed
qed

lemma validated_keys_no_alias_witness:
  "([] :: string list) = [] \<and> ''d/f'' = ''d/f''"
  by (rule validated_keys_no_alias [of "sample_manifest [''d/f'']"])
    (code_simp, simp_all add: sample_manifest_def disk_names_def)

text \<open>Validation accepts aliases: a \<open>.\<close> component after the first is
  normalized away by \<open>Path::components\<close> and never seen, so two distinct keys of
  an accepted manifest can land on one file.\<close>

theorem validate_accepts_dot_alias:
  "validate (sample_manifest [''a/./b'', ''a/b'']) = Inr ()
   \<and> ''a/./b'' \<noteq> ''a/b'' \<and> disk_names ''a/./b'' = disk_names ''a/b''"
  by code_simp

section \<open>Loading\<close>

lemma load_validated:
  "load from_slice r = Inr (Some m) \<Longrightarrow> validate m = Inr ()"
  by (auto simp: load_def split: read_outcome.splits option.splits sum.splits)

lemma load_missing:
  "load from_slice r = Inr None \<longleftrightarrow> r = ReadNotFound"
  by (auto simp: load_def split: read_outcome.splits option.splits sum.splits)

text \<open>Initializing a workspace is idempotent and never re-targets: whatever
  was on disk, a success leaves metadata that loads back, carries the requested
  id when one was given, and is returned unchanged, as not created, by every
  later call with the same request.\<close>

theorem init_workspace_idempotent:
  assumes rt: "\<And>meta. from_slice (to_vec meta) = Some meta"
    and init: "init_workspace from_slice to_vec rnd disk want = Inr ((meta, created), disk')"
  shows "load_workspace from_slice disk' = Inr (Some meta)
    \<and> (\<forall>w. want = Some w \<longrightarrow> wm_id meta = w)
    \<and> (created \<longleftrightarrow> disk = ReadNotFound)
    \<and> init_workspace from_slice to_vec rnd' disk' want = Inr ((meta, False), disk')"
proof (cases disk)
  case (ReadOk data)
  then show ?thesis
    using init
    by (auto simp: init_workspace_def load_workspace_def split: option.splits if_splits)
next
  case ReadNotFound
  then show ?thesis
    using init
    by (auto simp: init_workspace_def load_workspace_def rt Let_def split: option.splits)
next
  case ReadFailed
  then show ?thesis
    using init by (simp add: init_workspace_def load_workspace_def)
qed

lemma init_workspace_idempotent_witness:
  "load_workspace Some (ReadOk \<lparr>wm_id = ''ab'', wm_version = 1\<rparr>)
     = Inr (Some \<lparr>wm_id = ''ab'', wm_version = 1\<rparr>)
   \<and> (\<forall>w. Some ''ab'' = Some w \<longrightarrow> wm_id \<lparr>wm_id = ''ab'', wm_version = 1\<rparr> = w)
   \<and> (True \<longleftrightarrow> (ReadNotFound :: workspace_meta read_outcome) = ReadNotFound)
   \<and> init_workspace Some (\<lambda>x. x) ''cd'' (ReadOk \<lparr>wm_id = ''ab'', wm_version = 1\<rparr>) (Some ''ab'')
       = Inr ((\<lparr>wm_id = ''ab'', wm_version = 1\<rparr>, False), ReadOk \<lparr>wm_id = ''ab'', wm_version = 1\<rparr>)"
  by (rule init_workspace_idempotent [where to_vec = "\<lambda>x. x" and rnd = "''ff''"])
    (simp_all add: init_workspace_def load_workspace_def FORMAT_VERSION_def Let_def)

end
