(* ===== verification/Utf8.thy ===== *)
theory Utf8
imports Strings
begin

text \<open>
  The scalar values of a UTF-8 byte string, as \<open>str::chars\<close> enumerates them (each
  kept as its own bytes), with \<open>char::is_control\<close> and \<open>char::is_whitespace\<close>
  as byte patterns.
\<close>



definition is_continuation :: "char \<Rightarrow> bool" where
  "is_continuation c = (128 \<le> byte_of c \<and> byte_of c < 192)"

text \<open>A scalar value is one ASCII byte, or a lead byte with the continuation
  bytes after it.\<close>

function utf8_chars :: "string \<Rightarrow> string list" where
  "utf8_chars [] = []"
| "utf8_chars (c # cs) =
     (if byte_of c < 128 then [c] # utf8_chars cs
      else (c # takeWhile is_continuation cs) # utf8_chars (dropWhile is_continuation cs))"
  by pat_completeness auto
termination
  by (relation "measure length") (auto simp: less_Suc_eq_le length_dropWhile_le)

lemma concat_utf8_chars [simp]: "concat (utf8_chars s) = s"
  by (induction s rule: utf8_chars.induct) simp_all

lemma utf8_chars_ascii:
  assumes "w \<in> set (utf8_chars s)" "c \<in> set w" "byte_of c < 128"
  shows "w = [c]"
  using assms
  by (induction s rule: utf8_chars.induct)
    (auto simp: is_continuation_def split: if_splits dest!: set_takeWhileD)

text \<open>General category Cc: U+0000..U+001F, U+007F and U+0080..U+009F.\<close>

definition is_control :: "string \<Rightarrow> bool" where
  "is_control ch =
     (case map byte_of ch of
        [b] \<Rightarrow> b < 32 \<or> b = 127
      | [a, b] \<Rightarrow> a = 194 \<and> 128 \<le> b \<and> b \<le> 159
      | _ \<Rightarrow> False)"

text \<open>The White_Space property.\<close>

definition is_whitespace :: "string \<Rightarrow> bool" where
  "is_whitespace ch =
     (case map byte_of ch of
        [b] \<Rightarrow> (9 \<le> b \<and> b \<le> 13) \<or> b = 32
      | [a, b] \<Rightarrow> a = 194 \<and> (b = 133 \<or> b = 160)
      | [a, b, c] \<Rightarrow>
          (a = 225 \<and> b = 154 \<and> c = 128)
          \<or> (a = 226 \<and> b = 128 \<and> (128 \<le> c \<and> c \<le> 138 \<or> c = 168 \<or> c = 169 \<or> c = 175))
          \<or> (a = 226 \<and> b = 129 \<and> c = 159)
          \<or> (a = 227 \<and> b = 128 \<and> c = 128)
      | _ \<Rightarrow> False)"

definition trim_chars :: "string list \<Rightarrow> string list" where
  "trim_chars cs = rev (dropWhile is_whitespace (rev (dropWhile is_whitespace cs)))"

lemma set_trim_chars: "set (trim_chars cs) \<subseteq> set cs"
  by (auto simp: trim_chars_def dest!: set_dropWhileD)

end
