(* ===== verification/Merge.thy ===== *)
theory Merge
imports Manifest Utf8 Decimal
begin

text \<open>
  \<open>core/src/merge.rs\<close>: the deterministic three-way merge.  \<open>decide\<close> is the rule
  table for one path, \<open>claim\<close> the fresh name of a conflict copy, \<open>merge\<close> the
  fold over the sorted union of the paths.  The theorems characterize the merged
  manifest entry by entry (\<open>merge_lookup\<close>), and from that: nothing changed on
  either side is lost, the merged manifest is valid exactly when the survivors
  do not collide as file and directory, and re-merging a published result is the
  identity.
\<close>

section \<open>Decisions\<close>

datatype conflict_side = SideLocal | SideRemote

datatype decision =
    Winner "file_entry option"
  | Conflict file_entry conflict_side file_entry

definition mtime :: "file_entry \<Rightarrow> int \<times> int" where
  "mtime e = (fe_mtime_secs e, fe_mtime_nanos e)"

definition mtime_ge :: "file_entry \<Rightarrow> file_entry \<Rightarrow> bool" where
  "mtime_ge x y =
     (fst (mtime x) > fst (mtime y)
      \<or> fst (mtime x) = fst (mtime y) \<and> snd (mtime x) \<ge> snd (mtime y))"

definition same_content :: "file_entry \<Rightarrow> file_entry \<Rightarrow> bool" where
  "same_content x y = (fe_chunks x = fe_chunks y \<and> fe_mode x = fe_mode y \<and> fe_size x = fe_size y)"

definition decide ::
  "file_entry option \<Rightarrow> file_entry option \<Rightarrow> file_entry option \<Rightarrow> decision" where
  "decide b l r =
     (if l = r then Winner l
      else if l = b then Winner r
      else if r = b then Winner l
      else (case (l, r) of
              (None, Some _) \<Rightarrow> Winner r
            | (Some _, None) \<Rightarrow> Winner l
            | (Some le, Some re) \<Rightarrow>
                if same_content le re then Winner (Some (if mtime_ge re le then re else le))
                else if mtime_ge re le then Conflict re SideLocal le
                else Conflict le SideRemote re
            | (None, None) \<Rightarrow> Winner None))"  \<comment> \<open>unreachable: equal sides are decided above\<close>

section \<open>Names of conflict copies\<close>

definition LOCAL_CONFLICT_DIR :: string where
  "LOCAL_CONFLICT_DIR = ''.pear/conflicts''"

definition is_git_path :: "string \<Rightarrow> bool" where
  "is_git_path path = (path = ''.git'' \<or> starts_with path ''.git/'')"

text \<open>\<open>NameSpace(HashSet<String>)\<close> is the list of the names taken.\<close>

definition namespace_new :: "manifest \<Rightarrow> manifest \<Rightarrow> string list" where
  "namespace_new local remote =
     concat (map (\<lambda>path. path # ancestors path)
       (bt_keys (mf_files local) @ bt_keys (mf_files remote)))"

definition split_dir :: "string \<Rightarrow> string \<times> string" where
  "split_dir path =
     (case rfind CHR ''/'' path of
        Some idx \<Rightarrow> (take (Suc idx) path, drop (Suc idx) path)
      | None \<Rightarrow> ('''', path))"

definition split_ext :: "string \<Rightarrow> string \<times> string" where
  "split_ext name =
     (case rfind CHR ''.'' name of
        Some idx \<Rightarrow> if 0 < idx then (take idx name, drop idx name) else (name, '''')
      | None \<Rightarrow> (name, ''''))"

definition candidate :: "string \<Rightarrow> string \<Rightarrow> string \<Rightarrow> nat \<Rightarrow> string" where
  "candidate path device stamp n =
     (let (dir, name) = split_dir path;
          (stem, ext) = split_ext name;
          ordinal = (if n = 1 then '''' else '' '' @ nat_to_dec n)
      in dir @ stem @ '' (conflict from '' @ device @ '' '' @ stamp @ '')'' @ ordinal @ ext)"

lemma candidate_inj: "candidate path device stamp m = candidate path device stamp n \<longleftrightarrow> m = n"
  by (auto simp: candidate_def split: prod.splits if_splits dest: nat_to_dec_inj)

lemma finite_candidates:
  "finite {k. n \<le> k \<and> candidate path device stamp k \<in> set taken}"
proof -
  have "inj (candidate path device stamp)"
    by (simp add: inj_on_def candidate_inj)
  then have "finite {k. candidate path device stamp k \<in> set taken}"
    using finite_vimageI [of "set taken" "candidate path device stamp"] by (simp add: vimage_def)
  then show ?thesis
    by (rule rev_finite_subset) auto
qed

text \<open>The numbering loop of \<open>claim\<close>.  It ends because the candidates are pairwise
  different and only finitely many names are taken (the code counts in \<open>u32\<close>; it
  would need \<open>2 ^ 32\<close> taken names to wrap).\<close>

function claim_from :: "string list \<Rightarrow> string \<Rightarrow> string \<Rightarrow> string \<Rightarrow> nat \<Rightarrow> string" where
  "claim_from taken path device stamp n =
     (if candidate path device stamp n \<notin> set taken then candidate path device stamp n
      else claim_from taken path device stamp (n + 1))"
  by auto
termination
proof (relation "measure (\<lambda>(taken, path, device, stamp, n).
    card {k. n \<le> k \<and> candidate path device stamp k \<in> set taken})", goal_cases)
  case (2 taken path device stamp n)
  let ?A = "\<lambda>n. {k. n \<le> k \<and> candidate path device stamp k \<in> set taken}"
  have "n \<in> ?A n" "n \<notin> ?A (n + 1)" "?A (n + 1) \<subseteq> ?A n"
    using 2 by auto
  then have "?A (n + 1) \<subset> ?A n"
    by blast
  then show ?case
    using psubset_card_mono [OF finite_candidates] by simp
qed simp

declare claim_from.simps [simp del]

definition claim :: "string list \<Rightarrow> string \<Rightarrow> string \<Rightarrow> string \<Rightarrow> string \<times> string list" where
  "claim taken path device stamp =
     (let name = claim_from taken path device stamp 1 in (name, name # taken))"

definition sanitize_device :: "string \<Rightarrow> string" where
  "sanitize_device device =
     (let cleaned = map (\<lambda>c. if c = ''/'' \<or> c = [CHR 92] \<or> is_control c then ''_'' else c)
                      (utf8_chars device);
          trimmed = concat (trim_chars cleaned)
      in if trimmed = '''' then ''device'' else trimmed)"

section \<open>The merge\<close>

record conflict_copy =
  cc_side :: conflict_side
  cc_path :: string
  cc_copy_path :: string
  cc_local_only :: bool
  cc_entry :: file_entry

record merge_outcome =
  mo_merged :: manifest
  mo_apply_from_remote :: manifest_diff
  mo_conflicts :: "conflict_copy list"

record merge_state =
  ms_files :: "(string, file_entry) btree"
  ms_names :: "string list"
  ms_conflicts :: "conflict_copy list"

definition decide_at :: "manifest \<Rightarrow> manifest \<Rightarrow> manifest \<Rightarrow> string \<Rightarrow> decision" where
  "decide_at base local remote path =
     decide (entry_at base path) (entry_at local path) (entry_at remote path)"

definition merge_step ::
  "manifest \<Rightarrow> manifest \<Rightarrow> manifest \<Rightarrow> string \<Rightarrow> string \<Rightarrow> string \<Rightarrow> merge_state \<Rightarrow> merge_state" where
  "merge_step base local remote device stamp path st =
     (case decide_at base local remote path of
        Winner (Some entry) \<Rightarrow> st\<lparr>ms_files := bt_insert path entry (ms_files st)\<rparr>
      | Winner None \<Rightarrow> st
      | Conflict winner loser_side loser \<Rightarrow>
          (let files = bt_insert path winner (ms_files st);
               dev = (case loser_side of SideLocal \<Rightarrow> device | SideRemote \<Rightarrow> ''remote'');
               (name, names) = claim (ms_names st) path dev stamp;
               local_only = is_git_path path;
               (copy_path, files) =
                 (if local_only then (LOCAL_CONFLICT_DIR @ ''/'' @ name, files)
                  else (name, bt_insert name loser files))
           in \<lparr>ms_files = files, ms_names = names,
               ms_conflicts = ms_conflicts st @
                 [\<lparr>cc_side = loser_side, cc_path = path, cc_copy_path = copy_path,
                   cc_local_only = local_only, cc_entry = loser\<rparr>]\<rparr>))"

definition merge_paths :: "manifest \<Rightarrow> manifest \<Rightarrow> manifest \<Rightarrow> string list" where
  "merge_paths base local remote =
     bt_set (bt_keys (mf_files base) @ bt_keys (mf_files local) @ bt_keys (mf_files remote))"

definition merge_fold ::
  "manifest \<Rightarrow> manifest \<Rightarrow> manifest \<Rightarrow> string \<Rightarrow> string \<Rightarrow> merge_state" where
  "merge_fold base local remote local_device stamp =
     fold (merge_step base local remote (sanitize_device local_device) stamp)
       (merge_paths base local remote)
       \<lparr>ms_files = [], ms_names = namespace_new local remote, ms_conflicts = []\<rparr>"

definition merge :: "manifest \<Rightarrow> manifest \<Rightarrow> manifest \<Rightarrow> string \<Rightarrow> string \<Rightarrow> merge_outcome" where
  "merge base local remote local_device stamp =
     (let st = merge_fold base local remote local_device stamp;
          merged = \<lparr>mf_version = FORMAT_VERSION, mf_workspace_id = mf_workspace_id local,
                    mf_scanned_at_secs = mf_scanned_at_secs local, mf_files = ms_files st\<rparr>;
          local_copies = map cc_copy_path
            (filter (\<lambda>c. cc_side c = SideLocal \<and> \<not> cc_local_only c) (ms_conflicts st));
          d = diff local merged
      in \<lparr>mo_merged = merged,
          mo_apply_from_remote =
            d\<lparr>md_added := filter (\<lambda>p. p \<notin> set local_copies) (md_added d)\<rparr>,
          mo_conflicts = ms_conflicts st\<rparr>)"

section \<open>Facts on decisions\<close>

definition winner_of :: "decision \<Rightarrow> file_entry option" where
  "winner_of d = (case d of Winner w \<Rightarrow> w | Conflict w _ _ \<Rightarrow> Some w)"

definition is_conflict :: "decision \<Rightarrow> bool" where
  "is_conflict d = (case d of Winner _ \<Rightarrow> False | Conflict _ _ _ \<Rightarrow> True)"

lemma decide_cases:
  obtains (agree) "l = r" "decide b l r = Winner l"
  | (remote_only) "l \<noteq> r" "l = b" "decide b l r = Winner r"
  | (local_only) "l \<noteq> r" "l \<noteq> b" "r = b" "decide b l r = Winner l"
  | (edit_remote) e where "l = None" "r = Some e" "b \<noteq> l" "b \<noteq> r" "decide b l r = Winner r"
  | (edit_local) e where "l = Some e" "r = None" "b \<noteq> l" "b \<noteq> r" "decide b l r = Winner l"
  | (both_same) le re where "l = Some le" "r = Some re" "b \<noteq> l" "b \<noteq> r" "same_content le re"
      "decide b l r = Winner (Some (if mtime_ge re le then re else le))"
  | (both_differ) le re where "l = Some le" "r = Some re" "b \<noteq> l" "b \<noteq> r" "\<not> same_content le re"
      "decide b l r = (if mtime_ge re le then Conflict re SideLocal le else Conflict le SideRemote re)"
  unfolding decide_def by (cases l; cases r; force split: if_splits)

lemma decide_None_None [simp]: "decide b None None = Winner None"
  by (simp add: decide_def)

lemma winner_of_in_sides:
  "winner_of (decide b l r) = Some e \<Longrightarrow> l = Some e \<or> r = Some e"
  by (rule decide_cases [of l r b]) (auto simp: winner_of_def split: if_splits)

lemma decide_conflict:
  assumes "decide b l r = Conflict w s x"
  shows "(s = SideLocal \<and> l = Some x \<and> r = Some w \<and> mtime_ge w x
        \<or> s = SideRemote \<and> l = Some w \<and> r = Some x \<and> \<not> mtime_ge x w)
    \<and> b \<noteq> l \<and> b \<noteq> r \<and> \<not> same_content x w"
  by (rule decide_cases [of l r b])
    (use assms in \<open>auto simp: same_content_def split: if_splits\<close>)

section \<open>Facts on names\<close>

lemma split_dir_append: "fst (split_dir p) @ snd (split_dir p) = p"
  by (simp add: split_dir_def split: option.splits)

lemma split_ext_append: "fst (split_ext s) @ snd (split_ext s) = s"
  by (simp add: split_ext_def split: option.splits)

lemma claim_from_candidate:
  "\<exists>k\<ge>n. claim_from taken path device stamp n = candidate path device stamp k"
proof (induction taken path device stamp n rule: claim_from.induct)
  case (1 taken path device stamp n)
  then show ?case
    by (subst claim_from.simps) (metis Suc_eq_plus1 Suc_leD order_refl)
qed

lemma claim_from_fresh: "claim_from taken path device stamp n \<notin> set taken"
proof (induction taken path device stamp n rule: claim_from.induct)
  case (1 taken path device stamp n)
  then show ?case by (subst claim_from.simps) simp
qed

lemma claim_from_minimal:
  "claim_from taken path device stamp n = candidate path device stamp k \<Longrightarrow> n \<le> j \<Longrightarrow> j < k
     \<Longrightarrow> candidate path device stamp j \<in> set taken"
proof (induction taken path device stamp n rule: claim_from.induct)
  case (1 taken path device stamp n)
  show ?case
  proof (cases "candidate path device stamp n \<in> set taken")
    case True
    then show ?thesis
      using 1 claim_from.simps [of taken path device stamp n]
      by (cases "j = n") auto
  next
    case False
    then have "k = n"
      using 1(2) claim_from.simps [of taken path device stamp n] by (simp add: candidate_inj)
    then show ?thesis using 1 by simp
  qed
qed


lemma set_namespace_new:
  "set (namespace_new local remote) =
     {k. \<exists>p. (entry_at local p \<noteq> None \<or> entry_at remote p \<noteq> None)
            \<and> (k = p \<or> (\<exists>q. p = k @ CHR ''/'' # q))}"
  by (auto simp: namespace_new_def ancestors_iff domIff)

section \<open>The invariant of the fold\<close>

text \<open>\<open>seen\<close> are the paths already merged; the copies that enter the manifest are
  fresh, distinct, and hold their loser.\<close>

definition copy_name :: "conflict_copy \<Rightarrow> string" where
  "copy_name c =
     (if cc_local_only c then drop (length (LOCAL_CONFLICT_DIR @ ''/'')) (cc_copy_path c)
      else cc_copy_path c)"

definition copy_label :: "string \<Rightarrow> conflict_side \<Rightarrow> string" where
  "copy_label device s = (case s of SideLocal \<Rightarrow> device | SideRemote \<Rightarrow> ''remote'')"

definition copy_ok ::
  "manifest \<Rightarrow> manifest \<Rightarrow> manifest \<Rightarrow> string \<Rightarrow> string \<Rightarrow> string list \<Rightarrow> conflict_copy \<Rightarrow> bool" where
  "copy_ok base local remote device stamp names c \<longleftrightarrow>
     (\<exists>w. decide_at base local remote (cc_path c) = Conflict w (cc_side c) (cc_entry c))
     \<and> cc_local_only c = is_git_path (cc_path c)
     \<and> cc_copy_path c =
         (if cc_local_only c then LOCAL_CONFLICT_DIR @ ''/'' @ copy_name c else copy_name c)
     \<and> (\<exists>k\<ge>1. copy_name c = candidate (cc_path c) (copy_label device (cc_side c)) stamp k)
     \<and> copy_name c \<in> set names \<and> copy_name c \<notin> set (namespace_new local remote)"

definition synced_copies :: "conflict_copy list \<Rightarrow> conflict_copy list" where
  "synced_copies cs = filter (\<lambda>c. \<not> cc_local_only c) cs"

definition merge_inv ::
  "manifest \<Rightarrow> manifest \<Rightarrow> manifest \<Rightarrow> string \<Rightarrow> string \<Rightarrow> string list \<Rightarrow> merge_state \<Rightarrow> bool" where
  "merge_inv base local remote device stamp seen st \<longleftrightarrow>
     bt_wf (ms_files st)
     \<and> set (namespace_new local remote) \<subseteq> set (ms_names st)
     \<and> (\<forall>c\<in>set (synced_copies (ms_conflicts st)).
          bt_get (ms_files st) (cc_copy_path c) = Some (cc_entry c))
     \<and> (\<forall>q. q \<notin> cc_copy_path ` set (synced_copies (ms_conflicts st)) \<longrightarrow>
          bt_get (ms_files st) q =
            (if q \<in> set seen then winner_of (decide_at base local remote q) else None))
     \<and> map cc_path (ms_conflicts st) = filter (\<lambda>p. is_conflict (decide_at base local remote p)) seen
     \<and> distinct (map copy_name (ms_conflicts st))
     \<and> (\<forall>c\<in>set (ms_conflicts st). copy_ok base local remote device stamp (ms_names st) c)"

lemma winner_in_namespace:
  "winner_of (decide_at base local remote p) = Some e \<Longrightarrow> p \<in> set (namespace_new local remote)"
  using winner_of_in_sides unfolding decide_at_def set_namespace_new by fastforce

lemma synced_copy_path:
  "copy_ok base local remote device stamp names c \<Longrightarrow> \<not> cc_local_only c
     \<Longrightarrow> cc_copy_path c = copy_name c"
  by (simp add: copy_name_def)

lemma copy_ok_mono:
  "copy_ok base local remote device stamp names c \<Longrightarrow> set names \<subseteq> set names'
     \<Longrightarrow> copy_ok base local remote device stamp names' c"
  by (auto simp: copy_ok_def)

lemma merge_inv_init:
  "merge_inv base local remote device stamp []
     \<lparr>ms_files = [], ms_names = namespace_new local remote, ms_conflicts = []\<rparr>"
  by (simp add: merge_inv_def synced_copies_def)

lemma merge_inv_copy_not_in:
  assumes "merge_inv base local remote device stamp seen st" "p \<in> set (namespace_new local remote)"
  shows "p \<notin> cc_copy_path ` set (synced_copies (ms_conflicts st))"
proof
  assume "p \<in> cc_copy_path ` set (synced_copies (ms_conflicts st))"
  then obtain c where c: "c \<in> set (ms_conflicts st)" "\<not> cc_local_only c" "p = cc_copy_path c"
    by (auto simp: synced_copies_def)
  then have "copy_ok base local remote device stamp (ms_names st) c"
    using assms(1) by (simp add: merge_inv_def)
  then have "p \<notin> set (namespace_new local remote)"
    using c synced_copy_path unfolding copy_ok_def by metis
  then show False
    using assms(2) by simp
qed

lemma merge_inv_winner:
  assumes inv: "merge_inv base local remote device stamp seen st" and new: "p \<notin> set seen"
    and w: "decide_at base local remote p = Winner w"
  shows "merge_inv base local remote device stamp (seen @ [p])
    (merge_step base local remote device stamp p st)"
proof (cases w)
  case None
  then show ?thesis
    using inv new w
    by (auto simp: merge_inv_def merge_step_def winner_of_def is_conflict_def)
next
  case (Some e)
  have "p \<in> set (namespace_new local remote)"
    using winner_in_namespace [of base local remote p e] w Some by (simp add: winner_of_def)
  then have "p \<notin> cc_copy_path ` set (synced_copies (ms_conflicts st))"
    using merge_inv_copy_not_in [OF inv] by blast
  moreover have "merge_step base local remote device stamp p st
      = st\<lparr>ms_files := bt_insert p e (ms_files st)\<rparr>"
    by (simp add: merge_step_def w Some)
  moreover have "winner_of (decide_at base local remote p) = Some e"
    "\<not> is_conflict (decide_at base local remote p)"
    by (simp_all add: winner_of_def is_conflict_def w Some)
  ultimately show ?thesis
    using inv unfolding merge_inv_def by (simp add: image_iff) metis
qed

lemma merge_inv_conflict:
  assumes inv: "merge_inv base local remote device stamp seen st" and new: "p \<notin> set seen"
    and w: "decide_at base local remote p = Conflict win s los"
  shows "merge_inv base local remote device stamp (seen @ [p])
    (merge_step base local remote device stamp p st)"
proof -
  define name where "name = claim_from (ms_names st) p (copy_label device s) stamp 1"
  define c where "c = \<lparr>cc_side = s, cc_path = p,
    cc_copy_path = (if is_git_path p then LOCAL_CONFLICT_DIR @ ''/'' @ name else name),
    cc_local_only = is_git_path p, cc_entry = los\<rparr>"
  define st' where "st' = \<lparr>ms_files =
      (if is_git_path p then bt_insert p win (ms_files st)
       else bt_insert name los (bt_insert p win (ms_files st))),
    ms_names = name # ms_names st, ms_conflicts = ms_conflicts st @ [c]\<rparr>"
  have step: "merge_step base local remote device stamp p st = st'"
    by (simp add: merge_step_def w claim_def Let_def name_def st'_def c_def copy_label_def
        split: conflict_side.splits)
  have p: "p \<in> set (namespace_new local remote)"
    using winner_in_namespace [of base local remote p win] w by (simp add: winner_of_def)
  have fresh: "name \<notin> set (ms_names st)"
    by (simp add: name_def claim_from_fresh)
  have cname: "copy_name c = name"
    by (simp add: copy_name_def c_def)
  have sub: "set (namespace_new local remote) \<subseteq> set (ms_names st)"
    using inv by (simp add: merge_inv_def)
  have old: "\<forall>c\<in>set (ms_conflicts st). copy_name c \<in> set (ms_names st)"
    using inv by (simp add: merge_inv_def copy_ok_def)
  have p_not: "p \<notin> cc_copy_path ` set (synced_copies (ms_conflicts st))"
    using merge_inv_copy_not_in [OF inv p] .
  have name_not: "name \<notin> cc_copy_path ` set (synced_copies (ms_conflicts st))" "name \<noteq> p"
    using old fresh p sub by (auto simp: synced_copies_def copy_name_def split: if_splits)
  have c_ok: "copy_ok base local remote device stamp (ms_names st') c"
    using claim_from_candidate [of 1 "ms_names st" p "copy_label device s" stamp] fresh sub w
    by (auto simp: copy_ok_def cname) (auto simp: c_def st'_def name_def)
  have name_none: "winner_of (decide_at base local remote name) = None"
    using winner_in_namespace [of base local remote name] fresh sub by (cases "winner_of (decide_at base local remote name)") auto
  have "bt_wf (ms_files st')" "set (namespace_new local remote) \<subseteq> set (ms_names st')"
    using inv by (auto simp: merge_inv_def st'_def)
  moreover have "\<forall>c\<in>set (synced_copies (ms_conflicts st')).
      bt_get (ms_files st') (cc_copy_path c) = Some (cc_entry c)"
    using inv p_not name_not
    by (auto simp: merge_inv_def st'_def synced_copies_def c_def)
  moreover have "\<forall>q. q \<notin> cc_copy_path ` set (synced_copies (ms_conflicts st')) \<longrightarrow>
      bt_get (ms_files st') q =
        (if q \<in> set (seen @ [p]) then winner_of (decide_at base local remote q) else None)"
    using inv w
    by (auto simp: merge_inv_def st'_def synced_copies_def c_def winner_of_def)
  moreover have "map cc_path (ms_conflicts st')
      = filter (\<lambda>p. is_conflict (decide_at base local remote p)) (seen @ [p])"
    using inv w by (simp add: merge_inv_def st'_def c_def is_conflict_def)
  moreover have "distinct (map copy_name (ms_conflicts st'))"
    using inv old fresh by (auto simp: merge_inv_def st'_def cname)
  moreover have "\<forall>c\<in>set (ms_conflicts st'). copy_ok base local remote device stamp (ms_names st') c"
  proof -
    have "copy_ok base local remote device stamp (ms_names st') x" if "x \<in> set (ms_conflicts st)" for x
      using copy_ok_mono [of base local remote device stamp "ms_names st" x "ms_names st'"] inv that
      by (simp add: merge_inv_def st'_def subset_insertI)
    then show ?thesis
      using c_ok by (simp add: st'_def)
  qed
  ultimately show ?thesis
    unfolding step merge_inv_def by blast
qed

lemma merge_inv_fold:
  assumes "merge_inv base local remote device stamp seen st" "distinct (seen @ ps)"
  shows "merge_inv base local remote device stamp (seen @ ps)
    (fold (merge_step base local remote device stamp) ps st)"
  using assms
proof (induction ps arbitrary: seen st)
  case (Cons p ps)
  have "merge_inv base local remote device stamp (seen @ [p])
      (merge_step base local remote device stamp p st)"
    using Cons.prems merge_inv_winner merge_inv_conflict
    by (cases "decide_at base local remote p") auto
  then show ?case
    using Cons.IH [of "seen @ [p]"] Cons.prems(2) by simp
qed simp

lemma merge_fold_inv:
  "merge_inv base local remote (sanitize_device dev) stamp (merge_paths base local remote)
     (merge_fold base local remote dev stamp)"
  using merge_inv_fold [OF merge_inv_init [of base local remote "sanitize_device dev" stamp],
      of "merge_paths base local remote"]
  by (simp add: merge_fold_def merge_paths_def)

lemma set_merge_paths:
  "set (merge_paths base local remote)
     = dom (entry_at base) \<union> dom (entry_at local) \<union> dom (entry_at remote)"
  by (auto simp: merge_paths_def)

lemma merge_sel [simp]:
  "mf_files (mo_merged (merge base local remote dev stamp))
     = ms_files (merge_fold base local remote dev stamp)"
  "mo_conflicts (merge base local remote dev stamp)
     = ms_conflicts (merge_fold base local remote dev stamp)"
  by (simp_all add: merge_def Let_def)

lemma decide_not_in_paths:
  "q \<notin> set (merge_paths base local remote) \<Longrightarrow> decide_at base local remote q = Winner None"
  by (simp add: set_merge_paths decide_at_def domIff)

lemma merge_copy_ok:
  assumes "c \<in> set (mo_conflicts (merge base local remote dev stamp))"
  shows "copy_ok base local remote (sanitize_device dev) stamp
    (ms_names (merge_fold base local remote dev stamp)) c"
  using merge_fold_inv [of base local remote dev stamp] assms by (simp add: merge_inv_def)

lemma merge_wf: "manifest_wf (mo_merged (merge base local remote dev stamp))"
  using merge_fold_inv [of base local remote dev stamp]
  by (simp add: manifest_wf_def merge_inv_def)

lemma merge_lookup:
  "entry_at (mo_merged (merge base local remote dev stamp)) q = Some e \<longleftrightarrow>
     winner_of (decide_at base local remote q) = Some e
     \<or> (\<exists>c\<in>set (mo_conflicts (merge base local remote dev stamp)).
          \<not> cc_local_only c \<and> cc_copy_path c = q \<and> cc_entry c = e)"
proof -
  let ?st = "merge_fold base local remote dev stamp"
  have inv: "merge_inv base local remote (sanitize_device dev) stamp
      (merge_paths base local remote) ?st"
    by (rule merge_fold_inv)
  show ?thesis
  proof (cases "q \<in> cc_copy_path ` set (synced_copies (ms_conflicts ?st))")
    case True
    then have "q \<notin> set (namespace_new local remote)"
      using merge_inv_copy_not_in [OF inv] by blast
    then have "winner_of (decide_at base local remote q) \<noteq> Some e"
      using winner_in_namespace by blast
    moreover have "\<forall>c\<in>set (synced_copies (ms_conflicts ?st)).
        bt_get (ms_files ?st) (cc_copy_path c) = Some (cc_entry c)"
      using inv by (simp add: merge_inv_def)
    ultimately show ?thesis
      using True by (auto simp: synced_copies_def)
  next
    case False
    then have "bt_get (ms_files ?st) q = (if q \<in> set (merge_paths base local remote)
        then winner_of (decide_at base local remote q) else None)"
      using inv by (simp add: merge_inv_def)
    then have "bt_get (ms_files ?st) q = winner_of (decide_at base local remote q)"
      using decide_not_in_paths by (auto simp: winner_of_def)
    then show ?thesis
      using False by (auto simp: synced_copies_def)
  qed
qed


lemma merge_conflicts_iff:
  "(\<exists>c\<in>set (mo_conflicts (merge base local remote dev stamp)). cc_path c = p)
     \<longleftrightarrow> is_conflict (decide_at base local remote p)"
proof -
  have "cc_path ` set (ms_conflicts (merge_fold base local remote dev stamp))
      = {p \<in> set (merge_paths base local remote). is_conflict (decide_at base local remote p)}"
    using merge_fold_inv [of base local remote dev stamp]
    by (simp add: merge_inv_def flip: set_map)
  then have "p \<in> cc_path ` set (ms_conflicts (merge_fold base local remote dev stamp))
      \<longleftrightarrow> is_conflict (decide_at base local remote p)"
    using decide_not_in_paths [of p base local remote]
    by (cases "p \<in> set (merge_paths base local remote)") (simp_all add: is_conflict_def)
  then show ?thesis
    by (auto simp: image_iff)
qed

lemma merge_conflict_of:
  assumes "decide_at base local remote p = Conflict w s x"
  obtains c where "c \<in> set (mo_conflicts (merge base local remote dev stamp))"
    "cc_path c = p" "cc_side c = s" "cc_entry c = x" "cc_local_only c = is_git_path p"
proof -
  obtain c where c: "c \<in> set (mo_conflicts (merge base local remote dev stamp))" "cc_path c = p"
    using merge_conflicts_iff [of base local remote dev stamp p] assms by (auto simp: is_conflict_def)
  then show thesis
    using that [OF c] merge_copy_ok [OF c(1)] assms by (auto simp: copy_ok_def)
qed

section \<open>Nothing is lost\<close>

text \<open>A side's entry survives a merge when it is what the merged manifest holds at
  the path (up to the modification time of identical content), or when a conflict
  copy preserves it: in the merged manifest, or under \<open>.pear/conflicts\<close>.\<close>

definition survives :: "merge_outcome \<Rightarrow> string \<Rightarrow> file_entry \<Rightarrow> bool" where
  "survives out p e \<longleftrightarrow>
     (\<exists>f. entry_at (mo_merged out) p = Some f \<and> (f = e \<or> same_content f e))
     \<or> (\<exists>c\<in>set (mo_conflicts out). cc_path c = p \<and> cc_entry c = e
          \<and> (cc_local_only c \<or> entry_at (mo_merged out) (cc_copy_path c) = Some e))"

lemma survives_winner:
  assumes "winner_of (decide_at base local remote p) = Some f" "f = e \<or> same_content f e"
  shows "survives (merge base local remote dev stamp) p e"
  unfolding survives_def using assms merge_lookup by blast

lemma survives_loser:
  assumes "decide_at base local remote p = Conflict w s e"
  shows "survives (merge base local remote dev stamp) p e"
proof -
  obtain c where c: "c \<in> set (mo_conflicts (merge base local remote dev stamp))"
    "cc_path c = p" "cc_entry c = e"
    using merge_conflict_of [OF assms] by metis
  moreover have "cc_local_only c
      \<or> entry_at (mo_merged (merge base local remote dev stamp)) (cc_copy_path c) = Some e"
    using c by (auto simp: merge_lookup simp del: merge_sel)
  ultimately show ?thesis
    unfolding survives_def by blast
qed

lemma decide_keeps:
  assumes "l = Some e \<or> r = Some e" "b \<noteq> Some e"
  shows "(\<exists>f. winner_of (decide b l r) = Some f \<and> (f = e \<or> same_content f e))
    \<or> (\<exists>w s. decide b l r = Conflict w s e)"
  by (rule decide_cases [of l r b])
    (use assms in \<open>auto simp: winner_of_def same_content_def split: if_splits\<close>)

lemma decide_deletes:
  assumes "winner_of (decide b l r) = None"
  shows "(l = Some e \<longrightarrow> b = Some e \<and> r = None) \<and> (r = Some e \<longrightarrow> b = Some e \<and> l = None)"
  by (rule decide_cases [of l r b])
    (use assms in \<open>auto simp: winner_of_def split: if_splits\<close>)

lemma merge_winner_lookup:
  assumes "p \<in> set (namespace_new local remote)"
  shows "entry_at (mo_merged (merge base local remote dev stamp)) p
    = winner_of (decide_at base local remote p)"
proof -
  have "p \<notin> cc_copy_path ` set (synced_copies (ms_conflicts (merge_fold base local remote dev stamp)))"
    using merge_inv_copy_not_in [OF merge_fold_inv assms] .
  then have "\<And>e. entry_at (mo_merged (merge base local remote dev stamp)) p = Some e
      \<longleftrightarrow> winner_of (decide_at base local remote p) = Some e"
    unfolding merge_lookup by (auto simp: synced_copies_def)
  then show ?thesis
    by (metis option.exhaust)
qed

lemma key_in_namespace:
  "entry_at local p = Some e \<Longrightarrow> p \<in> set (namespace_new local remote)"
  "entry_at remote p = Some e \<Longrightarrow> p \<in> set (namespace_new local remote)"
  by (auto simp: set_namespace_new)

lemma merge_keeps:
  assumes "entry_at local p = Some e \<or> entry_at remote p = Some e" "entry_at base p \<noteq> Some e"
  shows "survives (merge base local remote dev stamp) p e"
  using assms decide_keeps [of "entry_at local p" e "entry_at remote p" "entry_at base p"]
    survives_winner [of base local remote p _ e dev stamp]
    survives_loser [of base local remote p _ _ e dev stamp]
  unfolding decide_at_def by blast

lemma merge_drops:
  assumes "entry_at (mo_merged (merge base local remote dev stamp)) p = None"
  shows "entry_at local p = Some e \<Longrightarrow> entry_at base p = Some e \<and> entry_at remote p = None"
    and "entry_at remote p = Some e \<Longrightarrow> entry_at base p = Some e \<and> entry_at local p = None"
  using assms merge_winner_lookup [of p local remote base dev stamp]
    key_in_namespace [of local p e remote] key_in_namespace(2) [of remote p e local]
    decide_deletes [of "entry_at base p" "entry_at local p" "entry_at remote p" e]
  unfolding decide_at_def by (metis option.distinct(1))+

text \<open>C24: a merge never loses a change: an entry a side added or changed since the
  base survives, whichever side it is; and a path one side has disappears from
  the merged manifest only if that side left it as in the base and the other
  side deleted it.\<close>

theorem merge_keeps_changes:
  "((entry_at local p = Some e \<or> entry_at remote p = Some e) \<and> entry_at base p \<noteq> Some e
      \<longrightarrow> survives (merge base local remote dev stamp) p e)
   \<and> (entry_at (mo_merged (merge base local remote dev stamp)) p = None
      \<longrightarrow> (entry_at local p = Some e \<longrightarrow> entry_at base p = Some e \<and> entry_at remote p = None)
        \<and> (entry_at remote p = Some e \<longrightarrow> entry_at base p = Some e \<and> entry_at local p = None))"
  using merge_keeps [of local p e remote base dev stamp] merge_drops [of base local remote dev stamp p e] by blast

definition sample_file :: "int \<Rightarrow> nat \<Rightarrow> file_entry" where
  "sample_file t n = (sample_entry t)\<lparr>fe_size := of_nat n\<rparr>"

definition sample_files :: "(string \<times> file_entry) list \<Rightarrow> manifest" where
  "sample_files fs = (manifest_new ''w'')\<lparr>mf_files := fs\<rparr>"

lemma merge_keeps_changes_witness:
  "survives (merge (manifest_new ''w'') (sample_files [(''a'', sample_file 1 1)])
      (sample_files [(''a'', sample_file 2 2)]) ''mac'' ''2026-01-01 000000'') ''a'' (sample_file 1 1)"
  using merge_keeps_changes [of "sample_files [(''a'', sample_file 1 1)]" "''a''" "sample_file 1 1"
      "sample_files [(''a'', sample_file 2 2)]" "manifest_new ''w''" "''mac''" "''2026-01-01 000000''"]
  by (simp add: sample_files_def manifest_new_def)

text \<open>The rule table: edit beats delete on either side; when both sides hold
  different contents the later modification time wins and the other side is the
  loser that is preserved; a tie goes to the remote.\<close>

theorem decide_table:
  "(b \<noteq> None \<and> b \<noteq> Some e \<longrightarrow> decide b None (Some e) = Winner (Some e)
        \<and> decide b (Some e) None = Winner (Some e))
   \<and> (\<not> same_content le re \<and> b \<noteq> Some le \<and> b \<noteq> Some re \<longrightarrow>
        decide b (Some le) (Some re) =
          (if mtime_ge re le then Conflict re SideLocal le else Conflict le SideRemote re))
   \<and> (same_content le re \<and> b \<noteq> Some le \<and> b \<noteq> Some re \<longrightarrow>
        (\<exists>e\<in>{le, re}. decide b (Some le) (Some re) = Winner (Some e)
           \<and> mtime_ge e le \<and> mtime_ge e re))"
proof -
  have "le = re \<Longrightarrow> same_content le re" and "mtime_ge le re \<or> mtime_ge re le"
    and "mtime_ge le le" "mtime_ge re re"
    by (auto simp: same_content_def mtime_ge_def)
  then show ?thesis
    by (auto simp: decide_def)
qed

lemma decide_table_witness:
  "decide None (Some (sample_file 5 1)) (Some (sample_file 5 2))
     = Conflict (sample_file 5 2) SideLocal (sample_file 5 1)"
proof -
  have "\<not> same_content (sample_file 5 1) (sample_file 5 2)"
    "mtime_ge (sample_file 5 2) (sample_file 5 1)"
    by (simp_all add: same_content_def sample_file_def sample_entry_def mtime_ge_def mtime_def)
  then show ?thesis
    using decide_table [of None "sample_file 5 1" "sample_file 5 1" "sample_file 5 2"] by simp
qed

section \<open>Conflict copies\<close>

lemma candidate_shape:
  "\<exists>r. candidate path dev stamp n = fst (split_dir path) @ r
     \<and> r = fst (split_ext (snd (split_dir path))) @ '' (conflict from '' @ dev @ '' '' @ stamp @ '')''
          @ (if n = 1 then '''' else '' '' @ nat_to_dec n) @ snd (split_ext (snd (split_dir path)))"
  by (simp add: candidate_def Let_def split: prod.splits)

lemma split_dir_name: "CHR ''/'' \<notin> set (snd (split_dir p))"
  by (auto simp: split_dir_def rfind_None dest: rfind_decomp(2) split: option.splits)

lemma split_ext_sub:
  "set (fst (split_ext s)) \<subseteq> set s" "set (snd (split_ext s)) \<subseteq> set s"
  by (auto simp: split_ext_def dest: in_set_takeD in_set_dropD split: option.splits if_splits)

lemma split_dir_Some:
  assumes "rfind CHR ''/'' p = Some i"
  shows "fst (split_dir p) = take i p @ ''/''" "length (take i p) = i"
proof -
  have "fst (split_dir p) = take (Suc i) p"
    by (simp add: split_dir_def assms)
  moreover have "take (Suc i) p = take i p @ ''/''"
    using assms unfolding rfind_Some by (simp add: take_Suc_conv_app_nth)
  ultimately show "fst (split_dir p) = take i p @ ''/''"
    by simp
  show "length (take i p) = i"
    using rfind_less [OF assms] by simp
qed

lemma split_dir_eq:
  "CHR ''/'' \<notin> set r \<Longrightarrow> split_dir (fst (split_dir p) @ r) = (fst (split_dir p), r)"
proof (cases "rfind CHR ''/'' p")
  case None
  then show "CHR ''/'' \<notin> set r \<Longrightarrow> ?thesis"
    using rfind_None [of "CHR ''/''" r] by (simp add: split_dir_def split: option.splits)
next
  case (Some i)
  assume r: "CHR ''/'' \<notin> set r"
  then show ?thesis
    using split_dir_Some [OF Some]
    rfind_append_last [OF r, of "take i p"] by (simp add: split_dir_def)
qed

lemma candidate_dir:
  assumes "CHR ''/'' \<notin> set dev" "CHR ''/'' \<notin> set stamp"
  shows "fst (split_dir (candidate path dev stamp n)) = fst (split_dir path)"
    "snd (split_dir (candidate path dev stamp n)) =
       fst (split_ext (snd (split_dir path))) @ '' (conflict from '' @ dev @ '' '' @ stamp @ '')''
          @ (if n = 1 then '''' else '' '' @ nat_to_dec n) @ snd (split_ext (snd (split_dir path)))"
proof -
  let ?r = "fst (split_ext (snd (split_dir path))) @ '' (conflict from '' @ dev @ '' '' @ stamp @ '')''
          @ (if n = 1 then '''' else '' '' @ nat_to_dec n) @ snd (split_ext (snd (split_dir path)))"
  have "candidate path dev stamp n = fst (split_dir path) @ ?r"
    using candidate_shape [of path dev stamp n] by blast
  moreover have "CHR ''/'' \<notin> set ?r"
    using assms split_dir_name [of path] split_ext_sub [of "snd (split_dir path)"]
      nat_to_dec_no [of "CHR ''/''" n] by auto
  ultimately show "fst (split_dir (candidate path dev stamp n)) = fst (split_dir path)"
    "snd (split_dir (candidate path dev stamp n)) = ?r"
    using split_dir_eq by simp_all
qed

lemma sanitize_device_clean:
  assumes "c \<in> set (sanitize_device d)"
  shows "c \<noteq> CHR ''/'' \<and> c \<noteq> CHR 92 \<and> 32 \<le> byte_of c \<and> byte_of c \<noteq> 127"
proof -
  let ?f = "\<lambda>c. if c = ''/'' \<or> c = [CHR 92] \<or> is_control c then ''_'' else c"
  have "c \<in> set ''device'' \<or> c \<in> set (concat (trim_chars (map ?f (utf8_chars d))))"
    using assms unfolding sanitize_device_def Let_def
    by (cases "concat (trim_chars (map ?f (utf8_chars d))) = ''''")
      (simp_all only: if_True if_False simp_thms)
  then consider "c \<in> set ''device''" | w where "w \<in> set (map ?f (utf8_chars d))" "c \<in> set w"
    using set_trim_chars [of "map ?f (utf8_chars d)"] unfolding set_concat by blast
  then show ?thesis
  proof cases
    case 1
    then show ?thesis by auto
  next
    case (2 w)
    then obtain v where v: "v \<in> set (utf8_chars d)" "w = ?f v"
      by auto
    show ?thesis
    proof (cases "byte_of c < 128 \<and> w = v")
      case True
      then have "v = [c]"
        using utf8_chars_ascii [OF v(1), of c] 2(2) by simp
      then show ?thesis
        using v(2) True by (auto simp: is_control_def split: if_splits)
    next
      case False
      then show ?thesis
        using v(2) 2(2) by (auto split: if_splits)
    qed
  qed
qed

text \<open>Every conflict copy is named after the file it belongs to: it lies in the
  same directory, is \<open>stem (conflict from device stamp)[ n].ext\<close> with a fresh
  number, and collides with no path of either side, with none of their
  directories, and with no other copy.\<close>

theorem conflict_copy_names:
  assumes "CHR ''/'' \<notin> set stamp"
  shows "distinct (map copy_name (mo_conflicts (merge base local remote dev stamp)))
    \<and> (\<forall>c\<in>set (mo_conflicts (merge base local remote dev stamp)).
         copy_name c \<notin> set (namespace_new local remote)
         \<and> fst (split_dir (copy_name c)) = fst (split_dir (cc_path c))
         \<and> (\<exists>k\<ge>1. copy_name c
              = candidate (cc_path c) (copy_label (sanitize_device dev) (cc_side c)) stamp k))"
proof (rule conjI)
  show "distinct (map copy_name (mo_conflicts (merge base local remote dev stamp)))"
    using merge_fold_inv [of base local remote dev stamp] by (simp add: merge_inv_def)
  show "\<forall>c\<in>set (mo_conflicts (merge base local remote dev stamp)).
      copy_name c \<notin> set (namespace_new local remote)
      \<and> fst (split_dir (copy_name c)) = fst (split_dir (cc_path c))
      \<and> (\<exists>k\<ge>1. copy_name c
           = candidate (cc_path c) (copy_label (sanitize_device dev) (cc_side c)) stamp k)"
  proof
    fix c assume c: "c \<in> set (mo_conflicts (merge base local remote dev stamp))"
    then obtain k where k: "k \<ge> 1" "copy_name c \<notin> set (namespace_new local remote)"
      "copy_name c = candidate (cc_path c) (copy_label (sanitize_device dev) (cc_side c)) stamp k"
      using merge_copy_ok [OF c] by (auto simp: copy_ok_def)
    have "CHR ''/'' \<notin> set (copy_label (sanitize_device dev) (cc_side c))"
      using sanitize_device_clean [of "CHR ''/''" dev]
      by (auto simp: copy_label_def split: conflict_side.splits)
    then have "fst (split_dir (copy_name c)) = fst (split_dir (cc_path c))"
      unfolding k(3) by (rule candidate_dir [OF _ assms])
    then show "copy_name c \<notin> set (namespace_new local remote)
      \<and> fst (split_dir (copy_name c)) = fst (split_dir (cc_path c))
      \<and> (\<exists>k\<ge>1. copy_name c
           = candidate (cc_path c) (copy_label (sanitize_device dev) (cc_side c)) stamp k)"
      using k by blast
  qed
qed

lemma conflict_copy_names_witness:
  "distinct (map copy_name (mo_conflicts (merge (manifest_new ''w'')
     (sample_files [(''a'', sample_file 1 1)]) (sample_files [(''a'', sample_file 2 2)]) ''mac'' ''s'')))"
  using conflict_copy_names [of "''s''" "manifest_new ''w''" "sample_files [(''a'', sample_file 1 1)]"
      "sample_files [(''a'', sample_file 2 2)]" "''mac''"] by simp

section \<open>Validity of the merged manifest\<close>

lemma split_on_dir_name:
  assumes "CHR ''/'' \<notin> set r"
  shows "split_on CHR ''/'' (fst (split_dir p) @ r) = butlast (split_on CHR ''/'' p) @ [r]"
proof (cases "rfind CHR ''/'' p")
  case None
  then have "fst (split_dir p) = ''''" "split_on CHR ''/'' p = [p]"
    by (simp_all add: split_dir_def split_on_single rfind_None [symmetric])
  then show ?thesis
    using split_on_single [OF assms] by simp
next
  case (Some i)
  have p: "p = take i p @ CHR ''/'' # drop (Suc i) p" and n: "CHR ''/'' \<notin> set (drop (Suc i) p)"
    using rfind_decomp [OF Some] by auto
  have "fst (split_dir p) = take i p @ [CHR ''/'']"
    using split_dir_Some [OF Some] by simp
  moreover have "butlast (split_on CHR ''/'' p) = split_on CHR ''/'' (take i p)"
    by (subst p) (simp only: split_on_append split_on_single [OF n] butlast_snoc)
  ultimately show ?thesis
    using assms by (simp add: split_on_append split_on_single)
qed

lemma butlast_hd: "butlast xs \<noteq> [] \<Longrightarrow> hd (butlast xs @ ys) = hd xs"
  by (cases xs) auto

lemma path_ok_candidate:
  assumes "path_ok p" "CHR ''/'' \<notin> set dev" "CHR ''/'' \<notin> set stamp"
  shows "path_ok (candidate p dev stamp n)"
proof -
  define r where "r = snd (split_dir (candidate p dev stamp n))"
  have r: "CHR ''/'' \<notin> set r"
    unfolding r_def by (rule split_dir_name)
  have len: "15 < length r"
    unfolding r_def candidate_dir(2) [OF assms(2,3), of p n] by simp
  have "candidate p dev stamp n = fst (split_dir p) @ r"
    using split_dir_append [of "candidate p dev stamp n"] candidate_dir(1) [OF assms(2,3), of p n]
    by (simp add: r_def)
  then have seg: "split_on CHR ''/'' (candidate p dev stamp n) = butlast (split_on CHR ''/'' p) @ [r]"
    using split_on_dir_name [OF r] by simp
  have "\<not> eq_ignore_ascii_case r ''.pear''"
  proof
    assume "eq_ignore_ascii_case r ''.pear''"
    then have "length r = length ''.pear''"
      unfolding eq_ignore_ascii_case_def by (metis length_map)
    then show False using len by simp
  qed
  moreover have "r \<noteq> ''''" "r \<noteq> ''.''" "r \<noteq> ''..''"
    using len by auto
  ultimately show ?thesis
    using assms(1) seg butlast_hd [of "split_on CHR ''/'' p" "[r]"]
    by (cases "butlast (split_on CHR ''/'' p) = []")
      (auto simp: path_ok_def Let_def dest: in_set_butlastD)
qed

lemma copy_label_no_slash: "CHR ''/'' \<notin> set (copy_label (sanitize_device dev) s)"
  using sanitize_device_clean [of "CHR ''/''" dev]
  by (auto simp: copy_label_def split: conflict_side.splits)

lemma merge_entry_source:
  assumes "entry_at (mo_merged (merge base local remote dev stamp)) q = Some e"
  shows "(entry_at local q = Some e \<or> entry_at remote q = Some e)
    \<or> (\<exists>c\<in>set (mo_conflicts (merge base local remote dev stamp)).
         \<not> cc_local_only c \<and> cc_copy_path c = q
         \<and> (entry_at local (cc_path c) = Some e \<or> entry_at remote (cc_path c) = Some e)
         \<and> winner_of (decide_at base local remote (cc_path c)) \<noteq> None)"
  using assms unfolding merge_lookup
proof (elim disjE bexE)
  assume "winner_of (decide_at base local remote q) = Some e"
  then show ?thesis
    using winner_of_in_sides by (auto simp: decide_at_def)
next
  fix c assume c: "c \<in> set (mo_conflicts (merge base local remote dev stamp))"
    "\<not> cc_local_only c \<and> cc_copy_path c = q \<and> cc_entry c = e"
  then obtain w where w: "decide_at base local remote (cc_path c) = Conflict w (cc_side c) e"
    using merge_copy_ok [OF c(1)] by (auto simp: copy_ok_def)
  then have "entry_at local (cc_path c) = Some e \<or> entry_at remote (cc_path c) = Some e"
    using decide_conflict [of "entry_at base (cc_path c)"] unfolding decide_at_def by blast
  moreover have "winner_of (decide_at base local remote (cc_path c)) \<noteq> None"
    by (simp add: w winner_of_def)
  ultimately show ?thesis
    using c by blast
qed

lemma synced_copy_candidate:
  assumes "c \<in> set (mo_conflicts (merge base local remote dev stamp))" "\<not> cc_local_only c"
  obtains k where "cc_copy_path c
    = candidate (cc_path c) (copy_label (sanitize_device dev) (cc_side c)) stamp k"
    "cc_copy_path c \<notin> set (namespace_new local remote)"
  using merge_copy_ok [OF assms(1)] assms(2) by (auto simp: copy_ok_def)

lemma merge_entries_valid:
  assumes "validate local = Inr ()" "validate remote = Inr ()" "CHR ''/'' \<notin> set stamp"
    and q: "entry_at (mo_merged (merge base local remote dev stamp)) q = Some e"
  shows "path_ok q \<and> (\<forall>h\<in>set (fe_chunks e). is_chunk_hash h)"
proof -
  have side: "path_ok p \<and> (\<forall>h\<in>set (fe_chunks e). is_chunk_hash h)"
    if "entry_at local p = Some e \<or> entry_at remote p = Some e" for p
    using that validate_key_ok [OF assms(1), of p e] validate_key_ok [OF assms(2), of p e] by blast
  show ?thesis
    using merge_entry_source [OF q]
  proof (elim disjE bexE)
    fix c assume c: "c \<in> set (mo_conflicts (merge base local remote dev stamp))"
      "\<not> cc_local_only c \<and> cc_copy_path c = q
         \<and> (entry_at local (cc_path c) = Some e \<or> entry_at remote (cc_path c) = Some e)
         \<and> winner_of (decide_at base local remote (cc_path c)) \<noteq> None"
    obtain k where "cc_copy_path c
        = candidate (cc_path c) (copy_label (sanitize_device dev) (cc_side c)) stamp k"
      using synced_copy_candidate c by metis
    then show ?thesis
      using c side [of "cc_path c"] path_ok_candidate [OF _ copy_label_no_slash assms(3)] by metis
  qed (use side in blast)+
qed

lemma append_sep_cases:
  assumes "a @ x # q = d @ s" "x \<notin> set s"
  shows "\<exists>q1. d = a @ x # q1"
proof -
  have "length a < length d"
  proof (rule ccontr)
    assume "\<not> length a < length d"
    then have "s = drop (length d) a @ x # q"
      using assms(1) by (metis append_eq_conv_conj drop_append diff_is_0_eq' drop0 linorder_not_less)
    then show False using assms(2) by simp
  qed
  then have "d = a @ x # take (length d - length a - 1) q"
    using arg_cong [OF assms(1), of "take (length d)"] by (simp add: take_Cons')
  then show ?thesis ..
qed

lemma copy_ancestor:
  assumes c: "c \<in> set (mo_conflicts (merge base local remote dev stamp))" "\<not> cc_local_only c"
    and stamp: "CHR ''/'' \<notin> set stamp" and a: "cc_copy_path c = a @ CHR ''/'' # q"
  shows "\<exists>r. cc_path c = a @ CHR ''/'' # r"
proof -
  obtain k where k: "cc_copy_path c
      = candidate (cc_path c) (copy_label (sanitize_device dev) (cc_side c)) stamp k"
    using synced_copy_candidate [OF c] by metis
  define d where "d = fst (split_dir (cc_path c))"
  have "fst (split_dir (cc_copy_path c)) = d"
    unfolding k d_def by (rule candidate_dir(1) [OF copy_label_no_slash stamp])
  then have "a @ CHR ''/'' # q = d @ snd (split_dir (cc_copy_path c))"
    using split_dir_append [of "cc_copy_path c"] a by simp
  moreover have "CHR ''/'' \<notin> set (snd (split_dir (cc_copy_path c)))"
    by (rule split_dir_name)
  ultimately obtain q1 where "d = a @ CHR ''/'' # q1"
    using append_sep_cases by metis
  then show ?thesis
    using split_dir_append [of "cc_path c"] by (metis append.assoc append_Cons d_def)
qed

lemma merge_prefix_winner:
  assumes "CHR ''/'' \<notin> set stamp"
    and "entry_at (mo_merged (merge base local remote dev stamp)) (a @ CHR ''/'' # q) = Some e"
  shows "\<exists>r. winner_of (decide_at base local remote (a @ CHR ''/'' # r)) \<noteq> None"
  using assms(2) unfolding merge_lookup
proof (elim disjE bexE)
  fix c assume c: "c \<in> set (mo_conflicts (merge base local remote dev stamp))"
    "\<not> cc_local_only c \<and> cc_copy_path c = a @ CHR ''/'' # q \<and> cc_entry c = e"
  then obtain r where "cc_path c = a @ CHR ''/'' # r"
    using copy_ancestor [OF c(1) _ assms(1)] by blast
  moreover have "winner_of (decide_at base local remote (cc_path c)) \<noteq> None"
    using merge_copy_ok [OF c(1)] by (auto simp: copy_ok_def winner_of_def)
  ultimately show ?thesis
    by metis
qed blast

text \<open>Merging two valid manifests gives a valid manifest exactly when no
  surviving path is a directory of another surviving path.\<close>

theorem merge_valid_iff:
  assumes "validate local = Inr ()" "validate remote = Inr ()" "CHR ''/'' \<notin> set stamp"
  shows "validate (mo_merged (merge base local remote dev stamp)) = Inr () \<longleftrightarrow>
    \<not> (\<exists>a q. winner_of (decide_at base local remote a) \<noteq> None
          \<and> winner_of (decide_at base local remote (a @ CHR ''/'' # q)) \<noteq> None)"
    (is "?valid \<longleftrightarrow> \<not> ?clash")
proof
  let ?m = "mo_merged (merge base local remote dev stamp)"
  assume ?valid
  then show "\<not> ?clash"
    unfolding validate_exact using merge_lookup [of base local remote dev stamp]
    by (metis option.exhaust option.distinct(1))
next
  let ?m = "mo_merged (merge base local remote dev stamp)"
  assume noclash: "\<not> ?clash"
  have "entry_at ?m a = None" if mem: "entry_at ?m (a @ CHR ''/'' # q) = Some e" for a q e
  proof -
    obtain r where r: "winner_of (decide_at base local remote (a @ CHR ''/'' # r)) \<noteq> None"
      using merge_prefix_winner [OF assms(3) mem] by blast
    then have "a \<in> set (namespace_new local remote)"
      using winner_in_namespace by (fastforce simp: set_namespace_new)
    then show ?thesis
      using merge_winner_lookup noclash r by metis
  qed
  moreover have "path_ok p \<and> (\<forall>h\<in>set (fe_chunks e). is_chunk_hash h)"
    if "(p, e) \<in> set (mf_files ?m)" for p e
  proof -
    have "entry_at ?m p = Some e"
      using that merge_wf bt_get_in_set unfolding manifest_wf_def by metis
    then show ?thesis
      by (rule merge_entries_valid [OF assms])
  qed
  ultimately show ?valid
    unfolding validate_exact by fast
qed

lemma sample_valid: "validate (sample_files [(''a'', sample_file 1 1)]) = Inr ()"
  "validate (sample_files [(''b'', sample_file 2 2)]) = Inr ()"
  "validate (sample_files [(''a/b'', sample_file 2 2)]) = Inr ()"
  by code_simp+

lemma merge_valid_iff_witness:
  "validate (mo_merged (merge (manifest_new ''w'') (sample_files [(''a'', sample_file 1 1)])
      (sample_files [(''b'', sample_file 2 2)]) ''mac'' ''s'')) = Inr ()"
proof -
  have "winner_of (decide_at (manifest_new ''w'') (sample_files [(''a'', sample_file 1 1)])
      (sample_files [(''b'', sample_file 2 2)]) p) \<noteq> None \<Longrightarrow> p = ''a'' \<or> p = ''b''" for p
    by (auto simp: decide_at_def decide_def winner_of_def sample_files_def manifest_new_def
        split: if_splits)
  then have "\<not> (\<exists>a q. winner_of (decide_at (manifest_new ''w'') (sample_files [(''a'', sample_file 1 1)])
      (sample_files [(''b'', sample_file 2 2)]) a) \<noteq> None
    \<and> winner_of (decide_at (manifest_new ''w'') (sample_files [(''a'', sample_file 1 1)])
      (sample_files [(''b'', sample_file 2 2)]) (a @ CHR ''/'' # q)) \<noteq> None)"
  proof (intro notI, elim exE conjE)
    fix a q
    assume "winner_of (decide_at (manifest_new ''w'') (sample_files [(''a'', sample_file 1 1)])
        (sample_files [(''b'', sample_file 2 2)]) a) \<noteq> None"
      "winner_of (decide_at (manifest_new ''w'') (sample_files [(''a'', sample_file 1 1)])
        (sample_files [(''b'', sample_file 2 2)]) (a @ CHR ''/'' # q)) \<noteq> None"
    then have "a = ''a'' \<or> a = ''b''" "a @ CHR ''/'' # q = ''a'' \<or> a @ CHR ''/'' # q = ''b''"
      using \<open>\<And>p. _ \<Longrightarrow> p = ''a'' \<or> p = ''b''\<close> by blast+
    then show False by auto
  qed
  then show ?thesis
    using merge_valid_iff [OF sample_valid(1,2), of "''s''" "manifest_new ''w''" "''mac''"] by simp
qed

text \<open>The merge can publish nothing: two valid manifests, one adding the file
  \<open>a\<close> and the other \<open>a/b\<close>, merge to a manifest that fails validation.\<close>

theorem merge_file_dir_clash:
  "validate (sample_files [(''a'', sample_file 1 1)]) = Inr ()
   \<and> validate (sample_files [(''a/b'', sample_file 2 2)]) = Inr ()
   \<and> validate (mo_merged (merge (manifest_new ''w'') (sample_files [(''a'', sample_file 1 1)])
        (sample_files [(''a/b'', sample_file 2 2)]) ''mac'' ''s'')) = Inl (FileDirConflict ''a/b'' ''a'')"
  by code_simp

section \<open>Convergence\<close>

lemma merge_no_conflicts:
  assumes "\<And>p. decide_at base local remote p = Winner (f p)"
  shows "mo_conflicts (merge base local remote dev stamp) = []"
    "entry_at (mo_merged (merge base local remote dev stamp)) p = f p"
proof -
  have "\<not> is_conflict (decide_at base local remote p)" for p
    by (simp add: assms is_conflict_def)
  then have "c \<notin> set (mo_conflicts (merge base local remote dev stamp))" for c
    using merge_conflicts_iff [of base local remote dev stamp "cc_path c"] by blast
  then have none: "set (mo_conflicts (merge base local remote dev stamp)) = {}"
    by (intro equals0I) metis
  then show "mo_conflicts (merge base local remote dev stamp) = []"
    by simp
  have "entry_at (mo_merged (merge base local remote dev stamp)) p = Some e \<longleftrightarrow> f p = Some e" for e
    unfolding merge_lookup none by (simp add: assms winner_of_def)
  then show "entry_at (mo_merged (merge base local remote dev stamp)) p = f p"
    by (metis not_None_eq)
qed

text \<open>Fast forward: a device that changed nothing since the base takes the
  remote's files exactly, and one whose base is still the head publishes its own
  files exactly; neither makes a conflict copy.  So once one device publishes a
  merge result, every other device that re-merges it, and the publisher itself,
  lands on the same files.\<close>

theorem merge_fast_forward:
  assumes "manifest_wf local" "manifest_wf remote"
  shows "(mf_files local = mf_files base \<longrightarrow>
      mf_files (mo_merged (merge base local remote dev stamp)) = mf_files remote
      \<and> mo_conflicts (merge base local remote dev stamp) = [])
    \<and> (mf_files remote = mf_files base \<longrightarrow>
      mf_files (mo_merged (merge base local remote dev stamp)) = mf_files local
      \<and> mo_conflicts (merge base local remote dev stamp) = [])"
proof (intro conjI impI)
  let ?out = "merge base local remote dev stamp"
  assume eq: "mf_files local = mf_files base"
  have dec: "decide_at base local remote p = Winner (entry_at remote p)" for p
    by (simp add: decide_at_def decide_def eq)
  show "mo_conflicts ?out = []"
    by (rule merge_no_conflicts(1) [OF dec])
  show "mf_files (mo_merged ?out) = mf_files remote"
    using merge_wf [of base local remote dev stamp] assms merge_no_conflicts(2) [OF dec]
    unfolding manifest_wf_def by (intro bt_ext) auto
next
  let ?out = "merge base local remote dev stamp"
  assume eq: "mf_files remote = mf_files base"
  have dec: "decide_at base local remote p = Winner (entry_at local p)" for p
    by (auto simp: decide_at_def decide_def eq)
  show "mo_conflicts ?out = []"
    by (rule merge_no_conflicts(1) [OF dec])
  show "mf_files (mo_merged ?out) = mf_files local"
    using merge_wf [of base local remote dev stamp] assms merge_no_conflicts(2) [OF dec]
    unfolding manifest_wf_def by (intro bt_ext) auto
qed

lemma merge_fast_forward_witness:
  "mf_files (mo_merged (merge (manifest_new ''w'') (manifest_new ''w'')
      (sample_files [(''a'', sample_file 1 1)]) ''mac'' ''s'')) = [(''a'', sample_file 1 1)]"
  using merge_fast_forward [of "manifest_new ''w''" "sample_files [(''a'', sample_file 1 1)]"
      "manifest_new ''w''" "''mac''" "''s''"]
  by (simp add: manifest_wf_def sample_files_def manifest_new_def bt_wf_def)

section \<open>What the tree must change\<close>

text \<open>The conflict copies made from files on disk, before anything is applied.\<close>

definition local_copies :: "merge_outcome \<Rightarrow> conflict_copy list" where
  "local_copies out = filter (\<lambda>c. cc_side c = SideLocal \<and> \<not> cc_local_only c) (mo_conflicts out)"

definition with_local_copies ::
  "merge_outcome \<Rightarrow> (string, file_entry) btree \<Rightarrow> (string, file_entry) btree" where
  "with_local_copies out files =
     fold (\<lambda>c. bt_insert (cc_copy_path c) (cc_entry c)) (local_copies out) files"

lemma fold_copies_get:
  assumes "\<And>c. c \<in> set cs \<Longrightarrow> g (cc_copy_path c) = Some (cc_entry c)"
  shows "bt_get (fold (\<lambda>c. bt_insert (cc_copy_path c) (cc_entry c)) cs m) q
    = (if q \<in> cc_copy_path ` set cs then g q else bt_get m q)"
  using assms by (induction cs arbitrary: m) auto

lemma fold_copies_wf:
  "bt_wf m \<Longrightarrow> bt_wf (fold (\<lambda>c. bt_insert (cc_copy_path c) (cc_entry c)) cs m)"
  by (induction cs arbitrary: m) auto

lemma merge_apply_sel:
  "mo_apply_from_remote (merge base local remote dev stamp) =
     (let out = merge base local remote dev stamp; d = diff local (mo_merged out)
      in d\<lparr>md_added := filter (\<lambda>p. p \<notin> cc_copy_path ` set (local_copies out)) (md_added d)\<rparr>)"
  by (simp add: merge_def Let_def local_copies_def)

lemma local_copy_facts:
  assumes "c \<in> set (local_copies (merge base local remote dev stamp))"
  shows "entry_at (mo_merged (merge base local remote dev stamp)) (cc_copy_path c) = Some (cc_entry c)"
    "entry_at local (cc_copy_path c) = None" "entry_at remote (cc_copy_path c) = None"
proof -
  have c: "c \<in> set (mo_conflicts (merge base local remote dev stamp))" "\<not> cc_local_only c"
    using assms by (simp_all add: local_copies_def)
  then show "entry_at (mo_merged (merge base local remote dev stamp)) (cc_copy_path c) = Some (cc_entry c)"
    unfolding merge_lookup by blast
  have "cc_copy_path c \<notin> set (namespace_new local remote)"
    using synced_copy_candidate [OF c] by metis
  then show "entry_at local (cc_copy_path c) = None" "entry_at remote (cc_copy_path c) = None"
    using key_in_namespace by (metis not_None_eq)+
qed

text \<open>C25: \<open>apply_from_remote\<close> is exact: once the local losers have been copied on
  disk, patching the scanned tree with it gives the merged manifest; and every
  file it writes has an entry the remote manifest holds, so its chunks are on the
  relay.\<close>

theorem merge_apply_exact:
  assumes "manifest_wf local"
  shows "patch_files (mf_files (mo_merged (merge base local remote dev stamp)))
      (mo_apply_from_remote (merge base local remote dev stamp))
      (with_local_copies (merge base local remote dev stamp) (mf_files local))
    = mf_files (mo_merged (merge base local remote dev stamp))
  \<and> (\<forall>p \<in> set (md_added (mo_apply_from_remote (merge base local remote dev stamp)))
          \<union> set (md_changed (mo_apply_from_remote (merge base local remote dev stamp))).
       \<exists>q e. entry_at (mo_merged (merge base local remote dev stamp)) p = Some e
         \<and> entry_at remote q = Some e)"
proof (rule conjI)
  let ?out = "merge base local remote dev stamp"
  let ?new = "mf_files (mo_merged ?out)"
  let ?L = "cc_copy_path ` set (local_copies ?out)"
  have copies: "bt_get (with_local_copies ?out (mf_files local)) q
      = (if q \<in> ?L then bt_get ?new q else entry_at local q)" for q
    unfolding with_local_copies_def
    by (rule fold_copies_get) (rule local_copy_facts(1))
  have wf: "bt_wf ?new" "bt_wf (with_local_copies ?out (mf_files local))"
    using merge_wf [of base local remote dev stamp] fold_copies_wf assms
    by (simp_all only: manifest_wf_def with_local_copies_def)
  have sel: "p \<in> set (md_added (mo_apply_from_remote ?out)) \<longleftrightarrow>
        p \<in> set (md_added (diff local (mo_merged ?out))) \<and> p \<notin> ?L"
      "md_changed (mo_apply_from_remote ?out) = md_changed (diff local (mo_merged ?out))"
      "md_deleted (mo_apply_from_remote ?out) = md_deleted (diff local (mo_merged ?out))" for p
    by (simp_all only: merge_apply_sel Let_def) auto
  show "patch_files ?new (mo_apply_from_remote ?out) (with_local_copies ?out (mf_files local)) = ?new"
  proof (rule bt_ext)
    fix q
    show "bt_get (patch_files ?new (mo_apply_from_remote ?out)
        (with_local_copies ?out (mf_files local))) q = bt_get ?new q"
      unfolding patch_files_def fold_insert_from fold_bt_remove set_append Un_iff sel copies
        diff_added_iff diff_changed_iff diff_deleted_iff
      by (cases "entry_at local q"; cases "bt_get ?new q") auto
  qed (use wf patch_files_wf in blast)+
  show "\<forall>p \<in> set (md_added (mo_apply_from_remote ?out)) \<union> set (md_changed (mo_apply_from_remote ?out)).
      \<exists>q e. entry_at (mo_merged ?out) p = Some e \<and> entry_at remote q = Some e"
  proof
    fix p assume "p \<in> set (md_added (mo_apply_from_remote ?out)) \<union> set (md_changed (mo_apply_from_remote ?out))"
    then obtain e where e: "entry_at (mo_merged ?out) p = Some e" "entry_at local p \<noteq> Some e" "p \<notin> ?L"
      unfolding Un_iff sel diff_added_iff diff_changed_iff using local_copy_facts(2) by fastforce
    have "winner_of (decide_at base local remote p) = Some e
        \<or> (\<exists>c\<in>set (mo_conflicts ?out). \<not> cc_local_only c \<and> cc_copy_path c = p \<and> cc_entry c = e)"
      using e(1) by (simp only: merge_lookup)
    then show "\<exists>q e. entry_at (mo_merged ?out) p = Some e \<and> entry_at remote q = Some e"
    proof (elim disjE bexE)
      assume "winner_of (decide_at base local remote p) = Some e"
      then show ?thesis
        using e winner_of_in_sides unfolding decide_at_def by blast
    next
      fix c assume c: "c \<in> set (mo_conflicts ?out)"
        "\<not> cc_local_only c \<and> cc_copy_path c = p \<and> cc_entry c = e"
      then have "cc_side c = SideRemote"
        using e(3) by (cases "cc_side c") (auto simp: local_copies_def)
      moreover obtain w where w: "decide_at base local remote (cc_path c) = Conflict w (cc_side c) e"
        using merge_copy_ok [OF c(1)] c(2) by (auto simp: copy_ok_def)
      ultimately have "entry_at remote (cc_path c) = Some e"
        using decide_conflict [OF w [unfolded decide_at_def]] by auto
      then show ?thesis using e(1) by blast
    qed
  qed
qed

lemma merge_apply_exact_witness:
  "patch_files (mf_files (mo_merged (merge (manifest_new ''w'') (manifest_new ''w'')
        (sample_files [(''a'', sample_file 1 1)]) ''mac'' ''s'')))
     (mo_apply_from_remote (merge (manifest_new ''w'') (manifest_new ''w'')
        (sample_files [(''a'', sample_file 1 1)]) ''mac'' ''s''))
     (with_local_copies (merge (manifest_new ''w'') (manifest_new ''w'')
        (sample_files [(''a'', sample_file 1 1)]) ''mac'' ''s'') [])
   = mf_files (mo_merged (merge (manifest_new ''w'') (manifest_new ''w'')
        (sample_files [(''a'', sample_file 1 1)]) ''mac'' ''s''))"
  using merge_apply_exact [of "manifest_new ''w''" "manifest_new ''w''"
      "sample_files [(''a'', sample_file 1 1)]" "''mac''" "''s''"]
  by (simp add: manifest_wf_def manifest_new_def)

end
