(* ===== verification/Codec.thy ===== *)
theory Codec
imports Strings
begin

text \<open>
  The interface of an encoder and its fallible decoder.  \<open>lossless_codec\<close> is the
  round trip from values; \<open>canonical_codec\<close> adds that the decoder accepts nothing
  but encodings, so a decoded value determines the bytes it came from.  The
  chunk frame, the hex and the base64 codecs interpret them.  A byte is a \<^typ>\<open>char\<close>.
\<close>

type_synonym bytes = "char list"

locale lossless_codec =
  fixes enc :: "'a \<Rightarrow> bytes"
    and dec :: "bytes \<Rightarrow> ('e, 'a) result"
    and ok :: "'a \<Rightarrow> bool"
  assumes dec_enc: "ok x \<Longrightarrow> dec (enc x) = Inr x"
begin

lemma enc_inj: "ok x \<Longrightarrow> ok y \<Longrightarrow> enc x = enc y \<Longrightarrow> x = y"
  by (metis dec_enc sum.inject(2))

lemma dec_total_on_enc: "ok x \<Longrightarrow> is_ok (dec (enc x))"
  by (simp add: dec_enc)

end

locale canonical_codec = lossless_codec +
  assumes dec_sound: "dec b = Inr x \<Longrightarrow> ok x \<and> enc x = b"
begin

lemma dec_iff: "dec b = Inr x \<longleftrightarrow> ok x \<and> enc x = b"
  using dec_enc dec_sound by blast

lemma dec_inj: "dec b = Inr x \<Longrightarrow> dec c = Inr x \<Longrightarrow> b = c"
  using dec_sound by metis

lemma dec_rejects: "(\<And>x. ok x \<Longrightarrow> enc x \<noteq> b) \<Longrightarrow> \<exists>e. dec b = Inl e"
  using dec_sound by (cases "dec b") auto

end

section \<open>Little-endian numbers\<close>

fun le_bytes :: "nat \<Rightarrow> nat \<Rightarrow> bytes" where
  "le_bytes 0 n = []"
| "le_bytes (Suc k) n = char_of (n mod 256) # le_bytes k (n div 256)"

fun from_le_bytes :: "bytes \<Rightarrow> nat" where
  "from_le_bytes [] = 0"
| "from_le_bytes (b # bs) = of_char b + 256 * from_le_bytes bs"

lemma length_le_bytes [simp]: "length (le_bytes k n) = k"
  by (induction k arbitrary: n) simp_all

lemma from_le_le_bytes: "from_le_bytes (le_bytes k n) = n mod 256 ^ k"
proof (induction k arbitrary: n)
  case (Suc k)
  have "n mod (256 * 256 ^ k) = 256 * (n div 256 mod 256 ^ k) + n mod 256"
    by (rule mod_mult2_eq)
  then show ?case
    using Suc by simp
qed simp

lemma le_from_le_bytes: "le_bytes (length bs) (from_le_bytes bs) = bs"
  by (induction bs) simp_all

lemma from_le_bytes_less: "from_le_bytes bs < 256 ^ length bs"
proof (induction bs)
  case (Cons b bs)
  have "byte_of b + 256 * from_le_bytes bs < 256 * Suc (from_le_bytes bs)"
    by simp
  also have "Suc (from_le_bytes bs) \<le> 256 ^ length bs"
    using Cons by simp
  then have "256 * Suc (from_le_bytes bs) \<le> 256 * 256 ^ length bs"
    by (rule mult_le_mono2)
  finally show ?case
    by simp
qed simp

end
