(* ===== verification/Encoding.thy ===== *)
theory Encoding
imports Codec Utf8
begin

text \<open>
  The wire encodings of \<open>core/src/crypto.rs\<close>: lower-case hex and RFC 4648
  base64, with their decoders as written (\<open>u8::from_str_radix\<close> on two-byte
  slices of the \<open>str\<close>, groups of four base64 characters).  A slice that is not on
  a character boundary is a panic, kept as the error \<open>HexPanic\<close>.
\<close>

section \<open>Hex\<close>

definition hex_digit :: "nat \<Rightarrow> char" where
  "hex_digit d = (if d < 10 then char_of (48 + d) else char_of (87 + d))"

definition hex_encode :: "bytes \<Rightarrow> string" where
  "hex_encode bs = concat (map (\<lambda>b. [hex_digit (byte_of b div 16), hex_digit (byte_of b mod 16)]) bs)"

definition hex_value :: "char \<Rightarrow> nat option" where
  "hex_value c =
     (let b = byte_of c in
        if 48 \<le> b \<and> b \<le> 57 then Some (b - 48)
        else if 97 \<le> b \<and> b \<le> 102 then Some (b - 87)
        else if 65 \<le> b \<and> b \<le> 70 then Some (b - 55)
        else None)"

text \<open>\<open>u8::from_str_radix(_, 16)\<close> on a two byte string: a leading \<open>+\<close> is a sign.\<close>

definition u8_from_hex :: "char \<Rightarrow> char \<Rightarrow> nat option" where
  "u8_from_hex a b =
     (if a = CHR ''+'' then hex_value b
      else (case (hex_value a, hex_value b) of
              (Some x, Some y) \<Rightarrow> Some (16 * x + y)
            | _ \<Rightarrow> None))"

datatype hex_error = HexOdd nat | HexBadByte nat | HexPanic nat

text \<open>\<open>&s[i..i + 2]\<close> panics unless both ends are character boundaries, that is,
  unless the bytes there are not continuation bytes.\<close>

fun hex_decode_from :: "nat \<Rightarrow> string \<Rightarrow> (hex_error, bytes) result" where
  "hex_decode_from i (a # b # rest) =
     (if is_continuation a \<or> (rest \<noteq> [] \<and> is_continuation (hd rest)) then Inl (HexPanic i)
      else (case u8_from_hex a b of
              None \<Rightarrow> Inl (HexBadByte i)
            | Some v \<Rightarrow> rbind (hex_decode_from (i + 2) rest) (\<lambda>bs. Inr (char_of v # bs))))"
| "hex_decode_from i _ = Inr []"

definition hex_decode :: "string \<Rightarrow> (hex_error, bytes) result" where
  "hex_decode s = (if length s mod 2 \<noteq> 0 then Inl (HexOdd (length s)) else hex_decode_from 0 s)"



lemma hex_digit_facts:
  assumes "d < 16"
  shows "hex_value (hex_digit d) = Some d" "\<not> is_continuation (hex_digit d)"
    "hex_digit d \<noteq> CHR ''+''"
proof -
  have b: "byte_of (hex_digit d) = (if d < 10 then 48 + d else 87 + d)"
    using assms by (simp add: hex_digit_def)
  show "hex_value (hex_digit d) = Some d" "\<not> is_continuation (hex_digit d)"
    using assms by (simp_all add: hex_value_def is_continuation_def Let_def b)
  show "hex_digit d \<noteq> CHR ''+''"
    using b by (auto split: if_splits)
qed

lemma hex_encode_Cons:
  "hex_encode (b # bs) = hex_digit (byte_of b div 16) # hex_digit (byte_of b mod 16) # hex_encode bs"
  by (simp add: hex_encode_def)

lemma hex_encode_hd: "hex_encode bs \<noteq> [] \<Longrightarrow> \<not> is_continuation (hd (hex_encode bs))"
proof (cases bs)
  case (Cons b bs')
  have "byte_of b div 16 < 16"
    using byte_less [of b] by (simp add: less_mult_imp_div_less)
  then show ?thesis
    using Cons hex_digit_facts by (simp add: hex_encode_Cons)
qed (simp add: hex_encode_def)

lemma length_hex_encode [simp]: "length (hex_encode bs) = 2 * length bs"
  by (induction bs) (simp_all add: hex_encode_def)

lemma hex_decode_from_encode: "hex_decode_from i (hex_encode bs) = Inr bs"
proof (induction bs arbitrary: i)
  case (Cons b bs)
  have d: "byte_of b div 16 < 16" "byte_of b mod 16 < 16"
    using byte_less [of b] by (simp_all add: less_mult_imp_div_less)
  have "16 * (byte_of b div 16) + byte_of b mod 16 = byte_of b"
    by simp
  then have "char_of (16 * (byte_of b div 16) + byte_of b mod 16) = b"
    by (simp only: char_of_char)
  then show ?case
    using Cons hex_digit_facts [OF d(1)] hex_digit_facts [OF d(2)] hex_encode_hd [of bs]
    by (auto simp: hex_encode_Cons u8_from_hex_def)
qed (simp add: hex_encode_def)

interpretation hex: lossless_codec hex_encode hex_decode "\<lambda>_. True"
  by unfold_locales (simp add: hex_decode_def hex_decode_from_encode)

section \<open>Base64\<close>

definition B64_ALPHABET :: string where
  "B64_ALPHABET = ''ABCDEFGHIJKLMNOPQRSTUVWXYZabcdefghijklmnopqrstuvwxyz0123456789+/''"

definition b64_char :: "nat \<Rightarrow> char" where
  "b64_char v = B64_ALPHABET ! (v mod 64)"

definition b64_quad :: "nat \<Rightarrow> nat \<Rightarrow> nat \<Rightarrow> nat" where
  "b64_quad a b c = a * 65536 + b * 256 + c"

fun base64_encode :: "bytes \<Rightarrow> string" where
  "base64_encode [] = []"
| "base64_encode [a] =
     (let n = b64_quad (byte_of a) 0 0
      in [b64_char (n div 262144), b64_char (n div 4096), CHR ''='', CHR ''=''])"
| "base64_encode [a, b] =
     (let n = b64_quad (byte_of a) (byte_of b) 0
      in [b64_char (n div 262144), b64_char (n div 4096), b64_char (n div 64), CHR ''=''])"
| "base64_encode (a # b # c # rest) =
     (let n = b64_quad (byte_of a) (byte_of b) (byte_of c)
      in [b64_char (n div 262144), b64_char (n div 4096), b64_char (n div 64), b64_char n]
         @ base64_encode rest)"

datatype base64_error = B64Length nat | B64Padding | B64Byte char

definition b64_value :: "bool \<Rightarrow> char \<Rightarrow> (base64_error, nat) result" where
  "b64_value pad_pos c =
     (let b = byte_of c in
        if 65 \<le> b \<and> b \<le> 90 then Inr (b - 65)
        else if 97 \<le> b \<and> b \<le> 122 then Inr (b - 97 + 26)
        else if 48 \<le> b \<and> b \<le> 57 then Inr (b - 48 + 52)
        else if c = CHR ''+'' then Inr 62
        else if c = CHR ''/'' then Inr 63
        else if c = CHR ''='' \<and> pad_pos then Inr 0
        else Inl (B64Byte c))"

fun b64_fold :: "nat \<Rightarrow> nat \<Rightarrow> nat \<Rightarrow> string \<Rightarrow> (base64_error, nat) result" where
  "b64_fold pad i n [] = Inr n"
| "b64_fold pad i n (c # cs) =
     rbind (b64_value (4 - pad \<le> i) c) (\<lambda>v. b64_fold pad (Suc i) (n * 64 + v) cs)"

definition b64_group :: "bool \<Rightarrow> string \<Rightarrow> (base64_error, bytes) result" where
  "b64_group last_group g =
     (let pad = length (filter (\<lambda>b. b = CHR ''='') g) in
        if 0 < pad \<and> (\<not> last_group \<or> 2 < pad \<or> \<not> list_all (\<lambda>b. b = CHR ''='') (drop (4 - pad) g))
        then Inl B64Padding
        else rbind (b64_fold pad 0 0 g) (\<lambda>n.
          Inr ([char_of (n div 65536 mod 256)]
               @ (if pad < 2 then [char_of (n div 256 mod 256)] else [])
               @ (if pad < 1 then [char_of (n mod 256)] else []))))"

fun b64_groups :: "string \<Rightarrow> (base64_error, bytes) result" where
  "b64_groups (a # b # c # d # rest) =
     rbind (b64_group (rest = []) [a, b, c, d]) (\<lambda>out.
       rbind (b64_groups rest) (\<lambda>more. Inr (out @ more)))"
| "b64_groups _ = Inr []"

definition base64_decode :: "string \<Rightarrow> (base64_error, bytes) result" where
  "base64_decode s =
     (if length s mod 4 \<noteq> 0 then Inl (B64Length (length s)) else b64_groups s)"

lemma b64_char_facts:
  "b64_value pos (b64_char v) = Inr (v mod 64)" "b64_char v \<noteq> CHR ''=''"
proof -
  have len: "length B64_ALPHABET = 64"
    by (simp add: B64_ALPHABET_def)
  have "map (b64_value pos) B64_ALPHABET = map Inr [0..<64]"
    by (simp add: B64_ALPHABET_def b64_value_def upt_rec [of 0] upt_rec [of "Suc 0"] upt_rec_numeral numeral_2_eq_2 [symmetric])
  then have "map (b64_value pos) B64_ALPHABET ! (v mod 64) = map Inr [0..<64] ! (v mod 64)"
    by (rule arg_cong)
  then show "b64_value pos (b64_char v) = Inr (v mod 64)"
    by (simp add: b64_char_def len)
  have "CHR ''='' \<notin> set B64_ALPHABET"
    by (simp add: B64_ALPHABET_def)
  then show "b64_char v \<noteq> CHR ''=''"
    unfolding b64_char_def by (metis len nth_mem mod_less_divisor zero_less_numeral)
qed

lemma b64_digits:
  assumes "n < 16777216"
  shows "((n div 262144 mod 64 * 64 + n div 4096 mod 64) * 64 + n div 64 mod 64) * 64 + n mod 64 = (n::nat)"
proof -
  have "n div 262144 mod 64 = n div 262144"
    using assms by (simp add: less_mult_imp_div_less)
  moreover have "n div 262144 = n div 4096 div 64" "n div 4096 = n div 64 div 64"
    by (simp_all add: div_mult2_eq [symmetric])
  ultimately show ?thesis
    by (metis div_mult_mod_eq)
qed

lemma b64_quad_bytes:
  assumes "a < 256" "b < 256" "c < 256"
  shows "b64_quad a b c < 16777216" "b64_quad a b c div 65536 mod 256 = a"
    "b64_quad a b c div 256 mod 256 = b" "b64_quad a b c mod 256 = c"
proof -
  have "b64_quad a b c = (a * 256 + b) * 256 + c"
    by (simp add: b64_quad_def)
  then have 1: "b64_quad a b c mod 256 = c" "b64_quad a b c div 256 = a * 256 + b"
    using assms by (simp_all only: mod_mult_self3 mod_less div_mult_self3)
  then have 2: "b64_quad a b c div 256 mod 256 = b" "b64_quad a b c div 256 div 256 = a"
    using assms by simp_all
  have "b64_quad a b c div 65536 = a"
    using 2(2) by (simp add: div_mult2_eq [symmetric])
  then show "b64_quad a b c < 16777216" "b64_quad a b c div 65536 mod 256 = a"
    "b64_quad a b c div 256 mod 256 = b" "b64_quad a b c mod 256 = c"
    using assms 1 2 by (simp_all add: b64_quad_def)
qed

lemma b64_quad_low:
  "b64_quad a 0 0 mod 64 = 0" "b64_quad a 0 0 div 64 mod 64 = 0" "b64_quad a b 0 mod 64 = 0"
  by (simp_all add: b64_quad_def mod_eq_0_iff_dvd)

lemma b64_fold_chars:
  "b64_fold pad i n (b64_char v # cs) = b64_fold pad (Suc i) (n * 64 + v mod 64) cs"
  by (simp add: b64_char_facts)

lemma b64_fold_pads:
  "b64_fold 1 (Suc (Suc (Suc 0))) n ''='' = Inr (n * 64)"
  "b64_fold 2 (Suc (Suc 0)) n ''=='' = Inr (n * 64 * 64)"
  by (simp_all add: b64_value_def)

lemma b64_group_full:
  assumes "a < 256" "b < 256" "c < 256"
  shows "b64_group l [b64_char (b64_quad a b c div 262144), b64_char (b64_quad a b c div 4096),
      b64_char (b64_quad a b c div 64), b64_char (b64_quad a b c)]
    = Inr [char_of a, char_of b, char_of c]"
proof -
  have "b64_fold 0 0 0 [b64_char (b64_quad a b c div 262144), b64_char (b64_quad a b c div 4096),
      b64_char (b64_quad a b c div 64), b64_char (b64_quad a b c)] = Inr (b64_quad a b c)"
    by (simp only: b64_fold_chars b64_fold.simps(1) mult_zero_left add_0
        b64_digits [OF b64_quad_bytes(1) [OF assms]])
  then show ?thesis
    using b64_char_facts(2) b64_quad_bytes(2-4) [OF assms]
    by (simp add: b64_group_def del: b64_fold.simps char_of_eq_iff)
qed

lemma b64_group_two:
  assumes "a < 256" "b < 256"
  shows "b64_group True [b64_char (b64_quad a b 0 div 262144), b64_char (b64_quad a b 0 div 4096),
      b64_char (b64_quad a b 0 div 64), CHR ''='']
    = Inr [char_of a, char_of b]"
proof -
  have "b64_fold 1 0 0 [b64_char (b64_quad a b 0 div 262144), b64_char (b64_quad a b 0 div 4096),
      b64_char (b64_quad a b 0 div 64), CHR ''=''] = Inr (b64_quad a b 0)"
    using b64_digits [OF b64_quad_bytes(1) [OF assms zero_less_numeral]]
    by (simp only: b64_fold_chars b64_fold_pads mult_zero_left add_0 add_0_right b64_quad_low)
  then show ?thesis
    using b64_char_facts(2) b64_quad_bytes(2-4) [OF assms, of 0]
    by (simp add: b64_group_def del: b64_fold.simps char_of_eq_iff)
qed

lemma b64_group_one:
  assumes "a < 256"
  shows "b64_group True [b64_char (b64_quad a 0 0 div 262144), b64_char (b64_quad a 0 0 div 4096),
      CHR ''='', CHR ''='']
    = Inr [char_of a]"
proof -
  have "b64_fold 2 0 0 [b64_char (b64_quad a 0 0 div 262144), b64_char (b64_quad a 0 0 div 4096),
      CHR ''='', CHR ''=''] = Inr (b64_quad a 0 0)"
    using b64_digits [OF b64_quad_bytes(1) [OF assms zero_less_numeral zero_less_numeral]]
    by (simp only: b64_fold_chars b64_fold_pads mult_zero_left add_0 add_0_right b64_quad_low)
  then show ?thesis
    using b64_char_facts(2) b64_quad_bytes(2-4) [OF assms, of 0 0]
    by (simp add: b64_group_def numeral_2_eq_2 del: b64_fold.simps char_of_eq_iff)
qed

lemma b64_groups_encode: "b64_groups (base64_encode bs) = Inr bs"
proof (induction bs rule: base64_encode.induct)
  case (2 a)
  then show ?case using b64_group_one [of "byte_of a"] by (simp add: Let_def)
next
  case (3 a b)
  then show ?case using b64_group_two [of "byte_of a" "byte_of b"] by (simp add: Let_def)
next
  case (4 a b c rest)
  then show ?case
    using b64_group_full [of "byte_of a" "byte_of b" "byte_of c"] by (simp add: Let_def)
qed simp

lemma length_base64_encode: "length (base64_encode bs) = 4 * ((length bs + 2) div 3)"
proof (induction bs rule: base64_encode.induct)
  case (4 a b c rest)
  have "(length (a # b # c # rest) + 2) div 3 = Suc ((length rest + 2) div 3)"
    using div_add_self2 [of 3 "length rest + 2"] by (simp add: add.commute)
  then show ?case
    using 4 by (simp add: Let_def del: One_nat_def)
qed (simp_all add: Let_def)

interpretation base64: lossless_codec base64_encode base64_decode "\<lambda>_. True"
  by unfold_locales (simp add: base64_decode_def length_base64_encode b64_groups_encode)

text \<open>Hex and base64 are lossless on every byte string: decoding what was
  encoded returns it, and two different byte strings never share an encoding.\<close>

theorem wire_encodings_lossless:
  "hex_decode (hex_encode bs) = Inr bs \<and> base64_decode (base64_encode bs) = Inr bs
   \<and> (hex_encode bs = hex_encode cs \<longleftrightarrow> bs = cs)
   \<and> (base64_encode bs = base64_encode cs \<longleftrightarrow> bs = cs)"
  by (metis hex.dec_enc base64.dec_enc hex.enc_inj base64.enc_inj)

text \<open>The decoders accept more than their documented language and are not
  total: \<open>+f\<close> is read as a hex byte, the non-canonical base64 \<open>QR==\<close> is accepted
  beside \<open>QQ==\<close>, and the even-length string of the bytes E2 82 AC 61 (a euro sign
  and \<open>a\<close>) makes the hex decoder panic instead of failing.\<close>

theorem decoders_accept_noncanonical:
  "hex_decode ''+f'' = Inr [CHR 15]
   \<and> base64_decode ''QR=='' = Inr ''A'' \<and> base64_decode ''QQ=='' = Inr ''A''
   \<and> base64_encode ''A'' = ''QQ==''
   \<and> hex_decode [CHR 226, CHR 130, CHR 172, CHR ''a''] = Inl (HexPanic 0)"
  by (simp add: hex_decode_def u8_from_hex_def hex_value_def is_continuation_def
      base64_decode_def b64_group_def b64_value_def b64_quad_def b64_char_def B64_ALPHABET_def
      char_of_eq_iff Let_def)

lemma hex_decode_from_ascii:
  assumes "\<forall>c\<in>set s. \<not> is_continuation c"
  shows "hex_decode_from i s \<noteq> Inl (HexPanic j)"
  using assms
proof (induction i s rule: hex_decode_from.induct)
  case (1 i a b rest)
  then show ?case
    by (cases "hex_decode_from (i + 2) rest") (auto split: option.splits simp: neq_Nil_conv)
qed simp_all

end
