(* ===== verification/Crypto.thy ===== *)
theory Crypto
imports Encoding "HOL-Library.Product_Lexorder"
begin

text \<open>
  \<open>core/src/crypto.rs\<close> (and the owner-only file rules of \<open>fsutil.rs\<close>): HMAC and
  HKDF over a SHA-256 parameter, convergent and random-nonce AES-GCM envelopes,
  the X25519 sealed box, the signed bundle statement, and the key files of an
  identity.  The primitives that come from crates are the fields of \<open>prims\<close>;
  \<open>prims_ok\<close> is the documented behaviour the code relies on (sizes, AEAD
  decryption inverts encryption, Diffie-Hellman agrees).  Random bytes are
  arguments.
\<close>

record prims =
  p_sha256 :: "bytes \<Rightarrow> bytes"
  p_keyed_hash :: "bytes \<Rightarrow> bytes \<Rightarrow> bytes"                       \<comment> \<open>\<open>blake3::keyed_hash\<close>\<close>
  p_seal :: "bytes \<Rightarrow> bytes \<Rightarrow> bytes \<Rightarrow> bytes"                   \<comment> \<open>key, nonce, plaintext\<close>
  p_open :: "bytes \<Rightarrow> bytes \<Rightarrow> bytes \<Rightarrow> bytes option"
  p_x25519 :: "bytes \<Rightarrow> bytes \<Rightarrow> bytes"
  p_x25519_base :: "bytes \<Rightarrow> bytes"
  p_ed_public :: "bytes \<Rightarrow> bytes"
  p_ed_sign :: "bytes \<Rightarrow> bytes \<Rightarrow> bytes"
  p_ed_verify :: "bytes \<Rightarrow> bytes \<Rightarrow> bytes \<Rightarrow> bool"              \<comment> \<open>strict verification\<close>

definition prims_ok :: "prims \<Rightarrow> bool" where
  "prims_ok cp \<longleftrightarrow>
     (\<forall>x. length (p_sha256 cp x) = 32)
     \<and> (\<forall>k x. length (p_keyed_hash cp k x) = 32)
     \<and> (\<forall>k n p. p_open cp k n (p_seal cp k n p) = Some p)
     \<and> (\<forall>k n p. length (p_seal cp k n p) = length p + 16)
     \<and> (\<forall>s. length (p_x25519_base cp s) = 32)
     \<and> (\<forall>s t. p_x25519 cp s (p_x25519_base cp t) = p_x25519 cp t (p_x25519_base cp s))"

definition GCM_NONCE_LEN :: nat where "GCM_NONCE_LEN = 12"
definition GCM_TAG_LEN :: nat where "GCM_TAG_LEN = 16"

datatype crypto_error =
    CryptoPanic
  | TooShort nat
  | DoesNotDecrypt
  | LowOrderKey
  | InvalidName string
  | LooseMode nat
  | WrongKeySize nat
  | NoSuchFile string
  | IdentityExists string
  | NeedsBothHalves string
  | BadIdentityLength nat
  | WriteFailed string

section \<open>HMAC and HKDF\<close>

definition xor_byte :: "nat \<Rightarrow> char \<Rightarrow> char" where
  "xor_byte k c = char_of (xor (byte_of c) k)"

definition zero_bytes :: "nat \<Rightarrow> bytes" where
  "zero_bytes n = replicate n (char_of (0::nat))"

definition hmac_sha256 :: "prims \<Rightarrow> bytes \<Rightarrow> bytes \<Rightarrow> bytes" where
  "hmac_sha256 cp key data =
     (let k = (if 64 < length key then p_sha256 cp key else key);
          key_block = k @ zero_bytes (64 - length k);
          inner_hash = p_sha256 cp (map (xor_byte 54) key_block @ data)
      in p_sha256 cp (map (xor_byte 92) key_block @ inner_hash))"

fun hkdf_blocks :: "prims \<Rightarrow> bytes \<Rightarrow> bytes \<Rightarrow> nat \<Rightarrow> nat \<Rightarrow> bytes \<Rightarrow> nat \<Rightarrow> bytes \<Rightarrow> bytes" where
  "hkdf_blocks cp prk info out_len 0 t i okm = okm"
| "hkdf_blocks cp prk info out_len (Suc k) t i okm =
     (let t' = hmac_sha256 cp prk (t @ info @ [char_of (i + 1)]);
          n = min (out_len - length okm) 32
      in hkdf_blocks cp prk info out_len k t' (i + 1) (okm @ take n t'))"

definition hkdf_sha256 ::
  "prims \<Rightarrow> bytes \<Rightarrow> bytes option \<Rightarrow> bytes \<Rightarrow> nat \<Rightarrow> (crypto_error, bytes) result" where
  "hkdf_sha256 cp ikm salt info out_len =
     (if 255 * 32 < out_len then Inl CryptoPanic
      else
        (let s = (case salt of Some s \<Rightarrow> s | None \<Rightarrow> zero_bytes 32);
             prk = hmac_sha256 cp s ikm
         in Inr (hkdf_blocks cp prk info out_len ((out_len + 31) div 32) [] 0 [])))"

section \<open>Envelopes\<close>

definition encrypt_with_nonce :: "prims \<Rightarrow> bytes \<Rightarrow> bytes \<Rightarrow> bytes \<Rightarrow> bytes" where
  "encrypt_with_nonce cp key nonce plaintext = nonce @ p_seal cp key nonce plaintext"

definition encrypt_chunk :: "prims \<Rightarrow> bytes \<Rightarrow> bytes \<Rightarrow> bytes" where
  "encrypt_chunk cp key plaintext =
     encrypt_with_nonce cp key (take GCM_NONCE_LEN (p_keyed_hash cp key plaintext)) plaintext"

definition encrypt_blob :: "prims \<Rightarrow> bytes \<Rightarrow> bytes \<Rightarrow> bytes \<Rightarrow> bytes" where
  "encrypt_blob cp random_nonce key plaintext = encrypt_with_nonce cp key random_nonce plaintext"

definition decrypt_chunk :: "prims \<Rightarrow> bytes \<Rightarrow> bytes \<Rightarrow> (crypto_error, bytes) result" where
  "decrypt_chunk cp key blob =
     (if length blob < GCM_NONCE_LEN + GCM_TAG_LEN then Inl (TooShort (length blob))
      else (case p_open cp key (take GCM_NONCE_LEN blob) (drop GCM_NONCE_LEN blob) of
              None \<Rightarrow> Inl DoesNotDecrypt
            | Some p \<Rightarrow> Inr p))"

definition decrypt_blob :: "prims \<Rightarrow> bytes \<Rightarrow> bytes \<Rightarrow> (crypto_error, bytes) result" where
  "decrypt_blob cp key blob = decrypt_chunk cp key blob"

section \<open>Key pairs and signed bundles\<close>

record user_keypair =
  uk_secret :: bytes
  uk_public :: bytes

definition keypair_from_secret :: "prims \<Rightarrow> bytes \<Rightarrow> user_keypair" where
  "keypair_from_secret cp secret = \<lparr>uk_secret = secret, uk_public = p_x25519_base cp secret\<rparr>"

record ed_keypair =
  ek_seed :: bytes
  ek_public :: bytes

definition ed_from_secret :: "prims \<Rightarrow> bytes \<Rightarrow> ed_keypair" where
  "ed_from_secret cp seed = \<lparr>ek_seed = seed, ek_public = p_ed_public cp seed\<rparr>"

definition ed_sign :: "prims \<Rightarrow> ed_keypair \<Rightarrow> bytes \<Rightarrow> bytes" where
  "ed_sign cp kp msg = p_ed_sign cp (ek_seed kp) msg"

definition BUNDLE_DOMAIN :: bytes where
  "BUNDLE_DOMAIN = ''pear device key v1'' @ [char_of (0::nat)]"

definition bundle_statement :: "string \<Rightarrow> bytes \<Rightarrow> bytes" where
  "bundle_statement name x25519_pub = BUNDLE_DOMAIN @ name @ x25519_pub"

definition ed_verify :: "prims \<Rightarrow> bytes \<Rightarrow> bytes \<Rightarrow> bytes \<Rightarrow> bool" where
  "ed_verify cp ed_pub msg sig = p_ed_verify cp ed_pub msg sig"

section \<open>The sealed box\<close>

definition WRAP_INFO :: bytes where
  "WRAP_INFO = ''pear workspace key wrap v1''"

definition WRAPPED_KEY_MIN_LEN :: nat where
  "WRAPPED_KEY_MIN_LEN = 32 + GCM_NONCE_LEN + GCM_TAG_LEN"

definition WRAPPED_KEY_MAX_LEN :: nat where
  "WRAPPED_KEY_MAX_LEN = 64 * 1024"

definition derive_wrap_key :: "prims \<Rightarrow> bytes \<Rightarrow> (crypto_error, bytes) result" where
  "derive_wrap_key cp shared =
     (if shared = zero_bytes 32 then Inl LowOrderKey
      else hkdf_sha256 cp shared None WRAP_INFO 32)"

definition wrap_key ::
  "prims \<Rightarrow> bytes \<Rightarrow> bytes \<Rightarrow> bytes \<Rightarrow> bytes \<Rightarrow> (crypto_error, bytes) result" where
  "wrap_key cp random_secret random_nonce payload recipient_public =
     (let ephemeral = keypair_from_secret cp random_secret;
          shared = p_x25519 cp (uk_secret ephemeral) recipient_public
      in rbind (derive_wrap_key cp shared) (\<lambda>key.
           Inr (uk_public ephemeral @ random_nonce @ p_seal cp key random_nonce payload)))"

definition unwrap_key :: "prims \<Rightarrow> user_keypair \<Rightarrow> bytes \<Rightarrow> (crypto_error, bytes) result" where
  "unwrap_key cp recipient blob =
     (if length blob < WRAPPED_KEY_MIN_LEN then Inl (TooShort (length blob))
      else
        (let ephemeral_public = take 32 blob;
             nonce = take GCM_NONCE_LEN (drop 32 blob);
             ciphertext = drop (32 + GCM_NONCE_LEN) blob;
             shared = p_x25519 cp (uk_secret recipient) ephemeral_public
         in rbind (derive_wrap_key cp shared) (\<lambda>key.
              case p_open cp key nonce ciphertext of
                None \<Rightarrow> Inl DoesNotDecrypt
              | Some p \<Rightarrow> Inr p)))"

section \<open>Facts\<close>

lemma length_hmac: "prims_ok cp \<Longrightarrow> length (hmac_sha256 cp k d) = 32"
  by (simp add: hmac_sha256_def prims_ok_def Let_def)

lemma length_zero_bytes [simp]: "length (zero_bytes n) = n"
  by (simp add: zero_bytes_def)

lemma hkdf_blocks_length:
  assumes "prims_ok cp" "length okm \<le> out_len" "out_len \<le> length okm + 32 * k"
  shows "length (hkdf_blocks cp prk info out_len k t i okm) = out_len"
  using assms
proof (induction k arbitrary: t i okm)
  case (Suc k)
  then show ?case
    by (auto simp: Let_def length_hmac min_def)
qed simp

lemma hkdf_length:
  assumes "prims_ok cp" "hkdf_sha256 cp ikm salt info n = Inr okm"
  shows "length okm = n"
proof -
  have "n \<le> 32 * ((n + 31) div 32)"
    by presburger
  then show ?thesis
    using assms hkdf_blocks_length [OF assms(1), of "[]" n "(n + 31) div 32"]
    by (auto simp: hkdf_sha256_def Let_def split: if_splits)
qed

lemma encrypt_with_nonce_open:
  assumes "prims_ok cp" "length nonce = GCM_NONCE_LEN"
  shows "decrypt_chunk cp key (encrypt_with_nonce cp key nonce p) = Inr p"
  using assms
  by (simp add: decrypt_chunk_def encrypt_with_nonce_def prims_ok_def GCM_TAG_LEN_def)

lemma derive_wrap_key_ok:
  "derive_wrap_key cp shared = Inr key \<longleftrightarrow>
     shared \<noteq> zero_bytes 32 \<and> hkdf_sha256 cp shared None WRAP_INFO 32 = Inr key"
  by (simp add: derive_wrap_key_def)

text \<open>Envelopes open: a chunk, encrypted under its convergent nonce, and a blob,
  encrypted under any 12 byte nonce, decrypt under the same key to the plaintext;
  equal plaintexts under one key give equal chunk ciphertexts, 28 bytes longer
  than the plaintext.\<close>

theorem envelope_roundtrip:
  assumes "prims_ok cp" "length nonce = GCM_NONCE_LEN"
  shows "decrypt_chunk cp key (encrypt_chunk cp key p) = Inr p
    \<and> decrypt_blob cp key (encrypt_blob cp nonce key p) = Inr p
    \<and> length (encrypt_chunk cp key p) = length p + GCM_NONCE_LEN + GCM_TAG_LEN"
proof -
  have "length (take GCM_NONCE_LEN (p_keyed_hash cp key p)) = GCM_NONCE_LEN"
    using assms by (simp add: prims_ok_def GCM_NONCE_LEN_def)
  moreover have "length (p_seal cp key n p) = length p + 16" for n
    using assms by (simp add: prims_ok_def)
  ultimately show ?thesis
    using assms
    by (simp add: encrypt_chunk_def encrypt_blob_def decrypt_blob_def encrypt_with_nonce_open)
      (simp add: encrypt_with_nonce_def GCM_TAG_LEN_def)
qed

text \<open>A sealed box opens for its recipient: whatever payload was wrapped to a
  public key is unwrapped unchanged by the key pair of that public key; and a
  peer key that forces the all-zero secret is refused when wrapping.\<close>

theorem sealed_box_roundtrip:
  assumes "prims_ok cp" "length nonce = GCM_NONCE_LEN"
    and "recipient = keypair_from_secret cp secret"
  shows "(wrap_key cp eph nonce payload (uk_public recipient) = Inr blob
      \<longrightarrow> unwrap_key cp recipient blob = Inr payload)
    \<and> (p_x25519 cp eph pub = zero_bytes 32 \<longrightarrow> wrap_key cp eph nonce payload pub = Inl LowOrderKey)"
proof (intro conjI impI)
  assume wrap: "wrap_key cp eph nonce payload (uk_public recipient) = Inr blob"
  let ?shared = "p_x25519 cp eph (p_x25519_base cp secret)"
  obtain key where key: "derive_wrap_key cp ?shared = Inr key"
    and blob: "blob = p_x25519_base cp eph @ nonce @ p_seal cp key nonce payload"
    using wrap assms(3) by (auto simp: wrap_key_def keypair_from_secret_def Let_def rbind_ok_iff)
  have "p_x25519 cp secret (p_x25519_base cp eph) = ?shared" "length (p_x25519_base cp eph) = 32"
    "p_open cp key nonce (p_seal cp key nonce payload) = Some payload"
    "length (p_seal cp key nonce payload) = length payload + 16"
    using assms(1) by (simp_all add: prims_ok_def)
  then show "unwrap_key cp recipient blob = Inr payload"
    using assms(2,3) key
    by (simp add: unwrap_key_def blob keypair_from_secret_def Let_def WRAPPED_KEY_MIN_LEN_def
        GCM_NONCE_LEN_def GCM_TAG_LEN_def)
qed (simp add: wrap_key_def keypair_from_secret_def derive_wrap_key_def Let_def)

text \<open>A signed bundle binds one user and one key: two statements are equal only
  for the same name and the same 32 byte encryption key.\<close>

theorem bundle_statement_injective:
  assumes "length x = 32" "length y = 32"
  shows "bundle_statement n x = bundle_statement m y \<longleftrightarrow> n = m \<and> x = y"
  using assms by (auto simp: bundle_statement_def)

section \<open>Primitives to instantiate hypotheses with\<close>

definition toy_mix :: "bytes \<Rightarrow> nat" where
  "toy_mix s = sum_list (map of_char s) mod 251"

definition toy_prims :: prims where
  "toy_prims =
     \<lparr>p_sha256 = (\<lambda>x. replicate 32 (char_of (toy_mix x + 1))),
      p_keyed_hash = (\<lambda>k x. replicate 32 (char_of (toy_mix x))),
      p_seal = (\<lambda>k n p. p @ replicate 16 CHR ''t''),
      p_open = (\<lambda>k n c. Some (take (length c - 16) c)),
      p_x25519 = (\<lambda>s p. replicate 32 (char_of ((toy_mix s + toy_mix p) mod 251 + 1))),
      p_x25519_base = (\<lambda>s. char_of (toy_mix s) # zero_bytes 31),
      p_ed_public = (\<lambda>s. s), p_ed_sign = (\<lambda>s m. s @ s), p_ed_verify = (\<lambda>k m s. s = k @ k)\<rparr>"

lemma toy_mix_base: "toy_mix (char_of (toy_mix s) # zero_bytes 31) = toy_mix s"
proof -
  have "toy_mix s < 251"
    by (simp add: toy_mix_def)
  then show ?thesis
    by (subst toy_mix_def) (simp add: zero_bytes_def sum_list_replicate)
qed

lemma toy_shared_nonzero: "p_x25519 toy_prims s p \<noteq> zero_bytes 32"
proof
  assume eq: "p_x25519 toy_prims s p = zero_bytes 32"
  let ?n = "(toy_mix s + toy_mix p) mod 251"
  have "?n < 251"
    by simp
  moreover have "hd (p_x25519 toy_prims s p) = char_of (?n + 1)" "hd (zero_bytes 32) = char_of (0::nat)"
    by (simp_all add: toy_prims_def zero_bytes_def)
  then have "byte_of (char_of (?n + 1)) = byte_of (char_of (0::nat))"
    using eq by metis
  ultimately show False
    by simp
qed

lemma toy_prims_ok: "prims_ok toy_prims"
  by (simp add: prims_ok_def toy_prims_def toy_mix_base add.commute)

lemma envelope_roundtrip_witness:
  "decrypt_chunk toy_prims ''k'' (encrypt_chunk toy_prims ''k'' ''data'') = Inr ''data''"
  using envelope_roundtrip [OF toy_prims_ok, of "replicate 12 CHR ''n''" "''k''" "''data''"]
  by (simp add: GCM_NONCE_LEN_def)

lemma sealed_box_roundtrip_witness:
  "\<exists>blob. wrap_key toy_prims ''e'' (replicate 12 CHR ''n'') ''ring'' (uk_public (keypair_from_secret toy_prims ''s''))
      = Inr blob \<and> unwrap_key toy_prims (keypair_from_secret toy_prims ''s'') blob = Inr ''ring''"
proof -
  have "derive_wrap_key toy_prims (p_x25519 toy_prims ''e'' (uk_public (keypair_from_secret toy_prims ''s''))) \<noteq> Inl e" for e
    by (simp add: derive_wrap_key_def hkdf_sha256_def toy_shared_nonzero Let_def)
  then obtain blob where "wrap_key toy_prims ''e'' (replicate 12 CHR ''n'') ''ring''
      (uk_public (keypair_from_secret toy_prims ''s'')) = Inr blob"
    by (cases "derive_wrap_key toy_prims (p_x25519 toy_prims ''e'' (uk_public (keypair_from_secret toy_prims ''s'')))")
      (auto simp: wrap_key_def Let_def keypair_from_secret_def)
  then show ?thesis
    using sealed_box_roundtrip [OF toy_prims_ok, of "replicate 12 CHR ''n''"
        "keypair_from_secret toy_prims ''s''" "''s''" "''e''" "''ring''" blob]
    by (auto simp: GCM_NONCE_LEN_def)
qed

lemma bundle_statement_injective_witness:
  "bundle_statement ''ann'' (zero_bytes 32) = bundle_statement ''bob'' (zero_bytes 32)
     \<longleftrightarrow> ''ann'' = ''bob'' \<and> zero_bytes 32 = zero_bytes 32"
  by (rule bundle_statement_injective) simp_all

end
