(* ===== verification/Key_Files.thy ===== *)
theory Key_Files
imports Crypto
begin

text \<open>
  The key files of an identity (\<open>core/src/crypto.rs\<close>, second half): a directory of
  owner-only files, \<open>name.x25519\<close> and \<open>name.ed25519\<close>, that are created on first
  use, exported as 32 or 64 bytes and imported without ever overwriting.  A
  write may fail before or after the file exists (\<open>write_fault\<close>).
\<close>

type_synonym key_dir = "(string, bytes \<times> 32 word) btree"

datatype write_fault = WriteOk | NoCreate | Partial bytes

definition write_private_0600 ::
  "write_fault \<Rightarrow> string \<Rightarrow> bytes \<Rightarrow> key_dir \<Rightarrow> (crypto_error, unit) result \<times> key_dir" where
  "write_private_0600 fault file bs dir =
     (case fault of
        WriteOk \<Rightarrow> (Inr (), bt_insert file (bs, 384) dir)
      | NoCreate \<Rightarrow> (Inl (WriteFailed file), dir)
      | Partial part \<Rightarrow> (Inl (WriteFailed file), bt_insert file (part, 384) dir))"

definition read_private :: "key_dir \<Rightarrow> string \<Rightarrow> (crypto_error, bytes) result" where
  "read_private dir file =
     (case bt_get dir file of
        None \<Rightarrow> Inl (NoSuchFile file)
      | Some (bs, mode) \<Rightarrow>
          if and mode 63 \<noteq> 0 then Inl (LooseMode (unat (and mode 511))) else Inr bs)"

definition user_key_path :: "string \<Rightarrow> string \<Rightarrow> (crypto_error, string) result" where
  "user_key_path name ext =
     (if name = '''' \<or> name = ''.'' \<or> name = ''..''
          \<or> CHR ''/'' \<in> set name \<or> CHR 92 \<in> set name
      then Inl (InvalidName name) else Inr (name @ ''.'' @ ext))"

definition read_key_file :: "key_dir \<Rightarrow> string \<Rightarrow> (crypto_error, bytes) result" where
  "read_key_file dir file =
     rbind (read_private dir file) (\<lambda>bs.
       if length bs = 32 then Inr bs else Inl (WrongKeySize (length bs)))"

definition user_keypair_load_or_create ::
  "prims \<Rightarrow> write_fault \<Rightarrow> bytes \<Rightarrow> string \<Rightarrow> key_dir
     \<Rightarrow> (crypto_error, user_keypair) result \<times> key_dir" where
  "user_keypair_load_or_create cp fault random name dir =
     (case user_key_path name ''x25519'' of
        Inl e \<Rightarrow> (Inl e, dir)
      | Inr path \<Rightarrow>
          if bt_contains dir path
          then (rbind (read_key_file dir path) (\<lambda>s. Inr (keypair_from_secret cp s)), dir)
          else
            (let kp = keypair_from_secret cp random;
                 (r, dir') = write_private_0600 fault path (uk_secret kp) dir
             in (rbind r (\<lambda>_. Inr kp), dir')))"

definition ed_keypair_load_or_create ::
  "prims \<Rightarrow> write_fault \<Rightarrow> bytes \<Rightarrow> string \<Rightarrow> key_dir
     \<Rightarrow> (crypto_error, ed_keypair) result \<times> key_dir" where
  "ed_keypair_load_or_create cp fault random name dir =
     (case user_key_path name ''ed25519'' of
        Inl e \<Rightarrow> (Inl e, dir)
      | Inr path \<Rightarrow>
          if bt_contains dir path
          then (rbind (read_key_file dir path) (\<lambda>s. Inr (ed_from_secret cp s)), dir)
          else
            (let kp = ed_from_secret cp random;
                 (r, dir') = write_private_0600 fault path (ek_seed kp) dir
             in (rbind r (\<lambda>_. Inr kp), dir')))"

definition user_keypair_export :: "string \<Rightarrow> key_dir \<Rightarrow> (crypto_error, bytes) result" where
  "user_keypair_export name dir = rbind (user_key_path name ''x25519'') (read_key_file dir)"

definition user_identity_export :: "string \<Rightarrow> key_dir \<Rightarrow> (crypto_error, bytes) result" where
  "user_identity_export name dir =
     rbind (user_key_path name ''x25519'') (\<lambda>x_path.
     rbind (user_key_path name ''ed25519'') (\<lambda>ed_path.
       if \<not> bt_contains dir x_path
       then (if bt_contains dir ed_path then Inl (NeedsBothHalves name) else Inl (NoSuchFile name))
       else
         rbind (read_key_file dir x_path) (\<lambda>x_secret.
           if \<not> bt_contains dir ed_path then Inr x_secret
           else rbind (read_key_file dir ed_path) (\<lambda>ed_seed. Inr (x_secret @ ed_seed)))))"

definition user_identity_import ::
  "write_fault \<Rightarrow> write_fault \<Rightarrow> string \<Rightarrow> bytes \<Rightarrow> key_dir
     \<Rightarrow> (crypto_error, unit) result \<times> key_dir" where
  "user_identity_import fault_x fault_ed name bs dir =
     (case (user_key_path name ''x25519'', user_key_path name ''ed25519'') of
        (Inl e, _) \<Rightarrow> (Inl e, dir)
      | (_, Inl e) \<Rightarrow> (Inl e, dir)
      | (Inr x_path, Inr ed_path) \<Rightarrow>
          if bt_contains dir x_path \<or> bt_contains dir ed_path then (Inl (IdentityExists name), dir)
          else if length bs = 32 then write_private_0600 fault_x x_path bs dir
          else if length bs = 64 then
            (case write_private_0600 fault_x x_path (take 32 bs) dir of
               (Inl e, dir1) \<Rightarrow> (Inl e, dir1)
             | (Inr _, dir1) \<Rightarrow>
                 (case write_private_0600 fault_ed ed_path (drop 32 bs) dir1 of
                    (Inl e, dir2) \<Rightarrow> (Inl e, bt_remove x_path dir2)
                  | (Inr _, dir2) \<Rightarrow> (Inr (), dir2)))
          else (Inl (BadIdentityLength (length bs)), dir))"

definition user_keypair_import ::
  "prims \<Rightarrow> write_fault \<Rightarrow> string \<Rightarrow> bytes \<Rightarrow> key_dir
     \<Rightarrow> (crypto_error, user_keypair) result \<times> key_dir" where
  "user_keypair_import cp fault name secret dir =
     (case user_key_path name ''x25519'' of
        Inl e \<Rightarrow> (Inl e, dir)
      | Inr path \<Rightarrow>
          if bt_contains dir path then (Inl (IdentityExists path), dir)
          else
            (let (r, dir') = write_private_0600 fault path secret dir
             in (rbind r (\<lambda>_. Inr (keypair_from_secret cp secret)), dir')))"

section \<open>Facts\<close>

lemma user_key_path_ok:
  "user_key_path name ext = Inr p \<Longrightarrow> p = name @ ''.'' @ ext \<and> CHR ''/'' \<notin> set name"
  by (auto simp: user_key_path_def split: if_splits)

lemma key_paths_differ: "name @ ''.x25519'' \<noteq> name' @ ''.ed25519''"
proof
  assume "name @ ''.x25519'' = name' @ ''.ed25519''"
  then have "rev (name @ ''.x25519'') = rev (name' @ ''.ed25519'')"
    by simp
  then show False
    by simp
qed

lemma write_private_get:
  "write_private_0600 fault file bs dir = (r, dir') \<Longrightarrow> f \<noteq> file \<Longrightarrow> bt_get dir' f = bt_get dir f"
  by (auto simp: write_private_0600_def split: write_fault.splits)

lemma write_private_ok:
  "write_private_0600 fault file bs dir = (Inr u, dir') \<Longrightarrow> bt_get dir' file = Some (bs, 384)"
  by (auto simp: write_private_0600_def split: write_fault.splits)

lemma mode_private: "and (384 :: 32 word) 63 = 0"
  by simp

lemma read_key_file_private:
  "bt_get dir f = Some (bs, 384) \<Longrightarrow> length bs = 32 \<Longrightarrow> read_key_file dir f = Inr bs"
  by (simp add: read_key_file_def read_private_def mode_private)

text \<open>Identities move: what an import accepts is exported again, byte for byte,
  an import touches no other user's files, and it never overwrites an existing
  half of the identity.\<close>

theorem identity_import_export:
  assumes "user_identity_import fx fe name bs dir = (r, dir')"
  shows "(r = Inr () \<longrightarrow> user_identity_export name dir' = Inr bs)
    \<and> (\<forall>f. f \<noteq> name @ ''.x25519'' \<and> f \<noteq> name @ ''.ed25519'' \<longrightarrow> bt_get dir' f = bt_get dir f)
    \<and> (\<forall>f v. bt_get dir f = Some v \<longrightarrow> bt_get dir' f = Some v)"
proof -
  let ?x = "name @ ''.x25519''" and ?e = "name @ ''.ed25519''"
  have ne: "?x \<noteq> ?e"
    by (rule key_paths_differ)
  show ?thesis
  proof (cases "user_key_path name ''x25519''")
    case (Inl e)
    then show ?thesis
      using assms by (auto simp: user_identity_import_def split: sum.splits)
  next
    case (Inr p)
    then have path: "user_key_path name ''x25519'' = Inr ?x" "user_key_path name ''ed25519'' = Inr ?e"
      by (auto simp: user_key_path_def split: if_splits)
    show ?thesis
    proof (cases "bt_contains dir ?x \<or> bt_contains dir ?e \<or> length bs \<notin> {32, 64}")
      case True
      then show ?thesis
        using assms by (auto simp: user_identity_import_def path split: if_splits)
    next
      case False
      then have free: "bt_get dir ?x = None" "bt_get dir ?e = None"
        by (simp_all only: bt_contains_def de_Morgan_disj not_not simp_thms)
      have exp: "user_identity_export name d = Inr bs"
        if "length bs = 32" "bt_get d ?x = Some (bs, 384)" "bt_get d ?e = None" for d
        using that by (simp add: user_identity_export_def path bt_contains_def read_key_file_private)
      have exp2: "user_identity_export name d = Inr bs"
        if "length bs = 64" "bt_get d ?x = Some (take 32 bs, 384)"
          "bt_get d ?e = Some (drop 32 bs, 384)" for d
        using that by (simp add: user_identity_export_def path bt_contains_def read_key_file_private)
      show ?thesis
        using assms False free ne exp exp2
        by (auto simp: user_identity_import_def path write_private_0600_def
            split: write_fault.splits if_splits)
    qed
  qed
qed

lemma identity_import_export_witness:
  "user_identity_export ''ann'' (snd (user_identity_import WriteOk WriteOk ''ann'' (zero_bytes 64) []))
     = Inr (zero_bytes 64)"
  using identity_import_export [of WriteOk WriteOk "''ann''" "zero_bytes 64" "[]"]
  by (auto simp: user_identity_import_def user_key_path_def bt_contains_def write_private_0600_def)

text \<open>A failed second write is not always rolled back: when the ed25519 file is
  created but its bytes do not fit, the import removes only the x25519 half, and
  every later import of the same identity is refused.\<close>

theorem identity_import_wedges:
  "let (r, dir) = user_identity_import WriteOk (Partial []) ''ann'' (zero_bytes 64) []
   in r = Inl (WriteFailed ''ann.ed25519'')
      \<and> fst (user_identity_import WriteOk WriteOk ''ann'' (zero_bytes 64) dir)
          = Inl (IdentityExists ''ann'')"
  by (simp add: user_identity_import_def user_key_path_def bt_contains_def write_private_0600_def
      bt_remove_def)

text \<open>Loading an identity key creates it exactly once: after a successful load or
  create, the pair stored is the pair returned, loading again returns it whatever
  random bytes are offered, and the file is owner-only.\<close>

theorem keypair_load_or_create_stable:
  assumes "user_keypair_load_or_create cp fault rnd name dir = (Inr kp, dir')" "length rnd = 32"
  shows "user_keypair_load_or_create cp fault' rnd' name dir' = (Inr kp, dir')
    \<and> user_keypair_export name dir' = Inr (uk_secret kp)
    \<and> (\<exists>mode. bt_get dir' (name @ ''.x25519'') = Some (uk_secret kp, mode) \<and> and mode 63 = 0)"
proof -
  let ?x = "name @ ''.x25519''"
  have path: "user_key_path name ''x25519'' = Inr ?x"
    using assms(1) by (auto simp: user_keypair_load_or_create_def user_key_path_def split: if_splits)
  show ?thesis
  proof (cases "bt_contains dir ?x")
    case True
    then have "read_key_file dir ?x = Inr (uk_secret kp)" "dir' = dir"
      "kp = keypair_from_secret cp (uk_secret kp)"
      using assms(1)
      by (auto simp: user_keypair_load_or_create_def path rbind_ok_iff keypair_from_secret_def)
    moreover have "\<exists>mode. bt_get dir ?x = Some (uk_secret kp, mode) \<and> and mode 63 = 0"
      using calculation(1)
      by (auto simp: read_key_file_def read_private_def rbind_ok_iff split: option.splits if_splits)
    ultimately show ?thesis
      using True by (simp add: user_keypair_load_or_create_def user_keypair_export_def path)
  next
    case False
    then have eq: "(case write_private_0600 fault ?x rnd dir of
        (r, d) \<Rightarrow> (rbind r (\<lambda>_. Inr (keypair_from_secret cp rnd)), d)) = (Inr kp, dir')"
      using assms(1) by (simp add: user_keypair_load_or_create_def path keypair_from_secret_def Let_def)
    have "fault = WriteOk"
      using eq by (cases fault) (simp_all add: write_private_0600_def)
    then have "kp = keypair_from_secret cp rnd" "bt_get dir' ?x = Some (rnd, 384)"
      using eq by (auto simp: write_private_0600_def)
    then show ?thesis
      using assms(2)
      by (simp add: user_keypair_load_or_create_def user_keypair_export_def path bt_contains_def
          read_key_file_private keypair_from_secret_def)
  qed
qed

lemma keypair_load_or_create_stable_witness:
  "user_keypair_export ''ann'' (snd (user_keypair_load_or_create toy_prims WriteOk (zero_bytes 32) ''ann'' []))
     = Inr (zero_bytes 32)"
  using keypair_load_or_create_stable [of toy_prims WriteOk "zero_bytes 32" "''ann''" "[]"]
  by (auto simp: user_keypair_load_or_create_def user_key_path_def bt_contains_def
      write_private_0600_def keypair_from_secret_def)

end
