(* ===== verification/Keyring.thy ===== *)
theory Keyring
imports Key_Files Manifest
begin

text \<open>
  \<open>core/src/known_keys.rs\<close> and the key ring of \<open>core/src/e2e.rs\<close>: the pin map, the
  generations of workspace keys with rotation and merging, their JSON form (with
  \<open>serde_json\<close> as the pair of functions \<open>ser\<close>, \<open>de\<close>), the files under
  \<open>.pear\<close>, the encrypted manifest envelope, and the classification of a team
  member's served key material.
\<close>

section \<open>Pinned identities\<close>

type_synonym known_keys = "(string, string) btree"

datatype pin_check = FirstSight | PinMatch | PinMismatch

datatype e2e_error =
    CorruptPins
  | PinsIo
  | CorruptKeyring
  | GenerationZero
  | BadKeyHex nat
  | BadKeyLength nat nat
  | EmptyKeyring
  | AllGenerationsFailed crypto_error nat
  | E2eCrypto crypto_error
  | E2eHexPanic
  | BadBase64
  | NotAManifest
  | HashMismatch string
  | NotHex
  | CorruptRecord
  | RecordIo
  | RelayFailed string
  | NoTeam

definition kk_load :: "(bytes \<Rightarrow> known_keys option) \<Rightarrow> bytes read_outcome \<Rightarrow> (e2e_error, known_keys) result" where
  "kk_load de r =
     (case r of
        ReadOk bs \<Rightarrow> (case de bs of None \<Rightarrow> Inl CorruptPins | Some m \<Rightarrow> Inr m)
      | ReadNotFound \<Rightarrow> Inr []
      | ReadFailed \<Rightarrow> Inl PinsIo)"

definition kk_check :: "known_keys \<Rightarrow> string \<Rightarrow> string \<Rightarrow> pin_check" where
  "kk_check m user ed_hex =
     (case bt_get m user of
        None \<Rightarrow> FirstSight
      | Some pinned \<Rightarrow> if pinned = ed_hex then PinMatch else PinMismatch)"

definition kk_pin :: "known_keys \<Rightarrow> string \<Rightarrow> string \<Rightarrow> known_keys" where
  "kk_pin m user ed_hex = bt_insert user ed_hex m"

definition kk_save ::
  "(known_keys \<Rightarrow> bytes) \<Rightarrow> bool \<Rightarrow> known_keys \<Rightarrow> bytes read_outcome
     \<Rightarrow> (e2e_error, unit) result \<times> bytes read_outcome" where
  "kk_save ser writable m old = (if writable then (Inr (), ReadOk (ser m)) else (Inl PinsIo, old))"

section \<open>Generations\<close>

type_synonym keyring = "(32 word, bytes) btree"

definition ring_ok :: "keyring \<Rightarrow> bool" where
  "ring_ok r \<longleftrightarrow> bt_wf r \<and> r \<noteq> [] \<and> (\<forall>(g, k)\<in>set r. g \<noteq> 0 \<and> length k = 32)"

definition from_legacy :: "bytes \<Rightarrow> keyring" where
  "from_legacy key = [(1, key)]"

text \<open>\<open>newest\<close> panics on an empty ring, which no load or construction produces.\<close>

definition newest :: "keyring \<Rightarrow> 32 word \<times> bytes" where
  "newest r = last r"

text \<open>\<open>newest().0 + 1\<close> is \<open>u32\<close> arithmetic: it wraps in a release build.\<close>

definition rotate :: "bytes \<Rightarrow> keyring \<Rightarrow> 32 word \<times> keyring" where
  "rotate random r = (let nxt = fst (newest r) + 1 in (nxt, bt_insert nxt random r))"

fun union_from :: "keyring \<Rightarrow> keyring \<Rightarrow> keyring \<times> 32 word list" where
  "union_from mine [] = (mine, [])"
| "union_from mine ((gen, key) # other) =
     (if bt_get mine gen = Some key then union_from mine other
      else (let (r, adopted) = union_from (bt_insert gen key mine) other in (r, gen # adopted)))"

fun try_keys :: "(bytes \<Rightarrow> (crypto_error, 'a) result) \<Rightarrow> crypto_error option \<Rightarrow> bytes list
    \<Rightarrow> (crypto_error option, 'a) result" where
  "try_keys attempt last_error [] = Inl last_error"
| "try_keys attempt last_error (k # ks) =
     (case attempt k of Inr v \<Rightarrow> Inr v | Inl e \<Rightarrow> try_keys attempt (Some e) ks)"

definition ring_decrypt ::
  "keyring \<Rightarrow> (bytes \<Rightarrow> (crypto_error, 'a) result) \<Rightarrow> (e2e_error, 'a) result" where
  "ring_decrypt r attempt =
     (case try_keys attempt None (rev (map snd r)) of
        Inr v \<Rightarrow> Inr v
      | Inl (Some e) \<Rightarrow> Inl (AllGenerationsFailed e (length r))
      | Inl None \<Rightarrow> Inl EmptyKeyring)"

section \<open>The JSON form and the files\<close>

definition keyring_json :: "((32 word, string) btree \<Rightarrow> bytes) \<Rightarrow> keyring \<Rightarrow> bytes" where
  "keyring_json ser r = ser (map (\<lambda>(gen, key). (gen, hex_encode key)) r)"

fun keyring_entries :: "(32 word, string) btree \<Rightarrow> keyring \<Rightarrow> (e2e_error, keyring) result" where
  "keyring_entries [] keys = (if keys = [] then Inl EmptyKeyring else Inr keys)"
| "keyring_entries ((gen, hex) # rest) keys =
     (if gen = 0 then Inl GenerationZero
      else (case hex_decode hex of
              Inl (HexPanic _) \<Rightarrow> Inl E2eHexPanic
            | Inl _ \<Rightarrow> Inl (BadKeyHex (unat gen))
            | Inr raw \<Rightarrow>
                if length raw \<noteq> 32 then Inl (BadKeyLength (unat gen) (length raw))
                else keyring_entries rest (bt_insert gen raw keys)))"

definition keyring_from_json ::
  "(bytes \<Rightarrow> (32 word, string) btree option) \<Rightarrow> bytes \<Rightarrow> (e2e_error, keyring) result" where
  "keyring_from_json de bs =
     (case de bs of None \<Rightarrow> Inl CorruptKeyring | Some hexed \<Rightarrow> keyring_entries hexed [])"

definition keyring_from_wrap_payload ::
  "(bytes \<Rightarrow> (32 word, string) btree option) \<Rightarrow> bytes \<Rightarrow> (e2e_error, keyring) result" where
  "keyring_from_wrap_payload de bs =
     (if length bs = 32 then Inr (from_legacy bs) else keyring_from_json de bs)"

definition keys_file :: string where "keys_file = ''workspace_keys''"
definition legacy_key_file :: string where "legacy_key_file = ''workspace_key''"

definition lift_crypto :: "(crypto_error, 'a) result \<Rightarrow> (e2e_error, 'a) result" where
  "lift_crypto r = (case r of Inl e \<Rightarrow> Inl (E2eCrypto e) | Inr x \<Rightarrow> Inr x)"

definition load_workspace_keyring ::
  "(bytes \<Rightarrow> (32 word, string) btree option) \<Rightarrow> key_dir \<Rightarrow> (e2e_error, keyring option) result" where
  "load_workspace_keyring de pear =
     (if bt_contains pear keys_file then
        rbind (lift_crypto (read_private pear keys_file)) (\<lambda>bs.
          rbind (keyring_from_json de bs) (\<lambda>r. Inr (Some r)))
      else if \<not> bt_contains pear legacy_key_file then Inr None
      else
        rbind (lift_crypto (read_private pear legacy_key_file)) (\<lambda>bs.
          if length bs = 32 then Inr (Some (from_legacy bs)) else Inl (BadKeyLength 1 (length bs))))"

definition store_workspace_keyring ::
  "((32 word, string) btree \<Rightarrow> bytes) \<Rightarrow> write_fault \<Rightarrow> keyring \<Rightarrow> key_dir
     \<Rightarrow> (e2e_error, unit) result \<times> key_dir" where
  "store_workspace_keyring ser fault r pear =
     (case write_private_0600 fault keys_file (keyring_json ser r) pear of
        (Inl e, pear') \<Rightarrow> (Inl (E2eCrypto e), pear')
      | (Inr _, pear') \<Rightarrow> (Inr (), bt_remove legacy_key_file pear'))"

definition load_or_create_workspace_keyring ::
  "((32 word, string) btree \<Rightarrow> bytes) \<Rightarrow> (bytes \<Rightarrow> (32 word, string) btree option) \<Rightarrow> write_fault
     \<Rightarrow> bytes \<Rightarrow> key_dir \<Rightarrow> (e2e_error, keyring) result \<times> key_dir" where
  "load_or_create_workspace_keyring ser de fault random pear =
     (case load_workspace_keyring de pear of
        Inl e \<Rightarrow> (Inl e, pear)
      | Inr (Some r) \<Rightarrow> (Inr r, pear)
      | Inr None \<Rightarrow>
          (let r = from_legacy random; (res, pear') = store_workspace_keyring ser fault r pear
           in (rbind res (\<lambda>_. Inr r), pear')))"

section \<open>The commit envelope\<close>

definition encrypt_manifest ::
  "prims \<Rightarrow> (manifest \<Rightarrow> bytes) \<Rightarrow> bytes \<Rightarrow> keyring \<Rightarrow> manifest \<Rightarrow> string" where
  "encrypt_manifest cp to_vec random_nonce r m =
     base64_encode (encrypt_blob cp random_nonce (snd (newest r)) (to_vec m))"

definition decrypt_manifest ::
  "prims \<Rightarrow> (bytes \<Rightarrow> manifest option) \<Rightarrow> keyring \<Rightarrow> string \<Rightarrow> (e2e_error, manifest) result" where
  "decrypt_manifest cp from_slice r manifest_enc =
     (case base64_decode manifest_enc of
        Inl _ \<Rightarrow> Inl BadBase64
      | Inr blob \<Rightarrow>
          rbind (ring_decrypt r (\<lambda>key. decrypt_blob cp key blob)) (\<lambda>json.
            case from_slice json of None \<Rightarrow> Inl NotAManifest | Some m \<Rightarrow> Inr m))"

definition manifest_chunk_hashes :: "manifest \<Rightarrow> string list" where
  "manifest_chunk_hashes m = bt_set (concat (map (\<lambda>(_, e). fe_chunks e) (mf_files m)))"

definition decrypting_get ::
  "prims \<Rightarrow> (bytes \<Rightarrow> string) \<Rightarrow> (e2e_error, bytes) result \<Rightarrow> keyring \<Rightarrow> string
     \<Rightarrow> (e2e_error, bytes) result" where
  "decrypting_get cp blake3_hex inner r hash =
     rbind inner (\<lambda>blob.
       if blake3_hex blob \<noteq> hash then Inl (HashMismatch hash)
       else ring_decrypt r (\<lambda>key. decrypt_chunk cp key blob))"

section \<open>Classifying a member\<close>

record member_info =
  mi_user :: string
  mi_pubkey :: "string option"
  mi_ed25519 :: "string option"
  mi_sig :: "string option"

datatype member_class =
    NoKey
  | Unsigned
  | BadSig
  | PinChanged
  | WrapTo bytes bool

definition decode_sized :: "nat \<Rightarrow> string \<Rightarrow> (e2e_error, bytes option) result" where
  "decode_sized n s =
     (case hex_decode s of
        Inl (HexPanic _) \<Rightarrow> Inl E2eHexPanic
      | Inl _ \<Rightarrow> Inr None
      | Inr bs \<Rightarrow> Inr (if length bs = n then Some bs else None))"

definition classify_member ::
  "prims \<Rightarrow> member_info \<Rightarrow> known_keys \<Rightarrow> (e2e_error, member_class) result" where
  "classify_member cp m pins =
     (case mi_pubkey m of
        None \<Rightarrow> Inr NoKey
      | Some pubkey_hex \<Rightarrow>
          (case (mi_ed25519 m, mi_sig m) of
             (Some ed_hex, Some sig_hex) \<Rightarrow>
               rbind (decode_sized 32 pubkey_hex) (\<lambda>x_opt.
               rbind (decode_sized 32 ed_hex) (\<lambda>ed_opt.
               rbind (decode_sized 64 sig_hex) (\<lambda>sig_opt.
                 case (x_opt, ed_opt, sig_opt) of
                   (Some x25519_pub, Some ed_pub, Some sig) \<Rightarrow>
                     if \<not> ed_verify cp ed_pub (bundle_statement (mi_user m) x25519_pub) sig
                     then Inr BadSig
                     else (case kk_check pins (mi_user m) ed_hex of
                             PinMismatch \<Rightarrow> Inr PinChanged
                           | PinMatch \<Rightarrow> Inr (WrapTo x25519_pub False)
                           | FirstSight \<Rightarrow> Inr (WrapTo x25519_pub True))
                 | _ \<Rightarrow> Inr BadSig)))
           | _ \<Rightarrow> Inr Unsigned))"

section \<open>Facts on the ring\<close>

lemma ring_ok_nonempty: "ring_ok r \<Longrightarrow> r \<noteq> []"
  by (simp add: ring_ok_def)

lemma newest_in: "r \<noteq> [] \<Longrightarrow> newest r \<in> set r"
  by (simp add: newest_def)

lemma sorted_le_last:
  fixes x :: "'a::linorder"
  shows "sorted xs \<Longrightarrow> xs \<noteq> [] \<Longrightarrow> x \<in> set xs \<Longrightarrow> x \<le> last xs"
  by (induction xs) (auto split: if_splits)

lemma bt_wf_last:
  assumes "bt_wf r" "r \<noteq> []" "(g, k) \<in> set r"
  shows "g \<le> fst (last r)"
proof -
  have "sorted (map fst r)"
    using assms(1) by (rule bt_wf_sorted)
  moreover have "map fst r \<noteq> []" "g \<in> set (map fst r)"
    using assms(2,3) by force+
  ultimately have "g \<le> last (map fst r)"
    by (rule sorted_le_last)
  then show ?thesis
    using assms(2) by (simp add: last_map)
qed

lemma newest_max:
  "bt_wf r \<Longrightarrow> bt_get r g = Some k \<Longrightarrow> g \<le> fst (newest r)"
  unfolding newest_def by (rule bt_wf_last) (auto dest: map_of_SomeD)

lemma newest_get: "bt_wf r \<Longrightarrow> r \<noteq> [] \<Longrightarrow> bt_get r (fst (newest r)) = Some (snd (newest r))"
  using newest_in [of r] by (simp add: bt_get_in_set)

lemma newest_unique:
  assumes "bt_wf r" "bt_get r g = Some k" "\<And>h k'. bt_get r h = Some k' \<Longrightarrow> h \<le> g"
  shows "newest r = (g, k)"
proof -
  have ne: "r \<noteq> []"
    using assms(2) by auto
  then have "fst (newest r) = g"
    using assms newest_get [OF assms(1) ne] newest_max [OF assms(1,2)] by (metis order_antisym)
  then show ?thesis
    using newest_get [OF assms(1) ne] assms(2) by (metis option.inject prod.collapse)
qed

lemma ring_ok_iff:
  "ring_ok r \<longleftrightarrow> bt_wf r \<and> r \<noteq> [] \<and> (\<forall>g k. bt_get r g = Some k \<longrightarrow> g \<noteq> 0 \<and> length k = 32)"
  by (cases "bt_wf r") (auto simp: ring_ok_def bt_get_in_set)

lemma bt_insert_ne [simp]: "bt_insert k v m \<noteq> []"
  by (cases "(k, v, m)" rule: bt_insert.cases) (auto split: if_splits)

lemma word_succ_greater:
  fixes g :: "'a::len word"
  assumes "g \<noteq> - 1" "h \<le> g"
  shows "h < g + 1" "g + 1 \<noteq> 0"
proof -
  have "g < - 1"
    using assms(1) by (simp add: word_order.not_eq_extremum)
  then have "unat g < 2 ^ LENGTH('a) - 1"
    by (simp add: word_less_nat_alt unsigned_minus_1_eq_mask mask_eq_exp_minus_1)
  then have "unat (g + 1) = unat g + 1"
    by (simp add: unat_word_ariths)
  then show "h < g + 1" "g + 1 \<noteq> 0"
    using assms(2) by (auto simp: word_less_nat_alt word_le_nat_alt)
qed

lemma rotate_fresh_ring:
  assumes "ring_ok r" "length rnd = 32" "fst (newest r) \<noteq> - 1" "rotate rnd r = (g, r')"
  shows "ring_ok r' \<and> newest r' = (g, rnd) \<and> (\<forall>h\<in>dom (bt_get r). h < g)
    \<and> (\<forall>h. h \<noteq> g \<longrightarrow> bt_get r' h = bt_get r h)"
proof -
  have r': "g = fst (newest r) + 1" "r' = bt_insert g rnd r" and wf: "bt_wf r"
    using assms(1,4) by (auto simp: rotate_def ring_ok_def Let_def)
  have less: "h < g" if "bt_get r h = Some k" for h k
    using word_succ_greater(1) [OF assms(3)] newest_max [OF wf that] r'(1) by blast
  have "newest r' = (g, rnd)"
    using wf less r' by (intro newest_unique) (auto split: if_splits dest: less_imp_le)
  moreover have "ring_ok r'"
    using assms(1,2) r' word_succ_greater(2) [OF assms(3) order_refl]
    by (auto simp: ring_ok_iff split: if_splits)
  ultimately show ?thesis
    using less r' by auto
qed

text \<open>Rotation mints a fresh generation: below the last \<open>u32\<close> the new generation
  is above every one in the ring, carries the fresh key as the newest, and every
  old generation keeps its key.\<close>

theorem rotate_fresh:
  assumes "ring_ok r" "length rnd = 32" "fst (newest r) \<noteq> - 1" "rotate rnd r = (g, r')"
  shows "ring_ok r' \<and> newest r' = (g, rnd) \<and> (\<forall>h\<in>dom (bt_get r). h < g)
    \<and> (\<forall>h. h \<noteq> g \<longrightarrow> bt_get r' h = bt_get r h)"
  using rotate_fresh_ring [OF assms] .

lemma rotate_fresh_witness:
  "newest (snd (rotate (zero_bytes 32) (from_legacy (replicate 32 CHR ''k'')))) = (2, zero_bytes 32)"
  using rotate_fresh [of "from_legacy (replicate 32 CHR ''k'')" "zero_bytes 32" 2
      "[(1, replicate 32 CHR ''k''), (2, zero_bytes 32)]"]
  by (simp add: ring_ok_def from_legacy_def newest_def rotate_def bt_wf_def)

text \<open>The JSON object of a ring, before \<open>serde_json\<close>.\<close>

definition hexed_ring :: "keyring \<Rightarrow> (32 word, string) btree" where
  "hexed_ring r = map (\<lambda>(gen, key). (gen, hex_encode key)) r"

text \<open>At the last \<open>u32\<close> generation rotation wraps to generation 0, which the
  ring's own parser refuses: the file written by that rotation never loads again.\<close>

theorem rotate_overflow:
  assumes "rotate rnd [(- 1, key)] = (g, r')" "de (ser (hexed_ring r')) = Some (hexed_ring r')"
  shows "g = 0 \<and> keyring_from_json de (keyring_json ser r') = Inl GenerationZero"
proof -
  have "(0 :: 32 word) < - 1"
    by (simp add: word_less_nat_alt unsigned_minus_1_eq_mask mask_eq_exp_minus_1)
  then have "g = 0" "r' = [(0, rnd), (- 1, key)]"
    using assms(1) by (auto simp: rotate_def newest_def Let_def)
  then show ?thesis
    using assms(2) by (simp add: keyring_from_json_def keyring_json_def hexed_ring_def)
qed

lemma rotate_overflow_witness:
  "fst (rotate (zero_bytes 32) [(- 1, ''k'')]) = 0"
  using rotate_overflow [of "zero_bytes 32" "''k''" "fst (rotate (zero_bytes 32) [(- 1, ''k'')])"
      "snd (rotate (zero_bytes 32) [(- 1, ''k'')])"
      "\<lambda>_. Some (hexed_ring (snd (rotate (zero_bytes 32) [(- 1, ''k'')])))" "\<lambda>_. []"] by simp

section \<open>The JSON round trip\<close>

lemma keyring_entries_hexed:
  assumes "\<forall>(g, k)\<in>set r. g \<noteq> 0 \<and> length k = 32" "r \<noteq> [] \<or> acc \<noteq> []"
  shows "keyring_entries (hexed_ring r) acc = Inr (fold (\<lambda>(g, k). bt_insert g k) r acc)"
  using assms
proof (induction r arbitrary: acc)
  case (Cons e r)
  obtain g k where e: "e = (g, k)" by fastforce
  have "hex_decode (hex_encode k) = Inr k"
    by (rule hex.dec_enc) simp
  then show ?case
    using Cons by (auto simp: hexed_ring_def e)
qed (simp add: hexed_ring_def)

lemma keyring_entries_ok:
  assumes "keyring_entries hexed acc = Inr r"
    "bt_wf acc" "\<forall>g k. bt_get acc g = Some k \<longrightarrow> g \<noteq> 0 \<and> length k = 32"
  shows "ring_ok r"
  using assms
proof (induction hexed acc rule: keyring_entries.induct)
  case (1 keys)
  then show ?case by (auto simp: ring_ok_iff split: if_splits)
next
  case (2 gen hex rest keys)
  have gen: "gen \<noteq> 0"
    using "2.prems"(1) by (cases "gen = 0") simp_all
  obtain raw where raw: "hex_decode hex = Inr raw"
    using "2.prems"(1) gen by (cases "hex_decode hex") (auto split: hex_error.splits)
  have len: "length raw = 32" and rest: "keyring_entries rest (bt_insert gen raw keys) = Inr r"
    using "2.prems"(1) gen raw by (simp_all split: if_splits)
  show ?case
    using "2.IH" [OF gen raw _ rest] "2.prems"(2,3) gen len by (simp split: if_splits)
qed

lemma wrap_payload_ring_ok:
  "keyring_from_wrap_payload de bs = Inr q \<Longrightarrow> ring_ok q"
  using keyring_entries_ok [of _ "[]" q]
  by (auto simp: keyring_from_wrap_payload_def keyring_from_json_def from_legacy_def ring_ok_def
      bt_wf_def split: if_splits option.splits)

text \<open>The ring survives its file: writing a ring as JSON and parsing it returns
  the ring, and whatever parses is a ring with at least one generation, none of
  them 0, all keys 32 bytes.\<close>

theorem keyring_json_roundtrip:
  assumes "de (ser (hexed_ring r)) = Some (hexed_ring r)"
  shows "(ring_ok r \<longrightarrow> keyring_from_json de (keyring_json ser r) = Inr r)
    \<and> (keyring_from_wrap_payload de bs = Inr q \<longrightarrow> ring_ok q)"
proof (intro conjI impI)
  assume ok: "ring_ok r"
  have "keyring_entries (hexed_ring r) [] = Inr (fold (\<lambda>(g, k). bt_insert g k) r [])"
    using ok by (intro keyring_entries_hexed) (auto simp: ring_ok_def)
  moreover have "fold (\<lambda>(g, k). bt_insert g k) r [] = r"
  proof (rule bt_ext)
    show "bt_wf (fold (\<lambda>(g, k). bt_insert g k) r [])"
      by (rule bt.wf_fold_ins) simp
    show "bt_get (fold (\<lambda>(g, k). bt_insert g k) r []) g = bt_get r g" for g
      using ok by (simp add: bt.lookup_fold_ins map_of_rev_wf ring_ok_def split: option.splits)
  qed (use ok in \<open>simp add: ring_ok_def\<close>)
  ultimately show "keyring_from_json de (keyring_json ser r) = Inr r"
    using assms by (simp add: keyring_from_json_def keyring_json_def hexed_ring_def)
next
  assume "keyring_from_wrap_payload de bs = Inr q"
  then show "ring_ok q"
    by (rule wrap_payload_ring_ok)
qed

lemma keyring_json_roundtrip_witness:
  "keyring_from_json (\<lambda>_. Some (hexed_ring (from_legacy (zero_bytes 32))))
     (keyring_json (\<lambda>_. []) (from_legacy (zero_bytes 32))) = Inr (from_legacy (zero_bytes 32))"
  using keyring_json_roundtrip [of "\<lambda>_. Some (hexed_ring (from_legacy (zero_bytes 32)))" "\<lambda>_. []"
      "from_legacy (zero_bytes 32)"]
  by (simp add: ring_ok_def from_legacy_def bt_wf_def)

section \<open>Merging rings\<close>

lemma union_from_get:
  "distinct (map fst other) \<Longrightarrow> bt_get (fst (union_from mine other)) g
     = (case bt_get other g of Some k \<Rightarrow> Some k | None \<Rightarrow> bt_get mine g)"
proof (induction mine other rule: union_from.induct)
  case (2 mine gen key other)
  then have "bt_get other gen = None"
    by (simp add: map_of_eq_None_iff)
  then show ?case
    using 2 by (auto simp: Let_def split: prod.splits option.splits)
qed simp

lemma union_from_wf: "bt_wf mine \<Longrightarrow> bt_wf (fst (union_from mine other))"
proof (induction mine other rule: union_from.induct)
  case (2 mine gen key other)
  then show ?case by (auto simp: Let_def split: prod.splits)
qed simp

lemma union_from_adopted:
  "distinct (map fst other) \<Longrightarrow> snd (union_from mine other)
     = filter (\<lambda>g. bt_get mine g \<noteq> bt_get other g) (map fst other)"
proof (induction mine other rule: union_from.induct)
  case (2 mine gen key other)
  have gen: "gen \<notin> fst ` set other"
    using "2.prems" by simp
  have fe: "filter (\<lambda>g. bt_get (bt_insert gen key mine) g \<noteq> bt_get other g) (map fst other)
      = filter (\<lambda>g. bt_get mine g \<noteq> bt_get ((gen, key) # other) g) (map fst other)"
    using gen by (intro filter_cong) auto
  have fe': "filter (\<lambda>g. bt_get mine g \<noteq> bt_get other g) (map fst other)
      = filter (\<lambda>g. bt_get mine g \<noteq> bt_get ((gen, key) # other) g) (map fst other)"
    using gen by (intro filter_cong) auto
  show ?case
  proof (cases "bt_get mine gen = Some key")
    case True
    then show ?thesis
      using "2.IH"(1) [OF True] "2.prems" fe' by simp
  next
    case False
    have "distinct (map fst other)"
      using "2.prems" by simp
    have "snd (union_from mine ((gen, key) # other)) = gen # snd (union_from (bt_insert gen key mine) other)"
      using False by (simp add: Let_def split: prod.splits)
    also have "\<dots> = gen # filter (\<lambda>g. bt_get mine g \<noteq> bt_get ((gen, key) # other) g) (map fst other)"
      using "2.IH"(2) [OF False \<open>distinct (map fst other)\<close>] fe by (simp only:)
    also have "\<dots> = filter (\<lambda>g. bt_get mine g \<noteq> bt_get ((gen, key) # other) g) (map fst ((gen, key) # other))"
      using False by simp
    finally show ?thesis .
  qed
qed simp

lemma union_ring_ok:
  assumes "ring_ok mine" "ring_ok other"
  shows "ring_ok (fst (union_from mine other))"
    "dom (bt_get mine) \<subseteq> dom (bt_get (fst (union_from mine other)))"
proof -
  have d: "distinct (map fst other)"
    using assms(2) by (simp add: ring_ok_def bt_wf_distinct)
  have wf: "bt_wf (fst (union_from mine other))"
    using union_from_wf assms(1) by (simp add: ring_ok_def)
  obtain g k where "bt_get other g = Some k"
    using assms(2) newest_get [of other] by (auto simp: ring_ok_def)
  then have "fst (union_from mine other) \<noteq> []"
    using union_from_get [OF d, of mine g] by auto
  then show "ring_ok (fst (union_from mine other))"
    using assms wf union_from_get [OF d, of mine] by (auto simp: ring_ok_iff split: option.splits)
  show "dom (bt_get mine) \<subseteq> dom (bt_get (fst (union_from mine other)))"
    using union_from_get [OF d, of mine] by (auto split: option.splits)
qed

text \<open>Merging the relay's ring is canonical: afterwards the relay's key stands at
  every generation the relay knows, all other local generations are kept, the
  reported generations are exactly those that changed, and two devices that merge
  the same ring agree on all of its generations.\<close>

theorem union_from_canonical:
  assumes "ring_ok mine" "ring_ok other" "union_from mine other = (r, adopted)"
  shows "ring_ok r
    \<and> (\<forall>g. bt_get r g = (case bt_get other g of Some k \<Rightarrow> Some k | None \<Rightarrow> bt_get mine g))
    \<and> set adopted = {g. bt_get other g \<noteq> None \<and> bt_get r g \<noteq> bt_get mine g}
    \<and> (adopted = [] \<longleftrightarrow> r = mine)
    \<and> (\<forall>mine2 g. ring_ok mine2 \<and> bt_get other g \<noteq> None
         \<longrightarrow> bt_get (fst (union_from mine2 other)) g = bt_get r g)"
proof -
  have d: "distinct (map fst other)"
    using assms(2) by (simp add: ring_ok_def bt_wf_distinct)
  have get: "bt_get r g = (case bt_get other g of Some k \<Rightarrow> Some k | None \<Rightarrow> bt_get mine g)" for g
    using union_from_get [OF d, of mine g] assms(3) by simp
  have ok: "ring_ok r"
    using union_ring_ok(1) [OF assms(1,2)] assms(3) by simp
  then have wf: "bt_wf r" "bt_wf mine"
    using assms(1) by (simp_all add: ring_ok_def)
  have "set adopted = {g. bt_get other g \<noteq> None \<and> bt_get mine g \<noteq> bt_get other g}"
    using union_from_adopted [OF d, of mine] assms(3)
    by (auto simp: map_of_eq_None_iff)
  then have ad: "set adopted = {g. bt_get other g \<noteq> None \<and> bt_get r g \<noteq> bt_get mine g}"
    using get by (auto split: option.splits)
  then have "adopted = [] \<longleftrightarrow> (\<forall>g. bt_get r g = bt_get mine g)"
    using get by (auto split: option.splits simp flip: set_empty)
  then have "adopted = [] \<longleftrightarrow> r = mine"
    using bt_ext [OF wf] by auto
  moreover have "bt_get (fst (union_from mine2 other)) g = bt_get r g"
    if "bt_get other g \<noteq> None" for mine2 g
    using union_from_get [OF d, of mine2 g] get [of g] that by auto
  ultimately show ?thesis
    using ok get ad by blast
qed

lemma union_from_canonical_witness:
  "fst (union_from [(1, zero_bytes 32)] [(1, replicate 32 CHR ''k'')]) = [(1, replicate 32 CHR ''k'')]"
  using union_from_canonical [of "[(1, zero_bytes 32)]" "[(1, replicate 32 CHR ''k'')]"
      "[(1, replicate 32 CHR ''k'')]" "[1]"]
  by (simp add: ring_ok_def bt_wf_def zero_bytes_def)

section \<open>Reading across generations\<close>

lemma try_keys_first:
  assumes "attempt k = Inr v" "k \<in> set ks" "\<forall>k'\<in>set ks. k' \<noteq> k \<longrightarrow> (\<exists>e. attempt k' = Inl e)"
  shows "try_keys attempt last_error ks = Inr v"
  using assms
proof (induction ks arbitrary: last_error)
  case (Cons a ks)
  then show ?case
    by (cases "a = k") (auto split: sum.splits)
qed simp

lemma try_keys_sound:
  "try_keys attempt last_error ks = Inr v \<Longrightarrow> \<exists>k\<in>set ks. attempt k = Inr v"
  by (induction ks arbitrary: last_error) (auto split: sum.splits)

lemma ring_decrypt_first:
  assumes "(g, k) \<in> set r" "attempt k = Inr v"
    "\<forall>(h, k')\<in>set r. k' \<noteq> k \<longrightarrow> (\<exists>e. attempt k' = Inl e)"
  shows "ring_decrypt r attempt = Inr v"
proof -
  have "try_keys attempt None (rev (map snd r)) = Inr v"
    using assms by (intro try_keys_first [of attempt k]) force+
  then show ?thesis
    by (simp add: ring_decrypt_def)
qed

text \<open>A committed manifest stays readable: sealed under the newest generation of
  one ring it decrypts to itself under that ring, and under every later ring that
  still holds that generation's key, as long as the other keys do not open it
  (the guarantee of the AEAD tag).\<close>

theorem manifest_envelope_roundtrip:
  assumes "prims_ok cp" "length nonce = GCM_NONCE_LEN" "from_slice (to_vec m) = Some m"
    and "newest r \<in> set r'"
    and "\<forall>(g, k)\<in>set r'. k \<noteq> snd (newest r)
      \<longrightarrow> p_open cp k nonce (p_seal cp (snd (newest r)) nonce (to_vec m)) = None"
  shows "decrypt_manifest cp from_slice r' (encrypt_manifest cp to_vec nonce r m) = Inr m"
proof -
  let ?k = "snd (newest r)" and ?json = "to_vec m"
  let ?blob = "encrypt_blob cp nonce ?k ?json"
  have "base64_decode (base64_encode ?blob) = Inr ?blob"
    by (rule base64.dec_enc) simp
  moreover have "decrypt_blob cp ?k ?blob = Inr ?json"
    using assms(1,2) by (simp add: decrypt_blob_def encrypt_blob_def encrypt_with_nonce_open)
  moreover have "\<exists>e. decrypt_blob cp k ?blob = Inl e" if "(g, k) \<in> set r'" "k \<noteq> ?k" for g k
    using assms(2,5) that
    by (auto simp: decrypt_blob_def decrypt_chunk_def encrypt_blob_def encrypt_with_nonce_def)
  ultimately have "ring_decrypt r' (\<lambda>key. decrypt_blob cp key ?blob) = Inr ?json"
    using assms(4) by (intro ring_decrypt_first [of "fst (newest r)" ?k]) auto
  then show ?thesis
    using assms(3) \<open>base64_decode (base64_encode ?blob) = Inr ?blob\<close>
    by (simp add: decrypt_manifest_def encrypt_manifest_def)
qed

definition tagged_prims :: prims where
  "tagged_prims = toy_prims\<lparr>
     p_seal := (\<lambda>k n p. p @ replicate 16 (hd (k @ ''x''))),
     p_open := (\<lambda>k n c. if drop (length c - 16) c = replicate 16 (hd (k @ ''x''))
                        then Some (take (length c - 16) c) else None)\<rparr>"

lemma tagged_prims_ok: "prims_ok tagged_prims"
  using toy_prims_ok by (simp add: tagged_prims_def prims_ok_def)

lemma manifest_envelope_roundtrip_witness:
  "decrypt_manifest tagged_prims (\<lambda>_. Some (manifest_new ''w''))
     [(1, replicate 32 CHR ''a''), (2, replicate 32 CHR ''b'')]
     (encrypt_manifest tagged_prims (\<lambda>_. ''json'') (replicate 12 CHR ''n'')
        [(1, replicate 32 CHR ''a'')] (manifest_new ''w'')) = Inr (manifest_new ''w'')"
  by (rule manifest_envelope_roundtrip [OF tagged_prims_ok])
    (simp_all add: GCM_NONCE_LEN_def newest_def tagged_prims_def numeral_eq_Suc)

section \<open>Facts on classification\<close>

lemma decode_sized_Some:
  "decode_sized n s = Inr (Some bs) \<longleftrightarrow> hex_decode s = Inr bs \<and> length bs = n"
  by (auto simp: decode_sized_def split: sum.splits hex_error.splits)

lemma kk_check_cases:
  "kk_check pins u e = PinMatch \<longleftrightarrow> bt_get pins u = Some e"
  "kk_check pins u e = FirstSight \<longleftrightarrow> bt_get pins u = None"
  "kk_check pins u e = PinMismatch \<longleftrightarrow> (\<exists>p. bt_get pins u = Some p \<and> p \<noteq> e)"
  by (auto simp: kk_check_def split: option.splits)

lemma classify_wrap:
  assumes "classify_member cp m pins = Inr (WrapTo pub first)"
  shows "\<exists>x_hex e_hex s_hex ed sig.
      mi_pubkey m = Some x_hex \<and> mi_ed25519 m = Some e_hex \<and> mi_sig m = Some s_hex
      \<and> hex_decode x_hex = Inr pub \<and> length pub = 32 \<and> hex_decode e_hex = Inr ed \<and> length ed = 32
      \<and> hex_decode s_hex = Inr sig \<and> length sig = 64
      \<and> ed_verify cp ed (bundle_statement (mi_user m) pub) sig
      \<and> (if first then bt_get pins (mi_user m) = None else bt_get pins (mi_user m) = Some e_hex)"
proof -
  obtain x_hex e_hex s_hex where hex: "mi_pubkey m = Some x_hex" "mi_ed25519 m = Some e_hex" "mi_sig m = Some s_hex"
    using assms by (auto simp: classify_member_def split: option.splits)
  then obtain x_opt e_opt s_opt where opts: "decode_sized 32 x_hex = Inr x_opt"
    "decode_sized 32 e_hex = Inr e_opt" "decode_sized 64 s_hex = Inr s_opt"
    using assms by (auto simp: classify_member_def rbind_ok_iff)
  then obtain x e s where some: "x_opt = Some x" "e_opt = Some e" "s_opt = Some s"
    using assms hex by (cases x_opt; cases e_opt; cases s_opt) (auto simp: classify_member_def)
  then have v: "ed_verify cp e (bundle_statement (mi_user m) x) s" "x = pub"
    "if first then bt_get pins (mi_user m) = None else bt_get pins (mi_user m) = Some e_hex"
    using assms hex opts
    by (auto simp: classify_member_def kk_check_cases split: if_splits pin_check.splits)
  show ?thesis
    using hex opts v unfolding some decode_sized_Some by blast
qed

end
