(* ===== verification/Wrapping.thy ===== *)
theory Wrapping
imports Keyring
begin

text \<open>
  The writer's maintenance passes of \<open>core/src/e2e.rs\<close>: who gets the key ring
  wrapped to them, and when a departure rotates it.  The relay is its state as
  these passes see it (team, members, wrap rows); \<open>env\<close> holds what comes from
  outside: the primitives, the random bytes, which relay calls fail, the
  \<open>serde_json\<close> functions and whether the files can be written.
\<close>

datatype relay_call = GetWorkspace | TeamMembers | GetMyKey | PutKey string | DeleteKey string

record wrap_env =
  we_prims :: prims
  we_random :: "nat \<Rightarrow> bytes \<times> bytes"
  we_rotate_key :: bytes
  we_down :: "relay_call \<Rightarrow> bool"
  we_ser_ring :: "(32 word, string) btree \<Rightarrow> bytes"
  we_de_ring :: "bytes \<Rightarrow> (32 word, string) btree option"
  we_ser_pins :: "known_keys \<Rightarrow> bytes"
  we_de_pins :: "bytes \<Rightarrow> known_keys option"
  we_ser_names :: "string list \<Rightarrow> bytes"
  we_de_names :: "bytes \<Rightarrow> string list option"
  we_pins_writable :: bool
  we_record_writable :: bool
  we_ring_fault :: write_fault

record wrap_relay =
  wl_team :: "string option"
  wl_members :: "member_info list"
  wl_rows :: "(string, string) btree"          \<comment> \<open>user to hex wrap blob\<close>
  wl_me :: string                              \<comment> \<open>the user of the token\<close>

record wrap_state =
  ws_relay :: wrap_relay
  ws_pear :: key_dir
  ws_keys_dir :: key_dir
  ws_pins :: "bytes read_outcome"
  ws_record :: "bytes read_outcome"            \<comment> \<open>\<open>wrapped_members.json\<close>\<close>

record wrap_report =
  wr_wrapped :: "string list"
  wr_skipped :: "string list"
  wr_unsigned :: "string list"
  wr_bad_sig :: "string list"
  wr_pin_changed :: "string list"
  wr_newly_pinned :: "(string \<times> string) list"

definition empty_report :: wrap_report where
  "empty_report = \<lparr>wr_wrapped = [], wr_skipped = [], wr_unsigned = [], wr_bad_sig = [],
     wr_pin_changed = [], wr_newly_pinned = []\<rparr>"

section \<open>Wrap maintenance\<close>

record wrap_loop =
  lp_pins :: known_keys
  lp_dirty :: bool
  lp_report :: wrap_report
  lp_rows :: "(string, string) btree"

text \<open>One member: \<open>Inl\<close> ends the pass with an error, the rows put so far stay on
  the relay.\<close>

definition wrap_member ::
  "wrap_env \<Rightarrow> bytes \<Rightarrow> nat \<Rightarrow> member_info \<Rightarrow> wrap_loop \<Rightarrow> (e2e_error, wrap_loop) result" where
  "wrap_member env payload i m st =
     rbind (classify_member (we_prims env) m (lp_pins st)) (\<lambda>class.
       case class of
         NoKey \<Rightarrow> Inr (st\<lparr>lp_report := (lp_report st)\<lparr>wr_skipped := wr_skipped (lp_report st) @ [mi_user m]\<rparr>\<rparr>)
       | Unsigned \<Rightarrow> Inr (st\<lparr>lp_report := (lp_report st)\<lparr>wr_unsigned := wr_unsigned (lp_report st) @ [mi_user m]\<rparr>\<rparr>)
       | BadSig \<Rightarrow> Inr (st\<lparr>lp_report := (lp_report st)\<lparr>wr_bad_sig := wr_bad_sig (lp_report st) @ [mi_user m]\<rparr>\<rparr>)
       | PinChanged \<Rightarrow> Inr (st\<lparr>lp_report := (lp_report st)\<lparr>wr_pin_changed := wr_pin_changed (lp_report st) @ [mi_user m]\<rparr>\<rparr>)
       | WrapTo x25519_pub first_sight \<Rightarrow>
           (let ed_hex = the (mi_ed25519 m);
                st = (if first_sight then
                        st\<lparr>lp_pins := kk_pin (lp_pins st) (mi_user m) ed_hex, lp_dirty := True,
                           lp_report := (lp_report st)\<lparr>wr_newly_pinned :=
                             wr_newly_pinned (lp_report st) @ [(mi_user m, ed_hex)]\<rparr>\<rparr>
                      else st);
                (secret, nonce) = we_random env i
            in rbind (lift_crypto (wrap_key (we_prims env) secret nonce payload x25519_pub)) (\<lambda>blob.
                 if we_down env (PutKey (mi_user m)) then Inl (RelayFailed ''put_wrapped_key'')
                 else Inr (st\<lparr>lp_rows := bt_insert (mi_user m) (hex_encode blob) (lp_rows st),
                              lp_report := (lp_report st)\<lparr>wr_wrapped :=
                                wr_wrapped (lp_report st) @ [mi_user m]\<rparr>\<rparr>))))"

fun wrap_members ::
  "wrap_env \<Rightarrow> bytes \<Rightarrow> nat \<Rightarrow> member_info list \<Rightarrow> wrap_loop
     \<Rightarrow> (e2e_error, unit) result \<times> wrap_loop" where
  "wrap_members env payload i [] st = (Inr (), st)"
| "wrap_members env payload i (m # ms) st =
     (case wrap_member env payload i m st of
        Inl e \<Rightarrow> (Inl e, st)
      | Inr st' \<Rightarrow> wrap_members env payload (Suc i) ms st')"

definition wrap_maintenance ::
  "wrap_env \<Rightarrow> keyring \<Rightarrow> wrap_state \<Rightarrow> (e2e_error, wrap_report) result \<times> wrap_state" where
  "wrap_maintenance env r s =
     (if we_down env GetWorkspace then (Inl (RelayFailed ''get_workspace''), s)
      else case wl_team (ws_relay s) of
        None \<Rightarrow> (Inr empty_report, s)
      | Some team_id \<Rightarrow>
          (case kk_load (we_de_pins env) (ws_pins s) of
             Inl e \<Rightarrow> (Inl e, s)
           | Inr pins \<Rightarrow>
               if we_down env TeamMembers then (Inl (RelayFailed ''team_members''), s)
               else
                 (let (res, lp) = wrap_members env (keyring_json (we_ser_ring env) r) 0
                        (wl_members (ws_relay s))
                        \<lparr>lp_pins = pins, lp_dirty = False, lp_report = empty_report,
                         lp_rows = wl_rows (ws_relay s)\<rparr>;
                      s = s\<lparr>ws_relay := (ws_relay s)\<lparr>wl_rows := lp_rows lp\<rparr>\<rparr>
                  in case res of
                       Inl e \<Rightarrow> (Inl e, s)
                     | Inr _ \<Rightarrow>
                         if lp_dirty lp then
                           (case kk_save (we_ser_pins env) (we_pins_writable env) (lp_pins lp) (ws_pins s) of
                              (Inl e, pins_file) \<Rightarrow> (Inl e, s\<lparr>ws_pins := pins_file\<rparr>)
                            | (Inr _, pins_file) \<Rightarrow> (Inr (lp_report lp), s\<lparr>ws_pins := pins_file\<rparr>))
                         else (Inr (lp_report lp), s))))"

section \<open>Fetching and merging the caller's own wrap\<close>

definition local_user_keypair ::
  "prims \<Rightarrow> key_dir \<Rightarrow> string \<Rightarrow> (e2e_error, user_keypair) result" where
  "local_user_keypair cp keys_dir name =
     lift_crypto (rbind (user_keypair_export name keys_dir) (\<lambda>s. Inr (keypair_from_secret cp s)))"

definition unwrap_keyring :: "wrap_env \<Rightarrow> user_keypair \<Rightarrow> string \<Rightarrow> (e2e_error, keyring) result" where
  "unwrap_keyring env keypair blob_hex =
     (case hex_decode blob_hex of
        Inl (HexPanic _) \<Rightarrow> Inl E2eHexPanic
      | Inl _ \<Rightarrow> Inl NotHex
      | Inr blob \<Rightarrow>
          rbind (lift_crypto (unwrap_key (we_prims env) keypair blob))
            (keyring_from_wrap_payload (we_de_ring env)))"

definition get_my_wrapped_key :: "wrap_env \<Rightarrow> wrap_relay \<Rightarrow> (e2e_error, string option) result" where
  "get_my_wrapped_key env relay =
     (if we_down env GetMyKey then Inl (RelayFailed ''get_my_wrapped_key'')
      else Inr (bt_get (wl_rows relay) (wl_me relay)))"

definition fetch_and_unwrap_workspace_key ::
  "wrap_env \<Rightarrow> wrap_state \<Rightarrow> string option \<Rightarrow> (e2e_error, keyring) result" where
  "fetch_and_unwrap_workspace_key env s name =
     (case name of
        None \<Rightarrow> Inl (RelayFailed ''no name'')
      | Some n \<Rightarrow>
          rbind (local_user_keypair (we_prims env) (ws_keys_dir s) n) (\<lambda>keypair.
            rbind (get_my_wrapped_key env (ws_relay s)) (\<lambda>row.
              case row of
                None \<Rightarrow> Inl (RelayFailed ''no wrap'')
              | Some blob_hex \<Rightarrow> unwrap_keyring env keypair blob_hex)))"

definition workspace_key_for_reader ::
  "wrap_env \<Rightarrow> wrap_state \<Rightarrow> string option \<Rightarrow> (e2e_error, keyring) result \<times> wrap_state" where
  "workspace_key_for_reader env s name =
     (case load_workspace_keyring (we_de_ring env) (ws_pear s) of
        Inl e \<Rightarrow> (Inl e, s)
      | Inr (Some r) \<Rightarrow> (Inr r, s)
      | Inr None \<Rightarrow>
          (case fetch_and_unwrap_workspace_key env s name of
             Inl e \<Rightarrow> (Inl e, s)
           | Inr r \<Rightarrow>
               (let (res, pear) = store_workspace_keyring (we_ser_ring env) (we_ring_fault env) r (ws_pear s)
                in (rbind res (\<lambda>_. Inr r), s\<lparr>ws_pear := pear\<rparr>))))"

text \<open>The inner result of \<open>merge_relay_keyring\<close>: \<open>None\<close> when the merge could not
  run (no identity, no row), which is not an error.\<close>

definition merge_relay_keyring ::
  "wrap_env \<Rightarrow> wrap_state \<Rightarrow> keyring \<Rightarrow> string option
     \<Rightarrow> (e2e_error, (keyring \<times> 32 word list) option) result" where
  "merge_relay_keyring env s r name =
     (case name of
        None \<Rightarrow> Inr None
      | Some n \<Rightarrow>
          (case local_user_keypair (we_prims env) (ws_keys_dir s) n of
             Inl _ \<Rightarrow> Inr None
           | Inr keypair \<Rightarrow>
               rbind (get_my_wrapped_key env (ws_relay s)) (\<lambda>row.
                 case row of
                   None \<Rightarrow> Inr None
                 | Some blob_hex \<Rightarrow>
                     rbind (unwrap_keyring env keypair blob_hex) (\<lambda>relay_ring.
                       Inr (Some (union_from r relay_ring))))))"

section \<open>Rotation maintenance\<close>

record rotation_report =
  rr_departed :: "string list"
  rr_rotated :: bool
  rr_generation :: "32 word"
  rr_merged :: "32 word list"
  rr_merge_skipped :: bool
  rr_wrap :: wrap_report

definition load_wrapped_members ::
  "wrap_env \<Rightarrow> bytes read_outcome \<Rightarrow> (e2e_error, string list option) result" where
  "load_wrapped_members env record =
     (case record of
        ReadOk bs \<Rightarrow> (case we_de_names env bs of None \<Rightarrow> Inl CorruptRecord | Some names \<Rightarrow> Inr (Some names))
      | ReadNotFound \<Rightarrow> Inr None
      | ReadFailed \<Rightarrow> Inl RecordIo)"

definition store_wrapped_members ::
  "wrap_env \<Rightarrow> string list \<Rightarrow> bytes read_outcome \<Rightarrow> (e2e_error, unit) result \<times> bytes read_outcome" where
  "store_wrapped_members env names old =
     (if we_record_writable env then (Inr (), ReadOk (we_ser_names env names)) else (Inl RecordIo, old))"

definition put_ring ::
  "wrap_env \<Rightarrow> keyring \<Rightarrow> wrap_state \<Rightarrow> (e2e_error, unit) result \<times> wrap_state" where
  "put_ring env r s =
     (let (res, pear) = store_workspace_keyring (we_ser_ring env) (we_ring_fault env) r (ws_pear s)
      in (res, s\<lparr>ws_pear := pear\<rparr>))"

text \<open>The rotating half: merge, persist what was adopted, mint, persist.\<close>

definition rotate_pass ::
  "wrap_env \<Rightarrow> keyring \<Rightarrow> string option \<Rightarrow> wrap_state
     \<Rightarrow> (e2e_error, 32 word list \<times> bool) result \<times> keyring \<times> wrap_state" where
  "rotate_pass env r name s =
     (case merge_relay_keyring env s r name of
        Inl e \<Rightarrow> (Inl e, r, s)
      | Inr merged \<Rightarrow>
          (let (r1, adopted, skipped) =
                 (case merged of Some (r', ad) \<Rightarrow> (r', ad, False) | None \<Rightarrow> (r, [], True));
               (res1, s1) = (if adopted \<noteq> [] then put_ring env r1 s else (Inr (), s))
           in case res1 of
                Inl e \<Rightarrow> (Inl e, r1, s1)
              | Inr _ \<Rightarrow>
                  (let (gen, r2) = rotate (we_rotate_key env) r1;
                       (res2, s2) = put_ring env r2 s1
                   in (rbind res2 (\<lambda>_. Inr (adopted, skipped)), r2, s2))))"

fun delete_rows ::
  "wrap_env \<Rightarrow> string list \<Rightarrow> (string, string) btree \<Rightarrow> (e2e_error, unit) result \<times> (string, string) btree" where
  "delete_rows env [] rows = (Inr (), rows)"
| "delete_rows env (u # us) rows =
     (if we_down env (DeleteKey u) then (Inl (RelayFailed ''delete_wrapped_key''), rows)
      else delete_rows env us (bt_remove u rows))"

definition rotation_maintenance ::
  "wrap_env \<Rightarrow> keyring \<Rightarrow> string option \<Rightarrow> bool \<Rightarrow> wrap_state
     \<Rightarrow> (e2e_error, rotation_report) result \<times> keyring \<times> wrap_state" where
  "rotation_maintenance env r name force s =
     (if we_down env GetWorkspace then (Inl (RelayFailed ''get_workspace''), r, s)
      else case wl_team (ws_relay s) of
        None \<Rightarrow>
          if force then (Inl NoTeam, r, s)
          else (Inr \<lparr>rr_departed = [], rr_rotated = False, rr_generation = fst (newest r),
                     rr_merged = [], rr_merge_skipped = False, rr_wrap = empty_report\<rparr>, r, s)
      | Some team_id \<Rightarrow>
          if we_down env TeamMembers then (Inl (RelayFailed ''team_members''), r, s)
          else
            (let current = bt_set (map mi_user (wl_members (ws_relay s)))
             in case load_wrapped_members env (ws_record s) of
                  Inl e \<Rightarrow> (Inl e, r, s)
                | Inr recorded \<Rightarrow>
                    (let prev = (case recorded of None \<Rightarrow> [] | Some names \<Rightarrow> names);
                         departed = filter (\<lambda>u. u \<notin> set current) prev;
                         rotated = (force \<or> departed \<noteq> []);
                         (res1, r1, s1) =
                           (if rotated then rotate_pass env r name s else (Inr ([], False), r, s))
                     in case res1 of
                          Inl e \<Rightarrow> (Inl e, r1, s1)
                        | Inr (merged, skipped) \<Rightarrow>
                            (let (res2, rows) = delete_rows env departed (wl_rows (ws_relay s1));
                                 s2 = s1\<lparr>ws_relay := (ws_relay s1)\<lparr>wl_rows := rows\<rparr>\<rparr>
                             in case res2 of
                                  Inl e \<Rightarrow> (Inl e, r1, s2)
                                | Inr _ \<Rightarrow>
                                    (case wrap_maintenance env r1 s2 of
                                       (Inl e, s3) \<Rightarrow> (Inl e, r1, s3)
                                     | (Inr wrap, s3) \<Rightarrow>
                                         (case store_wrapped_members env (bt_set (wr_wrapped wrap)) (ws_record s3) of
                                            (Inl e, rec) \<Rightarrow> (Inl e, r1, s3\<lparr>ws_record := rec\<rparr>)
                                          | (Inr _, rec) \<Rightarrow>
                                              (Inr \<lparr>rr_departed = departed, rr_rotated = rotated,
                                                    rr_generation = fst (newest r1), rr_merged = merged,
                                                    rr_merge_skipped = skipped, rr_wrap = wrap\<rparr>,
                                               r1, s3\<lparr>ws_record := rec\<rparr>)))))))"

section \<open>Only verified, pinned identities are wrapped to\<close>

text \<open>A member whose signed bundle verifies under an identity that agrees with the
  pins: not pinned, or pinned to the same fingerprint.\<close>

definition trusted :: "prims \<Rightarrow> known_keys \<Rightarrow> member_info \<Rightarrow> bool" where
  "trusted cp pins m \<longleftrightarrow>
     (\<exists>x_hex e_hex s_hex pub ed sig.
        mi_pubkey m = Some x_hex \<and> mi_ed25519 m = Some e_hex \<and> mi_sig m = Some s_hex
        \<and> hex_decode x_hex = Inr pub \<and> hex_decode e_hex = Inr ed \<and> hex_decode s_hex = Inr sig
        \<and> ed_verify cp ed (bundle_statement (mi_user m) pub) sig
        \<and> (bt_get pins (mi_user m) = None \<or> bt_get pins (mi_user m) = Some e_hex))"

definition pins_le :: "known_keys \<Rightarrow> known_keys \<Rightarrow> bool" where
  "pins_le p q \<longleftrightarrow> (\<forall>u v. bt_get p u = Some v \<longrightarrow> bt_get q u = Some v)"

lemma trusted_antimono: "pins_le p q \<Longrightarrow> trusted cp q m \<Longrightarrow> trusted cp p m"
  unfolding trusted_def pins_le_def by (metis not_None_eq option.inject)

lemma wrap_member_step:
  assumes "wrap_member env payload i m st = Inr st'"
  shows "pins_le (lp_pins st) (lp_pins st')
    \<and> (wr_wrapped (lp_report st') = wr_wrapped (lp_report st) \<and> lp_rows st' = lp_rows st
       \<or> wr_wrapped (lp_report st') = wr_wrapped (lp_report st) @ [mi_user m]
         \<and> trusted (we_prims env) (lp_pins st) m
         \<and> (\<forall>u. u \<noteq> mi_user m \<longrightarrow> bt_get (lp_rows st') u = bt_get (lp_rows st) u))"
proof -
  obtain cls where cls: "classify_member (we_prims env) m (lp_pins st) = Inr cls"
    using assms by (auto simp: wrap_member_def rbind_ok_iff)
  show ?thesis
  proof (cases cls)
    case (WrapTo pub first)
    have tr: "trusted (we_prims env) (lp_pins st) m"
      using classify_wrap [OF cls [unfolded WrapTo]] unfolding trusted_def by (metis (full_types))
    have new: "first \<Longrightarrow> bt_get (lp_pins st) (mi_user m) = None"
      using classify_wrap [OF cls [unfolded WrapTo]] by (auto split: if_splits)
    obtain secret nonce where rnd: "we_random env i = (secret, nonce)"
      by fastforce
    obtain blob where "wrap_key (we_prims env) secret nonce payload pub = Inr blob"
      "\<not> we_down env (PutKey (mi_user m))"
      using assms cls WrapTo rnd
      by (auto simp: wrap_member_def rbind_ok_iff lift_crypto_def Let_def split: sum.splits if_splits)
    then show ?thesis
      using assms cls WrapTo rnd tr new
      by (cases first) (auto simp: wrap_member_def lift_crypto_def Let_def pins_le_def kk_pin_def)
  qed (use assms cls in \<open>auto simp: wrap_member_def pins_le_def\<close>)
qed

lemma wrap_members_inv:
  assumes "wrap_members env payload i ms st = (res, st')"
  shows "pins_le (lp_pins st) (lp_pins st')
    \<and> (\<forall>u\<in>set (wr_wrapped (lp_report st')). u \<in> set (wr_wrapped (lp_report st))
         \<or> (\<exists>m\<in>set ms. mi_user m = u \<and> trusted (we_prims env) (lp_pins st) m))
    \<and> set (wr_wrapped (lp_report st)) \<subseteq> set (wr_wrapped (lp_report st'))
    \<and> (\<forall>u. u \<notin> set (wr_wrapped (lp_report st')) \<longrightarrow> bt_get (lp_rows st') u = bt_get (lp_rows st) u)"
  using assms
proof (induction env payload i ms st rule: wrap_members.induct)
  case (2 env payload i m ms st)
  show ?case
  proof (cases "wrap_member env payload i m st")
    case (Inl e)
    then show ?thesis using "2.prems" by (auto simp: pins_le_def)
  next
    case (Inr st1)
    note IH = "2.IH" [OF Inr "2.prems" [simplified, unfolded Inr, simplified]]
    note step = wrap_member_step [OF Inr]
    have "pins_le (lp_pins st) (lp_pins st1)"
      using step by blast
    moreover have "trusted (we_prims env) (lp_pins st) m'" if "trusted (we_prims env) (lp_pins st1) m'" for m'
      using trusted_antimono calculation that by blast
    ultimately show ?thesis
      using IH step by (auto simp: pins_le_def) (metis Un_iff)+
  qed
qed (auto simp: pins_le_def)

lemma wrap_maintenance_rows:
  assumes "wrap_maintenance env r s = (Inr rep, s')" "kk_load (we_de_pins env) (ws_pins s) = Inr pins"
  shows "(\<forall>u\<in>set (wr_wrapped rep). \<exists>m\<in>set (wl_members (ws_relay s)).
        mi_user m = u \<and> trusted (we_prims env) pins m)
    \<and> (\<forall>u. u \<notin> set (wr_wrapped rep)
        \<longrightarrow> bt_get (wl_rows (ws_relay s')) u = bt_get (wl_rows (ws_relay s)) u)
    \<and> (ws_pins s' = ws_pins s \<or> (\<exists>q. ws_pins s' = ReadOk (we_ser_pins env q) \<and> pins_le pins q))"
proof (cases "wl_team (ws_relay s)")
  case None
  then show ?thesis
    using assms by (auto simp: wrap_maintenance_def empty_report_def split: if_splits)
next
  case (Some team_id)
  define lp0 where "lp0 = \<lparr>lp_pins = pins, lp_dirty = False, lp_report = empty_report,
    lp_rows = wl_rows (ws_relay s)\<rparr>"
  obtain res lp where lp: "wrap_members env (keyring_json (we_ser_ring env) r) 0
      (wl_members (ws_relay s)) lp0 = (res, lp)"
    by fastforce
  note inv = wrap_members_inv [OF lp]
  have rep: "rep = lp_report lp" "wl_rows (ws_relay s') = lp_rows lp"
    and pins: "ws_pins s' = ws_pins s \<or> ws_pins s' = ReadOk (we_ser_pins env (lp_pins lp))"
    using assms Some lp
    by (auto simp: wrap_maintenance_def lp0_def kk_save_def Let_def split: if_splits sum.splits)
  have "lp_pins lp0 = pins" "wr_wrapped (lp_report lp0) = []" "lp_rows lp0 = wl_rows (ws_relay s)"
    by (simp_all add: lp0_def empty_report_def)
  then show ?thesis
    using inv rep pins by auto
qed


lemma delete_rows_get:
  "delete_rows env us rows = (Inr (), rows') \<Longrightarrow>
     bt_get rows' u = (if u \<in> set us then None else bt_get rows u)"
  by (induction us arbitrary: rows) (auto split: if_splits)

lemma wrap_maintenance_frame:
  assumes "wrap_maintenance env r s = (res, s')"
  shows "ws_record s' = ws_record s" "wl_members (ws_relay s') = wl_members (ws_relay s)"
  using assms
  by (auto simp: wrap_maintenance_def Let_def split: if_splits option.splits sum.splits prod.splits)

lemma rotate_pass_newest:
  assumes "rotate_pass env r name s = (Inr (merged, skipped), r', s')"
  shows "\<exists>r1. (r1 = r \<or> (\<exists>other. r1 = fst (union_from r other) \<and> ring_ok other))
      \<and> r' = snd (rotate (we_rotate_key env) r1)"
    "ws_record s' = ws_record s" "ws_relay s' = ws_relay s" "ws_pins s' = ws_pins s"
proof -
  obtain mo where mo: "merge_relay_keyring env s r name = Inr mo"
    using assms by (cases "merge_relay_keyring env s r name") (auto simp: rotate_pass_def)
  have src: "\<exists>other. x = union_from r other \<and> ring_ok other" if mx: "mo = Some x" for x
  proof -
    obtain k blob other where u: "unwrap_keyring env k blob = Inr other" and x: "x = union_from r other"
      using mo mx
      by (auto simp: merge_relay_keyring_def rbind_ok_iff split: option.splits sum.splits)
    obtain p where "keyring_from_wrap_payload (we_de_ring env) p = Inr other"
      using u by (auto simp: unwrap_keyring_def rbind_ok_iff split: sum.splits hex_error.splits)
    then have "ring_ok other"
      using wrap_payload_ring_ok by blast
    then show ?thesis
      using x by blast
  qed
  define r1 where "r1 = (case mo of Some (q, ad) \<Rightarrow> q | None \<Rightarrow> r)"
  have "r1 = r \<or> (\<exists>other. r1 = fst (union_from r other) \<and> ring_ok other)"
    using src by (auto simp: r1_def split: option.splits) (metis fst_conv)
  moreover have "r' = snd (rotate (we_rotate_key env) r1)"
    using assms mo
    by (auto simp: rotate_pass_def r1_def Let_def split: option.splits if_splits sum.splits prod.splits)
  ultimately show "\<exists>r1. (r1 = r \<or> (\<exists>other. r1 = fst (union_from r other) \<and> ring_ok other))
      \<and> r' = snd (rotate (we_rotate_key env) r1)"
    by blast
  show "ws_record s' = ws_record s" "ws_relay s' = ws_relay s" "ws_pins s' = ws_pins s"
    using assms mo
    by (auto simp: rotate_pass_def put_ring_def Let_def split: option.splits if_splits sum.splits prod.splits)
qed

lemma rotation_result:
  assumes "rotation_maintenance env r name force s = (Inr rep, r', s')"
    and "wl_team (ws_relay s) = Some t"
  obtains recorded s1 rows s3 where
    "load_wrapped_members env (ws_record s) = Inr recorded"
    "rr_departed rep = filter (\<lambda>u. u \<notin> set (map mi_user (wl_members (ws_relay s))))
       (case recorded of None \<Rightarrow> [] | Some names \<Rightarrow> names)"
    "rr_rotated rep = (force \<or> rr_departed rep \<noteq> [])"
    "rr_rotated rep \<longrightarrow> rotate_pass env r name s = (Inr (rr_merged rep, rr_merge_skipped rep), r', s1)"
    "\<not> rr_rotated rep \<longrightarrow> r' = r \<and> s1 = s"
    "delete_rows env (rr_departed rep) (wl_rows (ws_relay s1)) = (Inr (), rows)"
    "wrap_maintenance env r' (s1\<lparr>ws_relay := (ws_relay s1)\<lparr>wl_rows := rows\<rparr>\<rparr>) = (Inr (rr_wrap rep), s3)"
    "s' = s3\<lparr>ws_record := ReadOk (we_ser_names env (bt_set (wr_wrapped (rr_wrap rep))))\<rparr>"
    "rr_generation rep = fst (newest r')"
proof -
  obtain recorded where recd: "load_wrapped_members env (ws_record s) = Inr recorded"
    using assms by (cases "load_wrapped_members env (ws_record s)")
      (auto simp: rotation_maintenance_def Let_def split: if_splits)
  define departed where "departed = filter (\<lambda>u. u \<notin> set (map mi_user (wl_members (ws_relay s))))
      (case recorded of None \<Rightarrow> [] | Some names \<Rightarrow> names)"
  define rotated where "rotated = (force \<or> departed \<noteq> [])"
  obtain res1 r1 s1 where p1: "(if rotated then rotate_pass env r name s else (Inr ([], False), r, s)) = (res1, r1, s1)"
    by (metis prod_cases3)
  note main = assms(1) [unfolded rotation_maintenance_def, simplified assms(2) recd Let_def bt_set_props
      option.case sum.case, folded departed_def, folded rotated_def, unfolded p1]
  have up: "\<not> we_down env GetWorkspace" "\<not> we_down env TeamMembers"
    using main by (auto split: if_splits)
  obtain merged skipped where res1: "res1 = Inr (merged, skipped)"
    using main up by (cases res1) auto
  obtain res2 rows where p2: "delete_rows env departed (wl_rows (ws_relay s1)) = (res2, rows)"
    by fastforce
  have res2: "res2 = Inr ()"
    using main up res1 p2 by (cases res2) auto
  obtain res3 s3 where p3: "wrap_maintenance env r1 (s1\<lparr>ws_relay := (ws_relay s1)\<lparr>wl_rows := rows\<rparr>\<rparr>) = (res3, s3)"
    by fastforce
  obtain wrap where res3: "res3 = Inr wrap"
    using main up res1 res2 p2 p3 by (cases res3) auto
  have fin: "r' = r1" "s' = s3\<lparr>ws_record := ReadOk (we_ser_names env (bt_set (wr_wrapped wrap)))\<rparr>"
    "rep = \<lparr>rr_departed = departed, rr_rotated = rotated, rr_generation = fst (newest r1),
       rr_merged = merged, rr_merge_skipped = skipped, rr_wrap = wrap\<rparr>"
    using main up res1 res2 res3 p2 p3 by (auto simp: store_wrapped_members_def split: if_splits)
  show thesis
    by (rule that [of recorded s1 rows s3])
      (use recd p1 p2 p3 res1 res2 res3 fin in \<open>auto simp: departed_def rotated_def\<close>)
qed

lemma rotate_generation:
  assumes "ring_ok r1" "length k = 32" "fst (newest (snd (rotate k r1))) \<noteq> - 1"
  shows "newest (snd (rotate k r1)) = (fst (newest (snd (rotate k r1))), k)
    \<and> (\<forall>g\<in>dom (bt_get r1). g < fst (newest (snd (rotate k r1)))
         \<and> bt_get (snd (rotate k r1)) g \<noteq> None)"
proof -
  obtain g r2 where rot: "rotate k r1 = (g, r2)"
    by fastforce
  have "fst (newest r1) \<noteq> - 1"
  proof
    assume last: "fst (newest r1) = - 1"
    have "newest r2 = (- 1, snd (newest r1))"
    proof (rule newest_unique)
      show "bt_wf r2" "bt_get r2 (- 1) = Some (snd (newest r1))"
        using rot last assms(1) newest_get [of r1]
        by (auto simp: rotate_def Let_def ring_ok_def)
    qed simp
    then show False
      using rot assms(3) by simp
  qed
  then show ?thesis
    using rotate_fresh_ring [OF assms(1,2) _ rot] rot
    by simp (metis domD less_irrefl option.distinct(1))
qed


text \<open>The record forgets key holders: a pass in which a team member could not be
  wrapped to, for whatever reason, drops them from the record even if they were
  wrapped to before and still hold the ring; if they leave the team after it, the
  next pass sees no departure and does not rotate.\<close>

theorem skipped_holder_forgotten:
  assumes "rotation_maintenance env r name force s = (Inr rep, r', s')"
    and "wl_team (ws_relay s) = Some t"
    and "we_de_names env (we_ser_names env (bt_set (wr_wrapped (rr_wrap rep))))
       = Some (bt_set (wr_wrapped (rr_wrap rep)))"
    and "set (wr_wrapped (rr_wrap rep)) \<subseteq> mi_user ` set ms"
    and "rotation_maintenance env' r' name' False
       (s'\<lparr>ws_relay := (ws_relay s')\<lparr>wl_team := Some t, wl_members := ms\<rparr>\<rparr>) = (Inr rep2, r2, s2)"
    and "we_de_names env' = we_de_names env"
  shows "rr_departed rep2 = [] \<and> \<not> rr_rotated rep2 \<and> r2 = r'"
proof -
  let ?w = "bt_set (wr_wrapped (rr_wrap rep))"
  obtain s3 where s': "s' = s3\<lparr>ws_record := ReadOk (we_ser_names env ?w)\<rparr>"
    using rotation_result [OF assms(1,2)] by metis
  let ?s = "s'\<lparr>ws_relay := (ws_relay s')\<lparr>wl_team := Some t, wl_members := ms\<rparr>\<rparr>"
  have "load_wrapped_members env' (ws_record ?s) = Inr (Some ?w)"
    using assms(3,6) by (simp add: s' load_wrapped_members_def)
  moreover obtain recorded s1 where recd: "load_wrapped_members env' (ws_record ?s) = Inr recorded"
    and dep: "rr_departed rep2 = filter (\<lambda>u. u \<notin> set (map mi_user (wl_members (ws_relay ?s))))
       (case recorded of None \<Rightarrow> [] | Some names \<Rightarrow> names)"
    and rot: "rr_rotated rep2 = (False \<or> rr_departed rep2 \<noteq> [])"
    and same: "\<not> rr_rotated rep2 \<longrightarrow> r2 = r' \<and> s1 = ?s"
  proof -
    have t: "wl_team (ws_relay ?s) = Some t"
      by simp
    show thesis
      by (rule rotation_result [OF assms(5) t]) (rule that)
  qed
  ultimately have "recorded = Some ?w"
    by simp
  then have "rr_departed rep2 = filter (\<lambda>u. u \<notin> set (map mi_user ms)) ?w"
    using dep by simp
  also have "\<dots> = []"
    using assms(4) by (auto simp: filter_empty_conv)
  finally show ?thesis
    using rot same by simp
qed

text \<open>One hostile member can block the pass for everyone after them: a signed
  bundle over a low-order encryption key is classified as sound, and the wrap to
  it fails the whole pass.\<close>

theorem low_order_member_blocks_pass:
  assumes "wl_team (ws_relay s) = Some t" "wl_members (ws_relay s) = m # rest"
    and "kk_load (we_de_pins env) (ws_pins s) = Inr pins"
    and "\<not> we_down env GetWorkspace" "\<not> we_down env TeamMembers"
    and "classify_member (we_prims env) m pins = Inr (WrapTo pub first)"
    and "p_x25519 (we_prims env) (fst (we_random env 0)) pub = zero_bytes 32"
  shows "wrap_maintenance env r s = (Inl (E2eCrypto LowOrderKey), s)"
proof -
  obtain secret nonce where rnd: "we_random env 0 = (secret, nonce)"
    by fastforce
  have "wrap_key (we_prims env) secret nonce payload pub = Inl LowOrderKey" for payload
    using assms(7) rnd
    by (simp add: wrap_key_def keypair_from_secret_def derive_wrap_key_def Let_def)
  then have "wrap_member env payload 0 m lp = Inl (E2eCrypto LowOrderKey)"
    if "lp_pins lp = pins" for payload lp
    using assms(6) rnd that by (simp add: wrap_member_def lift_crypto_def Let_def)
  then show ?thesis
    using assms by (simp add: wrap_maintenance_def Let_def)
qed

section \<open>A concrete workspace\<close>

definition bob :: member_info where
  "bob = \<lparr>mi_user = ''bob'', mi_pubkey = Some (hex_encode (zero_bytes 32)),
     mi_ed25519 = Some (hex_encode (replicate 32 CHR ''i'')),
     mi_sig = Some (hex_encode (replicate 64 CHR ''i''))\<rparr>"

text \<open>One recorded name or one pin is serialized as itself.\<close>

definition toy_env :: wrap_env where
  "toy_env = \<lparr>we_prims = toy_prims, we_random = (\<lambda>_. (zero_bytes 32, zero_bytes 12)),
     we_rotate_key = replicate 32 CHR ''r'', we_down = (\<lambda>_. False),
     we_ser_ring = (\<lambda>_. ''ring''), we_de_ring = (\<lambda>_. None),
     we_ser_pins = (\<lambda>m. concat (map snd m)),
     we_de_pins = (\<lambda>b. Some (if b = '''' then [] else [(''bob'', b)])),
     we_ser_names = concat, we_de_names = (\<lambda>b. Some (if b = '''' then [] else [b])),
     we_pins_writable = True, we_record_writable = True, we_ring_fault = WriteOk\<rparr>"

definition low_order_env :: wrap_env where
  "low_order_env = toy_env\<lparr>we_prims := toy_prims\<lparr>p_x25519 := (\<lambda>s p. p)\<rparr>\<rparr>"

definition toy_state :: "member_info list \<Rightarrow> bytes read_outcome \<Rightarrow> wrap_state" where
  "toy_state ms recd = \<lparr>ws_relay = \<lparr>wl_team = Some ''t'', wl_members = ms, wl_rows = [], wl_me = ''ann''\<rparr>,
     ws_pear = [], ws_keys_dir = [], ws_pins = ReadNotFound, ws_record = recd\<rparr>"

lemma decode_sized_encode: "length b = n \<Longrightarrow> decode_sized n (hex_encode b) = Inr (Some b)"
  using hex.dec_enc [of b] by (simp add: decode_sized_def)

lemma classify_bob:
  assumes "p_ed_verify cp = p_ed_verify toy_prims"
  shows "classify_member cp bob [] = Inr (WrapTo (zero_bytes 32) True)"
proof -
  have "replicate 64 CHR ''i'' = replicate 32 CHR ''i'' @ replicate 32 CHR ''i''"
    by (simp flip: replicate_add)
  then have "ed_verify cp (replicate 32 CHR ''i'') msg (replicate 64 CHR ''i'')" for msg
    using assms by (simp add: ed_verify_def toy_prims_def)
  then show ?thesis
    by (simp add: classify_member_def bob_def decode_sized_encode kk_check_def)
qed

lemma wrap_key_toy: "\<exists>blob. wrap_key toy_prims s n p pub = Inr blob"
  using toy_shared_nonzero
  by (simp add: wrap_key_def keypair_from_secret_def derive_wrap_key_def hkdf_sha256_def Let_def)

lemma wrap_maintenance_bob:
  "\<exists>s'. wrap_maintenance toy_env r (toy_state [bob] recd)
     = (Inr (empty_report\<lparr>wr_wrapped := [''bob''],
          wr_newly_pinned := [(''bob'', hex_encode (replicate 32 CHR ''i''))]\<rparr>), s')"
proof -
  have c: "classify_member toy_prims bob [] = Inr (WrapTo (zero_bytes 32) True)"
    by (rule classify_bob) simp
  obtain blob where "wrap_key toy_prims (zero_bytes 32) (zero_bytes 12) ''ring'' (zero_bytes 32) = Inr blob"
    using wrap_key_toy by blast
  then show ?thesis
    using c
    by (simp add: wrap_maintenance_def toy_env_def toy_state_def kk_load_def wrap_member_def
        lift_crypto_def keyring_json_def kk_save_def Let_def empty_report_def bob_def)
qed


lemma low_order_member_blocks_pass_witness:
  "wrap_maintenance low_order_env [] (toy_state [bob] ReadNotFound)
     = (Inl (E2eCrypto LowOrderKey), toy_state [bob] ReadNotFound)"
  by (rule low_order_member_blocks_pass [where pins = "[]" and m = bob and rest = "[]" and pub = "zero_bytes 32"
        and first = True])
    (simp_all add: low_order_env_def toy_env_def toy_state_def kk_load_def classify_bob)

definition toy_ring :: keyring where
  "toy_ring = from_legacy (replicate 32 CHR ''k'')"

lemma toy_ring_ok: "ring_ok toy_ring"
  by (simp add: toy_ring_def ring_ok_def from_legacy_def bt_wf_def)

lemma rotation_bob:
  "\<exists>s'. rotation_maintenance toy_env toy_ring None False (toy_state [bob] ReadNotFound)
     = (Inr \<lparr>rr_departed = [], rr_rotated = False, rr_generation = 1, rr_merged = [],
          rr_merge_skipped = False, rr_wrap = empty_report\<lparr>wr_wrapped := [''bob''],
          wr_newly_pinned := [(''bob'', hex_encode (replicate 32 CHR ''i''))]\<rparr>\<rparr>, toy_ring, s')"
proof -
  obtain s' where "wrap_maintenance toy_env toy_ring (toy_state [bob] ReadNotFound)
     = (Inr (empty_report\<lparr>wr_wrapped := [''bob''],
          wr_newly_pinned := [(''bob'', hex_encode (replicate 32 CHR ''i''))]\<rparr>), s')"
    using wrap_maintenance_bob by blast
  then show ?thesis
    by (simp add: rotation_maintenance_def load_wrapped_members_def store_wrapped_members_def Let_def
        toy_state_def toy_env_def toy_ring_def from_legacy_def newest_def)
qed

lemma bt_set_Nil [simp]: "bt_set [] = []"
  by (simp add: bt_set_def)


definition bad_bob :: member_info where
  "bad_bob = bob\<lparr>mi_sig := Some ''zz''\<rparr>"

lemma classify_bad_bob: "classify_member cp bad_bob pins = Inr BadSig"
proof -
  have "decode_sized 64 ''zz'' = Inr None"
    by (simp add: decode_sized_def hex_decode_def u8_from_hex_def hex_value_def is_continuation_def)
  then show ?thesis
    by (simp add: classify_member_def bad_bob_def bob_def decode_sized_encode)
qed

lemma skipped_holder_forgotten_witness:
  "\<exists>rep2 r2 s2 s'. rotation_maintenance toy_env toy_ring None False
      (s'\<lparr>ws_relay := (ws_relay s')\<lparr>wl_team := Some ''t'', wl_members := []\<rparr>\<rparr>) = (Inr rep2, r2, s2)
    \<and> \<not> rr_rotated rep2"
proof -
  have user: "mi_user bad_bob = ''bob''"
    by (simp add: bad_bob_def bob_def)
  have wm: "wrap_maintenance toy_env toy_ring (toy_state [bad_bob] (ReadOk ''bob''))
      = (Inr (empty_report\<lparr>wr_bad_sig := [''bob'']\<rparr>), toy_state [bad_bob] (ReadOk ''bob''))"
    using classify_bad_bob user
    by (simp add: wrap_maintenance_def kk_load_def wrap_member_def empty_report_def toy_state_def
        toy_env_def Let_def)
  obtain rep s' where run: "rotation_maintenance toy_env toy_ring None False
      (toy_state [bad_bob] (ReadOk ''bob'')) = (Inr rep, toy_ring, s')"
    and rep: "wr_wrapped (rr_wrap rep) = []" and s': "ws_pins s' = ReadNotFound" "ws_record s' = ReadOk ''''"
    using wm user
    by (simp add: rotation_maintenance_def load_wrapped_members_def store_wrapped_members_def Let_def
        toy_state_def toy_env_def empty_report_def bt_set_def)
  obtain rep2 r2 s2 where run2: "rotation_maintenance toy_env toy_ring None False
      (s'\<lparr>ws_relay := (ws_relay s')\<lparr>wl_team := Some ''t'', wl_members := []\<rparr>\<rparr>) = (Inr rep2, r2, s2)"
    using s' by (simp add: rotation_maintenance_def load_wrapped_members_def store_wrapped_members_def Let_def
        toy_env_def wrap_maintenance_def kk_load_def empty_report_def)
  have "\<not> rr_rotated rep2"
    using skipped_holder_forgotten [OF run _ _ _ run2] rep
    by (simp add: toy_state_def toy_env_def)
  then show ?thesis
    using run2 by blast
qed

end
