(* ===== verification/Relay_Db.thy ===== *)
theory Relay_Db
imports Prelude "HOL-Library.Product_Lexorder"
begin

text \<open>
  \<open>relay/src/db.rs\<close>: the relay's metadata.  Each SQLite table is a map from its
  primary key to the rest of the row; every operation is the statement sequence of
  the Rust function, run to its end or rolled back.  A statement of a transaction
  that fails, and a failing \<open>COMMIT\<close>, are the \<open>fault\<close> argument.
\<close>

section \<open>Tables\<close>

record user_row =
  u_token :: string
  u_created_at :: int
  u_pubkey :: "string option"
  u_ed_pubkey :: "string option"
  u_key_sig :: "string option"

record team_row =
  t_name :: string
  t_created_at :: int
  t_sync_env :: bool

record workspace_row =
  w_name :: string
  w_owner :: "string option"
  w_team_id :: "string option"
  w_e2e :: bool

record head_row =
  h_hash :: string
  h_manifest :: string

record snapshot_row =
  sn_name :: "string option"
  sn_kind :: string
  sn_device :: string
  sn_created_at :: int
  sn_manifest :: string

record db =
  db_users :: "(string, user_row) btree"
  db_teams :: "(string, team_row) btree"
  db_members :: "(string \<times> string, string) btree"      \<comment> \<open>(team, user) to role\<close>
  db_workspaces :: "(string, workspace_row) btree"
  db_heads :: "(string \<times> int, head_row) btree"          \<comment> \<open>(workspace, seq)\<close>
  db_snapshots :: "(string \<times> int, snapshot_row) btree"
  db_refs :: "(string \<times> string, unit) btree"            \<comment> \<open>(workspace, chunk)\<close>
  db_wrapped :: "(string \<times> string, string) btree"       \<comment> \<open>(workspace, user) to blob\<close>

definition empty_db :: db where
  "empty_db = \<lparr>db_users = [], db_teams = [], db_members = [], db_workspaces = [],
     db_heads = [], db_snapshots = [], db_refs = [], db_wrapped = []\<rparr>"

datatype db_error = DbFault | DbConstraint

definition HEAD_KEEP :: nat where "HEAD_KEEP = 50"
definition HOUR_SECS :: int where "HOUR_SECS = 3600"
definition DAY_SECS :: int where "DAY_SECS = 24 * HOUR_SECS"
definition CHECKPOINT_KEEP_SECS :: int where "CHECKPOINT_KEEP_SECS = 7 * DAY_SECS"

text \<open>A transaction: its effect in full, or none.\<close>

definition with_tx ::
  "bool \<Rightarrow> (db \<Rightarrow> (db_error, 'a \<times> db) result) \<Rightarrow> db \<Rightarrow> (db_error, 'a) result \<times> db" where
  "with_tx fault f db =
     (case f db of
        Inl e \<Rightarrow> (Inl e, db)
      | Inr (v, db') \<Rightarrow> if fault then (Inl DbFault, db) else (Inr v, db'))"

section \<open>Users\<close>

text \<open>\<open>INSERT OR IGNORE\<close>: a row that breaks the key or a unique column is not inserted.\<close>

definition create_user :: "string \<Rightarrow> string \<Rightarrow> int \<Rightarrow> db \<Rightarrow> bool \<times> db" where
  "create_user name token created_at db =
     (if bt_contains (db_users db) name \<or> (\<exists>(_, u) \<in> set (db_users db). u_token u = token) then (False, db)
      else (True, db\<lparr>db_users := bt_insert name
        \<lparr>u_token = token, u_created_at = created_at, u_pubkey = None, u_ed_pubkey = None,
         u_key_sig = None\<rparr> (db_users db)\<rparr>))"

definition user_exists :: "string \<Rightarrow> db \<Rightarrow> bool" where
  "user_exists name db = bt_contains (db_users db) name"

definition user_token_digests :: "db \<Rightarrow> (string \<times> string) list" where
  "user_token_digests db = map (\<lambda>(n, u). (n, u_token u)) (db_users db)"

definition list_users :: "db \<Rightarrow> (string \<times> int) list" where
  "list_users db = map (\<lambda>(n, u). (n, u_created_at u)) (db_users db)"

definition set_user_key_bundle :: "string \<Rightarrow> string \<Rightarrow> string \<Rightarrow> string \<Rightarrow> db \<Rightarrow> bool \<times> db" where
  "set_user_key_bundle name x25519_hex ed25519_hex sig_hex db =
     (case bt_get (db_users db) name of
        None \<Rightarrow> (False, db)
      | Some u \<Rightarrow> (True, db\<lparr>db_users := bt_insert name
          (u\<lparr>u_pubkey := Some x25519_hex, u_ed_pubkey := Some ed25519_hex, u_key_sig := Some sig_hex\<rparr>)
          (db_users db)\<rparr>))"

record key_bundle =
  kb_pubkey :: "string option"
  kb_ed_pubkey :: "string option"
  kb_key_sig :: "string option"

definition user_key_bundle :: "string \<Rightarrow> db \<Rightarrow> key_bundle option" where
  "user_key_bundle name db =
     map_option (\<lambda>u. \<lparr>kb_pubkey = u_pubkey u, kb_ed_pubkey = u_ed_pubkey u, kb_key_sig = u_key_sig u\<rparr>)
       (bt_get (db_users db) name)"

section \<open>Teams\<close>

record team =
  tm_id :: string
  tm_name :: string
  tm_sync_env :: bool

definition team_of :: "string \<times> team_row \<Rightarrow> team" where
  "team_of r = \<lparr>tm_id = fst r, tm_name = t_name (snd r), tm_sync_env = t_sync_env (snd r)\<rparr>"

definition create_team :: "string \<Rightarrow> string \<Rightarrow> int \<Rightarrow> bool \<Rightarrow> db \<Rightarrow> bool \<times> db" where
  "create_team tid name created_at sync_env db =
     (if bt_contains (db_teams db) tid \<or> (\<exists>(_, t) \<in> set (db_teams db). t_name t = name) then (False, db)
      else (True, db\<lparr>db_teams := bt_insert tid
        \<lparr>t_name = name, t_created_at = created_at, t_sync_env = sync_env\<rparr> (db_teams db)\<rparr>))"

definition add_member :: "string \<Rightarrow> string \<Rightarrow> string \<Rightarrow> db \<Rightarrow> db" where
  "add_member tid user role db = db\<lparr>db_members := bt_insert (tid, user) role (db_members db)\<rparr>"

definition create_team_with_owner ::
  "bool \<Rightarrow> string \<Rightarrow> string \<Rightarrow> int \<Rightarrow> string \<Rightarrow> bool \<Rightarrow> db \<Rightarrow> (db_error, bool) result \<times> db" where
  "create_team_with_owner fault tid name created_at owner sync_env =
     with_tx fault (\<lambda>db.
       let (created, db) = create_team tid name created_at sync_env db
       in Inr (created, if created then add_member tid owner ''owner'' db else db))"

definition get_team :: "string \<Rightarrow> db \<Rightarrow> team option" where
  "get_team tid db = map_option (\<lambda>t. team_of (tid, t)) (bt_get (db_teams db) tid)"

definition get_team_by_name :: "string \<Rightarrow> db \<Rightarrow> team option" where
  "get_team_by_name name db =
     map_option team_of (find (\<lambda>(_, t). t_name t = name) (db_teams db))"

definition list_teams :: "db \<Rightarrow> team list" where
  "list_teams db = sort_key tm_name (map team_of (db_teams db))"

definition list_teams_for_user :: "string \<Rightarrow> db \<Rightarrow> team list" where
  "list_teams_for_user user db =
     sort_key tm_name (map team_of (filter (\<lambda>(tid, _). bt_contains (db_members db) (tid, user)) (db_teams db)))"

definition set_team_sync_env :: "string \<Rightarrow> bool \<Rightarrow> db \<Rightarrow> bool \<times> db" where
  "set_team_sync_env tid sync_env db =
     (case bt_get (db_teams db) tid of
        None \<Rightarrow> (False, db)
      | Some t \<Rightarrow> (True, db\<lparr>db_teams := bt_insert tid (t\<lparr>t_sync_env := sync_env\<rparr>) (db_teams db)\<rparr>))"

definition workspace_team_env_policy :: "string \<Rightarrow> db \<Rightarrow> (string \<times> bool) option" where
  "workspace_team_env_policy ws db =
     (case bt_get (db_workspaces db) ws of
        None \<Rightarrow> None
      | Some w \<Rightarrow>
          (case w_team_id w of
             None \<Rightarrow> None
           | Some tid \<Rightarrow> map_option (\<lambda>t. (t_name t, t_sync_env t)) (bt_get (db_teams db) tid)))"

text \<open>Removing a member deletes their wrapped keys in every workspace of the team.\<close>

definition in_team :: "string \<Rightarrow> db \<Rightarrow> string \<Rightarrow> bool" where
  "in_team tid db ws =
     (case bt_get (db_workspaces db) ws of None \<Rightarrow> False | Some w \<Rightarrow> w_team_id w = Some tid)"

definition remove_member :: "bool \<Rightarrow> string \<Rightarrow> string \<Rightarrow> db \<Rightarrow> (db_error, bool) result \<times> db" where
  "remove_member fault tid user =
     with_tx fault (\<lambda>db.
       let removed = bt_contains (db_members db) (tid, user);
           db = db\<lparr>db_members := bt_remove (tid, user) (db_members db)\<rparr>
       in Inr (removed,
           if removed
           then db\<lparr>db_wrapped := filter (\<lambda>kv. case kv of ((ws, u), _) \<Rightarrow> \<not> (u = user \<and> in_team tid db ws)) (db_wrapped db)\<rparr>
           else db))"

definition owner_count :: "string \<Rightarrow> db \<Rightarrow> nat" where
  "owner_count tid db = length (filter (\<lambda>((t, _), role). t = tid \<and> role = ''owner'') (db_members db))"

definition member_role :: "string \<Rightarrow> string \<Rightarrow> db \<Rightarrow> string option" where
  "member_role tid user db = bt_get (db_members db) (tid, user)"

record member_row =
  mr_user :: string
  mr_role :: string
  mr_pubkey :: "string option"
  mr_ed_pubkey :: "string option"
  mr_key_sig :: "string option"

definition list_members :: "string \<Rightarrow> db \<Rightarrow> member_row list" where
  "list_members tid db =
     map (\<lambda>((_, user), role).
            let u = bt_get (db_users db) user
            in \<lparr>mr_user = user, mr_role = role, mr_pubkey = Option.bind u u_pubkey,
                mr_ed_pubkey = Option.bind u u_ed_pubkey, mr_key_sig = Option.bind u u_key_sig\<rparr>)
       (filter (\<lambda>((t, _), _). t = tid) (db_members db))"

section \<open>Workspaces\<close>

datatype create_workspace_outcome = WsCreated | WsIdConflict | WsNameConflict
datatype attach_outcome = Attached | AttachNameConflict

text \<open>The unique index on \<open>(team_id, name)\<close>; a null team never collides.\<close>

definition name_taken :: "string option \<Rightarrow> string \<Rightarrow> db \<Rightarrow> bool" where
  "name_taken team name db =
     (team \<noteq> None \<and> (\<exists>(_, w) \<in> set (db_workspaces db). w_team_id w = team \<and> w_name w = name))"

definition create_workspace ::
  "string \<Rightarrow> string \<Rightarrow> string option \<Rightarrow> string option \<Rightarrow> bool \<Rightarrow> db \<Rightarrow> create_workspace_outcome \<times> db" where
  "create_workspace ws name owner team e2e db =
     (if \<not> bt_contains (db_workspaces db) ws \<and> \<not> name_taken team name db
      then (WsCreated, db\<lparr>db_workspaces := bt_insert ws
        \<lparr>w_name = name, w_owner = owner, w_team_id = team, w_e2e = e2e\<rparr> (db_workspaces db)\<rparr>)
      else if bt_contains (db_workspaces db) ws then (WsIdConflict, db)
      else (WsNameConflict, db))"

definition get_workspace :: "string \<Rightarrow> db \<Rightarrow> workspace_row option" where
  "get_workspace ws db = bt_get (db_workspaces db) ws"

definition find_workspace_in_team :: "string \<Rightarrow> string \<Rightarrow> db \<Rightarrow> (string \<times> workspace_row) option" where
  "find_workspace_in_team tid name db =
     find (\<lambda>(_, w). w_team_id w = Some tid \<and> w_name w = name) (db_workspaces db)"

definition attach_team :: "string \<Rightarrow> string \<Rightarrow> db \<Rightarrow> attach_outcome \<times> db" where
  "attach_team ws tid db =
     (case bt_get (db_workspaces db) ws of
        None \<Rightarrow> (Attached, db)
      | Some w \<Rightarrow>
          if \<exists>(i, v) \<in> set (db_workspaces db). w_team_id v = Some tid \<and> i \<noteq> ws \<and> w_name v = w_name w
          then (AttachNameConflict, db)
          else (Attached, db\<lparr>db_workspaces := bt_insert ws (w\<lparr>w_team_id := Some tid\<rparr>) (db_workspaces db)\<rparr>))"

section \<open>Heads and snapshots\<close>

definition rows_of :: "string \<Rightarrow> (string \<times> int, 'v) btree \<Rightarrow> (int \<times> 'v) list" where
  "rows_of ws m = map (\<lambda>((_, k), v). (k, v)) (filter (\<lambda>kv. fst (fst kv) = ws) m)"

definition current_head :: "string \<Rightarrow> db \<Rightarrow> (int \<times> head_row) option" where
  "current_head ws db =
     (case rev (rows_of ws (db_heads db)) of [] \<Rightarrow> None | r # _ \<Rightarrow> Some r)"

definition insert_refs :: "string \<Rightarrow> string list \<Rightarrow> (string \<times> string, unit) btree \<Rightarrow> (string \<times> string, unit) btree" where
  "insert_refs ws hs m = fold (\<lambda>h. bt_insert (ws, h) ()) hs m"

definition insert_chunk_refs :: "string \<Rightarrow> string list \<Rightarrow> db \<Rightarrow> db" where
  "insert_chunk_refs ws hashes db = db\<lparr>db_refs := insert_refs ws hashes (db_refs db)\<rparr>"

definition insert_head ::
  "bool \<Rightarrow> string \<Rightarrow> int \<Rightarrow> string \<Rightarrow> string \<Rightarrow> string list \<Rightarrow> db \<Rightarrow> (db_error, unit) result \<times> db" where
  "insert_head fault ws seq hash manifest refs =
     with_tx fault (\<lambda>db.
       if bt_contains (db_heads db) (ws, seq) then Inl DbConstraint
       else
         let heads = bt_insert (ws, seq) \<lparr>h_hash = hash, h_manifest = manifest\<rparr> (db_heads db);
             kept = take HEAD_KEEP (rev (map fst (rows_of ws heads)));
             db = db\<lparr>db_heads := filter (\<lambda>kv. \<not> (fst (fst kv) = ws \<and> snd (fst kv) \<notin> set kept)) heads\<rparr>
         in Inr ((), insert_chunk_refs ws refs db))"

text \<open>The retention decision: one window per trailing hour, then per trailing day.\<close>

definition bucket :: "int \<Rightarrow> int \<times> int" where
  "bucket age = (if age < DAY_SECS then (1, age div HOUR_SECS) else (2, age div DAY_SECS))"

fun prune_loop ::
  "int \<Rightarrow> (int \<times> int, int \<times> int) btree \<Rightarrow> int list \<Rightarrow> (int \<times> int) list \<Rightarrow> int list" where
  "prune_loop now newest prune [] = prune"
| "prune_loop now newest prune ((sid, created_at) # rest) =
     (let age = now - created_at in
      if age < HOUR_SECS then prune_loop now newest prune rest
      else if CHECKPOINT_KEEP_SECS \<le> age then prune_loop now newest (prune @ [sid]) rest
      else
        (let b = bucket age in
         case bt_get newest b of
           Some best \<Rightarrow>
             if (created_at, sid) \<le> best then prune_loop now newest (prune @ [sid]) rest
             else prune_loop now (bt_insert b (created_at, sid) newest) (prune @ [snd best]) rest
         | None \<Rightarrow> prune_loop now (bt_insert b (created_at, sid) newest) prune rest))"

definition checkpoints_to_prune :: "int \<Rightarrow> (int \<times> int) list \<Rightarrow> int list" where
  "checkpoints_to_prune now checkpoints = sort (prune_loop now [] [] checkpoints)"

record new_snapshot =
  ns_name :: "string option"
  ns_kind :: string
  ns_device :: string
  ns_created_at :: int
  ns_manifest :: string
  ns_refs :: "string list"

definition next_snapshot_id :: "string \<Rightarrow> db \<Rightarrow> int" where
  "next_snapshot_id ws db =
     (case rows_of ws (db_snapshots db) of [] \<Rightarrow> 1 | rs \<Rightarrow> Max (set (map fst rs)) + 1)"

definition insert_snapshot :: "bool \<Rightarrow> string \<Rightarrow> new_snapshot \<Rightarrow> db \<Rightarrow> (db_error, int) result \<times> db" where
  "insert_snapshot fault ws sn =
     with_tx fault (\<lambda>db.
       let sid = next_snapshot_id ws db;
           row = \<lparr>sn_name = ns_name sn, sn_kind = ns_kind sn, sn_device = ns_device sn,
                  sn_created_at = ns_created_at sn, sn_manifest = ns_manifest sn\<rparr>;
           db = insert_chunk_refs ws (ns_refs sn)
                  (db\<lparr>db_snapshots := bt_insert (ws, sid) row (db_snapshots db)\<rparr>)
       in Inr (sid,
            if ns_kind sn = ''checkpoint'' then
              (let checkpoints = map (\<lambda>(i, r). (i, sn_created_at r))
                     (filter (\<lambda>(_, r). sn_kind r = ''checkpoint'') (rows_of ws (db_snapshots db)))
               in db\<lparr>db_snapshots :=
                    fold (\<lambda>doomed. bt_remove (ws, doomed)) (checkpoints_to_prune (ns_created_at sn) checkpoints)
                      (db_snapshots db)\<rparr>)
            else db))"

record snapshot_meta =
  sm_id :: int
  sm_name :: "string option"
  sm_kind :: string
  sm_device :: string
  sm_created_at :: int

definition list_snapshots :: "string \<Rightarrow> db \<Rightarrow> snapshot_meta list" where
  "list_snapshots ws db =
     rev (map (\<lambda>(i, r). \<lparr>sm_id = i, sm_name = sn_name r, sm_kind = sn_kind r, sm_device = sn_device r,
                       sm_created_at = sn_created_at r\<rparr>) (rows_of ws (db_snapshots db)))"

definition get_snapshot :: "string \<Rightarrow> int \<Rightarrow> db \<Rightarrow> snapshot_row option" where
  "get_snapshot ws sid db = bt_get (db_snapshots db) (ws, sid)"

section \<open>Garbage collection and visibility\<close>

definition list_workspaces_for_gc :: "db \<Rightarrow> (string \<times> bool) list" where
  "list_workspaces_for_gc db = map (\<lambda>(ws, w). (ws, w_e2e w)) (db_workspaces db)"

definition retained_head_manifests :: "string \<Rightarrow> db \<Rightarrow> string list" where
  "retained_head_manifests ws db = map (\<lambda>(_, h). h_manifest h) (rows_of ws (db_heads db))"

definition snapshot_manifests :: "string \<Rightarrow> db \<Rightarrow> string list" where
  "snapshot_manifests ws db = map (\<lambda>(_, s). sn_manifest s) (rows_of ws (db_snapshots db))"

definition refs_of :: "string \<Rightarrow> (string \<times> string, unit) btree \<Rightarrow> string list" where
  "refs_of ws refs = map (snd \<circ> fst) (filter (\<lambda>kv. fst (fst kv) = ws) refs)"

definition rebuild_one ::
  "string \<times> string list \<Rightarrow> nat \<times> (string \<times> string, unit) btree \<Rightarrow> nat \<times> (string \<times> string, unit) btree" where
  "rebuild_one entry acc =
     (case (entry, acc) of ((ws, keep), (deleted, refs)) \<Rightarrow>
        (let gone = filter (\<lambda>h. h \<notin> set keep) (refs_of ws refs)
         in (deleted + length gone, insert_refs ws keep (fold (\<lambda>h. bt_remove (ws, h)) gone refs))))"

definition gc_rebuild_refs :: "bool \<Rightarrow> (string, string list) btree \<Rightarrow> db \<Rightarrow> (db_error, nat) result \<times> db" where
  "gc_rebuild_refs fault live =
     with_tx fault (\<lambda>db.
       let (deleted, refs) = fold rebuild_one live (0, db_refs db)
       in Inr (deleted, db\<lparr>db_refs := refs\<rparr>))"

definition hash_has_refs :: "string \<Rightarrow> db \<Rightarrow> bool" where
  "hash_has_refs hash db = (\<exists>kv \<in> set (db_refs db). snd (fst kv) = hash)"

text \<open>The joins of the visibility query.\<close>

definition chunk_visible_to :: "string \<Rightarrow> string \<Rightarrow> db \<Rightarrow> bool" where
  "chunk_visible_to hash user db =
     (\<exists>kv \<in> set (db_refs db). snd (fst kv) = hash \<and>
        (case bt_get (db_workspaces db) (fst (fst kv)) of
           None \<Rightarrow> False
         | Some w \<Rightarrow>
             w_owner w = Some user
             \<or> (case w_team_id w of None \<Rightarrow> False | Some tid \<Rightarrow> bt_contains (db_members db) (tid, user))))"

section \<open>Wrapped keys\<close>

definition db_put_wrapped_key :: "string \<Rightarrow> string \<Rightarrow> string \<Rightarrow> db \<Rightarrow> db" where
  "db_put_wrapped_key ws user blob db = db\<lparr>db_wrapped := bt_insert (ws, user) blob (db_wrapped db)\<rparr>"

definition db_get_wrapped_key :: "string \<Rightarrow> string \<Rightarrow> db \<Rightarrow> string option" where
  "db_get_wrapped_key ws user db = bt_get (db_wrapped db) (ws, user)"

definition db_delete_wrapped_key :: "string \<Rightarrow> string \<Rightarrow> db \<Rightarrow> db" where
  "db_delete_wrapped_key ws user db = db\<lparr>db_wrapped := bt_remove (ws, user) (db_wrapped db)\<rparr>"

section \<open>Rows of a workspace\<close>

lemma with_tx_err: "with_tx fault f db = (Inl e, db') \<Longrightarrow> db' = db"
  by (auto simp: with_tx_def split: sum.splits prod.splits if_splits)

lemma with_tx_ok:
  "with_tx fault f db = (Inr v, db') \<longleftrightarrow> \<not> fault \<and> f db = Inr (v, db')"
  by (auto simp: with_tx_def split: sum.splits prod.splits if_splits)

lemma rows_of_Nil [simp]: "rows_of ws [] = []"
  by (simp add: rows_of_def)

lemma rows_of_Cons:
  "rows_of ws (kv # m) = (if fst (fst kv) = ws then (snd (fst kv), snd kv) # rows_of ws m else rows_of ws m)"
  by (simp add: rows_of_def split: prod.splits)

lemma get_rows_of [simp, bt_simps]: "bt_get (rows_of ws m) k = bt_get m (ws, k)"
  by (induction m) (auto simp: rows_of_Cons)

lemma fst_set_rows_of: "k \<in> fst ` set (rows_of ws m) \<longleftrightarrow> (ws, k) \<in> fst ` set m"
  by (induction m) (auto simp: rows_of_Cons image_iff)

lemma wf_rows_of [simp, intro]: "bt_wf m \<Longrightarrow> bt_wf (rows_of ws m)"
proof (induction m)
  case (Cons kv m)
  obtain w k v where kv: "kv = ((w, k), v)" by (metis prod.exhaust)
  have "\<forall>k'\<in>fst ` set (rows_of ws m). k < k'" if "w = ws"
  proof
    fix k' assume "k' \<in> fst ` set (rows_of ws m)"
    then have "(ws, k') \<in> fst ` set m"
      by (simp add: fst_set_rows_of)
    then have "(w, k) < (ws, k')"
      using Cons.prems unfolding kv bt_wf_Cons by blast
    then show "k < k'"
      using that by (simp add: less_prod_simp)
  qed
  then show ?case
    using Cons unfolding kv by (simp add: rows_of_Cons bt_wf_Cons)
qed simp

lemma rows_of_insert [bt_simps]:
  assumes "bt_wf m"
  shows "rows_of ws (bt_insert (w, k) v m) = (if w = ws then bt_insert k v (rows_of ws m) else rows_of ws m)"
  by (intro bt_ext) (use assms in auto)

lemma rows_of_filter:
  "rows_of ws (filter (\<lambda>kv. P (fst kv)) m) = filter (\<lambda>kv. P (ws, fst kv)) (rows_of ws m)"
  by (induction m) (auto simp: rows_of_Cons)

lemma filter_in_drop:
  "distinct xs \<Longrightarrow> filter (\<lambda>x. x \<in> set (drop n xs)) xs = drop n xs"
proof (induction xs arbitrary: n)
  case (Cons x xs)
  show ?case
  proof (cases n)
    case 0
    have "filter (\<lambda>y. y \<in> set (x # xs)) (x # xs) = x # xs"
      by (rule filter_True) simp
    then show ?thesis
      using 0 by simp
  next
    case (Suc k)
    have "x \<notin> set (drop k xs)"
      using Cons.prems in_set_dropD by fastforce
    then show ?thesis
      using Cons Suc by simp
  qed
qed simp

lemma filter_fst_in_drop:
  assumes "bt_wf m"
  shows "filter (\<lambda>kv. fst kv \<in> set (drop n (map fst m))) m = drop n m"
proof -
  have "filter (\<lambda>kv. fst kv \<in> set (drop n (map fst m))) m = filter (\<lambda>kv. kv \<in> set (drop n m)) m"
  proof (rule filter_cong [OF refl])
    fix kv assume kv: "kv \<in> set m"
    have "inj_on fst (set m)"
      using assms bt_wf_distinct distinct_map by blast
    then have "kv' = kv" if "kv' \<in> set (drop n m)" "fst kv' = fst kv" for kv'
      using that kv by (metis in_set_dropD inj_onD)
    then show "fst kv \<in> set (drop n (map fst m)) \<longleftrightarrow> kv \<in> set (drop n m)"
      unfolding drop_map set_map by auto
  qed
  also have "\<dots> = drop n m"
    using assms bt_wf_distinct [of m] filter_in_drop [of m n] by (simp add: distinct_map)
  finally show ?thesis .
qed

lemma set_take_rev: "set (take n (rev xs)) = set (drop (length xs - n) xs)"
  by (simp add: take_rev)

text \<open>The newest rows: what \<open>ORDER BY seq DESC LIMIT n\<close> keeps.\<close>

definition newest_rows :: "nat \<Rightarrow> 'a list \<Rightarrow> 'a list" where
  "newest_rows n xs = drop (length xs - n) xs"

lemma insert_refs_get:
  "bt_get (insert_refs ws hs m) k = (if fst k = ws \<and> snd k \<in> set hs then Some () else bt_get m k)"
  unfolding insert_refs_def by (induction hs arbitrary: m) (auto simp: prod_eq_iff)

lemma insert_refs_wf [simp]: "bt_wf m \<Longrightarrow> bt_wf (insert_refs ws hs m)"
  unfolding insert_refs_def by (induction hs arbitrary: m) auto

lemma current_head_newest:
  assumes "bt_wf (db_heads db)"
  shows "current_head ws db = Some (s, h) \<longleftrightarrow>
    bt_get (db_heads db) (ws, s) = Some h \<and> (\<forall>t. bt_get (db_heads db) (ws, t) \<noteq> None \<longrightarrow> t \<le> s)"
proof (cases "rows_of ws (db_heads db)" rule: rev_cases)
  case Nil
  then have "bt_get (db_heads db) (ws, s) = None"
    using get_rows_of [of ws "db_heads db" s] by simp
  then show ?thesis
    using Nil by (simp add: current_head_def)
next
  case (snoc rs r)
  obtain t g where r: "r = (t, g)" by fastforce
  have wf: "bt_wf (rs @ [(t, g)])"
    using wf_rows_of [OF assms, of ws] snoc r by simp
  then have lt: "\<forall>k \<in> fst ` set rs. k < t"
    by (simp add: bt_wf_def sorted_wrt_append)
  have get: "bt_get (db_heads db) (ws, k) = bt_get (rs @ [(t, g)]) k" for k
    using get_rows_of [of ws "db_heads db" k] snoc r by simp
  have top: "bt_get (db_heads db) (ws, t) = Some g"
    unfolding get bt_get_in_set [OF wf] by simp
  have le: "k \<le> t" if some: "bt_get (db_heads db) (ws, k) \<noteq> None" for k
  proof -
    obtain v where "bt_get (rs @ [(t, g)]) k = Some v"
      using some unfolding get by blast
    then have "(k, v) \<in> set (rs @ [(t, g)])"
      by (rule map_of_SomeD)
    then show ?thesis
      using lt by fastforce
  qed
  have "current_head ws db = Some (t, g)"
    using snoc r by (simp add: current_head_def)
  moreover have "s = t \<and> h = g"
    if "bt_get (db_heads db) (ws, s) = Some h" "\<forall>t. bt_get (db_heads db) (ws, t) \<noteq> None \<longrightarrow> t \<le> s"
  proof -
    have "s = t"
      using le [of s] that top by (metis antisym option.distinct(1))
    then show ?thesis
      using that(1) top by simp
  qed
  ultimately show ?thesis
    using top le by (metis option.inject prod.inject)
qed

section \<open>Committing a head\<close>

lemma insert_head_ok:
  assumes "insert_head fault ws seq hash manifest refs db = (Inr u, db')" "bt_wf (db_heads db)"
  defines "rows \<equiv> bt_insert seq \<lparr>h_hash = hash, h_manifest = manifest\<rparr> (rows_of ws (db_heads db))"
  shows "rows_of w (db_heads db') =
      (if w = ws then newest_rows HEAD_KEEP rows else rows_of w (db_heads db))"
    and "db_refs db' = insert_refs ws refs (db_refs db)"
    and "bt_wf (db_heads db')"
    and "db' = db\<lparr>db_heads := db_heads db', db_refs := db_refs db'\<rparr>"
    and "bt_get (db_heads db) (ws, seq) = None"
proof -
  define heads where "heads = bt_insert (ws, seq) \<lparr>h_hash = hash, h_manifest = manifest\<rparr> (db_heads db)"
  define kept where "kept = take HEAD_KEEP (rev (map fst (rows_of ws heads)))"
  define P where "P = (\<lambda>k :: string \<times> int. \<not> (fst k = ws \<and> snd k \<notin> set kept))"
  have db': "db' = insert_chunk_refs ws refs (db\<lparr>db_heads := filter (\<lambda>kv. P (fst kv)) heads\<rparr>)"
    and new: "\<not> bt_contains (db_heads db) (ws, seq)"
    using assms(1) unfolding insert_head_def with_tx_ok
    by (auto simp: Let_def heads_def kept_def P_def split: if_splits)
  have h: "db_heads db' = filter (\<lambda>kv. P (fst kv)) heads"
    by (simp add: db' insert_chunk_refs_def)
  have wf: "bt_wf heads"
    using assms(2) by (simp add: heads_def)
  show "bt_wf (db_heads db')"
    unfolding h using wf by blast
  show "db_refs db' = insert_refs ws refs (db_refs db)"
    and "db' = db\<lparr>db_heads := db_heads db', db_refs := db_refs db'\<rparr>"
    by (simp_all add: db' insert_chunk_refs_def)
  show "bt_get (db_heads db) (ws, seq) = None"
    using new by (simp add: bt_contains_def)
  have rows: "rows_of ws heads = rows"
    by (simp add: heads_def rows_def rows_of_insert assms(2))
  have kept: "set kept = set (drop (length rows - HEAD_KEEP) (map fst rows))"
    unfolding kept_def rows using set_take_rev [of HEAD_KEEP "map fst rows"] by simp
  show "rows_of w (db_heads db') = (if w = ws then newest_rows HEAD_KEEP rows else rows_of w (db_heads db))"
  proof (cases "w = ws")
    case True
    have "rows_of ws (db_heads db') = filter (\<lambda>kv. fst kv \<in> set kept) rows"
      unfolding h rows_of_filter rows by (simp add: P_def)
    also have "\<dots> = drop (length rows - HEAD_KEEP) rows"
      unfolding kept using filter_fst_in_drop wf_rows_of [OF wf, of ws] rows by metis
    finally show ?thesis
      using True by (simp add: newest_rows_def)
  next
    case False
    then have "rows_of w (db_heads db') = rows_of w heads"
      unfolding h rows_of_filter by (simp add: P_def)
    then show ?thesis
      using False assms(2) by (simp add: heads_def rows_of_insert)
  qed
qed

lemma bt_insert_last:
  "bt_wf m \<Longrightarrow> \<forall>k\<in>fst ` set m. k < s \<Longrightarrow> bt_insert s v m = m @ [(s, v)]"
  by (induction s v m rule: bt_insert.induct) (auto simp: bt_wf_Cons)

text \<open>A head commit is atomic and keeps the newest 50 heads: when it succeeds above
  every stored sequence number, the head it wrote is the current one, the log of its
  workspace is the last 50 of the old log with the new row, every chunk of the commit
  is referenced, and every other workspace, table and reference is as before; when it
  fails, nothing has changed.\<close>

theorem insert_head_exact:
  assumes "bt_wf (db_heads db)" "insert_head fault ws seq hash manifest refs db = (r, db')"
  shows "(r = Inr () \<and> (\<forall>t. bt_get (db_heads db) (ws, t) \<noteq> None \<longrightarrow> t < seq) \<longrightarrow>
       current_head ws db' = Some (seq, \<lparr>h_hash = hash, h_manifest = manifest\<rparr>)
       \<and> rows_of ws (db_heads db') =
           newest_rows HEAD_KEEP (rows_of ws (db_heads db) @ [(seq, \<lparr>h_hash = hash, h_manifest = manifest\<rparr>)])
       \<and> (\<forall>w. w \<noteq> ws \<longrightarrow> rows_of w (db_heads db') = rows_of w (db_heads db))
       \<and> (\<forall>w h. bt_contains (db_refs db') (w, h)
            \<longleftrightarrow> bt_contains (db_refs db) (w, h) \<or> w = ws \<and> h \<in> set refs)
       \<and> db' = db\<lparr>db_heads := db_heads db', db_refs := db_refs db'\<rparr>)
    \<and> (\<forall>e. r = Inl e \<longrightarrow> db' = db)"
proof -
  let ?row = "\<lparr>h_hash = hash, h_manifest = manifest\<rparr>"
  have good: "current_head ws db' = Some (seq, ?row)
       \<and> rows_of ws (db_heads db') = newest_rows HEAD_KEEP (rows_of ws (db_heads db) @ [(seq, ?row)])
       \<and> (\<forall>w. w \<noteq> ws \<longrightarrow> rows_of w (db_heads db') = rows_of w (db_heads db))
       \<and> (\<forall>w h. bt_contains (db_refs db') (w, h)
            \<longleftrightarrow> bt_contains (db_refs db) (w, h) \<or> w = ws \<and> h \<in> set refs)
       \<and> db' = db\<lparr>db_heads := db_heads db', db_refs := db_refs db'\<rparr>"
    if r: "r = Inr ()" and above: "\<forall>t. bt_get (db_heads db) (ws, t) \<noteq> None \<longrightarrow> t < seq"
  proof -
    have ih: "insert_head fault ws seq hash manifest refs db = (Inr (), db')"
      using assms(2) r by simp
    note ok = insert_head_ok [OF ih assms(1)]
    have "\<forall>k\<in>fst ` set (rows_of ws (db_heads db)). k < seq"
      using above by (simp add: fst_set_rows_of dom_map_of_conv_image_fst [symmetric] domIff)
    then have app: "bt_insert seq ?row (rows_of ws (db_heads db)) = rows_of ws (db_heads db) @ [(seq, ?row)]"
      using assms(1) by (intro bt_insert_last) auto
    have rows: "rows_of ws (db_heads db') = newest_rows HEAD_KEEP (rows_of ws (db_heads db) @ [(seq, ?row)])"
      using ok(1) [of ws] app by simp
    have "\<exists>zs. newest_rows HEAD_KEEP (rows_of ws (db_heads db) @ [(seq, ?row)]) = zs @ [(seq, ?row)]"
      by (simp add: newest_rows_def HEAD_KEEP_def)
    then have "current_head ws db' = Some (seq, ?row)"
      using rows by (auto simp: current_head_def)
    then show ?thesis
      using rows ok by (auto simp: bt_contains_def insert_refs_get)
  qed
  then show ?thesis
    using assms(2) by (auto simp: insert_head_def dest: with_tx_err)
qed

lemma insert_head_exact_witness:
  "current_head ''w'' (snd (insert_head False ''w'' 2 ''h2'' ''m2'' [''c'']
     (snd (insert_head False ''w'' 1 ''h1'' ''m1'' [] empty_db)))) = Some (2, \<lparr>h_hash = ''h2'', h_manifest = ''m2''\<rparr>)"
proof -
  let ?db = "snd (insert_head False ''w'' 1 ''h1'' ''m1'' [] empty_db)"
  let ?db' = "snd (insert_head False ''w'' 2 ''h2'' ''m2'' [''c''] ?db)"
  have db: "db_heads ?db = [((''w'', 1), \<lparr>h_hash = ''h1'', h_manifest = ''m1''\<rparr>)]"
    by code_simp
  have wf: "bt_wf (db_heads ?db)"
    unfolding db by (simp add: bt_wf_Cons)
  have ih: "insert_head False ''w'' 2 ''h2'' ''m2'' [''c''] ?db = (Inr (), ?db')"
    by code_simp
  have "\<forall>t. bt_get (db_heads ?db) (''w'', t) \<noteq> None \<longrightarrow> t < 2"
    unfolding db by simp
  then show ?thesis
    using insert_head_exact [OF wf ih] by blast
qed

section \<open>Checkpoint retention\<close>

definition too_old :: "int \<Rightarrow> int \<times> int \<Rightarrow> bool" where
  "too_old now c = (CHECKPOINT_KEEP_SECS \<le> now - snd c)"

definition windowed :: "int \<Rightarrow> int \<times> int \<Rightarrow> bool" where
  "windowed now c = (HOUR_SECS \<le> now - snd c \<and> now - snd c < CHECKPOINT_KEEP_SECS)"

text \<open>Beaten: a later checkpoint (by time, then id) falls into the same window.\<close>

definition beats :: "int \<Rightarrow> int \<times> int \<Rightarrow> int \<times> int \<Rightarrow> bool" where
  "beats now d c = (windowed now c \<and> windowed now d \<and> bucket (now - snd c) = bucket (now - snd d)
     \<and> (snd c, fst c) < (snd d, fst d))"

definition doomed :: "int \<Rightarrow> (int \<times> int) list \<Rightarrow> int \<times> int \<Rightarrow> bool" where
  "doomed now cs c = (too_old now c \<or> (\<exists>d\<in>set cs. beats now d c))"

text \<open>What the map of windows holds after a prefix: the best of each window.\<close>

definition in_window :: "int \<Rightarrow> int \<times> int \<Rightarrow> int \<times> int \<Rightarrow> bool" where
  "in_window now b c = (windowed now c \<and> bucket (now - snd c) = b)"

fun newest_at :: "int \<Rightarrow> (int \<times> int) list \<Rightarrow> int \<times> int \<Rightarrow> (int \<times> int) option \<Rightarrow> bool" where
  "newest_at now cs b None = (\<forall>c\<in>set cs. \<not> in_window now b c)"
| "newest_at now cs b (Some (t, i)) =
     ((i, t) \<in> set cs \<and> in_window now b (i, t)
      \<and> (\<forall>c\<in>set cs. in_window now b c \<longrightarrow> (snd c, fst c) \<le> (t, i)))"

definition doomed_set :: "int \<Rightarrow> (int \<times> int) list \<Rightarrow> (int \<times> int) set" where
  "doomed_set now cs = {c \<in> set cs. doomed now cs c}"

definition prune_inv ::
  "int \<Rightarrow> (int \<times> int) list \<Rightarrow> (int \<times> int, int \<times> int) btree \<Rightarrow> int list \<Rightarrow> bool" where
  "prune_inv now cs newest prune \<longleftrightarrow>
     set prune = fst ` doomed_set now cs \<and> (\<forall>b. newest_at now cs b (bt_get newest b))"

lemma beats_alt:
  "beats now d c \<longleftrightarrow> in_window now (bucket (now - snd c)) c \<and> in_window now (bucket (now - snd c)) d
     \<and> (snd c, fst c) < (snd d, fst d)"
  by (auto simp: beats_def in_window_def)

lemma prune_inv_at: "prune_inv now cs newest prune \<Longrightarrow> newest_at now cs b (bt_get newest b)"
  unfolding prune_inv_def by blast

lemma newest_at_other:
  assumes "newest_at now cs b r" "\<not> in_window now b c"
  shows "newest_at now (cs @ [c]) b r"
  using assms by (induction now cs b r rule: newest_at.induct) auto

lemma doomed_set_unwindowed:
  assumes "\<not> windowed now c"
  shows "doomed_set now (cs @ [c]) = doomed_set now cs \<union> (if too_old now c then {c} else {})"
  using assms by (auto simp: doomed_set_def doomed_def beats_def)

lemma prune_inv_unwindowed:
  assumes "prune_inv now cs newest prune" "\<not> windowed now c"
  shows "prune_inv now (cs @ [c]) newest (if too_old now c then prune @ [fst c] else prune)"
proof -
  have "newest_at now (cs @ [c]) b (bt_get newest b)" for b
    by (rule newest_at_other [OF prune_inv_at [OF assms(1)]]) (simp add: in_window_def assms(2))
  then show ?thesis
    using assms doomed_set_unwindowed [OF assms(2), of cs] by (simp add: prune_inv_def)
qed

lemma prune_inv_beaten:
  assumes inv: "prune_inv now cs newest prune" and w: "in_window now b c"
    and get: "bt_get newest b = Some (t, i)" and le: "(snd c, fst c) \<le> (t, i)" and new: "c \<notin> set cs"
  shows "prune_inv now (cs @ [c]) newest (prune @ [fst c])"
proof -
  have best: "(i, t) \<in> set cs" "in_window now b (i, t)"
    using inv get unfolding prune_inv_def by (metis newest_at.simps(2))+
  have "(snd c, fst c) \<noteq> (t, i)"
    using best(1) new by (metis prod.collapse prod.inject)
  then have "beats now (i, t) c"
    using best(2) w le by (auto simp: beats_alt in_window_def)
  moreover have "beats now (i, t) d" if "beats now c d" for d
    using that best(2) w le unfolding beats_alt in_window_def by (auto intro: less_le_trans)
  ultimately have "doomed_set now (cs @ [c]) = insert c (doomed_set now cs)"
    using best(1) by (auto simp: doomed_set_def doomed_def)
  moreover have "newest_at now (cs @ [c]) b' (bt_get newest b')" for b'
  proof (cases "b' = b")
    case True
    have "newest_at now cs b (Some (t, i))"
      using inv get unfolding prune_inv_def by metis
    then show ?thesis
      using True get le by simp
  next
    case False
    then show ?thesis
      using w by (intro newest_at_other [OF prune_inv_at [OF inv]]) (auto simp: in_window_def)
  qed
  ultimately show ?thesis
    using inv by (simp add: prune_inv_def)
qed

lemma prune_inv_wins:
  assumes inv: "prune_inv now cs newest prune" and w: "in_window now b c"
    and get: "bt_get newest b = Some (t, i)" and less: "(t, i) < (snd c, fst c)"
  shows "prune_inv now (cs @ [c]) (bt_insert b (snd c, fst c) newest) (prune @ [i])"
proof -
  have at: "newest_at now cs b (Some (t, i))"
    using inv get unfolding prune_inv_def by metis
  then have best: "(i, t) \<in> set cs" "in_window now b (i, t)"
      and top: "\<And>d. d \<in> set cs \<Longrightarrow> in_window now b d \<Longrightarrow> (snd d, fst d) \<le> (t, i)"
    by simp_all
  have bc: "bucket (now - snd c) = b"
    using w by (simp add: in_window_def)
  have "\<not> beats now d c" if "d \<in> set (cs @ [c])" for d
  proof
    assume b: "beats now d c"
    then have d: "in_window now b d" "(snd c, fst c) < (snd d, fst d)"
      unfolding beats_alt bc by blast+
    then have "d \<in> set cs"
      using that by auto
    then have "(snd d, fst d) \<le> (t, i)"
      using top d(1) by blast
    then show False
      using d(2) less by (meson leD less_trans)
  qed
  then have new: "\<not> doomed now (cs @ [c]) c"
    using w unfolding doomed_def by (auto simp: in_window_def windowed_def too_old_def)
  have gone: "beats now c (i, t)"
    using best(2) w less by (auto simp: beats_alt in_window_def)
  have same: "d = (i, t) \<or> beats now (i, t) d" if "beats now c d" "d \<in> set cs" for d
  proof -
    have d: "in_window now b d" "bucket (now - snd d) = b"
      using that(1) w unfolding beats_alt by (auto simp: in_window_def)
    have "(snd d, fst d) = (t, i) \<or> (snd d, fst d) < (t, i)"
      using top [OF that(2) d(1)] by (meson le_neq_trans)
    then show ?thesis
      using best(2) d unfolding beats_alt by (cases d) auto
  qed
  have "doomed_set now (cs @ [c]) = insert (i, t) (doomed_set now cs)"
    using best(1) gone same new by (auto simp: doomed_set_def doomed_def)
  moreover have "newest_at now (cs @ [c]) b' (bt_get (bt_insert b (snd c, fst c) newest) b')" for b'
  proof (cases "b' = b")
    case True
    have "(snd d, fst d) \<le> (snd c, fst c)" if "d \<in> set cs" "in_window now b d" for d
      using top [OF that] less by (meson le_less_trans less_imp_le)
    then show ?thesis
      using w True by auto
  next
    case False
    then have "newest_at now (cs @ [c]) b' (bt_get newest b')"
      using w by (intro newest_at_other [OF prune_inv_at [OF inv]]) (auto simp: in_window_def)
    then show ?thesis
      using False by simp
  qed
  ultimately show ?thesis
    using inv by (simp add: prune_inv_def)
qed

lemma prune_inv_first:
  assumes inv: "prune_inv now cs newest prune" and w: "in_window now b c" and get: "bt_get newest b = None"
  shows "prune_inv now (cs @ [c]) (bt_insert b (snd c, fst c) newest) prune"
proof -
  have none: "\<And>d. d \<in> set cs \<Longrightarrow> \<not> in_window now b d"
    using inv get unfolding prune_inv_def by (metis newest_at.simps(1))
  have bc: "bucket (now - snd c) = b"
    using w by (simp add: in_window_def)
  have "\<not> beats now d c" if "d \<in> set (cs @ [c])" for d
    using that none [of d] bc by (auto simp: beats_alt)
  moreover have "\<not> beats now c d" if "d \<in> set cs" for d
    using none [OF that] w unfolding beats_alt by (auto simp: in_window_def)
  moreover have "\<not> too_old now c"
    using w by (simp add: in_window_def windowed_def too_old_def)
  ultimately have "doomed_set now (cs @ [c]) = doomed_set now cs"
    by (auto simp: doomed_set_def doomed_def)
  moreover have "newest_at now (cs @ [c]) b' (bt_get (bt_insert b (snd c, fst c) newest) b')" for b'
  proof (cases "b' = b")
    case True
    then show ?thesis
      using w none by auto
  next
    case False
    then have "newest_at now (cs @ [c]) b' (bt_get newest b')"
      using w by (intro newest_at_other [OF prune_inv_at [OF inv]]) (auto simp: in_window_def)
    then show ?thesis
      using False by simp
  qed
  ultimately show ?thesis
    using inv by (simp add: prune_inv_def)
qed

lemma prune_loop_inv:
  assumes "prune_inv now cs newest prune" "distinct (cs @ rest)"
  shows "set (prune_loop now newest prune rest) = fst ` doomed_set now (cs @ rest)"
  using assms
proof (induction now newest prune rest arbitrary: cs rule: prune_loop.induct)
  case (1 now newest prune)
  then show ?case by (simp add: prune_inv_def)
next
  case (2 now newest prune sid t rest)
  let ?c = "(sid, t)" and ?b = "bucket (now - t)"
  have dist: "distinct ((cs @ [?c]) @ rest)" and new: "?c \<notin> set cs"
    using "2.prems"(2) by auto
  consider (young) "now - t < HOUR_SECS" | (old) "CHECKPOINT_KEEP_SECS \<le> now - t" "\<not> now - t < HOUR_SECS"
    | (win) "\<not> now - t < HOUR_SECS" "\<not> CHECKPOINT_KEEP_SECS \<le> now - t"
    by linarith
  then show ?case
  proof cases
    case young
    then have "prune_inv now (cs @ [?c]) newest prune"
      using prune_inv_unwindowed [OF "2.prems"(1), of ?c]
      by (simp add: windowed_def too_old_def CHECKPOINT_KEEP_SECS_def DAY_SECS_def HOUR_SECS_def)
    then show ?thesis
      using "2.IH"(1) [OF refl young _ dist] young by (simp add: Let_def)
  next
    case old
    then have "prune_inv now (cs @ [?c]) newest (prune @ [sid])"
      using prune_inv_unwindowed [OF "2.prems"(1), of ?c] by (simp add: windowed_def too_old_def)
    then show ?thesis
      using "2.IH"(2) [OF refl old(2) old(1) _ dist] old by (simp add: Let_def)
  next
    case win
    then have w: "in_window now ?b ?c"
      by (simp add: in_window_def windowed_def)
    show ?thesis
    proof (cases "bt_get newest ?b")
      case None
      then show ?thesis
        using "2.IH"(3) [OF refl win refl None _ dist] prune_inv_first [OF "2.prems"(1) w None] win
        by (simp add: Let_def)
    next
      case (Some best)
      obtain u i where best: "best = (u, i)" by fastforce
      show ?thesis
      proof (cases "(t, sid) \<le> best")
        case True
        then have "prune_inv now (cs @ [?c]) newest (prune @ [sid])"
          using prune_inv_beaten [OF "2.prems"(1) w Some [unfolded best] _ new] best by simp
        then show ?thesis
          using "2.IH"(4) [OF refl win refl Some True _ dist] win Some True by (simp add: Let_def)
      next
        case False
        then have "prune_inv now (cs @ [?c]) (bt_insert ?b (t, sid) newest) (prune @ [snd best])"
          using prune_inv_wins [OF "2.prems"(1) w Some [unfolded best]] best by (simp add: not_le)
        then show ?thesis
          using "2.IH"(5) [OF refl win refl Some False _ dist] win Some False by (simp add: Let_def)
      qed
    qed
  qed
qed

text \<open>Checkpoint retention: the ids to delete are, in order, exactly those of the
  checkpoints that are seven days old or beaten within their hour (up to a day) or day
  window by a later one; so nothing of the last hour is deleted, and the newest
  checkpoint of every window survives.\<close>

theorem checkpoint_retention:
  assumes "distinct cs"
  shows "set (checkpoints_to_prune now cs)
      = {i. \<exists>t. (i, t) \<in> set cs \<and> (CHECKPOINT_KEEP_SECS \<le> now - t
          \<or> HOUR_SECS \<le> now - t \<and> (\<exists>(j, u) \<in> set cs. HOUR_SECS \<le> now - u
               \<and> now - u < CHECKPOINT_KEEP_SECS \<and> bucket (now - t) = bucket (now - u) \<and> (t, i) < (u, j)))}
    \<and> sorted (checkpoints_to_prune now cs)"
proof -
  have "prune_inv now [] [] []"
    by (simp add: prune_inv_def doomed_set_def)
  then have "set (checkpoints_to_prune now cs) = fst ` doomed_set now cs"
    using prune_loop_inv [of now "[]" "[]" "[]" cs] assms by (simp add: checkpoints_to_prune_def)
  moreover have "doomed now cs (i, t) \<longleftrightarrow> CHECKPOINT_KEEP_SECS \<le> now - t
          \<or> HOUR_SECS \<le> now - t \<and> (\<exists>(j, u) \<in> set cs. HOUR_SECS \<le> now - u
               \<and> now - u < CHECKPOINT_KEEP_SECS \<and> bucket (now - t) = bucket (now - u) \<and> (t, i) < (u, j))" for i t
    unfolding doomed_def beats_def too_old_def windowed_def
    by (cases "CHECKPOINT_KEEP_SECS \<le> now - t") (simp_all add: not_le split_beta)
  moreover have "fst ` doomed_set now cs = {i. \<exists>t. (i, t) \<in> set cs \<and> doomed now cs (i, t)}"
    unfolding doomed_set_def by force
  ultimately show ?thesis
    by (simp add: checkpoints_to_prune_def)
qed

lemma checkpoint_retention_witness:
  "set (checkpoints_to_prune 10000 [(1, 9000), (2, 5000), (3, 4000)]) = {3}"
proof -
  let ?cs = "[(1, 9000), (2, 5000), (3, 4000)] :: (int \<times> int) list"
  have d: "distinct ?cs"
    by simp
  show ?thesis
    unfolding conjunct1 [OF checkpoint_retention [OF d]]
    by (auto simp: CHECKPOINT_KEEP_SECS_def DAY_SECS_def HOUR_SECS_def bucket_def)
qed

section \<open>The reference rebuild\<close>

lemma mem_bt_contains: "bt_contains m k \<longleftrightarrow> k \<in> fst ` set m"
  by (simp add: bt_contains_def dom_map_of_conv_image_fst [symmetric] domIff)

lemma set_refs_of: "h \<in> set (refs_of ws refs) \<longleftrightarrow> bt_contains refs (ws, h)"
  by (force simp: refs_of_def mem_bt_contains)

lemma get_fold_remove:
  "bt_get (fold (\<lambda>h. bt_remove (ws, h)) hs refs) k = (if fst k = ws \<and> snd k \<in> set hs then None else bt_get refs k)"
  by (induction hs arbitrary: refs) (auto simp: prod_eq_iff)

lemma wf_fold_remove [simp]: "bt_wf refs \<Longrightarrow> bt_wf (fold (\<lambda>h. bt_remove (ws, h)) hs refs)"
  by (induction hs arbitrary: refs) auto

lemma rebuild_one_get:
  assumes "rebuild_one (ws, keep) (n, refs) = (n', refs')"
  shows "bt_contains refs' (w, h) \<longleftrightarrow> (if w = ws then h \<in> set keep else bt_contains refs (w, h))"
    and "n' = n + length (filter (\<lambda>h. h \<notin> set keep) (refs_of ws refs))"
    and "bt_wf refs \<Longrightarrow> bt_wf refs'"
proof -
  have refs': "refs' = insert_refs ws keep
      (fold (\<lambda>h. bt_remove (ws, h)) (filter (\<lambda>h. h \<notin> set keep) (refs_of ws refs)) refs)"
    and "n' = n + length (filter (\<lambda>h. h \<notin> set keep) (refs_of ws refs))"
    using assms by (auto simp: rebuild_one_def Let_def)
  then show "n' = n + length (filter (\<lambda>h. h \<notin> set keep) (refs_of ws refs))"
    by simp
  show "bt_contains refs' (w, h) \<longleftrightarrow> (if w = ws then h \<in> set keep else bt_contains refs (w, h))"
    unfolding refs' bt_contains_def insert_refs_get get_fold_remove
    using set_refs_of [of h ws refs] by (auto simp: bt_contains_def)
  show "bt_wf refs'" if "bt_wf refs"
    unfolding refs' using that by simp
qed

text \<open>The references a rebuild deletes: those of a workspace it was given whose chunk
  is not live there.\<close>

definition stale_ref :: "(string, string list) btree \<Rightarrow> string \<times> string \<Rightarrow> bool" where
  "stale_ref live k = (case bt_get live (fst k) of None \<Rightarrow> False | Some keep \<Rightarrow> snd k \<notin> set keep)"

definition stale_refs :: "(string, string list) btree \<Rightarrow> (string \<times> string, unit) btree \<Rightarrow> (string \<times> string) set" where
  "stale_refs live refs = {k. bt_contains refs k \<and> stale_ref live k}"

lemma finite_stale_refs [simp]: "finite (stale_refs live refs)"
  by (rule finite_subset [of _ "fst ` set refs"]) (auto simp: stale_refs_def mem_bt_contains)

lemma length_gone:
  assumes "bt_wf refs"
  shows "length (filter (\<lambda>h. h \<notin> set keep) (refs_of ws refs))
    = card {k. bt_contains refs k \<and> fst k = ws \<and> snd k \<notin> set keep}"
proof -
  have "distinct (refs_of ws refs)"
    unfolding refs_of_def
    using bt_wf_distinct [OF assms] by (auto simp: distinct_map inj_on_def)
  then have "length (filter (\<lambda>h. h \<notin> set keep) (refs_of ws refs))
      = card (set (filter (\<lambda>h. h \<notin> set keep) (refs_of ws refs)))"
    by (metis distinct_card distinct_filter)
  also have "\<dots> = card (Pair ws ` set (filter (\<lambda>h. h \<notin> set keep) (refs_of ws refs)))"
    by (simp add: card_image inj_on_def)
  also have "Pair ws ` set (filter (\<lambda>h. h \<notin> set keep) (refs_of ws refs))
      = {k. bt_contains refs k \<and> fst k = ws \<and> snd k \<notin> set keep}"
    by (auto simp: set_refs_of)
  finally show ?thesis .
qed

lemma rebuild_fold:
  assumes "fold rebuild_one live (n, refs) = (n', refs')" "bt_wf live" "bt_wf refs"
  shows "(\<forall>w h. bt_contains refs' (w, h) \<longleftrightarrow>
            (case bt_get live w of Some keep \<Rightarrow> h \<in> set keep | None \<Rightarrow> bt_contains refs (w, h)))
     \<and> n' = n + card (stale_refs live refs) \<and> bt_wf refs'"
  using assms
proof (induction live arbitrary: n refs)
  case Nil
  then show ?case
    by (simp add: stale_refs_def stale_ref_def)
next
  case (Cons e live)
  obtain ws keep where e: "e = (ws, keep)" by fastforce
  obtain n1 refs1 where one: "rebuild_one (ws, keep) (n, refs) = (n1, refs1)" by fastforce
  note r1 = rebuild_one_get [OF one]
  have live: "bt_wf live" "bt_get live ws = None"
    using Cons.prems(2) unfolding e bt_wf_Cons
    by (auto simp: map_of_eq_None_iff)
  have IH: "(\<forall>w h. bt_contains refs' (w, h) \<longleftrightarrow>
            (case bt_get live w of Some keep \<Rightarrow> h \<in> set keep | None \<Rightarrow> bt_contains refs1 (w, h)))
     \<and> n' = n1 + card (stale_refs live refs1) \<and> bt_wf refs'"
    using Cons.IH [OF _ live(1) r1(3) [OF Cons.prems(3)]] Cons.prems(1) one e by simp
  have split: "stale_refs (e # live) refs
      = {k. bt_contains refs k \<and> fst k = ws \<and> snd k \<notin> set keep} \<union> stale_refs live refs1"
  proof (rule set_eqI)
    fix k :: "string \<times> string"
    obtain w h where k: "k = (w, h)" by fastforce
    have stale: "stale_ref (e # live) k \<longleftrightarrow> (if w = ws then h \<notin> set keep else stale_ref live k)"
      "stale_ref live (ws, h) = False"
      using live(2) by (simp_all add: stale_ref_def e k)
    show "k \<in> stale_refs (e # live) refs \<longleftrightarrow>
        k \<in> {k. bt_contains refs k \<and> fst k = ws \<and> snd k \<notin> set keep} \<union> stale_refs live refs1"
      using stale r1(1) [of w h] by (cases "w = ws") (simp_all add: stale_refs_def k)
  qed
  have disj: "{k. bt_contains refs k \<and> fst k = ws \<and> snd k \<notin> set keep} \<inter> stale_refs live refs1 = {}"
    using live(2) by (auto simp: stale_refs_def stale_ref_def)
  have "finite {k. bt_contains refs k \<and> fst k = ws \<and> snd k \<notin> set keep}"
    by (rule finite_subset [of _ "fst ` set refs"]) (auto simp: mem_bt_contains)
  then have "card (stale_refs (e # live) refs)
      = card {k. bt_contains refs k \<and> fst k = ws \<and> snd k \<notin> set keep} + card (stale_refs live refs1)"
    unfolding split using disj by (simp add: card_Un_disjoint)
  then have "n' = n + card (stale_refs (e # live) refs)"
    using IH r1(2) length_gone [OF Cons.prems(3)] by simp
  moreover have "bt_contains refs' (w, h) \<longleftrightarrow>
      (case bt_get (e # live) w of Some keep \<Rightarrow> h \<in> set keep | None \<Rightarrow> bt_contains refs (w, h))" for w h
    using IH r1(1) live(2) by (auto simp: e split: option.splits)
  ultimately show ?case
    using IH by blast
qed

text \<open>After a reference rebuild the references of every workspace in the live map are
  exactly its live set, those of other workspaces are untouched, no other table
  changes, and the count is the number of references that were deleted; a failed
  rebuild changes nothing.\<close>

theorem gc_rebuild_exact:
  assumes "bt_wf live" "bt_wf (db_refs db)" "gc_rebuild_refs fault live db = (r, db')"
  shows "(case r of
      Inr n \<Rightarrow>
        (\<forall>w h. bt_contains (db_refs db') (w, h) \<longleftrightarrow>
            (case bt_get live w of Some keep \<Rightarrow> h \<in> set keep | None \<Rightarrow> bt_contains (db_refs db) (w, h)))
        \<and> n = card {k. bt_contains (db_refs db) k \<and> \<not> bt_contains (db_refs db') k}
        \<and> db' = db\<lparr>db_refs := db_refs db'\<rparr>
    | Inl e \<Rightarrow> db' = db)"
proof (cases r)
  case (Inl e)
  then show ?thesis
    using assms(3) by (auto simp: gc_rebuild_refs_def dest: with_tx_err)
next
  case (Inr n)
  obtain n0 refs where f: "fold rebuild_one live (0, db_refs db) = (n0, refs)" by fastforce
  have db': "db' = db\<lparr>db_refs := refs\<rparr>" "n = n0"
    using assms(3) Inr f by (auto simp: gc_rebuild_refs_def with_tx_ok)
  note rf = rebuild_fold [OF f assms(1,2)]
  have "bt_contains (db_refs db) (w, h) \<and> stale_ref live (w, h)
      \<longleftrightarrow> bt_contains (db_refs db) (w, h) \<and> \<not> bt_contains refs (w, h)" for w h
    using conjunct1 [OF rf, rule_format, of w h] by (cases "bt_get live w") (auto simp: stale_ref_def)
  then have "stale_refs live (db_refs db) = {k. bt_contains (db_refs db) k \<and> \<not> bt_contains refs k}"
    unfolding stale_refs_def by (metis (mono_tags, lifting) prod.collapse)
  then show ?thesis
    using rf Inr db' by simp
qed

lemma gc_rebuild_exact_witness:
  "\<not> bt_contains (db_refs (snd (gc_rebuild_refs False [(''w'', [''a''])]
      (empty_db\<lparr>db_refs := [((''w'', ''b''), ())]\<rparr>)))) (''w'', ''b'')"
proof -
  let ?db = "empty_db\<lparr>db_refs := [((''w'', ''b''), ())]\<rparr>"
  have r: "gc_rebuild_refs False [(''w'', [''a''])] ?db = (Inr 1, empty_db\<lparr>db_refs := [((''w'', ''a''), ())]\<rparr>)"
    by code_simp
  have wf: "bt_wf [(''w'', [''a''])]" "bt_wf (db_refs ?db)"
    by (simp_all add: bt_wf_Cons)
  show ?thesis
    using gc_rebuild_exact [OF wf r] r by simp
qed

section \<open>What every reachable database satisfies\<close>

text \<open>One transition per operation that writes.\<close>

inductive db_step :: "db \<Rightarrow> db \<Rightarrow> bool" where
  step_create_user: "create_user name token t db = (b, db') \<Longrightarrow> db_step db db'"
| step_set_key: "set_user_key_bundle name x e s db = (b, db') \<Longrightarrow> db_step db db'"
| step_create_team: "create_team_with_owner fault tid name t owner env db = (r, db') \<Longrightarrow> db_step db db'"
| step_set_policy: "set_team_sync_env tid env db = (b, db') \<Longrightarrow> db_step db db'"
| step_add_member: "db_step db (add_member tid user role db)"
| step_remove_member: "remove_member fault tid user db = (rb, db') \<Longrightarrow> db_step db db'"
| step_create_workspace: "create_workspace ws name ow team e2e db = (oc, db') \<Longrightarrow> db_step db db'"
| step_attach: "attach_team ws tid db = (oa, db') \<Longrightarrow> db_step db db'"
| step_head: "insert_head fault ws seq hash m refs db = (ru, db') \<Longrightarrow> db_step db db'"
| step_snapshot: "insert_snapshot fault ws sn db = (ri, db') \<Longrightarrow> db_step db db'"
| step_refs: "db_step db (insert_chunk_refs ws hs db)"
| step_rebuild: "gc_rebuild_refs fault live db = (rn, db') \<Longrightarrow> bt_wf live \<Longrightarrow> db_step db db'"
| step_put_key: "db_step db (db_put_wrapped_key ws user blob db)"
| step_delete_key: "db_step db (db_delete_wrapped_key ws user db)"

inductive db_reachable :: "db \<Rightarrow> bool" where
  reach_empty: "db_reachable empty_db"
| reach_step: "db_reachable db \<Longrightarrow> db_step db db' \<Longrightarrow> db_reachable db'"

definition tables_wf :: "db \<Rightarrow> bool" where
  "tables_wf db \<longleftrightarrow> bt_wf (db_users db) \<and> bt_wf (db_teams db) \<and> bt_wf (db_members db)
     \<and> bt_wf (db_workspaces db) \<and> bt_wf (db_heads db) \<and> bt_wf (db_snapshots db)
     \<and> bt_wf (db_refs db) \<and> bt_wf (db_wrapped db)"

text \<open>A unique column, null values apart.\<close>

definition unique_col :: "('v \<Rightarrow> 'c option) \<Rightarrow> ('k, 'v) btree \<Rightarrow> bool" where
  "unique_col f m \<longleftrightarrow>
     (\<forall>k v k' v'. bt_get m k = Some v \<longrightarrow> bt_get m k' = Some v' \<longrightarrow> f v \<noteq> None \<longrightarrow> f v = f v' \<longrightarrow> k = k')"

definition team_slot :: "workspace_row \<Rightarrow> (string \<times> string) option" where
  "team_slot w = map_option (\<lambda>t. (t, w_name w)) (w_team_id w)"

definition db_ok :: "db \<Rightarrow> bool" where
  "db_ok db \<longleftrightarrow> tables_wf db
     \<and> unique_col (Some \<circ> u_token) (db_users db)
     \<and> unique_col (Some \<circ> t_name) (db_teams db)
     \<and> unique_col team_slot (db_workspaces db)
     \<and> (\<forall>ws. length (rows_of ws (db_heads db)) \<le> HEAD_KEEP)"

lemma unique_col_insert:
  assumes "unique_col f m" "\<forall>k' v'. bt_get m k' = Some v' \<longrightarrow> k' \<noteq> k \<longrightarrow> f v \<noteq> None \<longrightarrow> f v' \<noteq> f v"
  shows "unique_col f (bt_insert k v m)"
  using assms unfolding unique_col_def by (auto split: if_splits)

lemma unique_col_update:
  assumes "unique_col f m" "bt_get m k = Some v" "f v' = f v"
  shows "unique_col f (bt_insert k v' m)"
  using assms by (intro unique_col_insert) (auto simp: unique_col_def)

lemma ex_row: "(\<exists>kv \<in> S. case kv of (k, v) \<Rightarrow> P k v) \<longleftrightarrow> (\<exists>k v. (k, v) \<in> S \<and> P k v)"
  by force

lemma wf_rebuild:
  "bt_wf live \<Longrightarrow> bt_wf refs \<Longrightarrow> fold rebuild_one live (n, refs) = (n', refs') \<Longrightarrow> bt_wf refs'"
  using rebuild_fold by blast

lemma with_tx_preserves:
  assumes "with_tx fault f db = (r, db')" "P db" "\<And>v db''. f db = Inr (v, db'') \<Longrightarrow> P db''"
  shows "P db'"
  using assms by (auto simp: with_tx_def split: sum.splits prod.splits if_splits)

lemma db_ok_unchanged_tables:
  assumes "db_ok db" "tables_wf db'" "db_users db' = db_users db" "db_teams db' = db_teams db"
    "db_workspaces db' = db_workspaces db" "db_heads db' = db_heads db"
  shows "db_ok db'"
  using assms by (simp add: db_ok_def)

lemma wf_fold_remove_snap [simp]:
  "bt_wf m \<Longrightarrow> bt_wf (fold (\<lambda>d. bt_remove (ws, d)) ds m)"
  by (induction ds arbitrary: m) auto

lemmas tables_simps = tables_wf_def insert_chunk_refs_def add_member_def

lemma create_user_ok:
  assumes "db_ok db" "create_user name token t db = (b, db')"
  shows "db_ok db'"
proof (cases "bt_contains (db_users db) name \<or> (\<exists>(_, u) \<in> set (db_users db). u_token u = token)")
  case False
  have wf: "bt_wf (db_users db)"
    using assms(1) by (simp add: db_ok_def tables_wf_def)
  have new: "\<forall>k u. bt_get (db_users db) k = Some u \<longrightarrow> u_token u \<noteq> token"
    using False unfolding ex_row bt_get_in_set [OF wf] by blast
  have db': "db' = db\<lparr>db_users := bt_insert name \<lparr>u_token = token, u_created_at = t,
      u_pubkey = None, u_ed_pubkey = None, u_key_sig = None\<rparr> (db_users db)\<rparr>"
    using assms(2) False unfolding create_user_def by simp
  have "unique_col (Some \<circ> u_token) (db_users db')"
    using assms(1) new unfolding db' by (auto simp: db_ok_def intro!: unique_col_insert)
  then show ?thesis
    using assms(1) by (simp add: db' db_ok_def tables_wf_def bt_wf_insert)
qed (use assms in \<open>auto simp: create_user_def\<close>)

lemma create_team_ok:
  assumes "db_ok db" "create_team tid name t env db = (b, db')"
  shows "db_ok db'"
proof (cases "bt_contains (db_teams db) tid \<or> (\<exists>(_, u) \<in> set (db_teams db). t_name u = name)")
  case False
  have wf: "bt_wf (db_teams db)"
    using assms(1) by (simp add: db_ok_def tables_wf_def)
  have new: "\<forall>k u. bt_get (db_teams db) k = Some u \<longrightarrow> t_name u \<noteq> name"
    using False unfolding ex_row bt_get_in_set [OF wf] by blast
  have db': "db' = db\<lparr>db_teams := bt_insert tid
      \<lparr>t_name = name, t_created_at = t, t_sync_env = env\<rparr> (db_teams db)\<rparr>"
    using assms(2) False unfolding create_team_def by simp
  have "unique_col (Some \<circ> t_name) (db_teams db')"
    using assms(1) new unfolding db' by (auto simp: db_ok_def intro!: unique_col_insert)
  then show ?thesis
    using assms(1) by (simp add: db' db_ok_def tables_wf_def bt_wf_insert)
qed (use assms in \<open>auto simp: create_team_def\<close>)

lemma create_workspace_ok:
  assumes "db_ok db" "create_workspace ws name ow team e2e db = (b, db')"
  shows "db_ok db'"
proof (cases "\<not> bt_contains (db_workspaces db) ws \<and> \<not> name_taken team name db")
  case True
  have wf: "bt_wf (db_workspaces db)"
    using assms(1) by (simp add: db_ok_def tables_wf_def)
  have new: "\<forall>k w. bt_get (db_workspaces db) k = Some w \<longrightarrow> team \<noteq> None \<longrightarrow> w_team_id w = team \<longrightarrow> w_name w \<noteq> name"
    using True unfolding name_taken_def ex_row bt_get_in_set [OF wf] by blast
  have db': "db' = db\<lparr>db_workspaces := bt_insert ws
      \<lparr>w_name = name, w_owner = ow, w_team_id = team, w_e2e = e2e\<rparr> (db_workspaces db)\<rparr>"
    using assms(2) True unfolding create_workspace_def by simp
  have "unique_col team_slot (bt_insert ws
      \<lparr>w_name = name, w_owner = ow, w_team_id = team, w_e2e = e2e\<rparr> (db_workspaces db))"
  proof (rule unique_col_insert)
    show "unique_col team_slot (db_workspaces db)"
      using assms(1) by (simp add: db_ok_def)
    show "\<forall>k' v'. bt_get (db_workspaces db) k' = Some v' \<longrightarrow> k' \<noteq> ws \<longrightarrow>
        team_slot \<lparr>w_name = name, w_owner = ow, w_team_id = team, w_e2e = e2e\<rparr> \<noteq> None \<longrightarrow>
        team_slot v' \<noteq> team_slot \<lparr>w_name = name, w_owner = ow, w_team_id = team, w_e2e = e2e\<rparr>"
      using new by (cases team) (fastforce simp: team_slot_def)+
  qed
  then show ?thesis
    using assms(1) by (simp add: db' db_ok_def tables_wf_def bt_wf_insert)
qed (use assms in \<open>auto simp: create_workspace_def split: if_splits\<close>)

lemma attach_team_ok:
  assumes "db_ok db" "attach_team ws tid db = (b, db')"
  shows "db_ok db'"
proof (cases "db' = db")
  case False
  have wf: "bt_wf (db_workspaces db)"
    using assms(1) by (simp add: db_ok_def tables_wf_def)
  obtain w where w: "bt_get (db_workspaces db) ws = Some w"
    "\<forall>(i, v) \<in> set (db_workspaces db). w_team_id v = Some tid \<longrightarrow> i \<noteq> ws \<longrightarrow> w_name v \<noteq> w_name w"
    "db' = db\<lparr>db_workspaces := bt_insert ws (w\<lparr>w_team_id := Some tid\<rparr>) (db_workspaces db)\<rparr>"
    using assms(2) False by (auto simp: attach_team_def split: option.splits if_splits)
  have "unique_col team_slot (db_workspaces db')"
    using assms(1) w(2) unfolding w(3)
    by (auto simp: db_ok_def bt_get_in_set [OF wf] team_slot_def intro!: unique_col_insert)
  then show ?thesis
    using assms(1) by (simp add: w(3) db_ok_def tables_wf_def bt_wf_insert)
qed (use assms in simp)

lemma set_user_key_ok:
  assumes "db_ok db" "set_user_key_bundle name x e s db = (b, db')"
  shows "db_ok db'"
proof (cases "bt_get (db_users db) name")
  case (Some u)
  then have db': "db' = db\<lparr>db_users := bt_insert name
      (u\<lparr>u_pubkey := Some x, u_ed_pubkey := Some e, u_key_sig := Some s\<rparr>) (db_users db)\<rparr>"
    using assms(2) by (simp add: set_user_key_bundle_def)
  have "unique_col (Some \<circ> u_token) (bt_insert name
      (u\<lparr>u_pubkey := Some x, u_ed_pubkey := Some e, u_key_sig := Some s\<rparr>) (db_users db))"
    using assms(1) Some by (intro unique_col_update) (simp_all add: db_ok_def)
  then show ?thesis
    using assms(1) by (simp add: db' db_ok_def tables_wf_def bt_wf_insert)
qed (use assms in \<open>simp add: set_user_key_bundle_def\<close>)

lemma set_team_sync_env_ok:
  assumes "db_ok db" "set_team_sync_env tid env db = (b, db')"
  shows "db_ok db'"
proof (cases "bt_get (db_teams db) tid")
  case (Some u)
  then have db': "db' = db\<lparr>db_teams := bt_insert tid (u\<lparr>t_sync_env := env\<rparr>) (db_teams db)\<rparr>"
    using assms(2) by (simp add: set_team_sync_env_def)
  have "unique_col (Some \<circ> t_name) (bt_insert tid (u\<lparr>t_sync_env := env\<rparr>) (db_teams db))"
    using assms(1) Some by (intro unique_col_update) (simp_all add: db_ok_def)
  then show ?thesis
    using assms(1) by (simp add: db' db_ok_def tables_wf_def bt_wf_insert)
qed (use assms in \<open>simp add: set_team_sync_env_def\<close>)

lemma create_team_with_owner_ok:
  assumes "db_ok db" "create_team_with_owner fault tid name t owner env db = (r, db')"
  shows "db_ok db'"
proof (rule with_tx_preserves [of fault _ db r db' db_ok])
  show "with_tx fault (\<lambda>db. let (created, db) = create_team tid name t env db
       in Inr (created, if created then add_member tid owner ''owner'' db else db)) db = (r, db')"
    using assms(2) by (simp add: create_team_with_owner_def)
next
  fix v db''
  assume a: "(let (created, db) = create_team tid name t env db
       in Inr (created, if created then add_member tid owner ''owner'' db else db)) = (Inr (v, db'') :: (db_error, bool \<times> db) result)"
  obtain c db1 where c: "create_team tid name t env db = (c, db1)" by fastforce
  have "db_ok db1"
    by (rule create_team_ok [OF assms(1) c])
  then show "db_ok db''"
    using a c by (auto simp: db_ok_def tables_wf_def add_member_def)
qed (rule assms(1))

lemma remove_member_ok:
  assumes "db_ok db" "remove_member fault tid user db = (r, db')"
  shows "db_ok db'"
  using assms(2) unfolding remove_member_def
  by (rule with_tx_preserves) (use assms(1) in \<open>auto simp: db_ok_def tables_wf_def Let_def\<close>)

lemma insert_head_keeps_ok:
  assumes "db_ok db" "insert_head fault ws seq hash m refs db = (r, db')"
  shows "db_ok db'"
proof (cases r)
  case (Inl e)
  then show ?thesis
    using assms by (auto simp: insert_head_def dest: with_tx_err)
next
  case (Inr u)
  have wf: "bt_wf (db_heads db)"
    using assms(1) by (simp add: db_ok_def tables_wf_def)
  have h: "insert_head fault ws seq hash m refs db = (Inr u, db')"
    using assms(2) Inr by simp
  note ok = insert_head_ok [OF h wf]
  have "length (rows_of w (db_heads db')) \<le> HEAD_KEEP" for w
    unfolding ok(1) using assms(1) by (auto simp: newest_rows_def db_ok_def)
  moreover have "tables_wf db'" "db_users db' = db_users db" "db_teams db' = db_teams db"
      "db_workspaces db' = db_workspaces db"
    by (subst ok(4), use assms(1) ok(2,3) in \<open>simp add: db_ok_def tables_wf_def\<close>)+
  ultimately show ?thesis
    using assms(1) by (simp add: db_ok_def)
qed

lemma insert_snapshot_ok:
  assumes "db_ok db" "insert_snapshot fault ws sn db = (r, db')"
  shows "db_ok db'"
  using assms(2) unfolding insert_snapshot_def
  by (rule with_tx_preserves)
    (use assms(1) in \<open>auto simp: db_ok_def tables_wf_def Let_def insert_chunk_refs_def split: if_splits\<close>)

lemma gc_rebuild_ok:
  assumes "db_ok db" "gc_rebuild_refs fault live db = (r, db')" "bt_wf live"
  shows "db_ok db'"
  using assms(2) unfolding gc_rebuild_refs_def
  by (rule with_tx_preserves)
    (use assms(1,3) wf_rebuild in \<open>auto simp: db_ok_def tables_wf_def split: prod.splits\<close>)

lemma db_step_ok: "db_step db db' \<Longrightarrow> db_ok db \<Longrightarrow> db_ok db'"
proof (induction rule: db_step.induct)
  case (step_add_member db tid user role)
  then show ?case by (simp add: db_ok_def tables_wf_def add_member_def)
next
  case (step_refs db ws hs)
  then show ?case by (simp add: db_ok_def tables_wf_def insert_chunk_refs_def)
next
  case (step_put_key db ws user blob)
  then show ?case by (simp add: db_ok_def tables_wf_def db_put_wrapped_key_def)
next
  case (step_delete_key db ws user)
  then show ?case by (simp add: db_ok_def tables_wf_def db_delete_wrapped_key_def)
qed ((erule (1) create_user_ok [rotated] set_user_key_ok [rotated] create_team_with_owner_ok [rotated]
      set_team_sync_env_ok [rotated] remove_member_ok [rotated] create_workspace_ok [rotated]
      attach_team_ok [rotated] insert_head_keeps_ok [rotated] insert_snapshot_ok [rotated])
    | (rule gc_rebuild_ok; assumption))+

lemma empty_db_ok: "db_ok empty_db"
  by (simp add: db_ok_def tables_wf_def unique_col_def empty_db_def)

lemma reachable_ok: "db_reachable db \<Longrightarrow> db_ok db"
proof (induction rule: db_reachable.induct)
  case reach_empty
  show ?case by (rule empty_db_ok)
next
  case (reach_step db db')
  then show ?case by (blast intro: db_step_ok)
qed

lemma find_unique:
  assumes "\<And>x y. x \<in> set xs \<Longrightarrow> y \<in> set xs \<Longrightarrow> P x \<Longrightarrow> P y \<Longrightarrow> x = y"
  shows "find P xs = Some x \<longleftrightarrow> x \<in> set xs \<and> P x"
  using assms
proof (induction xs)
  case (Cons a xs)
  have IH: "find P xs = Some x \<longleftrightarrow> x \<in> set xs \<and> P x"
    using Cons.IH Cons.prems by (meson list.set_intros(2))
  show ?case
  proof (cases "P a")
    case True
    then show ?thesis
      using Cons.prems [of a x] by auto
  next
    case False
    then show ?thesis
      using IH by auto
  qed
qed simp

text \<open>In every database the operations can reach, names mean one thing: resolving a
  workspace name in a team finds exactly the workspace attached to that team under
  that name, a team name finds exactly the team of that name, no two users share a
  token digest, and no workspace keeps more than 50 heads.\<close>

theorem db_lookups_unambiguous:
  assumes "db_reachable db"
  shows "(find_workspace_in_team tid name db = Some (ws, w) \<longleftrightarrow>
        get_workspace ws db = Some w \<and> w_team_id w = Some tid \<and> w_name w = name)
    \<and> (get_team_by_name name db = Some tm \<longleftrightarrow> get_team (tm_id tm) db = Some tm \<and> tm_name tm = name)
    \<and> ((u, d) \<in> set (user_token_digests db) \<and> (v, d) \<in> set (user_token_digests db) \<longrightarrow> u = v)
    \<and> length (rows_of ws (db_heads db)) \<le> HEAD_KEEP"
proof -
  have ok: "db_ok db"
    by (rule reachable_ok [OF assms])
  then have wf: "bt_wf (db_workspaces db)" "bt_wf (db_teams db)" "bt_wf (db_users db)"
    by (simp_all add: db_ok_def tables_wf_def)
  have ws_eq: "x = y" if "x \<in> set (db_workspaces db)" "y \<in> set (db_workspaces db)"
      "case x of (_, w) \<Rightarrow> w_team_id w = Some tid \<and> w_name w = name"
      "case y of (_, w) \<Rightarrow> w_team_id w = Some tid \<and> w_name w = name" for x y
  proof -
    obtain i a j b where xy: "x = (i, a)" "y = (j, b)" by fastforce
    have "unique_col team_slot (db_workspaces db)"
      using ok by (simp add: db_ok_def)
    then have "i = j"
      using that unfolding xy bt_get_in_set [OF wf(1), symmetric] unique_col_def team_slot_def by fastforce
    then show ?thesis
      using that(1,2) unfolding xy bt_get_in_set [OF wf(1), symmetric] by simp
  qed
  have tm_eq: "x = y" if "x \<in> set (db_teams db)" "y \<in> set (db_teams db)"
      "case x of (_, t) \<Rightarrow> t_name t = name" "case y of (_, t) \<Rightarrow> t_name t = name" for x y
  proof -
    obtain i a j b where xy: "x = (i, a)" "y = (j, b)" by fastforce
    have "unique_col (Some \<circ> t_name) (db_teams db)"
      using ok by (simp add: db_ok_def)
    then have "i = j"
      using that unfolding xy bt_get_in_set [OF wf(2), symmetric] unique_col_def by fastforce
    then show ?thesis
      using that(1,2) unfolding xy bt_get_in_set [OF wf(2), symmetric] by simp
  qed
  have "find_workspace_in_team tid name db = Some (ws, w) \<longleftrightarrow>
      get_workspace ws db = Some w \<and> w_team_id w = Some tid \<and> w_name w = name"
    unfolding find_workspace_in_team_def get_workspace_def bt_get_in_set [OF wf(1)]
    by (subst find_unique) (use ws_eq in \<open>blast, simp\<close>)
  moreover have "get_team_by_name name db = Some tm \<longleftrightarrow> get_team (tm_id tm) db = Some tm \<and> tm_name tm = name"
  proof -
    have f: "find (\<lambda>(_, t). t_name t = name) (db_teams db) = Some x
        \<longleftrightarrow> x \<in> set (db_teams db) \<and> (case x of (_, t) \<Rightarrow> t_name t = name)" for x
      by (rule find_unique) (fact tm_eq)
    have "get_team_by_name name db = Some tm \<longleftrightarrow>
        (\<exists>i t. (i, t) \<in> set (db_teams db) \<and> t_name t = name \<and> team_of (i, t) = tm)"
      unfolding get_team_by_name_def map_option_eq_Some f by auto
    also have "\<dots> \<longleftrightarrow> get_team (tm_id tm) db = Some tm \<and> tm_name tm = name"
      unfolding get_team_def map_option_eq_Some bt_get_in_set [OF wf(2)]
      by (cases tm) (auto simp: team_of_def)
    finally show ?thesis .
  qed
  moreover have "u = v" if ud: "(u, d) \<in> set (user_token_digests db)" "(v, d) \<in> set (user_token_digests db)"
  proof -
    have "unique_col (Some \<circ> u_token) (db_users db)"
      using ok by (simp add: db_ok_def)
    then show ?thesis
      using ud unfolding user_token_digests_def unique_col_def
      by (auto simp: bt_get_in_set [OF wf(3)])
  qed
  ultimately show ?thesis
    using ok by (simp add: db_ok_def)
qed

lemma db_lookups_unambiguous_witness:
  "length (rows_of ''w'' (db_heads (snd (insert_head False ''w'' 1 ''h'' ''m'' [] empty_db)))) \<le> HEAD_KEEP"
proof -
  let ?db = "snd (insert_head False ''w'' 1 ''h'' ''m'' [] empty_db)"
  have "db_step empty_db ?db"
    by (rule step_head [of False "''w''" 1 "''h''" "''m''" "[]" _ "fst (insert_head False ''w'' 1 ''h'' ''m'' [] empty_db)"])
      simp
  then have "db_reachable ?db"
    by (rule reach_step [OF reach_empty])
  then show ?thesis
    using db_lookups_unambiguous [of ?db] by blast
qed

lemma ex_ref: "(\<exists>kv \<in> set m. snd (fst kv) = h \<and> Q (fst (fst kv))) \<longleftrightarrow> (\<exists>ws. bt_contains m (ws, h) \<and> Q ws)"
  by (force simp: mem_bt_contains)

lemma chunk_visible_iff:
  "chunk_visible_to h user db \<longleftrightarrow>
     (\<exists>ws w. bt_contains (db_refs db) (ws, h) \<and> get_workspace ws db = Some w
        \<and> (w_owner w = Some user \<or> (\<exists>t. w_team_id w = Some t \<and> member_role t user db \<noteq> None)))"
proof -
  define Q where "Q = (\<lambda>ws. case bt_get (db_workspaces db) ws of
           None \<Rightarrow> False
         | Some w \<Rightarrow>
             w_owner w = Some user
             \<or> (case w_team_id w of None \<Rightarrow> False | Some tid \<Rightarrow> bt_contains (db_members db) (tid, user)))"
  have "chunk_visible_to h user db \<longleftrightarrow> (\<exists>ws. bt_contains (db_refs db) (ws, h) \<and> Q ws)"
    unfolding chunk_visible_to_def Q_def [symmetric] using ex_ref [where Q = Q] by (simp add: Q_def)
  moreover have "Q ws \<longleftrightarrow> (\<exists>w. get_workspace ws db = Some w
        \<and> (w_owner w = Some user \<or> (\<exists>t. w_team_id w = Some t \<and> member_role t user db \<noteq> None)))" for ws
    unfolding Q_def get_workspace_def member_role_def bt_contains_def
    by (cases "bt_get (db_workspaces db) ws") (simp_all split: option.split)
  ultimately show ?thesis
    by blast
qed

text \<open>Removing a member takes their access with it: the membership is gone, their
  wrapped keys in every workspace of the team are gone and no other wrapped key is,
  every other membership stays, and what they still see they own or reach through
  another team; a failed removal changes nothing.\<close>

theorem remove_member_exact:
  assumes "remove_member fault tid user db = (r, db')"
  shows "(case r of
      Inl e \<Rightarrow> db' = db
    | Inr removed \<Rightarrow>
        removed = bt_contains (db_members db) (tid, user)
        \<and> (\<forall>t u. member_role t u db' = (if t = tid \<and> u = user then None else member_role t u db))
        \<and> (\<forall>ws u. db_get_wrapped_key ws u db' =
             (if removed \<and> u = user \<and> in_team tid db ws then None else db_get_wrapped_key ws u db))
        \<and> (\<forall>h. chunk_visible_to h user db' \<longrightarrow>
             (\<exists>ws w. bt_contains (db_refs db) (ws, h) \<and> get_workspace ws db = Some w
                \<and> (w_owner w = Some user \<or> (\<exists>t. w_team_id w = Some t \<and> t \<noteq> tid \<and> member_role t user db \<noteq> None))))
        \<and> db' = db\<lparr>db_members := db_members db', db_wrapped := db_wrapped db'\<rparr>)"
proof (cases r)
  case (Inl e)
  then show ?thesis
    using assms by (auto simp: remove_member_def dest: with_tx_err)
next
  case (Inr removed)
  define P where "P = (\<lambda>k :: string \<times> string. \<not> (snd k = user \<and> in_team tid db (fst k)))"
  have rem: "removed = bt_contains (db_members db) (tid, user)"
    and db': "db' = db\<lparr>db_members := bt_remove (tid, user) (db_members db),
        db_wrapped := if removed then filter (\<lambda>kv. P (fst kv)) (db_wrapped db) else db_wrapped db\<rparr>"
    using assms Inr
    by (auto simp: remove_member_def with_tx_ok Let_def P_def in_team_def split_def split: if_splits)
  have role: "member_role t u db' = (if t = tid \<and> u = user then None else member_role t u db)" for t u
    by (simp add: db' member_role_def)
  have Pw: "P (ws, u) \<longleftrightarrow> \<not> (u = user \<and> in_team tid db ws)" for ws u
    by (simp add: P_def)
  have wrapped: "db_get_wrapped_key ws u db' =
      (if removed \<and> u = user \<and> in_team tid db ws then None else db_get_wrapped_key ws u db)" for ws u
    using map_of_filter_fst [of P "db_wrapped db" "(ws, u)"] Pw [of ws u]
    by (cases removed; cases "u = user") (simp_all add: db' db_get_wrapped_key_def)
  have vis: "\<exists>ws w. bt_contains (db_refs db) (ws, h) \<and> get_workspace ws db = Some w
      \<and> (w_owner w = Some user \<or> (\<exists>t. w_team_id w = Some t \<and> t \<noteq> tid \<and> member_role t user db \<noteq> None))"
    if vis': "chunk_visible_to h user db'" for h
  proof -
    have "db_refs db' = db_refs db" "get_workspace ws db' = get_workspace ws db" for ws
      by (simp_all add: db' get_workspace_def)
    then obtain ws w where w: "bt_contains (db_refs db) (ws, h)" "get_workspace ws db = Some w"
      "w_owner w = Some user \<or> (\<exists>t. w_team_id w = Some t \<and> member_role t user db' \<noteq> None)"
      using vis' unfolding chunk_visible_iff by auto
    have "w_owner w = Some user \<or> (\<exists>t. w_team_id w = Some t \<and> t \<noteq> tid \<and> member_role t user db \<noteq> None)"
      using w(3) unfolding role by (metis (full_types))
    then show ?thesis
      using w(1,2) by blast
  qed
  show ?thesis
    using Inr rem role wrapped vis by (simp add: db')
qed

lemma remove_member_exact_witness:
  "member_role ''t'' ''ann'' (snd (remove_member False ''t'' ''ann'' (add_member ''t'' ''ann'' ''reader'' empty_db))) = None"
proof -
  let ?db = "add_member ''t'' ''ann'' ''reader'' empty_db"
  have r: "remove_member False ''t'' ''ann'' ?db = (Inr True, snd (remove_member False ''t'' ''ann'' ?db))"
    by code_simp
  show ?thesis
    using remove_member_exact [OF r] by simp
qed

end
