(* ===== verification/Relay_Auth.thy ===== *)
theory Relay_Auth
imports Relay_Db Strings
begin

text \<open>
  The gates of \<open>relay/src/routes.rs\<close>: who a request comes from, the ordered roles,
  the effective role on a workspace, and the checks every handler starts with.  The
  text of an error message is not modelled; its status, kind and the names it carries
  are.
\<close>

section \<open>Errors\<close>

datatype bad_request =
    BadHash string
  | ChunkTooLarge nat
  | BodyHashMismatch
  | BadFrame
  | TooManyEntries
  | TooManyBytes
  | BadName string
  | BadDevice string
  | BadWorkspaceId string
  | BadRole string
  | BadHexField string
  | UnsignedBundle
  | BadSignature
  | BadWrappedKey
  | NoManifest
  | NoChunkHashes
  | BadManifestEnc
  | NotAManifest
  | InvalidManifestBody
  | WrongWorkspace string
  | MissingChunks nat string

datatype conflict_body =
    CurrentSeq int
  | E2eMismatch
  | IdConflict
  | NameConflict
  | SyncEnvForbidden string
  | LastOwner
  | UserExists
  | TeamExists

text \<open>\<open>NotFound\<close> carries what the message names; a workspace the caller has no role on
  reads like one that does not exist.\<close>

datatype api_error =
    BadRequest bad_request
  | Forbidden
  | NoWorkspace string
  | NoTeam string
  | NoUser string
  | NoWrap string
  | NoChunk string
  | NoHead string
  | NoSnapshot string int
  | NoTeamWorkspace string string
  | Conflict conflict_body
  | Internal

definition status :: "api_error \<Rightarrow> nat" where
  "status e = (case e of BadRequest _ \<Rightarrow> 400 | Forbidden \<Rightarrow> 403 | Conflict _ \<Rightarrow> 409 | Internal \<Rightarrow> 500 | _ \<Rightarrow> 404)"

section \<open>Principals and roles\<close>

datatype principal = Admin | User string

datatype role = Reader | Writer | Owner

fun role_rank :: "role \<Rightarrow> nat" where
  "role_rank Reader = 0"
| "role_rank Writer = 1"
| "role_rank Owner = 2"

instantiation role :: linorder
begin

definition less_eq_role :: "role \<Rightarrow> role \<Rightarrow> bool" where
  "less_eq_role a b = (role_rank a \<le> role_rank b)"

definition less_role :: "role \<Rightarrow> role \<Rightarrow> bool" where
  "less_role a b = (role_rank a < role_rank b)"

instance
proof
  fix x y z :: role
  show "(x < y) = (x \<le> y \<and> \<not> y \<le> x)"
    by (auto simp: less_role_def less_eq_role_def)
  show "x \<le> x"
    by (simp add: less_eq_role_def)
  show "x \<le> y \<Longrightarrow> y \<le> z \<Longrightarrow> x \<le> z"
    by (simp add: less_eq_role_def)
  show "x \<le> y \<Longrightarrow> y \<le> x \<Longrightarrow> x = y"
    by (cases x; cases y) (simp_all add: less_eq_role_def)
  show "x \<le> y \<or> y \<le> x"
    by (auto simp: less_eq_role_def)
qed

end

lemma role_order [simp]:
  "Reader \<le> r" "r \<le> Owner" "\<not> Owner \<le> Writer" "\<not> Owner \<le> Reader" "\<not> Writer \<le> Reader"
  by (cases r; simp add: less_eq_role_def)+

lemma not_above_owner [simp]: "\<not> Owner < r"
  by (simp add: not_less)

definition role_parse :: "string \<Rightarrow> role option" where
  "role_parse s =
     (if s = ''reader'' then Some Reader else if s = ''writer'' then Some Writer
      else if s = ''owner'' then Some Owner else None)"

fun role_str :: "role \<Rightarrow> string" where
  "role_str Reader = ''reader''"
| "role_str Writer = ''writer''"
| "role_str Owner = ''owner''"

lemma role_parse_str [simp]: "role_parse (role_str r) = Some r"
  by (cases r) (simp_all add: role_parse_def)

lemma role_parse_owner: "role_parse s = Some Owner \<longleftrightarrow> s = ''owner''"
  by (auto simp: role_parse_def)

text \<open>The bearer gate: the admin digest first, then the users' digests in name order.\<close>

definition authenticate :: "(string \<Rightarrow> string) \<Rightarrow> string \<Rightarrow> string option \<Rightarrow> db \<Rightarrow> principal option" where
  "authenticate H admin_token header db =
     (case Option.bind header (\<lambda>v. strip_prefix v ''Bearer '') of
        None \<Rightarrow> None
      | Some token \<Rightarrow>
          if H token = H admin_token then Some Admin
          else map_option (User \<circ> fst) (find (\<lambda>(_, d). d = H token) (user_token_digests db)))"

section \<open>Gates\<close>

definition role_on :: "db \<Rightarrow> workspace_row \<Rightarrow> principal \<Rightarrow> role option" where
  "role_on db w p =
     (case p of
        Admin \<Rightarrow> Some Owner
      | User name \<Rightarrow>
          if w_owner w = Some name then Some Owner
          else
            (case w_team_id w of
               None \<Rightarrow> None
             | Some tid \<Rightarrow> Option.bind (member_role tid name db) role_parse))"

definition require_role :: "db \<Rightarrow> string \<Rightarrow> principal \<Rightarrow> role \<Rightarrow> (api_error, workspace_row) result" where
  "require_role db ws p least =
     (case get_workspace ws db of
        None \<Rightarrow> Inl (NoWorkspace ws)
      | Some w \<Rightarrow>
          (case role_on db w p of
             None \<Rightarrow> Inl (NoWorkspace ws)
           | Some r \<Rightarrow> if r < least then Inl Forbidden else Inr w))"

definition caller_role :: "db \<Rightarrow> string \<Rightarrow> principal \<Rightarrow> string option" where
  "caller_role db tid p = (case p of Admin \<Rightarrow> None | User name \<Rightarrow> member_role tid name db)"

definition require_team_writer :: "db \<Rightarrow> string \<Rightarrow> principal \<Rightarrow> (api_error, unit) result" where
  "require_team_writer db tid p =
     (case Option.bind (caller_role db tid p) role_parse of
        Some Owner \<Rightarrow> Inr ()
      | Some Writer \<Rightarrow> Inr ()
      | _ \<Rightarrow> Inl Forbidden)"

definition is_ascii_control :: "char \<Rightarrow> bool" where
  "is_ascii_control c = (byte_of c < 32 \<or> byte_of c = 127)"

definition valid_name :: "string \<Rightarrow> bool" where
  "valid_name s =
     (s \<noteq> [] \<and> length s \<le> 128 \<and> s \<noteq> ''.'' \<and> s \<noteq> ''..''
      \<and> \<not> list_ex is_ascii_control s \<and> CHR ''/'' \<notin> set s)"

definition check_device :: "string \<Rightarrow> (api_error, unit) result" where
  "check_device device = (if valid_name device then Inr () else Inl (BadRequest (BadDevice device)))"

section \<open>What the gates decide\<close>

lemma member_role_workspaces [simp]:
  "member_role t u (db\<lparr>db_workspaces := m\<rparr>) = member_role t u db"
  by (simp add: member_role_def)

lemma require_role_ok:
  "require_role db ws p least = Inr w \<longleftrightarrow>
     get_workspace ws db = Some w \<and> (\<exists>r. role_on db w p = Some r \<and> least \<le> r)"
  by (auto simp: require_role_def not_less split: option.splits)

lemma require_role_err:
  "require_role db ws p least = Inl e \<Longrightarrow> e = NoWorkspace ws \<or> e = Forbidden"
  by (auto simp: require_role_def split: option.splits if_splits)

text \<open>Access to a workspace is exactly: the admin, its owner, or a member of the team
  it is attached to with at least the required role; and a caller without any role
  gets the same answer as for a workspace that does not exist.\<close>

theorem require_role_exact:
  "(is_ok (require_role db ws p least) \<longleftrightarrow>
      (\<exists>w. get_workspace ws db = Some w \<and>
         (p = Admin \<or> (\<exists>u. p = User u \<and> (w_owner w = Some u \<or>
            (\<exists>t s r. w_team_id w = Some t \<and> member_role t u db = Some s \<and> role_parse s = Some r \<and> least \<le> r))))))
   \<and> (\<forall>w. role_on db w p = None \<longrightarrow>
        require_role (db\<lparr>db_workspaces := bt_insert ws w (db_workspaces db)\<rparr>) ws p least
          = require_role (db\<lparr>db_workspaces := bt_remove ws (db_workspaces db)\<rparr>) ws p least)"
proof (intro conjI allI impI)
  show "is_ok (require_role db ws p least) \<longleftrightarrow>
      (\<exists>w. get_workspace ws db = Some w \<and>
         (p = Admin \<or> (\<exists>u. p = User u \<and> (w_owner w = Some u \<or>
            (\<exists>t s r. w_team_id w = Some t \<and> member_role t u db = Some s \<and> role_parse s = Some r \<and> least \<le> r)))))"
  proof (cases "get_workspace ws db")
    case None
    then show ?thesis
      by (simp add: require_role_def)
  next
    case (Some w)
    show ?thesis
    proof (cases p)
      case Admin
      then show ?thesis
        using Some by (simp add: require_role_def role_on_def not_less [symmetric] leD)
    next
      case (User u)
      then show ?thesis
        using Some
        by (auto simp: require_role_def role_on_def not_less bind_eq_Some_conv
            split: option.splits if_splits)
    qed
  qed
next
  fix w
  assume none: "role_on db w p = None"
  have "role_on (db\<lparr>db_workspaces := m\<rparr>) w p = None" for m
    using none by (cases p; cases "w_team_id w") (simp_all add: role_on_def split: if_splits)
  then show "require_role (db\<lparr>db_workspaces := bt_insert ws w (db_workspaces db)\<rparr>) ws p least
      = require_role (db\<lparr>db_workspaces := bt_remove ws (db_workspaces db)\<rparr>) ws p least"
    by (simp add: require_role_def get_workspace_def)
qed

lemma require_role_exact_witness:
  "require_role (empty_db\<lparr>db_workspaces := bt_insert ''w''
       \<lparr>w_name = ''n'', w_owner = Some ''ann'', w_team_id = None, w_e2e = False\<rparr> []\<rparr>) ''w'' (User ''bob'') Reader
     = require_role (empty_db\<lparr>db_workspaces := []\<rparr>) ''w'' (User ''bob'') Reader"
proof -
  let ?w = "\<lparr>w_name = ''n'', w_owner = Some ''ann'', w_team_id = None, w_e2e = False\<rparr>"
  have "role_on empty_db ?w (User ''bob'') = None"
    by (simp add: role_on_def)
  then show ?thesis
    using require_role_exact [of empty_db "''w''" "User ''bob''" Reader]
    by (simp add: empty_db_def bt_remove_def)
qed

end
