(* ===== verification/Store.thy ===== *)
theory Store
imports Codec Manifest "HOL-Library.Product_Lexorder"
begin

text \<open>
  \<open>core/src/store.rs\<close>: the content-addressed chunk store.  Its disk state is the
  files under \<open>chunks/<shard>/<name>\<close>, its memory the deferred flush queue.
  BLAKE3 is the parameter \<open>H\<close> (the hex digest of a byte string); what the disk
  does (create, write, fsync a directory) are arguments of the operations that
  use it.  The traits \<open>ChunkSink\<close> and \<open>ChunkSource\<close> are the locale
  \<open>chunk_store\<close>, which this store interprets.
\<close>

section \<open>State\<close>

record store =
  st_files :: "(string \<times> string, bytes) btree"     \<comment> \<open>(shard, file name) to content\<close>
  st_deferred :: bool
  st_pending :: "string list"                       \<comment> \<open>queued shard directories\<close>

datatype store_error =
    InvalidHash string
  | InvalidData string
  | NotFound string
  | DiskFailed
  | SyncFailed string

definition DEFERRED_FLUSH_THRESHOLD :: nat where
  "DEFERRED_FLUSH_THRESHOLD = 64"

definition open_store :: "(string \<times> string, bytes) btree \<Rightarrow> store" where
  "open_store files = \<lparr>st_files = files, st_deferred = False, st_pending = []\<rparr>"

definition open_deferred :: "(string \<times> string, bytes) btree \<Rightarrow> store" where
  "open_deferred files = (open_store files)\<lparr>st_deferred := True\<rparr>"

text \<open>\<open>sweep_tmp\<close>: the crash-orphaned \<open>.tmp-*\<close> files that are older than a minute.\<close>

definition sweep_tmp :: "(string \<times> string \<Rightarrow> bool) \<Rightarrow> (string \<times> string, bytes) btree
    \<Rightarrow> (string \<times> string, bytes) btree" where
  "sweep_tmp stale files =
     filter (\<lambda>(key, _). \<not> (starts_with (snd key) ''.tmp-'' \<and> stale key)) files"

definition is_hex_digit :: "char \<Rightarrow> bool" where
  "is_hex_digit c =
     (let b = byte_of c in (48 \<le> b \<and> b \<le> 57) \<or> (65 \<le> b \<and> b \<le> 70) \<or> (97 \<le> b \<and> b \<le> 102))"

definition chunk_path :: "string \<Rightarrow> (store_error, string \<times> string) result" where
  "chunk_path hash =
     (if length hash < 2 \<or> \<not> list_all is_hex_digit hash then Inl (InvalidHash hash)
      else Inr (take 2 hash, hash))"

section \<open>Flushing\<close>

text \<open>The loop of \<open>flush_batch\<close>: the directories synced before the first failure.\<close>

fun sync_dirs :: "(string \<Rightarrow> bool) \<Rightarrow> string list \<Rightarrow> string list \<Rightarrow> string list \<times> string option" where
  "sync_dirs sync_ok synced [] = (synced, None)"
| "sync_dirs sync_ok synced (d # ds) =
     (if d \<in> set synced then sync_dirs sync_ok synced ds
      else if sync_ok d then sync_dirs sync_ok (d # synced) ds
      else (synced, Some d))"

definition flush_batch ::
  "(string \<Rightarrow> bool) \<Rightarrow> string list \<Rightarrow> (store_error, unit) result \<times> string list" where
  "flush_batch sync_ok batch =
     (case sync_dirs sync_ok [] batch of
        (synced, Some d) \<Rightarrow> (Inl (SyncFailed d), filter (\<lambda>d. d \<notin> set synced) batch)
      | (synced, None) \<Rightarrow> (Inr (), []))"

definition store_flush :: "(string \<Rightarrow> bool) \<Rightarrow> store \<Rightarrow> (store_error, unit) result \<times> store" where
  "store_flush sync_ok st =
     (let (r, batch) = flush_batch sync_ok (st_pending st) in (r, st\<lparr>st_pending := batch\<rparr>))"

section \<open>Presence, storing, reading\<close>

definition store_has :: "store \<Rightarrow> string \<Rightarrow> (store_error, bool) result" where
  "store_has st hash = rbind (chunk_path hash) (\<lambda>p. Inr (bt_contains (st_files st) p))"

definition store_put ::
  "(bytes \<Rightarrow> string) \<Rightarrow> (string \<Rightarrow> bool) \<Rightarrow> bool \<Rightarrow> string \<Rightarrow> bytes \<Rightarrow> store
     \<Rightarrow> (store_error, bool) result \<times> store" where
  "store_put H sync_ok disk_ok hash data st =
     (if H data \<noteq> hash then (Inl (InvalidData hash), st)
      else case chunk_path hash of
        Inl e \<Rightarrow> (Inl e, st)
      | Inr dest \<Rightarrow>
          if bt_contains (st_files st) dest then (Inr False, st)
          else if \<not> disk_ok then (Inl DiskFailed, st)
          else
            (let st = st\<lparr>st_files := bt_insert dest data (st_files st)\<rparr> in
             if st_deferred st then
               (let st = st\<lparr>st_pending := st_pending st @ [fst dest]\<rparr> in
                if DEFERRED_FLUSH_THRESHOLD \<le> length (st_pending st) then
                  (case store_flush sync_ok st of
                     (Inl e, st) \<Rightarrow> (Inl e, st)
                   | (Inr _, st) \<Rightarrow> (Inr True, st))
                else (Inr True, st))
             else (Inr True, st)))"

definition store_get ::
  "(bytes \<Rightarrow> string) \<Rightarrow> string \<Rightarrow> store \<Rightarrow> (store_error, bytes) result \<times> store" where
  "store_get H hash st =
     (case chunk_path hash of
        Inl e \<Rightarrow> (Inl e, st)
      | Inr path \<Rightarrow>
          (case bt_get (st_files st) path of
             None \<Rightarrow> (Inl (NotFound hash), st)
           | Some data \<Rightarrow>
               if H data \<noteq> hash
               then (Inl (NotFound hash), st\<lparr>st_files := bt_remove path (st_files st)\<rparr>)
               else (Inr data, st)))"

text \<open>The default methods of the traits.\<close>

fun has_many_default ::
  "('s \<Rightarrow> string \<Rightarrow> ('e, bool) result) \<Rightarrow> 's \<Rightarrow> string list \<Rightarrow> ('e, bool list) result" where
  "has_many_default hs st [] = Inr []"
| "has_many_default hs st (h # t) =
     rbind (hs st h) (\<lambda>b. rbind (has_many_default hs st t) (\<lambda>bs. Inr (b # bs)))"

fun put_many_default ::
  "(string \<Rightarrow> bytes \<Rightarrow> 's \<Rightarrow> ('e, bool) result \<times> 's) \<Rightarrow> (string \<times> bytes) list \<Rightarrow> 's
     \<Rightarrow> ('e, bool list) result \<times> 's" where
  "put_many_default pt [] st = (Inr [], st)"
| "put_many_default pt ((h, d) # es) st =
     (case pt h d st of
        (Inl e, st) \<Rightarrow> (Inl e, st)
      | (Inr b, st) \<Rightarrow>
          (case put_many_default pt es st of
             (Inl e, st) \<Rightarrow> (Inl e, st)
           | (Inr bs, st) \<Rightarrow> (Inr (b # bs), st)))"

section \<open>The sweep\<close>

definition sweepable :: "string list \<Rightarrow> string \<times> string \<Rightarrow> bool" where
  "sweepable keep key =
     (let name = snd key in
        \<not> starts_with name ''.tmp-'' \<and> is_chunk_hash name \<and> name \<notin> set keep)"

definition sweep_unreferenced :: "string list \<Rightarrow> store \<Rightarrow> (nat \<times> nat) \<times> store" where
  "sweep_unreferenced keep st =
     (let gone = filter (\<lambda>(key, _). sweepable keep key) (st_files st)
      in ((length gone, sum_list (map (\<lambda>(_, data). length data) gone)),
          st\<lparr>st_files := filter (\<lambda>(key, _). \<not> sweepable keep key) (st_files st)\<rparr>))"

section \<open>The interface: a sink and source of verified chunks\<close>

text \<open>\<open>lookup s h\<close> is what a read of \<open>h\<close> returns.  A sink never overwrites, touches
  only the chunk it is given, and what it stored is read back under its digest.\<close>

locale chunk_store =
  fixes H :: "bytes \<Rightarrow> string"
    and lookup :: "'s \<Rightarrow> string \<Rightarrow> bytes option"
    and put :: "string \<Rightarrow> bytes \<Rightarrow> 's \<Rightarrow> ('e, bool) result \<times> 's"
    and sound :: "'s \<Rightarrow> bool"
  assumes lookup_verified: "lookup s h = Some d \<Longrightarrow> H d = h"
    and put_present: "sound s \<Longrightarrow> put h d s = (Inr b, s') \<Longrightarrow> lookup s' h \<noteq> None"
    and put_sound: "sound s \<Longrightarrow> put h d s = (r, s') \<Longrightarrow> sound s'"
    and put_keeps: "sound s \<Longrightarrow> put h d s = (r, s') \<Longrightarrow> lookup s k = Some x \<Longrightarrow> lookup s' k = Some x"
begin

lemma put_many_sound:
  "sound s \<Longrightarrow> put_many_default put es s = (r, s') \<Longrightarrow> sound s'"
proof (induction es arbitrary: s r s')
  case (Cons e es)
  obtain h d where e: "e = (h, d)" by fastforce
  obtain r1 s1 where p: "put h d s = (r1, s1)" by fastforce
  obtain r2 s2 where q: "put_many_default put es s1 = (r2, s2)" by fastforce
  have "sound s1"
    using put_sound Cons.prems(1) p by blast
  then show ?case
    using Cons.IH [OF _ q] Cons.prems p q e put_sound
    by (auto split: sum.splits)
qed simp

lemma put_many_keeps:
  "sound s \<Longrightarrow> put_many_default put es s = (r, s') \<Longrightarrow> lookup s k = Some x \<Longrightarrow> lookup s' k = Some x"
proof (induction es arbitrary: s r s')
  case (Cons e es)
  obtain h d where e: "e = (h, d)" by fastforce
  obtain r1 s1 where p: "put h d s = (r1, s1)" by fastforce
  obtain r2 s2 where q: "put_many_default put es s1 = (r2, s2)" by fastforce
  have "sound s1" "lookup s1 k = Some x"
    using put_sound put_keeps Cons.prems(1,3) p by blast+
  then show ?case
    using Cons.IH [OF _ q] Cons.prems p q e by (auto split: sum.splits)
qed simp

text \<open>A successful batch leaves every entry readable.\<close>

lemma put_many_present:
  "sound s \<Longrightarrow> put_many_default put es s = (Inr bs, s') \<Longrightarrow> (h, d) \<in> set es \<Longrightarrow> lookup s' h \<noteq> None"
proof (induction es arbitrary: s bs s')
  case (Cons e es)
  obtain h0 d0 where e: "e = (h0, d0)" by fastforce
  obtain b s1 bs' where p: "put h0 d0 s = (Inr b, s1)" "put_many_default put es s1 = (Inr bs', s')"
    using Cons.prems(2) e by (auto split: prod.splits sum.splits)
  have s1: "sound s1"
    using put_sound Cons.prems(1) p(1) by blast
  show ?case
  proof (cases "(h, d) = e")
    case True
    then show ?thesis
      using put_present [OF Cons.prems(1) p(1)] put_many_keeps [OF s1 p(2)] e by auto
  next
    case False
    then show ?thesis
      using Cons.IH [OF s1 p(2)] Cons.prems(3) by simp
  qed
qed simp

lemma put_many_length:
  "put_many_default put es s = (Inr bs, s') \<Longrightarrow> length bs = length es"
  by (induction es arbitrary: s bs) (auto split: prod.splits sum.splits)

end

section \<open>This store provides the interface\<close>

definition store_lookup :: "(bytes \<Rightarrow> string) \<Rightarrow> store \<Rightarrow> string \<Rightarrow> bytes option" where
  "store_lookup H st h = (case fst (store_get H h st) of Inr d \<Rightarrow> Some d | Inl _ \<Rightarrow> None)"

text \<open>No chunk is torn: every file at a chunk's path holds bytes with that digest.\<close>

definition untorn :: "(bytes \<Rightarrow> string) \<Rightarrow> store \<Rightarrow> bool" where
  "untorn H st \<longleftrightarrow>
     (\<forall>h p d. chunk_path h = Inr p \<longrightarrow> bt_get (st_files st) p = Some d \<longrightarrow> H d = h)"

lemma chunk_path_inj: "chunk_path h = Inr p \<Longrightarrow> chunk_path k = Inr p \<Longrightarrow> h = k"
  by (auto simp: chunk_path_def split: if_splits)

lemma store_lookup_Some:
  "store_lookup H st h = Some d \<longleftrightarrow>
     (\<exists>p. chunk_path h = Inr p \<and> bt_get (st_files st) p = Some d \<and> H d = h)"
  by (auto simp: store_lookup_def store_get_def split: sum.splits option.splits)

lemma store_flush_files [simp]: "st_files (snd (store_flush sync_ok st)) = st_files st"
  by (simp add: store_flush_def split: prod.splits)

lemma store_flush_result:
  "store_flush sync_ok st = (r, st') \<Longrightarrow> st_files st' = st_files st"
  using store_flush_files [of sync_ok st] by simp

lemma store_put_cases:
  assumes "store_put H sync_ok disk_ok h d st = (r, st')"
  obtains (same) "st_files st' = st_files st" "\<forall>b. r = Inr b \<longrightarrow> H d = h \<and> (\<exists>p x. chunk_path h = Inr p \<and> bt_get (st_files st) p = Some x)"
  | (stored) p where "H d = h" "chunk_path h = Inr p" "bt_get (st_files st) p = None"
      "st_files st' = bt_insert p d (st_files st)"
proof (cases "H d = h \<and> disk_ok \<and> (\<exists>p. chunk_path h = Inr p \<and> bt_get (st_files st) p = None)")
  case True
  then obtain p where p: "chunk_path h = Inr p" "bt_get (st_files st) p = None"
    by blast
  have "st_files st' = bt_insert p d (st_files st)"
  proof (cases "st_deferred st")
    case False
    then show ?thesis
      using assms True p by (auto simp: store_put_def bt_contains_def)
  next
    case dfr: True
    show ?thesis
      using assms True p dfr
      by (auto simp: store_put_def bt_contains_def Let_def split: if_splits prod.splits sum.splits
          dest: store_flush_result)
  qed
  then show thesis
    using stored True p by blast
next
  case False
  then have "st_files st' = st_files st \<and>
    (\<forall>b. r = Inr b \<longrightarrow> H d = h \<and> (\<exists>p x. chunk_path h = Inr p \<and> bt_get (st_files st) p = Some x))"
    using assms
    by (auto simp: store_put_def bt_contains_def Let_def split: if_splits sum.splits)
  then show thesis
    using same by blast
qed

interpretation local_store: chunk_store H "store_lookup H" "store_put H sync_ok disk_ok" "untorn H"
  for H sync_ok disk_ok
proof unfold_locales
  fix s :: store and h d
  assume "store_lookup H s h = Some d"
  then show "H d = h" by (auto simp: store_lookup_Some)
next
  fix s s' :: store and h d b
  assume s: "untorn H s" "store_put H sync_ok disk_ok h d s = (Inr b, s')"
  show "store_lookup H s' h \<noteq> None"
    using s(2)
  proof (cases rule: store_put_cases)
    case same
    then obtain p x where "chunk_path h = Inr p" "bt_get (st_files s') p = Some x" "H x = h"
      using s(1) by (auto simp: untorn_def)
    then have "store_lookup H s' h = Some x"
      by (auto simp: store_lookup_Some)
    then show ?thesis by simp
  next
    case (stored p)
    then have "store_lookup H s' h = Some d"
      by (auto simp: store_lookup_Some)
    then show ?thesis by simp
  qed
next
  fix s s' :: store and h d r
  assume s: "untorn H s" "store_put H sync_ok disk_ok h d s = (r, s')"
  show "untorn H s'"
    using s(2)
  proof (cases rule: store_put_cases)
    case (stored p)
    then show ?thesis
      using s(1) chunk_path_inj by (auto simp: untorn_def split: if_splits)
  qed (use s in \<open>simp add: untorn_def\<close>)
next
  fix s s' :: store and h d r k x
  assume s: "untorn H s" "store_put H sync_ok disk_ok h d s = (r, s')" "store_lookup H s k = Some x"
  show "store_lookup H s' k = Some x"
    using s(2)
  proof (cases rule: store_put_cases)
    case (stored p)
    obtain q where q: "chunk_path k = Inr q" "bt_get (st_files s) q = Some x" "H x = k"
      using s(3) unfolding store_lookup_Some by blast
    then have "q \<noteq> p"
      using stored(3) by auto
    then have "bt_get (st_files s') q = Some x"
      using q(2) stored(4) by simp
    then show ?thesis
      unfolding store_lookup_Some using q by blast
  qed (use s in \<open>simp add: store_lookup_Some\<close>)
qed

section \<open>What the store promises\<close>

text \<open>Content addressing is verified on every read: whatever is on disk, a read
  returns only bytes with the requested digest; a torn chunk is reported missing
  and removed, and storing its bytes again makes it readable.\<close>

theorem store_get_verified:
  "(fst (store_get H h st) = Inr d \<longrightarrow> H d = h)
   \<and> (chunk_path h = Inr p \<and> bt_get (st_files st) p = Some torn \<and> H torn \<noteq> h \<and> H d = h
      \<longrightarrow> store_get H h st = (Inl (NotFound h), st\<lparr>st_files := bt_remove p (st_files st)\<rparr>)
        \<and> fst (store_get H h (snd (store_put H sync_ok True h d (snd (store_get H h st))))) = Inr d)"
proof (intro conjI impI)
  assume "fst (store_get H h st) = Inr d"
  then show "H d = h"
    by (auto simp: store_get_def split: sum.splits option.splits if_splits)
next
  assume torn: "chunk_path h = Inr p \<and> bt_get (st_files st) p = Some torn \<and> H torn \<noteq> h \<and> H d = h"
  then show g: "store_get H h st = (Inl (NotFound h), st\<lparr>st_files := bt_remove p (st_files st)\<rparr>)"
    by (simp add: store_get_def)
  let ?st = "st\<lparr>st_files := bt_remove p (st_files st)\<rparr>"
  obtain r st' where put: "store_put H sync_ok True h d ?st = (r, st')"
    by fastforce
  have "st_files st' = bt_insert p d (st_files ?st)"
    using put
  proof (cases rule: store_put_cases)
    case same
    then have "\<forall>b. r \<noteq> Inr b"
      using torn by auto
    then show ?thesis
      using put torn
      by (auto simp: store_put_def bt_contains_def Let_def split: if_splits prod.splits sum.splits
          dest: store_flush_result)
  qed (use torn in simp)
  then show "fst (store_get H h (snd (store_put H sync_ok True h d (snd (store_get H h st))))) = Inr d"
    using torn put g by (simp add: store_get_def)
qed

text \<open>A digest to instantiate \<open>H\<close> with.\<close>

definition hex_first :: "bytes \<Rightarrow> string" where
  "hex_first d = (if hd (d @ ''x'') = CHR ''a'' then ''aa'' else ''bb'')"

lemma store_get_verified_witness:
  "fst (store_get hex_first ''aa'' (snd (store_put hex_first (\<lambda>_. True) True ''aa'' ''ax''
     (snd (store_get hex_first ''aa'' (open_store [((''aa'', ''aa''), ''zz'')])))))) = Inr ''ax''"
proof -
  have pre: "chunk_path ''aa'' = Inr (''aa'', ''aa'')"
      "bt_get (st_files (open_store [((''aa'', ''aa''), ''zz'')])) (''aa'', ''aa'') = Some ''zz''"
      "hex_first ''zz'' \<noteq> ''aa''" "hex_first ''ax'' = ''aa''"
    by (simp_all add: chunk_path_def is_hex_digit_def open_store_def hex_first_def)
  show ?thesis
    using store_get_verified [of hex_first "''aa''" "open_store [((''aa'', ''aa''), ''zz'')]" "''ax''"
        "(''aa'', ''aa'')" "''zz''" "\<lambda>_. True"] pre by blast
qed

lemma sync_dirs_props:
  assumes "sync_dirs sync_ok synced ds = (synced', r)" "\<forall>d\<in>set synced. sync_ok d"
  shows "(\<forall>d\<in>set synced'. sync_ok d) \<and> set synced \<subseteq> set synced'
    \<and> (case r of None \<Rightarrow> set ds \<subseteq> set synced'
       | Some d \<Rightarrow> d \<in> set ds \<and> d \<notin> set synced' \<and> \<not> sync_ok d
           \<and> set (takeWhile (\<lambda>y. y \<noteq> d) ds) \<subseteq> set synced')"
  using assms by (induction sync_ok synced ds rule: sync_dirs.induct) (auto split: if_splits option.splits)

lemma filter_first:
  assumes "x \<in> set xs" "P x" "\<forall>y\<in>set (takeWhile (\<lambda>y. y \<noteq> x) xs). \<not> P y"
  shows "\<exists>rest. filter P xs = x # rest"
  using assms
proof (induction xs)
  case (Cons a xs)
  then show ?case
    by (cases "a = x") auto
qed simp

lemma flush_ok_empty: "store_flush sync_ok st = (Inr u, st') \<Longrightarrow> st_pending st' = []"
  by (auto simp: store_flush_def flush_batch_def split: prod.splits option.splits)

lemma store_put_threshold:
  assumes few: "length (st_pending st) < DEFERRED_FLUSH_THRESHOLD"
    and ok: "fst (store_put H sync_ok disk_ok h data st) = Inr b"
  shows "length (st_pending (snd (store_put H sync_ok disk_ok h data st))) < DEFERRED_FLUSH_THRESHOLD"
proof -
  have pos: "0 < DEFERRED_FLUSH_THRESHOLD"
    by (simp add: DEFERRED_FLUSH_THRESHOLD_def)
  obtain p where p: "H data = h" "chunk_path h = Inr p"
    using ok by (auto simp: store_put_def split: if_splits sum.splits)
  consider (noop) "bt_contains (st_files st) p \<or> \<not> disk_ok"
    | (wrote) "\<not> bt_contains (st_files st) p" "disk_ok" by blast
  then show ?thesis
  proof cases
    case noop
    then have "snd (store_put H sync_ok disk_ok h data st) = st"
      using p by (cases "bt_contains (st_files st) p") (simp_all add: store_put_def)
    then show ?thesis
      using few by simp
  next
    case wrote
    let ?st = "st\<lparr>st_files := bt_insert p data (st_files st), st_pending := st_pending st @ [fst p]\<rparr>"
    obtain r st' where fl: "store_flush sync_ok ?st = (r, st')"
      by fastforce
    show ?thesis
    proof (cases "st_deferred st \<and> DEFERRED_FLUSH_THRESHOLD \<le> length (st_pending ?st)")
      case True
      then have "store_put H sync_ok disk_ok h data st
          = (case r of Inl e \<Rightarrow> (Inl e, st') | Inr _ \<Rightarrow> (Inr True, st'))"
        using p wrote fl by (simp add: store_put_def)
      moreover obtain u where u: "r = Inr u"
        using ok calculation by (cases r) auto
      ultimately show ?thesis
        using flush_ok_empty [OF fl [unfolded u]] pos by simp
    next
      case False
      then show ?thesis
        using p wrote few by (cases "st_deferred st") (simp_all add: store_put_def Let_def)
    qed
  qed
qed

text \<open>The flush queue loses nothing: a successful flush has synced every queued
  directory and empties the queue; a failed one keeps exactly the entries of
  directories it has not synced, in order, the failing one first; and a put that
  succeeds leaves fewer than 64 unflushed puts behind.\<close>

theorem flush_queue:
  assumes "store_flush sync_ok st = (r, st')"
  shows "(r = Inr () \<longrightarrow> st_pending st' = [] \<and> (\<forall>d\<in>set (st_pending st). sync_ok d))
    \<and> (\<forall>d. r = Inl (SyncFailed d) \<longrightarrow> (\<exists>rest. st_pending st' = d # rest) \<and> \<not> sync_ok d
         \<and> (\<forall>x\<in>set (st_pending st). x \<in> set (st_pending st') \<or> sync_ok x)
         \<and> (\<exists>P. st_pending st' = filter P (st_pending st)))
    \<and> (\<forall>b h data. length (st_pending st) < DEFERRED_FLUSH_THRESHOLD
         \<and> fst (store_put H sync_ok disk_ok h data st) = Inr b
         \<longrightarrow> length (st_pending (snd (store_put H sync_ok disk_ok h data st))) < DEFERRED_FLUSH_THRESHOLD)"
proof -
  obtain synced e where sd: "sync_dirs sync_ok [] (st_pending st) = (synced, e)"
    by fastforce
  note props = sync_dirs_props [OF sd, simplified]
  have ok: "r = Inr () \<longrightarrow> st_pending st' = [] \<and> (\<forall>d\<in>set (st_pending st). sync_ok d)"
    using assms sd props by (cases e) (auto simp: store_flush_def flush_batch_def)
  have err: "(\<exists>rest. st_pending st' = d # rest) \<and> \<not> sync_ok d
      \<and> (\<forall>x\<in>set (st_pending st). x \<in> set (st_pending st') \<or> sync_ok x)
      \<and> (\<exists>P. st_pending st' = filter P (st_pending st))" if "r = Inl (SyncFailed d)" for d
  proof -
    have e: "e = Some d" "st_pending st' = filter (\<lambda>d. d \<notin> set synced) (st_pending st)"
      using assms sd that by (auto simp: store_flush_def flush_batch_def split: option.splits)
    have d: "d \<in> set (st_pending st)" "d \<notin> set synced" "\<not> sync_ok d"
        "set (takeWhile (\<lambda>y. y \<noteq> d) (st_pending st)) \<subseteq> set synced" "\<forall>d\<in>set synced. sync_ok d"
      using props e(1) by simp_all
    have "\<exists>rest. st_pending st' = d # rest"
      unfolding e(2) by (rule filter_first) (use d in auto)
    moreover have "\<forall>x\<in>set (st_pending st). x \<in> set (st_pending st') \<or> sync_ok x"
      using d(5) e(2) by auto
    ultimately show ?thesis
      using d(3) e(2) by blast
  qed
  have thr: "length (st_pending (snd (store_put H sync_ok disk_ok h data st))) < DEFERRED_FLUSH_THRESHOLD"
    if "length (st_pending st) < DEFERRED_FLUSH_THRESHOLD"
      "fst (store_put H sync_ok disk_ok h data st) = Inr b" for b h data
    by (rule store_put_threshold [OF that])
  show ?thesis
    using ok err thr by blast
qed

lemma flush_queue_witness:
  "(\<exists>rest. st_pending (snd (store_flush (\<lambda>d. d = ''aa'')
       ((open_deferred [])\<lparr>st_pending := [''aa'', ''bb'', ''aa'', ''cc'']\<rparr>))) = ''bb'' # rest)"
proof -
  let ?st = "(open_deferred [])\<lparr>st_pending := [''aa'', ''bb'', ''aa'', ''cc'']\<rparr>"
  have f: "store_flush (\<lambda>d. d = ''aa'') ?st
      = (Inl (SyncFailed ''bb''), ?st\<lparr>st_pending := [''bb'', ''cc'']\<rparr>)"
    by (simp add: store_flush_def flush_batch_def open_deferred_def open_store_def)
  show ?thesis
    using flush_queue [OF f] f by auto
qed

text \<open>The sweep deletes only unreferenced blobs: afterwards a file is gone if and
  only if its name is a chunk digest outside \<open>keep\<close>; every chunk to keep stays
  readable, temporaries and foreign files are untouched, and the counts are those
  of the files removed.\<close>

theorem sweep_exact:
  assumes "sweep_unreferenced keep st = ((n, bytes), st')" "bt_wf (st_files st)"
  shows "(\<forall>k. bt_get (st_files st') k = (if sweepable keep k then None else bt_get (st_files st) k))
    \<and> (\<forall>h\<in>set keep. store_lookup H st' h = store_lookup H st h)
    \<and> n + length (st_files st') = length (st_files st)
    \<and> st_pending st' = st_pending st"
proof -
  have st': "st_files st' = filter (\<lambda>kv. \<not> sweepable keep (fst kv)) (st_files st)"
    "n = length (filter (\<lambda>kv. sweepable keep (fst kv)) (st_files st))" "st_pending st' = st_pending st"
    using assms(1) by (auto simp: sweep_unreferenced_def Let_def split_def)
  have get: "bt_get (st_files st') k = (if sweepable keep k then None else bt_get (st_files st) k)" for k
    unfolding st'(1) using map_of_filter_fst [of "\<lambda>k. \<not> sweepable keep k" "st_files st" k] by simp
  moreover have "store_lookup H st' h = store_lookup H st h" if h: "h \<in> set keep" for h
  proof -
    have "\<not> sweepable keep p" if "chunk_path h = Inr p" for p
      using that h by (auto simp: chunk_path_def sweepable_def Let_def split: if_splits)
    then have "store_lookup H st' h = Some d \<longleftrightarrow> store_lookup H st h = Some d" for d
      unfolding store_lookup_Some get by auto
    then show ?thesis
      by (metis option.exhaust)
  qed
  moreover have "n + length (st_files st') = length (st_files st)"
    unfolding st' using sum_length_filter_compl [of "\<lambda>kv. sweepable keep (fst kv)" "st_files st"] by simp
  ultimately show ?thesis
    using st'(3) by blast
qed

lemma sweep_exact_witness:
  "st_files (snd (sweep_unreferenced [] (open_store
     [((''aa'', replicate 64 (CHR ''a'')), ''zz''), ((''bb'', ''x''), ''t'')]))) = [((''bb'', ''x''), ''t'')]"
proof -
  let ?st = "open_store [((''aa'', replicate 64 (CHR ''a'')), ''zz''), ((''bb'', ''x''), ''t'')]"
  have w: "bt_wf (st_files ?st)"
    by (simp add: open_store_def bt_wf_def)
  have s: "sweep_unreferenced [] ?st = ((1, 2), ?st\<lparr>st_files := [((''bb'', ''x''), ''t'')]\<rparr>)"
    by code_simp
  show ?thesis
    using sweep_exact [OF s w] s by simp
qed

text \<open>A batch of puts is all or error: when the default \<open>put_many\<close> of the store
  succeeds it reports one result per entry and every entry is readable under its
  digest; whatever it returns, chunks readable before stay readable.\<close>

theorem store_put_many:
  assumes "untorn H st" "put_many_default (store_put H sync_ok disk_ok) es st = (r, st')"
  shows "(\<forall>bs. r = Inr bs \<longrightarrow> length bs = length es
        \<and> (\<forall>(h, d)\<in>set es. \<exists>x. store_lookup H st' h = Some x \<and> H x = h))
    \<and> (\<forall>k x. store_lookup H st k = Some x \<longrightarrow> store_lookup H st' k = Some x)
    \<and> untorn H st'"
proof -
  have "\<exists>x. store_lookup H st' h = Some x \<and> H x = h" if "r = Inr bs" "(h, d) \<in> set es" for bs h d
  proof -
    have "store_lookup H st' h \<noteq> None"
      using local_store.put_many_present [OF assms(1)] assms(2) that by blast
    then obtain x where "store_lookup H st' h = Some x"
      by blast
    then show ?thesis
      using local_store.lookup_verified by blast
  qed
  moreover have "length bs = length es" if "r = Inr bs" for bs
    using local_store.put_many_length assms(2) that by blast
  ultimately show ?thesis
    using local_store.put_many_keeps [OF assms] local_store.put_many_sound [OF assms] by blast
qed

lemma store_put_many_witness:
  "\<exists>x. store_lookup hex_first (snd (put_many_default (store_put hex_first (\<lambda>_. True) True)
     [(''aa'', ''ax''), (''bb'', ''by'')] (open_store []))) ''bb'' = Some x \<and> hex_first x = ''bb''"
proof -
  have u: "untorn hex_first (open_store [])"
    by (simp add: untorn_def open_store_def)
  have p: "put_many_default (store_put hex_first (\<lambda>_. True) True)
     [(''aa'', ''ax''), (''bb'', ''by'')] (open_store [])
     = (Inr [True, True], open_store [((''aa'', ''aa''), ''ax''), ((''bb'', ''bb''), ''by'')])"
    by code_simp
  show ?thesis
    using store_put_many [OF u p] p by simp
qed

end
