(* ===== verification/Chunk_Frame.thy ===== *)
theory Chunk_Frame
imports Codec Manifest
begin

text \<open>
  \<open>core/src/chunk_frame.rs\<close>: the frame of the batched chunk transfer, a \<open>u32\<close>
  count and per entry a 64 byte digest, a \<open>u64\<close> length and the blob.  The decoder
  is an inverse of the encoder in both directions (\<open>chunk_frame_exact\<close>), rests on
  no length it has not checked, and so never reads past the frame.
\<close>

definition PUT_MANY_MAX_ENTRIES :: nat where "PUT_MANY_MAX_ENTRIES = 256"
definition PUT_MANY_MAX_BYTES :: nat where "PUT_MANY_MAX_BYTES = 32 * 1024 * 1024"
definition GET_MANY_MAX_HASHES :: nat where "GET_MANY_MAX_HASHES = 128"
definition GET_MANY_TARGET_BYTES :: nat where "GET_MANY_TARGET_BYTES = 32 * 1024 * 1024"

definition HASH_LEN :: nat where "HASH_LEN = 64"
definition ENTRY_HEADER :: nat where "ENTRY_HEADER = HASH_LEN + 8"

datatype frame_error =
    FrameTooShort nat
  | FrameEndsInside nat nat
  | FrameBadHash nat
  | FrameBlobTruncated nat nat nat
  | FrameTrailing nat nat

definition encode_entry :: "string \<times> bytes \<Rightarrow> bytes" where
  "encode_entry e = fst e @ le_bytes 8 (length (snd e)) @ snd e"

definition frame_encode :: "(string \<times> bytes) list \<Rightarrow> bytes" where
  "frame_encode entries = le_bytes 4 (length entries) @ concat (map encode_entry entries)"

fun decode_entries ::
  "nat \<Rightarrow> nat \<Rightarrow> bytes \<Rightarrow> (frame_error, (string \<times> bytes) list \<times> bytes) result" where
  "decode_entries i 0 rest = Inr ([], rest)"
| "decode_entries i (Suc count) rest =
     (if length rest < ENTRY_HEADER then Inl (FrameEndsInside i (length rest))
      else
        (let hash = take HASH_LEN rest;
             blob_len = from_le_bytes (take 8 (drop HASH_LEN rest));
             body = drop ENTRY_HEADER rest
         in if \<not> list_all is_digest_byte hash then Inl (FrameBadHash i)
            else if length body < blob_len then Inl (FrameBlobTruncated i blob_len (length body))
            else rbind (decode_entries (Suc i) count (drop blob_len body))
                   (\<lambda>(es, rest'). Inr ((hash, take blob_len body) # es, rest'))))"

definition frame_decode :: "bytes \<Rightarrow> (frame_error, (string \<times> bytes) list) result" where
  "frame_decode bytes =
     (if length bytes < 4 then Inl (FrameTooShort (length bytes))
      else
        (let count = from_le_bytes (take 4 bytes)
         in rbind (decode_entries 0 count (drop 4 bytes))
              (\<lambda>(entries, rest).
                 if rest \<noteq> [] then Inl (FrameTrailing (length rest) count) else Inr entries)))"

text \<open>What the encoder expects of its input: digests of the right shape, a count
  that fits \<open>u32\<close> and lengths that fit \<open>u64\<close>.\<close>

definition frame_ok :: "(string \<times> bytes) list \<Rightarrow> bool" where
  "frame_ok es \<longleftrightarrow> length es < 2 ^ 32
     \<and> (\<forall>(h, b)\<in>set es. is_chunk_hash h \<and> length b < 2 ^ 64)"

lemma decode_entries_encode:
  assumes "\<forall>(h, b)\<in>set es. is_chunk_hash h \<and> length b < 2 ^ 64"
  shows "decode_entries i (length es) (concat (map encode_entry es) @ rest) = Inr (es, rest)"
  using assms
proof (induction es arbitrary: i)
  case (Cons e es)
  obtain h b where e: "e = (h, b)"
    by fastforce
  have h: "length h = 64" "list_all is_digest_byte h" and b: "length b mod 256 ^ 8 = length b"
    using Cons.prems by (auto simp: e is_chunk_hash_def)
  show ?case
    using Cons h b
    by (simp add: e encode_entry_def ENTRY_HEADER_def HASH_LEN_def from_le_le_bytes)
qed simp

lemma decode_entries_sound:
  assumes "decode_entries i n bs = Inr (es, rest)"
  shows "length es = n \<and> concat (map encode_entry es) @ rest = bs
    \<and> (\<forall>(h, b)\<in>set es. is_chunk_hash h \<and> length b < 2 ^ 64)"
  using assms
proof (induction i n bs arbitrary: es rule: decode_entries.induct)
  case (2 i count bs)
  define h where "h = take HASH_LEN bs"
  define l where "l = from_le_bytes (take 8 (drop HASH_LEN bs))"
  define body where "body = drop ENTRY_HEADER bs"
  have g: "\<not> length bs < ENTRY_HEADER" "list_all is_digest_byte h" "\<not> length body < l"
    using "2.prems" by (auto simp: h_def l_def body_def Let_def split: if_splits)
  then obtain es' where es': "decode_entries (Suc i) count (drop l body) = Inr (es', rest)"
    "es = (h, take l body) # es'"
    using "2.prems" by (auto simp: h_def l_def body_def Let_def rbind_ok_iff split: if_splits)
  have IH: "length es' = count \<and> concat (map encode_entry es') @ rest = drop l body
      \<and> (\<forall>(h, b)\<in>set es'. is_chunk_hash h \<and> length b < 2 ^ 64)"
    using "2.IH" [OF g(1) refl refl refl] g es'(1)
    by (simp add: h_def l_def body_def)
  have len: "length (take 8 (drop HASH_LEN bs)) = 8" "length h = 64" "length (take l body) = l"
    using g by (simp_all add: ENTRY_HEADER_def HASH_LEN_def h_def)
  then have "le_bytes 8 l = take 8 (drop HASH_LEN bs)" and l: "l < 2 ^ 64"
    using le_from_le_bytes [of "take 8 (drop HASH_LEN bs)"]
      from_le_bytes_less [of "take 8 (drop HASH_LEN bs)"] by (simp_all add: l_def)
  then have "encode_entry (h, take l body) @ drop l body = bs"
    using len by (simp add: encode_entry_def h_def body_def ENTRY_HEADER_def drop_drop
        flip: append_assoc) (metis add.commute append.assoc append_take_drop_id drop_drop)
  then show ?case
    using IH es'(2) g(2) len l by (auto simp: is_chunk_hash_def)
qed simp

interpretation frame: canonical_codec frame_encode frame_decode frame_ok
proof unfold_locales
  fix es assume ok: "frame_ok es"
  then have "length es mod 256 ^ 4 = length es"
    by (simp add: frame_ok_def)
  then show "frame_decode (frame_encode es) = Inr es"
    using ok decode_entries_encode [of es 0 "[]"]
    by (simp add: frame_decode_def frame_encode_def frame_ok_def from_le_le_bytes)
next
  fix bs es assume dec: "frame_decode bs = Inr es"
  define n where "n = from_le_bytes (take 4 bs)"
  have len: "4 \<le> length bs" and d: "decode_entries 0 n (drop 4 bs) = Inr (es, [])"
    using dec by (auto simp: frame_decode_def n_def Let_def rbind_ok_iff split: if_splits)
  have "n < 2 ^ 32" "le_bytes 4 n = take 4 bs"
    using len from_le_bytes_less [of "take 4 bs"] le_from_le_bytes [of "take 4 bs"]
    by (simp_all add: n_def)
  then show "frame_ok es \<and> frame_encode es = bs"
    using decode_entries_sound [OF d] by (auto simp: frame_ok_def frame_encode_def)
qed

text \<open>C30: the chunk frame is an exact codec: decoding accepts precisely the
  encodings of well-shaped entry lists, and returns the list that was encoded;
  every other byte string, truncated, oversized or with trailing bytes, is an
  error.\<close>

theorem chunk_frame_exact:
  "frame_decode bs = Inr es \<longleftrightarrow> frame_ok es \<and> frame_encode es = bs"
  by (rule frame.dec_iff)

text \<open>Nothing the decoder returns exceeds its input: each entry costs at least
  its 72 byte header plus its blob, whatever count the frame declares.\<close>

theorem chunk_frame_bounded:
  assumes "frame_decode bs = Inr es"
  shows "4 + (\<Sum>(h, b)\<leftarrow>es. ENTRY_HEADER + length b) = length bs"
proof -
  have es: "frame_ok es" "frame_encode es = bs"
    using assms frame.dec_sound by blast+
  have "(\<Sum>(h, b)\<leftarrow>xs. ENTRY_HEADER + length b) = length (concat (map encode_entry xs))"
    if "\<forall>(h, b)\<in>set xs. is_chunk_hash h \<and> length b < 2 ^ 64" for xs
    using that by (induction xs)
      (auto simp: encode_entry_def ENTRY_HEADER_def HASH_LEN_def is_chunk_hash_def)
  then have "(\<Sum>(h, b)\<leftarrow>es. ENTRY_HEADER + length b) = length (concat (map encode_entry es))"
    using es(1) by (simp add: frame_ok_def)
  then show ?thesis
    using es(2) by (auto simp: frame_encode_def)
qed

lemma chunk_frame_bounded_witness:
  "4 + (\<Sum>(h, b)\<leftarrow>[(sample_hash, ''xy'')]. ENTRY_HEADER + length b)
     = length (frame_encode [(sample_hash, ''xy'')])"
  by (rule chunk_frame_bounded)
    (rule frame.dec_enc, simp add: frame_ok_def sample_hash_ok)

end
