(* ===== verification/Scan.thy ===== *)
theory Scan
imports Manifest
begin

text \<open>
  \<open>core/src/scan.rs\<close>: which paths of a workspace sync.  The \<open>[sync]\<close> rules of
  \<open>pear.toml\<close>, the traversal filters, and the two passes of \<open>scan\<close>.  The TOML parser and
  the \<open>ignore\<close> crate's directory walker are parameters: a walk is the list of what the
  walker yielded under a filter, and the list of entries it consulted the filter on.
  Warnings printed to the terminal are not modelled.
\<close>

section \<open>The \<open>[sync]\<close> rules\<close>

definition BUILTIN_EXCLUDES :: "string list" where
  "BUILTIN_EXCLUDES = [''node_modules'', ''target'', ''dist'', ''build'', ''__pycache__'', ''.venv'']"

record sync_config =
  sc_include :: "string list"
  sc_exclude :: "string list"

text \<open>\<open>rel.rsplit('/').next()\<close> and a \<open>DirEntry\<close>'s file name.\<close>

definition base_name :: "string \<Rightarrow> string" where
  "base_name rel = last (split_on CHR ''/'' rel)"

definition matches_prefix :: "string \<Rightarrow> string \<Rightarrow> bool" where
  "matches_prefix rel prefix =
     (rel = prefix
      \<or> (case strip_prefix rel prefix of None \<Rightarrow> False | Some rest \<Rightarrow> starts_with rest ''/''))"

definition sc_includes :: "sync_config \<Rightarrow> string \<Rightarrow> bool" where
  "sc_includes cfg rel = list_ex (matches_prefix rel) (sc_include cfg)"

definition sc_excludes :: "sync_config \<Rightarrow> string \<Rightarrow> bool" where
  "sc_excludes cfg rel = list_ex (matches_prefix rel) (sc_exclude cfg)"

definition has_include_below :: "sync_config \<Rightarrow> string \<Rightarrow> bool" where
  "has_include_below cfg rel =
     list_ex (\<lambda>p. case strip_prefix p rel of
                    None \<Rightarrow> False
                  | Some rest \<Rightarrow> starts_with rest ''/'' \<and> 1 < length rest) (sc_include cfg)"

function shadowed :: "sync_config \<Rightarrow> string \<Rightarrow> bool" where
  "shadowed cfg rel =
     (case rfind CHR ''/'' rel of
        None \<Rightarrow> False
      | Some idx \<Rightarrow>
          (let ancestor = take idx rel in
           if sc_includes cfg ancestor then False
           else if base_name ancestor \<in> set BUILTIN_EXCLUDES then True
           else shadowed cfg ancestor))"
  by auto
termination
  by (relation "measure (length \<circ> snd)") (auto dest: rfind_less)

declare shadowed.simps [simp del]

fun trim_left :: "char \<Rightarrow> string \<Rightarrow> string" where
  "trim_left c [] = []"
| "trim_left c (x # xs) = (if x = c then trim_left c xs else x # xs)"

definition trim_matches :: "char \<Rightarrow> string \<Rightarrow> string" where
  "trim_matches c s = rev (trim_left c (rev (trim_left c s)))"

definition sc_normalized :: "sync_config \<Rightarrow> sync_config" where
  "sc_normalized cfg =
     \<lparr>sc_include = filter (\<lambda>p. p \<noteq> []) (map (trim_matches CHR ''/'') (sc_include cfg)),
      sc_exclude = filter (\<lambda>p. p \<noteq> []) (map (trim_matches CHR ''/'') (sc_exclude cfg))\<rparr>"

text \<open>An absent, unreadable or unparseable file means no overrides.\<close>

definition load_sync_config :: "('b \<Rightarrow> sync_config option) \<Rightarrow> 'b read_outcome \<Rightarrow> sync_config" where
  "load_sync_config from_str r =
     (case r of
        ReadOk text \<Rightarrow>
          (case from_str text of
             Some cfg \<Rightarrow> sc_normalized cfg
           | None \<Rightarrow> \<lparr>sc_include = [], sc_exclude = []\<rparr>)
      | ReadNotFound \<Rightarrow> \<lparr>sc_include = [], sc_exclude = []\<rparr>
      | ReadFailed \<Rightarrow> \<lparr>sc_include = [], sc_exclude = []\<rparr>)"

definition is_dotenv :: "string \<Rightarrow> bool" where
  "is_dotenv rel_path = starts_with (base_name rel_path) ''.env''"

section \<open>Entries and the traversal filters\<close>

datatype file_kind = KFile | KDir | KSymlink | KOther

datatype stat = StatOk "64 word" "32 word" int int | StatGone | StatFailed   \<comment> \<open>length, raw mode, mtime\<close>

text \<open>Where a path lies: the root itself, outside it, or below it, with its relative form
  (lossy when it is not UTF-8) and what \<open>display\<close> prints.\<close>

datatype located = AtRoot | Outside | Below string bool string

record dir_entry =
  de_path :: located
  de_kind :: "file_kind option"
  de_stat :: stat

fun lossy_rel :: "located \<Rightarrow> string" where
  "lossy_rel (Below rel utf8 shown) = rel"
| "lossy_rel AtRoot = []"
| "lossy_rel Outside = []"

fun path_depth :: "located \<Rightarrow> nat" where
  "path_depth (Below rel utf8 shown) = length (split_on CHR ''/'' rel)"
| "path_depth AtRoot = 0"
| "path_depth Outside = 0"

definition is_not_excluded_dir :: "sync_config \<Rightarrow> dir_entry \<Rightarrow> bool" where
  "is_not_excluded_dir cfg entry =
     (let rel = lossy_rel (de_path entry);
          depth = path_depth (de_path entry);
          pear_named = eq_ignore_ascii_case (base_name rel) ''.pear''
      in if depth = 0 then True
         else if de_kind entry \<noteq> Some KDir then
           (if depth = 1 \<and> pear_named then False
            else if sc_excludes cfg rel then False
            else if sc_includes cfg rel then True
            else \<not> shadowed cfg rel)
         else if pear_named then depth \<noteq> 1
         else if sc_excludes cfg rel then False
         else if sc_includes cfg rel then True
         else if shadowed cfg rel then False
         else if base_name rel \<in> set BUILTIN_EXCLUDES then has_include_below cfg rel
         else True)"

definition is_scannable_pass1 :: "sync_config \<Rightarrow> dir_entry \<Rightarrow> bool" where
  "is_scannable_pass1 cfg entry =
     (if \<not> is_not_excluded_dir cfg entry then False
      else if path_depth (de_path entry) = 1 \<and> de_kind entry = Some KDir
        then base_name (lossy_rel (de_path entry)) \<noteq> ''.git''
      else True)"

text \<open>\<open>Path::starts_with(root.join(".git"))\<close>.\<close>

definition under_git :: "string \<Rightarrow> bool" where
  "under_git rel = (rel = ''.git'' \<or> starts_with rel ''.git/'')"

definition is_scannable_pass2 :: "sync_config \<Rightarrow> dir_entry \<Rightarrow> bool" where
  "is_scannable_pass2 cfg entry =
     (if under_git (lossy_rel (de_path entry)) then \<not> sc_excludes cfg (lossy_rel (de_path entry))
      else is_not_excluded_dir cfg entry)"

text \<open>The directories the first filter reports as pruned.\<close>

definition reports_pruned :: "sync_config \<Rightarrow> dir_entry \<Rightarrow> bool" where
  "reports_pruned cfg entry =
     (let rel = lossy_rel (de_path entry); name = base_name rel in
      \<not> is_scannable_pass1 cfg entry \<and> de_kind entry = Some KDir
      \<and> \<not> eq_ignore_ascii_case name ''.pear'' \<and> name \<noteq> ''.git''
      \<and> (sc_excludes cfg rel \<or> shadowed cfg rel \<or> name \<in> set BUILTIN_EXCLUDES))"

section \<open>The scan\<close>

record scanned_file =
  sf_rel_path :: string
  sf_size :: "64 word"
  sf_mode :: "32 word"
  sf_mtime_secs :: int
  sf_mtime_nanos :: int

record scan_outcome =
  so_files :: "scanned_file list"
  so_unreadable :: "string list"
  so_unreadable_ignored :: "string list"
  so_skipped :: "string list"
  so_excluded :: "string list"

record scan_state =
  ss_found :: "(string, scanned_file) btree"
  ss_unreadable :: "string list"
  ss_unreadable_ignored :: "string list"
  ss_skipped :: "string list"

text \<open>What a walker yields: an entry, or an error with the path it carries.\<close>

datatype walk_event = WalkEntry dir_entry | WalkError "located option"

fun rel_string :: "located \<Rightarrow> scan_state \<Rightarrow> string option \<times> scan_state" where
  "rel_string AtRoot st = (None, st)"
| "rel_string Outside st = (None, st)"
| "rel_string (Below rel utf8 shown) st =
     (if utf8 then (Some rel, st) else (None, st\<lparr>ss_skipped := ss_skipped st @ [shown]\<rparr>))"

definition unix_mode :: "32 word \<Rightarrow> 32 word" where
  "unix_mode raw = and raw 4095"

definition scanned_file_of :: "dir_entry \<Rightarrow> scan_state \<Rightarrow> scanned_file option \<times> scan_state" where
  "scanned_file_of entry st =
     (case rel_string (de_path entry) st of
        (None, st) \<Rightarrow> (None, st)
      | (Some rel, st) \<Rightarrow>
          (case de_stat entry of
             StatGone \<Rightarrow> (None, st)
           | StatFailed \<Rightarrow> (None, st\<lparr>ss_unreadable := ss_unreadable st @ [rel]\<rparr>)
           | StatOk len mode secs nanos \<Rightarrow>
               (Some \<lparr>sf_rel_path = rel, sf_size = len, sf_mode = unix_mode mode,
                      sf_mtime_secs = secs, sf_mtime_nanos = nanos\<rparr>, st)))"

datatype scan_error = RootUnreadable

definition note_error :: "(string \<Rightarrow> scan_state \<Rightarrow> scan_state) \<Rightarrow> located option \<Rightarrow> scan_state \<Rightarrow> (scan_error, scan_state) result" where
  "note_error push path st =
     (if path = Some AtRoot then Inl RootUnreadable
      else Inr (case path of
             None \<Rightarrow> st
           | Some l \<Rightarrow> (case rel_string l st of (None, st) \<Rightarrow> st | (Some rel, st) \<Rightarrow> push rel st)))"

definition push_unreadable :: "string \<Rightarrow> scan_state \<Rightarrow> scan_state" where
  "push_unreadable rel st = st\<lparr>ss_unreadable := ss_unreadable st @ [rel]\<rparr>"

definition push_skipped :: "string \<Rightarrow> scan_state \<Rightarrow> scan_state" where
  "push_skipped rel st = st\<lparr>ss_skipped := ss_skipped st @ [rel]\<rparr>"

text \<open>Only unreadable repository internals stop a strict capture from the second pass.\<close>

definition push_unreadable2 :: "string \<Rightarrow> scan_state \<Rightarrow> scan_state" where
  "push_unreadable2 rel st =
     (if under_git rel then push_unreadable rel st
      else st\<lparr>ss_unreadable_ignored := ss_unreadable_ignored st @ [rel]\<rparr>)"

definition pass1_step :: "walk_event \<Rightarrow> scan_state \<Rightarrow> (scan_error, scan_state) result" where
  "pass1_step ev st =
     (case ev of
        WalkError path \<Rightarrow> note_error push_unreadable path st
      | WalkEntry entry \<Rightarrow>
          Inr (case de_kind entry of
                 Some KSymlink \<Rightarrow>
                   (case rel_string (de_path entry) st of
                      (None, st) \<Rightarrow> st
                    | (Some rel, st) \<Rightarrow> push_skipped rel st)
               | Some KFile \<Rightarrow>
                   (case scanned_file_of entry st of
                      (None, st) \<Rightarrow> st
                    | (Some f, st) \<Rightarrow> st\<lparr>ss_found := bt_insert (sf_rel_path f) f (ss_found st)\<rparr>)
               | _ \<Rightarrow> st))"

definition pass2_step :: "sync_config \<Rightarrow> walk_event \<Rightarrow> scan_state \<Rightarrow> (scan_error, scan_state) result" where
  "pass2_step cfg ev st =
     (case ev of
        WalkError path \<Rightarrow> note_error push_unreadable2 path st
      | WalkEntry entry \<Rightarrow>
          Inr (if de_kind entry = None then st
               else
                 (let lossy = lossy_rel (de_path entry);
                      dotenv = is_dotenv (base_name lossy);
                      included = (de_kind entry = Some KFile \<and> sc_includes cfg lossy)
                  in if \<not> dotenv \<and> \<not> under_git lossy \<and> \<not> included then st
                     else
                       (case rel_string (de_path entry) st of
                          (None, st) \<Rightarrow> st
                        | (Some rel, st) \<Rightarrow>
                            if \<not> dotenv \<and> \<not> under_git rel \<and> \<not> included then st
                            else if de_kind entry = Some KSymlink then push_skipped rel st
                            else if de_kind entry \<noteq> Some KFile then st
                            else
                              (case scanned_file_of entry st of
                                 (None, st) \<Rightarrow> st
                               | (Some f, st) \<Rightarrow>
                                   if bt_contains (ss_found st) (sf_rel_path f) then st
                                   else st\<lparr>ss_found := bt_insert (sf_rel_path f) f (ss_found st)\<rparr>)))))"

fun run_pass ::
  "(walk_event \<Rightarrow> scan_state \<Rightarrow> (scan_error, scan_state) result) \<Rightarrow> walk_event list \<Rightarrow> scan_state
     \<Rightarrow> (scan_error, scan_state) result" where
  "run_pass step [] st = Inr st"
| "run_pass step (ev # evs) st = rbind (step ev st) (\<lambda>st. run_pass step evs st)"

text \<open>\<open>walk1\<close> and \<open>walk2\<close> are the two configured walkers over the tree, as functions of the
  filter: what they yield and what they consulted the filter on.\<close>

type_synonym walker = "(dir_entry \<Rightarrow> bool) \<Rightarrow> walk_event list \<times> dir_entry list"

definition scan :: "sync_config \<Rightarrow> walker \<Rightarrow> walker \<Rightarrow> (scan_error, scan_outcome) result" where
  "scan cfg walk1 walk2 =
     rbind (run_pass pass1_step (fst (walk1 (is_scannable_pass1 cfg)))
              \<lparr>ss_found = [], ss_unreadable = [], ss_unreadable_ignored = [], ss_skipped = []\<rparr>) (\<lambda>st.
     rbind (run_pass (pass2_step cfg) (fst (walk2 (is_scannable_pass2 cfg))) st) (\<lambda>st.
       Inr \<lparr>so_files = map snd (ss_found st),
            so_unreadable = ss_unreadable st,
            so_unreadable_ignored = bt_set (ss_unreadable_ignored st),
            so_skipped = bt_set (ss_skipped st),
            so_excluded = bt_set (map (lossy_rel \<circ> de_path)
              (filter (reports_pruned cfg) (snd (walk1 (is_scannable_pass1 cfg)))))\<rparr>))"

section \<open>The rules as sets of paths\<close>

lemma matches_prefix_iff [path_simps]:
  "matches_prefix rel p \<longleftrightarrow> rel = p \<or> (\<exists>q. rel = p @ CHR ''/'' # q)"
  by (auto simp: matches_prefix_def path_simps split: option.splits)

lemma matches_prefix_trans:
  "matches_prefix a p \<Longrightarrow> matches_prefix rel a \<Longrightarrow> matches_prefix rel p"
  by (auto simp: matches_prefix_iff)

lemma under_git_prefix: "under_git rel \<longleftrightarrow> matches_prefix rel ''.git''"
  by (auto simp: under_git_def path_simps)

text \<open>The nearest decision on the way up wins: a path is shadowed when an excluded
  directory lies above it with no re-included directory between.\<close>

lemma shadowed_iff:
  "shadowed cfg rel \<longleftrightarrow>
     (\<exists>a\<in>set (ancestors rel). base_name a \<in> set BUILTIN_EXCLUDES
        \<and> (\<forall>b\<in>set (ancestors rel). length a \<le> length b \<longrightarrow> \<not> sc_includes cfg b))"
proof (induction cfg rel rule: shadowed.induct)
  case (1 cfg rel)
  show ?case
  proof (cases "rfind CHR ''/'' rel")
    case None
    then show ?thesis
      by (simp add: shadowed.simps [of cfg rel] ancestors.simps [of rel])
  next
    case (Some idx)
    let ?a = "take idx rel"
    have anc: "ancestors rel = ?a # ancestors ?a"
      using Some by (simp add: ancestors.simps [of rel])
    have shorter: "b \<in> set (ancestors ?a) \<Longrightarrow> length b < length ?a" for b
      by (rule ancestors_shorter)
    show ?thesis
    proof (cases "sc_includes cfg ?a")
      case True
      have "length b \<le> length ?a" if "b \<in> set (ancestors rel)" for b
        using that shorter anc by fastforce
      moreover have "?a \<in> set (ancestors rel)"
        using anc by simp
      moreover have "\<not> shadowed cfg rel"
        using Some True by (simp add: shadowed.simps [of cfg rel])
      ultimately show ?thesis
        using True by blast
    next
      case False
      show ?thesis
      proof (cases "base_name ?a \<in> set BUILTIN_EXCLUDES")
        case True
        have "\<not> sc_includes cfg b" if "b \<in> set (ancestors rel)" "length ?a \<le> length b" for b
          using that shorter [of b] False anc by auto
        moreover have "?a \<in> set (ancestors rel)"
          using anc by simp
        moreover have "shadowed cfg rel"
          using Some True False by (simp add: shadowed.simps [of cfg rel])
        ultimately show ?thesis
          using True by blast
      next
        case no: False
        then have "shadowed cfg rel \<longleftrightarrow> shadowed cfg ?a"
          using Some False no by (subst shadowed.simps) simp
        also have "\<dots> \<longleftrightarrow> (\<exists>a\<in>set (ancestors ?a). base_name a \<in> set BUILTIN_EXCLUDES
            \<and> (\<forall>b\<in>set (ancestors ?a). length a \<le> length b \<longrightarrow> \<not> sc_includes cfg b))"
          using 1 [OF Some refl False no] .
        finally show ?thesis
          using no unfolding anc by (simp add: False)
      qed
    qed
  qed
qed

section \<open>What a pass finds\<close>

lemma run_pass_append:
  "run_pass step (as @ bs) st = rbind (run_pass step as st) (run_pass step bs)"
proof (induction as arbitrary: st)
  case (Cons a as)
  then show ?case by (cases "step a st") simp_all
qed simp

lemma run_pass_inv:
  assumes "run_pass step evs st = Inr st'" "I st"
    and "\<And>ev s s'. ev \<in> set evs \<Longrightarrow> I s \<Longrightarrow> step ev s = Inr s' \<Longrightarrow> I s'"
  shows "I st'"
  using assms
proof (induction evs arbitrary: st)
  case (Cons ev evs)
  obtain s where s: "step ev st = Inr s" "run_pass step evs s = Inr st'"
    using Cons.prems(1) by (auto simp: rbind_ok_iff)
  have "I s"
    using Cons.prems(3) [OF _ Cons.prems(2) s(1)] by simp
  then show ?case
    using Cons.IH [OF s(2)] Cons.prems(3) by (metis list.set_intros(2))
qed simp

text \<open>An event leaves its mark: what its step establishes and every later step keeps
  holds at the end.\<close>

lemma run_pass_mark:
  assumes "run_pass step evs st = Inr st'" "ev \<in> set evs"
    and mark: "\<And>s s'. step ev s = Inr s' \<Longrightarrow> Q s'"
    and keep: "\<And>ev s s'. Q s \<Longrightarrow> step ev s = Inr s' \<Longrightarrow> Q s'"
  shows "Q st'"
proof -
  obtain as bs where "evs = as @ ev # bs"
    using assms(2) split_list by fastforce
  then obtain s1 s2 where s: "step ev s1 = Inr s2" "run_pass step bs s2 = Inr st'"
    using assms(1) by (auto simp: run_pass_append rbind_ok_iff)
  show ?thesis
    using run_pass_inv [OF s(2), of Q] mark [OF s(1)] keep by blast
qed

text \<open>The entries of a walk whose files may be recorded.\<close>

definition records :: "walk_event \<Rightarrow> scanned_file \<Rightarrow> bool" where
  "records ev f \<longleftrightarrow> (\<exists>e rel shown len mode. ev = WalkEntry e \<and> de_kind e = Some KFile \<and> de_path e = Below rel True shown
     \<and> de_stat e = StatOk len mode (sf_mtime_secs f) (sf_mtime_nanos f)
     \<and> sf_rel_path f = rel \<and> sf_size f = len \<and> sf_mode f = unix_mode mode)"

lemma scanned_file_of_Some:
  assumes "scanned_file_of e st = (Some f, st')" "de_kind e = Some KFile"
  shows "records (WalkEntry e) f \<and> st' = st"
  using assms
  by (cases "de_path e") (auto simp: scanned_file_of_def records_def split: if_splits stat.splits)

lemma scanned_file_of_found [simp]:
  "ss_found (snd (scanned_file_of e st)) = ss_found st"
  by (cases "de_path e") (auto simp: scanned_file_of_def split: stat.splits)

lemma rel_string_found [simp]: "ss_found (snd (rel_string l st)) = ss_found st"
  by (cases l) auto

definition found_by :: "(string, scanned_file) btree \<Rightarrow> walk_event \<Rightarrow> (string, scanned_file) btree \<Rightarrow> bool" where
  "found_by m ev m' \<longleftrightarrow> m' = m \<or> (\<exists>f. records ev f \<and> m' = bt_insert (sf_rel_path f) f m)"

lemma file_event_found:
  assumes "de_kind e = Some KFile" "scanned_file_of e st = (r, s)"
  shows "ss_found s = ss_found st \<and> (\<forall>f. r = Some f \<longrightarrow> records (WalkEntry e) f)"
  using assms scanned_file_of_Some [of e st _ s] scanned_file_of_found [of e st] by auto

lemma push_found [simp]:
  "ss_found (push_unreadable r st) = ss_found st"
  "ss_found (push_unreadable2 r st) = ss_found st"
  "ss_found (push_skipped r st) = ss_found st"
  by (simp_all add: push_unreadable_def push_unreadable2_def push_skipped_def)

lemma note_error_found:
  assumes "note_error push l st = Inr st'" "\<And>r s. ss_found (push r s) = ss_found s"
  shows "ss_found st' = ss_found st"
proof (cases l)
  case (Some p)
  obtain r s where "rel_string p st = (r, s)" by fastforce
  then show ?thesis
    using assms Some rel_string_found [of p st]
    by (auto simp: note_error_def split: if_splits option.splits)
qed (use assms in \<open>simp add: note_error_def\<close>)

lemma pass1_found: "pass1_step ev st = Inr st' \<Longrightarrow> found_by (ss_found st) ev (ss_found st')"
proof (cases ev)
  case (WalkError l)
  then show "pass1_step ev st = Inr st' \<Longrightarrow> ?thesis"
    using note_error_found [of push_unreadable l st st'] by (simp add: pass1_step_def found_by_def)
next
  case (WalkEntry e)
  assume s: "pass1_step ev st = Inr st'"
  obtain r1 s1 where l: "rel_string (de_path e) st = (r1, s1)" by fastforce
  obtain r2 s2 where f: "scanned_file_of e st = (r2, s2)" by fastforce
  have "ss_found s1 = ss_found st"
    using rel_string_found [of "de_path e" st] l by simp
  then show ?thesis
    using s WalkEntry l f file_event_found [OF _ f]
    by (auto simp: pass1_step_def found_by_def split: option.splits file_kind.splits)
qed

lemma pass2_found: "pass2_step cfg ev st = Inr st' \<Longrightarrow> found_by (ss_found st) ev (ss_found st')"
proof (cases ev)
  case (WalkError l)
  then show "pass2_step cfg ev st = Inr st' \<Longrightarrow> ?thesis"
    using note_error_found [of push_unreadable2 l st st'] by (simp add: pass2_step_def found_by_def)
next
  case (WalkEntry e)
  assume s: "pass2_step cfg ev st = Inr st'"
  obtain r1 s1 where l: "rel_string (de_path e) st = (r1, s1)" by fastforce
  obtain r2 s2 where f: "scanned_file_of e s1 = (r2, s2)" by fastforce
  have "ss_found s1 = ss_found st"
    using rel_string_found [of "de_path e" st] l by simp
  then show ?thesis
    using s WalkEntry l f file_event_found [OF _ f]
    by (auto simp: pass2_step_def found_by_def Let_def split: option.splits if_splits)
qed

definition found_ok :: "walk_event set \<Rightarrow> scan_state \<Rightarrow> bool" where
  "found_ok evs st \<longleftrightarrow> bt_wf (ss_found st)
     \<and> (\<forall>k f. bt_get (ss_found st) k = Some f \<longrightarrow> k = sf_rel_path f \<and> (\<exists>ev\<in>evs. records ev f))"

lemma found_by_ok:
  "found_by (ss_found s) ev (ss_found s') \<Longrightarrow> found_ok evs s \<Longrightarrow> ev \<in> evs \<Longrightarrow> found_ok evs s'"
  by (auto simp: found_by_def found_ok_def split: if_splits)

lemma found_by_keeps:
  "found_by m ev m' \<Longrightarrow> bt_get m k \<noteq> None \<Longrightarrow> bt_get m' k \<noteq> None"
  by (auto simp: found_by_def)

section \<open>The walkers\<close>

text \<open>The documented behaviour of \<open>WalkBuilder\<close> with a filter: an entry is yielded only when
  the filter accepts it and the walk reached it through directories the filter accepts, and
  the names it builds paths from are names of directory entries.\<close>

definition real_name :: "string \<Rightarrow> bool" where
  "real_name n \<longleftrightarrow> n \<noteq> '''' \<and> n \<noteq> ''.'' \<and> n \<noteq> ''..''"

definition walker_ok :: "walker \<Rightarrow> bool" where
  "walker_ok walk \<longleftrightarrow>
     (\<forall>keep e rel utf8 shown. WalkEntry e \<in> set (fst (walk keep)) \<longrightarrow> de_path e = Below rel utf8 shown \<longrightarrow>
        keep e \<and> (\<forall>n\<in>set (split_on CHR ''/'' rel). real_name n)
        \<and> (\<forall>a\<in>set (ancestors rel). \<exists>d u s. de_kind d = Some KDir \<and> de_path d = Below a u s \<and> keep d))"

text \<open>What both filters guarantee of the files they let through.\<close>

definition obeys :: "sync_config \<Rightarrow> string \<Rightarrow> bool" where
  "obeys cfg rel \<longleftrightarrow> path_ok rel \<and> \<not> sc_excludes cfg rel
     \<and> (under_git rel \<or> sc_includes cfg rel \<or> \<not> shadowed cfg rel)"

lemma depth_pos [simp]: "path_depth (Below rel u s) \<noteq> 0"
  by simp

lemma first_name_ancestor:
  assumes "split_on CHR ''/'' rel = n # m # ns"
  shows "n \<in> set (ancestors rel)" "split_on CHR ''/'' n = [n]"
proof -
  have "rel = join_with CHR ''/'' (n # m # ns)"
    using assms by (metis join_split)
  then have "rel = n @ CHR ''/'' # join_with CHR ''/'' (m # ns)"
    by simp
  then show "n \<in> set (ancestors rel)"
    by (auto simp: ancestors_iff)
  have "CHR ''/'' \<notin> set n"
    using assms split_on_no_sep [of n "CHR ''/''" rel] by simp
  then show "split_on CHR ''/'' n = [n]"
    by (rule split_on_single)
qed

lemma git_not_pear: "\<not> eq_ignore_ascii_case ''.git'' ''.pear''"
  by (simp add: eq_ignore_ascii_case_def to_ascii_lower_def)

lemma under_git_first: "under_git rel \<Longrightarrow> hd (split_on CHR ''/'' rel) = ''.git''"
  by (auto simp: under_git_prefix matches_prefix_iff split_on_append)

text \<open>Either filter rejects the root \<open>.pear\<close>, directory or not.\<close>

definition filter_ok :: "sync_config \<Rightarrow> (dir_entry \<Rightarrow> bool) \<Rightarrow> bool" where
  "filter_ok cfg keep \<longleftrightarrow>
     (\<forall>e. keep e \<longrightarrow> is_not_excluded_dir cfg e \<or> (under_git (lossy_rel (de_path e)) \<and> \<not> sc_excludes cfg (lossy_rel (de_path e))))"

lemma filters_ok: "filter_ok cfg (is_scannable_pass1 cfg)" "filter_ok cfg (is_scannable_pass2 cfg)"
  by (auto simp: filter_ok_def is_scannable_pass1_def is_scannable_pass2_def split: if_splits)

lemma kept_first_name:
  assumes "filter_ok cfg keep" "keep e" "de_path e = Below rel u s" "split_on CHR ''/'' rel = [n]"
  shows "\<not> eq_ignore_ascii_case n ''.pear''"
proof (cases "is_not_excluded_dir cfg e")
  case True
  then show ?thesis
    using assms(3,4) by (auto simp: is_not_excluded_dir_def base_name_def Let_def split: if_splits)
next
  case False
  then have "under_git rel"
    using assms(1,2,3) by (force simp: filter_ok_def)
  then show ?thesis
    using under_git_first [of rel] assms(4) git_not_pear by simp
qed

lemma walked_file_obeys:
  assumes "walker_ok walk" "filter_ok cfg keep" "WalkEntry e \<in> set (fst (walk keep))" "records (WalkEntry e) f"
  shows "obeys cfg (sf_rel_path f)"
proof -
  obtain rel s where e: "de_kind e = Some KFile" "de_path e = Below rel True s" "sf_rel_path f = rel"
    using assms(4) by (auto simp: records_def)
  have w: "keep e" "\<forall>n\<in>set (split_on CHR ''/'' rel). real_name n"
    "\<forall>a\<in>set (ancestors rel). \<exists>d u s. de_kind d = Some KDir \<and> de_path d = Below a u s \<and> keep d"
    using assms(1,3) e(2) unfolding walker_ok_def by blast+
  obtain n ns where seg: "split_on CHR ''/'' rel = n # ns"
    by (cases "split_on CHR ''/'' rel") simp_all
  have first: "\<not> eq_ignore_ascii_case n ''.pear''"
  proof (cases ns)
    case Nil
    then show ?thesis
      using kept_first_name [OF assms(2) w(1) e(2)] seg by simp
  next
    case (Cons m ms)
    have a: "n \<in> set (ancestors rel)" "split_on CHR ''/'' n = [n]"
      using first_name_ancestor seg Cons by simp_all
    then show ?thesis
      using w(3) kept_first_name [OF assms(2)] by blast
  qed
  then have "path_ok rel"
    using w(2) seg by (auto simp: path_ok_def real_name_def Let_def)
  moreover have "\<not> sc_excludes cfg rel \<and> (under_git rel \<or> sc_includes cfg rel \<or> \<not> shadowed cfg rel)"
  proof -
    have "is_not_excluded_dir cfg e \<or> under_git rel \<and> \<not> sc_excludes cfg rel"
      using assms(2) w(1) e(2) by (force simp: filter_ok_def)
    moreover have "is_not_excluded_dir cfg e \<longrightarrow> \<not> sc_excludes cfg rel \<and> (sc_includes cfg rel \<or> \<not> shadowed cfg rel)"
      unfolding is_not_excluded_dir_def Let_def e(1,2) by (simp split: if_split)
    ultimately show ?thesis
      by blast
  qed
  ultimately show ?thesis
    by (simp add: obeys_def e(3))
qed

section \<open>What a scan promises\<close>

lemma scan_passes:
  assumes "scan cfg walk1 walk2 = Inr out"
  obtains st1 st2 where
    "run_pass pass1_step (fst (walk1 (is_scannable_pass1 cfg)))
       \<lparr>ss_found = [], ss_unreadable = [], ss_unreadable_ignored = [], ss_skipped = []\<rparr> = Inr st1"
    "run_pass (pass2_step cfg) (fst (walk2 (is_scannable_pass2 cfg))) st1 = Inr st2"
    "so_files out = map snd (ss_found st2)" "so_unreadable out = ss_unreadable st2"
    "so_skipped out = bt_set (ss_skipped st2)"
    "so_unreadable_ignored out = bt_set (ss_unreadable_ignored st2)"
  using assms by (auto simp: scan_def rbind_ok_iff)

text \<open>The state after both passes, with the invariant of the files found.\<close>

lemma scan_found_ok:
  assumes "scan cfg walk1 walk2 = Inr out"
  obtains st1 st2 where "so_files out = map snd (ss_found st2)"
    "run_pass (pass2_step cfg) (fst (walk2 (is_scannable_pass2 cfg))) st1 = Inr st2"
    "found_ok (set (fst (walk1 (is_scannable_pass1 cfg))) \<union> set (fst (walk2 (is_scannable_pass2 cfg)))) st2"
proof -
  obtain st1 st2 where r: "run_pass pass1_step (fst (walk1 (is_scannable_pass1 cfg)))
       \<lparr>ss_found = [], ss_unreadable = [], ss_unreadable_ignored = [], ss_skipped = []\<rparr> = Inr st1"
    "run_pass (pass2_step cfg) (fst (walk2 (is_scannable_pass2 cfg))) st1 = Inr st2"
    "so_files out = map snd (ss_found st2)"
    using scan_passes [OF assms] by blast
  let ?evs = "set (fst (walk1 (is_scannable_pass1 cfg))) \<union> set (fst (walk2 (is_scannable_pass2 cfg)))"
  have "found_ok ?evs \<lparr>ss_found = [], ss_unreadable = [], ss_unreadable_ignored = [], ss_skipped = []\<rparr>"
    by (simp add: found_ok_def)
  then have "found_ok ?evs st1"
    by (rule run_pass_inv [OF r(1)]) (auto intro: found_by_ok [OF pass1_found])
  then have "found_ok ?evs st2"
    by (rule run_pass_inv [OF r(2)]) (auto intro: found_by_ok [OF pass2_found])
  then show thesis
    using r(2,3) that by blast
qed


lemma dotenv_base: "is_dotenv (base_name rel) = is_dotenv rel"
proof -
  have "CHR ''/'' \<notin> set (base_name rel)"
    unfolding base_name_def by (rule split_on_no_sep [of _ _ rel]) simp
  then have "base_name (base_name rel) = base_name rel"
    unfolding base_name_def [of "base_name rel"] by (simp add: split_on_single)
  then show ?thesis
    by (simp add: is_dotenv_def)
qed

text \<open>The product promise: a readable regular file with a UTF-8 path that the second walk
  reaches is in the scan's result whenever its name starts with \<open>.env\<close>, it lies in the
  root \<open>.git\<close>, or an \<open>include\<close> entry covers it, whatever the ignore rules did to it in
  the first pass.\<close>

theorem scan_keeps_promised:
  assumes "scan cfg walk1 walk2 = Inr out" "WalkEntry e \<in> set (fst (walk2 (is_scannable_pass2 cfg)))"
    "de_kind e = Some KFile" "de_path e = Below rel True shown" "de_stat e = StatOk len mode secs nanos"
    "is_dotenv rel \<or> under_git rel \<or> sc_includes cfg rel"
  shows "rel \<in> sf_rel_path ` set (so_files out)"
proof -
  obtain st1 st2 where r: "so_files out = map snd (ss_found st2)"
    "run_pass (pass2_step cfg) (fst (walk2 (is_scannable_pass2 cfg))) st1 = Inr st2"
    "found_ok (set (fst (walk1 (is_scannable_pass1 cfg))) \<union> set (fst (walk2 (is_scannable_pass2 cfg)))) st2"
    using scan_found_ok [OF assms(1)] .
  have mark: "bt_get (ss_found s') rel \<noteq> None" if s: "pass2_step cfg (WalkEntry e) s = Inr s'" for s s'
    using s assms(3,4,5,6)
    by (auto simp: pass2_step_def scanned_file_of_def bt_contains_def dotenv_base Let_def split: if_splits)
  have "bt_get (ss_found st2) rel \<noteq> None"
    using run_pass_mark [where Q = "\<lambda>s. bt_get (ss_found s) rel \<noteq> None", OF r(2) assms(2)]
      mark found_by_keeps [OF pass2_found] by blast
  then obtain f where f: "bt_get (ss_found st2) rel = Some f"
    by blast
  then have "rel = sf_rel_path f" "f \<in> set (so_files out)"
    using r(1,3) map_of_SomeD [OF f] by (force simp: found_ok_def)+
  then show ?thesis
    by blast
qed

text \<open>A workspace with one gitignored \<open>.env\<close>, walked.\<close>

definition env_entry :: dir_entry where
  "env_entry = \<lparr>de_path = Below ''.env'' True ''/w/.env'', de_kind = Some KFile, de_stat = StatOk 3 33188 10 0\<rparr>"

definition env_walker :: walker where
  "env_walker keep = (if keep env_entry then [WalkEntry env_entry] else [], [env_entry])"

lemma env_walker_ok: "walker_ok env_walker"
proof -
  have "ancestors ''.env'' = []"
    by (subst ancestors.simps) simp
  then show ?thesis
    by (auto simp: walker_ok_def env_walker_def env_entry_def real_name_def split: if_splits)
qed

lemma env_scan:
  "scan \<lparr>sc_include = [], sc_exclude = [''secrets'']\<rparr> (\<lambda>_. ([], [])) env_walker
     = Inr \<lparr>so_files = [\<lparr>sf_rel_path = ''.env'', sf_size = 3, sf_mode = 420, sf_mtime_secs = 10, sf_mtime_nanos = 0\<rparr>],
            so_unreadable = [], so_unreadable_ignored = [], so_skipped = [], so_excluded = []\<rparr>"
  by (simp add: scan_def env_walker_def env_entry_def is_scannable_pass2_def is_not_excluded_dir_def under_git_def
      sc_excludes_def sc_includes_def shadowed.simps matches_prefix_def strip_prefix_def base_name_def
      eq_ignore_ascii_case_def to_ascii_lower_def pass2_step_def is_dotenv_def scanned_file_of_def
      bt_contains_def unix_mode_def bt_set_def Let_def)


lemma scan_keeps_promised_witness:
  "\<exists>out. scan \<lparr>sc_include = [], sc_exclude = [''secrets'']\<rparr> (\<lambda>_. ([], [])) env_walker = Inr out
     \<and> ''.env'' \<in> sf_rel_path ` set (so_files out)"
proof -
  have e: "WalkEntry env_entry \<in> set (fst (env_walker (is_scannable_pass2 \<lparr>sc_include = [], sc_exclude = [''secrets'']\<rparr>)))"
    by (simp add: env_walker_def env_entry_def is_scannable_pass2_def is_not_excluded_dir_def under_git_def
        sc_excludes_def sc_includes_def shadowed.simps matches_prefix_def strip_prefix_def base_name_def
        eq_ignore_ascii_case_def to_ascii_lower_def)
  have d: "is_dotenv ''.env'' \<or> under_git ''.env'' \<or> sc_includes \<lparr>sc_include = [], sc_exclude = [''secrets'']\<rparr> ''.env''"
    by (simp add: is_dotenv_def base_name_def)
  show ?thesis
    using scan_keeps_promised [OF env_scan e _ _ _ d] env_scan by (auto simp: env_entry_def)
qed

end
