(* ===== verification/Relay_Chunks.thy ===== *)
theory Relay_Chunks
imports Relay_Auth Store Chunk_Frame Encoding Scan
begin

text \<open>
  The handlers of \<open>relay/src/routes.rs\<close> for chunks, heads and snapshots.  BLAKE3, the
  JSON of a manifest and of the stored envelope of an encrypted commit are the fields
  of \<open>relay_env\<close>; \<open>disk_ok\<close>, \<open>sync_ok\<close> and \<open>fault\<close> say what the disk and the database
  transaction of a handler do.
\<close>

section \<open>State and environment\<close>

record relay_env =
  re_hash :: "bytes \<Rightarrow> string"
  re_manifest :: "string \<Rightarrow> manifest option"
  re_envelope :: "string \<Rightarrow> string list \<Rightarrow> string"            \<comment> \<open>\<open>manifest_enc\<close>, \<open>chunk_hashes\<close>\<close>
  re_parse :: "string \<Rightarrow> (string \<times> string list) option"

record relay =
  rl_db :: db
  rl_store :: store

definition MAX_CHUNK_SIZE :: nat where "MAX_CHUNK_SIZE = 4 * 1024 * 1024"
definition MAX_MISSING_BATCH :: nat where "MAX_MISSING_BATCH = 50000"

section \<open>Chunks\<close>

definition sees :: "db \<Rightarrow> principal \<Rightarrow> string \<Rightarrow> bool" where
  "sees db p hash = (case p of Admin \<Rightarrow> True | User name \<Rightarrow> chunk_visible_to hash name db)"

definition put_chunk ::
  "relay_env \<Rightarrow> (string \<Rightarrow> bool) \<Rightarrow> bool \<Rightarrow> principal \<Rightarrow> string \<Rightarrow> string \<Rightarrow> bytes \<Rightarrow> relay
     \<Rightarrow> (api_error, unit) result \<times> relay" where
  "put_chunk E sync_ok disk_ok p ws hash body rl =
     (if \<not> is_chunk_hash hash then (Inl (BadRequest (BadHash hash)), rl)
      else if MAX_CHUNK_SIZE < length body then (Inl (BadRequest (ChunkTooLarge (length body))), rl)
      else
        (case require_role (rl_db rl) ws p Writer of
           Inl e \<Rightarrow> (Inl e, rl)
         | Inr _ \<Rightarrow>
             if re_hash E body \<noteq> hash then (Inl (BadRequest BodyHashMismatch), rl)
             else
               (case store_put (re_hash E) sync_ok disk_ok hash body (rl_store rl) of
                  (Inl _, st) \<Rightarrow> (Inl Internal, rl\<lparr>rl_store := st\<rparr>)
                | (Inr _, st) \<Rightarrow>
                    (Inr (), rl\<lparr>rl_store := st, rl_db := insert_chunk_refs ws [hash] (rl_db rl)\<rparr>))))"

definition get_chunk ::
  "relay_env \<Rightarrow> principal \<Rightarrow> string \<Rightarrow> string \<Rightarrow> relay \<Rightarrow> (api_error, bytes) result \<times> relay" where
  "get_chunk E p ws hash rl =
     (if \<not> is_chunk_hash hash then (Inl (BadRequest (BadHash hash)), rl)
      else
        (case require_role (rl_db rl) ws p Reader of
           Inl e \<Rightarrow> (Inl e, rl)
         | Inr _ \<Rightarrow>
             if \<not> sees (rl_db rl) p hash then (Inl (NoChunk hash), rl)
             else
               (case store_get (re_hash E) hash (rl_store rl) of
                  (Inr bytes, st) \<Rightarrow> (Inr bytes, rl\<lparr>rl_store := st\<rparr>)
                | (Inl (NotFound _), st) \<Rightarrow> (Inl (NoChunk hash), rl\<lparr>rl_store := st\<rparr>)
                | (Inl _, st) \<Rightarrow> (Inl Internal, rl\<lparr>rl_store := st\<rparr>))))"

text \<open>\<open>missing_of\<close> is the loop over the requested hashes.\<close>

fun missing_of :: "relay \<Rightarrow> principal \<Rightarrow> string list \<Rightarrow> (api_error, string list) result" where
  "missing_of rl p [] = Inr []"
| "missing_of rl p (h # hs) =
     (case store_has (rl_store rl) h of
        Inl _ \<Rightarrow> Inl Internal
      | Inr here \<Rightarrow>
          rbind (missing_of rl p hs) (\<lambda>rest. Inr (if \<not> here \<or> \<not> sees (rl_db rl) p h then h # rest else rest)))"

definition check_hash :: "string \<Rightarrow> (api_error, unit) result" where
  "check_hash h = (if is_chunk_hash h then Inr () else Inl (BadRequest (BadHash h)))"

definition chunks_missing :: "principal \<Rightarrow> string \<Rightarrow> string list \<Rightarrow> relay \<Rightarrow> (api_error, string list) result" where
  "chunks_missing p ws hashes rl =
     (if MAX_MISSING_BATCH < length hashes then Inl (BadRequest TooManyEntries)
      else rbind (check_all check_hash hashes) (\<lambda>_.
           rbind (require_role (rl_db rl) ws p Reader) (\<lambda>_. missing_of rl p hashes)))"

datatype entry_status = Stored | AlreadyPresent | EntryError bad_request

definition entry_reason :: "relay_env \<Rightarrow> string \<Rightarrow> bytes \<Rightarrow> bad_request option" where
  "entry_reason E hash blob =
     (if \<not> is_chunk_hash hash then Some (BadHash hash)
      else if MAX_CHUNK_SIZE < length blob then Some (ChunkTooLarge (length blob))
      else if re_hash E blob \<noteq> hash then Some BodyHashMismatch
      else None)"

fun put_entries ::
  "relay_env \<Rightarrow> (string \<Rightarrow> bool) \<Rightarrow> bool \<Rightarrow> (string \<times> bytes) list \<Rightarrow> store
     \<Rightarrow> (api_error, (string \<times> entry_status) list) result \<times> store" where
  "put_entries E sync_ok disk_ok [] st = (Inr [], st)"
| "put_entries E sync_ok disk_ok ((h, blob) # es) st =
     (case entry_reason E h blob of
        Some r \<Rightarrow>
          (case put_entries E sync_ok disk_ok es st of
             (Inl e, st) \<Rightarrow> (Inl e, st)
           | (Inr rs, st) \<Rightarrow> (Inr ((h, EntryError r) # rs), st))
      | None \<Rightarrow>
          (case store_put (re_hash E) sync_ok disk_ok h blob st of
             (Inl _, st) \<Rightarrow> (Inl Internal, st)
           | (Inr fresh, st) \<Rightarrow>
               (case put_entries E sync_ok disk_ok es st of
                  (Inl e, st) \<Rightarrow> (Inl e, st)
                | (Inr rs, st) \<Rightarrow> (Inr ((h, if fresh then Stored else AlreadyPresent) # rs), st))))"

definition confirmed :: "(string \<times> entry_status) list \<Rightarrow> string list" where
  "confirmed rs = map fst (filter (\<lambda>(_, s). s = Stored \<or> s = AlreadyPresent) rs)"

definition put_many_chunks ::
  "relay_env \<Rightarrow> (string \<Rightarrow> bool) \<Rightarrow> bool \<Rightarrow> principal \<Rightarrow> string \<Rightarrow> bytes \<Rightarrow> relay
     \<Rightarrow> (api_error, (string \<times> entry_status) list) result \<times> relay" where
  "put_many_chunks E sync_ok disk_ok p ws body rl =
     (case frame_decode body of
        Inl _ \<Rightarrow> (Inl (BadRequest BadFrame), rl)
      | Inr entries \<Rightarrow>
          if PUT_MANY_MAX_ENTRIES < length entries then (Inl (BadRequest TooManyEntries), rl)
          else if PUT_MANY_MAX_BYTES < sum_list (map (length \<circ> snd) entries) then (Inl (BadRequest TooManyBytes), rl)
          else
            (case require_role (rl_db rl) ws p Writer of
               Inl e \<Rightarrow> (Inl e, rl)
             | Inr _ \<Rightarrow>
                 (case put_entries E sync_ok disk_ok entries (rl_store rl) of
                    (Inl e, st) \<Rightarrow> (Inl e, rl\<lparr>rl_store := st\<rparr>)
                  | (Inr rs, st) \<Rightarrow>
                      (Inr rs, rl\<lparr>rl_store := st,
                                  rl_db := insert_chunk_refs ws (confirmed rs) (rl_db rl)\<rparr>))))"

fun get_entries ::
  "relay_env \<Rightarrow> string list \<Rightarrow> store \<Rightarrow> (api_error, (string \<times> bytes) list) result \<times> store" where
  "get_entries E [] st = (Inr [], st)"
| "get_entries E (h # hs) st =
     (case store_get (re_hash E) h st of
        (Inl (NotFound _), st) \<Rightarrow> (Inl (NoChunk h), st)
      | (Inl _, st) \<Rightarrow> (Inl Internal, st)
      | (Inr bytes, st) \<Rightarrow>
          (case get_entries E hs st of
             (Inl e, st) \<Rightarrow> (Inl e, st)
           | (Inr es, st) \<Rightarrow> (Inr ((h, bytes) # es), st)))"

definition get_many_chunks ::
  "relay_env \<Rightarrow> principal \<Rightarrow> string \<Rightarrow> string list \<Rightarrow> relay \<Rightarrow> (api_error, bytes) result \<times> relay" where
  "get_many_chunks E p ws hashes rl =
     (if GET_MANY_MAX_HASHES < length hashes then (Inl (BadRequest TooManyEntries), rl)
      else
        (case rbind (check_all check_hash hashes) (\<lambda>_.
              rbind (require_role (rl_db rl) ws p Reader) (\<lambda>_.
              check_all (\<lambda>h. if sees (rl_db rl) p h then Inr () else Inl (NoChunk h)) hashes)) of
           Inl e \<Rightarrow> (Inl e, rl)
         | Inr _ \<Rightarrow>
             (case get_entries E hashes (rl_store rl) of
                (Inl e, st) \<Rightarrow> (Inl e, rl\<lparr>rl_store := st\<rparr>)
              | (Inr es, st) \<Rightarrow> (Inr (frame_encode es), rl\<lparr>rl_store := st\<rparr>))))"

section \<open>What a commit must satisfy\<close>

text \<open>The chunks a manifest references, in walk order; \<open>chunk_hashes\<close> is their set.\<close>

definition manifest_chunks :: "manifest \<Rightarrow> string list" where
  "manifest_chunks m = concat (map (\<lambda>(_, e). fe_chunks e) (mf_files m))"

definition chunk_hashes :: "manifest \<Rightarrow> string list" where
  "chunk_hashes m = remdups (manifest_chunks m)"

text \<open>The presence loop with its \<open>seen\<close> set: how many distinct hashes are missing, and
  the first of them.\<close>

fun count_missing ::
  "relay \<Rightarrow> principal \<Rightarrow> string list \<Rightarrow> nat \<times> string \<Rightarrow> string list \<Rightarrow> (api_error, nat \<times> string) result" where
  "count_missing rl p seen acc [] = Inr acc"
| "count_missing rl p seen acc (h # hs) =
     (if h \<in> set seen then count_missing rl p seen acc hs
      else
        (case store_has (rl_store rl) h of
           Inl _ \<Rightarrow> Inl Internal
         | Inr here \<Rightarrow>
             if here \<and> sees (rl_db rl) p h then count_missing rl p (h # seen) acc hs
             else count_missing rl p (h # seen)
                    (fst acc + 1, if snd acc = [] then h else snd acc) hs))"

definition require_present :: "relay \<Rightarrow> principal \<Rightarrow> string list \<Rightarrow> (api_error, unit) result" where
  "require_present rl p hs =
     rbind (count_missing rl p [] (0, []) hs) (\<lambda>(n, first).
       if 0 < n then Inl (BadRequest (MissingChunks n first)) else Inr ())"

definition check_env_policy :: "db \<Rightarrow> string \<Rightarrow> manifest \<Rightarrow> (api_error, unit) result" where
  "check_env_policy db ws m =
     (case workspace_team_env_policy ws db of
        Some (_, False) \<Rightarrow>
          (case find is_dotenv (bt_keys (mf_files m)) of
             Some path \<Rightarrow> Inl (Conflict (SyncEnvForbidden path))
           | None \<Rightarrow> Inr ())
      | _ \<Rightarrow> Inr ())"

definition validate_submitted_manifest ::
  "relay_env \<Rightarrow> relay \<Rightarrow> string \<Rightarrow> principal \<Rightarrow> string \<Rightarrow> (api_error, manifest) result" where
  "validate_submitted_manifest E rl ws p raw =
     (case re_manifest E raw of
        None \<Rightarrow> Inl (BadRequest NotAManifest)
      | Some m \<Rightarrow>
          if \<not> is_ok (validate m) then Inl (BadRequest InvalidManifestBody)
          else if mf_workspace_id m \<noteq> ws then Inl (BadRequest (WrongWorkspace (mf_workspace_id m)))
          else
            rbind (check_env_policy (rl_db rl) ws m) (\<lambda>_.
            if \<not> is_ok (check_all (check_ancestors m) (bt_keys (mf_files m)))
            then Inl (BadRequest InvalidManifestBody)
            else
              rbind (check_all check_hash (manifest_chunks m)) (\<lambda>_.
              rbind (require_present rl p (manifest_chunks m)) (\<lambda>_. Inr m))))"

definition validate_e2e_commit ::
  "relay \<Rightarrow> principal \<Rightarrow> string \<Rightarrow> string list \<Rightarrow> (api_error, unit) result" where
  "validate_e2e_commit rl p manifest_enc hashes =
     (case base64_decode manifest_enc of
        Inl _ \<Rightarrow> Inl (BadRequest BadManifestEnc)
      | Inr decoded \<Rightarrow>
          if length decoded < 12 + 16 then Inl (BadRequest BadManifestEnc)
          else rbind (check_all check_hash hashes) (\<lambda>_. require_present rl p hashes))"

text \<open>\<open>chunk_hashes\<close> of the stored envelope are sorted and duplicate free.\<close>

definition e2e_stored_manifest :: "relay_env \<Rightarrow> string \<Rightarrow> string list \<Rightarrow> string" where
  "e2e_stored_manifest E manifest_enc hashes = re_envelope E manifest_enc (bt_set hashes)"

definition e2e_wire_manifest :: "relay_env \<Rightarrow> string \<Rightarrow> string" where
  "e2e_wire_manifest E stored = (case re_parse E stored of Some (enc, _) \<Rightarrow> enc | None \<Rightarrow> stored)"

definition stored_row_chunks :: "relay_env \<Rightarrow> bool \<Rightarrow> string \<Rightarrow> string list option" where
  "stored_row_chunks E e2e stored =
     (if e2e then map_option snd (re_parse E stored)
      else map_option chunk_hashes (re_manifest E stored))"

text \<open>The body of a head or snapshot request: the text to store and the chunks it pins.\<close>

record commit_body =
  cb_manifest :: "string option"
  cb_manifest_enc :: "string option"
  cb_chunk_hashes :: "string list option"

definition commit_payload ::
  "relay_env \<Rightarrow> relay \<Rightarrow> string \<Rightarrow> workspace_row \<Rightarrow> principal \<Rightarrow> commit_body \<Rightarrow> (api_error, string \<times> string list) result" where
  "commit_payload E rl ws w p req =
     (if w_e2e w \<noteq> (cb_manifest_enc req \<noteq> None) then Inl (Conflict E2eMismatch)
      else if w_e2e w then
        (let manifest_enc = (case cb_manifest_enc req of Some m \<Rightarrow> m | None \<Rightarrow> [])
         in case cb_chunk_hashes req of
              None \<Rightarrow> Inl (BadRequest NoChunkHashes)
            | Some hashes \<Rightarrow>
                rbind (validate_e2e_commit rl p manifest_enc hashes) (\<lambda>_.
                  Inr (e2e_stored_manifest E manifest_enc hashes, remdups hashes)))
      else
        (case cb_manifest req of
           None \<Rightarrow> Inl (BadRequest NoManifest)
         | Some raw \<Rightarrow>
             rbind (validate_submitted_manifest E rl ws p raw) (\<lambda>m. Inr (raw, chunk_hashes m))))"

section \<open>Heads\<close>

definition current_seq :: "db \<Rightarrow> string \<Rightarrow> int" where
  "current_seq db ws = (case current_head ws db of None \<Rightarrow> 0 | Some (s, _) \<Rightarrow> s)"

definition put_head ::
  "relay_env \<Rightarrow> (string \<Rightarrow> bool) \<Rightarrow> bool \<Rightarrow> principal \<Rightarrow> string \<Rightarrow> string option \<Rightarrow> int \<Rightarrow> commit_body \<Rightarrow> relay
     \<Rightarrow> (api_error, int \<times> string) result \<times> relay" where
  "put_head E sync_ok fault p ws device base_seq req rl =
     (case rbind (require_role (rl_db rl) ws p Writer) (\<lambda>w.
             rbind (case device of None \<Rightarrow> Inl Forbidden | Some d \<Rightarrow> check_device d) (\<lambda>_.
               commit_payload E rl ws w p req)) of
        Inl e \<Rightarrow> (Inl e, rl)
      | Inr (stored, refs) \<Rightarrow>
          (let current = current_seq (rl_db rl) ws in
           if base_seq \<noteq> current then (Inl (Conflict (CurrentSeq current)), rl)
           else
             (let seq = current + 1; hash = re_hash E stored in
              case store_flush sync_ok (rl_store rl) of
                (Inl _, st) \<Rightarrow> (Inl Internal, rl\<lparr>rl_store := st\<rparr>)
              | (Inr _, st) \<Rightarrow>
                  (case insert_head fault ws seq hash stored refs (rl_db rl) of
                     (Inl _, db) \<Rightarrow> (Inl Internal, rl\<lparr>rl_store := st, rl_db := db\<rparr>)
                   | (Inr _, db) \<Rightarrow> (Inr (seq, hash), rl\<lparr>rl_store := st, rl_db := db\<rparr>)))))"

datatype wire_manifest = Plain string | Encrypted string

definition wire_of :: "relay_env \<Rightarrow> workspace_row \<Rightarrow> string \<Rightarrow> wire_manifest" where
  "wire_of E w stored = (if w_e2e w then Encrypted (e2e_wire_manifest E stored) else Plain stored)"

definition get_head ::
  "relay_env \<Rightarrow> principal \<Rightarrow> string \<Rightarrow> relay \<Rightarrow> (api_error, int \<times> string \<times> wire_manifest) result" where
  "get_head E p ws rl =
     rbind (require_role (rl_db rl) ws p Reader) (\<lambda>w.
       case current_head ws (rl_db rl) of
         None \<Rightarrow> Inl (NoHead ws)
       | Some (s, h) \<Rightarrow> Inr (s, h_hash h, wire_of E w (h_manifest h)))"

section \<open>Snapshots\<close>

definition create_snapshot ::
  "relay_env \<Rightarrow> (string \<Rightarrow> bool) \<Rightarrow> bool \<Rightarrow> int \<Rightarrow> principal \<Rightarrow> string \<Rightarrow> string option \<Rightarrow> string \<Rightarrow> commit_body \<Rightarrow> relay
     \<Rightarrow> (api_error, int \<times> int) result \<times> relay" where
  "create_snapshot E sync_ok fault now p ws name device req rl =
     (case rbind (require_role (rl_db rl) ws p Writer) (\<lambda>w.
             rbind (case name of
                      None \<Rightarrow> Inr ()
                    | Some n \<Rightarrow> if valid_name n then Inr () else Inl (BadRequest (BadName n))) (\<lambda>_.
             rbind (check_device device) (\<lambda>_. commit_payload E rl ws w p req))) of
        Inl e \<Rightarrow> (Inl e, rl)
      | Inr (stored, refs) \<Rightarrow>
          (case store_flush sync_ok (rl_store rl) of
             (Inl _, st) \<Rightarrow> (Inl Internal, rl\<lparr>rl_store := st\<rparr>)
           | (Inr _, st) \<Rightarrow>
               (case insert_snapshot fault ws
                  \<lparr>ns_name = name, ns_kind = ''named'', ns_device = device, ns_created_at = now,
                   ns_manifest = stored, ns_refs = refs\<rparr> (rl_db rl) of
                  (Inl _, db) \<Rightarrow> (Inl Internal, rl\<lparr>rl_store := st, rl_db := db\<rparr>)
                | (Inr sid, db) \<Rightarrow> (Inr (sid, now), rl\<lparr>rl_store := st, rl_db := db\<rparr>))))"

definition api_list_snapshots ::
  "principal \<Rightarrow> string \<Rightarrow> relay \<Rightarrow> (api_error, snapshot_meta list) result" where
  "api_list_snapshots p ws rl =
     rbind (require_role (rl_db rl) ws p Reader) (\<lambda>_. Inr (list_snapshots ws (rl_db rl)))"

definition api_get_snapshot ::
  "relay_env \<Rightarrow> principal \<Rightarrow> string \<Rightarrow> int \<Rightarrow> relay \<Rightarrow> (api_error, snapshot_row \<times> wire_manifest) result" where
  "api_get_snapshot E p ws sid rl =
     rbind (require_role (rl_db rl) ws p Reader) (\<lambda>w.
       case get_snapshot ws sid (rl_db rl) of
         None \<Rightarrow> Inl (NoSnapshot ws sid)
       | Some s \<Rightarrow> Inr (s, wire_of E w (sn_manifest s)))"

section \<open>The presence check\<close>

lemma store_has_hash: "is_chunk_hash h \<Longrightarrow> \<exists>b. store_has st h = Inr b"
proof -
  assume h: "is_chunk_hash h"
  have "is_digest_byte c \<Longrightarrow> is_hex_digit c" for c
    by (auto simp: is_digest_byte_def is_hex_digit_def Let_def)
  then have "list_all is_hex_digit h" "\<not> length h < 2"
    using h by (auto simp: is_chunk_hash_def list_all_iff)
  then show ?thesis
    by (simp add: store_has_def chunk_path_def)
qed

definition available :: "relay \<Rightarrow> principal \<Rightarrow> string \<Rightarrow> bool" where
  "available rl p h = (store_has (rl_store rl) h = Inr True \<and> sees (rl_db rl) p h)"

lemma count_missing_spec:
  assumes "\<forall>h\<in>set hs. is_chunk_hash h"
  shows "\<exists>first. count_missing rl p seen acc hs
      = Inr (fst acc + card {h \<in> set hs. h \<notin> set seen \<and> \<not> available rl p h}, first)
    \<and> (snd acc \<noteq> [] \<longrightarrow> first = snd acc)"
  using assms
proof (induction hs arbitrary: seen acc)
  case (Cons h hs)
  obtain here where here: "store_has (rl_store rl) h = Inr here"
    using store_has_hash Cons.prems by (metis list.set_intros(1))
  have ne: "h \<noteq> []"
    using Cons.prems by (auto simp: is_chunk_hash_def)
  have hs: "\<forall>h\<in>set hs. is_chunk_hash h"
    using Cons.prems by simp
  show ?case
  proof (cases "h \<in> set seen")
    case True
    then have "{x \<in> set (h # hs). x \<notin> set seen \<and> \<not> available rl p x}
        = {x \<in> set hs. x \<notin> set seen \<and> \<not> available rl p x}"
      by auto
    then show ?thesis
      using Cons.IH [OF hs, of seen acc] True by simp
  next
    case new: False
    show ?thesis
    proof (cases "available rl p h")
      case True
      then have "{x \<in> set (h # hs). x \<notin> set seen \<and> \<not> available rl p x}
          = {x \<in> set hs. x \<notin> set (h # seen) \<and> \<not> available rl p x}"
        by auto
      then show ?thesis
        using Cons.IH [OF hs, of "h # seen" acc] new True here by (simp add: available_def)
    next
      case False
      let ?acc = "(fst acc + 1, if snd acc = [] then h else snd acc)"
      have "{x \<in> set (h # hs). x \<notin> set seen \<and> \<not> available rl p x}
          = insert h {x \<in> set hs. x \<notin> set (h # seen) \<and> \<not> available rl p x}"
        using new False by auto
      then have "card {x \<in> set (h # hs). x \<notin> set seen \<and> \<not> available rl p x}
          = Suc (card {x \<in> set hs. x \<notin> set (h # seen) \<and> \<not> available rl p x})"
        by simp
      moreover have "\<not> (here \<and> sees (rl_db rl) p h)"
        using False here by (simp add: available_def)
      then have "count_missing rl p seen acc (h # hs) = count_missing rl p (h # seen) ?acc hs"
        using new here by (simp only: count_missing.simps) (simp del: de_Morgan_conj)
      ultimately show ?thesis
        using Cons.IH [OF hs, of "h # seen" ?acc] ne by auto
    qed
  qed
qed (auto intro: prod_eqI)

lemma require_present_ok:
  assumes "\<forall>h\<in>set hs. is_chunk_hash h"
  shows "require_present rl p hs = Inr () \<longleftrightarrow> (\<forall>h\<in>set hs. available rl p h)"
proof -
  obtain first where "count_missing rl p [] (0, []) hs
      = Inr (card {h \<in> set hs. \<not> available rl p h}, first)"
    using count_missing_spec [OF assms, of rl p "[]" "(0, [])"] by auto
  then have "require_present rl p hs = Inr () \<longleftrightarrow> card {h \<in> set hs. \<not> available rl p h} = 0"
    by (simp add: require_present_def del: card_0_eq)
  also have "\<dots> \<longleftrightarrow> {h \<in> set hs. \<not> available rl p h} = {}"
    by (rule card_0_eq) simp
  also have "\<dots> \<longleftrightarrow> (\<forall>h\<in>set hs. available rl p h)"
    by auto
  finally show ?thesis .
qed

lemma check_hashes_ok: "check_all check_hash hs = Inr () \<longleftrightarrow> (\<forall>h\<in>set hs. is_chunk_hash h)"
  by (auto simp: check_all_ok check_hash_def split: if_splits)

lemma missing_of_spec:
  assumes "\<forall>h\<in>set hs. is_chunk_hash h"
  shows "missing_of rl p hs = Inr (filter (\<lambda>h. \<not> available rl p h) hs)"
  using assms
proof (induction hs)
  case (Cons h hs)
  then obtain here where "store_has (rl_store rl) h = Inr here"
    using store_has_hash by (metis list.set_intros(1))
  then show ?case
    using Cons by (auto simp: available_def)
qed simp

section \<open>What a commit pins\<close>

definition envelope_law :: "relay_env \<Rightarrow> bool" where
  "envelope_law E \<longleftrightarrow> (\<forall>m hs. re_parse E (re_envelope E m hs) = Some (m, hs))"

lemma validate_submitted_ok:
  assumes "validate_submitted_manifest E rl ws p raw = Inr m"
  shows "re_manifest E raw = Some m" "mf_workspace_id m = ws" "is_ok (validate m)"
    "\<forall>h\<in>set (chunk_hashes m). is_chunk_hash h \<and> available rl p h"
proof -
  have "re_manifest E raw = Some m \<and> mf_workspace_id m = ws \<and> is_ok (validate m)
      \<and> check_all check_hash (manifest_chunks m) = Inr ()
      \<and> require_present rl p (manifest_chunks m) = Inr ()"
    using assms by (auto simp: validate_submitted_manifest_def rbind_ok_iff split: option.splits if_splits)
  then show "re_manifest E raw = Some m" "mf_workspace_id m = ws" "is_ok (validate m)"
    "\<forall>h\<in>set (chunk_hashes m). is_chunk_hash h \<and> available rl p h"
    using check_hashes_ok require_present_ok [of "manifest_chunks m" rl p]
    by (simp_all add: chunk_hashes_def)
qed

lemma validate_e2e_ok:
  assumes "validate_e2e_commit rl p enc hs = Inr ()"
  shows "\<forall>h\<in>set hs. is_chunk_hash h \<and> available rl p h"
proof -
  have "check_all check_hash hs = Inr ()" "require_present rl p hs = Inr ()"
    using assms by (auto simp: validate_e2e_commit_def rbind_ok_iff split: sum.splits if_splits)
  then show ?thesis
    using check_hashes_ok require_present_ok by simp
qed

lemma commit_payload_ok:
  assumes "commit_payload E rl ws w p req = Inr (stored, refs)" "envelope_law E"
  shows "\<forall>h\<in>set refs. is_chunk_hash h \<and> available rl p h"
    and "\<exists>cs. stored_row_chunks E (w_e2e w) stored = Some cs \<and> set cs = set refs"
proof -
  have "(\<forall>h\<in>set refs. is_chunk_hash h \<and> available rl p h)
    \<and> (\<exists>cs. stored_row_chunks E (w_e2e w) stored = Some cs \<and> set cs = set refs)"
  proof (cases "w_e2e w")
    case True
    then obtain enc hs where "validate_e2e_commit rl p enc hs = Inr ()"
      "stored = e2e_stored_manifest E enc hs" "refs = remdups hs"
      using assms(1) by (auto simp: commit_payload_def Let_def rbind_ok_iff split: option.splits if_splits)
    then show ?thesis
      using True validate_e2e_ok assms(2)
      by (simp add: stored_row_chunks_def e2e_stored_manifest_def envelope_law_def)
  next
    case False
    then obtain m where "validate_submitted_manifest E rl ws p stored = Inr m" "refs = chunk_hashes m"
      using assms(1) by (auto simp: commit_payload_def rbind_ok_iff split: option.splits if_splits)
    then show ?thesis
      using False validate_submitted_ok [of E rl ws p stored m] by (simp add: stored_row_chunks_def)
  qed
  then show "\<forall>h\<in>set refs. is_chunk_hash h \<and> available rl p h"
    "\<exists>cs. stored_row_chunks E (w_e2e w) stored = Some cs \<and> set cs = set refs"
    by blast+
qed

text \<open>The payload check never reports a sequence number.\<close>

lemma check_hashes_err: "check_all check_hash hs = Inl e \<Longrightarrow> e \<noteq> Conflict c"
  by (induction hs) (auto simp: check_hash_def split: if_splits)

lemma count_missing_err: "count_missing rl p seen acc hs = Inl e \<Longrightarrow> e = Internal"
  by (induction rl p seen acc hs rule: count_missing.induct) (auto split: if_splits sum.splits)

lemma require_present_err: "require_present rl p hs = Inl e \<Longrightarrow> e \<noteq> Conflict c"
  using count_missing_err
  by (fastforce simp: require_present_def rbind_def split: sum.splits if_splits)

lemma check_env_policy_err: "check_env_policy db ws m = Inl e \<Longrightarrow> e \<noteq> Conflict (CurrentSeq c)"
  by (auto simp: check_env_policy_def split: option.splits bool.splits)

lemma commit_payload_err: "commit_payload E rl ws w p req = Inl e \<Longrightarrow> e \<noteq> Conflict (CurrentSeq c)"
  using check_hashes_err require_present_err check_env_policy_err
  by (fastforce simp: commit_payload_def validate_submitted_manifest_def validate_e2e_commit_def rbind_def Let_def
      split: option.splits if_splits sum.splits)

lemma store_has_files: "st_files a = st_files b \<Longrightarrow> store_has a h = store_has b h"
  by (simp add: store_has_def)

text \<open>A commit passes the gate, the device check and the payload check before anything
  else; then only the sequence number and the disk can stop it.\<close>

lemma put_head_cases:
  assumes "put_head E sync_ok fault p ws device base req rl = (r, rl')"
  obtains (rejected) e where "r = Inl e" "rl' = rl"
    "rbind (require_role (rl_db rl) ws p Writer) (\<lambda>w.
       rbind (case device of None \<Rightarrow> Inl Forbidden | Some d \<Rightarrow> check_device d) (\<lambda>_.
         commit_payload E rl ws w p req)) = Inl e"
  | (stale) w stored refs where "r = Inl (Conflict (CurrentSeq (current_seq (rl_db rl) ws)))" "rl' = rl"
      "base \<noteq> current_seq (rl_db rl) ws" "require_role (rl_db rl) ws p Writer = Inr w"
      "commit_payload E rl ws w p req = Inr (stored, refs)"
  | (broken) "r = Inl Internal" "rl_db rl' = rl_db rl" "st_files (rl_store rl') = st_files (rl_store rl)"
  | (committed) w d stored refs where "r = Inr (base + 1, re_hash E stored)"
      "base = current_seq (rl_db rl) ws" "require_role (rl_db rl) ws p Writer = Inr w"
      "device = Some d" "check_device d = Inr ()"
      "commit_payload E rl ws w p req = Inr (stored, refs)"
      "st_files (rl_store rl') = st_files (rl_store rl)" "st_pending (rl_store rl') = []"
      "insert_head fault ws (base + 1) (re_hash E stored) stored refs (rl_db rl) = (Inr (), rl_db rl')"
proof (cases "rbind (require_role (rl_db rl) ws p Writer) (\<lambda>w.
       rbind (case device of None \<Rightarrow> Inl Forbidden | Some d \<Rightarrow> check_device d) (\<lambda>_.
         commit_payload E rl ws w p req))")
  case (Inl e)
  then have "r = Inl e" "rl' = rl"
    using assms by (simp_all add: put_head_def)
  then show thesis
    using rejected Inl by blast
next
  case (Inr v)
  obtain stored refs where v: "v = (stored, refs)" by fastforce
  obtain w d where gate: "require_role (rl_db rl) ws p Writer = Inr w" "device = Some d"
    "check_device d = Inr ()" "commit_payload E rl ws w p req = Inr (stored, refs)"
    using Inr v by (auto simp: rbind_ok_iff split: option.splits)
  note unf = assms [unfolded put_head_def Inr v sum.case prod.case Let_def]
  show thesis
  proof (cases "base = current_seq (rl_db rl) ws")
    case False
    then have "r = Inl (Conflict (CurrentSeq (current_seq (rl_db rl) ws)))" "rl' = rl"
      using unf by auto
    then show thesis
      using stale False gate(1,4) by blast
  next
    case True
    obtain f st where fl: "store_flush sync_ok (rl_store rl) = (f, st)" by fastforce
    obtain i db where ih: "insert_head fault ws (base + 1) (re_hash E stored) stored refs (rl_db rl) = (i, db)"
      by fastforce
    have st: "st_files st = st_files (rl_store rl)"
      using store_flush_result [OF fl] .
    show thesis
    proof (cases f)
      case (Inl x)
      then have "r = Inl Internal" "rl' = rl\<lparr>rl_store := st\<rparr>"
        using unf True fl by simp_all
      then show thesis
        using broken st by simp
    next
      case f: (Inr x)
      show thesis
      proof (cases i)
        case (Inl y)
        then have "db = rl_db rl"
          using ih by (simp add: insert_head_def with_tx_err)
        moreover have "r = Inl Internal" "rl' = rl\<lparr>rl_store := st, rl_db := db\<rparr>"
          using unf True fl f ih Inl by simp_all
        ultimately show thesis
          using broken st by simp
      next
        case (Inr y)
        then have "r = Inr (base + 1, re_hash E stored)" "rl' = rl\<lparr>rl_store := st, rl_db := db\<rparr>"
          using unf True fl f ih by simp_all
        moreover have "insert_head fault ws (base + 1) (re_hash E stored) stored refs (rl_db rl) = (Inr (), db)"
          using ih Inr by simp
        moreover have "st_pending st = []"
          using fl f flush_ok_empty by blast
        ultimately show thesis
          using committed [OF _ True gate] st by simp
      qed
    qed
  qed
qed

lemma commit_current:
  assumes "bt_wf (db_heads db)" "insert_head fault ws (current_seq db ws + 1) hash m refs db = (Inr u, db')"
  shows "current_head ws db' = Some (current_seq db ws + 1, \<lparr>h_hash = hash, h_manifest = m\<rparr>)"
    and "w \<noteq> ws \<Longrightarrow> current_head w db' = current_head w db"
proof -
  note ins = insert_head_ok [OF assms(2,1)]
  have below: "\<forall>k\<in>fst ` set (rows_of ws (db_heads db)). k < current_seq db ws + 1"
  proof
    fix k
    assume k: "k \<in> fst ` set (rows_of ws (db_heads db))"
    then have "bt_get (db_heads db) (ws, k) \<noteq> None"
      unfolding fst_set_rows_of by (simp add: map_of_eq_None_iff)
    moreover from k obtain s h where c: "current_head ws db = Some (s, h)"
      by (cases "current_head ws db") (auto simp: current_head_def split: list.splits)
    moreover have "current_seq db ws = s"
      using c by (simp add: current_seq_def)
    ultimately show "k < current_seq db ws + 1"
      using current_head_newest [OF assms(1), of ws s h] by fastforce
  qed
  have "rows_of ws (db_heads db')
      = newest_rows HEAD_KEEP (rows_of ws (db_heads db)
          @ [(current_seq db ws + 1, \<lparr>h_hash = hash, h_manifest = m\<rparr>)])"
    unfolding ins(1) [of ws] using bt_insert_last [OF wf_rows_of [OF assms(1)] below] by simp
  then show "current_head ws db' = Some (current_seq db ws + 1, \<lparr>h_hash = hash, h_manifest = m\<rparr>)"
    by (simp add: current_head_def newest_rows_def HEAD_KEEP_def split: list.split)
  show "current_head w db' = current_head w db" if "w \<noteq> ws"
    using ins(1) [of w] that by (simp add: current_head_def)
qed

section \<open>The head log is a compare-and-swap register\<close>

text \<open>The abstract view of a workspace's head log: a version number and a content, with
  one operation.\<close>

definition register :: "db \<Rightarrow> string \<Rightarrow> int \<times> string option" where
  "register db ws = (case current_head ws db of None \<Rightarrow> (0, None) | Some (s, h) \<Rightarrow> (s, Some (h_manifest h)))"

definition cas :: "int \<Rightarrow> string \<Rightarrow> int \<times> string option \<Rightarrow> (int \<times> string option) option" where
  "cas base m reg = (if base = fst reg then Some (base + 1, Some m) else None)"

lemma fst_register [simp]: "fst (register db ws) = current_seq db ws"
  by (simp add: register_def current_seq_def split: option.splits)

lemma register_commit:
  assumes "bt_wf (db_heads db)" "insert_head fault ws (current_seq db ws + 1) hash m refs db = (Inr u, db')"
  shows "register db' = (register db)(ws := (current_seq db ws + 1, Some m))"
proof
  fix w
  show "register db' w = ((register db)(ws := (current_seq db ws + 1, Some m))) w"
    using commit_current [OF assms] by (simp add: register_def)
qed

text \<open>The head route implements a compare-and-swap register: an accepted commit is a
  successful swap from the sequence number the client named, whose new content is the
  text that was hashed, leaving every other workspace alone; every rejected commit
  leaves every register as it was, and the sequence number reported in a conflict is
  the one the swap failed against.\<close>

theorem put_head_refines_cas:
  assumes "bt_wf (db_heads (rl_db rl))"
    "put_head E sync_ok fault p ws device base req rl = (r, rl')"
  shows "(case r of
      Inr (seq, hash) \<Rightarrow>
        (\<exists>m. cas base m (register (rl_db rl) ws) = Some (seq, Some m)
           \<and> register (rl_db rl') = (register (rl_db rl))(ws := (seq, Some m)) \<and> hash = re_hash E m)
    | Inl e \<Rightarrow>
        rl_db rl' = rl_db rl
        \<and> (\<forall>c m. e = Conflict (CurrentSeq c) \<longrightarrow> c = fst (register (rl_db rl) ws) \<and> cas base m (register (rl_db rl) ws) = None))"
  using assms(2)
proof (cases rule: put_head_cases)
  case (committed w d stored refs)
  then show ?thesis
    using register_commit [OF assms(1), of fault ws "re_hash E stored" stored refs "()" "rl_db rl'"]
    by (auto simp: cas_def)
next
  case (rejected e)
  have "e \<noteq> Conflict (CurrentSeq c)" for c
    using rejected(3) commit_payload_err
    by (auto simp: require_role_def check_device_def rbind_def split: option.splits if_splits sum.splits)
  then show ?thesis
    using rejected by simp
qed (auto simp: cas_def)

section \<open>Uploads\<close>

text \<open>A caller with a role on a workspace sees every chunk it references.\<close>

lemma role_sees:
  "require_role db ws p least = Inr w \<Longrightarrow> bt_contains (db_refs db) (ws, h) \<Longrightarrow> sees db p h"
proof (cases p)
  case (User name)
  assume "require_role db ws p least = Inr w" and r: "bt_contains (db_refs db) (ws, h)"
  then obtain r where w: "get_workspace ws db = Some w" and r0: "role_on db w p = Some r"
    unfolding require_role_ok by blast
  have "w_owner w = Some name \<or> (\<exists>t. w_team_id w = Some t \<and> member_role t name db \<noteq> None)"
    using r0 User by (auto simp: role_on_def bind_eq_Some_conv split: if_splits option.splits)
  then show "sees db p h"
    using User w r by (auto simp: sees_def chunk_visible_iff)
qed (simp add: sees_def)

lemma require_role_weaken:
  "require_role db ws p least = Inr w \<Longrightarrow> least' \<le> least \<Longrightarrow> require_role db ws p least' = Inr w"
  unfolding require_role_ok by (auto intro: order_trans)

lemma Reader_least [simp]: "Reader \<le> r"
  by (cases r) (simp_all add: less_eq_role_def)

lemma require_role_same_tables:
  assumes "db_workspaces db' = db_workspaces db" "db_members db' = db_members db"
  shows "require_role db' ws p least = require_role db ws p least"
proof -
  have "member_role t u db' = member_role t u db" for t u
    using assms by (simp add: member_role_def)
  then have "role_on db' w p = role_on db w p" for w
    by (simp add: role_on_def split: principal.split option.split)
  then show ?thesis
    using assms by (simp add: require_role_def get_workspace_def split: option.split)
qed

lemma store_lookup_has: "store_lookup H st h = Some d \<Longrightarrow> store_has st h = Inr True"
  by (auto simp: store_lookup_Some store_has_def bt_contains_def)

lemma has_store_lookup:
  "untorn H st \<Longrightarrow> store_has st h = Inr True \<Longrightarrow> \<exists>d. store_lookup H st h = Some d"
  by (auto simp: store_lookup_Some store_has_def bt_contains_def untorn_def rbind_ok_iff)

lemma get_lookup: "store_get H h st = (Inr d, st') \<longleftrightarrow> store_lookup H st h = Some d \<and> st' = st"
  by (auto simp: store_lookup_Some store_get_def split: sum.splits option.splits)

lemma store_put_confirms:
  assumes "untorn H st" "store_put H sync_ok disk_ok h d st = (Inr b, st')"
  shows "untorn H st'" "\<exists>x. store_lookup H st' h = Some x"
    "store_lookup H st k = Some y \<Longrightarrow> store_lookup H st' k = Some y"
  using local_store.put_sound [OF assms] local_store.put_present [OF assms] local_store.put_keeps [OF assms]
  by auto

text \<open>What the upload route answers for one entry of a batch.\<close>

definition entry_done :: "relay_env \<Rightarrow> store \<Rightarrow> string \<times> bytes \<Rightarrow> string \<times> entry_status \<Rightarrow> bool" where
  "entry_done E st e r \<longleftrightarrow> fst r = fst e \<and>
     (case entry_reason E (fst e) (snd e) of
        Some x \<Rightarrow> snd r = EntryError x
      | None \<Rightarrow> (snd r = Stored \<or> snd r = AlreadyPresent) \<and> store_lookup (re_hash E) st (fst e) \<noteq> None)"

lemma put_entries_keeps:
  assumes "untorn (re_hash E) st" "put_entries E sync_ok disk_ok es st = (r, st')"
  shows "untorn (re_hash E) st' \<and> (\<forall>k y. store_lookup (re_hash E) st k = Some y \<longrightarrow> store_lookup (re_hash E) st' k = Some y)"
  using assms
proof (induction es arbitrary: st r)
  case (Cons e es)
  obtain h blob where e: "e = (h, blob)" by fastforce
  show ?case
  proof (cases "entry_reason E h blob")
    case (Some x)
    then obtain r2 where "put_entries E sync_ok disk_ok es st = (r2, st')"
      using Cons.prems(2) e by (auto split: sum.splits prod.splits)
    then show ?thesis
      using Cons.IH [OF Cons.prems(1)] by blast
  next
    case None
    obtain r1 st1 where p: "store_put (re_hash E) sync_ok disk_ok h blob st = (r1, st1)" by fastforce
    have s1: "untorn (re_hash E) st1"
      "\<And>k y. store_lookup (re_hash E) st k = Some y \<Longrightarrow> store_lookup (re_hash E) st1 k = Some y"
      using local_store.put_sound [OF Cons.prems(1) p] local_store.put_keeps [OF Cons.prems(1) p] by auto
    have "st' = st1 \<or> (\<exists>r2. put_entries E sync_ok disk_ok es st1 = (r2, st'))"
      using Cons.prems(2) None p e by (auto split: sum.splits prod.splits)
    then show ?thesis
      using Cons.IH [OF s1(1)] s1 by blast
  qed
qed simp

lemma entry_done_keep:
  assumes "entry_done E st e r" "\<forall>k y. store_lookup (re_hash E) st k = Some y \<longrightarrow> store_lookup (re_hash E) st' k = Some y"
  shows "entry_done E st' e r"
  using assms by (auto simp: entry_done_def split: option.splits)

lemma put_entries_done:
  assumes "untorn (re_hash E) st" "put_entries E sync_ok disk_ok es st = (Inr rs, st')"
  shows "list_all2 (entry_done E st') es rs"
  using assms
proof (induction es arbitrary: st rs)
  case (Cons e es)
  obtain h blob where e: "e = (h, blob)" by fastforce
  show ?case
  proof (cases "entry_reason E h blob")
    case (Some x)
    then obtain rs' where "put_entries E sync_ok disk_ok es st = (Inr rs', st')" "rs = (h, EntryError x) # rs'"
      using Cons.prems(2) e by (auto split: sum.splits prod.splits)
    then show ?thesis
      using Cons.IH [OF Cons.prems(1)] Some e by (simp add: entry_done_def)
  next
    case None
    then obtain fresh st1 rs' where p: "store_put (re_hash E) sync_ok disk_ok h blob st = (Inr fresh, st1)"
      "put_entries E sync_ok disk_ok es st1 = (Inr rs', st')"
      "rs = (h, if fresh then Stored else AlreadyPresent) # rs'"
      using Cons.prems(2) e by (auto split: sum.splits prod.splits)
    note sp = store_put_confirms [OF Cons.prems(1) p(1)]
    have "entry_done E st1 e (h, if fresh then Stored else AlreadyPresent)"
      using sp(2) None e by (simp add: entry_done_def)
    then show ?thesis
      using Cons.IH [OF sp(1) p(2)] entry_done_keep put_entries_keeps [OF sp(1) p(2)] p(3) by simp
  qed
qed simp

lemma insert_chunk_refs_contains [simp]:
  "bt_contains (db_refs (insert_chunk_refs ws hs db)) (w, h)
     \<longleftrightarrow> bt_contains (db_refs db) (w, h) \<or> w = ws \<and> h \<in> set hs"
  by (auto simp: insert_chunk_refs_def bt_contains_def insert_refs_get)

lemma insert_chunk_refs_role [simp]:
  "require_role (insert_chunk_refs ws' hs db) ws p least = require_role db ws p least"
  by (rule require_role_same_tables) (simp_all add: insert_chunk_refs_def)

lemma confirmed_done:
  assumes "list_all2 (entry_done E st) es rs"
  shows "set (confirmed rs) = {h. \<exists>d. (h, d) \<in> set es \<and> entry_reason E h d = None}"
  using assms
proof (induction rule: list_all2_induct)
  case (Cons e es r rs)
  have "set (confirmed (r # rs)) = (if entry_reason E (fst e) (snd e) = None then {fst e} else {}) \<union> set (confirmed rs)"
    using Cons.hyps(1) by (auto simp: confirmed_def entry_done_def split: option.splits)
  then show ?case
    using Cons.IH by (cases e) auto
qed (simp add: confirmed_def)

text \<open>A batched upload answers every entry, in order, on its own: an entry that is
  malformed, too big or does not hash to its name gets that reason and leaves no trace,
  every other entry is stored and, from then on, served to every reader of the
  workspace under its verified bytes; exactly the confirmed entries become references
  of the workspace, and only a writer gets that far.\<close>

theorem put_many_exact:
  assumes "untorn (re_hash E) (rl_store rl)"
    "put_many_chunks E sync_ok disk_ok p ws body rl = (Inr rs, rl')"
  shows "\<exists>entries w. frame_decode body = Inr entries
      \<and> require_role (rl_db rl) ws p Writer = Inr w
      \<and> list_all2 (entry_done E (rl_store rl')) entries rs
      \<and> rl_db rl' = insert_chunk_refs ws (confirmed rs) (rl_db rl)
      \<and> (\<forall>h d. (h, d) \<in> set entries \<and> entry_reason E h d = None \<longrightarrow>
           (\<forall>q w'. require_role (rl_db rl') ws q Reader = Inr w' \<longrightarrow>
              (\<exists>bytes. get_chunk E q ws h rl' = (Inr bytes, rl') \<and> re_hash E bytes = h)))"
proof -
  obtain entries w st where up: "frame_decode body = Inr entries"
    "require_role (rl_db rl) ws p Writer = Inr w"
    "put_entries E sync_ok disk_ok entries (rl_store rl) = (Inr rs, st)"
    "rl' = rl\<lparr>rl_store := st, rl_db := insert_chunk_refs ws (confirmed rs) (rl_db rl)\<rparr>"
    using assms(2) by (auto simp: put_many_chunks_def split: sum.splits if_splits prod.splits)
  note d = put_entries_done [OF assms(1) up(3)]
  have "\<exists>bytes. get_chunk E q ws h rl' = (Inr bytes, rl') \<and> re_hash E bytes = h"
    if e: "(h, d) \<in> set entries" "entry_reason E h d = None"
      and r: "require_role (rl_db rl') ws q Reader = Inr w'" for h d q w'
  proof -
    have "h \<in> set (confirmed rs)"
      using confirmed_done [OF d] e by blast
    then have "sees (rl_db rl') q h"
      using role_sees [OF r] by (simp add: up(4))
    moreover obtain rsl where "entry_done E st (h, d) rsl"
      using d e(1) by (metis in_set_conv_nth list_all2_conv_all_nth)
    then obtain bytes where b: "store_lookup (re_hash E) st h = Some bytes"
      using e(2) by (auto simp: entry_done_def)
    moreover have "is_chunk_hash h"
      using e(2) by (auto simp: entry_reason_def split: if_splits)
    moreover have "store_get (re_hash E) h st = (Inr bytes, st)"
      using b get_lookup by blast
    ultimately show ?thesis
      using r local_store.lookup_verified [OF b] by (simp add: get_chunk_def up(4))
  qed
  then show ?thesis
    using up d by auto
qed

lemma get_entries_spec:
  "get_entries E ks st = (Inr es, st')
     \<Longrightarrow> st' = st \<and> map fst es = ks \<and> (\<forall>(k, b)\<in>set es. store_lookup (re_hash E) st k = Some b)"
proof (induction ks arbitrary: es st')
  case (Cons k ks)
  obtain b st1 where g: "store_get (re_hash E) k st = (Inr b, st1)"
    using Cons.prems by (auto split: prod.splits sum.splits store_error.splits)
  then have l: "store_lookup (re_hash E) st k = Some b" "st1 = st"
    by (simp_all add: get_lookup)
  then obtain es' where "get_entries E ks st = (Inr es', st')" "es = (k, b) # es'"
    using Cons.prems g by (auto split: prod.splits sum.splits)
  then show ?case
    using Cons.IH l by auto
qed simp

lemma get_many_ok:
  assumes "get_many_chunks E p ws hs rl = (Inr body, rl')"
  shows "\<exists>es. body = frame_encode es \<and> map fst es = hs \<and> length hs \<le> GET_MANY_MAX_HASHES
      \<and> (\<forall>(k, b)\<in>set es. store_lookup (re_hash E) (rl_store rl) k = Some b \<and> available rl p k)
      \<and> rl' = rl \<and> is_ok (require_role (rl_db rl) ws p Reader)"
proof -
  obtain es st where g: "length hs \<le> GET_MANY_MAX_HASHES"
    "is_ok (require_role (rl_db rl) ws p Reader)" "\<forall>h\<in>set hs. sees (rl_db rl) p h"
    "get_entries E hs (rl_store rl) = (Inr es, st)" "body = frame_encode es" "rl' = rl\<lparr>rl_store := st\<rparr>"
    using assms
    by (auto simp: get_many_chunks_def rbind_ok_iff check_all_ok split: if_splits sum.splits prod.splits)
  note entries = get_entries_spec [OF g(4)]
  have "store_lookup (re_hash E) (rl_store rl) k = Some b \<and> available rl p k" if "(k, b) \<in> set es" for k b
  proof -
    have "k \<in> set hs"
      using entries that by force
    moreover have l: "store_lookup (re_hash E) (rl_store rl) k = Some b"
      using entries that by blast
    ultimately show ?thesis
      using g(3) store_lookup_has [OF l] by (simp add: available_def)
  qed
  then show ?thesis
    using g entries by auto
qed

text \<open>C10: No download route ever serves bytes that do not hash to their name, or a chunk
  the caller cannot see through some workspace: a single download and every entry of a
  batch pass the reader gate of the named workspace, are visible to the caller, and
  carry verified bytes in request order.\<close>

theorem downloads_verified:
  "(\<forall>bytes rl'. get_chunk E p ws h rl = (Inr bytes, rl') \<longrightarrow>
      rl' = rl \<and> re_hash E bytes = h \<and> available rl p h \<and> is_ok (require_role (rl_db rl) ws p Reader))
   \<and> (\<forall>body rl'. get_many_chunks E p ws hs rl = (Inr body, rl') \<longrightarrow>
      (\<exists>es. body = frame_encode es \<and> map fst es = hs \<and> length hs \<le> GET_MANY_MAX_HASHES
        \<and> (\<forall>(k, b)\<in>set es. re_hash E b = k \<and> available rl p k)
        \<and> rl' = rl \<and> is_ok (require_role (rl_db rl) ws p Reader)))"
proof (intro conjI allI impI)
  fix bytes rl'
  assume "get_chunk E p ws h rl = (Inr bytes, rl')"
  then have "store_get (re_hash E) h (rl_store rl) = (Inr bytes, rl_store rl')"
    "sees (rl_db rl) p h" "is_ok (require_role (rl_db rl) ws p Reader)" "rl_db rl' = rl_db rl"
    by (auto simp: get_chunk_def split: if_splits sum.splits prod.splits store_error.splits)
  then show "rl' = rl" "re_hash E bytes = h" "available rl p h" "is_ok (require_role (rl_db rl) ws p Reader)"
    using local_store.lookup_verified store_lookup_has by (auto simp: get_lookup available_def)
next
  fix body rl'
  assume "get_many_chunks E p ws hs rl = (Inr body, rl')"
  note ok = get_many_ok [OF this]
  have "(\<forall>(k, b)\<in>set es. store_lookup (re_hash E) (rl_store rl) k = Some b \<and> available rl p k)
      \<Longrightarrow> (\<forall>(k, b)\<in>set es. re_hash E b = k \<and> available rl p k)" for es
    using local_store.lookup_verified by fastforce
  then show "\<exists>es. body = frame_encode es \<and> map fst es = hs \<and> length hs \<le> GET_MANY_MAX_HASHES
        \<and> (\<forall>(k, b)\<in>set es. re_hash E b = k \<and> available rl p k)
        \<and> rl' = rl \<and> is_ok (require_role (rl_db rl) ws p Reader)"
    using ok by blast
qed

text \<open>The presence check is the commit check: for well-formed hashes it lists, in
  request order, exactly those the caller cannot commit, so an empty answer is the
  same as a commit's presence check passing, and every chunk just uploaded is off
  the list of every reader of that workspace.\<close>

theorem presence_check_exact:
  assumes "chunks_missing p ws hashes rl = Inr ms"
  shows "ms = filter (\<lambda>h. \<not> available rl p h) hashes
    \<and> (ms = [] \<longleftrightarrow> require_present rl p hashes = Inr ())
    \<and> (untorn (re_hash E) (rl_store rl)
       \<and> put_chunk E sync_ok disk_ok q ws h body rl = (Inr (), rl') \<and> h \<in> set hashes
       \<longrightarrow> (\<exists>ms'. chunks_missing p ws hashes rl' = Inr ms' \<and> h \<notin> set ms'))"
proof -
  have ok: "length hashes \<le> MAX_MISSING_BATCH" "\<forall>h\<in>set hashes. is_chunk_hash h"
    "missing_of rl p hashes = Inr ms"
    and role: "\<exists>w. require_role (rl_db rl) ws p Reader = Inr w"
    using assms check_hashes_ok by (auto simp: chunks_missing_def rbind_ok_iff split: if_splits)
  have ms: "ms = filter (\<lambda>h. \<not> available rl p h) hashes"
    using ok(3) missing_of_spec [OF ok(2)] by simp
  have "\<exists>ms'. chunks_missing p ws hashes rl' = Inr ms' \<and> h \<notin> set ms'"
    if t: "untorn (re_hash E) (rl_store rl)"
      and put: "put_chunk E sync_ok disk_ok q ws h body rl = (Inr (), rl')"
  proof -
    obtain b st where p: "store_put (re_hash E) sync_ok disk_ok h body (rl_store rl) = (Inr b, st)"
      "rl' = rl\<lparr>rl_store := st, rl_db := insert_chunk_refs ws [h] (rl_db rl)\<rparr>"
      using put by (auto simp: put_chunk_def split: if_splits sum.splits prod.splits)
    obtain w where r: "require_role (rl_db rl') ws p Reader = Inr w"
      using role p(2) by auto
    have "store_has (rl_store rl') h = Inr True"
      using store_put_confirms(2) [OF t p(1)] store_lookup_has p(2) by auto
    then have "available rl' p h"
      using role_sees [OF r] by (simp add: available_def p(2))
    then show ?thesis
      using missing_of_spec [OF ok(2), of rl' p] ok(1) r check_hashes_ok [THEN iffD2, OF ok(2)]
      by (simp add: chunks_missing_def not_less)
  qed
  moreover have "ms = [] \<longleftrightarrow> require_present rl p hashes = Inr ()"
    unfolding require_present_ok [OF ok(2)] ms by (simp add: filter_empty_conv)
  ultimately show ?thesis
    using ms by blast
qed

section \<open>Sample environment\<close>

text \<open>An envelope that parses back, a digest and a database to instantiate the properties
  with: alice owns one encrypted workspace.\<close>

definition toy_field :: "string \<Rightarrow> string" where
  "toy_field s = concat (map (\<lambda>c. [CHR ''x'', c]) s) @ ''y''"

fun toy_fields :: "string \<Rightarrow> string \<Rightarrow> string list" where
  "toy_fields acc [] = []"
| "toy_fields acc [c] = [acc]"
| "toy_fields acc (c # d # r) =
     (if c = CHR ''x'' then toy_fields (acc @ [d]) r else acc # toy_fields [] (d # r))"

lemma toy_fields_field: "toy_fields acc (toy_field s @ r) = (acc @ s) # toy_fields [] r"
proof (induction s arbitrary: acc)
  case Nil
  then show ?case
    by (cases r) (simp_all add: toy_field_def)
qed (simp add: toy_field_def)

lemma toy_fields_list: "toy_fields [] (concat (map toy_field ss)) = ss"
  by (induction ss) (simp_all add: toy_fields_field)

definition toy_env :: relay_env where
  "toy_env = \<lparr>re_hash = (\<lambda>_. sample_hash), re_manifest = (\<lambda>_. None),
     re_envelope = (\<lambda>m hs. concat (map toy_field (m # hs))),
     re_parse = (\<lambda>s. case toy_fields [] s of [] \<Rightarrow> None | m # hs \<Rightarrow> Some (m, hs))\<rparr>"

lemma toy_env_law: "envelope_law toy_env"
  unfolding envelope_law_def toy_env_def
  by (simp add: toy_fields_field toy_fields_list del: toy_fields.simps)

definition toy_relay :: relay where
  "toy_relay = \<lparr>rl_db = empty_db\<lparr>db_workspaces :=
       [(''w'', \<lparr>w_name = ''n'', w_owner = Some ''alice'', w_team_id = None, w_e2e = True\<rparr>)]\<rparr>,
     rl_store = open_deferred []\<rparr>"

lemma toy_relay_untorn: "untorn H (rl_store toy_relay)"
  by (simp add: untorn_def toy_relay_def open_deferred_def open_store_def)

lemma toy_relay_role: "require_role (rl_db toy_relay) ''w'' (User ''alice'') least = Inr
    \<lparr>w_name = ''n'', w_owner = Some ''alice'', w_team_id = None, w_e2e = True\<rparr>"
  by (cases least) (simp_all add: toy_relay_def require_role_def get_workspace_def role_on_def less_role_def)

lemma put_many_exact_witness:
  "\<exists>rl'. (\<exists>rs. put_many_chunks toy_env (\<lambda>_. True) True (User ''alice'') ''w'' (frame_encode [(sample_hash, ''xy'')]) toy_relay
       = (Inr rs, rl'))
     \<and> (\<exists>bytes. get_chunk toy_env (User ''alice'') ''w'' sample_hash rl' = (Inr bytes, rl') \<and> re_hash toy_env bytes = sample_hash)"
proof -
  let ?es = "[(sample_hash, ''xy'')]"
  obtain r rl' where p: "put_many_chunks toy_env (\<lambda>_. True) True (User ''alice'') ''w'' (frame_encode ?es) toy_relay = (r, rl')"
    by fastforce
  have f: "frame_decode (frame_encode ?es) = Inr ?es"
    by (rule frame.dec_enc) (simp add: frame_ok_def sample_hash_ok)
  have e: "entry_reason toy_env sample_hash ''xy'' = None"
    by (simp add: entry_reason_def sample_hash_ok toy_env_def MAX_CHUNK_SIZE_def)
  obtain q where q: "chunk_path sample_hash = Inr q"
    using store_has_hash [OF sample_hash_ok, of "rl_store toy_relay"]
    by (auto simp: store_has_def rbind_ok_iff)
  have "\<exists>st. store_put (re_hash toy_env) (\<lambda>_. True) True sample_hash ''xy'' (rl_store toy_relay) = (Inr True, st)"
    by (simp add: store_put_def toy_env_def q toy_relay_def open_deferred_def open_store_def bt_contains_def
        Let_def DEFERRED_FLUSH_THRESHOLD_def)
  then obtain rs where r: "r = Inr rs"
    using p f e toy_relay_role
    by (auto simp: put_many_chunks_def PUT_MANY_MAX_ENTRIES_def PUT_MANY_MAX_BYTES_def)
  obtain entries where t: "frame_decode (frame_encode ?es) = Inr entries"
    "rl_db rl' = insert_chunk_refs ''w'' (confirmed rs) (rl_db toy_relay)"
    "\<forall>h d. (h, d) \<in> set entries \<and> entry_reason toy_env h d = None \<longrightarrow>
       (\<forall>q w'. require_role (rl_db rl') ''w'' q Reader = Inr w' \<longrightarrow>
          (\<exists>bytes. get_chunk toy_env q ''w'' h rl' = (Inr bytes, rl') \<and> re_hash toy_env bytes = h))"
    using put_many_exact [OF toy_relay_untorn p [unfolded r]] by blast
  have "entries = ?es"
    using t(1) f by simp
  then have "(sample_hash, ''xy'') \<in> set entries"
    by simp
  moreover have "require_role (rl_db rl') ''w'' (User ''alice'') Reader
      = Inr \<lparr>w_name = ''n'', w_owner = Some ''alice'', w_team_id = None, w_e2e = True\<rparr>"
    using toy_relay_role t(2) by simp
  ultimately have "\<exists>bytes. get_chunk toy_env (User ''alice'') ''w'' sample_hash rl' = (Inr bytes, rl')
      \<and> re_hash toy_env bytes = sample_hash"
    using t(3) e by blast
  then show ?thesis
    using p r by blast
qed

definition toy_commit :: "string list \<Rightarrow> commit_body" where
  "toy_commit hs = \<lparr>cb_manifest = None, cb_manifest_enc = Some (base64_encode (replicate 28 CHR ''m'')),
     cb_chunk_hashes = Some hs\<rparr>"

definition toy_row :: workspace_row where
  "toy_row = \<lparr>w_name = ''n'', w_owner = Some ''alice'', w_team_id = None, w_e2e = True\<rparr>"

lemma toy_relay_payload:
  "commit_payload toy_env toy_relay ''w'' toy_row p (toy_commit [])
     = Inr (e2e_stored_manifest toy_env (base64_encode (replicate 28 CHR ''m'')) [], [])"
proof -
  have "base64_decode (base64_encode (replicate 28 CHR ''m'')) = Inr (replicate 28 CHR ''m'')"
    by (rule base64.dec_enc) simp
  then show ?thesis
    by (simp add: commit_payload_def toy_row_def toy_commit_def validate_e2e_commit_def require_present_def
        del: replicate.simps)
qed

lemma put_head_refines_cas_witness:
  "\<exists>seq hash rl' m. put_head toy_env (\<lambda>_. True) False (User ''alice'') ''w'' (Some ''d'') 0 (toy_commit []) toy_relay
      = (Inr (seq, hash), rl')
     \<and> cas 0 m (register (rl_db toy_relay) ''w'') = Some (seq, Some m)
     \<and> register (rl_db rl') ''w'' = (1, Some m)"
proof -
  obtain r rl' where p: "put_head toy_env (\<lambda>_. True) False (User ''alice'') ''w'' (Some ''d'') 0 (toy_commit []) toy_relay
      = (r, rl')"
    by fastforce
  have "check_device ''d'' = Inr ()"
    by code_simp
  moreover have "current_seq (rl_db toy_relay) ''w'' = 0" "st_pending (rl_store toy_relay) = []"
    by (simp_all add: current_seq_def current_head_def toy_relay_def empty_db_def open_deferred_def open_store_def)
  moreover have "fst (insert_head False ''w'' 1 h m [] (rl_db toy_relay)) = Inr ()" for h m
    by (simp add: insert_head_def with_tx_def toy_relay_def empty_db_def bt_contains_def Let_def)
  ultimately have "\<exists>seq hash rl'. put_head toy_env (\<lambda>_. True) False (User ''alice'') ''w'' (Some ''d'') 0 (toy_commit []) toy_relay
      = (Inr (seq, hash), rl')"
    using toy_relay_role [of Writer, folded toy_row_def] toy_relay_payload
    by (simp add: put_head_def Let_def store_flush_def flush_batch_def split_def)
  then obtain seq hash where r: "r = Inr (seq, hash)"
    using p by auto
  have wf: "bt_wf (db_heads (rl_db toy_relay))"
    by (simp add: toy_relay_def empty_db_def)
  show ?thesis
    using put_head_refines_cas [OF wf p [unfolded r]] p r by (auto simp: cas_def split: if_splits)
qed

definition toy_full :: relay where
  "toy_full = \<lparr>rl_db = insert_chunk_refs ''w'' [sample_hash] (rl_db toy_relay),
     rl_store = open_deferred [((take 2 sample_hash, sample_hash), ''xy'')]\<rparr>"

lemma sample_path: "chunk_path sample_hash = Inr (take 2 sample_hash, sample_hash)"
proof -
  obtain q where "chunk_path sample_hash = Inr q"
    using store_has_hash [OF sample_hash_ok, of "rl_store toy_relay"]
    by (auto simp: store_has_def rbind_ok_iff)
  then show ?thesis
    by (auto simp: chunk_path_def split: if_splits)
qed

lemma downloads_verified_witness:
  "get_chunk toy_env (User ''alice'') ''w'' sample_hash toy_full = (Inr ''xy'', toy_full)
   \<and> re_hash toy_env ''xy'' = sample_hash \<and> available toy_full (User ''alice'') sample_hash"
proof -
  have r: "require_role (rl_db toy_full) ''w'' (User ''alice'') Reader = Inr toy_row"
    using toy_relay_role by (simp add: toy_full_def toy_row_def)
  have g: "get_chunk toy_env (User ''alice'') ''w'' sample_hash toy_full = (Inr ''xy'', toy_full)"
    using role_sees [OF r, of sample_hash] r
    by (simp add: get_chunk_def sample_hash_ok store_get_def sample_path)
      (simp add: toy_full_def toy_env_def open_deferred_def open_store_def)
  then show ?thesis
    using downloads_verified [of toy_env "User ''alice''" "''w''" sample_hash toy_full] by blast
qed

lemma presence_check_exact_witness:
  "require_present toy_relay (User ''alice'') [sample_hash] \<noteq> Inr ()"
proof -
  have "\<not> available toy_relay (User ''alice'') sample_hash"
    by (simp add: available_def store_has_def sample_path toy_relay_def open_deferred_def open_store_def
        bt_contains_def)
  then have "chunks_missing (User ''alice'') ''w'' [sample_hash] toy_relay = Inr [sample_hash]"
    using missing_of_spec [of "[sample_hash]" toy_relay "User ''alice''"] toy_relay_role [of Reader]
    by (simp add: chunks_missing_def sample_hash_ok check_hash_def MAX_MISSING_BATCH_def)
  then show ?thesis
    using presence_check_exact by fastforce
qed

end
