(* ===== verification/Relay_Teams.thy ===== *)
theory Relay_Teams
imports Relay_Auth Crypto Encoding Manifest
begin

text \<open>
  The handlers of \<open>relay/src/routes.rs\<close> for users and their keys, teams and their
  members, workspaces and wrapped keys.  A handler is a function of the caller, the
  request and the database; fresh ids and times are arguments, and \<open>fault\<close> says that
  the transaction of the handler fails.
\<close>

section \<open>Users\<close>

definition api_create_user ::
  "(string \<Rightarrow> string) \<Rightarrow> string \<Rightarrow> int \<Rightarrow> principal \<Rightarrow> string \<Rightarrow> db \<Rightarrow> (api_error, string \<times> string) result \<times> db" where
  "api_create_user H token now p name db =
     (if p \<noteq> Admin then (Inl Forbidden, db)
      else if \<not> valid_name name then (Inl (BadRequest (BadName name)), db)
      else
        (let (created, db) = create_user name (H token) now db
         in if created then (Inr (name, token), db) else (Inl (Conflict UserExists), db)))"

definition api_list_users :: "principal \<Rightarrow> db \<Rightarrow> (api_error, (string \<times> int) list) result" where
  "api_list_users p db = (if p \<noteq> Admin then Inl Forbidden else Inr (list_users db))"

record put_key_request =
  pk_x25519 :: "string option"
  pk_ed25519 :: "string option"
  pk_sig :: "string option"

definition hex_field :: "nat \<Rightarrow> string \<Rightarrow> (api_error, bytes) result" where
  "hex_field n value =
     (if length value = n * 2 \<and> list_all is_digest_byte value
      then (case hex_decode value of Inr bs \<Rightarrow> Inr bs | Inl _ \<Rightarrow> Inl Internal)
      else Inl (BadRequest (BadHexField value)))"

definition user_put_key ::
  "prims \<Rightarrow> principal \<Rightarrow> string \<Rightarrow> put_key_request \<Rightarrow> db \<Rightarrow> (api_error, key_bundle) result \<times> db" where
  "user_put_key P p name req db =
     (case p of
        Admin \<Rightarrow> (Inl Forbidden, db)
      | User caller \<Rightarrow>
          if caller \<noteq> name then (Inl Forbidden, db)
          else
            (case (pk_x25519 req, pk_ed25519 req, pk_sig req) of
               (Some x_hex, Some ed_hex, Some sig_hex) \<Rightarrow>
                 (case rbind (hex_field 32 x_hex) (\<lambda>x. rbind (hex_field 32 ed_hex) (\<lambda>ed.
                         rbind (hex_field 64 sig_hex) (\<lambda>sig. Inr (x, ed, sig)))) of
                    Inl e \<Rightarrow> (Inl e, db)
                  | Inr (x, ed, sig) \<Rightarrow>
                      if \<not> ed_verify P ed (bundle_statement name x) sig
                      then (Inl (BadRequest BadSignature), db)
                      else
                        (let (found, db) = set_user_key_bundle name x_hex ed_hex sig_hex db
                         in if \<not> found then (Inl (NoUser name), db)
                            else (Inr \<lparr>kb_pubkey = Some x_hex, kb_ed_pubkey = Some ed_hex,
                                       kb_key_sig = Some sig_hex\<rparr>, db)))
             | _ \<Rightarrow> (Inl (BadRequest UnsignedBundle), db)))"

definition user_get_key :: "string \<Rightarrow> db \<Rightarrow> (api_error, key_bundle) result" where
  "user_get_key name db = (case user_key_bundle name db of Some b \<Rightarrow> Inr b | None \<Rightarrow> Inl (NoUser name))"

section \<open>Teams\<close>

definition lift_db :: "(db_error, 'a) result \<Rightarrow> (api_error, 'a) result" where
  "lift_db r = (case r of Inl _ \<Rightarrow> Inl Internal | Inr x \<Rightarrow> Inr x)"

definition api_create_team ::
  "bool \<Rightarrow> string \<Rightarrow> int \<Rightarrow> principal \<Rightarrow> string \<Rightarrow> bool option \<Rightarrow> db \<Rightarrow> (api_error, team) result \<times> db" where
  "api_create_team fault fresh now p name sync_env db =
     (case p of
        Admin \<Rightarrow> (Inl Forbidden, db)
      | User user \<Rightarrow>
          if \<not> valid_name name then (Inl (BadRequest (BadName name)), db)
          else
            (let env = (case sync_env of None \<Rightarrow> True | Some b \<Rightarrow> b);
                 (r, db) = create_team_with_owner fault fresh name now user env db
             in case r of
                  Inl _ \<Rightarrow> (Inl Internal, db)
                | Inr created \<Rightarrow>
                    if created then (Inr \<lparr>tm_id = fresh, tm_name = name, tm_sync_env = env\<rparr>, db)
                    else (Inl (Conflict TeamExists), db)))"

definition api_list_teams :: "principal \<Rightarrow> db \<Rightarrow> team list" where
  "api_list_teams p db = (case p of Admin \<Rightarrow> list_teams db | User name \<Rightarrow> list_teams_for_user name db)"

definition team_set_policy :: "principal \<Rightarrow> string \<Rightarrow> bool \<Rightarrow> db \<Rightarrow> (api_error, team) result \<times> db" where
  "team_set_policy p tid sync_env db =
     (case get_team tid db of
        None \<Rightarrow> (Inl (NoTeam tid), db)
      | Some t \<Rightarrow>
          if caller_role db tid p \<noteq> Some ''owner'' then (Inl Forbidden, db)
          else (Inr (t\<lparr>tm_sync_env := sync_env\<rparr>), snd (set_team_sync_env tid sync_env db)))"

definition team_add_member ::
  "principal \<Rightarrow> string \<Rightarrow> string \<Rightarrow> string \<Rightarrow> db \<Rightarrow> (api_error, member_row) result \<times> db" where
  "team_add_member p tid user role_text db =
     (case role_parse role_text of
        None \<Rightarrow> (Inl (BadRequest (BadRole role_text)), db)
      | Some role \<Rightarrow>
          if get_team tid db = None then (Inl (NoTeam tid), db)
          else if caller_role db tid p \<noteq> Some ''owner'' then (Inl Forbidden, db)
          else if \<not> user_exists user db then (Inl (NoUser user), db)
          else if p = User user \<and> role_str role \<noteq> ''owner''
               \<and> length (filter (\<lambda>m. mr_role m = ''owner'') (list_members tid db)) \<le> 1
          then (Inl (Conflict LastOwner), db)
          else
            (let db = add_member tid user (role_str role) db; b = user_key_bundle user db
             in (Inr \<lparr>mr_user = user, mr_role = role_str role, mr_pubkey = Option.bind b kb_pubkey,
                      mr_ed_pubkey = Option.bind b kb_ed_pubkey, mr_key_sig = Option.bind b kb_key_sig\<rparr>, db)))"

definition team_remove_member ::
  "bool \<Rightarrow> principal \<Rightarrow> string \<Rightarrow> string \<Rightarrow> db \<Rightarrow> (api_error, unit) result \<times> db" where
  "team_remove_member fault p tid user db =
     (if get_team tid db = None then (Inl (NoTeam tid), db)
      else
        (let cr = caller_role db tid p; self_leave = (p = User user \<and> cr \<noteq> None)
         in if cr \<noteq> Some ''owner'' \<and> \<not> self_leave then (Inl Forbidden, db)
            else if member_role tid user db = Some ''owner'' \<and> owner_count tid db \<le> 1
            then (Inl (Conflict LastOwner), db)
            else
              (case remove_member fault tid user db of
                 (Inl _, db) \<Rightarrow> (Inl Internal, db)
               | (Inr _, db) \<Rightarrow> (Inr (), db))))"

definition team_members :: "principal \<Rightarrow> string \<Rightarrow> db \<Rightarrow> (api_error, member_row list) result" where
  "team_members p tid db =
     (if get_team tid db = None then Inl (NoTeam tid)
      else if caller_role db tid p = None then Inl Forbidden
      else Inr (list_members tid db))"

section \<open>Workspaces\<close>

record workspace_response =
  wr_id :: string
  wr_row :: workspace_row
  wr_head :: "(int \<times> string) option"

definition workspace_response_of :: "db \<Rightarrow> string \<Rightarrow> workspace_row \<Rightarrow> workspace_response" where
  "workspace_response_of db ws w =
     \<lparr>wr_id = ws, wr_row = w, wr_head = map_option (\<lambda>(s, h). (s, h_hash h)) (current_head ws db)\<rparr>"

definition resolve_workspace :: "principal \<Rightarrow> string \<Rightarrow> string \<Rightarrow> db \<Rightarrow> (api_error, workspace_response) result" where
  "resolve_workspace p team_name name db =
     (case get_team_by_name team_name db of
        None \<Rightarrow> Inl (NoTeamWorkspace team_name name)
      | Some t \<Rightarrow>
          (case find_workspace_in_team (tm_id t) name db of
             None \<Rightarrow> Inl (NoTeamWorkspace team_name name)
           | Some (ws, w) \<Rightarrow>
               if role_on db w p = None then Inl (NoTeamWorkspace team_name name)
               else Inr (workspace_response_of db ws w)))"

definition is_ascii_alphanumeric :: "char \<Rightarrow> bool" where
  "is_ascii_alphanumeric c =
     (let b = byte_of c in (48 \<le> b \<and> b \<le> 57) \<or> (65 \<le> b \<and> b \<le> 90) \<or> (97 \<le> b \<and> b \<le> 122))"

definition valid_workspace_id :: "string \<Rightarrow> bool" where
  "valid_workspace_id s =
     (s \<noteq> [] \<and> length s \<le> 128
      \<and> list_all (\<lambda>c. is_ascii_alphanumeric c \<or> c \<in> {CHR ''-'', CHR ''_'', CHR ''.''}) s
      \<and> list_ex is_ascii_alphanumeric s)"

definition api_create_workspace ::
  "principal \<Rightarrow> string \<Rightarrow> string \<Rightarrow> string option \<Rightarrow> bool \<Rightarrow> db \<Rightarrow> (api_error, string) result \<times> db" where
  "api_create_workspace p ws name team e2e db =
     (if \<not> valid_workspace_id ws then (Inl (BadRequest (BadWorkspaceId ws)), db)
      else if \<not> valid_name name then (Inl (BadRequest (BadName name)), db)
      else
        (case (case team of
                 None \<Rightarrow> Inr ()
               | Some tid \<Rightarrow>
                   if get_team tid db = None then Inl (NoTeam tid) else require_team_writer db tid p) of
           Inl e \<Rightarrow> (Inl e, db)
         | Inr _ \<Rightarrow>
             (let own = (case p of Admin \<Rightarrow> None | User user \<Rightarrow> Some user)
              in case create_workspace ws name own team e2e db of
                   (WsCreated, db) \<Rightarrow> (Inr ws, db)
                 | (WsNameConflict, db) \<Rightarrow> (Inl (Conflict NameConflict), db)
                 | (WsIdConflict, db) \<Rightarrow>
                     (case require_role db ws p Reader of
                        Inl e \<Rightarrow> (Inl e, db)
                      | Inr existing \<Rightarrow>
                          (Inl (Conflict (if w_e2e existing \<noteq> e2e then E2eMismatch else IdConflict)), db)))))"

definition api_get_workspace :: "principal \<Rightarrow> string \<Rightarrow> db \<Rightarrow> (api_error, workspace_response) result" where
  "api_get_workspace p ws db =
     rbind (require_role db ws p Reader) (\<lambda>w. Inr (workspace_response_of db ws w))"

definition api_attach_team :: "principal \<Rightarrow> string \<Rightarrow> string \<Rightarrow> db \<Rightarrow> (api_error, string \<times> string) result \<times> db" where
  "api_attach_team p ws tid db =
     (case rbind (require_role db ws p Owner) (\<lambda>_.
             if get_team tid db = None then Inl (NoTeam tid) else require_team_writer db tid p) of
        Inl e \<Rightarrow> (Inl e, db)
      | Inr _ \<Rightarrow>
          (case attach_team ws tid db of
             (Attached, db) \<Rightarrow> (Inr (ws, tid), db)
           | (AttachNameConflict, db) \<Rightarrow> (Inl (Conflict NameConflict), db)))"

section \<open>Wrapped keys\<close>

definition is_wrapped_key_blob :: "string \<Rightarrow> bool" where
  "is_wrapped_key_blob blob =
     (even (length blob) \<and> WRAPPED_KEY_MIN_LEN \<le> length blob div 2 \<and> length blob div 2 \<le> WRAPPED_KEY_MAX_LEN
      \<and> list_all is_digest_byte blob)"

definition put_wrapped_key ::
  "principal \<Rightarrow> string \<Rightarrow> string \<Rightarrow> string \<Rightarrow> db \<Rightarrow> (api_error, string \<times> string) result \<times> db" where
  "put_wrapped_key p ws user blob db =
     (if \<not> is_wrapped_key_blob blob then (Inl (BadRequest BadWrappedKey), db)
      else
        (case require_role db ws p Writer of
           Inl e \<Rightarrow> (Inl e, db)
         | Inr _ \<Rightarrow>
             if \<not> user_exists user db then (Inl (NoUser user), db)
             else (Inr (user, blob), db_put_wrapped_key ws user blob db)))"

definition delete_wrapped_key :: "principal \<Rightarrow> string \<Rightarrow> string \<Rightarrow> db \<Rightarrow> (api_error, unit) result \<times> db" where
  "delete_wrapped_key p ws user db =
     (case require_role db ws p Writer of
        Inl e \<Rightarrow> (Inl e, db)
      | Inr _ \<Rightarrow> (Inr (), db_delete_wrapped_key ws user db))"

definition api_get_my_wrapped_key :: "principal \<Rightarrow> string \<Rightarrow> db \<Rightarrow> (api_error, string) result" where
  "api_get_my_wrapped_key p ws db =
     rbind (require_role db ws p Reader) (\<lambda>_.
       case db_get_wrapped_key ws (case p of User name \<Rightarrow> name | Admin \<Rightarrow> '''') db of
         Some blob \<Rightarrow> Inr blob
       | None \<Rightarrow> Inl (NoWrap ws))"

section \<open>The account handlers as a transition system\<close>

inductive account_step :: "prims \<Rightarrow> (string \<Rightarrow> string) \<Rightarrow> db \<Rightarrow> db \<Rightarrow> bool" for P H where
  acc_create_user: "api_create_user H token now p name db = (r1, db') \<Longrightarrow> account_step P H db db'"
| acc_put_key: "user_put_key P p name req db = (r2, db') \<Longrightarrow> account_step P H db db'"
| acc_create_team: "api_create_team fault fresh now p name env db = (r3, db') \<Longrightarrow> account_step P H db db'"
| acc_set_policy: "team_set_policy p tid env db = (r4, db') \<Longrightarrow> account_step P H db db'"
| acc_add_member: "team_add_member p tid user role db = (r5, db') \<Longrightarrow> account_step P H db db'"
| acc_remove_member: "team_remove_member fault p tid user db = (r6, db') \<Longrightarrow> account_step P H db db'"
| acc_create_workspace: "api_create_workspace p ws name team e2e db = (r7, db') \<Longrightarrow> account_step P H db db'"
| acc_attach: "api_attach_team p ws tid db = (r8, db') \<Longrightarrow> account_step P H db db'"
| acc_put_wrap: "put_wrapped_key p ws user blob db = (r9, db') \<Longrightarrow> account_step P H db db'"
| acc_delete_wrap: "delete_wrapped_key p ws user db = (r10, db') \<Longrightarrow> account_step P H db db'"

inductive account_run :: "prims \<Rightarrow> (string \<Rightarrow> string) \<Rightarrow> db \<Rightarrow> db \<Rightarrow> bool" for P H where
  run_refl: "account_run P H db db"
| run_step: "account_run P H db db' \<Longrightarrow> account_step P H db' db'' \<Longrightarrow> account_run P H db db''"

text \<open>Every handler either leaves the database alone or runs one operation of the database.\<close>

lemma account_step_db:
  "account_step P H db db' \<Longrightarrow> db' = db \<or> db_step db db'"
proof (induction rule: account_step.induct)
  case (acc_create_user token now p name db r1 db')
  then show ?case
    by (auto simp: api_create_user_def split: if_splits prod.splits intro: step_create_user)
next
  case (acc_put_key p name req db r2 db')
  then show ?case
    by (auto simp: user_put_key_def split: principal.splits if_splits option.splits sum.splits prod.splits
        intro: step_set_key)
next
  case (acc_create_team fault fresh now p name env db r3 db')
  then show ?case
    by (auto simp: api_create_team_def Let_def split: principal.splits if_splits sum.splits prod.splits
        intro: step_create_team)
next
  case (acc_set_policy p tid env db r4 db')
  obtain b d where "set_team_sync_env tid env db = (b, d)" by fastforce
  then show ?case
    using acc_set_policy by (auto simp: team_set_policy_def split: option.splits if_splits intro: step_set_policy)
next
  case (acc_add_member p tid user role db r5 db')
  then show ?case
    by (auto simp: team_add_member_def Let_def split: option.splits if_splits intro: step_add_member)
next
  case (acc_remove_member fault p tid user db r6 db')
  then show ?case
    by (auto simp: team_remove_member_def Let_def split: option.splits if_splits prod.splits sum.splits
        intro: step_remove_member)
next
  case (acc_create_workspace p ws name team e2e db r7 db')
  then show ?case
    by (auto simp: api_create_workspace_def Let_def
        split: if_splits sum.splits prod.splits create_workspace_outcome.splits intro: step_create_workspace)
next
  case (acc_attach p ws tid db r8 db')
  then show ?case
    by (auto simp: api_attach_team_def split: sum.splits prod.splits attach_outcome.splits intro: step_attach)
next
  case (acc_put_wrap p ws user blob db r9 db')
  then show ?case
    by (auto simp: put_wrapped_key_def split: if_splits sum.splits intro: step_put_key)
next
  case (acc_delete_wrap p ws user db r10 db')
  then show ?case
    by (auto simp: delete_wrapped_key_def split: sum.splits intro: step_delete_key)
qed

lemma account_run_reachable:
  "account_run P H db db' \<Longrightarrow> db_reachable db \<Longrightarrow> db_reachable db'"
proof (induction rule: account_run.induct)
  case (run_step db db' db'')
  then show ?case
    using account_step_db reach_step by metis
qed

section \<open>A team always keeps an owner\<close>

definition team_owned :: "db \<Rightarrow> bool" where
  "team_owned db \<longleftrightarrow>
     (\<forall>tid. bt_contains (db_teams db) tid \<longrightarrow> (\<exists>u. member_role tid u db = Some ''owner''))"

definition owner_rows :: "string \<Rightarrow> db \<Rightarrow> ((string \<times> string) \<times> string) list" where
  "owner_rows tid db = filter (\<lambda>kv. fst (fst kv) = tid \<and> snd kv = ''owner'') (db_members db)"

lemma owner_count_rows: "owner_count tid db = length (owner_rows tid db)"
  by (simp add: owner_count_def owner_rows_def split_def)

lemma listed_owners:
  "length (filter (\<lambda>m. mr_role m = ''owner'') (list_members tid db)) = owner_count tid db"
  by (simp add: list_members_def owner_count_def filter_map o_def split_def Let_def conj_commute)

lemma another_owner:
  assumes wf: "bt_wf (db_members db)" and many: "\<not> owner_count tid db \<le> 1"
  shows "\<exists>u. u \<noteq> user \<and> member_role tid u db = Some ''owner''"
proof (rule ccontr)
  assume none: "\<not> ?thesis"
  let ?F = "owner_rows tid db"
  have "fst kv = (tid, user)" if kv: "kv \<in> set ?F" for kv
  proof -
    have row: "kv \<in> set (db_members db)" "fst (fst kv) = tid" "snd kv = ''owner''"
      using kv by (simp_all add: owner_rows_def)
    then obtain u where "kv = ((tid, u), ''owner'')"
      by (metis prod.collapse)
    then show ?thesis
      using row(1)
      none by (auto simp: member_role_def bt_get_in_set [OF wf])
  qed
  then have "set (map fst ?F) \<subseteq> {(tid, user)}"
    by auto
  moreover have "distinct (map fst ?F)"
    using wf unfolding owner_rows_def by (intro bt_wf_distinct bt_wf_filter)
  ultimately have "length (map fst ?F) \<le> card {(tid, user)}"
    by (metis card_mono distinct_card finite.emptyI finite_insert)
  then show False
    using many by (simp add: owner_count_rows)
qed

lemma team_owned_frame:
  assumes "team_owned db" "db_members db' = db_members db"
    "\<And>tid. bt_contains (db_teams db') tid = bt_contains (db_teams db) tid"
  shows "team_owned db'"
  using assms by (simp add: team_owned_def member_role_def)

lemma create_team_owned:
  assumes "team_owned db" "create_team_with_owner fault tid name t user env db = (r, db')"
  shows "team_owned db'"
proof (cases "r = Inr True")
  case True
  then have "db' = add_member tid user ''owner''
      (db\<lparr>db_teams := bt_insert tid \<lparr>t_name = name, t_created_at = t, t_sync_env = env\<rparr> (db_teams db)\<rparr>)"
    using assms(2) by (auto simp: create_team_with_owner_def with_tx_ok create_team_def split: if_splits)
  then show ?thesis
    using assms(1) by (auto simp: team_owned_def add_member_def member_role_def bt_contains_def)
next
  case False
  have "db' = db"
    using assms(2) False
    by (auto simp: create_team_with_owner_def with_tx_def create_team_def split: if_splits)
  then show ?thesis
    using assms(1) by simp
qed

lemma member_role_add_member:
  "member_role t u (add_member tid user role db) = (if t = tid \<and> u = user then Some role else member_role t u db)"
  by (simp add: add_member_def member_role_def)

lemma add_member_teams: "db_teams (add_member tid user role db) = db_teams db"
  by (simp add: add_member_def)

lemma add_member_owned:
  assumes owned: "team_owned db" and wf: "bt_wf (db_members db)"
    and step: "team_add_member p tid user role db = (r, db')"
  shows "team_owned db'"
proof (cases "db' = db")
  case False
  then obtain ro where ro: "caller_role db tid p = Some ''owner''"
    "\<not> (p = User user \<and> role_str ro \<noteq> ''owner'' \<and> owner_count tid db \<le> 1)"
    "db' = add_member tid user (role_str ro) db"
    using step by (auto simp: team_add_member_def Let_def listed_owners split: option.splits if_splits)
  obtain caller where caller: "p = User caller" "member_role tid caller db = Some ''owner''"
    using ro(1) by (cases p) (simp_all add: caller_role_def)
  have "\<exists>u. member_role tid u db' = Some ''owner''"
  proof (cases "role_str ro = ''owner''")
    case True
    then show ?thesis
      unfolding ro(3) by (auto simp: add_member_def member_role_def)
  next
    case demote: False
    obtain u where "u \<noteq> user" "member_role tid u db = Some ''owner''"
    proof (cases "caller = user")
      case True
      then show ?thesis
        using another_owner [OF wf, of tid user] ro(2) demote caller(1) that by blast
    qed (use caller(2) that in blast)
    then show ?thesis
      unfolding ro(3) by (auto simp: add_member_def member_role_def)
  qed
  then show ?thesis
    using owned unfolding team_owned_def ro(3)
    by (metis add_member_teams member_role_add_member)
qed (use owned in simp)

lemma remove_member_owned:
  assumes owned: "team_owned db" and wf: "bt_wf (db_members db)"
    and step: "team_remove_member fault p tid user db = (r, db')"
  shows "team_owned db'"
proof (cases "db' = db")
  case False
  then obtain b where guard: "\<not> (member_role tid user db = Some ''owner'' \<and> owner_count tid db \<le> 1)"
    and rm: "remove_member fault tid user db = (Inr b, db')"
    using step by (auto simp: team_remove_member_def Let_def remove_member_def
        split: if_splits prod.splits sum.splits dest: with_tx_err)
  have role: "member_role t u db' = (if t = tid \<and> u = user then None else member_role t u db)" for t u
    using rm by (auto simp: remove_member_def with_tx_ok Let_def member_role_def split: if_splits)
  have teams: "db_teams db' = db_teams db"
    using rm by (auto simp: remove_member_def with_tx_ok Let_def split: if_splits)
  have "\<exists>u. member_role t u db' = Some ''owner''" if t: "bt_contains (db_teams db) t" for t
  proof -
    obtain u where u: "member_role t u db = Some ''owner''"
      using owned t by (auto simp: team_owned_def)
    show ?thesis
    proof (cases "t = tid \<and> u = user")
      case True
      then obtain v where "v \<noteq> user" "member_role tid v db = Some ''owner''"
        using another_owner [OF wf, of tid user] guard u by blast
      then show ?thesis
        using True role by auto
    qed (use u role in auto)
  qed
  then show ?thesis
    by (simp add: team_owned_def teams)
qed (use owned in simp)

lemma account_step_frame:
  assumes "account_step P H db db'"
  shows "db_members db' = db_members db \<and> (\<forall>tid. bt_contains (db_teams db') tid = bt_contains (db_teams db) tid)
    \<or> (\<exists>fault tid name t user env r. create_team_with_owner fault tid name t user env db = (r, db'))
    \<or> (\<exists>p tid user role r. team_add_member p tid user role db = (r, db'))
    \<or> (\<exists>fault p tid user r. team_remove_member fault p tid user db = (r, db'))"
  using assms
proof (induction rule: account_step.induct)
  case (acc_create_user token now p name db r1 db')
  then show ?case
    by (auto simp: api_create_user_def create_user_def split: if_splits)
next
  case (acc_put_key p name req db r2 db')
  then show ?case
    by (auto simp: user_put_key_def set_user_key_bundle_def
        split: principal.splits if_splits option.splits sum.splits)
next
  case (acc_create_team fault fresh now p name env db r3 db')
  then show ?case
    by (auto simp: api_create_team_def Let_def split: principal.splits if_splits sum.splits prod.splits)
next
  case (acc_set_policy p tid env db r4 db')
  then show ?case
    by (auto simp: team_set_policy_def set_team_sync_env_def bt_contains_def split: option.splits if_splits)
next
  case (acc_create_workspace p ws name team e2e db r7 db')
  then show ?case
    by (auto simp: api_create_workspace_def Let_def create_workspace_def
        split: if_splits sum.splits)
next
  case (acc_attach p ws tid db r8 db')
  then show ?case
    by (auto simp: api_attach_team_def attach_team_def split: sum.splits option.splits if_splits)
next
  case (acc_put_wrap p ws user blob db r9 db')
  then show ?case
    by (auto simp: put_wrapped_key_def db_put_wrapped_key_def split: if_splits sum.splits)
next
  case (acc_delete_wrap p ws user db r10 db')
  then show ?case
    by (auto simp: delete_wrapped_key_def db_delete_wrapped_key_def split: sum.splits)
qed blast+

lemma account_step_owned:
  assumes "account_step P H db db'" "team_owned db" "bt_wf (db_members db)"
  shows "team_owned db'"
  using account_step_frame [OF assms(1)] assms(2,3) team_owned_frame create_team_owned add_member_owned
    remove_member_owned by metis

text \<open>C26: No sequence of account requests, by anyone and in any order, leaves a team
  without an owner.\<close>

theorem teams_keep_an_owner:
  assumes "account_run P H empty_db db" "get_team tid db \<noteq> None"
  shows "\<exists>u. member_role tid u db = Some ''owner''"
proof -
  have "account_run P H a b \<Longrightarrow> db_reachable a \<and> team_owned a \<Longrightarrow> db_reachable b \<and> team_owned b" for a b
  proof (induction rule: account_run.induct)
    case (run_step db db' db'')
    then have "db_reachable db'" "team_owned db'" "bt_wf (db_members db')"
      using reachable_ok by (auto simp: db_ok_def tables_wf_def)
    then show ?case
      using run_step.hyps(2) account_step_owned account_step_db reach_step by metis
  qed
  moreover have "team_owned empty_db"
    by (simp add: team_owned_def empty_db_def bt_contains_def)
  ultimately have "team_owned db"
    using assms(1) reach_empty by blast
  then show ?thesis
    using assms(2) by (simp add: team_owned_def get_team_def bt_contains_def)
qed

lemma teams_keep_an_owner_witness:
  "\<exists>u. member_role ''t'' u (snd (api_create_team False ''t'' 0 (User ''ann'') ''team'' None empty_db)) = Some ''owner''"
proof -
  let ?db = "snd (api_create_team False ''t'' 0 (User ''ann'') ''team'' None empty_db)"
  have "account_step toy_prims (\<lambda>x. x) empty_db ?db"
    by (rule acc_create_team [of False "''t''" 0 "User ''ann''" "''team''" None _
          "fst (api_create_team False ''t'' 0 (User ''ann'') ''team'' None empty_db)"]) simp
  then have r: "account_run toy_prims (\<lambda>x. x) empty_db ?db"
    by (rule run_step [OF run_refl])
  have t: "get_team ''t'' ?db \<noteq> None"
    by code_simp
  show ?thesis
    by (rule teams_keep_an_owner [OF r t])
qed

section \<open>Stored key bundles verify\<close>

definition bundle_ok :: "prims \<Rightarrow> string \<Rightarrow> user_row \<Rightarrow> bool" where
  "bundle_ok P name u \<longleftrightarrow>
     (\<forall>x. u_pubkey u = Some x \<longrightarrow>
        (\<exists>ed sig xb eb sb. u_ed_pubkey u = Some ed \<and> u_key_sig u = Some sig
           \<and> hex_field 32 x = Inr xb \<and> hex_field 32 ed = Inr eb \<and> hex_field 64 sig = Inr sb
           \<and> ed_verify P eb (bundle_statement name xb) sb))"

definition bundles_ok :: "prims \<Rightarrow> db \<Rightarrow> bool" where
  "bundles_ok P db \<longleftrightarrow> (\<forall>name u. bt_get (db_users db) name = Some u \<longrightarrow> bundle_ok P name u)"

lemma user_put_key_users:
  assumes "user_put_key P p name req db = (r, db')" "db' \<noteq> db"
  shows "p = User name \<and> (\<exists>x ed sig xb eb sb u. hex_field 32 x = Inr xb \<and> hex_field 32 ed = Inr eb
     \<and> hex_field 64 sig = Inr sb \<and> ed_verify P eb (bundle_statement name xb) sb
     \<and> bt_get (db_users db) name = Some u
     \<and> db' = db\<lparr>db_users := bt_insert name
         (u\<lparr>u_pubkey := Some x, u_ed_pubkey := Some ed, u_key_sig := Some sig\<rparr>) (db_users db)\<rparr>)"
  using assms
  by (auto simp: user_put_key_def set_user_key_bundle_def rbind_ok_iff
      split: principal.splits if_splits option.splits sum.splits; blast)

lemma account_step_users:
  assumes "account_step P H db db'"
  shows "db_users db' = db_users db
    \<or> (\<exists>token now p name r. api_create_user H token now p name db = (r, db') \<and> db' \<noteq> db)
    \<or> (\<exists>p name req r. user_put_key P p name req db = (r, db') \<and> db' \<noteq> db)"
  using assms
proof (induction rule: account_step.induct)
  case (acc_create_team fault fresh now p name env db r3 db')
  then show ?case
    by (auto simp: api_create_team_def Let_def create_team_with_owner_def with_tx_def create_team_def add_member_def
        split: principal.splits if_splits sum.splits prod.splits)
next
  case (acc_set_policy p tid env db r4 db')
  then show ?case
    by (auto simp: team_set_policy_def set_team_sync_env_def split: option.splits if_splits)
next
  case (acc_add_member p tid user role db r5 db')
  then show ?case
    by (auto simp: team_add_member_def Let_def add_member_def split: option.splits if_splits)
next
  case (acc_remove_member fault p tid user db r6 db')
  then show ?case
    by (auto simp: team_remove_member_def Let_def remove_member_def with_tx_def
        split: option.splits if_splits prod.splits sum.splits)
next
  case (acc_create_workspace p ws name team e2e db r7 db')
  then show ?case
    by (auto simp: api_create_workspace_def Let_def create_workspace_def
        split: if_splits sum.splits)
next
  case (acc_attach p ws tid db r8 db')
  then show ?case
    by (auto simp: api_attach_team_def attach_team_def split: sum.splits option.splits if_splits)
next
  case (acc_put_wrap p ws user blob db r9 db')
  then show ?case
    by (auto simp: put_wrapped_key_def db_put_wrapped_key_def split: if_splits sum.splits)
next
  case (acc_delete_wrap p ws user db r10 db')
  then show ?case
    by (auto simp: delete_wrapped_key_def db_delete_wrapped_key_def split: sum.splits)
qed blast+

lemma api_create_user_users:
  assumes "api_create_user H token now p name db = (r, db')" "db' \<noteq> db"
  shows "db' = db\<lparr>db_users := bt_insert name \<lparr>u_token = H token, u_created_at = now, u_pubkey = None,
      u_ed_pubkey = None, u_key_sig = None\<rparr> (db_users db)\<rparr> \<and> p = Admin"
  using assms by (auto simp: api_create_user_def create_user_def split: if_splits)

lemma account_step_bundles:
  assumes step: "account_step P H db db'" and ok: "bundles_ok P db"
  shows "bundles_ok P db'"
  using account_step_users [OF step]
proof (elim disjE exE conjE)
  assume "db_users db' = db_users db"
  then show ?thesis
    using ok by (simp add: bundles_ok_def)
next
  fix token now p name r
  assume "api_create_user H token now p name db = (r, db')" "db' \<noteq> db"
  from api_create_user_users [OF this] show ?thesis
    using ok by (auto simp: bundles_ok_def bundle_ok_def)
next
  fix p name req r
  assume a: "user_put_key P p name req db = (r, db')" "db' \<noteq> db"
  obtain x ed sig xb eb sb u where k: "hex_field 32 x = Inr xb" "hex_field 32 ed = Inr eb"
     "hex_field 64 sig = Inr sb" "ed_verify P eb (bundle_statement name xb) sb"
     "db' = db\<lparr>db_users := bt_insert name
         (u\<lparr>u_pubkey := Some x, u_ed_pubkey := Some ed, u_key_sig := Some sig\<rparr>) (db_users db)\<rparr>"
    using user_put_key_users [OF a] by blast
  then have "bundle_ok P name (u\<lparr>u_pubkey := Some x, u_ed_pubkey := Some ed, u_key_sig := Some sig\<rparr>)"
    by (simp add: bundle_ok_def)
  then show ?thesis
    using ok unfolding bundles_ok_def k(5) by simp
qed

lemma account_run_bundles:
  "account_run P H db db' \<Longrightarrow> bundles_ok P db \<Longrightarrow> bundles_ok P db'"
proof (induction rule: account_run.induct)
  case (run_step db db' db'')
  then show ?case
    using account_step_bundles by blast
qed

text \<open>The relay stores only bundles that verify: after any run of account requests
  every key it serves for a user comes with an identity and a signature of the
  right sizes that verifies over that user's name and that very key.\<close>

theorem served_bundles_verify:
  assumes "account_run P H empty_db db" "user_get_key name db = Inr b" "kb_pubkey b = Some x"
  shows "\<exists>ed sig xb eb sb. kb_ed_pubkey b = Some ed \<and> kb_key_sig b = Some sig
    \<and> hex_decode x = Inr xb \<and> hex_decode ed = Inr eb \<and> hex_decode sig = Inr sb
    \<and> length x = 64 \<and> length ed = 64 \<and> length sig = 128
    \<and> ed_verify P eb (bundle_statement name xb) sb"
proof -
  have "bundles_ok P db"
    using account_run_bundles [OF assms(1)] by (simp add: bundles_ok_def empty_db_def)
  moreover obtain u where u: "bt_get (db_users db) name = Some u" "u_pubkey u = Some x"
      "kb_ed_pubkey b = u_ed_pubkey u" "kb_key_sig b = u_key_sig u"
    using assms(2,3) by (auto simp: user_get_key_def user_key_bundle_def split: option.splits)
  ultimately obtain ed sig xb eb sb where k: "u_ed_pubkey u = Some ed" "u_key_sig u = Some sig"
      "hex_field 32 x = Inr xb" "hex_field 32 ed = Inr eb" "hex_field 64 sig = Inr sb"
      "ed_verify P eb (bundle_statement name xb) sb"
    unfolding bundles_ok_def bundle_ok_def by blast
  have field: "hex_decode s = Inr bs \<and> length s = n * 2" if "hex_field n s = Inr bs" for n s bs
    using that by (auto simp: hex_field_def split: if_splits sum.splits)
  show ?thesis
    using k u field [OF k(3)] field [OF k(4)] field [OF k(5)] by auto
qed

lemma registered_key_is_served:
  assumes "bt_get (db_users db) name = Some u" "hex_field 32 x = Inr xb" "hex_field 32 ed = Inr eb"
    "hex_field 64 sig = Inr sb" "ed_verify P eb (bundle_statement name xb) sb"
  shows "user_get_key name (snd (user_put_key P (User name) name
      \<lparr>pk_x25519 = Some x, pk_ed25519 = Some ed, pk_sig = Some sig\<rparr> db))
    = Inr \<lparr>kb_pubkey = Some x, kb_ed_pubkey = Some ed, kb_key_sig = Some sig\<rparr>"
  using assms by (simp add: user_put_key_def set_user_key_bundle_def user_get_key_def user_key_bundle_def)

lemma served_bundles_verify_witness:
  "\<exists>eb sb. ed_verify toy_prims eb (bundle_statement ''ann'' (zero_bytes 32)) sb"
proof -
  obtain x where x: "x = replicate 64 (CHR ''0'')" by simp
  obtain s where s: "s = replicate 128 (CHR ''0'')" by simp
  let ?req = "\<lparr>pk_x25519 = Some x, pk_ed25519 = Some x, pk_sig = Some s\<rparr>"
  let ?mk = "api_create_user (\<lambda>x. x) ''tok'' 0 Admin ''ann'' empty_db"
  let ?put = "user_put_key toy_prims (User ''ann'') ''ann'' ?req (snd ?mk)"
  have dec: "hex_decode x = Inr (zero_bytes 32)" "hex_field 32 x = Inr (zero_bytes 32)"
      "hex_field 64 s = Inr (zero_bytes 64)"
    unfolding x s by code_simp+
  have "account_step toy_prims (\<lambda>x. x) empty_db (snd ?mk)"
    by (rule acc_create_user [of _ "''tok''" 0 Admin "''ann''" _ "fst ?mk"]) simp
  moreover have "account_step toy_prims (\<lambda>x. x) (snd ?mk) (snd ?put)"
    by (rule acc_put_key [of _ "User ''ann''" "''ann''" ?req _ "fst ?put"]) simp
  ultimately have run: "account_run toy_prims (\<lambda>x. x) empty_db (snd ?put)"
    by (blast intro: run_refl run_step)
  have user: "bt_get (db_users (snd ?mk)) ''ann'' = Some \<lparr>u_token = ''tok'', u_created_at = 0,
      u_pubkey = None, u_ed_pubkey = None, u_key_sig = None\<rparr>"
    by code_simp
  have sig: "ed_verify toy_prims (zero_bytes 32) m (zero_bytes 64)" for m
    by (simp add: ed_verify_def toy_prims_def zero_bytes_def replicate_add [symmetric])
  note get = registered_key_is_served [OF user dec(2) dec(2) dec(3) sig]
  show ?thesis
    using served_bundles_verify [OF run get key_bundle.select_convs(1)] dec(1) by auto
qed

section \<open>What a workspace keeps for ever\<close>

lemma account_step_workspaces:
  assumes "account_step P H db db'" "get_workspace ws db = Some w"
  shows "\<exists>t. get_workspace ws db' = Some (w\<lparr>w_team_id := t\<rparr>)
     \<and> (t \<noteq> w_team_id w \<longrightarrow> (\<exists>p tid. t = Some tid \<and> api_attach_team p ws tid db = (Inr (ws, tid), db')))"
  using account_step_db [OF assms(1)] assms
proof (elim disjE)
  assume "db' = db"
  then show ?thesis
    using assms(2) by (intro exI [of _ "w_team_id w"]) simp
next
  assume "db_step db db'"
  show ?thesis
    using assms
  proof (induction rule: account_step.induct)
    case (acc_attach p i tid db r8 db')
    show ?case
    proof (cases "db' = db")
      case True
      then show ?thesis
        using acc_attach.prems by (intro exI [of _ "w_team_id w"]) simp
    next
      case False
      then obtain v where v: "bt_get (db_workspaces db) i = Some v" "r8 = Inr (i, tid)"
        "db' = db\<lparr>db_workspaces := bt_insert i (v\<lparr>w_team_id := Some tid\<rparr>) (db_workspaces db)\<rparr>"
        using acc_attach.hyps
        by (auto simp: api_attach_team_def attach_team_def split: sum.splits option.splits if_splits)
      show ?thesis
      proof (cases "i = ws")
        case True
        then show ?thesis
          using v acc_attach by (intro exI [of _ "Some tid"]) (auto simp: get_workspace_def)
      next
        case False
        then show ?thesis
          using v acc_attach.prems by (intro exI [of _ "w_team_id w"]) (auto simp: get_workspace_def)
      qed
    qed
  next
    case (acc_create_workspace p i name team e2e db r7 db')
    then show ?case
      by (intro exI [of _ "w_team_id w"])
        (auto simp: api_create_workspace_def Let_def create_workspace_def get_workspace_def bt_contains_def
          split: if_splits sum.splits)
  next
    case (acc_create_user token now p name db r1 db')
    then show ?case
      by (intro exI [of _ "w_team_id w"])
        (auto simp: api_create_user_def create_user_def get_workspace_def split: if_splits)
  next
    case (acc_put_key p name req db r2 db')
    then show ?case
      by (intro exI [of _ "w_team_id w"])
        (auto simp: user_put_key_def set_user_key_bundle_def get_workspace_def
          split: principal.splits if_splits option.splits sum.splits)
  next
    case (acc_create_team fault fresh now p name env db r3 db')
    then show ?case
      by (intro exI [of _ "w_team_id w"])
        (auto simp: api_create_team_def Let_def create_team_with_owner_def with_tx_def create_team_def
          add_member_def get_workspace_def split: principal.splits if_splits sum.splits prod.splits)
  next
    case (acc_set_policy p tid env db r4 db')
    then show ?case
      by (intro exI [of _ "w_team_id w"])
        (auto simp: team_set_policy_def set_team_sync_env_def get_workspace_def split: option.splits if_splits)
  next
    case (acc_add_member p tid user role db r5 db')
    then show ?case
      by (intro exI [of _ "w_team_id w"])
        (auto simp: team_add_member_def Let_def add_member_def get_workspace_def split: option.splits if_splits)
  next
    case (acc_remove_member fault p tid user db r6 db')
    then show ?case
      by (intro exI [of _ "w_team_id w"])
        (auto simp: team_remove_member_def Let_def remove_member_def with_tx_def get_workspace_def
          split: option.splits if_splits prod.splits sum.splits)
  next
    case (acc_put_wrap p i user blob db r9 db')
    then show ?case
      by (intro exI [of _ "w_team_id w"])
        (auto simp: put_wrapped_key_def db_put_wrapped_key_def get_workspace_def split: if_splits sum.splits)
  next
    case (acc_delete_wrap p i user db r10 db')
    then show ?case
      by (intro exI [of _ "w_team_id w"])
        (auto simp: delete_wrapped_key_def db_delete_wrapped_key_def get_workspace_def split: sum.splits)
  qed
qed

lemma account_run_workspace:
  "account_run P H db db' \<Longrightarrow> get_workspace ws db = Some w
     \<Longrightarrow> \<exists>t. get_workspace ws db' = Some (w\<lparr>w_team_id := t\<rparr>)"
proof (induction rule: account_run.induct)
  case (run_refl db)
  then show ?case
    by (intro exI [of _ "w_team_id w"]) simp
next
  case (run_step db db' db'')
  then obtain t where t: "get_workspace ws db' = Some (w\<lparr>w_team_id := t\<rparr>)"
    by blast
  then obtain u where "get_workspace ws db'' = Some (w\<lparr>w_team_id := t\<rparr>\<lparr>w_team_id := u\<rparr>)"
    using account_step_workspaces [OF run_step.hyps(2) t] by blast
  then show ?case
    by auto
qed

text \<open>A workspace keeps its name, owner and encryption flag for ever, whatever requests
  follow; its team changes only by an attach request of someone who owns the
  workspace and is owner or writer in the new team.\<close>

theorem workspace_identity_immutable:
  assumes "get_workspace ws db = Some w"
  shows "(account_run P H db db' \<longrightarrow> (\<exists>t. get_workspace ws db' = Some (w\<lparr>w_team_id := t\<rparr>)))
    \<and> (account_step P H db db' \<and> Option.bind (get_workspace ws db') w_team_id \<noteq> w_team_id w \<longrightarrow>
        (\<exists>p tid. Option.bind (get_workspace ws db') w_team_id = Some tid
           \<and> role_on db w p = Some Owner
           \<and> (\<exists>u. p = User u \<and> member_role tid u db \<in> {Some ''owner'', Some ''writer''})))"
proof (intro conjI impI)
  show "account_run P H db db' \<Longrightarrow> \<exists>t. get_workspace ws db' = Some (w\<lparr>w_team_id := t\<rparr>)"
    using account_run_workspace assms by blast
next
  assume moved: "account_step P H db db' \<and> Option.bind (get_workspace ws db') w_team_id \<noteq> w_team_id w"
  obtain t where t: "get_workspace ws db' = Some (w\<lparr>w_team_id := t\<rparr>)"
      "t \<noteq> w_team_id w \<Longrightarrow> \<exists>p tid. t = Some tid \<and> api_attach_team p ws tid db = (Inr (ws, tid), db')"
    using account_step_workspaces moved assms by blast
  then obtain p tid where p: "t = Some tid" "api_attach_team p ws tid db = (Inr (ws, tid), db')"
    using moved by auto
  then have gate: "require_role db ws p Owner = Inr w" "require_team_writer db tid p = Inr ()"
    using assms by (auto simp: api_attach_team_def rbind_ok_iff require_role_ok split: sum.splits if_splits)
  have "role_on db w p = Some Owner"
    using gate(1) by (metis antisym option.inject require_role_ok role_order(2))
  moreover have "\<exists>u. p = User u \<and> member_role tid u db \<in> {Some ''owner'', Some ''writer''}"
    using gate(2)
    by (cases p) (auto simp: require_team_writer_def caller_role_def role_parse_def bind_eq_Some_conv
        split: option.splits role.splits if_splits)
  ultimately show "\<exists>p tid. Option.bind (get_workspace ws db') w_team_id = Some tid
      \<and> role_on db w p = Some Owner
      \<and> (\<exists>u. p = User u \<and> member_role tid u db \<in> {Some ''owner'', Some ''writer''})"
    using t(1) p(1) by (intro exI [of _ p] exI [of _ tid]) simp
qed

lemma workspace_identity_immutable_witness:
  "\<exists>t. get_workspace ''w'' (snd (put_wrapped_key (User ''ann'') ''w'' ''ann'' '''' (snd (create_workspace ''w'' ''n'' (Some ''ann'') None True empty_db))))
     = Some \<lparr>w_name = ''n'', w_owner = Some ''ann'', w_team_id = t, w_e2e = True\<rparr>"
proof -
  let ?db = "snd (create_workspace ''w'' ''n'' (Some ''ann'') None True empty_db)"
  let ?w = "\<lparr>w_name = ''n'', w_owner = Some ''ann'', w_team_id = None, w_e2e = True\<rparr>"
  let ?db' = "snd (put_wrapped_key (User ''ann'') ''w'' ''ann'' '''' ?db)"
  have w: "get_workspace ''w'' ?db = Some ?w"
    by code_simp
  have "account_step toy_prims (\<lambda>x. x) ?db ?db'"
    by (rule acc_put_wrap [of "User ''ann''" "''w''" "''ann''" "''''" _
          "fst (put_wrapped_key (User ''ann'') ''w'' ''ann'' '''' ?db)"]) simp
  then have "account_run toy_prims (\<lambda>x. x) ?db ?db'"
    by (rule run_step [OF run_refl])
  then show ?thesis
    using workspace_identity_immutable [OF w, of toy_prims "\<lambda>x. x" ?db'] by auto
qed

end
