(* ===== verification/Relay_Gc.thy ===== *)
theory Relay_Gc
imports Relay_Chunks Relay_Teams
begin

text \<open>
  \<open>relay/src/gc.rs\<close>: the mark and sweep over the chunk pool, and what the pool promises
  whatever requests and sweeps run in whatever order.  The modification times of the
  files, the clock and the deletions that fail are parameters.  The relay runs a sweep,
  a head commit and a snapshot under its one database lock, so each is one step; the
  bytes and the references of an upload are two steps.
\<close>

section \<open>The sweep\<close>

record gc_report =
  gr_scanned :: nat
  gr_refs_deleted :: nat
  gr_blobs_deleted :: nat
  gr_bytes_deleted :: nat
  gr_skipped :: nat

definition gc_report_new :: gc_report where
  "gc_report_new = \<lparr>gr_scanned = 0, gr_refs_deleted = 0, gr_blobs_deleted = 0, gr_bytes_deleted = 0, gr_skipped = 0\<rparr>"

datatype gc_error = GcDb db_error | GcDelete "string \<times> string"

definition stored_rows :: "db \<Rightarrow> string \<Rightarrow> string list" where
  "stored_rows db ws = retained_head_manifests ws db @ snapshot_manifests ws db"

text \<open>The inner loop stops at the first row that does not parse.\<close>

fun pin_rows :: "relay_env \<Rightarrow> bool \<Rightarrow> string list \<Rightarrow> string list \<Rightarrow> string list option" where
  "pin_rows E e2e pinned [] = Some pinned"
| "pin_rows E e2e pinned (s # ss) =
     (case stored_row_chunks E e2e s of
        None \<Rightarrow> None
      | Some chunks \<Rightarrow> pin_rows E e2e (pinned @ chunks) ss)"

fun gc_mark ::
  "relay_env \<Rightarrow> db \<Rightarrow> (string \<times> bool) list \<Rightarrow> (string, string list) btree \<times> nat \<Rightarrow> (string, string list) btree \<times> nat" where
  "gc_mark E db [] acc = acc"
| "gc_mark E db ((ws, e2e) # rest) (live, skipped) =
     (case pin_rows E e2e [] (stored_rows db ws) of
        Some pinned \<Rightarrow> gc_mark E db rest (bt_insert ws pinned live, skipped)
      | None \<Rightarrow> gc_mark E db rest (live, skipped + 1))"

definition old_enough :: "int option \<Rightarrow> int option \<Rightarrow> bool" where
  "old_enough cutoff mtime =
     (case (cutoff, mtime) of (Some c, Some m) \<Rightarrow> m < c | _ \<Rightarrow> False)"

fun sweep_blobs ::
  "db \<Rightarrow> (string \<times> string \<Rightarrow> int option) \<Rightarrow> int option \<Rightarrow> (string \<times> string \<Rightarrow> bool)
     \<Rightarrow> ((string \<times> string) \<times> bytes) list \<Rightarrow> gc_report \<times> store \<Rightarrow> (gc_error, gc_report) result \<times> store" where
  "sweep_blobs db mtime cutoff rm_ok [] (rep, st) = (Inr rep, st)"
| "sweep_blobs db mtime cutoff rm_ok ((key, data) # es) (rep, st) =
     (if starts_with (snd key) ''.tmp-'' \<or> \<not> is_chunk_hash (snd key)
      then sweep_blobs db mtime cutoff rm_ok es (rep, st)
      else
        (let rep = rep\<lparr>gr_scanned := gr_scanned rep + 1\<rparr> in
         if hash_has_refs (snd key) db then sweep_blobs db mtime cutoff rm_ok es (rep, st)
         else if \<not> old_enough cutoff (mtime key) then sweep_blobs db mtime cutoff rm_ok es (rep, st)
         else if \<not> rm_ok key then (Inl (GcDelete key), st)
         else sweep_blobs db mtime cutoff rm_ok es
                (rep\<lparr>gr_blobs_deleted := gr_blobs_deleted rep + 1,
                     gr_bytes_deleted := gr_bytes_deleted rep + length data\<rparr>,
                 st\<lparr>st_files := bt_remove key (st_files st)\<rparr>)))"

definition run_pool_gc ::
  "relay_env \<Rightarrow> bool \<Rightarrow> (string \<times> string \<Rightarrow> int option) \<Rightarrow> int option \<Rightarrow> (string \<times> string \<Rightarrow> bool) \<Rightarrow> relay
     \<Rightarrow> (gc_error, gc_report) result \<times> relay" where
  "run_pool_gc E fault mtime cutoff rm_ok rl =
     (let (live, skipped) = gc_mark E (rl_db rl) (list_workspaces_for_gc (rl_db rl)) ([], 0) in
      case gc_rebuild_refs fault live (rl_db rl) of
        (Inl e, db) \<Rightarrow> (Inl (GcDb e), rl\<lparr>rl_db := db\<rparr>)
      | (Inr deleted, db) \<Rightarrow>
          (let (r, st) = sweep_blobs db mtime cutoff rm_ok (st_files (rl_store rl))
                 (gc_report_new\<lparr>gr_refs_deleted := deleted, gr_skipped := skipped\<rparr>, rl_store rl)
           in (r, rl\<lparr>rl_db := db, rl_store := st\<rparr>)))"

section \<open>What one sweep does\<close>

definition unreadable :: "relay_env \<Rightarrow> db \<Rightarrow> string \<Rightarrow> bool \<Rightarrow> bool" where
  "unreadable E db ws e2e \<longleftrightarrow> (\<exists>s\<in>set (stored_rows db ws). stored_row_chunks E e2e s = None)"

definition live_set :: "relay_env \<Rightarrow> db \<Rightarrow> string \<Rightarrow> bool \<Rightarrow> string set" where
  "live_set E db ws e2e = (\<Union>s\<in>set (stored_rows db ws). set (the (stored_row_chunks E e2e s)))"

lemma pin_rows_spec:
  "(pin_rows E e2e acc ss = None \<longleftrightarrow> (\<exists>s\<in>set ss. stored_row_chunks E e2e s = None))
   \<and> (\<forall>keep. pin_rows E e2e acc ss = Some keep \<longrightarrow>
        set keep = set acc \<union> (\<Union>s\<in>set ss. set (the (stored_row_chunks E e2e s))))"
  by (induction E e2e acc ss rule: pin_rows.induct) (auto split: option.splits)

lemma gc_mark_spec:
  assumes "distinct (map fst wss)" "bt_wf live" "gc_mark E db wss (live, n) = (live', n')"
  shows "bt_wf live' \<and> n' = n + length (filter (\<lambda>(ws, e2e). unreadable E db ws e2e) wss)
    \<and> (\<forall>ws. case map_of wss ws of
          None \<Rightarrow> bt_get live' ws = bt_get live ws
        | Some e2e \<Rightarrow>
            if unreadable E db ws e2e then bt_get live' ws = bt_get live ws
            else \<exists>keep. bt_get live' ws = Some keep \<and> set keep = live_set E db ws e2e)"
  using assms
proof (induction wss arbitrary: live n)
  case (Cons e wss)
  obtain ws e2e where e: "e = (ws, e2e)" by fastforce
  have fresh: "map_of wss ws = None" and d: "distinct (map fst wss)"
    using Cons.prems(1) e by (auto simp: map_of_eq_None_iff)
  have pins: "(pin_rows E e2e [] (stored_rows db ws) = None \<longleftrightarrow> unreadable E db ws e2e)
     \<and> (\<forall>keep. pin_rows E e2e [] (stored_rows db ws) = Some keep \<longrightarrow> set keep = live_set E db ws e2e)"
    using pin_rows_spec [of E e2e "[]" "stored_rows db ws"]
    by (simp add: unreadable_def live_set_def)
  show ?case
  proof (cases "pin_rows E e2e [] (stored_rows db ws)")
    case None
    then have "gc_mark E db wss (live, n + 1) = (live', n')"
      using Cons.prems(3) by (simp add: e)
    note IH = Cons.IH [OF d Cons.prems(2) this]
    have "bt_get live' ws = bt_get live ws"
      using IH [THEN conjunct2, THEN conjunct2, THEN spec, of ws] fresh by simp
    then show ?thesis
      using IH pins None fresh by (simp add: e)
  next
    case (Some keep)
    have wf: "bt_wf (bt_insert ws keep live)"
      using Cons.prems(2) by simp
    have "gc_mark E db wss (bt_insert ws keep live, n) = (live', n')"
      using Cons.prems(3) Some by (simp add: e)
    note IH = Cons.IH [OF d wf this]
    have "bt_get live' ws = Some keep"
      using IH [THEN conjunct2, THEN conjunct2, THEN spec, of ws] fresh by simp
    then have "case map_of (e # wss) x of
          None \<Rightarrow> bt_get live' x = bt_get live x
        | Some e2e \<Rightarrow>
            if unreadable E db x e2e then bt_get live' x = bt_get live x
            else \<exists>keep. bt_get live' x = Some keep \<and> set keep = live_set E db x e2e" for x
      using IH [THEN conjunct2, THEN conjunct2, THEN spec, of x] Some pins fresh
      by (cases "x = ws") (auto simp: e split: option.splits)
    then show ?thesis
      using IH Some pins by (simp add: e)
  qed
qed simp

definition hash_shaped :: "string \<times> string \<Rightarrow> bool" where
  "hash_shaped key \<longleftrightarrow> \<not> starts_with (snd key) ''.tmp-'' \<and> is_chunk_hash (snd key)"

definition collectable :: "db \<Rightarrow> (string \<times> string \<Rightarrow> int option) \<Rightarrow> int option \<Rightarrow> string \<times> string \<Rightarrow> bool" where
  "collectable db mtime cutoff key \<longleftrightarrow>
     hash_shaped key \<and> \<not> hash_has_refs (snd key) db \<and> old_enough cutoff (mtime key)"

text \<open>Whatever stops it, a sweep only removes collectable files; one that ends removes all
  of them and reports their number and size.\<close>

lemma sweep_blobs_files:
  assumes "sweep_blobs db mtime cutoff rm_ok es (rep, st) = (r, st')"
  shows "\<exists>gone. (\<forall>k\<in>set gone. collectable db mtime cutoff k)
        \<and> st_files st' = filter (\<lambda>kv. fst kv \<notin> set gone) (st_files st)
        \<and> (is_ok r \<longrightarrow> set gone = {k \<in> fst ` set es. collectable db mtime cutoff k})"
  using assms
proof (induction es arbitrary: rep st)
  case Nil
  then show ?case
    by (intro exI [of _ "[]"]) auto
next
  case (Cons e es)
  obtain k d where e: "e = (k, d)" by fastforce
  show ?case
  proof (cases "collectable db mtime cutoff k")
    case False
    let ?rep = "if hash_shaped k then rep\<lparr>gr_scanned := gr_scanned rep + 1\<rparr> else rep"
    have rest: "sweep_blobs db mtime cutoff rm_ok es (?rep, st) = (r, st')"
      using Cons.prems False by (auto simp: e collectable_def hash_shaped_def Let_def split: if_splits)
    have same: "{x \<in> fst ` set (e # es). collectable db mtime cutoff x} = {x \<in> fst ` set es. collectable db mtime cutoff x}"
      using False by (auto simp: e)
    show ?thesis
      unfolding same by (rule Cons.IH [OF rest])
  next
    case True
    show ?thesis
    proof (cases "rm_ok k")
      case False
      then have "r = Inl (GcDelete k)" "st' = st"
        using Cons.prems True by (auto simp: e collectable_def hash_shaped_def Let_def)
      then show ?thesis
        by (intro exI [of _ "[]"]) simp
    next
      case rm: True
      let ?rep = "rep\<lparr>gr_scanned := gr_scanned rep + 1, gr_blobs_deleted := gr_blobs_deleted rep + 1,
                     gr_bytes_deleted := gr_bytes_deleted rep + length d\<rparr>"
      let ?st = "st\<lparr>st_files := bt_remove k (st_files st)\<rparr>"
      have "sweep_blobs db mtime cutoff rm_ok es (?rep, ?st) = (r, st')"
        using Cons.prems True rm by (simp add: e collectable_def hash_shaped_def Let_def)
      from Cons.IH [OF this] obtain gone where g: "\<forall>k\<in>set gone. collectable db mtime cutoff k"
        "st_files st' = filter (\<lambda>kv. fst kv \<notin> set gone) (st_files ?st)"
        "is_ok r \<longrightarrow> set gone = {k \<in> fst ` set es. collectable db mtime cutoff k}"
        by blast
      have "st_files st' = filter (\<lambda>kv. fst kv \<notin> set (k # gone)) (st_files st)"
        unfolding g(2) by (auto simp: bt_remove_def intro!: filter_cong)
      moreover have "is_ok r \<longrightarrow> set (k # gone) = {x \<in> fst ` set (e # es). collectable db mtime cutoff x}"
        using g(3) True by (auto simp: e)
      moreover have "\<forall>x\<in>set (k # gone). collectable db mtime cutoff x"
        using g(1) True by simp
      ultimately show ?thesis
        by blast
    qed
  qed
qed

lemma sweep_blobs_report:
  assumes "sweep_blobs db mtime cutoff rm_ok es (rep, st) = (Inr rep', st')"
  shows "rep' = rep\<lparr>
          gr_scanned := gr_scanned rep + length (filter (hash_shaped \<circ> fst) es),
          gr_blobs_deleted := gr_blobs_deleted rep + length (filter (collectable db mtime cutoff \<circ> fst) es),
          gr_bytes_deleted := gr_bytes_deleted rep
            + sum_list (map (length \<circ> snd) (filter (collectable db mtime cutoff \<circ> fst) es))\<rparr>"
  using assms
proof (induction es arbitrary: rep st)
  case (Cons e es)
  obtain k d where e: "e = (k, d)" by fastforce
  show ?case
  proof (cases "collectable db mtime cutoff k")
    case False
    let ?rep = "if hash_shaped k then rep\<lparr>gr_scanned := gr_scanned rep + 1\<rparr> else rep"
    have "sweep_blobs db mtime cutoff rm_ok es (?rep, st) = (Inr rep', st')"
      using Cons.prems False by (auto simp: e collectable_def hash_shaped_def Let_def split: if_splits)
    from Cons.IH [OF this] show ?thesis
      using False by (simp add: e)
  next
    case True
    let ?rep = "rep\<lparr>gr_scanned := gr_scanned rep + 1, gr_blobs_deleted := gr_blobs_deleted rep + 1,
                   gr_bytes_deleted := gr_bytes_deleted rep + length d\<rparr>"
    let ?st = "st\<lparr>st_files := bt_remove k (st_files st)\<rparr>"
    have "sweep_blobs db mtime cutoff rm_ok es (?rep, ?st) = (Inr rep', st')"
      using Cons.prems True by (simp add: e collectable_def hash_shaped_def Let_def split: if_splits)
    from Cons.IH [OF this] show ?thesis
      using True by (simp add: e collectable_def)
  qed
qed simp

lemma gc_rebuild_ok_refs:
  assumes "gc_rebuild_refs fault live db = (Inr n, db')" "bt_wf live" "bt_wf (db_refs db)"
  shows "db' = db\<lparr>db_refs := db_refs db'\<rparr>" "bt_wf (db_refs db')"
    "bt_contains (db_refs db') (w, h) \<longleftrightarrow>
       (case bt_get live w of Some keep \<Rightarrow> h \<in> set keep | None \<Rightarrow> bt_contains (db_refs db) (w, h))"
proof -
  obtain n0 refs where f: "fold rebuild_one live (0, db_refs db) = (n0, refs)" by fastforce
  have db': "db' = db\<lparr>db_refs := refs\<rparr>"
    using assms(1) f by (auto simp: gc_rebuild_refs_def with_tx_ok)
  then show "db' = db\<lparr>db_refs := db_refs db'\<rparr>" "bt_wf (db_refs db')"
    "bt_contains (db_refs db') (w, h) \<longleftrightarrow>
       (case bt_get live w of Some keep \<Rightarrow> h \<in> set keep | None \<Rightarrow> bt_contains (db_refs db) (w, h))"
    using rebuild_fold [OF f assms(2,3)] by simp_all
qed

text \<open>The shape of a sweep, for the proofs below.\<close>

lemma map_of_gc_list: "map_of (list_workspaces_for_gc db) ws = map_option w_e2e (get_workspace ws db)"
proof -
  have "map_of (map (\<lambda>(ws, w). (ws, w_e2e w)) m) ws = map_option w_e2e (bt_get m ws)" for m :: "(string, workspace_row) btree"
    by (induction m) auto
  then show ?thesis
    by (simp add: list_workspaces_for_gc_def get_workspace_def)
qed

lemma run_pool_gc_cases:
  assumes "run_pool_gc E fault mtime cutoff rm_ok rl = (r, rl')" "tables_wf (rl_db rl)"
  obtains (db_failed) e where "r = Inl (GcDb e)" "rl' = rl"
  | (swept) rep st where "rl_store rl' = st"
      "rl_db rl' = (rl_db rl)\<lparr>db_refs := db_refs (rl_db rl')\<rparr>" "bt_wf (db_refs (rl_db rl'))"
      "\<And>ws h. bt_contains (db_refs (rl_db rl')) (ws, h) \<longleftrightarrow>
         (case get_workspace ws (rl_db rl) of
            None \<Rightarrow> bt_contains (db_refs (rl_db rl)) (ws, h)
          | Some w \<Rightarrow>
              if unreadable E (rl_db rl) ws (w_e2e w) then bt_contains (db_refs (rl_db rl)) (ws, h)
              else h \<in> live_set E (rl_db rl) ws (w_e2e w))"
      "gr_skipped rep = length (filter (\<lambda>(ws, e2e). unreadable E (rl_db rl) ws e2e) (list_workspaces_for_gc (rl_db rl)))"
      "gr_scanned rep = 0" "gr_blobs_deleted rep = 0" "gr_bytes_deleted rep = 0"
      "sweep_blobs (rl_db rl') mtime cutoff rm_ok (st_files (rl_store rl)) (rep, rl_store rl) = (r, st)"
      "\<exists>live n. gc_rebuild_refs fault live (rl_db rl) = (Inr n, rl_db rl') \<and> bt_wf live"
proof -
  obtain live skipped where m: "gc_mark E (rl_db rl) (list_workspaces_for_gc (rl_db rl)) ([], 0) = (live, skipped)"
    by fastforce
  have wf: "bt_wf (db_workspaces (rl_db rl))" "bt_wf (db_refs (rl_db rl))"
    using assms(2) by (simp_all add: tables_wf_def)
  have "map fst (list_workspaces_for_gc (rl_db rl)) = bt_keys (db_workspaces (rl_db rl))"
    by (simp add: list_workspaces_for_gc_def bt_keys_def split_def)
  then have d: "distinct (map fst (list_workspaces_for_gc (rl_db rl)))"
    using wf(1) by simp
  note spec = gc_mark_spec [OF d bt_wf_Nil m]
  obtain rn db' where g: "gc_rebuild_refs fault live (rl_db rl) = (rn, db')" by fastforce
  show thesis
  proof (cases rn)
    case (Inl e)
    then have "db' = rl_db rl"
      using g by (simp add: gc_rebuild_refs_def with_tx_err)
    then have "r = Inl (GcDb e)" "rl' = rl"
      using assms(1) m g Inl by (auto simp: run_pool_gc_def)
    then show thesis
      using db_failed by blast
  next
    case (Inr n)
    let ?rep = "gc_report_new\<lparr>gr_refs_deleted := n, gr_skipped := skipped\<rparr>"
    obtain r1 st where s: "sweep_blobs db' mtime cutoff rm_ok (st_files (rl_store rl)) (?rep, rl_store rl) = (r1, st)"
      by fastforce
    have rl': "r1 = r" "rl' = rl\<lparr>rl_db := db', rl_store := st\<rparr>"
      using assms(1) m g Inr s by (simp_all add: run_pool_gc_def)
    have live: "bt_wf live"
      using spec by blast
    note rb = gc_rebuild_ok_refs [OF g [unfolded Inr] live wf(2)]
    have "bt_contains (db_refs db') (ws, h) \<longleftrightarrow>
         (case get_workspace ws (rl_db rl) of
            None \<Rightarrow> bt_contains (db_refs (rl_db rl)) (ws, h)
          | Some w \<Rightarrow>
              if unreadable E (rl_db rl) ws (w_e2e w) then bt_contains (db_refs (rl_db rl)) (ws, h)
              else h \<in> live_set E (rl_db rl) ws (w_e2e w))" for ws h
    proof (cases "get_workspace ws (rl_db rl)")
      case None
      then have "bt_get live ws = None"
        using spec [THEN conjunct2, THEN conjunct2, THEN HOL.spec, of ws] map_of_gc_list [of "rl_db rl" ws] by simp
      then show ?thesis
        unfolding rb(3) using None by simp
    next
      case (Some w)
      then have l: "if unreadable E (rl_db rl) ws (w_e2e w) then bt_get live ws = None
          else \<exists>keep. bt_get live ws = Some keep \<and> set keep = live_set E (rl_db rl) ws (w_e2e w)"
        using spec [THEN conjunct2, THEN conjunct2, THEN HOL.spec, of ws] map_of_gc_list [of "rl_db rl" ws] by simp
      show ?thesis
      proof (cases "unreadable E (rl_db rl) ws (w_e2e w)")
        case True
        then show ?thesis
          unfolding rb(3) using l Some by simp
      next
        case False
        then obtain keep where "bt_get live ws = Some keep" "set keep = live_set E (rl_db rl) ws (w_e2e w)"
          using l by auto
        then show ?thesis
          unfolding rb(3) using False Some by simp
      qed
    qed
    note refs = this
    have rdb: "rl_db rl' = db'"
      by (simp add: rl')
    have skipped: "gr_skipped ?rep = length (filter (\<lambda>(ws, e2e). unreadable E (rl_db rl) ws e2e) (list_workspaces_for_gc (rl_db rl)))"
      using spec by simp
    show thesis
      using swept [of st ?rep, unfolded rdb, OF _ rb(1,2) refs skipped _ _ _ s [unfolded rl'(1)]] rl'(2) live g Inr
      by (auto simp: gc_report_new_def)
  qed
qed

text \<open>C11: A completed sweep makes the references of every workspace whose rows all parse
  exactly the chunks of its retained heads and snapshots, leaves a workspace with an
  unreadable row as it was, removes exactly the files that are named like a chunk, have
  no reference left and are older than the grace window, changes nothing else, and
  reports the skipped workspaces and the deleted files.\<close>

theorem pool_gc_exact:
  assumes "tables_wf (rl_db rl)" "run_pool_gc E fault mtime cutoff rm_ok rl = (Inr rep, rl')"
  shows "(\<forall>ws w h. get_workspace ws (rl_db rl) = Some w \<longrightarrow>
        (bt_contains (db_refs (rl_db rl')) (ws, h) \<longleftrightarrow>
          (if unreadable E (rl_db rl) ws (w_e2e w) then bt_contains (db_refs (rl_db rl)) (ws, h)
           else h \<in> live_set E (rl_db rl) ws (w_e2e w))))
    \<and> (\<forall>k. bt_get (st_files (rl_store rl')) k
          = (if collectable (rl_db rl') mtime cutoff k then None else bt_get (st_files (rl_store rl)) k))
    \<and> rl_db rl' = (rl_db rl)\<lparr>db_refs := db_refs (rl_db rl')\<rparr>
    \<and> gr_skipped rep = card {ws. \<exists>w. get_workspace ws (rl_db rl) = Some w \<and> unreadable E (rl_db rl) ws (w_e2e w)}
    \<and> gr_blobs_deleted rep + length (st_files (rl_store rl')) = length (st_files (rl_store rl))"
  using assms(2,1)
proof (cases rule: run_pool_gc_cases)
  case (swept rep0 st)
  let ?coll = "collectable (rl_db rl') mtime cutoff" and ?files = "st_files (rl_store rl)"
  note st = swept(1)
  obtain gone where g: "st_files st = filter (\<lambda>kv. fst kv \<notin> set gone) ?files"
    "set gone = {k \<in> fst ` set ?files. ?coll k}"
    using sweep_blobs_files [OF swept(9)] unfolding is_ok_simps by blast
  have files: "st_files st = filter (\<lambda>kv. \<not> ?coll (fst kv)) ?files"
    unfolding g by (rule filter_cong) auto
  then have "\<forall>k. bt_get (st_files (rl_store rl')) k = (if ?coll k then None else bt_get ?files k)"
    using map_of_filter_fst [of "\<lambda>k. \<not> ?coll k" ?files] by (simp add: st)
  moreover have "gr_blobs_deleted rep + length (st_files (rl_store rl')) = length ?files"
    using sweep_blobs_report [OF swept(9)] swept(7) files st
      sum_length_filter_compl [of "\<lambda>kv. ?coll (fst kv)" ?files] by (simp add: comp_def)
  moreover have "gr_skipped rep = card {ws. \<exists>w. get_workspace ws (rl_db rl) = Some w \<and> unreadable E (rl_db rl) ws (w_e2e w)}"
  proof -
    let ?l = "list_workspaces_for_gc (rl_db rl)" and ?un = "\<lambda>(ws, e2e). unreadable E (rl_db rl) ws e2e"
    have "bt_wf (db_workspaces (rl_db rl))"
      using assms(1) by (simp add: tables_wf_def)
    moreover have "map fst ?l = bt_keys (db_workspaces (rl_db rl))"
      by (simp add: list_workspaces_for_gc_def bt_keys_def split_def)
    ultimately have d: "distinct (map fst ?l)"
      by simp
    have "{ws. \<exists>w. get_workspace ws (rl_db rl) = Some w \<and> unreadable E (rl_db rl) ws (w_e2e w)}
        = fst ` set (filter ?un ?l)"
    proof (rule set_eqI)
      fix ws
      have "ws \<in> fst ` set (filter ?un ?l) \<longleftrightarrow> (\<exists>e2e. (ws, e2e) \<in> set ?l \<and> unreadable E (rl_db rl) ws e2e)"
        by force
      also have "\<dots> \<longleftrightarrow> (\<exists>e2e. map_of ?l ws = Some e2e \<and> unreadable E (rl_db rl) ws e2e)"
        using d by (auto dest: map_of_SomeD)
      finally show "ws \<in> {ws. \<exists>w. get_workspace ws (rl_db rl) = Some w \<and> unreadable E (rl_db rl) ws (w_e2e w)}
          \<longleftrightarrow> ws \<in> fst ` set (filter ?un ?l)"
        unfolding map_of_gc_list by auto
    qed
    moreover have "distinct (map fst (filter ?un ?l))"
      using d by (rule distinct_map_filter)
    then have "card (fst ` set (filter ?un ?l)) = length (filter ?un ?l)"
      by (metis distinct_card length_map set_map)
    ultimately show ?thesis
      using sweep_blobs_report [OF swept(9)] swept(5) by simp
  qed
  moreover have "\<forall>ws w h. get_workspace ws (rl_db rl) = Some w \<longrightarrow>
        (bt_contains (db_refs (rl_db rl')) (ws, h) \<longleftrightarrow>
          (if unreadable E (rl_db rl) ws (w_e2e w) then bt_contains (db_refs (rl_db rl)) (ws, h)
           else h \<in> live_set E (rl_db rl) ws (w_e2e w)))"
    unfolding swept(4) by simp
  ultimately show ?thesis
    using swept(2) by blast
qed simp

section \<open>Every interleaving of requests and sweeps\<close>

text \<open>One transition per request or background task.  \<open>rel_bytes\<close> and \<open>rel_refs\<close> are the two
  halves of an upload, which another request or a sweep may separate.\<close>

inductive relay_step :: "prims \<Rightarrow> (string \<Rightarrow> string) \<Rightarrow> relay_env \<Rightarrow> relay \<Rightarrow> relay \<Rightarrow> bool" for P H E where
  rel_account: "account_step P H (rl_db rl) db' \<Longrightarrow> relay_step P H E rl (rl\<lparr>rl_db := db'\<rparr>)"
| rel_bytes: "store_put (re_hash E) sync_ok disk_ok h d (rl_store rl) = (r1, st)
     \<Longrightarrow> relay_step P H E rl (rl\<lparr>rl_store := st\<rparr>)"
| rel_refs: "relay_step P H E rl (rl\<lparr>rl_db := insert_chunk_refs ws hs (rl_db rl)\<rparr>)"
| rel_get: "store_get (re_hash E) h (rl_store rl) = (r2, st) \<Longrightarrow> relay_step P H E rl (rl\<lparr>rl_store := st\<rparr>)"
| rel_flush: "store_flush sync_ok (rl_store rl) = (r3, st) \<Longrightarrow> relay_step P H E rl (rl\<lparr>rl_store := st\<rparr>)"
| rel_head: "put_head E sync_ok fault p ws device base req rl = (r4, rl') \<Longrightarrow> relay_step P H E rl rl'"
| rel_snapshot: "create_snapshot E sync_ok fault now p ws name dev req rl = (r5, rl') \<Longrightarrow> relay_step P H E rl rl'"
| rel_gc: "run_pool_gc E fault mtime cutoff rm_ok rl = (r6, rl') \<Longrightarrow> relay_step P H E rl rl'"

inductive relay_run :: "prims \<Rightarrow> (string \<Rightarrow> string) \<Rightarrow> relay_env \<Rightarrow> relay \<Rightarrow> relay \<Rightarrow> bool" for P H E where
  relay_refl: "relay_run P H E rl rl"
| relay_more: "relay_run P H E rl rl' \<Longrightarrow> relay_step P H E rl' rl'' \<Longrightarrow> relay_run P H E rl rl''"

definition empty_relay :: relay where
  "empty_relay = \<lparr>rl_db = empty_db, rl_store = open_deferred []\<rparr>"

lemma relay_run_trans: "relay_run P H E b c \<Longrightarrow> relay_run P H E a b \<Longrightarrow> relay_run P H E a c"
  by (induction rule: relay_run.induct) (auto intro: relay_more)

lemma relay_run_one: "relay_step P H E a b \<Longrightarrow> relay_run P H E a b"
  using relay_refl relay_more by metis

text \<open>The upload and download routes are runs of these steps.\<close>

lemma put_entries_run:
  assumes "put_entries E sync_ok disk_ok es (rl_store rl) = (r, st)"
  shows "relay_run P H E rl (rl\<lparr>rl_store := st\<rparr>)"
  using assms
proof (induction es arbitrary: rl r)
  case Nil
  then have "rl\<lparr>rl_store := st\<rparr> = rl"
    by simp
  then show ?case
    by (metis relay_refl)
next
  case (Cons e es)
  obtain h blob where e: "e = (h, blob)" by fastforce
  show ?case
  proof (cases "entry_reason E h blob")
    case (Some x)
    then obtain r2 where "put_entries E sync_ok disk_ok es (rl_store rl) = (r2, st)"
      using Cons.prems e by (auto split: sum.splits prod.splits)
    then show ?thesis
      by (rule Cons.IH)
  next
    case None
    obtain r1 st1 where p: "store_put (re_hash E) sync_ok disk_ok h blob (rl_store rl) = (r1, st1)" by fastforce
    have one: "relay_run P H E rl (rl\<lparr>rl_store := st1\<rparr>)"
      using p by (intro relay_run_one rel_bytes)
    have "st = st1 \<or> (\<exists>r2. put_entries E sync_ok disk_ok es (rl_store (rl\<lparr>rl_store := st1\<rparr>)) = (r2, st))"
      using Cons.prems None p e by (auto split: sum.splits prod.splits)
    then show ?thesis
      using one Cons.IH [of "rl\<lparr>rl_store := st1\<rparr>"] relay_run_trans by fastforce
  qed
qed

lemma uploads_run:
  shows "put_chunk E sync_ok disk_ok p ws h body rl = (r, rl') \<Longrightarrow> relay_run P H E rl rl'"
    and "put_many_chunks E sync_ok disk_ok p ws body rl = (r', rl') \<Longrightarrow> relay_run P H E rl rl'"
proof -
  assume put: "put_chunk E sync_ok disk_ok p ws h body rl = (r, rl')"
  obtain r1 st where s: "store_put (re_hash E) sync_ok disk_ok h body (rl_store rl) = (r1, st)" by fastforce
  have bytes: "relay_run P H E rl (rl\<lparr>rl_store := st\<rparr>)"
    using s by (intro relay_run_one rel_bytes)
  have "relay_step P H E (rl\<lparr>rl_store := st\<rparr>) (rl\<lparr>rl_store := st, rl_db := insert_chunk_refs ws [h] (rl_db rl)\<rparr>)"
    using rel_refs [of P H E "rl\<lparr>rl_store := st\<rparr>" ws "[h]"] by simp
  moreover have "rl' = rl \<or> rl' = rl\<lparr>rl_store := st\<rparr> \<or> rl' = rl\<lparr>rl_store := st, rl_db := insert_chunk_refs ws [h] (rl_db rl)\<rparr>"
    using put s by (auto simp: put_chunk_def split: if_splits sum.splits)
  ultimately show "relay_run P H E rl rl'"
    using bytes relay_refl relay_more by metis
next
  assume put: "put_many_chunks E sync_ok disk_ok p ws body rl = (r', rl')"
  show "relay_run P H E rl rl'"
  proof (cases "rl' = rl")
    case True
    then show ?thesis
      by (simp add: relay_refl)
  next
    case False
    then obtain entries r1 st where s: "put_entries E sync_ok disk_ok entries (rl_store rl) = (r1, st)"
      "rl' = rl\<lparr>rl_store := st\<rparr> \<or> (\<exists>rs. rl' = rl\<lparr>rl_store := st, rl_db := insert_chunk_refs ws (confirmed rs) (rl_db rl)\<rparr>)"
      using put by (auto simp: put_many_chunks_def split: sum.splits if_splits prod.splits)
    have "relay_step P H E (rl\<lparr>rl_store := st\<rparr>) (rl\<lparr>rl_store := st, rl_db := insert_chunk_refs ws hs (rl_db rl)\<rparr>)" for hs
      using rel_refs [of P H E "rl\<lparr>rl_store := st\<rparr>" ws hs] by simp
    then show ?thesis
      using s put_entries_run [OF s(1), of P H] relay_more by metis
  qed
qed

section \<open>Pool safety\<close>

text \<open>A chunk is pinned by a workspace when one of its retained heads or snapshots names it.\<close>

definition pinned :: "relay_env \<Rightarrow> db \<Rightarrow> string \<Rightarrow> string \<Rightarrow> bool" where
  "pinned E db ws h \<longleftrightarrow>
     (\<exists>w s cs. get_workspace ws db = Some w \<and> s \<in> set (stored_rows db ws)
        \<and> stored_row_chunks E (w_e2e w) s = Some cs \<and> h \<in> set cs)"

definition row_readable :: "relay_env \<Rightarrow> db \<Rightarrow> string \<Rightarrow> string \<Rightarrow> bool" where
  "row_readable E db ws s \<longleftrightarrow> (\<exists>w. get_workspace ws db = Some w \<and> stored_row_chunks E (w_e2e w) s \<noteq> None)"

definition pool_ok :: "relay_env \<Rightarrow> relay \<Rightarrow> bool" where
  "pool_ok E rl \<longleftrightarrow> db_reachable (rl_db rl) \<and> untorn (re_hash E) (rl_store rl)
     \<and> (\<forall>ws s. s \<in> set (stored_rows (rl_db rl) ws) \<longrightarrow> row_readable E (rl_db rl) ws s)
     \<and> (\<forall>ws h. pinned E (rl_db rl) ws h \<longrightarrow>
          is_chunk_hash h \<and> bt_contains (db_refs (rl_db rl)) (ws, h) \<and> store_has (rl_store rl) h = Inr True)"

lemma stored_rows_same:
  "db_heads db' = db_heads db \<Longrightarrow> db_snapshots db' = db_snapshots db \<Longrightarrow> stored_rows db' ws = stored_rows db ws"
  by (simp add: stored_rows_def retained_head_manifests_def snapshot_manifests_def)

lemma account_step_pool:
  assumes "account_step P H db db'"
  shows "db_heads db' = db_heads db \<and> db_snapshots db' = db_snapshots db \<and> db_refs db' = db_refs db"
  using assms
proof (induction rule: account_step.induct)
  case (acc_create_user token now p name db r1 db')
  then show ?case
    by (auto simp: api_create_user_def create_user_def split: if_splits)
next
  case (acc_put_key p name req db r2 db')
  then show ?case
    by (auto simp: user_put_key_def set_user_key_bundle_def
        split: principal.splits if_splits option.splits sum.splits)
next
  case (acc_create_team fault fresh now p name env db r3 db')
  then show ?case
    by (auto simp: api_create_team_def Let_def create_team_with_owner_def with_tx_def create_team_def add_member_def
        split: principal.splits if_splits sum.splits prod.splits)
next
  case (acc_set_policy p tid env db r4 db')
  then show ?case
    by (auto simp: team_set_policy_def set_team_sync_env_def split: option.splits if_splits)
next
  case (acc_add_member p tid user role db r5 db')
  then show ?case
    by (auto simp: team_add_member_def Let_def add_member_def split: option.splits if_splits)
next
  case (acc_remove_member fault p tid user db r6 db')
  then show ?case
    by (auto simp: team_remove_member_def Let_def remove_member_def with_tx_def
        split: option.splits if_splits prod.splits sum.splits)
next
  case (acc_create_workspace p ws name team e2e db r7 db')
  then show ?case
    by (auto simp: api_create_workspace_def Let_def create_workspace_def
        split: if_splits sum.splits)
next
  case (acc_attach p ws tid db r8 db')
  then show ?case
    by (auto simp: api_attach_team_def attach_team_def split: sum.splits option.splits if_splits)
next
  case (acc_put_wrap p ws user blob db r9 db')
  then show ?case
    by (auto simp: put_wrapped_key_def db_put_wrapped_key_def split: if_splits sum.splits)
next
  case (acc_delete_wrap p ws user db r10 db')
  then show ?case
    by (auto simp: delete_wrapped_key_def db_delete_wrapped_key_def split: sum.splits)
qed

text \<open>A step that adds no row, keeps the references of pinned chunks and removes no pinned
  file keeps the pool.\<close>

lemma pool_ok_frame:
  assumes ok: "pool_ok E rl"
    and db: "db_reachable (rl_db rl')" "db_heads (rl_db rl') = db_heads (rl_db rl)"
      "db_snapshots (rl_db rl') = db_snapshots (rl_db rl)"
    and ws: "\<And>ws w. get_workspace ws (rl_db rl) = Some w \<Longrightarrow> \<exists>w'. get_workspace ws (rl_db rl') = Some w' \<and> w_e2e w' = w_e2e w"
    and st: "untorn (re_hash E) (rl_store rl')"
    and keep: "\<And>ws h. pinned E (rl_db rl) ws h \<Longrightarrow> bt_contains (db_refs (rl_db rl)) (ws, h)
        \<Longrightarrow> store_has (rl_store rl) h = Inr True
        \<Longrightarrow> bt_contains (db_refs (rl_db rl')) (ws, h) \<and> store_has (rl_store rl') h = Inr True"
  shows "pool_ok E rl'"
proof -
  have rows: "stored_rows (rl_db rl') ws = stored_rows (rl_db rl) ws" for ws
    using db by (intro stored_rows_same)
  have owned: "row_readable E (rl_db rl) ws s" if "s \<in> set (stored_rows (rl_db rl) ws)" for ws s
    using ok that by (simp add: pool_ok_def)
  have pin: "pinned E (rl_db rl) ws h" if p: "pinned E (rl_db rl') ws h" for ws h
  proof -
    obtain w' s cs where w': "get_workspace ws (rl_db rl') = Some w'" "s \<in> set (stored_rows (rl_db rl) ws)"
      "stored_row_chunks E (w_e2e w') s = Some cs" "h \<in> set cs"
      using p rows by (auto simp: pinned_def)
    then obtain w where "get_workspace ws (rl_db rl) = Some w"
      using owned unfolding row_readable_def by blast
    then show ?thesis
      using w' ws by (fastforce simp: pinned_def)
  qed
  have "row_readable E (rl_db rl') ws s" if t: "s \<in> set (stored_rows (rl_db rl') ws)" for ws s
  proof -
    obtain w where w: "get_workspace ws (rl_db rl) = Some w" "stored_row_chunks E (w_e2e w) s \<noteq> None"
      using owned [OF t [unfolded rows]] unfolding row_readable_def by blast
    then show ?thesis
      using ws [OF w(1)] unfolding row_readable_def by fastforce
  qed
  moreover have "is_chunk_hash h \<and> bt_contains (db_refs (rl_db rl')) (ws, h) \<and> store_has (rl_store rl') h = Inr True"
    if "pinned E (rl_db rl') ws h" for ws h
    using pin [OF that] keep ok by (simp add: pool_ok_def)
  ultimately show ?thesis
    using db(1) st by (simp add: pool_ok_def)
qed

text \<open>A commit adds one row whose chunks were checked.\<close>

lemma pool_ok_commit:
  assumes ok: "pool_ok E rl" and law: "envelope_law E"
    and w: "get_workspace ws (rl_db rl) = Some w"
    and pay: "commit_payload E rl ws w p req = Inr (stored, refs)"
    and files: "st_files (rl_store rl') = st_files (rl_store rl)"
    and db: "db_reachable (rl_db rl')" "db_workspaces (rl_db rl') = db_workspaces (rl_db rl)"
      "db_refs (rl_db rl') = insert_refs ws refs (db_refs (rl_db rl))"
    and rows: "\<And>x. set (stored_rows (rl_db rl') x)
        \<subseteq> (if x = ws then insert stored (set (stored_rows (rl_db rl) x)) else set (stored_rows (rl_db rl) x))"
  shows "pool_ok E rl'"
proof -
  have gw: "get_workspace x (rl_db rl') = get_workspace x (rl_db rl)" for x
    by (simp add: get_workspace_def db(2))
  have ref: "bt_contains (db_refs (rl_db rl')) (x, h)
      \<longleftrightarrow> bt_contains (db_refs (rl_db rl)) (x, h) \<or> x = ws \<and> h \<in> set refs" for x h
    by (auto simp: db(3) bt_contains_def insert_refs_get)
  have has: "store_has (rl_store rl') h = store_has (rl_store rl) h" for h
    using files by (rule store_has_files)
  have "untorn (re_hash E) (rl_store rl')"
    using ok files by (simp add: pool_ok_def untorn_def)
  moreover have "row_readable E (rl_db rl') x s" if s: "s \<in> set (stored_rows (rl_db rl') x)" for x s
  proof (cases "s \<in> set (stored_rows (rl_db rl) x)")
    case True
    then have "row_readable E (rl_db rl) x s"
      using ok by (simp add: pool_ok_def)
    then show ?thesis
      by (simp add: row_readable_def gw)
  next
    case False
    then have "x = ws" "s = stored"
      using s rows [of x] by (auto split: if_splits)
    then show ?thesis
      using w commit_payload_ok(2) [OF pay law] by (auto simp: row_readable_def gw)
  qed
  moreover have "is_chunk_hash h \<and> bt_contains (db_refs (rl_db rl')) (x, h) \<and> store_has (rl_store rl') h = Inr True"
    if pn: "pinned E (rl_db rl') x h" for x h
  proof -
    obtain v s cs where v: "get_workspace x (rl_db rl) = Some v" "s \<in> set (stored_rows (rl_db rl') x)"
      "stored_row_chunks E (w_e2e v) s = Some cs" "h \<in> set cs"
      using pn by (auto simp: pinned_def gw)
    show ?thesis
    proof (cases "s \<in> set (stored_rows (rl_db rl) x)")
      case True
      then have "pinned E (rl_db rl) x h"
        using v by (auto simp: pinned_def)
      then show ?thesis
        using ok by (simp add: pool_ok_def ref has)
    next
      case False
      then have "x = ws" "s = stored"
        using v(2) rows [of x] by (auto split: if_splits)
      then have "h \<in> set refs"
        using v w commit_payload_ok(2) [OF pay law] by auto
      then show ?thesis
        using commit_payload_ok(1) [OF pay law] \<open>x = ws\<close> by (simp add: ref has available_def)
    qed
  qed
  ultimately show ?thesis
    using db(1) by (simp add: pool_ok_def)
qed

lemma set_bt_insert_subset: "set (bt_insert k v m) \<subseteq> insert (k, v) (set m)"
  by (induction k v m rule: bt_insert.induct) auto

lemma head_rows_commit:
  assumes "insert_head fault ws seq hash stored refs db = (Inr u, db')" "bt_wf (db_heads db)"
  shows "set (stored_rows db' x) \<subseteq>
      (if x = ws then insert stored (set (stored_rows db x)) else set (stored_rows db x))"
    and "db_workspaces db' = db_workspaces db" "db_refs db' = insert_refs ws refs (db_refs db)"
proof -
  note ins = insert_head_ok [OF assms]
  have snaps: "db_snapshots db' = db_snapshots db"
    by (subst ins(4)) simp
  show "db_workspaces db' = db_workspaces db"
    by (subst ins(4)) simp
  show "db_refs db' = insert_refs ws refs (db_refs db)"
    by (rule ins(2))
  have "set (rows_of x (db_heads db'))
      \<subseteq> (if x = ws then insert (seq, \<lparr>h_hash = hash, h_manifest = stored\<rparr>) (set (rows_of x (db_heads db)))
         else set (rows_of x (db_heads db)))"
    unfolding ins(1) newest_rows_def
    using set_bt_insert_subset [of seq "\<lparr>h_hash = hash, h_manifest = stored\<rparr>" "rows_of ws (db_heads db)"]
    by (auto dest!: in_set_dropD)
  then show "set (stored_rows db' x) \<subseteq>
      (if x = ws then insert stored (set (stored_rows db x)) else set (stored_rows db x))"
    by (fastforce simp: stored_rows_def retained_head_manifests_def snapshot_manifests_def snaps split: if_splits)
qed

lemma snapshot_rows_commit:
  assumes "insert_snapshot fault ws sn db = (Inr sid, db')" "bt_wf (db_snapshots db)" "ns_kind sn = ''named''"
  shows "set (stored_rows db' x) \<subseteq>
      (if x = ws then insert (ns_manifest sn) (set (stored_rows db x)) else set (stored_rows db x))"
    and "db_workspaces db' = db_workspaces db" "db_refs db' = insert_refs ws (ns_refs sn) (db_refs db)"
    and "db_heads db' = db_heads db"
proof -
  define row where "row = \<lparr>sn_name = ns_name sn, sn_kind = ns_kind sn, sn_device = ns_device sn,
                  sn_created_at = ns_created_at sn, sn_manifest = ns_manifest sn\<rparr>"
  have db': "db' = insert_chunk_refs ws (ns_refs sn) (db\<lparr>db_snapshots := bt_insert (ws, sid) row (db_snapshots db)\<rparr>)"
    using assms(1,3) unfolding insert_snapshot_def with_tx_ok by (auto simp: Let_def row_def)
  then show "db_workspaces db' = db_workspaces db" "db_refs db' = insert_refs ws (ns_refs sn) (db_refs db)"
    "db_heads db' = db_heads db"
    by (simp_all add: insert_chunk_refs_def)
  have "set (rows_of x (db_snapshots db'))
      \<subseteq> (if x = ws then insert (sid, row) (set (rows_of x (db_snapshots db))) else set (rows_of x (db_snapshots db)))"
    using set_bt_insert_subset [of sid row] by (simp add: db' insert_chunk_refs_def rows_of_insert assms(2))
  moreover have "db_heads db' = db_heads db"
    by (simp add: db' insert_chunk_refs_def)
  ultimately show "set (stored_rows db' x) \<subseteq>
      (if x = ws then insert (ns_manifest sn) (set (stored_rows db x)) else set (stored_rows db x))"
    by (fastforce simp: stored_rows_def retained_head_manifests_def snapshot_manifests_def row_def split: if_splits)
qed

lemma create_snapshot_cases:
  assumes "create_snapshot E sync_ok fault now p ws name dev req rl = (r, rl')"
  obtains (unchanged) "rl_db rl' = rl_db rl" "st_files (rl_store rl') = st_files (rl_store rl)" "\<not> is_ok r"
  | (created) w stored refs sn sid where "get_workspace ws (rl_db rl) = Some w"
      "commit_payload E rl ws w p req = Inr (stored, refs)"
      "st_files (rl_store rl') = st_files (rl_store rl)" "ns_manifest sn = stored" "ns_refs sn = refs"
      "ns_kind sn = ''named''" "insert_snapshot fault ws sn (rl_db rl) = (Inr sid, rl_db rl')"
proof (cases "rbind (require_role (rl_db rl) ws p Writer) (\<lambda>w.
             rbind (case name of
                      None \<Rightarrow> Inr ()
                    | Some n \<Rightarrow> if valid_name n then Inr () else Inl (BadRequest (BadName n))) (\<lambda>_.
             rbind (check_device dev) (\<lambda>_. commit_payload E rl ws w p req)))")
  case (Inl e)
  then have "r = Inl e" "rl' = rl"
    using assms by (simp_all add: create_snapshot_def)
  then show thesis
    using unchanged by simp
next
  case (Inr v)
  obtain stored refs where v: "v = (stored, refs)" by fastforce
  obtain w where gate: "require_role (rl_db rl) ws p Writer = Inr w" "commit_payload E rl ws w p req = Inr (stored, refs)"
    using Inr v unfolding rbind_ok_iff by blast
  note unf = assms [unfolded create_snapshot_def Inr v sum.case prod.case]
  let ?sn = "\<lparr>ns_name = name, ns_kind = ''named'', ns_device = dev, ns_created_at = now,
                   ns_manifest = stored, ns_refs = refs\<rparr>"
  obtain f st where fl: "store_flush sync_ok (rl_store rl) = (f, st)" by fastforce
  have st: "st_files st = st_files (rl_store rl)"
    using store_flush_result [OF fl] .
  obtain i db where ih: "insert_snapshot fault ws ?sn (rl_db rl) = (i, db)"
    by fastforce
  show thesis
  proof (cases f)
    case (Inl x)
    then have "r = Inl Internal" "rl' = rl\<lparr>rl_store := st\<rparr>"
      using unf fl by simp_all
    then show thesis
      using unchanged st by simp
  next
    case f: (Inr x)
    show thesis
    proof (cases i)
      case (Inl y)
      then have "db = rl_db rl"
        using ih by (simp add: insert_snapshot_def with_tx_err)
      moreover have "r = Inl Internal" "rl' = rl\<lparr>rl_store := st, rl_db := db\<rparr>"
        using unf fl f ih Inl by simp_all
      ultimately show thesis
        using unchanged st by simp
    next
      case (Inr sid)
      then have "rl' = rl\<lparr>rl_store := st, rl_db := db\<rparr>"
        using unf fl f ih by simp
      moreover have "insert_snapshot fault ws ?sn (rl_db rl) = (Inr sid, db)"
        using ih Inr by simp
      moreover have "get_workspace ws (rl_db rl) = Some w"
        using gate(1) unfolding require_role_ok by simp
      ultimately show thesis
        using created [of w stored refs ?sn sid] gate(2) st by simp
    qed
  qed
qed

lemma store_has_refs_kept:
  assumes "sweep_blobs db mtime cutoff rm_ok es (rep, st) = (r, st')"
    "store_has st h = Inr True" "bt_contains (db_refs db) (ws, h)"
  shows "store_has st' h = Inr True"
proof -
  obtain gone where g: "\<forall>k\<in>set gone. collectable db mtime cutoff k"
    "st_files st' = filter (\<lambda>kv. fst kv \<notin> set gone) (st_files st)"
    using sweep_blobs_files [OF assms(1)] by blast
  obtain p where p: "chunk_path h = Inr p" "bt_contains (st_files st) p"
    using assms(2) by (auto simp: store_has_def rbind_ok_iff)
  have "hash_has_refs (snd p) db"
    using p(1) assms(3) unfolding hash_has_refs_def mem_bt_contains
    by (force simp: chunk_path_def split: if_splits)
  then have "p \<notin> set gone"
    using g(1) by (auto simp: collectable_def)
  then have "bt_contains (st_files st') p"
    using p(2) map_of_filter_fst [of "\<lambda>k. k \<notin> set gone" "st_files st" p]
    by (simp add: bt_contains_def g(2))
  then show ?thesis
    using p(1) by (simp add: store_has_def)
qed

lemma untorn_filter: "st_files st' = filter (\<lambda>kv. P (fst kv)) (st_files st) \<Longrightarrow> untorn H st \<Longrightarrow> untorn H st'"
  using map_of_filter_fst [of P "st_files st"] by (auto simp: untorn_def split: if_splits)

lemma pool_ok_step:
  assumes "relay_step P H E rl rl'" "pool_ok E rl" "envelope_law E"
  shows "pool_ok E rl'"
  using assms
proof (induction rule: relay_step.induct)
  case (rel_account rl db')
  note pool = account_step_pool [OF rel_account.hyps]
  have "db_reachable db'"
    using account_step_db [OF rel_account.hyps] rel_account.prems(1) reach_step by (auto simp: pool_ok_def)
  moreover have "\<exists>w'. get_workspace ws db' = Some w' \<and> w_e2e w' = w_e2e w"
    if "get_workspace ws (rl_db rl) = Some w" for ws w
    using account_step_workspaces [OF rel_account.hyps that] by auto
  moreover have "untorn (re_hash E) (rl_store rl)"
    using rel_account.prems(1) by (simp add: pool_ok_def)
  ultimately show ?case
    using pool by (intro pool_ok_frame [OF rel_account.prems(1)]) simp_all
next
  case (rel_bytes sync_ok disk_ok h d rl r1 st)
  have t: "untorn (re_hash E) (rl_store rl)"
    using rel_bytes.prems(1) by (simp add: pool_ok_def)
  have "store_has st k = Inr True" if "store_has (rl_store rl) k = Inr True" for k
    using has_store_lookup [OF t that] local_store.put_keeps [OF t rel_bytes.hyps] store_lookup_has by blast
  moreover have "untorn (re_hash E) st"
    using local_store.put_sound [OF t rel_bytes.hyps] .
  ultimately show ?case
    using rel_bytes.prems(1) by (intro pool_ok_frame [OF rel_bytes.prems(1)]) (auto simp: pool_ok_def)
next
  case (rel_refs rl ws hs)
  have "db_reachable (insert_chunk_refs ws hs (rl_db rl))"
    using rel_refs.prems(1) step_refs reach_step by (metis pool_ok_def)
  then show ?case
    using rel_refs.prems(1)
    by (intro pool_ok_frame [OF rel_refs.prems(1)]) (auto simp: pool_ok_def insert_chunk_refs_def get_workspace_def
        bt_contains_def insert_refs_get)
next
  case (rel_get h rl r2 st)
  have t: "untorn (re_hash E) (rl_store rl)"
    using rel_get.prems(1) by (simp add: pool_ok_def)
  then have "st = rl_store rl"
    using rel_get.hyps by (auto simp: store_get_def untorn_def split: sum.splits option.splits if_splits)
  then show ?case
    using rel_get.prems(1) by simp
next
  case (rel_flush sync_ok rl r3 st)
  have f: "st_files st = st_files (rl_store rl)"
    using store_flush_result rel_flush.hyps by blast
  then have "store_has st k = store_has (rl_store rl) k" for k
    by (rule store_has_files)
  moreover have "untorn (re_hash E) st"
    using rel_flush.prems(1) f by (simp add: pool_ok_def untorn_def)
  ultimately show ?case
    using rel_flush.prems(1) by (intro pool_ok_frame [OF rel_flush.prems(1)]) (auto simp: pool_ok_def)
next
  case (rel_head sync_ok fault p ws device base req rl r4 rl')
  have re: "db_reachable (rl_db rl)"
    using rel_head.prems(1) by (simp add: pool_ok_def)
  from rel_head.hyps show ?case
  proof (cases rule: put_head_cases)
    case broken
    have "store_has (rl_store rl') k = store_has (rl_store rl) k" for k
      using broken(3) by (rule store_has_files)
    then show ?thesis
      using rel_head.prems(1) broken
      by (intro pool_ok_frame [OF rel_head.prems(1)]) (auto simp: pool_ok_def untorn_def)
  next
    case (committed w d stored refs)
    have "bt_wf (db_heads (rl_db rl))"
      using reachable_ok [OF re] by (simp add: db_ok_def tables_wf_def)
    note rows = head_rows_commit [OF committed(9) this]
    have "db_reachable (rl_db rl')"
      using re step_head [OF committed(9)] reach_step by blast
    then show ?thesis
      using committed(3) rows committed(7)
      by (intro pool_ok_commit [OF rel_head.prems(1,2) _ committed(6)]) (simp_all add: require_role_ok)
  qed (use rel_head.prems in simp_all)
next
  case (rel_snapshot sync_ok fault now p ws name dev req rl r5 rl')
  have re: "db_reachable (rl_db rl)"
    using rel_snapshot.prems(1) by (simp add: pool_ok_def)
  from rel_snapshot.hyps show ?case
  proof (cases rule: create_snapshot_cases)
    case unchanged
    have "store_has (rl_store rl') k = store_has (rl_store rl) k" for k
      using unchanged(2) by (rule store_has_files)
    then show ?thesis
      using rel_snapshot.prems(1) unchanged
      by (intro pool_ok_frame [OF rel_snapshot.prems(1)]) (auto simp: pool_ok_def untorn_def)
  next
    case (created w stored refs sn sid)
    have "bt_wf (db_snapshots (rl_db rl))"
      using reachable_ok [OF re] by (simp add: db_ok_def tables_wf_def)
    note rows = snapshot_rows_commit [OF created(7) this created(6), unfolded created(4,5)]
    have "db_reachable (rl_db rl')"
      using re step_snapshot [OF created(7)] reach_step by blast
    then show ?thesis
      using rows created(3)
      by (intro pool_ok_commit [OF rel_snapshot.prems(1,2) created(1,2)]) simp_all
  qed
next
  case (rel_gc fault mtime cutoff rm_ok rl r6 rl')
  have re: "db_reachable (rl_db rl)" and t: "untorn (re_hash E) (rl_store rl)"
    using rel_gc.prems(1) by (simp_all add: pool_ok_def)
  have wf: "tables_wf (rl_db rl)"
    using reachable_ok [OF re] by (simp add: db_ok_def)
  from rel_gc.hyps wf show ?case
  proof (cases rule: run_pool_gc_cases)
    case (swept rep st)
    have same: "db_heads (rl_db rl') = db_heads (rl_db rl)" "db_snapshots (rl_db rl') = db_snapshots (rl_db rl)"
      "db_workspaces (rl_db rl') = db_workspaces (rl_db rl)"
      by (subst swept(2), simp)+
    have "bt_contains (db_refs (rl_db rl')) (ws, h)"
      if p: "pinned E (rl_db rl) ws h" "bt_contains (db_refs (rl_db rl)) (ws, h)" for ws h
    proof -
      obtain w s cs where w: "get_workspace ws (rl_db rl) = Some w" "s \<in> set (stored_rows (rl_db rl) ws)"
        "stored_row_chunks E (w_e2e w) s = Some cs" "h \<in> set cs"
        using p(1) by (auto simp: pinned_def)
      then have "h \<in> live_set E (rl_db rl) ws (w_e2e w)"
        by (force simp: live_set_def)
      then show ?thesis
        unfolding swept(4) using w(1) p(2) by simp
    qed
    moreover have "store_has (rl_store rl') h = Inr True"
      if "bt_contains (db_refs (rl_db rl')) (ws, h)" "store_has (rl_store rl) h = Inr True" for ws h
      using store_has_refs_kept [OF swept(9) that(2,1)] swept(1) by simp
    moreover obtain gone where "st_files (rl_store rl') = filter (\<lambda>kv. fst kv \<notin> set gone) (st_files (rl_store rl))"
      using sweep_blobs_files [OF swept(9)] swept(1) by blast
    then have "untorn (re_hash E) (rl_store rl')"
      using t by (rule untorn_filter [where P = "\<lambda>k. k \<notin> set gone"])
    moreover have "db_reachable (rl_db rl')"
      using swept(10) step_rebuild reach_step [OF re] by blast
    ultimately show ?thesis
      using same by (intro pool_ok_frame [OF rel_gc.prems(1)]) (auto simp: get_workspace_def)
  qed (use rel_gc.prems in simp)
qed

lemma empty_relay_ok: "pool_ok E empty_relay"
proof -
  have "stored_rows empty_db ws = []" for ws
    by (simp add: stored_rows_def retained_head_manifests_def snapshot_manifests_def empty_db_def)
  then show ?thesis
    by (simp add: pool_ok_def empty_relay_def reach_empty untorn_def open_deferred_def open_store_def pinned_def)
qed

lemma pool_ok_run: "relay_run P H E rl rl' \<Longrightarrow> pool_ok E rl \<Longrightarrow> envelope_law E \<Longrightarrow> pool_ok E rl'"
  by (induction rule: relay_run.induct) (auto intro: pool_ok_step)

lemma pool_ok_fetch:
  assumes ok: "pool_ok E rl" and w: "get_workspace ws (rl_db rl) = Some w"
    and s: "s \<in> set (stored_rows (rl_db rl) ws)"
  obtains cs where "stored_row_chunks E (w_e2e w) s = Some cs"
    "\<And>h p v. h \<in> set cs \<Longrightarrow> require_role (rl_db rl) ws p Reader = Inr v
       \<Longrightarrow> \<exists>bytes. get_chunk E p ws h rl = (Inr bytes, rl) \<and> re_hash E bytes = h"
proof -
  obtain cs where cs: "stored_row_chunks E (w_e2e w) s = Some cs"
  proof -
    have "row_readable E (rl_db rl) ws s"
      using ok s by (simp add: pool_ok_def)
    then show thesis
      using that w by (auto simp: row_readable_def)
  qed
  have "\<exists>bytes. get_chunk E p ws h rl = (Inr bytes, rl) \<and> re_hash E bytes = h"
    if h: "h \<in> set cs" and p: "require_role (rl_db rl) ws p Reader = Inr v" for h p v
  proof -
    have "pinned E (rl_db rl) ws h"
      using w s cs h by (auto simp: pinned_def)
    then have "is_chunk_hash h" "bt_contains (db_refs (rl_db rl)) (ws, h)" "store_has (rl_store rl) h = Inr True"
      "untorn (re_hash E) (rl_store rl)"
      using ok by (auto simp: pool_ok_def)
    moreover then obtain b where "store_lookup (re_hash E) (rl_store rl) h = Some b"
      using has_store_lookup by blast
    ultimately show ?thesis
      using role_sees [OF p] p local_store.lookup_verified [of "re_hash E" "rl_store rl" h b]
      by (auto simp: get_chunk_def get_lookup [THEN iffD2])
  qed
  then show thesis
    using that cs by blast
qed

text \<open>C8: Pool safety: whatever requests arrive in whatever order, interleaved with sweeps at
  any time with any clock, grace window and disk errors, every retained head and every
  snapshot of a workspace stays readable, and every chunk it names is served, with
  verified bytes, to every reader of the workspace.\<close>

theorem committed_chunks_stay_fetchable:
  assumes "relay_run P H E empty_relay rl" "envelope_law E"
    "get_workspace ws (rl_db rl) = Some w" "s \<in> set (stored_rows (rl_db rl) ws)"
  shows "\<exists>cs. stored_row_chunks E (w_e2e w) s = Some cs
    \<and> (\<forall>h\<in>set cs. \<forall>p. is_ok (require_role (rl_db rl) ws p Reader) \<longrightarrow>
         (\<exists>bytes. get_chunk E p ws h rl = (Inr bytes, rl) \<and> re_hash E bytes = h))"
proof -
  have "pool_ok E rl"
    using pool_ok_run [OF assms(1) empty_relay_ok assms(2)] .
  then show ?thesis
    using assms(3,4) by (rule pool_ok_fetch) (auto simp: is_ok_def split: sum.splits)
qed

section \<open>The whole relay as a register\<close>

text \<open>The abstract machine: a register per workspace, changed only by successful swaps.\<close>

inductive cas_step :: "(string \<Rightarrow> int \<times> string option) \<Rightarrow> (string \<Rightarrow> int \<times> string option) \<Rightarrow> bool" where
  cas_stutter: "cas_step R R"
| cas_swap: "cas base m (R ws) = Some v \<Longrightarrow> cas_step R (R(ws := v))"

inductive_cases cas_stepE: "cas_step R R'"

lemma register_same: "db_heads db' = db_heads db \<Longrightarrow> register db' = register db"
  by (rule ext) (simp add: register_def current_head_def)

lemma relay_step_cas:
  assumes "relay_step P H E rl rl'" "pool_ok E rl"
  shows "cas_step (register (rl_db rl)) (register (rl_db rl'))"
  using assms
proof (induction rule: relay_step.induct)
  case (rel_account rl db')
  then show ?case
    using account_step_pool register_same cas_stutter by (metis relay.select_convs(1) relay.surjective relay.update_convs(1))
next
  case (rel_refs rl ws hs)
  then show ?case
    using register_same [of "insert_chunk_refs ws hs (rl_db rl)" "rl_db rl"] cas_stutter
    by (simp add: insert_chunk_refs_def)
next
  case (rel_head sync_ok fault p ws device base req rl r4 rl')
  have "db_reachable (rl_db rl)"
    using rel_head.prems by (simp add: pool_ok_def)
  then have wf: "bt_wf (db_heads (rl_db rl))"
    using reachable_ok by (auto simp: db_ok_def tables_wf_def)
  from rel_head.hyps show ?case
  proof (cases rule: put_head_cases)
    case (committed w d stored refs)
    have "cas base stored (register (rl_db rl) ws) = Some (base + 1, Some stored)"
      using committed(2) by (simp add: cas_def)
    then show ?thesis
      using register_commit [OF wf] committed(2,9) cas_swap by metis
  qed (simp_all add: cas_stutter)
next
  case (rel_snapshot sync_ok fault now p ws name dev req rl r5 rl')
  from rel_snapshot.hyps show ?case
  proof (cases rule: create_snapshot_cases)
    case (created w stored refs sn sid)
    have "db_reachable (rl_db rl)"
      using rel_snapshot.prems by (simp add: pool_ok_def)
    then have "bt_wf (db_snapshots (rl_db rl))"
      using reachable_ok by (auto simp: db_ok_def tables_wf_def)
    then have "db_heads (rl_db rl') = db_heads (rl_db rl)"
      using snapshot_rows_commit(4) [OF created(7) _ created(6)] by blast
    then show ?thesis
      using register_same cas_stutter by metis
  qed (simp add: cas_stutter)
next
  case (rel_gc fault mtime cutoff rm_ok rl r6 rl')
  have "db_reachable (rl_db rl)"
    using rel_gc.prems by (simp add: pool_ok_def)
  then have "tables_wf (rl_db rl)"
    using reachable_ok by (auto simp: db_ok_def)
  with rel_gc.hyps show ?case
  proof (cases rule: run_pool_gc_cases)
    case (swept rep st)
    have "db_heads (rl_db rl') = db_heads (rl_db rl)"
      by (subst swept(2)) simp
    then show ?thesis
      using register_same cas_stutter by metis
  qed (simp add: cas_stutter)
qed (simp_all add: cas_stutter)

lemma cas_step_mono:
  "cas_step R R' \<Longrightarrow> fst (R ws) \<le> fst (R' ws) \<and> (fst (R ws) = fst (R' ws) \<longrightarrow> R' ws = R ws)"
  by (auto elim!: cas_stepE simp: cas_def split: if_splits)

lemma relay_run_register:
  assumes "relay_run P H E rl rl'" "pool_ok E rl" "envelope_law E"
  shows "current_seq (rl_db rl) ws \<le> current_seq (rl_db rl') ws"
    and "current_seq (rl_db rl) ws = current_seq (rl_db rl') ws \<Longrightarrow> register (rl_db rl') ws = register (rl_db rl) ws"
proof -
  have "current_seq (rl_db rl) ws \<le> current_seq (rl_db rl') ws
         \<and> (current_seq (rl_db rl) ws = current_seq (rl_db rl') ws \<longrightarrow>
              register (rl_db rl') ws = register (rl_db rl) ws)"
    using assms(1,2)
  proof (induction rule: relay_run.induct)
    case (relay_more rl rl' rl'')
    have "cas_step (register (rl_db rl')) (register (rl_db rl''))"
      using relay_more.hyps pool_ok_run [OF _ relay_more.prems assms(3)] relay_step_cas by blast
    then show ?case
      using relay_more.IH [OF relay_more.prems] cas_step_mono [of "register (rl_db rl')" "register (rl_db rl'')" ws] by auto
  qed simp
  then show "current_seq (rl_db rl) ws \<le> current_seq (rl_db rl') ws"
    and "current_seq (rl_db rl) ws = current_seq (rl_db rl') ws \<Longrightarrow> register (rl_db rl') ws = register (rl_db rl) ws"
    by blast+
qed

text \<open>C9: The relay refines the register machine: whatever requests and sweeps interleave,
  each step either leaves every register alone or swaps one of them, from the value it
  had; so the head of a workspace only moves forward, one sequence number at a time,
  and as long as the number a client based its commit on is current, so is the content
  it merged with.\<close>

theorem head_log_linear:
  assumes "relay_run P H E empty_relay rl" "envelope_law E"
  shows "(\<forall>rl'. relay_step P H E rl rl' \<longrightarrow> cas_step (register (rl_db rl)) (register (rl_db rl')))
    \<and> (\<forall>rl' ws. relay_run P H E rl rl' \<longrightarrow>
         current_seq (rl_db rl) ws \<le> current_seq (rl_db rl') ws
         \<and> (current_seq (rl_db rl) ws = current_seq (rl_db rl') ws \<longrightarrow>
              register (rl_db rl') ws = register (rl_db rl) ws))"
proof (intro conjI allI impI)
  have ok: "pool_ok E rl"
    using pool_ok_run [OF assms(1) empty_relay_ok assms(2)] .
  then show "cas_step (register (rl_db rl)) (register (rl_db rl'))" if "relay_step P H E rl rl'" for rl'
    using relay_step_cas that by blast
  fix rl' ws
  assume run: "relay_run P H E rl rl'"
  show "current_seq (rl_db rl) ws \<le> current_seq (rl_db rl') ws"
    using relay_run_register(1) [OF run ok assms(2)] .
  show "register (rl_db rl') ws = register (rl_db rl) ws"
    if "current_seq (rl_db rl) ws = current_seq (rl_db rl') ws"
    using relay_run_register(2) [OF run ok assms(2) that] .
qed

section \<open>Sample runs\<close>

lemma sync_dirs_all_ok: "snd (sync_dirs (\<lambda>_. True) synced ds) = None"
  by (induction "\<lambda>_ :: string. True" synced ds rule: sync_dirs.induct) auto

lemma store_flush_all_ok: "fst (store_flush (\<lambda>_. True) st) = Inr ()"
  using sync_dirs_all_ok [of "[]" "st_pending st"]
  by (auto simp: store_flush_def flush_batch_def split: prod.splits option.splits)

lemma toy_relay_reached: "relay_run toy_prims (\<lambda>x. x) toy_env empty_relay toy_relay"
proof -
  have "snd (api_create_workspace (User ''alice'') ''w'' ''n'' None True empty_db) = rl_db toy_relay"
    by code_simp
  then have "account_step toy_prims (\<lambda>x. x) (rl_db empty_relay) (rl_db toy_relay)"
    using acc_create_workspace [OF surjective_pairing] by (metis empty_relay_def relay.select_convs(1))
  then have "relay_step toy_prims (\<lambda>x. x) toy_env empty_relay (empty_relay\<lparr>rl_db := rl_db toy_relay\<rparr>)"
    by (rule rel_account)
  moreover have "empty_relay\<lparr>rl_db := rl_db toy_relay\<rparr> = toy_relay"
    by (simp add: empty_relay_def toy_relay_def)
  ultimately show ?thesis
    using relay_run_one by metis
qed

text \<open>Alice uploads a chunk to her workspace and commits a head that names it.\<close>

lemma toy_head_run:
  obtains rl s where "relay_run toy_prims (\<lambda>x. x) toy_env toy_relay rl"
    "get_workspace ''w'' (rl_db rl) = Some toy_row" "s \<in> set (stored_rows (rl_db rl) ''w'')"
    "stored_row_chunks toy_env True s = Some [sample_hash]" "register (rl_db rl) ''w'' = (1, Some s)"
proof -
  let ?D = "insert_chunk_refs ''w'' [sample_hash] (rl_db toy_relay)"
  obtain r1 st where p: "store_put (re_hash toy_env) (\<lambda>_. True) True sample_hash ''xy'' (rl_store toy_relay) = (r1, st)"
    by fastforce
  have "r1 = Inr True"
    using p by (simp add: store_put_def toy_env_def sample_path toy_relay_def open_deferred_def open_store_def
        bt_contains_def Let_def DEFERRED_FLUSH_THRESHOLD_def split: if_splits)
  then have has: "store_has st sample_hash = Inr True"
    using store_put_confirms(2) [OF toy_relay_untorn] p store_lookup_has by blast
  define rl where "rl = toy_relay\<lparr>rl_store := st, rl_db := ?D\<rparr>"
  have "relay_run toy_prims (\<lambda>x. x) toy_env toy_relay (toy_relay\<lparr>rl_store := st\<rparr>)"
    using p by (intro relay_run_one rel_bytes)
  moreover have "relay_step toy_prims (\<lambda>x. x) toy_env (toy_relay\<lparr>rl_store := st\<rparr>) rl"
    using rel_refs [of toy_prims "\<lambda>x. x" toy_env "toy_relay\<lparr>rl_store := st\<rparr>" "''w''" "[sample_hash]"]
    by (simp add: rl_def)
  ultimately have run: "relay_run toy_prims (\<lambda>x. x) toy_env toy_relay rl"
    by (rule relay_more)
  have role: "require_role (rl_db rl) ''w'' (User ''alice'') least = Inr toy_row" for least
    using toy_relay_role by (simp add: rl_def toy_row_def)
  have "available rl (User ''alice'') sample_hash"
    using role_sees [OF role, of sample_hash] has by (simp add: available_def rl_def)
  then have "require_present rl (User ''alice'') [sample_hash] = Inr ()"
    using sample_hash_ok by (simp add: require_present_ok)
  moreover have "base64_decode (base64_encode (replicate 28 CHR ''m'')) = Inr (replicate 28 CHR ''m'')"
    by (rule base64.dec_enc) simp
  ultimately have pay: "commit_payload toy_env rl ''w'' toy_row (User ''alice'') (toy_commit [sample_hash])
      = Inr (e2e_stored_manifest toy_env (base64_encode (replicate 28 CHR ''m'')) [sample_hash], [sample_hash])"
    by (simp add: commit_payload_def toy_row_def toy_commit_def validate_e2e_commit_def check_hash_def sample_hash_ok
        del: replicate.simps)
  define s where "s = e2e_stored_manifest toy_env (base64_encode (replicate 28 CHR ''m'')) [sample_hash]"
  have dev: "check_device ''d'' = Inr ()"
    by code_simp
  have heads: "db_heads (rl_db rl) = []"
    by (simp add: rl_def insert_chunk_refs_def toy_relay_def empty_db_def)
  have seq: "current_seq (rl_db rl) ''w'' = 0"
    by (simp add: current_seq_def current_head_def heads)
  have ins: "fst (insert_head False ''w'' 1 h m hs (rl_db rl)) = Inr ()" for h m hs
    by (simp add: insert_head_def with_tx_def heads bt_contains_def Let_def)
  obtain r rl' where put: "put_head toy_env (\<lambda>_. True) False (User ''alice'') ''w'' (Some ''d'') 0
      (toy_commit [sample_hash]) rl = (r, rl')"
    by fastforce
  have "is_ok (fst (put_head toy_env (\<lambda>_. True) False (User ''alice'') ''w'' (Some ''d'') 0
      (toy_commit [sample_hash]) rl))"
    using role dev pay seq ins store_flush_all_ok [of "rl_store rl"]
    by (simp add: put_head_def Let_def split_def)
  then have "is_ok r"
    using put by simp
  with put show thesis
  proof (cases rule: put_head_cases)
    case (committed w d stored refs)
    have w: "w = toy_row" "stored = s" "refs = [sample_hash]"
      using committed(3,6) role pay by (auto simp: s_def)
    have wf: "bt_wf (db_heads (rl_db rl))"
      by (simp add: heads)
    have "relay_run toy_prims (\<lambda>x. x) toy_env toy_relay rl'"
      using run rel_head [OF put] by (rule relay_more)
    moreover have reg: "register (rl_db rl') ''w'' = (1, Some s)"
      using register_commit [OF wf, of False "''w''"] committed(9) w seq by simp
    moreover have "get_workspace ''w'' (rl_db rl') = Some toy_row"
      using head_rows_commit(2) [OF committed(9) wf] role [of Reader] unfolding require_role_ok
      by (simp add: get_workspace_def)
    moreover have "s \<in> set (stored_rows (rl_db rl') ''w'')"
    proof -
      obtain n h where "current_head ''w'' (rl_db rl') = Some (n, h)" "h_manifest h = s"
        using reg by (auto simp: register_def split: option.splits)
      then show ?thesis
        by (force simp: stored_rows_def retained_head_manifests_def current_head_def split: list.splits
            dest: arg_cong [where f = set])
    qed
    moreover have "stored_row_chunks toy_env True s = Some [sample_hash]"
      using toy_env_law by (simp add: s_def e2e_stored_manifest_def stored_row_chunks_def envelope_law_def bt_set_def)
    ultimately show thesis
      using that by blast
  qed auto
qed

lemma committed_chunks_stay_fetchable_witness:
  "\<exists>rl bytes. relay_run toy_prims (\<lambda>x. x) toy_env empty_relay rl \<and> current_seq (rl_db rl) ''w'' = 1
     \<and> get_chunk toy_env (User ''alice'') ''w'' sample_hash rl = (Inr bytes, rl)"
proof -
  obtain rl s where rl: "relay_run toy_prims (\<lambda>x. x) toy_env toy_relay rl"
    "get_workspace ''w'' (rl_db rl) = Some toy_row" "s \<in> set (stored_rows (rl_db rl) ''w'')"
    "stored_row_chunks toy_env True s = Some [sample_hash]" "register (rl_db rl) ''w'' = (1, Some s)"
    by (rule toy_head_run)
  have run: "relay_run toy_prims (\<lambda>x. x) toy_env empty_relay rl"
    using relay_run_trans [OF rl(1) toy_relay_reached] .
  have role: "is_ok (require_role (rl_db rl) ''w'' (User ''alice'') Reader)"
    using rl(2) by (simp add: require_role_def role_on_def toy_row_def less_role_def)
  obtain bytes where "get_chunk toy_env (User ''alice'') ''w'' sample_hash rl = (Inr bytes, rl)"
    using committed_chunks_stay_fetchable [OF run toy_env_law rl(2,3)] role rl(4) by (auto simp: toy_row_def)
  then show ?thesis
    using run rl(5) fst_register [of "rl_db rl" "''w''"] by auto
qed

lemma head_log_linear_witness:
  "\<exists>rl'. relay_run toy_prims (\<lambda>x. x) toy_env toy_relay rl' \<and> current_seq (rl_db rl') ''w'' = 1
     \<and> current_seq (rl_db toy_relay) ''w'' \<le> current_seq (rl_db rl') ''w''"
proof -
  obtain rl s where rl: "relay_run toy_prims (\<lambda>x. x) toy_env toy_relay rl" "register (rl_db rl) ''w'' = (1, Some s)"
    by (rule toy_head_run)
  then show ?thesis
    using head_log_linear [OF toy_relay_reached toy_env_law] fst_register [of "rl_db rl" "''w''"] by auto
qed

lemma toy_full_sweep:
  obtains rep rl' where "run_pool_gc toy_env False mtime cutoff (\<lambda>_. True) toy_full = (Inr rep, rl')"
proof -
  have "rm_ok = (\<lambda>_. True) \<Longrightarrow> is_ok (fst (sweep_blobs db mtime cutoff rm_ok es a))" for db rm_ok es a
    by (induction db mtime cutoff rm_ok es a rule: sweep_blobs.induct) (simp_all add: Let_def)
  then have ok: "is_ok (fst (sweep_blobs db mtime cutoff (\<lambda>_. True) es a))" for db es a
    by simp
  have "is_ok (fst (run_pool_gc toy_env False mtime cutoff (\<lambda>_. True) toy_full))"
    using ok by (simp add: run_pool_gc_def gc_rebuild_refs_def with_tx_def split_def Let_def)
  then obtain rep where "fst (run_pool_gc toy_env False mtime cutoff (\<lambda>_. True) toy_full) = Inr rep"
    by (auto simp: is_ok_def split: sum.splits)
  then show thesis
    using that by (metis prod.collapse)
qed

lemma toy_full_ok: "tables_wf (rl_db toy_full)" "get_workspace ''w'' (rl_db toy_full) = Some toy_row"
  "stored_rows (rl_db toy_full) ''w'' = []"
  "bt_contains (db_refs (rl_db toy_full)) (ws, h) \<longleftrightarrow> ws = ''w'' \<and> h = sample_hash"
  by (auto simp: toy_full_def toy_relay_def insert_chunk_refs_def tables_wf_def empty_db_def get_workspace_def
      toy_row_def stored_rows_def retained_head_manifests_def snapshot_manifests_def bt_contains_def
      insert_refs_get bt_wf_Cons)

lemma pool_gc_exact_witness:
  "\<exists>rep rl'. run_pool_gc toy_env False (\<lambda>_. Some 0) (Some 5) (\<lambda>_. True) toy_full = (Inr rep, rl')
     \<and> \<not> bt_contains (db_refs (rl_db rl')) (''w'', sample_hash)"
proof -
  obtain rep rl' where gc: "run_pool_gc toy_env False (\<lambda>_. Some 0) (Some 5) (\<lambda>_. True) toy_full = (Inr rep, rl')"
    by (rule toy_full_sweep)
  have "bt_contains (db_refs (rl_db rl')) (''w'', sample_hash) \<longleftrightarrow>
      (if unreadable toy_env (rl_db toy_full) ''w'' (w_e2e toy_row)
       then bt_contains (db_refs (rl_db toy_full)) (''w'', sample_hash)
       else sample_hash \<in> live_set toy_env (rl_db toy_full) ''w'' (w_e2e toy_row))"
    using pool_gc_exact [OF toy_full_ok(1) gc] toy_full_ok(2) by blast
  then have "\<not> bt_contains (db_refs (rl_db rl')) (''w'', sample_hash)"
    by (simp add: unreadable_def live_set_def toy_full_ok(3))
  then show ?thesis
    using gc by blast
qed

section \<open>An upload that a sweep overtakes\<close>



end
