(* ===== verification/Relay_Client.thy ===== *)
theory Relay_Client
imports Relay_Chunks
begin

text \<open>
  The chunk and head calls of the client, \<open>core/src/relay.rs\<close>: how large requests are
  split, how statuses become errors, and the \<open>ChunkSink\<close> the writer uploads through.
  One HTTP exchange is a parameter, a function of the request and the state of the other
  side; \<open>relay_missing\<close> and its companions are that parameter for this relay's own
  handlers.  Message texts are not modelled, except the reason of a failed upload entry.
\<close>

section \<open>Errors\<close>

datatype relay_error =
    RHeadConflict int
  | RNotFound
  | RFatal
  | RHttp nat
  | RTransport

text \<open>The body of a 409 on a head commit: its \<open>kind\<close> and \<open>current_seq\<close>, when it parses.\<close>

definition head_conflict :: "(string \<times> int option) option \<Rightarrow> relay_error" where
  "head_conflict body =
     (case body of
        None \<Rightarrow> RHttp 409
      | Some (kind, seq) \<Rightarrow>
          if kind = ''e2e_mismatch'' then RFatal
          else if kind = ''sync_env'' then RFatal
          else (case seq of Some n \<Rightarrow> RHeadConflict n | None \<Rightarrow> RHttp 409))"

section \<open>Splitting requests\<close>

definition MISSING_BATCH :: nat where "MISSING_BATCH = 50000"

text \<open>\<open>slice::chunks\<close>.\<close>

function batches_of :: "nat \<Rightarrow> 'a list \<Rightarrow> 'a list list" where
  "batches_of n xs = (if xs = [] \<or> n = 0 then [] else take n xs # batches_of n (drop n xs))"
  by auto
termination by (relation "measure (length \<circ> snd)") auto

declare batches_of.simps [simp del]

fun call_batches ::
  "('q \<Rightarrow> 's \<Rightarrow> (relay_error, 'r list) result \<times> 's) \<Rightarrow> 'q list \<Rightarrow> 's \<Rightarrow> (relay_error, 'r list) result \<times> 's" where
  "call_batches call [] s = (Inr [], s)"
| "call_batches call (b # bs) s =
     (case call b s of
        (Inl e, s) \<Rightarrow> (Inl e, s)
      | (Inr out, s) \<Rightarrow>
          (case call_batches call bs s of
             (Inl e, s) \<Rightarrow> (Inl e, s)
           | (Inr rest, s) \<Rightarrow> (Inr (out @ rest), s)))"

definition client_chunks_missing ::
  "(string list \<Rightarrow> 's \<Rightarrow> (relay_error, string list) result \<times> 's) \<Rightarrow> string list \<Rightarrow> 's
     \<Rightarrow> (relay_error, string list) result \<times> 's" where
  "client_chunks_missing call hashes s = call_batches call (batches_of MISSING_BATCH hashes) s"

text \<open>The first-fit end of the next upload batch, from the entries counted so far and
  their bytes.\<close>

fun batch_len :: "nat \<Rightarrow> nat \<Rightarrow> (string \<times> bytes) list \<Rightarrow> nat" where
  "batch_len count bytes [] = count"
| "batch_len count bytes (e # es) =
     (if count < PUT_MANY_MAX_ENTRIES \<and> bytes + length (snd e) \<le> PUT_MANY_MAX_BYTES
      then batch_len (count + 1) (bytes + length (snd e)) es
      else count)"

definition next_batch :: "(string \<times> bytes) list \<Rightarrow> nat" where
  "next_batch es = (let k = batch_len 0 0 es in if k = 0 then 1 else k)"

lemma next_batch_pos: "0 < next_batch es"
  by (simp add: next_batch_def Let_def)

type_synonym put_result = "string \<times> string \<times> string option"     \<comment> \<open>hash, status, reason\<close>

function put_chunks ::
  "(bytes \<Rightarrow> 's \<Rightarrow> (relay_error, put_result list) result \<times> 's) \<Rightarrow> (string \<times> bytes) list \<Rightarrow> 's
     \<Rightarrow> (relay_error, put_result list) result \<times> 's" where
  "put_chunks call es s =
     (if es = [] then (Inr [], s)
      else
        (let batch = take (next_batch es) es in
         case call (frame_encode batch) s of
           (Inl e, s1) \<Rightarrow> (Inl e, s1)
         | (Inr results, s1) \<Rightarrow>
             if length results \<noteq> length batch then (Inl RTransport, s1)
             else
               (case put_chunks call (drop (next_batch es) es) s1 of
                  (Inl e, s2) \<Rightarrow> (Inl e, s2)
                | (Inr rest, s2) \<Rightarrow> (Inr (results @ rest), s2))))"
  by pat_completeness auto
termination
  by (relation "measure (\<lambda>(_, es, _). length es)") (auto simp: next_batch_pos)

declare put_chunks.simps [simp del]

definition get_chunks ::
  "(string list \<Rightarrow> 's \<Rightarrow> (relay_error, bytes) result \<times> 's) \<Rightarrow> string list \<Rightarrow> 's
     \<Rightarrow> (relay_error, (string \<times> bytes) list) result \<times> 's" where
  "get_chunks call hashes s =
     call_batches (\<lambda>batch s.
         case call batch s of
           (Inl e, s) \<Rightarrow> (Inl e, s)
         | (Inr frame, s) \<Rightarrow>
             (case frame_decode frame of
                Inl _ \<Rightarrow> (Inl RTransport, s)
              | Inr entries \<Rightarrow>
                  if length entries \<noteq> length batch then (Inl RTransport, s) else (Inr entries, s)))
       (batches_of GET_MANY_MAX_HASHES hashes) s"

section \<open>The client as a chunk sink\<close>

definition client_has_many ::
  "(string list \<Rightarrow> 's \<Rightarrow> (relay_error, string list) result \<times> 's) \<Rightarrow> string list \<Rightarrow> 's
     \<Rightarrow> (relay_error, bool list) result \<times> 's" where
  "client_has_many call hashes s =
     (if hashes = [] then (Inr [], s)
      else
        (case client_chunks_missing call hashes s of
           (Inl e, s) \<Rightarrow> (Inl e, s)
         | (Inr missing, s) \<Rightarrow> (Inr (map (\<lambda>h. h \<notin> set missing) hashes), s)))"

definition entry_result :: "put_result \<Rightarrow> (string, bool) result" where
  "entry_result r =
     (case r of (hash, answer, reason) \<Rightarrow>
        if answer = ''stored'' then Inr True
        else if answer = ''present'' then Inr False
        else (case reason of Some why \<Rightarrow> Inl why | None \<Rightarrow> Inl ''unexpected put_many status''))"

definition client_put_many ::
  "(bytes \<Rightarrow> 's \<Rightarrow> (relay_error, put_result list) result \<times> 's) \<Rightarrow> (string \<times> bytes) list \<Rightarrow> 's
     \<Rightarrow> (relay_error, (string, bool) result list) result \<times> 's" where
  "client_put_many call es s =
     (case put_chunks call es s of
        (Inl e, s) \<Rightarrow> (Inl e, s)
      | (Inr rs, s) \<Rightarrow> (Inr (map entry_result rs), s))"

section \<open>The exchange with this relay\<close>

definition http_error :: "api_error \<Rightarrow> relay_error" where
  "http_error e = RHttp (status e)"

definition relay_missing :: "principal \<Rightarrow> string \<Rightarrow> string list \<Rightarrow> relay \<Rightarrow> (relay_error, string list) result \<times> relay" where
  "relay_missing p ws hashes rl =
     (case chunks_missing p ws hashes rl of
        Inl e \<Rightarrow> (Inl (http_error e), rl)
      | Inr ms \<Rightarrow> (Inr ms, rl))"

text \<open>\<open>why\<close> renders the reason of a rejected entry.\<close>

definition wire_result :: "(bad_request \<Rightarrow> string) \<Rightarrow> string \<times> entry_status \<Rightarrow> put_result" where
  "wire_result why r =
     (case snd r of
        Stored \<Rightarrow> (fst r, ''stored'', None)
      | AlreadyPresent \<Rightarrow> (fst r, ''present'', None)
      | EntryError x \<Rightarrow> (fst r, ''error'', Some (why x)))"

definition relay_put_many ::
  "relay_env \<Rightarrow> (bad_request \<Rightarrow> string) \<Rightarrow> (string \<Rightarrow> bool) \<Rightarrow> bool \<Rightarrow> principal \<Rightarrow> string \<Rightarrow> bytes \<Rightarrow> relay
     \<Rightarrow> (relay_error, put_result list) result \<times> relay" where
  "relay_put_many E why sync_ok disk_ok p ws body rl =
     (case put_many_chunks E sync_ok disk_ok p ws body rl of
        (Inl e, rl) \<Rightarrow> (Inl (http_error e), rl)
      | (Inr rs, rl) \<Rightarrow> (Inr (map (wire_result why) rs), rl))"

definition relay_get_many :: "relay_env \<Rightarrow> principal \<Rightarrow> string \<Rightarrow> string list \<Rightarrow> relay \<Rightarrow> (relay_error, bytes) result \<times> relay" where
  "relay_get_many E p ws hashes rl =
     (case get_many_chunks E p ws hashes rl of
        (Inl e, rl) \<Rightarrow> (Inl (if status e = 404 then RNotFound else http_error e), rl)
      | (Inr body, rl) \<Rightarrow> (Inr body, rl))"

section \<open>What the splitting sends\<close>

lemma batches_of_props:
  assumes "0 < n"
  shows "concat (batches_of n xs) = xs \<and> (\<forall>b\<in>set (batches_of n xs). b \<noteq> [] \<and> length b \<le> n)"
  using assms
proof (induction n xs rule: batches_of.induct)
  case (1 n xs)
  then show ?case
    by (cases "xs = []") (auto simp: batches_of.simps [of n xs] batches_of.simps [of n "[]"])
qed

text \<open>The batches of an upload, as a list.\<close>

function upload_batches :: "(string \<times> bytes) list \<Rightarrow> (string \<times> bytes) list list" where
  "upload_batches es =
     (if es = [] then [] else take (next_batch es) es # upload_batches (drop (next_batch es) es))"
  by auto
termination by (relation "measure length") (auto simp: next_batch_pos)

declare upload_batches.simps [simp del]

definition put_call ::
  "(bytes \<Rightarrow> 's \<Rightarrow> (relay_error, put_result list) result \<times> 's) \<Rightarrow> (string \<times> bytes) list \<Rightarrow> 's
     \<Rightarrow> (relay_error, put_result list) result \<times> 's" where
  "put_call call batch s =
     (case call (frame_encode batch) s of
        (Inl e, s1) \<Rightarrow> (Inl e, s1)
      | (Inr results, s1) \<Rightarrow>
          if length results \<noteq> length batch then (Inl RTransport, s1) else (Inr results, s1))"

lemma put_chunks_batches: "put_chunks call es s = call_batches (put_call call) (upload_batches es) s"
proof (induction call es s rule: put_chunks.induct)
  case (1 call es s)
  show ?case
  proof (cases "es = []")
    case True
    then show ?thesis
      by (simp add: put_chunks.simps upload_batches.simps)
  next
    case False
    obtain r s1 where c: "call (frame_encode (take (next_batch es) es)) s = (r, s1)" by fastforce
    show ?thesis
    proof (cases r)
      case (Inl e)
      then show ?thesis
        using c False by (simp add: put_chunks.simps [of call es] upload_batches.simps [of es] put_call_def)
    next
      case (Inr results)
      then show ?thesis
        using c False "1.IH" [OF False refl c [symmetric] Inr]
        by (simp add: put_chunks.simps [of call es] upload_batches.simps [of es] put_call_def)
    qed
  qed
qed

definition blob_total :: "(string \<times> bytes) list \<Rightarrow> nat" where
  "blob_total es = sum_list (map (length \<circ> snd) es)"

lemma batch_len_props:
  assumes "batch_len count bytes es = k" "count \<le> PUT_MANY_MAX_ENTRIES" "bytes \<le> PUT_MANY_MAX_BYTES"
  shows "count \<le> k \<and> k \<le> PUT_MANY_MAX_ENTRIES \<and> k - count \<le> length es
    \<and> bytes + blob_total (take (k - count) es) \<le> PUT_MANY_MAX_BYTES
    \<and> (k - count < length es \<longrightarrow> k = PUT_MANY_MAX_ENTRIES
         \<or> PUT_MANY_MAX_BYTES < bytes + blob_total (take (Suc (k - count)) es))"
  using assms
proof (induction count bytes es rule: batch_len.induct)
  case (2 count bytes e es)
  show ?case
  proof (cases "count < PUT_MANY_MAX_ENTRIES \<and> bytes + length (snd e) \<le> PUT_MANY_MAX_BYTES")
    case True
    then have "batch_len (count + 1) (bytes + length (snd e)) es = k"
      using "2.prems"(1) by simp
    then have IH: "count + 1 \<le> k \<and> k \<le> PUT_MANY_MAX_ENTRIES \<and> k - (count + 1) \<le> length es
      \<and> bytes + length (snd e) + blob_total (take (k - (count + 1)) es) \<le> PUT_MANY_MAX_BYTES
      \<and> (k - (count + 1) < length es \<longrightarrow> k = PUT_MANY_MAX_ENTRIES
           \<or> PUT_MANY_MAX_BYTES < bytes + length (snd e) + blob_total (take (Suc (k - (count + 1))) es))"
      using "2.IH" True by simp
    then have "count + 1 \<le> k"
      by blast
    then have "k - count = Suc (k - (count + 1))"
      by arith
    then show ?thesis
      using IH by (simp add: blob_total_def add.assoc)
  next
    case False
    then have "k = count"
      using "2.prems"(1) by (auto split: if_splits)
    then show ?thesis
      using False "2.prems" by (auto simp: blob_total_def)
  qed
qed (simp add: blob_total_def)

lemma upload_batch_fits:
  assumes "es \<noteq> []"
  shows "take (next_batch es) es \<noteq> []" "length (take (next_batch es) es) \<le> PUT_MANY_MAX_ENTRIES"
    "blob_total (take (next_batch es) es) \<le> PUT_MANY_MAX_BYTES \<or> length (take (next_batch es) es) = 1"
proof -
  obtain k where k: "batch_len 0 0 es = k" by blast
  note p = batch_len_props [OF k]
  show "take (next_batch es) es \<noteq> []"
    using assms next_batch_pos [of es] by simp
  show "length (take (next_batch es) es) \<le> PUT_MANY_MAX_ENTRIES"
    using p by (auto simp: next_batch_def Let_def k PUT_MANY_MAX_ENTRIES_def)
  show "blob_total (take (next_batch es) es) \<le> PUT_MANY_MAX_BYTES \<or> length (take (next_batch es) es) = 1"
  proof (cases "k = 0")
    case True
    then show ?thesis
      using assms k by (cases es) (simp_all add: next_batch_def Let_def)
  next
    case False
    then have "next_batch es = k"
      by (simp add: next_batch_def Let_def k)
    then show ?thesis
      using p by simp
  qed
qed

lemma upload_batches_props:
  "concat (upload_batches es) = es
   \<and> (\<forall>b\<in>set (upload_batches es). b \<noteq> [] \<and> length b \<le> PUT_MANY_MAX_ENTRIES
        \<and> (blob_total b \<le> PUT_MANY_MAX_BYTES \<or> length b = 1))"
proof (induction es rule: upload_batches.induct)
  case (1 es)
  show ?case
  proof (cases "es = []")
    case False
    then show ?thesis
      using "1.IH" upload_batch_fits [OF False] by (simp add: upload_batches.simps [of es])
  qed (simp add: upload_batches.simps)
qed

text \<open>The client's splitting loses nothing and always fits the relay: the batches of an
  upload concatenate to the entries in order, every batch is non-empty and has at most
  256 entries, and its blobs fit 32 MiB unless it is a single oversized entry; and the
  hash lists of the presence and download calls concatenate to the request, none longer
  than the relay's cap for that route.\<close>

theorem client_batches_fit:
  "concat (upload_batches es) = es
   \<and> (\<forall>b\<in>set (upload_batches es). b \<noteq> [] \<and> length b \<le> PUT_MANY_MAX_ENTRIES
        \<and> (blob_total b \<le> PUT_MANY_MAX_BYTES \<or> length b = 1))
   \<and> put_chunks call es s = call_batches (put_call call) (upload_batches es) s
   \<and> concat (batches_of MISSING_BATCH hashes) = hashes
   \<and> (\<forall>b\<in>set (batches_of MISSING_BATCH hashes). length b \<le> MAX_MISSING_BATCH)
   \<and> concat (batches_of GET_MANY_MAX_HASHES hashes) = hashes
   \<and> (\<forall>b\<in>set (batches_of GET_MANY_MAX_HASHES hashes). length b \<le> GET_MANY_MAX_HASHES)"
  using upload_batches_props [of es] batches_of_props [of MISSING_BATCH hashes]
    batches_of_props [of GET_MANY_MAX_HASHES hashes] put_chunks_batches
  by (auto simp: MISSING_BATCH_def MAX_MISSING_BATCH_def GET_MANY_MAX_HASHES_def)

lemma client_batches_fit_witness:
  "upload_batches [(''h'', ''d''), (''k'', ''e'')] = [[(''h'', ''d''), (''k'', ''e'')]] \<and> length (concat (upload_batches [(''h'', ''d'')])) = 1"
proof -
  have "upload_batches [(''h'', ''d''), (''k'', ''e'')] = [[(''h'', ''d''), (''k'', ''e'')]]"
    by (simp add: upload_batches.simps next_batch_def PUT_MANY_MAX_ENTRIES_def PUT_MANY_MAX_BYTES_def)
  then show ?thesis
    using client_batches_fit [of "[(''h'', ''d'')]" "\<lambda>_ s. (Inl RTransport, s)" "()" "[]", THEN conjunct1]
    by simp
qed

section \<open>What a split call returns\<close>

text \<open>A relation between a batch and its answer that later exchanges keep, and that
  concatenation keeps, holds of the whole request and the whole answer.\<close>

lemma call_batches_state:
  assumes "call_batches call bs s = (r, s')" "I s"
    and step: "\<And>b s r s1. b \<in> set bs \<Longrightarrow> I s \<Longrightarrow> call b s = (r, s1) \<Longrightarrow> I s1 \<and> (\<forall>x y. R s x y \<longrightarrow> R s1 x y)"
  shows "I s' \<and> (\<forall>x y. R s x y \<longrightarrow> R s' x y)"
  using assms
proof (induction bs arbitrary: s r)
  case (Cons b bs)
  obtain r1 s1 where c: "call b s = (r1, s1)" by fastforce
  have one: "I s1 \<and> (\<forall>x y. R s x y \<longrightarrow> R s1 x y)"
    using Cons.prems(3) [OF _ Cons.prems(2) c] by simp
  show ?case
  proof (cases r1)
    case (Inl e)
    then show ?thesis
      using Cons.prems(1) c one by simp
  next
    case (Inr out)
    obtain r2 where rest: "call_batches call bs s1 = (r2, s')"
      using Cons.prems(1) c Inr by (auto split: prod.splits sum.splits)
    have "I s' \<and> (\<forall>x y. R s1 x y \<longrightarrow> R s' x y)"
    proof (rule Cons.IH [OF rest])
      show "I s1"
        using one by blast
    qed (use Cons.prems(3) in \<open>metis list.set_intros(2)\<close>)
    then show ?thesis
      using one by blast
  qed
qed simp

lemma call_batches_rel:
  assumes "call_batches call bs s = (Inr out, s')" "I s"
    and step: "\<And>b s r s1. b \<in> set bs \<Longrightarrow> I s \<Longrightarrow> call b s = (r, s1)
      \<Longrightarrow> I s1 \<and> (\<forall>x y. R s x y \<longrightarrow> R s1 x y) \<and> (\<forall>o1. r = Inr o1 \<longrightarrow> R s1 b o1)"
    and app: "\<And>s x y x' y'. R s x y \<Longrightarrow> R s x' y' \<Longrightarrow> R s (x @ x') (y @ y')"
    and nil: "\<And>s. R s [] []"
  shows "R s' (concat bs) out"
  using assms(1,2) step
proof (induction bs arbitrary: s out)
  case Nil
  then show ?case
    using nil by simp
next
  case (Cons b bs)
  obtain o1 s1 o2 where c: "call b s = (Inr o1, s1)" "call_batches call bs s1 = (Inr o2, s')" "out = o1 @ o2"
    using Cons.prems(1) by (auto split: prod.splits sum.splits)
  have one: "I s1" "R s1 b o1"
    using Cons.prems(3) [OF _ Cons.prems(2) c(1)] by simp_all
  have later: "I t1 \<and> (\<forall>x y. R t x y \<longrightarrow> R t1 x y) \<and> (\<forall>o1. r = Inr o1 \<longrightarrow> R t1 d o1)"
    if "d \<in> set bs" "I t" "call d t = (r, t1)" for d t r t1
    using Cons.prems(3) [of d t r t1] that by simp
  have "R s' (concat bs) o2"
    using Cons.IH [OF c(2) one(1)] later by blast
  moreover have "R s' b o1"
    using call_batches_state [where I = I and R = R, OF c(2) one(1)] later one(2) by blast
  ultimately show ?case
    using app c(3) by simp
qed

section \<open>Uploading through this relay\<close>

lemma insert_chunk_refs_rows [simp]:
  "get_workspace w (insert_chunk_refs ws hs db) = get_workspace w db"
  "member_role t u (insert_chunk_refs ws hs db) = member_role t u db"
  by (simp_all add: insert_chunk_refs_def get_workspace_def member_role_def)

lemma sees_mono: "sees db p h \<Longrightarrow> sees (insert_chunk_refs ws hs db) p h"
  by (cases p) (auto simp: sees_def chunk_visible_iff)

lemma relay_put_many_keeps:
  assumes "untorn (re_hash E) (rl_store rl)" "put_many_chunks E sync_ok disk_ok p ws body rl = (r, rl')"
  shows "untorn (re_hash E) (rl_store rl')" "available rl q h \<Longrightarrow> available rl' q h"
proof -
  have "rl' = rl \<or> (\<exists>es r1 st hs. put_entries E sync_ok disk_ok es (rl_store rl) = (r1, st)
      \<and> rl_store rl' = st \<and> (rl_db rl' = rl_db rl \<or> rl_db rl' = insert_chunk_refs ws hs (rl_db rl)))"
    using assms(2) by (auto simp: put_many_chunks_def split: sum.splits if_splits prod.splits; blast)
  then consider "rl' = rl" | es r1 st hs where "put_entries E sync_ok disk_ok es (rl_store rl) = (r1, st)"
      "rl_store rl' = st" "rl_db rl' = rl_db rl \<or> rl_db rl' = insert_chunk_refs ws hs (rl_db rl)"
    by blast
  then have "untorn (re_hash E) (rl_store rl') \<and> (available rl q h \<longrightarrow> available rl' q h)"
  proof cases
    case p: (2 es r1 st hs)
    then have "sees (rl_db rl) q h \<Longrightarrow> sees (rl_db rl') q h"
      using sees_mono p(3) by metis
    moreover note k = put_entries_keeps [OF assms(1) p(1)]
    moreover have "store_has (rl_store rl) h = Inr True \<Longrightarrow> store_has st h = Inr True"
      using has_store_lookup [OF assms(1)] k store_lookup_has by metis
    ultimately show ?thesis
      using p(2) by (auto simp: available_def)
  qed (use assms in simp)
  then show "untorn (re_hash E) (rl_store rl')" "available rl q h \<Longrightarrow> available rl' q h"
    by blast+
qed

definition wire_entry :: "string \<times> bytes \<Rightarrow> bool" where
  "wire_entry e \<longleftrightarrow> is_chunk_hash (fst e) \<and> length (snd e) < 2 ^ 64"

lemma entry_result_wire:
  "entry_result (wire_result why r) =
     (case snd r of Stored \<Rightarrow> Inr True | AlreadyPresent \<Rightarrow> Inr False | EntryError x \<Rightarrow> Inl (why x))"
  by (auto simp: wire_result_def entry_result_def split: entry_status.splits)

text \<open>What one exchange of an upload establishes: a confirmed entry is available.\<close>

lemma put_call_relay:
  assumes "untorn (re_hash E) (rl_store rl)" "\<forall>e\<in>set batch. wire_entry e" "length batch < 2 ^ 32"
    "put_call (relay_put_many E why sync_ok disk_ok p ws) batch rl = (r, rl')"
  shows "untorn (re_hash E) (rl_store rl')" "available rl p h \<Longrightarrow> available rl' p h"
    "r = Inr rs \<Longrightarrow> list_all2 (\<lambda>e x. is_ok (entry_result x) \<longrightarrow> available rl' p (fst e)) batch rs"
proof -
  obtain r1 where pm: "put_many_chunks E sync_ok disk_ok p ws (frame_encode batch) rl = (r1, rl')"
    "\<And>e. r1 = Inl e \<Longrightarrow> r = Inl (http_error e)"
    "\<And>os. r1 = Inr os \<Longrightarrow> r = (if length os \<noteq> length batch then Inl RTransport else Inr (map (wire_result why) os))"
    using assms(4) by (auto simp: put_call_def relay_put_many_def split: prod.splits sum.splits if_splits)
  show "untorn (re_hash E) (rl_store rl')" "available rl p h \<Longrightarrow> available rl' p h"
    using relay_put_many_keeps [OF assms(1) pm(1)] by blast+
  assume "r = Inr rs"
  then obtain os where os: "r1 = Inr os" "rs = map (wire_result why) os"
    using pm(2,3) by (cases r1) (auto split: if_splits)
  have "frame_decode (frame_encode batch) = Inr batch"
    using assms(2,3) by (intro frame.dec_enc) (auto simp: frame_ok_def wire_entry_def)
  then obtain w st where up: "require_role (rl_db rl) ws p Writer = Inr w"
    "put_entries E sync_ok disk_ok batch (rl_store rl) = (Inr os, st)"
    "rl' = rl\<lparr>rl_store := st, rl_db := insert_chunk_refs ws (confirmed os) (rl_db rl)\<rparr>"
    using pm(1) os(1) by (auto simp: put_many_chunks_def split: sum.splits if_splits prod.splits)
  note d = put_entries_done [OF assms(1) up(2)]
  have "is_ok (entry_result (wire_result why x)) \<longrightarrow> available rl' p (fst e)"
    if ex: "entry_done E st e x" "x \<in> set os" for e x
  proof
    assume "is_ok (entry_result (wire_result why x))"
    then have x: "snd x = Stored \<or> snd x = AlreadyPresent"
      by (auto simp: entry_result_wire split: entry_status.splits)
    then have "fst e \<in> set (confirmed os)"
      using ex by (force simp: confirmed_def entry_done_def)
    moreover have "store_has st (fst e) = Inr True"
      using ex(1) x store_lookup_has by (auto simp: entry_done_def split: option.splits)
    moreover have "require_role (rl_db rl') ws p Writer = Inr w"
      using up(1,3) by simp
    ultimately show "available rl' p (fst e)"
      using role_sees up(3) by (simp add: available_def)
  qed
  then have "list_all2 (\<lambda>e x. is_ok (entry_result (wire_result why x)) \<longrightarrow> available rl' p (fst e)) batch os"
    by (intro list.rel_mono_strong [OF d]) blast
  then show "list_all2 (\<lambda>e x. is_ok (entry_result x) \<longrightarrow> available rl' p (fst e)) batch rs"
    unfolding os(2) list_all2_map2 .
qed

lemma relay_missing_spec:
  assumes "relay_missing p ws hashes rl = (r, rl')"
  shows "rl' = rl" "r = Inr ms \<Longrightarrow> ms = filter (\<lambda>h. \<not> available rl p h) hashes"
proof -
  show "rl' = rl"
    using assms by (auto simp: relay_missing_def split: sum.splits)
  assume "r = Inr ms"
  then have "chunks_missing p ws hashes rl = Inr ms"
    using assms by (auto simp: relay_missing_def split: sum.splits)
  then have "\<forall>h\<in>set hashes. is_chunk_hash h" "missing_of rl p hashes = Inr ms"
    using check_hashes_ok by (auto simp: chunks_missing_def rbind_ok_iff split: if_splits)
  then show "ms = filter (\<lambda>h. \<not> available rl p h) hashes"
    using missing_of_spec by simp
qed

lemma client_missing_relay:
  assumes "client_chunks_missing (relay_missing p ws) hashes rl = (r, rl')"
  shows "rl' = rl" "r = Inr ms \<Longrightarrow> h \<in> set hashes \<Longrightarrow> h \<notin> set ms \<Longrightarrow> available rl p h"
proof -
  let ?R = "\<lambda>s (b :: string list) (o1 :: string list). \<forall>h\<in>set b. h \<notin> set o1 \<longrightarrow> available s p h"
  have c: "call_batches (relay_missing p ws) (batches_of MISSING_BATCH hashes) rl = (r, rl')"
    using assms by (simp add: client_chunks_missing_def)
  show rl': "rl' = rl"
    using call_batches_state [where I = "\<lambda>s. s = rl" and R = "\<lambda>_ (_ :: unit) (_ :: unit). True", OF c]
      relay_missing_spec(1) by blast
  assume r: "r = Inr ms" and h: "h \<in> set hashes" "h \<notin> set ms"
  have "?R rl' (concat (batches_of MISSING_BATCH hashes)) ms"
  proof (rule call_batches_rel [where I = "\<lambda>_. True" and R = ?R, OF c [unfolded r]])
    fix b s r s1
    assume m: "relay_missing p ws b s = (r, s1)"
    have "?R s1 b o1" if "r = Inr o1" for o1
      using relay_missing_spec [OF m] that by auto
    then show "True \<and> (\<forall>x y. ?R s x y \<longrightarrow> ?R s1 x y) \<and> (\<forall>o1. r = Inr o1 \<longrightarrow> ?R s1 b o1)"
      using relay_missing_spec(1) [OF m] by blast
  qed auto
  moreover have "concat (batches_of MISSING_BATCH hashes) = hashes"
    using batches_of_props [of MISSING_BATCH hashes] by (simp add: MISSING_BATCH_def)
  ultimately show "available rl p h"
    using h rl' by simp
qed

lemma relay_has_many_law:
  assumes "client_has_many (relay_missing p ws) hashes rl = (r, rl')"
  shows "rl' = rl" "r = Inr bs \<Longrightarrow> list_all2 (\<lambda>h b. b \<longrightarrow> available rl p h) hashes bs"
proof -
  obtain r1 rl1 where c: "client_chunks_missing (relay_missing p ws) hashes rl = (r1, rl1)" by fastforce
  show "rl' = rl"
    using assms c client_missing_relay(1) [OF c] by (auto simp: client_has_many_def split: if_splits sum.splits)
  assume r: "r = Inr bs"
  show "list_all2 (\<lambda>h b. b \<longrightarrow> available rl p h) hashes bs"
  proof (cases "hashes = []")
    case True
    then show ?thesis
      using assms r by (simp add: client_has_many_def)
  next
    case False
    then obtain ms where ms: "r1 = Inr ms" "bs = map (\<lambda>h. h \<notin> set ms) hashes"
      using assms c r by (auto simp: client_has_many_def split: sum.splits)
    then have "\<forall>h\<in>set hashes. h \<notin> set ms \<longrightarrow> available rl p h"
      using client_missing_relay(2) [OF c] by blast
    then show ?thesis
      by (auto simp: ms(2) list_all2_conv_all_nth)
  qed
qed

lemma relay_put_many_law:
  assumes "untorn (re_hash E) (rl_store rl)" "\<forall>e\<in>set es. wire_entry e"
    "client_put_many (relay_put_many E why sync_ok disk_ok p ws) es rl = (r, rl')"
  shows "untorn (re_hash E) (rl_store rl')" "available rl p h \<Longrightarrow> available rl' p h"
    "r = Inr rs \<Longrightarrow> list_all2 (\<lambda>e x. is_ok x \<longrightarrow> available rl' p (fst e)) es rs"
proof -
  let ?call = "put_call (relay_put_many E why sync_ok disk_ok p ws)"
  let ?I = "\<lambda>s. untorn (re_hash E) (rl_store s)"
  let ?R = "\<lambda>s b o1. list_all2 (\<lambda>e x. is_ok (entry_result x) \<longrightarrow> available s p (fst e)) b o1"
  obtain r1 where c: "call_batches ?call (upload_batches es) rl = (r1, rl')"
    and r1: "\<And>os. r = Inr os \<Longrightarrow> \<exists>xs. r1 = Inr xs \<and> os = map entry_result xs"
    using assms(3) by (auto simp: client_put_many_def put_chunks_batches split: prod.splits sum.splits)
  have conc: "concat (upload_batches es) = es" and fit: "\<forall>b\<in>set (upload_batches es). length b \<le> PUT_MANY_MAX_ENTRIES"
    using upload_batches_props [of es] by blast+
  have batch: "(\<forall>e\<in>set b. wire_entry e) \<and> length b < 2 ^ 32" if "b \<in> set (upload_batches es)" for b
  proof -
    have "set b \<subseteq> set (concat (upload_batches es))"
      using that by auto
    then show ?thesis
      using assms(2) conc fit that by (auto simp: PUT_MANY_MAX_ENTRIES_def)
  qed
  have step: "?I s1 \<and> (\<forall>h. available s p h \<longrightarrow> available s1 p h) \<and> (\<forall>o1. x = Inr o1 \<longrightarrow> ?R s1 b o1)"
    if "b \<in> set (upload_batches es)" "?I s" "?call b s = (x, s1)" for b s x s1
    using put_call_relay [OF that(2) _ _ that(3)] batch [OF that(1)] by blast
  then have keep: "?I s1 \<and> (\<forall>x (y :: unit). available s p x \<longrightarrow> available s1 p x)"
    if "b \<in> set (upload_batches es)" "?I s" "?call b s = (x, s1)" for b s x s1
    using that by blast
  have "?I rl' \<and> (\<forall>x (y :: unit). available rl p x \<longrightarrow> available rl' p x)"
    by (rule call_batches_state [where I = ?I and R = "\<lambda>s x (_ :: unit). available s p x", OF c assms(1)])
      (rule keep)
  then show "untorn (re_hash E) (rl_store rl')" "available rl p h \<Longrightarrow> available rl' p h"
    by blast+
  assume "r = Inr rs"
  then obtain xs where xs: "r1 = Inr xs" "rs = map entry_result xs"
    using r1 by blast
  have "?R rl' (concat (upload_batches es)) xs"
  proof (rule call_batches_rel [where I = ?I and R = ?R, OF c [unfolded xs(1)] assms(1)])
    fix b s x s1
    assume b: "b \<in> set (upload_batches es)" "?I s" "?call b s = (x, s1)"
    have "?R s1 as os" if "?R s as os" for as os
      using that by (rule list.rel_mono_strong) (use step [OF b] in blast)
    then show "?I s1 \<and> (\<forall>x y. ?R s x y \<longrightarrow> ?R s1 x y) \<and> (\<forall>o1. x = Inr o1 \<longrightarrow> ?R s1 b o1)"
      using step [OF b] by blast
  qed (auto intro: list_all2_appendI)
  then show "list_all2 (\<lambda>e x. is_ok x \<longrightarrow> available rl' p (fst e)) es rs"
    unfolding conc xs(2) list_all2_map2 .
qed

end
