(* ===== verification/Uploader.thy ===== *)
theory Uploader
imports Relay_Client Crypto
begin

text \<open>
  The writer's upload buffer of \<open>core/src/sync.rs\<close> (\<open>BatchUploader\<close>, \<open>E2eUploader\<close>): chunks
  are buffered, checked for presence in one batch and sent in one batch, and only
  confirmed chunks are marked seen.  The sink is the locale \<open>chunk_sink\<close>; it is
  interpreted on the local store and on the client talking to this relay.  The chunks a
  file is cut into (FastCDC) are an argument, read errors included.
\<close>

section \<open>The buffer\<close>

definition UPLOAD_FLUSH_BYTES :: nat where "UPLOAD_FLUSH_BYTES = 32 * 1024 * 1024"

record uploader =
  up_seen :: "string set"
  up_pending :: "(string \<times> bytes) list"
  up_pending_hashes :: "string set"
  up_pending_bytes :: nat
  up_uploaded :: nat
  up_bytes :: nat

definition uploader_new :: uploader where
  "uploader_new = \<lparr>up_seen = {}, up_pending = [], up_pending_hashes = {}, up_pending_bytes = 0,
     up_uploaded = 0, up_bytes = 0\<rparr>"

datatype 'e upload_error = SinkFailed 'e | Misaligned nat nat | EntryFailed string string | ChunkReadFailed

text \<open>The presence loop: confirmed chunks leave the buffer, the others are to be sent.\<close>

fun split_present :: "((string \<times> bytes) \<times> bool) list \<Rightarrow> uploader \<Rightarrow> (string \<times> bytes) list \<times> uploader" where
  "split_present [] u = ([], u)"
| "split_present ((e, present) # r) u =
     (if present
      then split_present r (u\<lparr>up_seen := insert (fst e) (up_seen u),
                               up_pending_hashes := up_pending_hashes u - {fst e}\<rparr>)
      else (case split_present r u of (rest, u) \<Rightarrow> (e # rest, u)))"

text \<open>The result loop: the kept entries and the first failure.\<close>

fun settle ::
  "((string \<times> bytes) \<times> (string, bool) result) list \<Rightarrow> uploader
     \<Rightarrow> (string \<times> bytes) list \<times> (string \<times> string) option \<times> uploader" where
  "settle [] u = ([], None, u)"
| "settle ((e, Inr stored) # r) u =
     settle r (u\<lparr>up_uploaded := up_uploaded u + (if stored then 1 else 0),
                 up_bytes := up_bytes u + (if stored then length (snd e) else 0),
                 up_seen := insert (fst e) (up_seen u),
                 up_pending_hashes := up_pending_hashes u - {fst e}\<rparr>)"
| "settle ((e, Inl reason) # r) u =
     (case settle r u of (kept, _, u) \<Rightarrow> (e # kept, Some (fst e, reason), u))"

definition keep_pending :: "(string \<times> bytes) list \<Rightarrow> uploader \<Rightarrow> uploader" where
  "keep_pending es u = u\<lparr>up_pending := es, up_pending_bytes := blob_total es\<rparr>"

definition up_flush ::
  "(string list \<Rightarrow> 's \<Rightarrow> ('e, bool list) result \<times> 's)
     \<Rightarrow> ((string \<times> bytes) list \<Rightarrow> 's \<Rightarrow> ('e, (string, bool) result list) result \<times> 's)
     \<Rightarrow> uploader \<Rightarrow> 's \<Rightarrow> ('e upload_error, unit) result \<times> uploader \<times> 's" where
  "up_flush has_many put_many u s =
     (if up_pending u = [] then (Inr (), u, s)
      else
        (case has_many (map fst (up_pending u)) s of
           (Inl e, s) \<Rightarrow> (Inl (SinkFailed e), u, s)
         | (Inr present, s) \<Rightarrow>
             (case split_present (zip (up_pending u) present) (u\<lparr>up_pending := []\<rparr>) of
                (to_upload, u) \<Rightarrow>
                  (case put_many to_upload s of
                     (Inl e, s) \<Rightarrow> (Inl (SinkFailed e), keep_pending to_upload u, s)
                   | (Inr results, s) \<Rightarrow>
                       if length results \<noteq> length to_upload
                       then (Inl (Misaligned (length results) (length to_upload)), keep_pending to_upload u, s)
                       else
                         (case settle (zip to_upload results) u of
                            (kept, err, u) \<Rightarrow>
                              (case err of None \<Rightarrow> Inr () | Some (h, why) \<Rightarrow> Inl (EntryFailed h why),
                               keep_pending kept u, s))))))"

definition buffer_chunk ::
  "(string list \<Rightarrow> 's \<Rightarrow> ('e, bool list) result \<times> 's)
     \<Rightarrow> ((string \<times> bytes) list \<Rightarrow> 's \<Rightarrow> ('e, (string, bool) result list) result \<times> 's)
     \<Rightarrow> string \<Rightarrow> bytes \<Rightarrow> uploader \<Rightarrow> 's \<Rightarrow> ('e upload_error, unit) result \<times> uploader \<times> 's" where
  "buffer_chunk has_many put_many h d u s =
     (if h \<in> up_seen u \<or> h \<in> up_pending_hashes u then (Inr (), u, s)
      else
        (let u = u\<lparr>up_pending_bytes := up_pending_bytes u + length d,
                   up_pending_hashes := insert h (up_pending_hashes u),
                   up_pending := up_pending u @ [(h, d)]\<rparr>
         in if UPLOAD_FLUSH_BYTES \<le> up_pending_bytes u then up_flush has_many put_many u s
            else (Inr (), u, s)))"

text \<open>\<open>upload_file\<close>: the chunks in file order; \<open>None\<close> is a read error.\<close>

fun upload_file ::
  "(string list \<Rightarrow> 's \<Rightarrow> ('e, bool list) result \<times> 's)
     \<Rightarrow> ((string \<times> bytes) list \<Rightarrow> 's \<Rightarrow> ('e, (string, bool) result list) result \<times> 's)
     \<Rightarrow> (string \<times> bytes) option list \<Rightarrow> uploader \<Rightarrow> 's \<Rightarrow> ('e upload_error, string list) result \<times> uploader \<times> 's" where
  "upload_file has_many put_many [] u s = (Inr [], u, s)"
| "upload_file has_many put_many (None # cs) u s = (Inl ChunkReadFailed, u, s)"
| "upload_file has_many put_many (Some (h, d) # cs) u s =
     (case buffer_chunk has_many put_many h d u s of
        (Inl e, u, s) \<Rightarrow> (Inl e, u, s)
      | (Inr _, u, s) \<Rightarrow>
          (case upload_file has_many put_many cs u s of
             (Inl e, u, s) \<Rightarrow> (Inl e, u, s)
           | (Inr hs, u, s) \<Rightarrow> (Inr (h # hs), u, s)))"

text \<open>The encrypted writer feeds the same buffer with ciphertext under its own digest.\<close>

definition e2e_chunk :: "prims \<Rightarrow> (bytes \<Rightarrow> string) \<Rightarrow> bytes \<Rightarrow> string \<times> bytes \<Rightarrow> string \<times> bytes" where
  "e2e_chunk P H key c = (let blob = encrypt_chunk P key (snd c) in (H blob, blob))"

definition e2e_upload_file ::
  "prims \<Rightarrow> (bytes \<Rightarrow> string) \<Rightarrow> bytes \<Rightarrow> (string list \<Rightarrow> 's \<Rightarrow> ('e, bool list) result \<times> 's)
     \<Rightarrow> ((string \<times> bytes) list \<Rightarrow> 's \<Rightarrow> ('e, (string, bool) result list) result \<times> 's)
     \<Rightarrow> (string \<times> bytes) option list \<Rightarrow> uploader \<Rightarrow> 's \<Rightarrow> ('e upload_error, string list) result \<times> uploader \<times> 's" where
  "e2e_upload_file P H key has_many put_many cs u s =
     upload_file has_many put_many (map (map_option (e2e_chunk P H key)) cs) u s"

section \<open>What the buffer keeps\<close>

definition up_ok :: "uploader \<Rightarrow> bool" where
  "up_ok u \<longleftrightarrow> distinct (map fst (up_pending u)) \<and> up_pending_hashes u = fst ` set (up_pending u)
     \<and> up_seen u \<inter> up_pending_hashes u = {} \<and> up_pending_bytes u = blob_total (up_pending u)"

lemma uploader_new_ok [simp]: "up_ok uploader_new"
  by (simp add: up_ok_def uploader_new_def blob_total_def)

lemma split_present_props:
  assumes "split_present (zip es bs) u = (rest, u')" "length bs = length es" "distinct (map fst es)"
    "up_pending_hashes u = fst ` set es \<union> A" "A \<inter> fst ` set es = {}"
  shows "set rest \<subseteq> set es \<and> distinct (map fst rest)
    \<and> up_pending_hashes u' = fst ` set rest \<union> A
    \<and> up_seen u' = up_seen u \<union> (fst ` set es - fst ` set rest)
    \<and> up_pending u' = up_pending u
    \<and> (\<forall>e\<in>set es. fst e \<notin> fst ` set rest \<longrightarrow> (e, True) \<in> set (zip es bs))"
  using assms
proof (induction es arbitrary: bs u rest A)
  case (Cons e es)
  obtain b bs' where bs: "bs = b # bs'" "length bs' = length es"
    using Cons.prems(2) by (cases bs) auto
  show ?case
  proof (cases b)
    case True
    let ?u = "u\<lparr>up_seen := insert (fst e) (up_seen u), up_pending_hashes := up_pending_hashes u - {fst e}\<rparr>"
    have s: "split_present (zip es bs') ?u = (rest, u')"
      using Cons.prems(1) bs True by simp
    have "up_pending_hashes ?u = fst ` set es \<union> A"
      using Cons.prems(3,4,5) by auto
    note IH = Cons.IH [OF s bs(2) _ this]
    then show ?thesis
      using Cons.prems(3,5) bs True by auto
  next
    case False
    obtain rest' where s: "split_present (zip es bs') u = (rest', u')" "rest = e # rest'"
      using Cons.prems(1) bs False by (auto split: prod.splits)
    have "up_pending_hashes u = fst ` set es \<union> (insert (fst e) A)"
      using Cons.prems(4) by auto
    note IH = Cons.IH [OF s(1) bs(2) _ this]
    then show ?thesis
      using Cons.prems(3,5) bs s(2) by auto
  qed
qed simp

lemma settle_props:
  assumes "settle (zip es rs) u = (kept, err, u')" "length rs = length es" "distinct (map fst es)"
    "up_pending_hashes u = fst ` set es \<union> A" "A \<inter> fst ` set es = {}"
  shows "set kept \<subseteq> set es \<and> distinct (map fst kept)
    \<and> up_pending_hashes u' = fst ` set kept \<union> A
    \<and> up_seen u' = up_seen u \<union> (fst ` set es - fst ` set kept)
    \<and> (\<forall>e\<in>set es. fst e \<notin> fst ` set kept \<longrightarrow> (\<exists>b. (e, Inr b) \<in> set (zip es rs)))
    \<and> (case err of None \<Rightarrow> kept = [] | Some (h, why) \<Rightarrow> \<exists>d rest. kept = (h, d) # rest \<and> ((h, d), Inl why) \<in> set (zip es rs))"
  using assms
proof (induction es arbitrary: rs u kept err A)
  case (Cons e es)
  obtain r rs' where rs: "rs = r # rs'" "length rs' = length es"
    using Cons.prems(2) by (cases rs) auto
  show ?case
  proof (cases r)
    case (Inr b)
    let ?u = "u\<lparr>up_uploaded := up_uploaded u + (if b then 1 else 0),
                 up_bytes := up_bytes u + (if b then length (snd e) else 0),
                 up_seen := insert (fst e) (up_seen u),
                 up_pending_hashes := up_pending_hashes u - {fst e}\<rparr>"
    have s: "settle (zip es rs') ?u = (kept, err, u')"
      using Cons.prems(1) rs Inr by simp
    have "up_pending_hashes ?u = fst ` set es \<union> A"
      using Cons.prems(3,4,5) by auto
    note IH = Cons.IH [OF s rs(2) _ this]
    then show ?thesis
      using Cons.prems(3,5) rs Inr by (auto split: option.splits)
  next
    case (Inl why)
    obtain kept' err' where s: "settle (zip es rs') u = (kept', err', u')" "kept = e # kept'" "err = Some (fst e, why)"
      using Cons.prems(1) rs Inl by (auto split: prod.splits)
    have "up_pending_hashes u = fst ` set es \<union> (insert (fst e) A)"
      using Cons.prems(4) by auto
    note IH = Cons.IH [OF s(1) rs(2) _ this]
    then show ?thesis
      using Cons.prems(3,5) rs s(2,3) Inl by (cases e) auto
  qed
qed simp

section \<open>The sink\<close>

text \<open>The state of a buffer in front of a sink, and the chunks it has taken in.\<close>

definition up_good :: "('s \<Rightarrow> string \<Rightarrow> bool) \<Rightarrow> ('s \<Rightarrow> bool) \<Rightarrow> (string \<times> bytes \<Rightarrow> bool) \<Rightarrow> uploader \<Rightarrow> 's \<Rightarrow> bool" where
  "up_good there sound entry u s \<longleftrightarrow>
     up_ok u \<and> sound s \<and> (\<forall>h\<in>up_seen u. there s h) \<and> (\<forall>e\<in>set (up_pending u). entry e)"

definition known :: "uploader \<Rightarrow> string set" where
  "known u = up_seen u \<union> up_pending_hashes u"

text \<open>What the buffer relies on: an answered presence check and a confirmed entry mean the
  chunk is there, nothing disappears, and the sink stays sound.\<close>

locale chunk_sink =
  fixes has_many :: "string list \<Rightarrow> 's \<Rightarrow> ('e, bool list) result \<times> 's"
    and put_many :: "(string \<times> bytes) list \<Rightarrow> 's \<Rightarrow> ('e, (string, bool) result list) result \<times> 's"
    and there :: "'s \<Rightarrow> string \<Rightarrow> bool"
    and sound :: "'s \<Rightarrow> bool"
    and entry :: "string \<times> bytes \<Rightarrow> bool"
  assumes has_sound: "sound s \<Longrightarrow> has_many hs s = (r, s') \<Longrightarrow> sound s'"
    and has_keeps: "sound s \<Longrightarrow> has_many hs s = (r, s') \<Longrightarrow> there s h \<Longrightarrow> there s' h"
    and has_true: "sound s \<Longrightarrow> has_many hs s = (Inr bs, s') \<Longrightarrow> list_all2 (\<lambda>h b. b \<longrightarrow> there s' h) hs bs"
    and put_sound: "sound s \<Longrightarrow> \<forall>e\<in>set es. entry e \<Longrightarrow> put_many es s = (r', s') \<Longrightarrow> sound s'"
    and put_keeps: "sound s \<Longrightarrow> \<forall>e\<in>set es. entry e \<Longrightarrow> put_many es s = (r', s') \<Longrightarrow> there s h \<Longrightarrow> there s' h"
    and put_true: "sound s \<Longrightarrow> \<forall>e\<in>set es. entry e \<Longrightarrow> put_many es s = (Inr rs, s') \<Longrightarrow> length rs = length es
      \<Longrightarrow> list_all2 (\<lambda>e x. is_ok x \<longrightarrow> there s' (fst e)) es rs"
begin

abbreviation good :: "uploader \<Rightarrow> 's \<Rightarrow> bool" where
  "good \<equiv> up_good there sound entry"

lemma keep_pending_good:
  assumes "distinct (map fst es)" "up_pending_hashes u = fst ` set es" "up_seen u \<inter> fst ` set es = {}"
    "\<forall>e\<in>set es. entry e" "sound s" "\<forall>h\<in>up_seen u. there s h"
  shows "good (keep_pending es u) s" "known (keep_pending es u) = up_seen u \<union> fst ` set es"
  using assms by (auto simp: up_good_def known_def up_ok_def keep_pending_def)

text \<open>A flush, however it ends, forgets no chunk, confirms only what is there, and keeps
  exactly the unconfirmed rest; one that succeeds empties the buffer.\<close>

lemma flush_good:
  assumes "good u s" "up_flush has_many put_many u s = (r, u', s')"
  shows "good u' s' \<and> known u' = known u \<and> (\<forall>h. there s h \<longrightarrow> there s' h)
    \<and> set (up_pending u') \<subseteq> set (up_pending u) \<and> (is_ok r \<longrightarrow> up_pending u' = [])"
proof (cases "up_pending u = []")
  case True
  then show ?thesis
    using assms by (simp add: up_flush_def)
next
  case False
  have u: "distinct (map fst (up_pending u))" "up_pending_hashes u = fst ` set (up_pending u)"
    "up_seen u \<inter> up_pending_hashes u = {}" "sound s" "\<forall>h\<in>up_seen u. there s h" "\<forall>e\<in>set (up_pending u). entry e"
    using assms(1) by (auto simp: up_good_def up_ok_def)
  obtain r1 s1 where h: "has_many (map fst (up_pending u)) s = (r1, s1)" by fastforce
  have s1: "sound s1" "\<And>h. there s h \<Longrightarrow> there s1 h"
    using has_sound [OF u(4) h] has_keeps [OF u(4) h] by blast+
  show ?thesis
  proof (cases r1)
    case (Inl e)
    then have "u' = u" "s' = s1" "\<not> is_ok r"
      using assms(2) False h by (auto simp: up_flush_def)
    then show ?thesis
      using assms(1) s1 by (auto simp: up_good_def)
  next
    case (Inr bs)
    have bs: "list_all2 (\<lambda>h b. b \<longrightarrow> there s1 h) (map fst (up_pending u)) bs"
      using has_true [OF u(4) h [unfolded Inr]] .
    then have len: "length bs = length (up_pending u)"
      by (auto dest: list_all2_lengthD)
    obtain todo u1 where sp: "split_present (zip (up_pending u) bs) (u\<lparr>up_pending := []\<rparr>) = (todo, u1)" by fastforce
    have todo: "set todo \<subseteq> set (up_pending u)" "distinct (map fst todo)" "up_pending_hashes u1 = fst ` set todo"
      "up_seen u1 = up_seen u \<union> (fst ` set (up_pending u) - fst ` set todo)"
      "\<forall>e\<in>set (up_pending u). fst e \<notin> fst ` set todo \<longrightarrow> (e, True) \<in> set (zip (up_pending u) bs)"
      using split_present_props [OF sp len u(1), where A = "{}"] u(2) by auto
    have "there s1 h" if h1: "h \<in> up_seen u1" for h
    proof (cases "h \<in> up_seen u")
      case True
      then show ?thesis
        using u(5) s1(2) by blast
    next
      case False
      then obtain e where "e \<in> set (up_pending u)" "h = fst e" "(e, True) \<in> set (zip (up_pending u) bs)"
        using \<open>h \<in> up_seen u1\<close> todo(4,5) by auto
      then show ?thesis
        using bs by (fastforce simp: list_all2_iff zip_map1)
    qed
    then have seen1: "\<forall>h\<in>up_seen u1. there s1 h"
      by blast
    have entries: "\<forall>e\<in>set todo. entry e"
      using todo(1) u(6) by blast
    have cover: "up_seen u1 \<union> fst ` set todo = known u"
      using todo(1,4) u(2) by (auto simp: known_def)
    have disj: "up_seen u1 \<inter> fst ` set todo = {}"
      using image_mono [OF todo(1), of fst] u(2,3) unfolding todo(4) by blast
    obtain r2 s2 where p: "put_many todo s1 = (r2, s2)" by fastforce
    have s2: "sound s2" "\<And>h. there s1 h \<Longrightarrow> there s2 h"
      using put_sound [OF s1(1) entries p] put_keeps [OF s1(1) entries p] by blast+
    have kept_all: "good (keep_pending todo u1) s2 \<and> known (keep_pending todo u1) = known u
        \<and> set (up_pending (keep_pending todo u1)) \<subseteq> set (up_pending u)"
      using keep_pending_good [OF todo(2,3) disj entries s2(1)] seen1 s2(2) cover todo(1)
      by (simp add: keep_pending_def)
    show ?thesis
    proof (cases "\<exists>rs. r2 = Inr rs \<and> length rs = length todo")
      case False
      then have "u' = keep_pending todo u1" "s' = s2" "\<not> is_ok r"
        using assms(2) \<open>up_pending u \<noteq> []\<close> h Inr sp p by (auto simp: up_flush_def split: sum.splits if_splits)
      then show ?thesis
        using kept_all s1(2) s2(2) by blast
    next
      case True
      then obtain rs where rs: "r2 = Inr rs" "length rs = length todo"
        by blast
      obtain kept err u2 where st: "settle (zip todo rs) u1 = (kept, err, u2)"
        by (metis prod_cases3)
      have kept: "set kept \<subseteq> set todo" "distinct (map fst kept)" "up_pending_hashes u2 = fst ` set kept"
        "up_seen u2 = up_seen u1 \<union> (fst ` set todo - fst ` set kept)"
        "\<forall>e\<in>set todo. fst e \<notin> fst ` set kept \<longrightarrow> (\<exists>b. (e, Inr b) \<in> set (zip todo rs))"
        "err = None \<Longrightarrow> kept = []"
        using settle_props [OF st rs(2) todo(2), where A = "{}"] todo(3) by auto
      have "there s2 h" if h2: "h \<in> up_seen u2" for h
      proof (cases "h \<in> up_seen u1")
        case True
        then show ?thesis
          using seen1 s2(2) by blast
      next
        case False
        then obtain e b where "h = fst e" "(e, Inr b) \<in> set (zip todo rs)"
          using h2 kept(4,5) by auto
        then show ?thesis
          using put_true [OF s1(1) entries p [unfolded rs(1)] rs(2)] by (auto simp: list_all2_iff)
      qed
      then have seen2: "\<forall>h\<in>up_seen u2. there s2 h"
        by blast
      have disj2: "up_seen u2 \<inter> fst ` set kept = {}"
        using image_mono [OF kept(1), of fst] disj unfolding kept(4) by blast
      have "good (keep_pending kept u2) s2" "known (keep_pending kept u2) = up_seen u2 \<union> fst ` set kept"
        using keep_pending_good [OF kept(2,3) disj2 _ s2(1) seen2] entries kept(1) by blast+
      moreover have "up_seen u2 \<union> fst ` set kept = known u"
        using image_mono [OF kept(1), of fst] cover unfolding kept(4) by blast
      moreover have "u' = keep_pending kept u2" "s' = s2" "is_ok r \<Longrightarrow> kept = []"
        using assms(2) False h Inr sp p rs st \<open>up_pending u \<noteq> []\<close> kept(6)
        by (auto simp: up_flush_def split: option.splits)
      ultimately show ?thesis
        using s1(2) s2(2) kept(1) todo(1) by (auto simp: keep_pending_def)
    qed
  qed
qed

lemma buffer_chunk_good:
  assumes "good u s" "entry (h, d)" "buffer_chunk has_many put_many h d u s = (r, u', s')"
  shows "good u' s' \<and> known u' = insert h (known u) \<and> (\<forall>h. there s h \<longrightarrow> there s' h)"
proof (cases "h \<in> up_seen u \<or> h \<in> up_pending_hashes u")
  case True
  then show ?thesis
    using assms by (auto simp: buffer_chunk_def known_def)
next
  case False
  let ?u = "u\<lparr>up_pending_bytes := up_pending_bytes u + length d,
    up_pending_hashes := insert h (up_pending_hashes u), up_pending := up_pending u @ [(h, d)]\<rparr>"
  have g: "good ?u s"
    using assms(1,2) False by (auto simp: up_good_def up_ok_def blob_total_def)
  have k: "known ?u = insert h (known u)"
    by (auto simp: known_def)
  show ?thesis
  proof (cases "UPLOAD_FLUSH_BYTES \<le> up_pending_bytes ?u")
    case True
    then have "up_flush has_many put_many ?u s = (r, u', s')"
      using assms(3) False by (simp add: buffer_chunk_def Let_def)
    then show ?thesis
      using flush_good [OF g] k by metis
  next
    case small: False
    then have "u' = ?u" "s' = s"
      using assms(3) False by (simp_all add: buffer_chunk_def Let_def)
    then show ?thesis
      using g k by simp
  qed
qed

lemma upload_file_good:
  assumes "good u s" "\<forall>c\<in>set cs. \<forall>e. c = Some e \<longrightarrow> entry e"
    "upload_file has_many put_many cs u s = (r, u', s')"
  shows "good u' s' \<and> known u \<subseteq> known u' \<and> (\<forall>h. there s h \<longrightarrow> there s' h)
    \<and> (\<forall>hs. r = Inr hs \<longrightarrow> set hs \<subseteq> known u')"
  using assms
proof (induction cs arbitrary: u s r)
  case (Cons c cs)
  show ?case
  proof (cases c)
    case None
    then show ?thesis
      using Cons.prems by auto
  next
    case (Some e)
    obtain h d where e: "e = (h, d)" by fastforce
    obtain r1 u1 s1 where b: "buffer_chunk has_many put_many h d u s = (r1, u1, s1)"
      by (metis prod_cases3)
    have one: "good u1 s1" "known u1 = insert h (known u)" "\<forall>h. there s h \<longrightarrow> there s1 h"
      using buffer_chunk_good [OF Cons.prems(1) _ b] Cons.prems(2) Some e by auto
    show ?thesis
    proof (cases r1)
      case (Inl x)
      then show ?thesis
        using Cons.prems(3) Some e b one by auto
    next
      case (Inr y)
      obtain r2 where rest: "upload_file has_many put_many cs u1 s1 = (r2, u', s')"
        and r2: "\<And>hs. r = Inr hs \<Longrightarrow> \<exists>hs2. r2 = Inr hs2 \<and> hs = h # hs2"
        using Cons.prems(3) Some e b Inr by (auto split: prod.splits sum.splits)
      have tail: "\<forall>c\<in>set cs. \<forall>e. c = Some e \<longrightarrow> entry e"
        using Cons.prems(2) by simp
      note IH = Cons.IH [OF one(1) tail rest]
      have "set hs \<subseteq> known u'" if hs: "r = Inr hs" for hs
        using r2 [OF hs] IH one(2) by auto
      then show ?thesis
        using IH one by blast
    qed
  qed
qed simp

text \<open>After a successful flush everything the buffer ever took in is there.\<close>

lemma flushed_there:
  assumes "good u s" "up_flush has_many put_many u s = (Inr (), u', s')" "h \<in> known u"
  shows "there s' h"
proof -
  note b = flush_good [OF assms(1,2)]
  have "up_pending u' = []" "good u' s'"
    using b by simp_all
  then have "known u' \<subseteq> up_seen u'" "\<forall>h\<in>up_seen u'. there s' h"
    by (auto simp: up_good_def up_ok_def known_def)
  then show ?thesis
    using b assms(3) by blast
qed

end

section \<open>The sinks of the code\<close>

text \<open>The client in front of this relay.\<close>

definition relay_has :: "principal \<Rightarrow> string \<Rightarrow> string list \<Rightarrow> relay \<Rightarrow> (relay_error, bool list) result \<times> relay" where
  "relay_has p ws = client_has_many (relay_missing p ws)"

definition relay_put ::
  "relay_env \<Rightarrow> (bad_request \<Rightarrow> string) \<Rightarrow> (string \<Rightarrow> bool) \<Rightarrow> bool \<Rightarrow> principal \<Rightarrow> string
     \<Rightarrow> (string \<times> bytes) list \<Rightarrow> relay \<Rightarrow> (relay_error, (string, bool) result list) result \<times> relay" where
  "relay_put E why sync_ok disk_ok p ws = client_put_many (relay_put_many E why sync_ok disk_ok p ws)"

interpretation relay_sink: chunk_sink "relay_has p ws" "relay_put E why sync_ok disk_ok p ws"
  "\<lambda>rl h. available rl p h" "\<lambda>rl. untorn (re_hash E) (rl_store rl)" wire_entry
  by unfold_locales
    (auto simp: relay_has_def relay_put_def dest: relay_has_many_law relay_put_many_law)

text \<open>A local store, through the default loops of \<open>ChunkSink\<close>; the result of an entry is
  the store's.\<close>

definition store_has_many :: "string list \<Rightarrow> store \<Rightarrow> (store_error, bool list) result \<times> store" where
  "store_has_many hs st = (has_many_default store_has st hs, st)"

definition store_put_many ::
  "(bytes \<Rightarrow> string) \<Rightarrow> (string \<Rightarrow> bool) \<Rightarrow> bool \<Rightarrow> (string \<times> bytes) list \<Rightarrow> store
     \<Rightarrow> (store_error, (string, bool) result list) result \<times> store" where
  "store_put_many H sync_ok disk_ok es st =
     (case put_many_default (store_put H sync_ok disk_ok) es st of
        (Inl e, st) \<Rightarrow> (Inl e, st)
      | (Inr bs, st) \<Rightarrow> (Inr (map Inr bs), st))"

lemma has_many_default_lookup:
  assumes "untorn H st" "has_many_default store_has st hs = Inr bs"
  shows "list_all2 (\<lambda>h b. b \<longrightarrow> (\<exists>d. store_lookup H st h = Some d)) hs bs"
  using assms(2)
proof (induction hs arbitrary: bs)
  case (Cons h hs)
  then show ?case
    using has_store_lookup [OF assms(1), of h] by (auto simp: rbind_ok_iff)
qed simp

interpretation store_sink: chunk_sink store_has_many "store_put_many H sync_ok disk_ok"
  "\<lambda>st h. store_lookup H st h \<noteq> None" "untorn H" "\<lambda>_. True"
proof unfold_locales
  fix s s' :: store and es :: "(string \<times> bytes) list" and rs
  assume s: "untorn H s" "store_put_many H sync_ok disk_ok es s = (Inr rs, s')" "length rs = length es"
  then obtain bs where "put_many_default (store_put H sync_ok disk_ok) es s = (Inr bs, s')"
    by (auto simp: store_put_many_def split: prod.splits sum.splits)
  then have "store_lookup H s' (fst e) \<noteq> None" if "e \<in> set es" for e
    using local_store.put_many_present [OF s(1)] that by (metis prod.collapse)
  then show "list_all2 (\<lambda>e x. is_ok x \<longrightarrow> store_lookup H s' (fst e) \<noteq> None) es rs"
    using s(3) by (simp add: list_all2_conv_all_nth)
qed (auto simp: store_has_many_def store_put_many_def has_many_default_lookup
    split: prod.splits sum.splits dest: local_store.put_many_sound local_store.put_many_keeps)

section \<open>A full-size chunk of an encrypted workspace\<close>

text \<open>The chunker emits chunks of up to the relay's maximum, and encryption adds 28 bytes.\<close>

lemma e2e_chunk_length:
  assumes "prims_ok P" "length d \<le> MAX_CHUNK_SIZE"
  shows "length (snd (e2e_chunk P H key (h0, d))) = length d + 28"
  using assms envelope_roundtrip
  by (simp add: e2e_chunk_def Let_def encrypt_chunk_def encrypt_with_nonce_def prims_ok_def GCM_NONCE_LEN_def)

lemma client_has_absent:
  assumes "is_chunk_hash h" "\<not> available rl p h" "is_ok (require_role (rl_db rl) ws p Reader)"
  shows "relay_has p ws [h] rl = (Inr [False], rl)"
proof -
  have "missing_of rl p [h] = Inr [h]"
    using missing_of_spec [of "[h]" rl p] assms by simp
  moreover have "check_all check_hash [h] = Inr ()"
    using assms(1) check_hashes_ok [of "[h]"] by simp
  ultimately have "relay_missing p ws [h] rl = (Inr [h], rl)"
    using assms(3) by (auto simp: relay_missing_def chunks_missing_def MAX_MISSING_BATCH_def is_ok_def split: sum.splits)
  then show ?thesis
    by (simp add: relay_has_def client_has_many_def client_chunks_missing_def batches_of.simps MISSING_BATCH_def)
qed

lemma insert_chunk_refs_nil: "insert_chunk_refs ws [] db = db"
  by (simp add: insert_chunk_refs_def insert_refs_def)

lemma client_put_oversized:
  assumes "is_chunk_hash h" "MAX_CHUNK_SIZE < length d" "length d \<le> PUT_MANY_MAX_BYTES"
    "require_role (rl_db rl) ws p Writer = Inr w"
  shows "relay_put E why sync_ok disk_ok p ws [(h, d)] rl = (Inr [Inl (why (ChunkTooLarge (length d)))], rl)"
proof -
  have b: "upload_batches [(h, d)] = [[(h, d)]]"
    using assms(3) by (simp add: upload_batches.simps next_batch_def PUT_MANY_MAX_ENTRIES_def)
  have "frame_decode (frame_encode [(h, d)]) = Inr [(h, d)]"
    using assms(1,3) by (intro frame.dec_enc) (auto simp: frame_ok_def PUT_MANY_MAX_BYTES_def)
  moreover have "entry_reason E h d = Some (ChunkTooLarge (length d))"
    using assms(1,2) by (simp add: entry_reason_def)
  ultimately have "put_many_chunks E sync_ok disk_ok p ws (frame_encode [(h, d)]) rl
      = (Inr [(h, EntryError (ChunkTooLarge (length d)))], rl)"
    using assms(3,4)
    by (simp add: put_many_chunks_def PUT_MANY_MAX_ENTRIES_def confirmed_def insert_chunk_refs_nil)
  then show ?thesis
    by (simp add: relay_put_def client_put_many_def put_chunks_batches b put_call_def relay_put_many_def
        wire_result_def entry_result_def)
qed

text \<open>C21: Over this relay a file with one chunk of an encrypted workspace whose plaintext
  is within the chunker's limit but less than 28 bytes below it can never be uploaded: it
  is buffered under its ciphertext's digest, and every flush ends in the relay's refusal
  of the oversized ciphertext, which stays in the buffer, the relay unchanged.\<close>

theorem e2e_full_chunk_refused:
  assumes "prims_ok P" "length d \<le> MAX_CHUNK_SIZE" "MAX_CHUNK_SIZE < length d + 28"
    "require_role (rl_db rl) ws p Writer = Inr w"
    "is_chunk_hash (re_hash E (encrypt_chunk P key d))" "\<not> available rl p (re_hash E (encrypt_chunk P key d))"
  shows "\<exists>u. e2e_upload_file P (re_hash E) key (relay_has p ws) (relay_put E why sync_ok disk_ok p ws)
        [Some (h0, d)] uploader_new rl = (Inr [re_hash E (encrypt_chunk P key d)], u, rl)
    \<and> up_flush (relay_has p ws) (relay_put E why sync_ok disk_ok p ws) u rl
        = (Inl (EntryFailed (re_hash E (encrypt_chunk P key d)) (why (ChunkTooLarge (length d + 28)))), u, rl)"
proof -
  let ?b = "encrypt_chunk P key d"
  let ?h = "re_hash E ?b"
  have len: "length ?b = length d + 28"
    using e2e_chunk_length [OF assms(1,2), of "re_hash E" key] by (simp add: e2e_chunk_def Let_def)
  let ?u = "\<lparr>up_seen = {}, up_pending = [(?h, ?b)], up_pending_hashes = {?h}, up_pending_bytes = length ?b,
    up_uploaded = 0, up_bytes = 0\<rparr>"
  have up: "e2e_upload_file P (re_hash E) key (relay_has p ws) (relay_put E why sync_ok disk_ok p ws)
        [Some (h0, d)] uploader_new rl = (Inr [?h], ?u, rl)"
    using assms(2) len
    by (simp add: e2e_upload_file_def e2e_chunk_def buffer_chunk_def uploader_new_def UPLOAD_FLUSH_BYTES_def
        MAX_CHUNK_SIZE_def Let_def)
  have "is_ok (require_role (rl_db rl) ws p Reader)"
    using require_role_weaken [OF assms(4)] by (simp add: is_ok_def)
  note has = client_has_absent [OF assms(5,6) this]
  have "length ?b \<le> PUT_MANY_MAX_BYTES" "MAX_CHUNK_SIZE < length ?b"
    using assms(2,3) len by (simp_all add: MAX_CHUNK_SIZE_def PUT_MANY_MAX_BYTES_def)
  then have put: "relay_put E why sync_ok disk_ok p ws [(?h, ?b)] rl
      = (Inr [Inl (why (ChunkTooLarge (length ?b)))], rl)"
    using client_put_oversized [OF assms(5) _ _ assms(4)] by blast
  have "up_flush (relay_has p ws) (relay_put E why sync_ok disk_ok p ws) ?u rl
      = (Inl (EntryFailed ?h (why (ChunkTooLarge (length d + 28)))), ?u, rl)"
    using has put len by (simp add: up_flush_def keep_pending_def blob_total_def)
  with up show ?thesis
    by blast
qed

lemma e2e_full_chunk_refused_witness:
  "\<exists>u. up_flush (relay_has (User ''alice'') ''w'')
      (relay_put toy_env (\<lambda>_. ''too large'') (\<lambda>_. True) True (User ''alice'') ''w'') u toy_relay
    = (Inl (EntryFailed sample_hash ''too large''), u, toy_relay)"
proof -
  have "\<not> available toy_relay p sample_hash" for p
    by (auto simp: available_def toy_relay_def store_has_def rbind_ok_iff bt_contains_def open_deferred_def open_store_def)
  moreover have h: "re_hash toy_env b = sample_hash" for b
    by (simp add: toy_env_def)
  ultimately obtain u where "up_flush (relay_has (User ''alice'') ''w'')
      (relay_put toy_env (\<lambda>_. ''too large'') (\<lambda>_. True) True (User ''alice'') ''w'') u toy_relay
    = (Inl (EntryFailed sample_hash ''too large''), u, toy_relay)"
    using e2e_full_chunk_refused [of toy_prims "replicate MAX_CHUNK_SIZE CHR ''z''" toy_relay "''w''" "User ''alice''" _
        toy_env "[]" "\<lambda>_. ''too large''" "\<lambda>_. True" True "[]", OF toy_prims_ok _ _ toy_relay_role]
      sample_hash_ok unfolding h by auto
  then show ?thesis
    by blast
qed

end
