(* ===== verification/Scan_Build.thy ===== *)
theory Scan_Build
imports Scan Uploader
begin

text \<open>
  \<open>scan_build_manifest\<close> of \<open>core/src/sync.rs\<close>: a scan becomes the next manifest.  An
  unchanged, settled file whose chunks the sink still has keeps its chunk list; any other
  file is chunked and uploaded; what could not be read keeps its last entry.  The file
  uploader and the sink are parameters over their joint state; the writer's two pipelines
  (\<open>Uploader\<close>) and the direct one of the local sync (\<open>chunk_and_upload\<close>) instantiate them.
\<close>

section \<open>From a scan to a manifest\<close>

definition CACHE_SETTLE_SECS :: int where "CACHE_SETTLE_SECS = 2"

datatype ('p, 'e) build_error =
    BuildWorkspace
  | BuildLoad
  | BuildScan
  | BuildCannotCapture
  | BuildPresence 'p
  | BuildUpload 'e

record scan_built =
  sb_old :: manifest
  sb_new :: manifest
  sb_excluded :: "string list"

text \<open>Every chunk the old manifest could reuse, once, and those the sink confirms.\<close>

definition wanted_chunks :: "manifest \<Rightarrow> string list" where
  "wanted_chunks m = rev (remdups (rev (concat (map (fe_chunks \<circ> snd) (mf_files m)))))"

definition present_of :: "string list \<Rightarrow> bool list \<Rightarrow> string set" where
  "present_of want answers = set (map fst (filter snd (zip want answers)))"

definition chunks_present :: "string set \<Rightarrow> file_entry \<Rightarrow> bool" where
  "chunks_present present entry = list_all (\<lambda>h. h \<in> present) (fe_chunks entry)"

definition cached_entry :: "manifest \<Rightarrow> string set \<Rightarrow> scanned_file \<Rightarrow> file_entry option" where
  "cached_entry old present f =
     (case entry_at old (sf_rel_path f) of
        Some e \<Rightarrow>
          (if fe_size e = sf_size f \<and> fe_mtime_secs e = sf_mtime_secs f
              \<and> fe_mtime_nanos e = sf_mtime_nanos f
              \<and> sf_mtime_secs f + CACHE_SETTLE_SECS \<le> mf_scanned_at_secs old
              \<and> chunks_present present e
           then Some e else None)
      | None \<Rightarrow> None)"

definition entry_of :: "scanned_file \<Rightarrow> string list \<Rightarrow> file_entry" where
  "entry_of f chunks =
     \<lparr>fe_size = sf_size f, fe_mode = sf_mode f, fe_mtime_secs = sf_mtime_secs f,
      fe_mtime_nanos = sf_mtime_nanos f, fe_chunks = chunks\<rparr>"

text \<open>The file loop.  A failed upload ends a strict capture; otherwise the file keeps its
  last entry when the sink still has its chunks, and is left out when it does not.\<close>

fun build_files ::
  "bool \<Rightarrow> manifest \<Rightarrow> string set \<Rightarrow> (string \<Rightarrow> 's \<Rightarrow> ('e, string list) result \<times> 's)
     \<Rightarrow> scanned_file list \<Rightarrow> (string, file_entry) btree \<Rightarrow> 's
     \<Rightarrow> ('e, (string, file_entry) btree) result \<times> 's" where
  "build_files strict old present upload [] files s = (Inr files, s)"
| "build_files strict old present upload (f # fs) files s =
     (case cached_entry old present f of
        Some e \<Rightarrow>
          build_files strict old present upload fs
            (bt_insert (sf_rel_path f) (entry_of f (fe_chunks e)) files) s
      | None \<Rightarrow>
          (case upload (sf_rel_path f) s of
             (Inr hashes, s) \<Rightarrow>
               build_files strict old present upload fs
                 (bt_insert (sf_rel_path f) (entry_of f hashes) files) s
           | (Inl e, s) \<Rightarrow>
               if strict then (Inl e, s)
               else
                 build_files strict old present upload fs
                   (case entry_at old (sf_rel_path f) of
                      Some e \<Rightarrow> (if chunks_present present e then bt_insert (sf_rel_path f) e files else files)
                    | None \<Rightarrow> files) s))"

text \<open>Files below a prefix that could not be read keep their last entry.\<close>

definition under_any :: "string list \<Rightarrow> string \<Rightarrow> bool" where
  "under_any prefixes rel =
     list_ex (\<lambda>p. rel = p \<or> starts_with rel (p @ ''/'')) prefixes"

fun retain_unreadable ::
  "string set \<Rightarrow> string list \<Rightarrow> (string \<times> file_entry) list \<Rightarrow> (string, file_entry) btree
     \<Rightarrow> (string, file_entry) btree" where
  "retain_unreadable present prefixes [] files = files"
| "retain_unreadable present prefixes ((rel, entry) # rest) files =
     retain_unreadable present prefixes rest
       (if bt_contains files rel then files
        else if under_any prefixes rel \<and> chunks_present present entry then bt_insert rel entry files
        else files)"

definition scan_build_manifest ::
  "int \<Rightarrow> (workspace_error, string) result \<Rightarrow> (load_error, manifest option) result \<Rightarrow> (scan_error, scan_outcome) result
     \<Rightarrow> bool \<Rightarrow> (string list \<Rightarrow> 's \<Rightarrow> ('p, bool list) result \<times> 's)
     \<Rightarrow> (string \<Rightarrow> 's \<Rightarrow> ('e, string list) result \<times> 's) \<Rightarrow> 's
     \<Rightarrow> (('p, 'e) build_error, scan_built) result \<times> 's" where
  "scan_build_manifest started_at workspace loaded scanned strict has_many upload s =
     (case workspace of
        Inl _ \<Rightarrow> (Inl BuildWorkspace, s)
      | Inr wid \<Rightarrow>
     (case loaded of
        Inl _ \<Rightarrow> (Inl BuildLoad, s)
      | Inr stored \<Rightarrow>
     (let old = (case stored of Some m \<Rightarrow> m | None \<Rightarrow> manifest_new wid) in
      case scanned of
        Inl _ \<Rightarrow> (Inl BuildScan, s)
      | Inr out \<Rightarrow>
          if strict \<and> (so_unreadable out \<noteq> [] \<or> so_skipped out \<noteq> []) then (Inl BuildCannotCapture, s)
          else
            (case has_many (wanted_chunks old) s of
               (Inl e, s) \<Rightarrow> (Inl (BuildPresence e), s)
             | (Inr answers, s) \<Rightarrow>
                 (let present = present_of (wanted_chunks old) answers in
                  case build_files strict old present upload (so_files out) [] s of
                    (Inl e, s) \<Rightarrow> (Inl (BuildUpload e), s)
                  | (Inr files, s) \<Rightarrow>
                      (let files = retain_unreadable present (so_unreadable out @ so_unreadable_ignored out)
                                     (mf_files old) files
                       in (Inr \<lparr>sb_old = old,
                                sb_new = \<lparr>mf_version = FORMAT_VERSION, mf_workspace_id = wid,
                                          mf_scanned_at_secs = started_at, mf_files = files\<rparr>,
                                sb_excluded = so_excluded out\<rparr>, s)))))))"

section \<open>The writer the manifest is built with\<close>

text \<open>\<open>promised s h\<close>: the chunk is in the sink or waits in the writer's buffer.\<close>

locale file_writer =
  fixes has_many :: "string list \<Rightarrow> 's \<Rightarrow> ('p, bool list) result \<times> 's"
    and upload :: "string \<Rightarrow> 's \<Rightarrow> ('e, string list) result \<times> 's"
    and inv :: "'s \<Rightarrow> bool"
    and promised :: "'s \<Rightarrow> string \<Rightarrow> bool"
  assumes has_inv: "inv s \<Longrightarrow> has_many hs s = (r, s') \<Longrightarrow> inv s'"
    and has_true: "inv s \<Longrightarrow> has_many hs s = (Inr bs, s') \<Longrightarrow> list_all2 (\<lambda>h b. b \<longrightarrow> promised s' h) hs bs"
    and upload_inv: "inv s \<Longrightarrow> upload path s = (r', s') \<Longrightarrow> inv s'"
    and upload_keeps: "inv s \<Longrightarrow> upload path s = (r', s') \<Longrightarrow> promised s h \<Longrightarrow> promised s' h"
    and upload_true: "inv s \<Longrightarrow> upload path s = (Inr hs', s') \<Longrightarrow> h \<in> set hs' \<Longrightarrow> promised s' h"
begin

definition all_promised :: "'s \<Rightarrow> (string, file_entry) btree \<Rightarrow> bool" where
  "all_promised s files \<longleftrightarrow> (\<forall>p e h. bt_get files p = Some e \<longrightarrow> h \<in> set (fe_chunks e) \<longrightarrow> promised s h)"

lemma all_promised_insert:
  assumes "all_promised s files" "\<forall>h\<in>set (fe_chunks e). promised s h"
  shows "all_promised s (bt_insert p e files)"
  using assms by (simp add: all_promised_def)

lemma present_promised:
  assumes "\<forall>h\<in>present. promised s h" "chunks_present present e"
  shows "\<forall>h\<in>set (fe_chunks e). promised s h"
  using assms by (auto simp: chunks_present_def list_all_iff)

lemma build_files_promised:
  assumes "build_files strict old present upload fs files s = (r, s')" "inv s"
    "\<forall>h\<in>present. promised s h" "all_promised s files"
  shows "inv s' \<and> (\<forall>h\<in>present. promised s' h) \<and> (\<forall>out. r = Inr out \<longrightarrow> all_promised s' out)"
  using assms
proof (induction fs arbitrary: files s)
  case (Cons f fs)
  show ?case
  proof (cases "cached_entry old present f")
    case (Some e)
    then have "chunks_present present e"
      by (auto simp: cached_entry_def split: option.splits if_splits)
    then have kept: "all_promised s (bt_insert (sf_rel_path f) (entry_of f (fe_chunks e)) files)"
      using all_promised_insert [OF Cons.prems(4)] present_promised [OF Cons.prems(3)] by (simp add: entry_of_def)
    show ?thesis
      using Cons.IH [OF _ Cons.prems(2,3) kept] Cons.prems(1) Some by simp
  next
    case None
    obtain r1 s1 where u: "upload (sf_rel_path f) s = (r1, s1)" by fastforce
    have s1: "inv s1" "\<forall>h\<in>present. promised s1 h" "all_promised s1 files"
      using upload_inv [OF Cons.prems(2) u] upload_keeps [OF Cons.prems(2) u] Cons.prems(3,4)
      by (auto simp: all_promised_def)
    show ?thesis
    proof (cases r1)
      case (Inr hs)
      have kept: "all_promised s1 (bt_insert (sf_rel_path f) (entry_of f hs) files)"
        using all_promised_insert [OF s1(3)] upload_true [OF Cons.prems(2) u [unfolded Inr]] by (simp add: entry_of_def)
      show ?thesis
        using Cons.IH [OF _ s1(1,2) kept] Cons.prems(1) None u Inr by simp
    next
      case (Inl e)
      have kept: "all_promised s1 (case entry_at old (sf_rel_path f) of
                 Some e \<Rightarrow> (if chunks_present present e then bt_insert (sf_rel_path f) e files else files)
               | None \<Rightarrow> files)"
        using all_promised_insert [OF s1(3)] present_promised [OF s1(2)] s1(3) by (simp split: option.split)
      show ?thesis
      proof (cases strict)
        case True
        then show ?thesis
          using Cons.prems(1) None u Inl s1 by auto
      next
        case False
        then show ?thesis
          using Cons.IH [OF _ s1(1,2) kept] Cons.prems(1) None u Inl by simp
      qed
    qed
  qed
qed auto

lemma retain_promised:
  assumes "\<forall>h\<in>present. promised s h" "all_promised s files"
  shows "all_promised s (retain_unreadable present prefixes es files)"
  using assms
proof (induction present prefixes es files rule: retain_unreadable.induct)
  case (2 present prefixes rel entry rest files)
  have "all_promised s (if bt_contains files rel then files
        else if under_any prefixes rel \<and> chunks_present present entry then bt_insert rel entry files
        else files)"
    using all_promised_insert [OF "2.prems"(2)] present_promised [OF "2.prems"(1), of entry] "2.prems"(2) by simp
  then show ?case
    using "2.IH" "2.prems"(1) by simp
qed simp

lemma present_of_promised:
  assumes "list_all2 (\<lambda>h b. b \<longrightarrow> promised s h) hs bs"
  shows "\<forall>h\<in>present_of hs bs. promised s h"
  using assms by (auto simp: present_of_def list_all2_iff)

text \<open>However the pass ends the state stays good, and a manifest it builds names only
  promised chunks.\<close>

lemma scan_build_promised:
  assumes "scan_build_manifest started_at workspace loaded scanned strict has_many upload s = (r, s')" "inv s"
  shows "inv s' \<and> (\<forall>b. r = Inr b \<longrightarrow> all_promised s' (mf_files (sb_new b)))"
proof -
  consider "s' = s" "\<not> is_ok r" | wid stored out where "workspace = Inr wid" "loaded = Inr stored" "scanned = Inr out"
      "\<not> (strict \<and> (so_unreadable out \<noteq> [] \<or> so_skipped out \<noteq> []))"
    using assms(1)
    by (auto simp: scan_build_manifest_def Let_def split: sum.splits if_splits)
  then show ?thesis
  proof cases
    case 1
    then show ?thesis
      using assms(2) by auto
  next
    case (2 wid stored out)
    let ?old = "case stored of Some m \<Rightarrow> m | None \<Rightarrow> manifest_new wid"
    let ?want = "wanted_chunks ?old"
    have no: "(strict \<and> (so_unreadable out \<noteq> [] \<or> so_skipped out \<noteq> [])) = False"
      using 2(4) by blast
    obtain r1 s1 where h: "has_many ?want s = (r1, s1)" by fastforce
    have s1: "inv s1"
      using has_inv [OF assms(2) h] .
    show ?thesis
    proof (cases r1)
      case (Inl e)
      then show ?thesis
        using assms(1) 2 h s1 by (auto simp: scan_build_manifest_def Let_def split: if_splits)
    next
      case (Inr answers)
      let ?present = "present_of ?want answers"
      have present: "\<forall>h\<in>?present. promised s1 h"
        by (rule present_of_promised [OF has_true [OF assms(2) h [unfolded Inr]]])
      obtain r2 s2 where b: "build_files strict ?old ?present upload (so_files out) [] s1 = (r2, s2)" by fastforce
      have built: "inv s2 \<and> (\<forall>h\<in>?present. promised s2 h) \<and> (\<forall>out. r2 = Inr out \<longrightarrow> all_promised s2 out)"
        by (rule build_files_promised [OF b s1 present]) (simp add: all_promised_def)
      have "s' = s2 \<and> (\<forall>bl. r = Inr bl \<longrightarrow> (\<exists>files. r2 = Inr files \<and> mf_files (sb_new bl)
          = retain_unreadable ?present (so_unreadable out @ so_unreadable_ignored out) (mf_files ?old) files))"
        using assms(1)
        unfolding scan_build_manifest_def Let_def 2(1-3) sum.case no if_False h prod.case Inr b
        by (cases r2) auto
      then show ?thesis
        using built retain_promised by fastforce
    qed
  qed
qed

end

section \<open>The writers of the code\<close>

text \<open>\<open>chunk_reader\<close> over what FastCDC yields for a stream, \<open>None\<close> a read error.\<close>

definition chunk_reader :: "(bytes \<Rightarrow> string) \<Rightarrow> bytes option list \<Rightarrow> (string \<times> bytes) option list" where
  "chunk_reader H cs = map (map_option (\<lambda>d. (H d, d))) cs"

datatype pipeline = Uploader_Plain | Uploader_E2e bytes

text \<open>\<open>cutter\<close> opens a file and cuts it; the buffer and the sink are the state.\<close>

definition pipeline_upload ::
  "prims \<Rightarrow> (bytes \<Rightarrow> string) \<Rightarrow> pipeline \<Rightarrow> (string list \<Rightarrow> 's \<Rightarrow> ('e, bool list) result \<times> 's)
     \<Rightarrow> ((string \<times> bytes) list \<Rightarrow> 's \<Rightarrow> ('e, (string, bool) result list) result \<times> 's)
     \<Rightarrow> (string \<Rightarrow> bytes option list option) \<Rightarrow> string \<Rightarrow> uploader \<times> 's
     \<Rightarrow> ('e upload_error, string list) result \<times> uploader \<times> 's" where
  "pipeline_upload P H pl has_many put_many cutter path us =
     (case us of (u, s) \<Rightarrow>
        (case cutter path of
           None \<Rightarrow> (Inl ChunkReadFailed, u, s)
         | Some cs \<Rightarrow>
             (case pl of
                Uploader_Plain \<Rightarrow> upload_file has_many put_many (chunk_reader H cs) u s
              | Uploader_E2e key \<Rightarrow> e2e_upload_file P H key has_many put_many (chunk_reader H cs) u s)))"

definition sink_has_many ::
  "(string list \<Rightarrow> 's \<Rightarrow> ('e, bool list) result \<times> 's) \<Rightarrow> string list \<Rightarrow> uploader \<times> 's
     \<Rightarrow> ('e, bool list) result \<times> uploader \<times> 's" where
  "sink_has_many has_many hs us = (case us of (u, s) \<Rightarrow> case has_many hs s of (r, s) \<Rightarrow> (r, u, s))"

text \<open>The local sync writes each chunk straight into the target's store.\<close>

record direct =
  dr_seen :: "string set"
  dr_uploaded :: nat
  dr_bytes :: nat
  dr_store :: store

datatype direct_error = DirectRead | DirectStore store_error

definition direct_chunk ::
  "(bytes \<Rightarrow> string) \<Rightarrow> (string \<Rightarrow> bool) \<Rightarrow> bool \<Rightarrow> string \<Rightarrow> bytes \<Rightarrow> direct \<Rightarrow> (direct_error, unit) result \<times> direct" where
  "direct_chunk H sync_ok disk_ok h data d =
     (if h \<in> dr_seen d then (Inr (), d)
      else
        (case store_has (dr_store d) h of
           Inl e \<Rightarrow> (Inl (DirectStore e), d)
         | Inr present \<Rightarrow>
             if present then (Inr (), d\<lparr>dr_seen := insert h (dr_seen d)\<rparr>)
             else
               (case store_put H sync_ok disk_ok h data (dr_store d) of
                  (Inl e, st) \<Rightarrow> (Inl (DirectStore e), d\<lparr>dr_store := st\<rparr>)
                | (Inr stored, st) \<Rightarrow>
                    (Inr (), d\<lparr>dr_store := st,
                               dr_uploaded := dr_uploaded d + (if stored then 1 else 0),
                               dr_bytes := dr_bytes d + (if stored then length data else 0),
                               dr_seen := insert h (dr_seen d)\<rparr>))))"

fun chunk_and_upload ::
  "(bytes \<Rightarrow> string) \<Rightarrow> (string \<Rightarrow> bool) \<Rightarrow> bool \<Rightarrow> (string \<times> bytes) option list \<Rightarrow> direct
     \<Rightarrow> (direct_error, string list) result \<times> direct" where
  "chunk_and_upload H sync_ok disk_ok [] d = (Inr [], d)"
| "chunk_and_upload H sync_ok disk_ok (None # cs) d = (Inl DirectRead, d)"
| "chunk_and_upload H sync_ok disk_ok (Some (h, data) # cs) d =
     (case direct_chunk H sync_ok disk_ok h data d of
        (Inl e, d) \<Rightarrow> (Inl e, d)
      | (Inr _, d) \<Rightarrow>
          (case chunk_and_upload H sync_ok disk_ok cs d of
             (Inl e, d) \<Rightarrow> (Inl e, d)
           | (Inr hs, d) \<Rightarrow> (Inr (h # hs), d)))"

definition direct_upload ::
  "(bytes \<Rightarrow> string) \<Rightarrow> (string \<Rightarrow> bool) \<Rightarrow> bool \<Rightarrow> (string \<Rightarrow> bytes option list option) \<Rightarrow> string \<Rightarrow> direct
     \<Rightarrow> (direct_error, string list) result \<times> direct" where
  "direct_upload H sync_ok disk_ok cutter path d =
     (case cutter path of
        None \<Rightarrow> (Inl DirectRead, d)
      | Some cs \<Rightarrow> chunk_and_upload H sync_ok disk_ok (chunk_reader H cs) d)"

definition direct_has_many :: "string list \<Rightarrow> direct \<Rightarrow> (store_error, bool list) result \<times> direct" where
  "direct_has_many hs d = (has_many_default store_has (dr_store d) hs, d)"

section \<open>They keep the writer's promise\<close>

text \<open>What the code relies on of BLAKE3 and FastCDC: a digest prints as 64 lower-case hex
  characters, and no chunk is longer than the configured maximum.\<close>

definition digest_law :: "(bytes \<Rightarrow> string) \<Rightarrow> bool" where
  "digest_law H \<longleftrightarrow> (\<forall>d. is_chunk_hash (H d))"

definition cut_law :: "(string \<Rightarrow> bytes option list option) \<Rightarrow> bool" where
  "cut_law cutter \<longleftrightarrow> (\<forall>path cs d. cutter path = Some cs \<longrightarrow> Some d \<in> set cs \<longrightarrow> length d \<le> MAX_CHUNK_SIZE)"

lemma Some_in_mapped: "Some e \<in> set (map (map_option f) cs) \<longleftrightarrow> (\<exists>d. Some d \<in> set cs \<and> e = f d)"
  by (induction cs) (auto simp: map_option_case split: option.splits)

lemma pipeline_entries:
  assumes "digest_law H" "cut_law cutter" "prims_ok P" "cutter path = Some cs"
  shows "\<forall>c\<in>set (chunk_reader H cs). \<forall>e. c = Some e \<longrightarrow> wire_entry e"
    and "\<forall>c\<in>set (map (map_option (e2e_chunk P H key)) (chunk_reader H cs)). \<forall>e. c = Some e \<longrightarrow> wire_entry e"
proof -
  have len: "length d \<le> MAX_CHUNK_SIZE" if "Some d \<in> set cs" for d
    using assms(2,4) that unfolding cut_law_def by blast
  show "\<forall>c\<in>set (chunk_reader H cs). \<forall>e. c = Some e \<longrightarrow> wire_entry e"
    using assms(1) len
    by (auto simp: chunk_reader_def Some_in_mapped wire_entry_def digest_law_def MAX_CHUNK_SIZE_def simp del: set_map)
      (fastforce)+
  have "wire_entry (e2e_chunk P H key (H d, d))" if "Some d \<in> set cs" for d
    using e2e_chunk_length [OF assms(3) len [OF that], of H key "H d"] len [OF that] assms(1)
    by (simp add: wire_entry_def digest_law_def e2e_chunk_def Let_def MAX_CHUNK_SIZE_def)
  then show "\<forall>c\<in>set (map (map_option (e2e_chunk P H key)) (chunk_reader H cs)). \<forall>e. c = Some e \<longrightarrow> wire_entry e"
    by (auto simp: chunk_reader_def Some_in_mapped simp del: set_map map_map)
qed

text \<open>The relay writer: its invariant is the buffer's, and a chunk is promised when the
  buffer has taken it in or the relay can serve it.\<close>

definition writer_inv :: "relay_env \<Rightarrow> principal \<Rightarrow> uploader \<times> relay \<Rightarrow> bool" where
  "writer_inv E p us = (case us of (u, rl) \<Rightarrow>
     up_good (\<lambda>rl h. available rl p h) (\<lambda>rl. untorn (re_hash E) (rl_store rl)) wire_entry u rl)"

definition writer_promised :: "principal \<Rightarrow> uploader \<times> relay \<Rightarrow> string \<Rightarrow> bool" where
  "writer_promised p us h = (case us of (u, rl) \<Rightarrow> h \<in> known u \<or> available rl p h)"

lemma relay_pipeline_good:
  assumes "digest_law (re_hash E)" "cut_law cutter" "prims_ok P" "writer_inv E p us"
    "pipeline_upload P (re_hash E) pl (relay_has p ws) (relay_put E why sync_ok disk_ok p ws) cutter path us = (r, us')"
  shows "writer_inv E p us' \<and> (\<forall>h. writer_promised p us h \<longrightarrow> writer_promised p us' h)
    \<and> (\<forall>hs. r = Inr hs \<longrightarrow> (\<forall>h\<in>set hs. writer_promised p us' h))"
proof -
  obtain u rl where us: "us = (u, rl)" by fastforce
  obtain u' rl' where us': "us' = (u', rl')" by fastforce
  let ?has = "relay_has p ws" and ?put = "relay_put E why sync_ok disk_ok p ws"
  have good: "up_good (\<lambda>rl h. available rl p h) (\<lambda>rl. untorn (re_hash E) (rl_store rl)) wire_entry u rl"
    using assms(4) us by (simp add: writer_inv_def)
  show ?thesis
  proof (cases "cutter path")
    case None
    then show ?thesis
      using assms(4,5) us by (auto simp: pipeline_upload_def)
  next
    case (Some cs)
    note entries = pipeline_entries [OF assms(1,2,3) Some]
    obtain chunks where c: "upload_file ?has ?put chunks u rl = (r, u', rl')"
      "\<forall>c\<in>set chunks. \<forall>e. c = Some e \<longrightarrow> wire_entry e"
    proof (cases pl)
      case Uploader_Plain
      then show thesis
        using that entries(1) assms(5) Some us us' by (simp add: pipeline_upload_def)
    next
      case (Uploader_E2e key)
      then show thesis
        using that entries(2) assms(5) Some us us' by (simp add: pipeline_upload_def e2e_upload_file_def)
    qed
    show ?thesis
      using relay_sink.upload_file_good [OF good c(2,1)] us us'
      by (auto simp: writer_inv_def writer_promised_def)
  qed
qed

interpretation relay_writer: file_writer "sink_has_many (relay_has p ws)"
  "pipeline_upload P (re_hash E) pl (relay_has p ws) (relay_put E why sync_ok disk_ok p ws) cutter"
  "\<lambda>us. digest_law (re_hash E) \<and> cut_law cutter \<and> prims_ok P \<and> writer_inv E p us" "writer_promised p"
  for P E pl why sync_ok disk_ok p ws cutter
proof unfold_locales
  fix us us' :: "uploader \<times> relay" and hs r
  assume a: "digest_law (re_hash E) \<and> cut_law cutter \<and> prims_ok P \<and> writer_inv E p us"
    "sink_has_many (relay_has p ws) hs us = (r, us')"
  then have "us' = us"
    using relay_has_many_law(1) by (auto simp: sink_has_many_def relay_has_def split: prod.splits)
  then show "digest_law (re_hash E) \<and> cut_law cutter \<and> prims_ok P \<and> writer_inv E p us'"
    using a(1) by simp
next
  fix us us' :: "uploader \<times> relay" and hs bs
  assume "sink_has_many (relay_has p ws) hs us = (Inr bs, us')"
  then obtain u rl rl' where us: "us = (u, rl)" "us' = (u, rl')" "relay_has p ws hs rl = (Inr bs, rl')"
    by (auto simp: sink_has_many_def split: prod.splits)
  have "list_all2 (\<lambda>h b. b \<longrightarrow> available rl p h) hs bs" "rl' = rl"
    using relay_has_many_law us(3) by (auto simp: relay_has_def)
  then show "list_all2 (\<lambda>h b. b \<longrightarrow> writer_promised p us' h) hs bs"
    using us by (auto simp: writer_promised_def elim: list_all2_mono)
qed (use relay_pipeline_good in blast)+

text \<open>The direct writer: a chunk is promised when the store reads it back.\<close>

definition direct_inv :: "(bytes \<Rightarrow> string) \<Rightarrow> direct \<Rightarrow> bool" where
  "direct_inv H d \<longleftrightarrow> untorn H (dr_store d) \<and> (\<forall>h\<in>dr_seen d. store_lookup H (dr_store d) h \<noteq> None)"

lemma direct_chunk_good:
  assumes "direct_chunk H sync_ok disk_ok h data d = (r, d')" "direct_inv H d"
  shows "direct_inv H d'" "store_lookup H (dr_store d) k \<noteq> None \<Longrightarrow> store_lookup H (dr_store d') k \<noteq> None"
    "is_ok r \<Longrightarrow> store_lookup H (dr_store d') h \<noteq> None"
proof -
  have u: "untorn H (dr_store d)" "\<forall>h\<in>dr_seen d. store_lookup H (dr_store d) h \<noteq> None"
    using assms(2) by (simp_all add: direct_inv_def)
  obtain r1 st where p: "store_put H sync_ok disk_ok h data (dr_store d) = (r1, st)" by fastforce
  have st: "untorn H st" "\<And>k. store_lookup H (dr_store d) k \<noteq> None \<Longrightarrow> store_lookup H st k \<noteq> None"
    "is_ok r1 \<Longrightarrow> store_lookup H st h \<noteq> None"
    using local_store.put_sound [OF u(1) p] local_store.put_keeps [OF u(1) p] local_store.put_present [OF u(1)] p
    by (fastforce simp: is_ok_def split: sum.splits)+
  have has: "store_has (dr_store d) h = Inr True \<Longrightarrow> store_lookup H (dr_store d) h \<noteq> None"
    using has_store_lookup [OF u(1)] by blast
  have "direct_inv H d' \<and> (store_lookup H (dr_store d) k \<noteq> None \<longrightarrow> store_lookup H (dr_store d') k \<noteq> None)
      \<and> (is_ok r \<longrightarrow> store_lookup H (dr_store d') h \<noteq> None)"
  proof (cases "h \<in> dr_seen d")
    case True
    then show ?thesis
      using assms u by (simp add: direct_chunk_def)
  next
    case new: False
    show ?thesis
    proof (cases "store_has (dr_store d) h")
      case (Inl e)
      then show ?thesis
        using assms new by (auto simp: direct_chunk_def)
    next
      case (Inr present)
      show ?thesis
      proof (cases present)
        case True
        then have "d' = d\<lparr>dr_seen := insert h (dr_seen d)\<rparr>" "r = Inr ()"
          using assms(1) new Inr by (simp_all add: direct_chunk_def)
        then show ?thesis
          using u has Inr True by (simp add: direct_inv_def)
      next
        case False
        then have "dr_store d' = st" "is_ok r = is_ok r1" "dr_seen d' = (if is_ok r1 then insert h (dr_seen d) else dr_seen d)"
          using assms(1) new Inr p by (auto simp: direct_chunk_def split: sum.splits)
        then show ?thesis
          using st u(2) by (auto simp: direct_inv_def)
      qed
    qed
  qed
  then show "direct_inv H d'" "store_lookup H (dr_store d) k \<noteq> None \<Longrightarrow> store_lookup H (dr_store d') k \<noteq> None"
    "is_ok r \<Longrightarrow> store_lookup H (dr_store d') h \<noteq> None"
    by blast+
qed

lemma direct_good:
  assumes "chunk_and_upload H sync_ok disk_ok cs d = (r, d')" "direct_inv H d"
  shows "direct_inv H d' \<and> (\<forall>h. store_lookup H (dr_store d) h \<noteq> None \<longrightarrow> store_lookup H (dr_store d') h \<noteq> None)
    \<and> (\<forall>hs. r = Inr hs \<longrightarrow> (\<forall>h\<in>set hs. store_lookup H (dr_store d') h \<noteq> None))"
  using assms
proof (induction H sync_ok disk_ok cs d arbitrary: r d' rule: chunk_and_upload.induct)
  case (3 H sync_ok disk_ok h data cs d)
  obtain r1 d1 where step: "direct_chunk H sync_ok disk_ok h data d = (r1, d1)" by fastforce
  note one = direct_chunk_good [OF step "3.prems"(2)]
  show ?case
  proof (cases r1)
    case (Inl e)
    then show ?thesis
      using "3.prems"(1) step one by auto
  next
    case (Inr x)
    obtain r2 d2 where rest: "chunk_and_upload H sync_ok disk_ok cs d1 = (r2, d2)" by fastforce
    note IH = "3.IH" [OF step [symmetric] Inr rest one(1)]
    have "d' = d2" "\<And>hs. r = Inr hs \<Longrightarrow> \<exists>hs2. r2 = Inr hs2 \<and> hs = h # hs2"
      using "3.prems"(1) step Inr rest by (auto split: sum.splits)
    then show ?thesis
      using IH one(2,3) Inr by fastforce
  qed
qed auto

interpretation direct_writer: file_writer direct_has_many "direct_upload H sync_ok disk_ok cutter"
  "direct_inv H" "\<lambda>d h. store_lookup H (dr_store d) h \<noteq> None"
  for H sync_ok disk_ok cutter
proof unfold_locales
  fix d d' :: direct and hs bs
  assume "direct_inv H d" "direct_has_many hs d = (Inr bs, d')"
  then show "list_all2 (\<lambda>h b. b \<longrightarrow> store_lookup H (dr_store d') h \<noteq> None) hs bs"
    using has_many_default_lookup by (auto simp: direct_has_many_def direct_inv_def)
qed (use direct_good in \<open>fastforce simp: direct_upload_def direct_has_many_def split: option.splits\<close>)+

section \<open>What a built manifest holds\<close>

definition scanned_as :: "scanned_file \<Rightarrow> file_entry \<Rightarrow> bool" where
  "scanned_as f e \<longleftrightarrow> (\<exists>cs. e = entry_of f cs)"

lemma scanned_as_entry_of [simp]: "scanned_as f (entry_of f cs)"
  by (auto simp: scanned_as_def)

lemma entry_of_chunks [simp]: "fe_chunks (entry_of f cs) = cs"
  by (simp add: entry_of_def)

text \<open>The parts of a successful pass.\<close>

lemma scan_build_parts:
  fixes has_many :: "string list \<Rightarrow> 's \<Rightarrow> ('p, bool list) result \<times> 's"
    and upload :: "string \<Rightarrow> 's \<Rightarrow> ('e, string list) result \<times> 's"
  assumes "scan_build_manifest started_at workspace loaded scanned strict has_many upload s = (Inr b, s')"
  obtains wid stored out answers s1 files where "workspace = Inr wid" "loaded = Inr stored" "scanned = Inr out"
    "sb_old b = (case stored of Some m \<Rightarrow> m | None \<Rightarrow> manifest_new wid)"
    "strict \<Longrightarrow> so_unreadable out = [] \<and> so_skipped out = []"
    "has_many (wanted_chunks (sb_old b)) s = (Inr answers, s1)"
    "build_files strict (sb_old b) (present_of (wanted_chunks (sb_old b)) answers) upload (so_files out) [] s1
       = (Inr files, s')"
    "sb_new b = \<lparr>mf_version = FORMAT_VERSION, mf_workspace_id = wid, mf_scanned_at_secs = started_at,
       mf_files = retain_unreadable (present_of (wanted_chunks (sb_old b)) answers)
         (so_unreadable out @ so_unreadable_ignored out) (mf_files (sb_old b)) files\<rparr>"
proof -
  obtain wid stored out where r: "workspace = Inr wid" "loaded = Inr stored" "scanned = Inr out"
    "(strict \<and> (so_unreadable out \<noteq> [] \<or> so_skipped out \<noteq> [])) = False"
    using assms by (auto simp: scan_build_manifest_def Let_def split: sum.splits if_splits)
  let ?old = "case stored of Some m \<Rightarrow> m | None \<Rightarrow> manifest_new wid"
  obtain answers s1 where h: "has_many (wanted_chunks ?old) s = (Inr answers, s1)"
    using assms unfolding scan_build_manifest_def Let_def r sum.case if_False
    by (cases "has_many (wanted_chunks ?old) s") (auto split: sum.splits)
  let ?present = "present_of (wanted_chunks ?old) answers"
  obtain files where f: "build_files strict ?old ?present upload (so_files out) [] s1
       = (Inr files, s')"
    "b = \<lparr>sb_old = ?old, sb_new = \<lparr>mf_version = FORMAT_VERSION, mf_workspace_id = wid, mf_scanned_at_secs = started_at,
       mf_files = retain_unreadable ?present (so_unreadable out @ so_unreadable_ignored out) (mf_files ?old) files\<rparr>,
       sb_excluded = so_excluded out\<rparr>"
    using assms unfolding scan_build_manifest_def Let_def r sum.case if_False h prod.case
    by (cases "build_files strict ?old ?present upload (so_files out) [] s1")
      (auto split: sum.splits)
  show thesis
    by (rule that [OF r(1-3), of answers s1 files]) (use h f r(4) in simp_all)
qed

lemma scan_build_files:
  fixes has_many :: "string list \<Rightarrow> 's \<Rightarrow> ('p, bool list) result \<times> 's"
    and upload :: "string \<Rightarrow> 's \<Rightarrow> ('e, string list) result \<times> 's"
  assumes "scan_build_manifest started_at workspace loaded (Inr out) strict has_many upload s = (Inr b, s')"
  shows "\<exists>answers s1 r files. has_many (wanted_chunks (sb_old b)) s = (Inr answers, s1)
    \<and> build_files strict (sb_old b) (present_of (wanted_chunks (sb_old b)) answers) upload (so_files out) [] s1
       = (r, s') \<and> r = Inr files
    \<and> mf_files (sb_new b) = retain_unreadable (present_of (wanted_chunks (sb_old b)) answers)
         (so_unreadable out @ so_unreadable_ignored out) (mf_files (sb_old b)) files
    \<and> (strict \<longrightarrow> so_unreadable out = [] \<and> so_skipped out = [])"
  by (rule scan_build_parts [OF assms]) auto

lemma retain_get:
  "bt_get (retain_unreadable present prefixes es files) p =
     (case bt_get files p of
        Some e \<Rightarrow> Some e
      | None \<Rightarrow> map_of (filter (\<lambda>(q, e). under_any prefixes q \<and> chunks_present present e) es) p)"
  by (induction present prefixes es files rule: retain_unreadable.induct)
    (auto simp: bt_contains_def split: option.splits)

lemma retain_wf: "bt_wf files \<Longrightarrow> bt_wf (retain_unreadable present prefixes es files)"
  by (induction present prefixes es files rule: retain_unreadable.induct) auto

text \<open>A file the pass went over is in the result, except where its upload failed and its old
  content is gone from the sink.\<close>

lemma build_files_get:
  assumes "build_files strict old present upload fs files s = (r, s')" "r = Inr out" "bt_wf files"
  shows "bt_wf out \<and> (\<forall>p. bt_get files p \<noteq> None \<longrightarrow> bt_get out p \<noteq> None)
    \<and> (\<forall>f\<in>set fs. (strict \<or> (\<exists>e. entry_at old (sf_rel_path f) = Some e \<and> chunks_present present e))
          \<longrightarrow> bt_get out (sf_rel_path f) \<noteq> None)
    \<and> (\<forall>p e. bt_get out p = Some e \<longrightarrow> bt_get files p = Some e
         \<or> (\<exists>f\<in>set fs. p = sf_rel_path f \<and> (scanned_as f e \<or> \<not> strict \<and> entry_at old p = Some e)))"
  using assms
proof (induction fs arbitrary: files s)
  case (Cons f fs)
  let ?good = "\<lambda>files1. files1 = files \<and> \<not> strict
        \<and> \<not> (\<exists>e. entry_at old (sf_rel_path f) = Some e \<and> chunks_present present e)
      \<or> (\<exists>e. files1 = bt_insert (sf_rel_path f) e files
          \<and> (scanned_as f e \<or> \<not> strict \<and> entry_at old (sf_rel_path f) = Some e))"
  have scanned: "?good (bt_insert (sf_rel_path f) (entry_of f cs) files)" for cs
    by (rule disjI2, rule exI [of _ "entry_of f cs"]) simp
  obtain files1 s1 where one: "build_files strict old present upload fs files1 s1 = (r, s')" "?good files1"
  proof (cases "cached_entry old present f")
    case (Some e)
    then show thesis
      by (intro that [of _ s, OF _ scanned [of "fe_chunks e"]]) (use Cons.prems(1) in simp)
  next
    case None
    obtain r1 s1 where u: "upload (sf_rel_path f) s = (r1, s1)" by fastforce
    show thesis
    proof (cases r1)
      case (Inr hs)
      then show thesis
        by (intro that [of _ s1, OF _ scanned [of hs]]) (use Cons.prems(1) None u in simp)
    next
      case (Inl x)
      then have "\<not> strict"
        using Cons.prems(1,2) None u by (auto split: if_splits)
      then have kept: "?good (case entry_at old (sf_rel_path f) of
          Some e \<Rightarrow> (if chunks_present present e then bt_insert (sf_rel_path f) e files else files)
        | None \<Rightarrow> files)"
        by (cases "entry_at old (sf_rel_path f)") auto
      show thesis
        by (rule that [of _ s1, OF _ kept]) (use Cons.prems(1) None u Inl \<open>\<not> strict\<close> in simp)
    qed
  qed
  have keep: "bt_wf files1" "\<And>p. bt_get files p \<noteq> None \<Longrightarrow> bt_get files1 p \<noteq> None"
    "strict \<or> (\<exists>e. entry_at old (sf_rel_path f) = Some e \<and> chunks_present present e) \<Longrightarrow> bt_get files1 (sf_rel_path f) \<noteq> None"
    "\<And>p e. bt_get files1 p = Some e \<Longrightarrow> bt_get files p = Some e
       \<or> p = sf_rel_path f \<and> (scanned_as f e \<or> \<not> strict \<and> entry_at old p = Some e)"
    using one(2) Cons.prems(3) by (auto split: if_splits)
  note IH = Cons.IH [OF one(1) Cons.prems(2) keep(1)]
  have sc: "\<forall>g\<in>set (f # fs). (strict \<or> (\<exists>e. entry_at old (sf_rel_path g) = Some e \<and> chunks_present present e))
          \<longrightarrow> bt_get out (sf_rel_path g) \<noteq> None"
    using IH keep(3) by (metis set_ConsD)
  have src: "\<forall>p e. bt_get out p = Some e \<longrightarrow> bt_get files p = Some e
         \<or> (\<exists>g\<in>set (f # fs). p = sf_rel_path g \<and> (scanned_as g e \<or> \<not> strict \<and> entry_at old p = Some e))"
  proof (intro allI impI)
    fix p e assume "bt_get out p = Some e"
    then have "bt_get files1 p = Some e
      \<or> (\<exists>g\<in>set fs. p = sf_rel_path g \<and> (scanned_as g e \<or> \<not> strict \<and> entry_at old p = Some e))"
      using IH by simp
    then show "bt_get files p = Some e
         \<or> (\<exists>g\<in>set (f # fs). p = sf_rel_path g \<and> (scanned_as g e \<or> \<not> strict \<and> entry_at old p = Some e))"
    proof (elim disjE bexE conjE)
      assume "bt_get files1 p = Some e"
      from keep(4) [OF this] show ?thesis
        by (elim disjE conjE) (simp, (intro disjI2 bexI [of _ f], simp_all)+)
    next
      fix g assume "g \<in> set fs" "p = sf_rel_path g" "scanned_as g e"
      then show ?thesis
        by (intro disjI2 bexI [of _ g]) simp_all
    next
      fix g assume "g \<in> set fs" "p = sf_rel_path g" "\<not> strict" "entry_at old p = Some e"
      then show ?thesis
        by (intro disjI2 bexI [of _ g]) simp_all
    qed
  qed
  have "bt_wf out" "\<forall>p. bt_get files p \<noteq> None \<longrightarrow> bt_get out p \<noteq> None"
    using IH keep(2) by simp_all
  then show ?case
    using sc src by (intro conjI)
qed simp

lemma sorted_wrt_map_of_filter:
  assumes "distinct (map fst es)" "map_of es p = Some e" "P p e"
  shows "map_of (filter (\<lambda>(q, e). P q e) es) p = Some e"
  using assms by (induction es) (auto split: if_splits)

text \<open>C20: A scan never turns content the sink still holds into a deletion: when every chunk
  of a file of the previous manifest was confirmed present and the file is missing from the
  next one, the scan neither found it nor reported a prefix at or above it as unreadable,
  whatever uploads failed.\<close>

theorem scan_never_drops_content:
  assumes "scan_build_manifest started_at workspace loaded (Inr out) strict has_many upload s = (Inr b, s')"
    "manifest_wf (sb_old b)" "entry_at (sb_old b) p = Some e"
    "has_many (wanted_chunks (sb_old b)) s = (Inr answers, s1)"
    "set (fe_chunks e) \<subseteq> present_of (wanted_chunks (sb_old b)) answers"
    "entry_at (sb_new b) p = None"
  shows "p \<notin> sf_rel_path ` set (so_files out)
    \<and> \<not> under_any (so_unreadable out @ so_unreadable_ignored out) p"
proof -
  let ?present = "present_of (wanted_chunks (sb_old b)) answers"
  obtain r files where r: "build_files strict (sb_old b) ?present upload (so_files out) [] s1 = (r, s')" "r = Inr files"
    "mf_files (sb_new b) = retain_unreadable ?present (so_unreadable out @ so_unreadable_ignored out) (mf_files (sb_old b)) files"
    using scan_build_files [OF assms(1)] unfolding assms(4) by auto
  have present: "chunks_present ?present e"
    using assms(5) by (auto simp: chunks_present_def list_all_iff)
  note got = build_files_get [OF r(1,2) bt_wf_Nil]
  have none: "bt_get files p = None"
    "map_of (filter (\<lambda>(q, e). under_any (so_unreadable out @ so_unreadable_ignored out) q \<and> chunks_present ?present e)
       (mf_files (sb_old b))) p = None"
    using assms(6) unfolding r(3) retain_get by (auto split: option.splits)
  have "p \<notin> sf_rel_path ` set (so_files out)"
    using got none(1) assms(3) present by blast
  moreover have "\<not> under_any (so_unreadable out @ so_unreadable_ignored out) p"
    using sorted_wrt_map_of_filter [of "mf_files (sb_old b)" p e] none(2) assms(2,3) present
    by (auto simp: manifest_wf_def bt_wf_distinct)
  ultimately show ?thesis
    by blast
qed

text \<open>A strict capture is complete or fails: when it succeeds nothing was skipped or
  unreadable, every scanned file is in the manifest with the size, permission bits and time
  it was scanned with, and every other entry is an old one below an unreadable ignored
  prefix.\<close>

theorem strict_capture_complete:
  assumes "scan_build_manifest started_at workspace loaded (Inr out) True has_many upload s = (Inr b, s')"
    "distinct (map sf_rel_path (so_files out))"
  shows "so_unreadable out = [] \<and> so_skipped out = []
    \<and> (\<forall>f\<in>set (so_files out). \<exists>cs. entry_at (sb_new b) (sf_rel_path f) = Some (entry_of f cs))
    \<and> (\<forall>p e. entry_at (sb_new b) p = Some e \<longrightarrow> p \<notin> sf_rel_path ` set (so_files out)
         \<longrightarrow> under_any (so_unreadable_ignored out) p \<and> (p, e) \<in> set (mf_files (sb_old b)))"
proof -
  obtain answers s1 r files where r:
    "build_files True (sb_old b) (present_of (wanted_chunks (sb_old b)) answers) upload (so_files out) [] s1 = (r, s')"
    "r = Inr files"
    "mf_files (sb_new b) = retain_unreadable (present_of (wanted_chunks (sb_old b)) answers)
         (so_unreadable out @ so_unreadable_ignored out) (mf_files (sb_old b)) files"
    "so_unreadable out = [] \<and> so_skipped out = []"
    using scan_build_files [OF assms(1)] by blast
  let ?present = "present_of (wanted_chunks (sb_old b)) answers"
  note got = build_files_get [OF r(1,2) bt_wf_Nil]
  have new: "entry_at (sb_new b) p = (case bt_get files p of Some e \<Rightarrow> Some e
      | None \<Rightarrow> map_of (filter (\<lambda>(q, e). under_any (so_unreadable_ignored out) q \<and> chunks_present ?present e)
          (mf_files (sb_old b))) p)" for p
    using r(4) by (simp add: r(3) retain_get)
  have files: "\<exists>f\<in>set (so_files out). p = sf_rel_path f \<and> scanned_as f e"
    if "bt_get files p = Some e" for p e
    using got that by auto
  have "\<exists>cs. entry_at (sb_new b) (sf_rel_path f) = Some (entry_of f cs)" if f: "f \<in> set (so_files out)" for f
  proof -
    obtain e where e: "bt_get files (sf_rel_path f) = Some e"
      using got f by blast
    then obtain g where "g \<in> set (so_files out)" "sf_rel_path f = sf_rel_path g" "scanned_as g e"
      using files by blast
    moreover from this have "g = f"
      using assms(2) f by (auto simp: distinct_map inj_on_def)
    ultimately show ?thesis
      using e new by (auto simp: scanned_as_def)
  qed
  moreover have "under_any (so_unreadable_ignored out) p \<and> (p, e) \<in> set (mf_files (sb_old b))"
    if p: "entry_at (sb_new b) p = Some e" "p \<notin> sf_rel_path ` set (so_files out)" for p e
  proof -
    have "bt_get files p = None"
      using files p(2) by (cases "bt_get files p") auto
    then show ?thesis
      using p(1) new map_of_SomeD by fastforce
  qed
  ultimately show ?thesis
    using r(4) by blast
qed

lemma built_manifest_wf:
  assumes "scan_build_manifest started_at workspace loaded scanned strict has_many upload s = (Inr b, s')"
  shows "manifest_wf (sb_new b)"
proof -
  obtain out where out: "scanned = Inr out"
    using assms by (auto simp: scan_build_manifest_def Let_def split: sum.splits if_splits)
  obtain answers s1 r files where r:
    "build_files strict (sb_old b) (present_of (wanted_chunks (sb_old b)) answers) upload (so_files out) [] s1 = (r, s')"
    "r = Inr files"
    "mf_files (sb_new b) = retain_unreadable (present_of (wanted_chunks (sb_old b)) answers)
         (so_unreadable out @ so_unreadable_ignored out) (mf_files (sb_old b)) files"
    using scan_build_files [OF assms [unfolded out]] by blast
  then show ?thesis
    using build_files_get [OF r(1,2) bt_wf_Nil] retain_wf by (auto simp: manifest_wf_def)
qed

text \<open>Once the buffer is flushed, the relay can serve every chunk the manifest names, and its
  presence check passes.\<close>

lemma flushed_present:
  assumes "digest_law (re_hash E)" "cut_law cutter" "prims_ok P" "untorn (re_hash E) (rl_store rl)"
    "scan_build_manifest started_at workspace loaded scanned strict (sink_has_many (relay_has p ws))
       (pipeline_upload P (re_hash E) pl (relay_has p ws) (relay_put E why sync_ok disk_ok p ws) cutter)
       (uploader_new, rl) = (Inr b, u1, rl1)"
    "up_flush (relay_has p ws) (relay_put E why sync_ok disk_ok p ws) u1 rl1 = (Inr (), u2, rl2)"
  shows "untorn (re_hash E) (rl_store rl2)"
    "\<forall>h\<in>set (manifest_chunks (sb_new b)). is_chunk_hash h \<and> available rl2 p h"
    "require_present rl2 p (manifest_chunks (sb_new b)) = Inr ()"
proof -
  let ?there = "\<lambda>rl h. available rl p h" and ?sound = "\<lambda>rl. untorn (re_hash E) (rl_store rl)"
  have start: "writer_inv E p (uploader_new, rl)"
    using assms(4) uploader_new_ok by (simp add: writer_inv_def up_good_def) (simp add: uploader_new_def)
  have built: "writer_inv E p (u1, rl1)" "relay_writer.all_promised p (u1, rl1) (mf_files (sb_new b))"
    using relay_writer.scan_build_promised [OF assms(5)] assms(1,2,3) start by blast+
  then have good: "up_good ?there ?sound wire_entry u1 rl1"
    by (simp add: writer_inv_def)
  note fl = relay_sink.flush_good [OF good assms(6)]
  then show untorn: "untorn (re_hash E) (rl_store rl2)"
    by (simp add: up_good_def)
  have "available rl2 p h" if "writer_promised p (u1, rl1) h" for h
    using that fl relay_sink.flushed_there [OF good assms(6)] by (auto simp: writer_promised_def)
  then have avail: "available rl2 p h" if "bt_get (mf_files (sb_new b)) q = Some e" "h \<in> set (fe_chunks e)" for q e h
    using built(2) that unfolding relay_writer.all_promised_def by blast
  have "is_chunk_hash h" if a: "available rl2 p h" for h
  proof -
    obtain d where "store_lookup (re_hash E) (rl_store rl2) h = Some d"
      using a has_store_lookup [OF untorn] by (auto simp: available_def)
    then show ?thesis
      using local_store.lookup_verified assms(1) by (metis digest_law_def)
  qed
  moreover have "\<exists>q e. bt_get (mf_files (sb_new b)) q = Some e \<and> h \<in> set (fe_chunks e)"
    if "h \<in> set (manifest_chunks (sb_new b))" for h
    using that bt_get_in_set built_manifest_wf [OF assms(5)]
    by (fastforce simp: manifest_chunks_def manifest_wf_def)
  ultimately show all: "\<forall>h\<in>set (manifest_chunks (sb_new b)). is_chunk_hash h \<and> available rl2 p h"
    using avail by blast
  then show "require_present rl2 p (manifest_chunks (sb_new b)) = Inr ()"
    using require_present_ok by blast
qed

section \<open>Examples\<close>

text \<open>A workspace of one settled file, scanned with a sink that has everything: once the file
  is gone, and once more while its directory cannot be read.\<close>

definition everything :: "string list \<Rightarrow> unit \<Rightarrow> (unit, bool list) result \<times> unit" where
  "everything hs s = (Inr (map (\<lambda>_. True) hs), s)"

definition no_upload :: "string \<Rightarrow> unit \<Rightarrow> (unit, string list) result \<times> unit" where
  "no_upload p s = (Inl (), s)"

definition empty_scan :: "scanned_file list \<Rightarrow> string list \<Rightarrow> scan_outcome" where
  "empty_scan fs unreadable = \<lparr>so_files = fs, so_unreadable = unreadable, so_unreadable_ignored = [],
     so_skipped = [], so_excluded = []\<rparr>"

lemma scan_never_drops_content_witness:
  "\<exists>b. scan_build_manifest 9 (Inr ''w'') (Inr (Some (sample_manifest [''d/f'']))) (Inr (empty_scan [] [''e'']))
      False everything no_upload () = (Inr b, ())
    \<and> entry_at (sb_new b) ''d/f'' = None \<and> \<not> under_any [''e''] ''d/f''"
proof -
  let ?b = "\<lparr>sb_old = sample_manifest [''d/f''], sb_new = \<lparr>mf_version = FORMAT_VERSION, mf_workspace_id = ''w'',
    mf_scanned_at_secs = 9, mf_files = []\<rparr>, sb_excluded = []\<rparr>"
  have b: "scan_build_manifest 9 (Inr ''w'') (Inr (Some (sample_manifest [''d/f'']))) (Inr (empty_scan [] [''e'']))
      False everything no_upload () = (Inr ?b, ())"
    by (simp add: scan_build_manifest_def empty_scan_def everything_def under_any_def sample_manifest_def
        bt_contains_def)
  have h: "everything (wanted_chunks (sb_old ?b)) () = (Inr (map (\<lambda>_. True) (wanted_chunks (sb_old ?b))), ())"
    by (simp add: everything_def)
  have e: "entry_at (sb_old ?b) ''d/f'' = Some (sample_entry 1)" "manifest_wf (sb_old ?b)"
    by (simp_all add: sample_manifest_def manifest_wf_def bt_wf_def)
  have p: "set (fe_chunks (sample_entry 1)) \<subseteq>
      present_of (wanted_chunks (sb_old ?b)) (map (\<lambda>_. True) (wanted_chunks (sb_old ?b)))"
    by (simp add: present_of_def wanted_chunks_def sample_manifest_def sample_entry_def)
  have "entry_at (sb_new ?b) ''d/f'' = None"
    by simp
  then show ?thesis
    using scan_never_drops_content [OF b e(2,1) h p] b by (auto simp: empty_scan_def)
qed

definition settled_file :: scanned_file where
  "settled_file = \<lparr>sf_rel_path = ''d/f'', sf_size = 1, sf_mode = 493, sf_mtime_secs = 1, sf_mtime_nanos = 0\<rparr>"

lemma strict_capture_complete_witness:
  "\<exists>b cs. scan_build_manifest 9 (Inr ''w'') (Inr (Some ((sample_manifest [''d/f''])\<lparr>mf_scanned_at_secs := 5\<rparr>)))
      (Inr (empty_scan [settled_file] [])) True everything no_upload () = (Inr b, ())
    \<and> entry_at (sb_new b) ''d/f'' = Some (entry_of settled_file cs)"
proof -
  let ?r = "scan_build_manifest 9 (Inr ''w'') (Inr (Some ((sample_manifest [''d/f''])\<lparr>mf_scanned_at_secs := 5\<rparr>)))
      (Inr (empty_scan [settled_file] [])) True everything no_upload ()"
  have "is_ok (fst ?r)"
    by code_simp
  then have "\<exists>b. ?r = (Inr b, ())"
    by (cases ?r) (auto simp: is_ok_def split: sum.splits)
  then obtain b where b: "?r = (Inr b, ())"
    by blast
  have "distinct (map sf_rel_path (so_files (empty_scan [settled_file] [])))"
    by (simp add: empty_scan_def)
  then show ?thesis
    using strict_capture_complete [OF b] b by (auto simp: empty_scan_def settled_file_def)
qed

end
