(* ===== verification/Client_Calls.thy ===== *)
theory Client_Calls
imports Relay_Client Encoding Decimal
begin

text \<open>
  The remaining calls of \<open>core/src/relay.rs\<close>: the client's addresses and requests, and how
  each call turns a reply into a value or a \<open>RelayError\<close>.  One HTTP exchange is the
  parameter \<open>send\<close>; a reply is its status with the body the call wants, when it parses
  within the size cap.  Timeouts, TLS roots and message texts are not modelled.
\<close>

section \<open>Addresses\<close>

definition upper_hex :: "nat \<Rightarrow> char" where
  "upper_hex d = (if d < 10 then char_of (48 + d) else char_of (55 + d))"

definition is_unreserved :: "char \<Rightarrow> bool" where
  "is_unreserved c =
     (let b = byte_of c in
      (65 \<le> b \<and> b \<le> 90) \<or> (97 \<le> b \<and> b \<le> 122) \<or> (48 \<le> b \<and> b \<le> 57)
      \<or> c \<in> {CHR ''-'', CHR ''.'', CHR ''_'', CHR 0x7E})"

fun encode_segment :: "string \<Rightarrow> string" where
  "encode_segment [] = []"
| "encode_segment (b # s) =
     (if is_unreserved b then [b]
      else [CHR 0x25, upper_hex (byte_of b div 16), upper_hex (byte_of b mod 16)]) @ encode_segment s"

record client =
  c_base :: string
  c_auth :: string
  c_workspace :: string
  c_device :: string
  c_env_forbidden :: "string option"

definition trim_end_matches :: "char \<Rightarrow> string \<Rightarrow> string" where
  "trim_end_matches c s = rev (dropWhile (\<lambda>x. x = c) (rev s))"

definition client_new :: "string \<Rightarrow> string \<Rightarrow> string \<Rightarrow> string \<Rightarrow> client" where
  "client_new base_url token workspace_id device_id =
     \<lparr>c_base = trim_end_matches CHR ''/'' base_url, c_auth = ''Bearer '' @ token,
      c_workspace = workspace_id, c_device = device_id, c_env_forbidden = None\<rparr>"

definition set_env_sync_policy :: "string option \<Rightarrow> client \<Rightarrow> client" where
  "set_env_sync_policy forbidden_by c = c\<lparr>c_env_forbidden := forbidden_by\<rparr>"

definition client_url :: "client \<Rightarrow> string \<Rightarrow> string" where
  "client_url c path = c_base c @ ''/v1/workspaces/'' @ encode_segment (c_workspace c) @ path"

definition user_key_url :: "client \<Rightarrow> string \<Rightarrow> string" where
  "user_key_url c name = c_base c @ ''/v1/users/'' @ encode_segment name @ ''/key''"

definition team_url :: "client \<Rightarrow> string \<Rightarrow> string \<Rightarrow> string" where
  "team_url c team_id path = c_base c @ ''/v1/teams/'' @ encode_segment team_id @ path"

definition ws_url :: "client \<Rightarrow> string option" where
  "ws_url c =
     (case strip_prefix (c_base c) ''http://'' of
        Some rest \<Rightarrow> Some (''ws://'' @ rest @ ''/v1/ws?workspace='' @ encode_segment (c_workspace c))
      | None \<Rightarrow>
          map_option (\<lambda>rest. ''wss://'' @ rest @ ''/v1/ws?workspace='' @ encode_segment (c_workspace c))
            (strip_prefix (c_base c) ''https://''))"

section \<open>One exchange\<close>

datatype http_method = GET | PUT | POST | DELETE

record 'q request =
  rq_method :: http_method
  rq_url :: string
  rq_auth :: string
  rq_device :: "string option"
  rq_body :: "'q option"

datatype 'b reply = NoReply | Reply nat "'b option"

definition to_relay :: "client \<Rightarrow> http_method \<Rightarrow> string \<Rightarrow> 'q option \<Rightarrow> 'q request" where
  "to_relay c m url body =
     \<lparr>rq_method = m, rq_url = url, rq_auth = c_auth c, rq_device = None, rq_body = body\<rparr>"

definition exchange ::
  "('q request \<Rightarrow> 's \<Rightarrow> 'b reply \<times> 's) \<Rightarrow> 'q request \<Rightarrow> ('b reply \<Rightarrow> (relay_error, 'a) result) \<Rightarrow> 's
     \<Rightarrow> (relay_error, 'a) result \<times> 's" where
  "exchange send rq answer s = (case send rq s of (r, s) \<Rightarrow> (answer r, s))"

text \<open>The body of a successful reply (\<open>read_json\<close>), the typed 404, and any other status.\<close>

definition json_answer :: "nat \<Rightarrow> bool \<Rightarrow> ('b \<Rightarrow> 'a) \<Rightarrow> 'b reply \<Rightarrow> (relay_error, 'a) result" where
  "json_answer good typed_404 f r =
     (case r of
        NoReply \<Rightarrow> Inl RTransport
      | Reply st body \<Rightarrow>
          if st = good then (case body of None \<Rightarrow> Inl RTransport | Some b \<Rightarrow> Inr (f b))
          else if typed_404 \<and> st = 404 then Inl RNotFound
          else Inl (RHttp st))"

text \<open>The same for a call whose success carries nothing.\<close>

definition unit_answer :: "nat \<Rightarrow> bool \<Rightarrow> 'b reply \<Rightarrow> (relay_error, unit) result" where
  "unit_answer good typed_404 r =
     (case r of
        NoReply \<Rightarrow> Inl RTransport
      | Reply st body \<Rightarrow>
          if st = good then Inr ()
          else if typed_404 \<and> st = 404 then Inl RNotFound
          else Inl (RHttp st))"

section \<open>Workspaces and heads\<close>

record workspace_wire =
  ww_id :: string
  ww_name :: string
  ww_head_seq :: "int option"
  ww_head_hash :: "string option"
  ww_team_id :: "string option"
  ww_e2e :: bool

record workspace_info =
  wi_id :: string
  wi_name :: string
  wi_head_seq :: int
  wi_head_hash :: "string option"
  wi_team_id :: "string option"
  wi_e2e :: bool

definition workspace_info_of :: "workspace_wire \<Rightarrow> workspace_info" where
  "workspace_info_of w =
     \<lparr>wi_id = ww_id w, wi_name = ww_name w,
      wi_head_seq = (case ww_head_seq w of Some n \<Rightarrow> n | None \<Rightarrow> 0),
      wi_head_hash = ww_head_hash w, wi_team_id = ww_team_id w, wi_e2e = ww_e2e w\<rparr>"

record workspace_create =
  wc_id :: string
  wc_name :: string
  wc_team_id :: "string option"
  wc_e2e :: bool

text \<open>A 409 is success only when it is the id conflict of a re-registration; the reply body
  wanted here is the conflict's \<open>kind\<close>.\<close>

definition create_workspace_answer :: "string reply \<Rightarrow> (relay_error, unit) result" where
  "create_workspace_answer r =
     (case r of
        NoReply \<Rightarrow> Inl RTransport
      | Reply st kind \<Rightarrow>
          if st = 201 then Inr ()
          else if st = 409 then (if kind = Some ''id_conflict'' then Inr () else Inl (RHttp 409))
          else Inl (RHttp st))"

definition call_create_workspace ::
  "client \<Rightarrow> (workspace_create request \<Rightarrow> 's \<Rightarrow> string reply \<times> 's) \<Rightarrow> string \<Rightarrow> string option \<Rightarrow> bool \<Rightarrow> 's
     \<Rightarrow> (relay_error, unit) result \<times> 's" where
  "call_create_workspace c send name team_id e2e =
     exchange send (to_relay c POST (c_base c @ ''/v1/workspaces'')
         (Some \<lparr>wc_id = c_workspace c, wc_name = name, wc_team_id = team_id, wc_e2e = e2e\<rparr>))
       create_workspace_answer"

definition call_get_workspace ::
  "client \<Rightarrow> (unit request \<Rightarrow> 's \<Rightarrow> workspace_wire reply \<times> 's) \<Rightarrow> 's \<Rightarrow> (relay_error, workspace_info) result \<times> 's" where
  "call_get_workspace c send =
     exchange send (to_relay c GET (client_url c []) None) (json_answer 200 True workspace_info_of)"

definition call_resolve_workspace ::
  "client \<Rightarrow> (unit request \<Rightarrow> 's \<Rightarrow> workspace_wire reply \<times> 's) \<Rightarrow> string \<Rightarrow> string \<Rightarrow> 's
     \<Rightarrow> (relay_error, workspace_info) result \<times> 's" where
  "call_resolve_workspace c send team name =
     exchange send (to_relay c GET (team_url c team (''/workspaces/'' @ encode_segment name)) None)
       (json_answer 200 True workspace_info_of)"

record head_info =
  hi_seq :: int
  hi_hash :: string
  hi_manifest :: manifest
  hi_manifest_enc :: "string option"
  hi_e2e :: bool

record head_body =
  hb_seq :: int
  hb_hash :: string
  hb_e2e :: bool
  hb_manifest :: "manifest option"
  hb_manifest_enc :: "string option"

text \<open>A head must carry the manifest of its flavour; an encrypted one leaves an empty
  placeholder in the other field.\<close>

definition head_of_body :: "string \<Rightarrow> head_body \<Rightarrow> (relay_error, head_info) result" where
  "head_of_body ws b =
     (if hb_e2e b then
        (case hb_manifest_enc b of
           Some enc \<Rightarrow> Inr \<lparr>hi_seq = hb_seq b, hi_hash = hb_hash b, hi_manifest = manifest_new ws,
                           hi_manifest_enc = Some enc, hi_e2e = True\<rparr>
         | None \<Rightarrow> Inl RTransport)
      else
        (case hb_manifest b of
           Some m \<Rightarrow> Inr \<lparr>hi_seq = hb_seq b, hi_hash = hb_hash b, hi_manifest = m,
                         hi_manifest_enc = None, hi_e2e = False\<rparr>
         | None \<Rightarrow> Inl RTransport))"

definition get_head_answer :: "string \<Rightarrow> head_body reply \<Rightarrow> (relay_error, head_info option) result" where
  "get_head_answer ws r =
     (case r of
        NoReply \<Rightarrow> Inl RTransport
      | Reply st body \<Rightarrow>
          if st = 200 then
            (case body of None \<Rightarrow> Inl RTransport | Some b \<Rightarrow> rbind (head_of_body ws b) (\<lambda>h. Inr (Some h)))
          else if st = 404 then Inr None
          else Inl (RHttp st))"

definition call_get_head ::
  "client \<Rightarrow> (unit request \<Rightarrow> 's \<Rightarrow> head_body reply \<times> 's) \<Rightarrow> 's \<Rightarrow> (relay_error, head_info option) result \<times> 's" where
  "call_get_head c send =
     exchange send (to_relay c GET (client_url c ''/head'') None) (get_head_answer (c_workspace c))"

datatype head_put = PutPlain int manifest | PutE2e int string "string list"

datatype head_put_reply = HeadCommitted int string | HeadRefused string "int option"

definition send_head_answer :: "head_put_reply reply \<Rightarrow> (relay_error, int \<times> string) result" where
  "send_head_answer r =
     (case r of
        NoReply \<Rightarrow> Inl RTransport
      | Reply st body \<Rightarrow>
          if st = 200 then
            (case body of Some (HeadCommitted seq hash) \<Rightarrow> Inr (seq, hash) | _ \<Rightarrow> Inl RTransport)
          else if st = 409 then
            Inl (head_conflict (case body of Some (HeadRefused kind seq) \<Rightarrow> Some (kind, seq) | _ \<Rightarrow> None))
          else Inl (RHttp st))"

definition send_head ::
  "client \<Rightarrow> (head_put request \<Rightarrow> 's \<Rightarrow> head_put_reply reply \<times> 's) \<Rightarrow> head_put \<Rightarrow> 's
     \<Rightarrow> (relay_error, int \<times> string) result \<times> 's" where
  "send_head c send body =
     exchange send ((to_relay c PUT (client_url c ''/head'') (Some body))\<lparr>rq_device := Some (c_device c)\<rparr>)
       send_head_answer"

definition call_put_head where
  "call_put_head c send base_seq m = send_head c send (PutPlain base_seq m)"

definition call_put_head_e2e where
  "call_put_head_e2e c send base_seq manifest_enc hashes = send_head c send (PutE2e base_seq manifest_enc hashes)"

section \<open>Single chunks\<close>

definition call_put_chunk ::
  "client \<Rightarrow> (bytes request \<Rightarrow> 's \<Rightarrow> unit reply \<times> 's) \<Rightarrow> string \<Rightarrow> bytes \<Rightarrow> 's \<Rightarrow> (relay_error, unit) result \<times> 's" where
  "call_put_chunk c send hash data =
     exchange send (to_relay c PUT (client_url c (''/chunks/'' @ encode_segment hash)) (Some data)) (unit_answer 200 False)"

text \<open>The body is read raw up to the largest chunk.\<close>

definition call_get_chunk ::
  "client \<Rightarrow> (unit request \<Rightarrow> 's \<Rightarrow> bytes reply \<times> 's) \<Rightarrow> string \<Rightarrow> 's \<Rightarrow> (relay_error, bytes) result \<times> 's" where
  "call_get_chunk c send hash s =
     (case exchange send (to_relay c GET (client_url c (''/chunks/'' @ encode_segment hash)) None) (json_answer 200 True (\<lambda>b. b)) s of
        (Inl e, s) \<Rightarrow> (Inl e, s)
      | (Inr body, s) \<Rightarrow> (if MAX_CHUNK_SIZE < length body then Inl RTransport else Inr body, s))"

section \<open>Snapshots\<close>

record snapshot_info =
  si_id :: int
  si_name :: "string option"
  si_kind :: string
  si_device :: string
  si_created_at :: int

record snapshot =
  sn_info :: snapshot_info
  sn_manifest :: manifest
  sn_manifest_enc :: "string option"
  sn_e2e :: bool

record snapshot_body =
  sy_info :: snapshot_info
  sy_e2e :: bool
  sy_manifest :: "manifest option"
  sy_manifest_enc :: "string option"

record snapshot_create =
  sk_name :: "string option"
  sk_device :: string
  sk_manifest :: "manifest + string \<times> string list"     \<comment> \<open>plain, or \<open>manifest_enc\<close> with \<open>chunk_hashes\<close>\<close>

definition send_snapshot ::
  "client \<Rightarrow> (snapshot_create request \<Rightarrow> 's \<Rightarrow> (int \<times> int) reply \<times> 's) \<Rightarrow> string option \<Rightarrow> manifest + string \<times> string list
     \<Rightarrow> 's \<Rightarrow> (relay_error, int \<times> int) result \<times> 's" where
  "send_snapshot c send name m =
     exchange send (to_relay c POST (client_url c ''/snapshots'')
         (Some \<lparr>sk_name = name, sk_device = c_device c, sk_manifest = m\<rparr>))
       (json_answer 201 True (\<lambda>b. b))"

definition call_create_snapshot where
  "call_create_snapshot c send name m = send_snapshot c send name (Inl m)"

definition call_create_snapshot_e2e where
  "call_create_snapshot_e2e c send name manifest_enc hashes = send_snapshot c send name (Inr (manifest_enc, hashes))"

definition call_list_snapshots ::
  "client \<Rightarrow> (unit request \<Rightarrow> 's \<Rightarrow> snapshot_info list reply \<times> 's) \<Rightarrow> 's \<Rightarrow> (relay_error, snapshot_info list) result \<times> 's" where
  "call_list_snapshots c send =
     exchange send (to_relay c GET (client_url c ''/snapshots'') None) (json_answer 200 True (\<lambda>b. b))"

definition snapshot_of_body :: "string \<Rightarrow> snapshot_body \<Rightarrow> (relay_error, snapshot) result" where
  "snapshot_of_body ws b =
     (if sy_e2e b then
        (case sy_manifest_enc b of
           Some enc \<Rightarrow> Inr \<lparr>sn_info = sy_info b, sn_manifest = manifest_new ws, sn_manifest_enc = Some enc, sn_e2e = True\<rparr>
         | None \<Rightarrow> Inl RTransport)
      else
        (case sy_manifest b of
           Some m \<Rightarrow> Inr \<lparr>sn_info = sy_info b, sn_manifest = m, sn_manifest_enc = None, sn_e2e = False\<rparr>
         | None \<Rightarrow> Inl RTransport))"

definition call_get_snapshot ::
  "client \<Rightarrow> (unit request \<Rightarrow> 's \<Rightarrow> snapshot_body reply \<times> 's) \<Rightarrow> nat \<Rightarrow> 's \<Rightarrow> (relay_error, snapshot) result \<times> 's" where
  "call_get_snapshot c send i s =
     (case exchange send (to_relay c GET (client_url c (''/snapshots/'' @ nat_to_dec i)) None) (json_answer 200 True (\<lambda>b. b)) s of
        (Inl e, s) \<Rightarrow> (Inl e, s)
      | (Inr b, s) \<Rightarrow> (snapshot_of_body (c_workspace c) b, s))"

section \<open>Users, keys and teams\<close>

definition call_create_user ::
  "client \<Rightarrow> (string request \<Rightarrow> 's \<Rightarrow> (string \<times> string) reply \<times> 's) \<Rightarrow> string \<Rightarrow> 's \<Rightarrow> (relay_error, string \<times> string) result \<times> 's" where
  "call_create_user c send name =
     exchange send (to_relay c POST (c_base c @ ''/v1/users'') (Some name)) (json_answer 201 False (\<lambda>b. b))"

definition call_put_key_bundle ::
  "client \<Rightarrow> ((string \<times> string \<times> string) request \<Rightarrow> 's \<Rightarrow> unit reply \<times> 's)
     \<Rightarrow> string \<Rightarrow> string \<Rightarrow> string \<Rightarrow> string \<Rightarrow> 's \<Rightarrow> (relay_error, unit) result \<times> 's" where
  "call_put_key_bundle c send name x25519 ed25519 sig =
     exchange send (to_relay c PUT (user_key_url c name) (Some (x25519, ed25519, sig))) (unit_answer 200 False)"

record user_key_bundle =
  uk_pubkey :: "string option"
  uk_ed25519 :: "string option"
  uk_sig :: "string option"

definition call_get_key ::
  "client \<Rightarrow> (unit request \<Rightarrow> 's \<Rightarrow> user_key_bundle reply \<times> 's) \<Rightarrow> string \<Rightarrow> 's \<Rightarrow> (relay_error, user_key_bundle) result \<times> 's" where
  "call_get_key c send name =
     exchange send (to_relay c GET (user_key_url c name) None) (json_answer 200 True (\<lambda>b. b))"

definition call_put_wrapped_key ::
  "client \<Rightarrow> (string request \<Rightarrow> 's \<Rightarrow> unit reply \<times> 's) \<Rightarrow> string \<Rightarrow> string \<Rightarrow> 's \<Rightarrow> (relay_error, unit) result \<times> 's" where
  "call_put_wrapped_key c send user blob_hex =
     exchange send (to_relay c PUT (client_url c (''/keys/'' @ encode_segment user)) (Some blob_hex)) (unit_answer 200 True)"

definition call_get_my_wrapped_key ::
  "client \<Rightarrow> (unit request \<Rightarrow> 's \<Rightarrow> string reply \<times> 's) \<Rightarrow> 's \<Rightarrow> (relay_error, string) result \<times> 's" where
  "call_get_my_wrapped_key c send =
     exchange send (to_relay c GET (client_url c ''/keys/me'') None) (json_answer 200 True (\<lambda>b. b))"

definition call_delete_wrapped_key ::
  "client \<Rightarrow> (unit request \<Rightarrow> 's \<Rightarrow> unit reply \<times> 's) \<Rightarrow> string \<Rightarrow> 's \<Rightarrow> (relay_error, unit) result \<times> 's" where
  "call_delete_wrapped_key c send user =
     exchange send (to_relay c DELETE (client_url c (''/keys/'' @ encode_segment user)) None) (unit_answer 204 True)"

text \<open>A team as listed; a relay that does not serve \<open>sync_env\<close> enforces nothing.\<close>

record team_info =
  ti_id :: string
  ti_name :: string
  ti_sync_env :: bool

definition team_info_of :: "string \<times> string \<times> bool option \<Rightarrow> team_info" where
  "team_info_of b =
     (case b of (i, n, env) \<Rightarrow> \<lparr>ti_id = i, ti_name = n, ti_sync_env = (case env of Some e \<Rightarrow> e | None \<Rightarrow> True)\<rparr>)"

definition call_create_team ::
  "client \<Rightarrow> ((string \<times> bool option) request \<Rightarrow> 's \<Rightarrow> (string \<times> string \<times> bool option) reply \<times> 's) \<Rightarrow> string \<Rightarrow> bool option
     \<Rightarrow> 's \<Rightarrow> (relay_error, team_info) result \<times> 's" where
  "call_create_team c send name sync_env =
     exchange send (to_relay c POST (c_base c @ ''/v1/teams'') (Some (name, sync_env))) (json_answer 201 False team_info_of)"

definition call_set_team_policy ::
  "client \<Rightarrow> (bool request \<Rightarrow> 's \<Rightarrow> (string \<times> string \<times> bool option) reply \<times> 's) \<Rightarrow> string \<Rightarrow> bool
     \<Rightarrow> 's \<Rightarrow> (relay_error, team_info) result \<times> 's" where
  "call_set_team_policy c send team_id sync_env =
     exchange send (to_relay c PUT (team_url c team_id ''/policy'') (Some sync_env)) (json_answer 200 True team_info_of)"

definition call_list_teams ::
  "client \<Rightarrow> (unit request \<Rightarrow> 's \<Rightarrow> (string \<times> string \<times> bool option) list reply \<times> 's) \<Rightarrow> 's \<Rightarrow> (relay_error, team_info list) result \<times> 's" where
  "call_list_teams c send =
     exchange send (to_relay c GET (c_base c @ ''/v1/teams'') None) (json_answer 200 False (map team_info_of))"

definition call_team_add_member ::
  "client \<Rightarrow> ((string \<times> string) request \<Rightarrow> 's \<Rightarrow> unit reply \<times> 's) \<Rightarrow> string \<Rightarrow> string \<Rightarrow> string \<Rightarrow> 's \<Rightarrow> (relay_error, unit) result \<times> 's" where
  "call_team_add_member c send team_id user role =
     exchange send (to_relay c POST (team_url c team_id ''/members'') (Some (user, role))) (unit_answer 200 True)"

record client_member =
  cm_user :: string
  cm_role :: string
  cm_keys :: user_key_bundle

definition call_team_members ::
  "client \<Rightarrow> (unit request \<Rightarrow> 's \<Rightarrow> client_member list reply \<times> 's) \<Rightarrow> string \<Rightarrow> 's \<Rightarrow> (relay_error, client_member list) result \<times> 's" where
  "call_team_members c send team_id =
     exchange send (to_relay c GET (team_url c team_id ''/members'') None) (json_answer 200 True (\<lambda>b. b))"

definition call_team_remove_member ::
  "client \<Rightarrow> (unit request \<Rightarrow> 's \<Rightarrow> unit reply \<times> 's) \<Rightarrow> string \<Rightarrow> string \<Rightarrow> 's \<Rightarrow> (relay_error, unit) result \<times> 's" where
  "call_team_remove_member c send team_id user =
     exchange send (to_relay c DELETE (team_url c team_id (''/members/'' @ encode_segment user)) None) (unit_answer 204 True)"

definition call_attach_team ::
  "client \<Rightarrow> (string request \<Rightarrow> 's \<Rightarrow> unit reply \<times> 's) \<Rightarrow> string \<Rightarrow> 's \<Rightarrow> (relay_error, unit) result \<times> 's" where
  "call_attach_team c send team_id =
     exchange send (to_relay c POST (client_url c ''/team'') (Some team_id)) (unit_answer 200 True)"

section \<open>Requests address what they name\<close>

text \<open>The decoding of a URL segment, as the other side does it.\<close>

fun percent_decode :: "string \<Rightarrow> (unit, bytes) result" where
  "percent_decode [] = Inr []"
| "percent_decode (c # s) =
     (if c = CHR 0x25 then
        (case s of
           a # b # r \<Rightarrow>
             (case (hex_value a, hex_value b) of
                (Some x, Some y) \<Rightarrow> rbind (percent_decode r) (\<lambda>t. Inr (char_of (16 * x + y) # t))
              | _ \<Rightarrow> Inl ())
         | _ \<Rightarrow> Inl ())
      else rbind (percent_decode s) (\<lambda>t. Inr (c # t)))"

lemma upper_hex_facts:
  assumes "d < 16"
  shows "hex_value (upper_hex d) = Some d" "is_unreserved (upper_hex d)"
proof -
  have b: "byte_of (upper_hex d) = (if d < 10 then 48 + d else 55 + d)"
    using assms by (simp add: upper_hex_def)
  show "hex_value (upper_hex d) = Some d" "is_unreserved (upper_hex d)"
    using assms by (auto simp: hex_value_def is_unreserved_def b Let_def)
qed

lemma high_nibble: "byte_of b div 16 < (16 :: nat)"
  using byte_less [of b] by (simp add: less_mult_imp_div_less)

lemma percent_reserved [simp]: "\<not> is_unreserved (CHR 0x25)"
  by (simp add: is_unreserved_def)

interpretation segment: lossless_codec encode_segment percent_decode "\<lambda>_. True"
proof unfold_locales
  fix s :: string
  show "percent_decode (encode_segment s) = Inr s"
  proof (induction s)
    case (Cons b s)
    show ?case
    proof (cases "is_unreserved b")
      case True
      then show ?thesis
        using Cons percent_reserved by (cases "b = CHR 0x25") auto
    next
      case False
      have "16 * (byte_of b div 16) + byte_of b mod 16 = (byte_of b :: nat)"
        by (rule mult_div_mod_eq)
      moreover note high_nibble [of b]
      ultimately show ?thesis
        using False Cons upper_hex_facts(1) [of "byte_of b div 16"] upper_hex_facts(1) [of "byte_of b mod 16"] by simp
    qed
  qed simp
qed

lemma encode_segment_chars:
  "c \<in> set (encode_segment s) \<Longrightarrow> is_unreserved c \<or> c = CHR 0x25"
proof (induction s)
  case (Cons b s)
  show ?case
    using Cons high_nibble [of b] upper_hex_facts(2) [of "byte_of b div 16"] upper_hex_facts(2) [of "byte_of b mod 16"]
    by (auto split: if_splits)
qed simp

lemma encode_segment_no_slash: "CHR ''/'' \<notin> set (encode_segment s)"
  using encode_segment_chars [of "CHR ''/''" s] by (auto simp: is_unreserved_def)

lemma segments_unique:
  assumes "x @ CHR ''/'' # r = y @ CHR ''/'' # t" "CHR ''/'' \<notin> set x" "CHR ''/'' \<notin> set y"
  shows "x = y \<and> r = t"
proof -
  have "split_on CHR ''/'' (x @ CHR ''/'' # r) = x # split_on CHR ''/'' r"
    "split_on CHR ''/'' (y @ CHR ''/'' # t) = y # split_on CHR ''/'' t"
    using assms(2,3) by (simp_all add: split_on_append split_on_single)
  then show ?thesis
    using assms(1) split_on_inj by (metis list.inject same_append_eq)
qed

text \<open>A request addresses exactly the resource it names: whatever bytes a workspace id, a
  user name or a chunk hash holds, the percent-encoded segment decodes to it and holds no
  separator, query or fragment character, so two requests under one base share an address
  only when they name the same workspace and the same member.\<close>

theorem requests_address_one_resource:
  "percent_decode (encode_segment s) = Inr s
   \<and> set (encode_segment s) \<inter> {CHR ''/'', CHR ''?'', CHR 0x23, CHR 0x20} = {}
   \<and> (client_url c (''/keys/'' @ encode_segment u) = client_url (c\<lparr>c_workspace := w\<rparr>) (''/keys/'' @ encode_segment v)
        \<longleftrightarrow> w = c_workspace c \<and> v = u)"
proof -
  have "client_url c (''/keys/'' @ encode_segment u) = client_url (c\<lparr>c_workspace := w\<rparr>) (''/keys/'' @ encode_segment v)
      \<Longrightarrow> w = c_workspace c \<and> v = u"
  proof -
    assume "client_url c (''/keys/'' @ encode_segment u) = client_url (c\<lparr>c_workspace := w\<rparr>) (''/keys/'' @ encode_segment v)"
    then have "encode_segment (c_workspace c) @ CHR ''/'' # (''keys/'' @ encode_segment u)
        = encode_segment w @ CHR ''/'' # (''keys/'' @ encode_segment v)"
      by (simp add: client_url_def)
    then have "encode_segment (c_workspace c) = encode_segment w"
      "''keys/'' @ encode_segment u = ''keys/'' @ encode_segment v"
      using segments_unique [OF _ encode_segment_no_slash encode_segment_no_slash] by blast+
    then show "w = c_workspace c \<and> v = u"
      using segment.enc_inj by simp
  qed
  moreover have "set (encode_segment s) \<inter> {CHR ''/'', CHR ''?'', CHR 0x23, CHR 0x20} = {}"
    using encode_segment_chars [of _ s] by (fastforce simp: is_unreserved_def)
  ultimately show ?thesis
    using segment.dec_enc by auto
qed

end
