(* ===== verification/Push.thy ===== *)
theory Push
imports Scan_Build Client_Calls Keyring
begin

text \<open>
  The writer cycle of \<open>core/src/sync.rs\<close> (\<open>push_inner\<close>): scan, upload, flush, and commit
  with the compare-and-swap on \<open>base_seq\<close>, the recovery of a lost commit response, the
  local record of the head (\<open>remote.json\<close>), and the writer's base.  The relay's head calls
  are parameters; \<open>relay_put_head\<close> and \<open>relay_get_head\<close> are this relay's.  JSON, its
  fingerprint and the file writes are parameters.
\<close>

section \<open>Errors\<close>

datatype push_error = PushConflict int | PushForbidden | PushClient | PushOther "relay_error option"     \<comment> \<open>the relay error it wraps, if any\<close>

fun push_from_relay :: "relay_error \<Rightarrow> push_error" where
  "push_from_relay (RHeadConflict n) = PushConflict n"
| "push_from_relay RFatal = PushClient"
| "push_from_relay (RHttp st) =
     (if st = 403 then PushForbidden else if st \<in> {400, 401, 404} then PushClient else PushOther (Some (RHttp st)))"
| "push_from_relay RNotFound = PushOther (Some RNotFound)"
| "push_from_relay RTransport = PushOther (Some RTransport)"

fun push_from_relay_ref :: "relay_error \<Rightarrow> push_error option" where
  "push_from_relay_ref (RHeadConflict n) = Some (PushConflict n)"
| "push_from_relay_ref (RHttp st) =
     (if st = 403 then Some PushForbidden else if st \<in> {400, 401, 404} then Some PushClient else None)"
| "push_from_relay_ref RFatal = None"
| "push_from_relay_ref RNotFound = None"
| "push_from_relay_ref RTransport = None"

text \<open>\<open>push_from_anyhow\<close>: the relay error the chain of causes holds, if any.\<close>

definition push_from_anyhow :: "relay_error option \<Rightarrow> push_error" where
  "push_from_anyhow cause =
     (case Option.bind cause push_from_relay_ref of Some e \<Rightarrow> e | None \<Rightarrow> PushOther cause)"

fun upload_cause :: "relay_error upload_error \<Rightarrow> relay_error option" where
  "upload_cause (SinkFailed e) = Some e"
| "upload_cause (Misaligned a b) = None"
| "upload_cause (EntryFailed h why) = None"
| "upload_cause ChunkReadFailed = None"

fun build_cause :: "(relay_error, relay_error upload_error) build_error \<Rightarrow> relay_error option" where
  "build_cause (BuildPresence e) = Some e"
| "build_cause (BuildUpload e) = upload_cause e"
| "build_cause BuildWorkspace = None"
| "build_cause BuildLoad = None"
| "build_cause BuildScan = None"
| "build_cause BuildCannotCapture = None"

section \<open>What the device knows of the head\<close>

record remote_state =
  rs_seq :: int
  rs_hash :: string
  rs_fingerprint :: "string option"

text \<open>\<open>.pear/manifest.json\<close> as it loads and \<open>.pear/remote.json\<close>, absent when unreadable.\<close>

record device =
  dv_manifest :: "(load_error, manifest option) result"
  dv_remote :: "remote_state option"

definition last_applied_seq :: "device \<Rightarrow> int option" where
  "last_applied_seq d = map_option rs_seq (dv_remote d)"

text \<open>The head a writer may resume from: only one this device knows by number and content,
  unless forced.\<close>

datatype base_error = BaseRelay relay_error | BaseUnknown "int option" int

definition writer_base_seq ::
  "('s \<Rightarrow> (relay_error, head_info option) result \<times> 's) \<Rightarrow> device \<Rightarrow> bool \<Rightarrow> 's \<Rightarrow> (base_error, int) result \<times> 's" where
  "writer_base_seq get d force s =
     (case get s of
        (Inl e, s) \<Rightarrow> (Inl (BaseRelay e), s)
      | (Inr head, s) \<Rightarrow>
          (let relay_seq = (case head of Some h \<Rightarrow> hi_seq h | None \<Rightarrow> 0);
               in_sync = (case (dv_remote d, head) of
                            (Some k, Some h) \<Rightarrow> rs_seq k = hi_seq h \<and> rs_hash k = hi_hash h
                          | (None, None) \<Rightarrow> True
                          | _ \<Rightarrow> False)
           in (if force \<or> in_sync then Inr relay_seq
               else Inl (BaseUnknown (map_option rs_seq (dv_remote d)) relay_seq), s)))"

section \<open>The cycle\<close>

record push_codec =
  pc_prims :: prims
  pc_to_vec :: "manifest \<Rightarrow> bytes"
  pc_from_slice :: "bytes \<Rightarrow> manifest option"
  pc_nonce :: bytes
  pc_fingerprint :: "(string, file_entry) btree \<Rightarrow> string"

definition same_tree :: "manifest \<Rightarrow> manifest \<Rightarrow> bool" where
  "same_tree a b \<longleftrightarrow> mf_workspace_id a = mf_workspace_id b \<and> mf_files a = mf_files b"

definition head_matches :: "push_codec \<Rightarrow> keyring option \<Rightarrow> head_info \<Rightarrow> manifest \<Rightarrow> bool" where
  "head_matches pc ring head new =
     (case ring of
        None \<Rightarrow> same_tree (hi_manifest head) new
      | Some r \<Rightarrow>
          (case hi_manifest_enc head of
             None \<Rightarrow> False
           | Some enc \<Rightarrow>
               (case decrypt_manifest (pc_prims pc) (pc_from_slice pc) r enc of
                  Inl _ \<Rightarrow> False
                | Inr m \<Rightarrow> same_tree m new)))"

definition head_request :: "push_codec \<Rightarrow> keyring option \<Rightarrow> int \<Rightarrow> manifest \<Rightarrow> head_put" where
  "head_request pc ring base_seq new =
     (case ring of
        None \<Rightarrow> PutPlain base_seq new
      | Some r \<Rightarrow> PutE2e base_seq (encrypt_manifest (pc_prims pc) (pc_to_vec pc) (pc_nonce pc) r new)
                    (manifest_chunk_hashes new))"

text \<open>The commit: a conflict that is exactly one ahead may be our own commit whose response
  was lost.\<close>

definition commit_head ::
  "push_codec \<Rightarrow> keyring option \<Rightarrow> (head_put \<Rightarrow> 's \<Rightarrow> (relay_error, int \<times> string) result \<times> 's)
     \<Rightarrow> ('s \<Rightarrow> (relay_error, head_info option) result \<times> 's) \<Rightarrow> int \<Rightarrow> manifest \<Rightarrow> 's
     \<Rightarrow> (push_error, int \<times> string) result \<times> 's" where
  "commit_head pc ring put get base_seq new s =
     (case put (head_request pc ring base_seq new) s of
        (Inr commit, s) \<Rightarrow> (Inr commit, s)
      | (Inl (RHeadConflict current), s) \<Rightarrow>
          if current = base_seq + 1 then
            (case get s of
               (Inl e, s) \<Rightarrow> (Inl (push_from_relay e), s)
             | (Inr head, s) \<Rightarrow>
                 (case head of
                    Some h \<Rightarrow>
                      if hi_seq h = current \<and> head_matches pc ring h new then (Inr (hi_seq h, hi_hash h), s)
                      else (Inl (PushConflict current), s)
                  | None \<Rightarrow> (Inl (PushConflict current), s)))
          else (Inl (PushConflict current), s)
      | (Inl e, s) \<Rightarrow> (Inl (push_from_relay e), s))"

record push_report =
  pr_diff :: manifest_diff
  pr_head_seq :: int
  pr_committed :: bool

text \<open>Whether this cycle commits: forced, headless, changed since the scan cache, or changed
  since the last committed tree.\<close>

definition must_commit :: "push_codec \<Rightarrow> device \<Rightarrow> bool \<Rightarrow> int \<Rightarrow> scan_built \<Rightarrow> bool" where
  "must_commit pc d force base_seq b \<longleftrightarrow>
     force \<or> base_seq = 0 \<or> mf_files (sb_old b) \<noteq> mf_files (sb_new b)
     \<or> (case Option.bind (dv_remote d) rs_fingerprint of
          None \<Rightarrow> False
        | Some fp \<Rightarrow> fp \<noteq> pc_fingerprint pc (mf_files (sb_new b)))"

text \<open>The rest of the cycle once the scan is built, \<open>wrote_remote\<close> and \<open>wrote_manifest\<close>
  telling whether the two local writes succeed.\<close>

definition push_built ::
  "push_codec \<Rightarrow> client \<Rightarrow> keyring option \<Rightarrow> ('s \<Rightarrow> (relay_error upload_error, unit) result \<times> 's)
     \<Rightarrow> (head_put \<Rightarrow> 's \<Rightarrow> (relay_error, int \<times> string) result \<times> 's)
     \<Rightarrow> ('s \<Rightarrow> (relay_error, head_info option) result \<times> 's) \<Rightarrow> bool \<Rightarrow> bool \<Rightarrow> int \<Rightarrow> bool \<Rightarrow> scan_built \<Rightarrow> device \<Rightarrow> 's
     \<Rightarrow> (push_error, push_report) result \<times> device \<times> 's" where
  "push_built pc c ring flush put get wrote_remote wrote_manifest base_seq force b d s =
     (if mf_workspace_id (sb_new b) \<noteq> c_workspace c then (Inl (PushOther None), d, s)
      else if c_env_forbidden c \<noteq> None \<and> filter is_dotenv (bt_keys (mf_files (sb_new b))) \<noteq> []
        then (Inl PushClient, d, s)
      else
        (case flush s of
           (Inl e, s) \<Rightarrow> (Inl (push_from_anyhow (upload_cause e)), d, s)
         | (Inr _, s) \<Rightarrow>
             (let finish = (\<lambda>head_seq committed d s.
                    if wrote_manifest
                    then (Inr \<lparr>pr_diff = diff (sb_old b) (sb_new b), pr_head_seq = head_seq, pr_committed = committed\<rparr>,
                          d\<lparr>dv_manifest := Inr (Some (sb_new b))\<rparr>, s)
                    else (Inl (PushOther None), d, s))
              in if must_commit pc d force base_seq b then
                   (case commit_head pc ring put get base_seq (sb_new b) s of
                      (Inl e, s) \<Rightarrow> (Inl e, d, s)
                    | (Inr (seq, hash), s) \<Rightarrow>
                        if wrote_remote
                        then finish seq True (d\<lparr>dv_remote := Some \<lparr>rs_seq = seq, rs_hash = hash,
                               rs_fingerprint = Some (pc_fingerprint pc (mf_files (sb_new b)))\<rparr>\<rparr>) s
                        else (Inl (PushOther None), d, s))
                 else finish base_seq False d s)))"

definition push_inner ::
  "push_codec \<Rightarrow> client \<Rightarrow> keyring option \<Rightarrow> bool \<Rightarrow> int \<Rightarrow> (workspace_error, string) result \<Rightarrow> (scan_error, scan_outcome) result
     \<Rightarrow> (string list \<Rightarrow> 's \<Rightarrow> (relay_error, bool list) result \<times> 's)
     \<Rightarrow> (string \<Rightarrow> 's \<Rightarrow> (relay_error upload_error, string list) result \<times> 's)
     \<Rightarrow> ('s \<Rightarrow> (relay_error upload_error, unit) result \<times> 's)
     \<Rightarrow> (head_put \<Rightarrow> 's \<Rightarrow> (relay_error, int \<times> string) result \<times> 's)
     \<Rightarrow> ('s \<Rightarrow> (relay_error, head_info option) result \<times> 's) \<Rightarrow> bool \<Rightarrow> bool \<Rightarrow> int \<Rightarrow> bool \<Rightarrow> device \<Rightarrow> 's
     \<Rightarrow> (push_error, push_report) result \<times> device \<times> 's" where
  "push_inner pc c ring is_dir started_at workspace scanned has_many upload flush put get wrote_remote wrote_manifest
       base_seq force d s =
     (if \<not> is_dir then (Inl (PushOther None), d, s)
      else
        (case scan_build_manifest started_at workspace (dv_manifest d) scanned False has_many upload s of
           (Inl e, s) \<Rightarrow> (Inl (push_from_anyhow (build_cause e)), d, s)
         | (Inr b, s) \<Rightarrow> push_built pc c ring flush put get wrote_remote wrote_manifest base_seq force b d s))"

section \<open>The head calls of this relay\<close>

fun relay_head_error :: "api_error \<Rightarrow> relay_error" where
  "relay_head_error (Conflict (CurrentSeq n)) = head_conflict (Some ('''', Some n))"
| "relay_head_error (Conflict E2eMismatch) = head_conflict (Some (''e2e_mismatch'', None))"
| "relay_head_error (Conflict (SyncEnvForbidden path)) = head_conflict (Some (''sync_env'', None))"
| "relay_head_error e = http_error e"

text \<open>\<open>J\<close> serializes the manifest of a plain commit.\<close>

fun commit_body_of :: "(manifest \<Rightarrow> string) \<Rightarrow> head_put \<Rightarrow> int \<times> commit_body" where
  "commit_body_of J (PutPlain base m) =
     (base, \<lparr>cb_manifest = Some (J m), cb_manifest_enc = None, cb_chunk_hashes = None\<rparr>)"
| "commit_body_of J (PutE2e base enc hashes) =
     (base, \<lparr>cb_manifest = None, cb_manifest_enc = Some enc, cb_chunk_hashes = Some hashes\<rparr>)"

definition relay_put_head ::
  "relay_env \<Rightarrow> (manifest \<Rightarrow> string) \<Rightarrow> (string \<Rightarrow> bool) \<Rightarrow> bool \<Rightarrow> principal \<Rightarrow> string \<Rightarrow> string \<Rightarrow> head_put \<Rightarrow> relay
     \<Rightarrow> (relay_error, int \<times> string) result \<times> relay" where
  "relay_put_head E J sync_ok fault p ws dev req rl =
     (case commit_body_of J req of (base, body) \<Rightarrow>
        (case put_head E sync_ok fault p ws (Some dev) base body rl of
           (Inl e, rl) \<Rightarrow> (Inl (relay_head_error e), rl)
         | (Inr commit, rl) \<Rightarrow> (Inr commit, rl)))"

definition relay_get_head ::
  "relay_env \<Rightarrow> principal \<Rightarrow> string \<Rightarrow> relay \<Rightarrow> (relay_error, head_info option) result \<times> relay" where
  "relay_get_head E p ws rl =
     (case get_head E p ws rl of
        Inl e \<Rightarrow> (if status e = 404 then Inr None else Inl (http_error e), rl)
      | Inr (seq, hash, Plain raw) \<Rightarrow>
          (rbind (head_of_body ws \<lparr>hb_seq = seq, hb_hash = hash, hb_e2e = False, hb_manifest = re_manifest E raw,
                                   hb_manifest_enc = None\<rparr>) (\<lambda>h. Inr (Some h)), rl)
      | Inr (seq, hash, Encrypted enc) \<Rightarrow>
          (rbind (head_of_body ws \<lparr>hb_seq = seq, hb_hash = hash, hb_e2e = True, hb_manifest = None,
                                   hb_manifest_enc = Some enc\<rparr>) (\<lambda>h. Inr (Some h)), rl))"

definition lift_sink :: "('s \<Rightarrow> 'r \<times> 's) \<Rightarrow> 'u \<times> 's \<Rightarrow> 'r \<times> 'u \<times> 's" where
  "lift_sink f us = (case us of (u, s) \<Rightarrow> case f s of (r, s) \<Rightarrow> (r, u, s))"

lemma commit_keeps_available:
  assumes "put_head E sync_ok fault p ws device base req rl = (Inr c, rl')" "bt_wf (db_heads (rl_db rl))"
  shows "available rl q h \<Longrightarrow> available rl' q h"
    and "require_role (rl_db rl') w q least = require_role (rl_db rl) w q least"
    and "workspace_team_env_policy w (rl_db rl') = workspace_team_env_policy w (rl_db rl)"
proof -
  from assms(1) obtain stored refs where
    files: "st_files (rl_store rl') = st_files (rl_store rl)"
    and ins: "insert_head fault ws (base + 1) (re_hash E stored) stored refs (rl_db rl) = (Inr (), rl_db rl')"
    by (cases rule: put_head_cases) auto
  note ok = insert_head_ok [OF ins assms(2)]
  let ?db = "insert_chunk_refs ws refs (rl_db rl)"
  have tables: "db_workspaces (rl_db rl') = db_workspaces (rl_db rl)" "db_members (rl_db rl') = db_members (rl_db rl)"
    "db_teams (rl_db rl') = db_teams (rl_db rl)"
    by (subst ok(4), simp)+
  then show "require_role (rl_db rl') w q least = require_role (rl_db rl) w q least"
    using require_role_same_tables by blast
  show "workspace_team_env_policy w (rl_db rl') = workspace_team_env_policy w (rl_db rl)"
    unfolding workspace_team_env_policy_def tables ..
  have refs: "db_refs (rl_db rl') = db_refs ?db"
    unfolding ok(2) by (simp add: insert_chunk_refs_def)
  have "sees (rl_db rl') q h" if "sees (rl_db rl) q h"
  proof (cases q)
    case (User u)
    have "chunk_visible_to h u (rl_db rl') = chunk_visible_to h u ?db"
      unfolding chunk_visible_iff get_workspace_def member_role_def tables refs
      by (simp add: insert_chunk_refs_def)
    then show ?thesis
      using sees_mono [OF that] User by (simp add: sees_def)
  qed (simp add: sees_def)
  then show "available rl q h \<Longrightarrow> available rl' q h"
    using files by (auto simp: available_def store_has_def)
qed

text \<open>A plain manifest the relay accepts: what the commit checks come to.\<close>

lemma submitted_ok_iff:
  assumes "re_manifest E raw = Some m"
  shows "is_ok (validate_submitted_manifest E rl ws p raw) \<longleftrightarrow>
    is_ok (validate m) \<and> mf_workspace_id m = ws \<and> is_ok (check_env_policy (rl_db rl) ws m)
    \<and> (\<forall>h\<in>set (manifest_chunks m). is_chunk_hash h \<and> available rl p h)"
proof -
  have "is_ok (validate m) \<Longrightarrow> is_ok (check_all (check_ancestors m) (bt_keys (mf_files m)))"
    by (auto simp: validate_def is_ok_rbind)
  then show ?thesis
    using assms check_hashes_ok [of "manifest_chunks m"] require_present_ok [of "manifest_chunks m" rl p]
    by (auto simp: validate_submitted_manifest_def is_ok_rbind is_ok_def rbind_ok_iff split: sum.splits if_splits)
qed

lemma sync_dirs_all: "sync_dirs (\<lambda>_. True) synced ds = (s, e) \<Longrightarrow> e = None"
  by (induction "\<lambda>_ :: string. True" synced ds rule: sync_dirs.induct) (auto split: if_splits)

lemma store_flush_all: "\<exists>st'. store_flush (\<lambda>_. True) st = (Inr (), st')"
  using sync_dirs_all
  by (cases "sync_dirs (\<lambda>_. True) [] (st_pending st)") (auto simp: store_flush_def flush_batch_def split: option.splits)

lemma no_row_above: "bt_wf (db_heads db) \<Longrightarrow> bt_get (db_heads db) (ws, current_seq db ws + 1) = None"
proof (cases "current_head ws db")
  case None
  assume wf: "bt_wf (db_heads db)"
  have "rows_of ws (db_heads db) = []"
    using None by (auto simp: current_head_def split: list.splits)
  then have "k \<notin> fst ` set (rows_of ws (db_heads db))" for k
    by simp
  then show ?thesis
    unfolding fst_set_rows_of by (force simp: map_of_eq_None_iff)
next
  case (Some r)
  assume wf: "bt_wf (db_heads db)"
  obtain s h where r: "r = (s, h)" by fastforce
  have "bt_get (db_heads db) (ws, t) \<noteq> None \<Longrightarrow> t \<le> s" for t
    using current_head_newest [OF wf] Some r by blast
  then show ?thesis
    using Some r by (force simp: current_seq_def)
qed

text \<open>A commit the relay finds nothing wrong with goes through.\<close>

lemma put_head_accepts:
  assumes "require_role (rl_db rl) ws p Writer = Inr w" "check_device dev = Inr ()"
    "commit_payload E rl ws w p req = Inr (stored, refs)" "bt_wf (db_heads (rl_db rl))"
    "base = current_seq (rl_db rl) ws"
  shows "\<exists>rl'. put_head E (\<lambda>_. True) False p ws (Some dev) base req rl = (Inr (base + 1, re_hash E stored), rl')
    \<and> current_head ws (rl_db rl') = Some (base + 1, \<lparr>h_hash = re_hash E stored, h_manifest = stored\<rparr>)"
proof -
  obtain st where st: "store_flush (\<lambda>_. True) (rl_store rl) = (Inr (), st)"
    using store_flush_all by blast
  obtain db where db: "insert_head False ws (base + 1) (re_hash E stored) stored refs (rl_db rl) = (Inr (), db)"
    using no_row_above [OF assms(4), of ws] assms(5)
    by (cases "insert_head False ws (base + 1) (re_hash E stored) stored refs (rl_db rl)")
      (auto simp: insert_head_def with_tx_def bt_contains_def Let_def)
  have "put_head E (\<lambda>_. True) False p ws (Some dev) base req rl
      = (Inr (base + 1, re_hash E stored), rl\<lparr>rl_store := st, rl_db := db\<rparr>)"
    using assms(1,2,3) st db by (simp add: put_head_def assms(5) Let_def)
  then show ?thesis
    using commit_current(1) [OF assms(4), of False ws "re_hash E stored" stored refs "()" db] db assms(5) by auto
qed

lemma plain_payload:
  assumes "re_manifest E (J m) = Some m" "\<not> w_e2e w" "is_ok (validate_submitted_manifest E rl ws p (J m))"
  shows "commit_payload E rl ws w p (snd (commit_body_of J (PutPlain base m))) = Inr (J m, chunk_hashes m)"
proof -
  obtain m' where "validate_submitted_manifest E rl ws p (J m) = Inr m'"
    using assms(3) by (auto simp: is_ok_def split: sum.splits)
  moreover from this have "m' = m"
    using validate_submitted_ok [of E rl ws p "J m" m'] assms(1) by simp
  ultimately show ?thesis
    using assms(2) by (simp add: commit_payload_def)
qed

section \<open>What a push achieves\<close>


lemma same_tree_checks:
  assumes "same_tree m m2"
  shows "validate m2 = validate m" "check_env_policy db ws m2 = check_env_policy db ws m"
    "manifest_chunks m2 = manifest_chunks m" "mf_workspace_id m2 = mf_workspace_id m"
proof -
  have f: "mf_files m2 = mf_files m"
    using assms by (simp add: same_tree_def)
  have "check_ancestors m2 = check_ancestors m"
    by (simp add: fun_eq_iff check_ancestors_def f)
  then show "validate m2 = validate m"
    by (simp add: validate_def f)
  show "check_env_policy db ws m2 = check_env_policy db ws m" "manifest_chunks m2 = manifest_chunks m"
    unfolding check_env_policy_def manifest_chunks_def f by (rule refl)+
  show "mf_workspace_id m2 = mf_workspace_id m"
    using assms by (simp add: same_tree_def)
qed

text \<open>C14: A lost response costs nothing: when the relay accepted a plain commit but the writer
  never learned it, the next cycle's commit of the same tree from the same base, with a new
  scan time, is answered with the sequence number and hash of that commit, and the relay is
  left as it is.\<close>

theorem lost_commit_recovered:
  assumes "relay_put_head E J sync_ok fault p ws dev (PutPlain base m) rl = (Inr (seq, hash), rl1)"
    "bt_wf (db_heads (rl_db rl))" "require_role (rl_db rl) ws p Writer = Inr w" "\<not> w_e2e w"
    "re_manifest E (J m) = Some m" "re_manifest E (J m2) = Some m2" "same_tree m m2"
  shows "commit_head pc None (relay_put_head E J sync_ok' fault' p ws dev) (relay_get_head E p ws) base m2 rl1
    = (Inr (seq, hash), rl1)"
proof -
  obtain c where put: "put_head E sync_ok fault p ws (Some dev) base (snd (commit_body_of J (PutPlain base m))) rl = (Inr c, rl1)"
    "c = (seq, hash)"
    using assms(1) by (auto simp: relay_put_head_def split: prod.splits sum.splits)
  from put(1) obtain w' d stored refs where r: "c = (base + 1, re_hash E stored)" "base = current_seq (rl_db rl) ws"
    "require_role (rl_db rl) ws p Writer = Inr w'" "Some dev = Some d" "check_device d = Inr ()"
    "commit_payload E rl ws w' p (snd (commit_body_of J (PutPlain base m))) = Inr (stored, refs)"
    "insert_head fault ws (base + 1) (re_hash E stored) stored refs (rl_db rl) = (Inr (), rl_db rl1)"
    by (cases rule: put_head_cases) auto
  have stored: "stored = J m" "is_ok (validate_submitted_manifest E rl ws p (J m))"
    using r(3,6) assms(3,4) by (auto simp: commit_payload_def rbind_ok_iff)
  have head: "current_head ws (rl_db rl1) = Some (seq, \<lparr>h_hash = hash, h_manifest = J m\<rparr>)"
    using commit_current(1) [OF assms(2)] r(1,2,7) put(2) stored(1) by auto
  have role: "require_role (rl_db rl1) ws p Writer = Inr w"
    using commit_keeps_available(2) [OF put(1) assms(2)] assms(3) by simp
  have "is_ok (check_env_policy (rl_db rl1) ws m)"
    using stored(2) commit_keeps_available(3) [OF put(1) assms(2)]
    unfolding submitted_ok_iff [OF assms(5)] by (simp add: check_env_policy_def)
  then have "is_ok (validate_submitted_manifest E rl1 ws p (J m2))"
    using stored(2) commit_keeps_available(1) [OF put(1) assms(2)]
    unfolding submitted_ok_iff [OF assms(5)] submitted_ok_iff [OF assms(6)] same_tree_checks [OF assms(7)] by blast
  then have pay: "commit_payload E rl1 ws w p (snd (commit_body_of J (PutPlain base m2))) = Inr (J m2, chunk_hashes m2)"
    using plain_payload [of E J m2, OF assms(6,4)] by blast
  have cur: "current_seq (rl_db rl1) ws = base + 1"
    using head r(1) put(2) by (simp add: current_seq_def)
  have again: "relay_put_head E J sync_ok' fault' p ws dev (PutPlain base m2) rl1 = (Inl (RHeadConflict (base + 1)), rl1)"
    using role r(4,5) pay cur by (simp add: relay_put_head_def put_head_def Let_def head_conflict_def)
  have "get_head E p ws rl1 = Inr (seq, hash, Plain (J m))"
    using head require_role_weaken [OF role] assms(4) by (simp add: get_head_def wire_of_def)
  then have "relay_get_head E p ws rl1
      = (Inr (Some \<lparr>hi_seq = seq, hi_hash = hash, hi_manifest = m, hi_manifest_enc = None, hi_e2e = False\<rparr>), rl1)"
    using assms(5) by (simp add: relay_get_head_def head_of_body_def)
  then show ?thesis
    using again r(1) put(2) assms(7) by (simp add: commit_head_def head_request_def head_matches_def)
qed

section \<open>Examples\<close>

text \<open>A plain workspace of one owner, empty, with one possible manifest: the empty tree.\<close>

definition empty_tree :: manifest where
  "empty_tree = (manifest_new ''w'')\<lparr>mf_scanned_at_secs := 9\<rparr>"

definition plain_env :: relay_env where
  "plain_env = toy_env\<lparr>re_manifest := (\<lambda>_. Some empty_tree)\<rparr>"

definition plain_row :: workspace_row where
  "plain_row = \<lparr>w_name = ''n'', w_owner = Some ''alice'', w_team_id = None, w_e2e = False\<rparr>"

definition plain_relay :: relay where
  "plain_relay = \<lparr>rl_db = empty_db\<lparr>db_workspaces := [(''w'', plain_row)]\<rparr>, rl_store = open_deferred []\<rparr>"

definition plain_built :: scan_built where
  "plain_built = \<lparr>sb_old = manifest_new ''w'', sb_new = empty_tree, sb_excluded = []\<rparr>"

lemma plain_relay_role: "require_role (rl_db plain_relay) ''w'' (User ''alice'') least = Inr plain_row"
  by (cases least) (simp_all add: plain_relay_def plain_row_def require_role_def get_workspace_def role_on_def
      less_role_def empty_db_def)

lemma plain_built_from_scan:
  "scan_build_manifest 9 (Inr ''w'') (Inr None) (Inr (empty_scan [] [])) False (sink_has_many (relay_has p ws))
     upload (uploader_new, rl) = (Inr plain_built, uploader_new, rl)"
  by (simp add: scan_build_manifest_def wanted_chunks_def manifest_new_def sink_has_many_def relay_has_def
      client_has_many_def empty_scan_def plain_built_def empty_tree_def)

lemma plain_relay_start:
  "untorn H (rl_store plain_relay)" "bt_wf (db_heads (rl_db plain_relay))"
  "current_seq (rl_db plain_relay) ws = 0" "digest_law (re_hash plain_env)" "cut_law (\<lambda>_. None)"
  "is_ok (validate empty_tree)" "is_ok (check_env_policy (rl_db plain_relay) ''w'' empty_tree)"
  "check_device ''d'' = Inr ()"
proof -
  show "check_device ''d'' = Inr ()"
    by code_simp
qed (simp_all add: untorn_def plain_relay_def open_deferred_def open_store_def empty_db_def current_seq_def
    current_head_def digest_law_def cut_law_def plain_env_def toy_env_def sample_hash_ok validate_def
    empty_tree_def manifest_new_def bt_keys_def check_env_policy_def workspace_team_env_policy_def plain_row_def)

definition plain_codec :: push_codec where
  "plain_codec = \<lparr>pc_prims = toy_prims, pc_to_vec = (\<lambda>_. []), pc_from_slice = (\<lambda>_. Some empty_tree),
     pc_nonce = [], pc_fingerprint = (\<lambda>_. '''')\<rparr>"


lemma lost_commit_recovered_witness:
  "\<exists>rl1. relay_put_head plain_env (\<lambda>_. ''m'') (\<lambda>_. True) False (User ''alice'') ''w'' ''d'' (PutPlain 0 empty_tree) plain_relay
        = (Inr (1, sample_hash), rl1)
     \<and> commit_head plain_codec None (relay_put_head plain_env (\<lambda>_. ''m'') (\<lambda>_. True) False (User ''alice'') ''w'' ''d'')
         (relay_get_head plain_env (User ''alice'') ''w'') 0 empty_tree rl1 = (Inr (1, sample_hash), rl1)"
proof -
  have tree: "re_manifest plain_env x = Some empty_tree" for x
    by (simp add: plain_env_def)
  have "is_ok (validate_submitted_manifest plain_env plain_relay ''w'' (User ''alice'') ''m'')"
    unfolding submitted_ok_iff [of plain_env "''m''", OF tree] using plain_relay_start(6,7)
    by (simp add: empty_tree_def manifest_new_def manifest_chunks_def)
  then have "commit_payload plain_env plain_relay ''w'' plain_row (User ''alice'')
      (snd (commit_body_of (\<lambda>_. ''m'') (PutPlain 0 empty_tree))) = Inr (''m'', chunk_hashes empty_tree)"
    using plain_payload [of plain_env "\<lambda>_. ''m''" empty_tree plain_row, OF tree] by (simp add: plain_row_def)
  from put_head_accepts [OF plain_relay_role plain_relay_start(8) this plain_relay_start(2)]
  obtain rl1 where put: "relay_put_head plain_env (\<lambda>_. ''m'') (\<lambda>_. True) False (User ''alice'') ''w'' ''d''
      (PutPlain 0 empty_tree) plain_relay = (Inr (1, sample_hash), rl1)"
    using plain_relay_start(3) by (auto simp: relay_put_head_def plain_env_def toy_env_def)
  have "\<not> w_e2e plain_row" "same_tree empty_tree empty_tree"
    by (simp_all add: plain_row_def same_tree_def)
  then show ?thesis
    using lost_commit_recovered [OF put plain_relay_start(2) plain_relay_role _ tree tree] put by blast
qed

end
