(* ===== verification/Disk.thy ===== *)
theory Disk
imports Codec Manifest
begin

text \<open>
  The file system below a workspace root, as far as the code uses it: the system calls
  of \<open>std::fs\<close>, and the helpers of \<open>core/src/fsutil.rs\<close> and \<open>core/src/manifest.rs\<close> built
  on them.  Each call takes the next value of \<open>dk_faults\<close>: \<open>None\<close> lets it work, \<open>Some k\<close>
  makes it fail, a write having got \<open>k\<close> bytes through; calls after the last value work.
  A path is the list of names below the root.  A symbolic link is never followed: a call
  that meets one in the middle of a path, or wants to open one, fails.
\<close>

section \<open>State\<close>

type_synonym fs_path = "string list"

text \<open>\<open>fn_mtime\<close> is absent while it is the time of the last write, and \<open>fn_synced\<close> says
  that the content was written back since.\<close>

record file_node =
  fn_data :: bytes
  fn_mode :: "32 word"
  fn_mtime :: "(int \<times> int) option"
  fn_synced :: bool

datatype node = File file_node | Dir bool | Link | Special     \<comment> \<open>a directory, owner-only or not\<close>

datatype io_error = IoNotFound | IoFailed

type_synonym fs_tree = "(fs_path, node) btree"

record disk =
  dk_tree :: fs_tree
  dk_faults :: "nat option list"

section \<open>Fallible actions in sequence\<close>

definition io_bind ::
  "('s \<Rightarrow> ('e, 'a) result \<times> 's) \<Rightarrow> ('a \<Rightarrow> 's \<Rightarrow> ('e, 'b) result \<times> 's) \<Rightarrow> 's \<Rightarrow> ('e, 'b) result \<times> 's" where
  "io_bind m f s = (case m s of (Inl e, s) \<Rightarrow> (Inl e, s) | (Inr x, s) \<Rightarrow> f x s)"

definition io_return :: "'a \<Rightarrow> 's \<Rightarrow> ('e, 'a) result \<times> 's" where
  "io_return x s = (Inr x, s)"

definition io_fail :: "'e \<Rightarrow> 's \<Rightarrow> ('e, 'a) result \<times> 's" where
  "io_fail e s = (Inl e, s)"

text \<open>A call whose error is ignored.\<close>

definition io_ignore :: "('s \<Rightarrow> ('e, 'a) result \<times> 's) \<Rightarrow> 's \<Rightarrow> ('f, unit) result \<times> 's" where
  "io_ignore m s = (Inr (), snd (m s))"

fun io_each :: "('a \<Rightarrow> 's \<Rightarrow> ('e, unit) result \<times> 's) \<Rightarrow> 'a list \<Rightarrow> 's \<Rightarrow> ('e, unit) result \<times> 's" where
  "io_each f [] s = (Inr (), s)"
| "io_each f (x # xs) s = io_bind (f x) (\<lambda>_. io_each f xs) s"

section \<open>System calls\<close>

definition syscall :: "(nat option \<Rightarrow> fs_tree \<Rightarrow> (io_error, 'a) result \<times> fs_tree) \<Rightarrow> disk \<Rightarrow> (io_error, 'a) result \<times> disk" where
  "syscall f d =
     (case dk_faults d of
        [] \<Rightarrow> (case f None (dk_tree d) of (r, t) \<Rightarrow> (r, d\<lparr>dk_tree := t\<rparr>))
      | k # ks \<Rightarrow> (case f k (dk_tree d) of (r, t) \<Rightarrow> (r, d\<lparr>dk_tree := t, dk_faults := ks\<rparr>)))"

text \<open>A call that does all or nothing.\<close>

definition atomic :: "(fs_tree \<Rightarrow> (io_error, 'a) result \<times> fs_tree) \<Rightarrow> disk \<Rightarrow> (io_error, 'a) result \<times> disk" where
  "atomic f = syscall (\<lambda>k t. if k = None then f t else (Inl IoFailed, t))"

definition is_dir_node :: "node \<Rightarrow> bool" where
  "is_dir_node n = (case n of Dir _ \<Rightarrow> True | _ \<Rightarrow> False)"

definition blocked :: "fs_tree \<Rightarrow> fs_path \<Rightarrow> bool" where
  "blocked t p =
     list_ex (\<lambda>i. case bt_get t (take i p) of None \<Rightarrow> False | Some n \<Rightarrow> \<not> is_dir_node n) [1..<length p]"

definition lookup_node :: "fs_tree \<Rightarrow> fs_path \<Rightarrow> (io_error, node) result" where
  "lookup_node t p =
     (if p = [] then Inr (Dir False)
      else if blocked t p then Inl IoFailed
      else (case bt_get t p of None \<Rightarrow> Inl IoNotFound | Some n \<Rightarrow> Inr n))"

definition symlink_metadata :: "fs_path \<Rightarrow> disk \<Rightarrow> (io_error, node) result \<times> disk" where
  "symlink_metadata p = atomic (\<lambda>t. (lookup_node t p, t))"

text \<open>Whether a new name can be made in the directory that \<open>p\<close> names an entry of.\<close>

definition parent_error :: "fs_tree \<Rightarrow> fs_path \<Rightarrow> io_error option" where
  "parent_error t p =
     (case lookup_node t (butlast p) of
        Inl e \<Rightarrow> Some e
      | Inr n \<Rightarrow> if is_dir_node n then None else Some IoFailed)"

definition remove_file :: "fs_path \<Rightarrow> disk \<Rightarrow> (io_error, unit) result \<times> disk" where
  "remove_file p = atomic (\<lambda>t.
     case lookup_node t p of
       Inl e \<Rightarrow> (Inl e, t)
     | Inr n \<Rightarrow> if is_dir_node n then (Inl IoFailed, t) else (Inr (), bt_remove p t))"

definition has_children :: "fs_tree \<Rightarrow> fs_path \<Rightarrow> bool" where
  "has_children t p = list_ex (\<lambda>q. length p < length q \<and> take (length p) q = p) (bt_keys t)"

definition remove_dir :: "fs_path \<Rightarrow> disk \<Rightarrow> (io_error, unit) result \<times> disk" where
  "remove_dir p = atomic (\<lambda>t.
     case lookup_node t p of
       Inl e \<Rightarrow> (Inl e, t)
     | Inr n \<Rightarrow> if is_dir_node n \<and> p \<noteq> [] \<and> \<not> has_children t p then (Inr (), bt_remove p t) else (Inl IoFailed, t))"

definition make_dir :: "fs_path \<Rightarrow> disk \<Rightarrow> (io_error, unit) result \<times> disk" where
  "make_dir p = atomic (\<lambda>t.
     case lookup_node t p of
       Inr n \<Rightarrow> if is_dir_node n then (Inr (), t) else (Inl IoFailed, t)
     | Inl IoFailed \<Rightarrow> (Inl IoFailed, t)
     | Inl IoNotFound \<Rightarrow>
         (case parent_error t p of Some e \<Rightarrow> (Inl e, t) | None \<Rightarrow> (Inr (), bt_insert p (Dir False) t)))"

definition create_dir_all :: "fs_path \<Rightarrow> disk \<Rightarrow> (io_error, unit) result \<times> disk" where
  "create_dir_all p = io_each make_dir (map (\<lambda>i. take i p) [1..<Suc (length p)])"

text \<open>\<open>open\<close> for writing, creating or truncating.\<close>

definition open_truncate :: "32 word \<Rightarrow> fs_path \<Rightarrow> disk \<Rightarrow> (io_error, unit) result \<times> disk" where
  "open_truncate new_mode p = atomic (\<lambda>t.
     case lookup_node t p of
       Inr (File f) \<Rightarrow> (Inr (), bt_insert p (File (f\<lparr>fn_data := [], fn_mtime := None, fn_synced := False\<rparr>)) t)
     | Inr _ \<Rightarrow> (Inl IoFailed, t)
     | Inl IoFailed \<Rightarrow> (Inl IoFailed, t)
     | Inl IoNotFound \<Rightarrow>
         (case parent_error t p of
            Some e \<Rightarrow> (Inl e, t)
          | None \<Rightarrow> (Inr (), bt_insert p (File \<lparr>fn_data = [], fn_mode = new_mode, fn_mtime = None, fn_synced = False\<rparr>) t)))"

text \<open>Calls on an open file, named by its path.\<close>

definition with_file :: "(nat option \<Rightarrow> file_node \<Rightarrow> (io_error, unit) result \<times> file_node) \<Rightarrow> fs_path \<Rightarrow> disk \<Rightarrow> (io_error, unit) result \<times> disk" where
  "with_file g p = syscall (\<lambda>k t.
     case lookup_node t p of
       Inr (File f) \<Rightarrow> (case g k f of (r, f) \<Rightarrow> (r, bt_insert p (File f) t))
     | Inr _ \<Rightarrow> (Inl IoFailed, t)
     | Inl e \<Rightarrow> (Inl e, t))"

definition write_all :: "bytes \<Rightarrow> fs_path \<Rightarrow> disk \<Rightarrow> (io_error, unit) result \<times> disk" where
  "write_all b = with_file (\<lambda>k f.
     case k of
       None \<Rightarrow> (Inr (), f\<lparr>fn_data := fn_data f @ b, fn_mtime := None, fn_synced := False\<rparr>)
     | Some n \<Rightarrow> (Inl IoFailed, f\<lparr>fn_data := fn_data f @ take n b, fn_mtime := None, fn_synced := False\<rparr>))"

definition set_permissions :: "32 word \<Rightarrow> fs_path \<Rightarrow> disk \<Rightarrow> (io_error, unit) result \<times> disk" where
  "set_permissions m = with_file (\<lambda>k f. if k = None then (Inr (), f\<lparr>fn_mode := m\<rparr>) else (Inl IoFailed, f))"

definition set_file_mtime :: "int \<times> int \<Rightarrow> fs_path \<Rightarrow> disk \<Rightarrow> (io_error, unit) result \<times> disk" where
  "set_file_mtime t = with_file (\<lambda>k f. if k = None then (Inr (), f\<lparr>fn_mtime := Some t\<rparr>) else (Inl IoFailed, f))"

definition sync_all :: "fs_path \<Rightarrow> disk \<Rightarrow> (io_error, unit) result \<times> disk" where
  "sync_all = with_file (\<lambda>k f. if k = None then (Inr (), f\<lparr>fn_synced := True\<rparr>) else (Inl IoFailed, f))"

definition rename_file :: "fs_path \<Rightarrow> fs_path \<Rightarrow> disk \<Rightarrow> (io_error, unit) result \<times> disk" where
  "rename_file p q = atomic (\<lambda>t.
     case lookup_node t p of
       Inl e \<Rightarrow> (Inl e, t)
     | Inr n \<Rightarrow>
         if is_dir_node n then (Inl IoFailed, t)
         else (case lookup_node t q of
                 Inr m \<Rightarrow> if is_dir_node m then (Inl IoFailed, t) else (Inr (), bt_insert q n (bt_remove p t))
               | Inl IoFailed \<Rightarrow> (Inl IoFailed, t)
               | Inl IoNotFound \<Rightarrow>
                   (case parent_error t q of
                      Some e \<Rightarrow> (Inl e, t)
                    | None \<Rightarrow> (Inr (), bt_insert q n (bt_remove p t)))))"

definition read_dir :: "fs_path \<Rightarrow> disk \<Rightarrow> (io_error, fs_path list) result \<times> disk" where
  "read_dir p = atomic (\<lambda>t.
     case lookup_node t p of
       Inl e \<Rightarrow> (Inl e, t)
     | Inr n \<Rightarrow>
         if is_dir_node n
         then (Inr (filter (\<lambda>q. length q = Suc (length p) \<and> take (length p) q = p) (bt_keys t)), t)
         else (Inl IoFailed, t))"

definition read_file :: "fs_path \<Rightarrow> disk \<Rightarrow> (io_error, file_node) result \<times> disk" where
  "read_file p = atomic (\<lambda>t.
     case lookup_node t p of
       Inl e \<Rightarrow> (Inl e, t)
     | Inr (File f) \<Rightarrow> (Inr f, t)
     | Inr _ \<Rightarrow> (Inl IoFailed, t))"

text \<open>\<open>fs::copy\<close>: the content and the permission bits, not the time.\<close>

definition copy_file :: "fs_path \<Rightarrow> fs_path \<Rightarrow> disk \<Rightarrow> (io_error, unit) result \<times> disk" where
  "copy_file p q =
     io_bind (read_file p) (\<lambda>f.
     io_bind (open_truncate (fn_mode f) q) (\<lambda>_.
     io_bind (set_permissions (fn_mode f) q) (\<lambda>_.
     write_all (fn_data f) q)))"

section \<open>Helpers of the code\<close>

definition create_private_file :: "fs_path \<Rightarrow> disk \<Rightarrow> (io_error, unit) result \<times> disk" where
  "create_private_file = open_truncate 0x180"

definition set_private_dir :: "fs_path \<Rightarrow> disk \<Rightarrow> (io_error, unit) result \<times> disk" where
  "set_private_dir p = atomic (\<lambda>t.
     case lookup_node t p of
       Inl e \<Rightarrow> (Inl e, t)
     | Inr n \<Rightarrow> if is_dir_node n \<and> p \<noteq> [] then (Inr (), bt_insert p (Dir True) t) else (Inl IoFailed, t))"

text \<open>The climb of \<open>ensure_real_ancestors\<close> over the given directories.\<close>

fun real_ancestors :: "fs_path list \<Rightarrow> disk \<Rightarrow> (io_error, unit) result \<times> disk" where
  "real_ancestors [] d = (Inr (), d)"
| "real_ancestors (p # ps) d =
     (case symlink_metadata p d of
        (Inr Link, d) \<Rightarrow> (Inl IoFailed, d)
      | (Inr _, d) \<Rightarrow> real_ancestors ps d
      | (Inl IoNotFound, d) \<Rightarrow> real_ancestors ps d
      | (Inl IoFailed, d) \<Rightarrow> (Inl IoFailed, d))"

definition dirs_above :: "fs_path \<Rightarrow> fs_path list" where
  "dirs_above p = map (\<lambda>i. take i p) (rev [1..<length p])"

definition ensure_real_ancestors :: "fs_path \<Rightarrow> disk \<Rightarrow> (io_error, unit) result \<times> disk" where
  "ensure_real_ancestors p = real_ancestors (dirs_above p)"

definition with_extension :: "string \<Rightarrow> string \<Rightarrow> string" where
  "with_extension ext name =
     (case rfind CHR ''.'' name of
        Some i \<Rightarrow> if i = 0 then name else take i name
      | None \<Rightarrow> name) @ ''.'' @ ext"

text \<open>\<open>sync_dir\<close> after the rename is best effort and changes nothing here.\<close>

definition write_file_atomic :: "fs_path \<Rightarrow> bytes \<Rightarrow> disk \<Rightarrow> (io_error, unit) result \<times> disk" where
  "write_file_atomic p b =
     (let tmp = butlast p @ [with_extension ''tmp'' (last p)] in
      io_bind (create_private_file tmp) (\<lambda>_.
      io_bind (write_all b tmp) (\<lambda>_.
      io_bind (sync_all tmp) (\<lambda>_.
      rename_file tmp p))))"


section \<open>What a call leaves alone\<close>

text \<open>What is at a path, directories aside.\<close>

definition leaf :: "disk \<Rightarrow> fs_path \<Rightarrow> node option" where
  "leaf d p = (case bt_get (dk_tree d) p of Some (Dir _) \<Rightarrow> None | r \<Rightarrow> r)"

definition keeps :: "('s \<Rightarrow> 's \<Rightarrow> bool) \<Rightarrow> ('s \<Rightarrow> 'a \<times> 's) \<Rightarrow> bool" where
  "keeps R m \<longleftrightarrow> (\<forall>s. R s (snd (m s)))"

definition leaves_except :: "fs_path set \<Rightarrow> disk \<Rightarrow> disk \<Rightarrow> bool" where
  "leaves_except P d d' \<longleftrightarrow> (\<forall>p. p \<notin> P \<longrightarrow> leaf d' p = leaf d p)"

named_theorems frames \<open>what the calls leave alone\<close>

lemma keepsD: "keeps R m \<Longrightarrow> m s = (r, s') \<Longrightarrow> R s s'"
  unfolding keeps_def by (metis snd_conv)

lemma keeps_mono: "keeps R m \<Longrightarrow> (\<And>s s'. R s s' \<Longrightarrow> Q s s') \<Longrightarrow> keeps Q m"
  by (auto simp: keeps_def)

lemma keeps_io_return: "reflp R \<Longrightarrow> keeps R (io_return x)"
  by (auto simp: keeps_def io_return_def dest: reflpD)

lemma keeps_io_bind:
  assumes "transp R" "keeps R m" "\<And>x. keeps R (f x)"
  shows "keeps R (io_bind m f)"
  using assms by (auto simp: keeps_def io_bind_def split: prod.splits sum.splits) (metis snd_conv transpD)+

lemma keeps_io_ignore: "keeps R m \<Longrightarrow> keeps R (io_ignore m)"
  by (auto simp: keeps_def io_ignore_def)

lemma keeps_io_each:
  assumes "reflp R" "transp R" "\<And>x. x \<in> set xs \<Longrightarrow> keeps R (f x)"
  shows "keeps R (io_each f xs)"
  using assms(3)
proof (induction xs)
  case Nil
  then show ?case using assms(1) by (auto simp: keeps_def dest: reflpD)
next
  case (Cons x xs)
  have "keeps R (io_bind (f x) (\<lambda>_. io_each f xs))"
    using Cons by (intro keeps_io_bind assms(2)) auto
  then show ?case by (simp add: keeps_def)
qed

lemma leaves_except_refl: "reflp (leaves_except P)"
  by (rule reflpI) (simp add: leaves_except_def)

lemma leaves_except_trans: "transp (leaves_except P)"
  by (rule transpI) (simp add: leaves_except_def)

lemma leaves_except_mono: "leaves_except P d d' \<Longrightarrow> P \<subseteq> Q \<Longrightarrow> leaves_except Q d d'"
  by (auto simp: leaves_except_def)

lemmas leaves_except_bind = keeps_io_bind [OF leaves_except_trans]
lemmas leaves_except_each = keeps_io_each [OF leaves_except_refl leaves_except_trans]

lemma keeps_leaves_mono: "keeps (leaves_except P) m \<Longrightarrow> P \<subseteq> Q \<Longrightarrow> keeps (leaves_except Q) m"
  unfolding keeps_def using leaves_except_mono by blast

text \<open>An atomic call fails and changes nothing, or has its effect.\<close>

lemma atomic_cases:
  assumes "atomic f d = (r, d')"
  obtains "r = Inl IoFailed" "dk_tree d' = dk_tree d" | "f (dk_tree d) = (r, dk_tree d')"
proof (cases "dk_faults d")
  case Nil
  then show ?thesis
    using assms that(2) by (auto simp: atomic_def syscall_def split: prod.splits)
next
  case (Cons k ks)
  then show ?thesis
    using assms that by (cases k) (auto simp: atomic_def syscall_def split: prod.splits)
qed

lemma lookup_node_Some: "lookup_node t p = Inr n \<Longrightarrow> (p = [] \<and> n = Dir False) \<or> bt_get t p = Some n"
  by (auto simp: lookup_node_def split: if_splits option.splits)

lemma lookup_node_None: "lookup_node t p = Inl IoNotFound \<Longrightarrow> bt_get t p = None"
  by (auto simp: lookup_node_def split: if_splits option.splits)

lemma lookup_node_err: "lookup_node t p = Inl x \<Longrightarrow> x = IoFailed \<or> x = IoNotFound \<and> bt_get t p = None"
  by (auto simp: lookup_node_def split: if_splits option.splits)

lemma leaf_simps:
  "bt_get (dk_tree d) p = Some (File f) \<Longrightarrow> leaf d p = Some (File f)"
  "bt_get (dk_tree d) p = None \<Longrightarrow> leaf d p = None"
  "leaf d p = Some (File f) \<longleftrightarrow> bt_get (dk_tree d) p = Some (File f)"
  by (auto simp: leaf_def split: option.splits node.splits)

lemma leaf_cong: "dk_tree d' = dk_tree d \<Longrightarrow> leaf d' p = leaf d p"
  by (simp add: leaf_def)

lemma atomic_leaves:
  assumes "\<And>t r t' q. f t = (r, t') \<Longrightarrow> q \<notin> P \<Longrightarrow>
    (case bt_get t' q of Some (Dir _) \<Rightarrow> None | r \<Rightarrow> r) = (case bt_get t q of Some (Dir _) \<Rightarrow> None | r \<Rightarrow> r)"
  shows "keeps (leaves_except P) (atomic f)"
  unfolding keeps_def
proof
  fix d
  obtain r d' where e: "atomic f d = (r, d')" by fastforce
  show "leaves_except P d (snd (atomic f d))"
    using e
  proof (cases rule: atomic_cases)
    case 1
    then show ?thesis using e by (simp add: leaves_except_def leaf_def)
  next
    case 2
    then show ?thesis using e assms [OF 2] by (simp add: leaves_except_def leaf_def)
  qed
qed

lemma remove_file_leaves [frames]: "keeps (leaves_except {p}) (remove_file p)"
  unfolding remove_file_def
  by (rule atomic_leaves) (auto split: sum.splits if_splits)

lemma remove_dir_leaves [frames]: "keeps (leaves_except {}) (remove_dir p)"
  unfolding remove_dir_def
  by (rule atomic_leaves) (auto split: sum.splits if_splits dest!: lookup_node_Some simp: is_dir_node_def split: node.splits)

lemma make_dir_leaves [frames]: "keeps (leaves_except {}) (make_dir p)"
  unfolding make_dir_def
  by (rule atomic_leaves)
    (auto split: sum.splits if_splits io_error.splits option.splits dest!: lookup_node_None)

lemma create_dir_all_leaves [frames]: "keeps (leaves_except {}) (create_dir_all p)"
  unfolding create_dir_all_def by (intro leaves_except_each frames)

lemma open_truncate_leaves [frames]: "keeps (leaves_except {p}) (open_truncate m p)"
  unfolding open_truncate_def
  by (rule atomic_leaves) (auto split: sum.splits if_splits io_error.splits option.splits node.splits)

lemma with_file_leaves: "keeps (leaves_except {p}) (with_file g p)"
  unfolding keeps_def with_file_def syscall_def leaves_except_def leaf_def
  by (auto split: list.splits prod.splits sum.splits node.splits)

lemma file_call_leaves [frames]:
  "keeps (leaves_except {p}) (write_all b p)"
  "keeps (leaves_except {p}) (set_permissions m p)"
  "keeps (leaves_except {p}) (set_file_mtime t p)"
  "keeps (leaves_except {p}) (sync_all p)"
  by (simp_all add: write_all_def set_permissions_def set_file_mtime_def sync_all_def with_file_leaves)

lemma read_calls_leaves [frames]:
  "keeps (leaves_except {}) (symlink_metadata p)"
  "keeps (leaves_except {}) (read_dir p)"
  "keeps (leaves_except {}) (read_file p)"
  unfolding symlink_metadata_def read_dir_def read_file_def
  by (rule atomic_leaves; auto split: sum.splits if_splits node.splits)+

lemma set_private_dir_leaves [frames]: "keeps (leaves_except {}) (set_private_dir p)"
  unfolding set_private_dir_def
  by (rule atomic_leaves) (auto split: sum.splits if_splits dest!: lookup_node_Some simp: is_dir_node_def split: node.splits)

lemma rename_file_leaves [frames]: "keeps (leaves_except {p, q}) (rename_file p q)"
  unfolding rename_file_def
  by (rule atomic_leaves) (auto split: sum.splits if_splits io_error.splits option.splits)

lemma real_ancestors_leaves: "keeps (leaves_except {}) (real_ancestors ps)"
proof (induction ps)
  case (Cons p ps)
  show ?case
    unfolding keeps_def
  proof
    fix d
    obtain r d' where e: "symlink_metadata p d = (r, d')" by fastforce
    have d': "leaves_except {} d d'"
      using keepsD [OF read_calls_leaves(1) e] .
    have "leaves_except {} d' (snd (real_ancestors ps d'))"
      using Cons by (simp add: keeps_def)
    then have "leaves_except {} d (snd (real_ancestors ps d'))"
      using d' transpD [OF leaves_except_trans] by blast
    then show "leaves_except {} d (snd (real_ancestors (p # ps) d))"
      using e d' by (auto split: sum.splits io_error.splits node.splits)
  qed
qed (simp add: keeps_def leaves_except_def)

lemma ensure_real_ancestors_leaves [frames]: "keeps (leaves_except {}) (ensure_real_ancestors p)"
  unfolding ensure_real_ancestors_def by (rule real_ancestors_leaves)

lemma create_private_file_leaves [frames]: "keeps (leaves_except {p}) (create_private_file p)"
  unfolding create_private_file_def by (rule frames)

lemma frames_mono:
  "keeps (leaves_except {}) m \<Longrightarrow> keeps (leaves_except P) m"
  "keeps (leaves_except {p}) m \<Longrightarrow> p \<in> P \<Longrightarrow> keeps (leaves_except P) m"
  "keeps (leaves_except {p, q}) m \<Longrightarrow> p \<in> P \<Longrightarrow> q \<in> P \<Longrightarrow> keeps (leaves_except P) m"
  by (erule keeps_leaves_mono; auto)+

lemma copy_file_leaves [frames]: "keeps (leaves_except {q}) (copy_file p q)"
  unfolding copy_file_def by (intro leaves_except_bind) (auto intro: frames frames_mono)

lemma write_file_atomic_leaves [frames]:
  "keeps (leaves_except {p, butlast p @ [with_extension ''tmp'' (last p)]}) (write_file_atomic p b)"
  unfolding write_file_atomic_def Let_def
  by (intro leaves_except_bind) (auto intro: frames_mono(2) [OF frames(5)] frames frames_mono)

section \<open>What a call that works has done\<close>

text \<open>The regular file at a path.\<close>

definition file_at :: "disk \<Rightarrow> fs_path \<Rightarrow> file_node option" where
  "file_at d p = (case leaf d p of Some (File f) \<Rightarrow> Some f | _ \<Rightarrow> None)"

lemma file_at_leaf: "file_at d p = Some f \<longleftrightarrow> leaf d p = Some (File f)"
  by (auto simp: file_at_def split: option.splits node.splits)

lemma file_at_tree: "file_at d p = Some f \<longleftrightarrow> bt_get (dk_tree d) p = Some (File f)"
  by (simp add: file_at_leaf leaf_simps)

lemma leaves_except_file: "leaves_except P d d' \<Longrightarrow> p \<notin> P \<Longrightarrow> file_at d' p = file_at d p"
  by (simp add: leaves_except_def file_at_def)

lemma atomic_ok: "atomic f d = (Inr x, d') \<Longrightarrow> f (dk_tree d) = (Inr x, dk_tree d')"
  by (erule atomic_cases) auto

lemma open_truncate_ok:
  assumes "open_truncate m p d = (Inr u, d')"
  shows "\<exists>f. file_at d' p = Some f \<and> fn_data f = []"
proof -
  obtain t t' where t: "dk_tree d = t" "dk_tree d' = t'" by simp
  have "bt_get t' p = Some (File f) \<Longrightarrow> file_at d' p = Some f" for f
    by (simp add: file_at_tree t)
  moreover have "bt_get t p = Some (File f) \<Longrightarrow> file_at d p = Some f" for f
    by (simp add: file_at_tree t)
  ultimately show ?thesis
    using atomic_ok [OF assms [unfolded open_truncate_def]] unfolding t
    by (auto split: sum.splits node.splits io_error.splits option.splits dest!: lookup_node_Some)
qed

lemma with_file_cases:
  assumes "with_file g p d = (r, d')"
  shows "(\<exists>x. r = Inl x) \<and> dk_tree d' = dk_tree d
    \<or> (\<exists>k f f'. file_at d p = Some f \<and> g k f = (r, f') \<and> dk_tree d' = bt_insert p (File f') (dk_tree d))"
proof -
  define k where "k = (case dk_faults d of [] \<Rightarrow> None | k # _ \<Rightarrow> k)"
  have e: "(case lookup_node (dk_tree d) p of
       Inr (File f) \<Rightarrow> (case g k f of (r, f) \<Rightarrow> (r, bt_insert p (File f) (dk_tree d)))
     | Inr _ \<Rightarrow> (Inl IoFailed, dk_tree d)
     | Inl e \<Rightarrow> (Inl e, dk_tree d)) = (r, dk_tree d')"
    using assms by (auto simp: with_file_def syscall_def k_def split: list.splits prod.splits sum.splits node.splits)
  show ?thesis
  proof (cases "\<exists>f. lookup_node (dk_tree d) p = Inr (File f)")
    case True
    then obtain f where f: "lookup_node (dk_tree d) p = Inr (File f)" by blast
    then have "file_at d p = Some f"
      using lookup_node_Some [OF f] by (simp add: file_at_tree)
    moreover obtain r' f' where g: "g k f = (r', f')" by fastforce
    moreover have "r = r'" "dk_tree d' = bt_insert p (File f') (dk_tree d)"
      using e by (simp_all add: f g)
    ultimately show ?thesis by blast
  next
    case False
    then show ?thesis
      using e by (cases "lookup_node (dk_tree d) p") (auto split: node.splits)
  qed
qed

lemma with_file_ok:
  assumes "with_file g p d = (Inr u, d')"
  shows "\<exists>k f f'. file_at d p = Some f \<and> g k f = (Inr u, f') \<and> file_at d' p = Some f'"
  using assms
  by (auto simp: with_file_def syscall_def file_at_tree split: list.splits prod.splits sum.splits node.splits dest!: lookup_node_Some)

lemma write_all_ok:
  assumes "write_all b p d = (Inr u, d')"
  shows "\<exists>f. file_at d p = Some f \<and> file_at d' p = Some (f\<lparr>fn_data := fn_data f @ b, fn_mtime := None, fn_synced := False\<rparr>)"
  using assms unfolding write_all_def by (auto dest!: with_file_ok split: option.splits)

lemma set_permissions_ok:
  assumes "set_permissions m p d = (Inr u, d')"
  shows "\<exists>f. file_at d p = Some f \<and> file_at d' p = Some (f\<lparr>fn_mode := m\<rparr>)"
  using assms unfolding set_permissions_def by (auto dest!: with_file_ok split: if_splits)

lemma set_file_mtime_ok:
  assumes "set_file_mtime t p d = (Inr u, d')"
  shows "\<exists>f. file_at d p = Some f \<and> file_at d' p = Some (f\<lparr>fn_mtime := Some t\<rparr>)"
  using assms unfolding set_file_mtime_def by (auto dest!: with_file_ok split: if_splits)

lemma sync_all_ok:
  assumes "sync_all p d = (Inr u, d')"
  shows "\<exists>f. file_at d p = Some f \<and> file_at d' p = Some (f\<lparr>fn_synced := True\<rparr>)"
  using assms unfolding sync_all_def by (auto dest!: with_file_ok split: if_splits)

lemma rename_file_ok:
  assumes "rename_file p q d = (Inr u, d')" "file_at d p = Some f"
  shows "file_at d' q = Some f"
proof -
  obtain t t' where t: "dk_tree d = t" "dk_tree d' = t'" by simp
  show ?thesis
    using atomic_ok [OF assms(1) [unfolded rename_file_def]] assms(2) unfolding file_at_tree t
    by (auto simp: is_dir_node_def split: sum.splits if_splits io_error.splits option.splits dest!: lookup_node_Some)
qed

lemma rename_file_err:
  assumes "rename_file p q d = (Inl e, d')"
  shows "leaf d' r = leaf d r"
proof -
  obtain t t' where t: "dk_tree d = t" "dk_tree d' = t'" by simp
  have l: "leaf d q = (case bt_get t q of Some (Dir _) \<Rightarrow> None | r \<Rightarrow> r)"
    "leaf d' q = (case bt_get t' q of Some (Dir _) \<Rightarrow> None | r \<Rightarrow> r)" for q
    by (simp_all add: leaf_def t)
  show ?thesis
    using assms unfolding rename_file_def
    by (elim atomic_cases) (auto simp: t l split: sum.splits if_splits io_error.splits option.splits)
qed

lemma remove_file_cases:
  assumes "remove_file p d = (r, d')"
  shows "r = Inr () \<and> leaf d' p = None \<or> r = Inl IoNotFound \<and> leaf d p = None \<and> leaf d' p = None
    \<or> r = Inl IoFailed \<and> leaf d' p = leaf d p"
proof -
  obtain t t' where t: "dk_tree d = t" "dk_tree d' = t'" by simp
  have l: "leaf d q = (case bt_get t q of Some (Dir _) \<Rightarrow> None | r \<Rightarrow> r)"
    "leaf d' q = (case bt_get t' q of Some (Dir _) \<Rightarrow> None | r \<Rightarrow> r)" for q
    by (simp_all add: leaf_def t)
  show ?thesis
    using assms unfolding remove_file_def
    by (elim atomic_cases) (auto simp: t l split: sum.splits if_splits dest!: lookup_node_err)
qed

lemma read_file_ok:
  "read_file p d = (Inr f, d') \<Longrightarrow> file_at d p = Some f"
  unfolding read_file_def by (drule atomic_ok) (auto simp: file_at_tree split: sum.splits node.splits dest!: lookup_node_Some)

text \<open>What is written atomically is there whole once the call returns, and what was there
  before stays whole until then.\<close>

lemma write_file_atomic_cases:
  assumes "write_file_atomic p b d = (r, d')" "p \<noteq> []" "with_extension ''tmp'' (last p) \<noteq> last p"
  shows "(\<exists>e. r = Inl e) \<and> leaf d' p = leaf d p
    \<or> r = Inr () \<and> (\<exists>f. file_at d' p = Some f \<and> fn_data f = b \<and> fn_synced f)"
proof -
  let ?tmp = "butlast p @ [with_extension ''tmp'' (last p)]"
  have ne: "p \<noteq> ?tmp"
    using assms(2,3) by (metis append_butlast_last_id last_snoc)
  have keep: "keeps (leaves_except {?tmp}) m \<Longrightarrow> m d1 = (r1, d2) \<Longrightarrow> leaf d2 p = leaf d1 p"
    for m :: "disk \<Rightarrow> (io_error, unit) result \<times> disk" and d1 d2 r1
    using keepsD [of "leaves_except {?tmp}" m d1 r1 d2] ne by (simp add: leaves_except_def)
  obtain r1 d1 where o: "create_private_file ?tmp d = (r1, d1)" by fastforce
  obtain r2 d2 where w: "write_all b ?tmp d1 = (r2, d2)" by fastforce
  obtain r3 d3 where y: "sync_all ?tmp d2 = (r3, d3)" by fastforce
  obtain r4 d4 where n: "rename_file ?tmp p d3 = (r4, d4)" by fastforce
  have same: "leaf d1 p = leaf d p" "leaf d2 p = leaf d1 p" "leaf d3 p = leaf d2 p"
    using keep [OF create_private_file_leaves o] keep [OF file_call_leaves(1) w] keep [OF file_call_leaves(4) y] .
  show ?thesis
  proof (cases "is_ok r1 \<and> is_ok r2 \<and> is_ok r3 \<and> is_ok r4")
    case True
    then obtain u1 u2 u3 u4 where u: "r1 = Inr u1" "r2 = Inr u2" "r3 = Inr u3" "r4 = Inr u4"
      by (auto simp: is_ok_def split: sum.splits)
    obtain f1 where f1: "file_at d1 ?tmp = Some f1" "fn_data f1 = []"
      using open_truncate_ok o u(1) by (metis create_private_file_def)
    obtain f2 where f2: "file_at d2 ?tmp = Some f2" "fn_data f2 = b"
      using write_all_ok [OF w [unfolded u]] f1 by auto
    obtain f3 where f3: "file_at d3 ?tmp = Some f3" "fn_data f3 = b" "fn_synced f3"
      using sync_all_ok [OF y [unfolded u]] f2 by auto
    have "r = Inr u4" "d' = d4"
      using assms(1) o w y n unfolding u by (simp_all add: write_file_atomic_def io_bind_def Let_def)
    then show ?thesis
      using rename_file_ok [of ?tmp p d3 u4 d4 f3] n u f3 by auto
  next
    case False
    have "\<exists>e. r = Inl e \<and> leaf d' p = leaf d p"
    proof (cases "is_ok r1 \<and> is_ok r2 \<and> is_ok r3")
      case True
      then obtain u1 u2 u3 e where u: "r1 = Inr u1" "r2 = Inr u2" "r3 = Inr u3" "r4 = Inl e"
        using \<open>\<not> (is_ok r1 \<and> is_ok r2 \<and> is_ok r3 \<and> is_ok r4)\<close>
        by (auto simp: is_ok_def split: sum.splits)
      then show ?thesis
        using assms(1) o w y n same rename_file_err [of ?tmp p d3 e d4 p]
        by (auto simp: write_file_atomic_def io_bind_def Let_def)
    next
      case False
      then show ?thesis
        using assms(1) o w y same unfolding write_file_atomic_def io_bind_def Let_def
        by (cases r1; cases r2; cases r3) auto
    qed
    then show ?thesis by blast
  qed
qed

end
