(* ===== verification/Apply.thy ===== *)
theory Apply
imports Disk Merge
begin

text \<open>
  \<open>core/src/apply.rs\<close>: converging the tree on disk from one manifest to another, files
  before the \<open>.git\<close> directory, deletions before writes, and the manifest pointer last.  The
  chunk source is a parameter with its own state, as is the case folding of the standard
  library, the random part of a staging name and the JSON of a manifest.  Syncing a
  directory is best effort and changes nothing here.
\<close>

unbundle bit_operations_syntax

section \<open>Results\<close>

datatype 'e apply_error =
    InvalidOld manifest_error
  | InvalidNew manifest_error
  | CaseCollision string string     \<comment> \<open>\<open>ApplyRejection\<close>\<close>
  | ApplyDisk io_error
  | ApplyChunk 'e
  | NoEntry string

record apply_report =
  ar_written :: "string list"
  ar_deleted :: "string list"

text \<open>The action works on the disk and the state of the chunk source.\<close>

definition on_disk :: "(disk \<Rightarrow> (io_error, 'a) result \<times> disk) \<Rightarrow> disk \<times> 's \<Rightarrow> ('e apply_error, 'a) result \<times> disk \<times> 's" where
  "on_disk m ds =
     (case ds of (d, s) \<Rightarrow>
        (case m d of
           (Inl e, d) \<Rightarrow> (Inl (ApplyDisk e), (d, s))
         | (Inr x, d) \<Rightarrow> (Inr x, (d, s))))"

definition fetch_chunk ::
  "(string \<Rightarrow> 's \<Rightarrow> ('e, bytes) result \<times> 's) \<Rightarrow> string \<Rightarrow> disk \<times> 's \<Rightarrow> ('e apply_error, bytes) result \<times> disk \<times> 's" where
  "fetch_chunk get h ds =
     (case ds of (d, s) \<Rightarrow>
        (case get h s of
           (Inl e, s) \<Rightarrow> (Inl (ApplyChunk e), (d, s))
         | (Inr x, s) \<Rightarrow> (Inr x, (d, s))))"

section \<open>Single files\<close>

definition PEAR :: fs_path where "PEAR = [''.pear'']"
definition STAGING :: fs_path where "STAGING = [''.pear'', ''staging'']"
definition MANIFEST_JSON :: fs_path where "MANIFEST_JSON = [''.pear'', ''manifest.json'']"

text \<open>Directories left empty go, up to the first that is not.\<close>

definition prune_empty_parents :: "fs_path \<Rightarrow> disk \<Rightarrow> (io_error, unit) result \<times> disk" where
  "prune_empty_parents p = io_ignore (io_each remove_dir (dirs_above p))"

definition delete_file :: "string \<Rightarrow> disk \<Rightarrow> (io_error, unit) result \<times> disk" where
  "delete_file rel =
     (let path = disk_names rel in
      io_bind (ensure_real_ancestors path) (\<lambda>_.
      io_bind (\<lambda>d. case remove_file path d of (Inl IoNotFound, d) \<Rightarrow> (Inr (), d) | r \<Rightarrow> r) (\<lambda>_.
      prune_empty_parents path)))"

fun write_chunks ::
  "(string \<Rightarrow> 's \<Rightarrow> ('e, bytes) result \<times> 's) \<Rightarrow> fs_path \<Rightarrow> string list \<Rightarrow> disk \<times> 's \<Rightarrow> ('e apply_error, unit) result \<times> disk \<times> 's" where
  "write_chunks get tmp [] ds = (Inr (), ds)"
| "write_chunks get tmp (h # hs) ds =
     io_bind (fetch_chunk get h) (\<lambda>data.
     io_bind (on_disk (write_all data tmp)) (\<lambda>_.
     write_chunks get tmp hs)) ds"

text \<open>Setuid, setgid and sticky bits are never materialized.\<close>

definition set_mode :: "32 word \<Rightarrow> fs_path \<Rightarrow> disk \<Rightarrow> (io_error, unit) result \<times> disk" where
  "set_mode m = set_permissions (m AND 0x1FF)"

definition clamp_nanos :: "int \<Rightarrow> int" where
  "clamp_nanos n = max 0 (min 999999999 n)"

text \<open>The new content is assembled aside, and the way to its place is cleared.\<close>

definition stage_file ::
  "(string \<Rightarrow> 's \<Rightarrow> ('e, bytes) result \<times> 's) \<Rightarrow> fs_path \<Rightarrow> fs_path \<Rightarrow> file_entry \<Rightarrow> disk \<times> 's
     \<Rightarrow> ('e apply_error, unit) result \<times> disk \<times> 's" where
  "stage_file get tmp dest entry =
     io_bind (on_disk (create_private_file tmp)) (\<lambda>_.
     io_bind (write_chunks get tmp (fe_chunks entry)) (\<lambda>_.
     io_bind (on_disk (set_mode (fe_mode entry) tmp)) (\<lambda>_.
     io_bind (on_disk (ensure_real_ancestors dest)) (\<lambda>_.
     on_disk (create_dir_all (butlast dest))))))"

definition write_file ::
  "(string \<Rightarrow> 's \<Rightarrow> ('e, bytes) result \<times> 's) \<Rightarrow> (string \<Rightarrow> string) \<Rightarrow> file_entry \<Rightarrow> string \<Rightarrow> disk \<times> 's
     \<Rightarrow> ('e apply_error, unit) result \<times> disk \<times> 's" where
  "write_file get tmp_name entry rel =
     (let tmp = STAGING @ [tmp_name rel]; dest = disk_names rel in
      io_bind (stage_file get tmp dest entry) (\<lambda>_.
      io_bind (on_disk (rename_file tmp dest)) (\<lambda>_.
      on_disk (set_file_mtime (fe_mtime_secs entry, clamp_nanos (fe_mtime_nanos entry)) dest))))"

definition clean_staging :: "disk \<Rightarrow> (io_error, unit) result \<times> disk" where
  "clean_staging =
     io_ignore (io_bind (read_dir STAGING) (io_each (\<lambda>p. io_ignore (remove_file p))))"

text \<open>A file that vanished between its rename and the flush is skipped.\<close>

definition flush_written :: "string \<Rightarrow> disk \<Rightarrow> (io_error, unit) result \<times> disk" where
  "flush_written rel d =
     (case read_file (disk_names rel) d of
        (Inl IoNotFound, d) \<Rightarrow> (Inr (), d)
      | (Inl IoFailed, d) \<Rightarrow> (Inl IoFailed, d)
      | (Inr _, d) \<Rightarrow> sync_all (disk_names rel) d)"

section \<open>The batch\<close>

definition partition_git :: "string list \<Rightarrow> string list \<times> string list" where
  "partition_git paths = (filter (\<lambda>p. \<not> is_git_path p) paths, filter is_git_path paths)"

text \<open>The first key that folds to the same name as an earlier one.\<close>

fun case_collision :: "(string \<Rightarrow> string) \<Rightarrow> (string \<times> string) list \<Rightarrow> string list \<Rightarrow> (string \<times> string) option" where
  "case_collision lower folded [] = None"
| "case_collision lower folded (rel # rels) =
     (case map_of folded (lower rel) of
        Some other \<Rightarrow> Some (other, rel)
      | None \<Rightarrow> case_collision lower ((lower rel, rel) # folded) rels)"

definition write_entry ::
  "(string \<Rightarrow> 's \<Rightarrow> ('e, bytes) result \<times> 's) \<Rightarrow> (string \<Rightarrow> string) \<Rightarrow> manifest \<Rightarrow> string \<Rightarrow> disk \<times> 's
     \<Rightarrow> ('e apply_error, unit) result \<times> disk \<times> 's" where
  "write_entry get tmp_name new rel =
     (case entry_at new rel of
        None \<Rightarrow> io_fail (NoEntry rel)
      | Some entry \<Rightarrow> write_file get tmp_name entry rel)"

text \<open>Everything before the commit point, the files deleted and written given.\<close>

definition apply_batch ::
  "(string \<Rightarrow> string) \<Rightarrow> (string \<Rightarrow> 's \<Rightarrow> ('e, bytes) result \<times> 's) \<Rightarrow> manifest \<Rightarrow> string list \<Rightarrow> string list
     \<Rightarrow> string list \<Rightarrow> string list \<Rightarrow> disk \<times> 's \<Rightarrow> ('e apply_error, unit) result \<times> disk \<times> 's" where
  "apply_batch tmp_name get new wt_del wt_wr git_del git_wr =
     io_bind (on_disk (create_dir_all STAGING)) (\<lambda>_.
     io_bind (on_disk (set_private_dir PEAR)) (\<lambda>_.
     io_bind (on_disk (set_private_dir STAGING)) (\<lambda>_.
     io_bind (on_disk clean_staging) (\<lambda>_.
     io_bind (on_disk (io_each delete_file wt_del)) (\<lambda>_.
     io_bind (io_each (write_entry get tmp_name new) wt_wr) (\<lambda>_.
     io_bind (on_disk (io_each delete_file git_del)) (\<lambda>_.
     io_bind (io_each (write_entry get tmp_name new) git_wr) (\<lambda>_.
     on_disk (io_each flush_written (wt_wr @ git_wr))))))))))"

definition apply_commit ::
  "(string \<Rightarrow> string) \<Rightarrow> (manifest \<Rightarrow> bytes) \<Rightarrow> (string \<Rightarrow> string) \<Rightarrow> (string \<Rightarrow> 's \<Rightarrow> ('e, bytes) result \<times> 's)
     \<Rightarrow> manifest \<Rightarrow> manifest \<Rightarrow> manifest \<Rightarrow> disk \<times> 's \<Rightarrow> ('e apply_error, apply_report) result \<times> disk \<times> 's" where
  "apply_commit lower to_json tmp_name get old new commit ds =
     (case validate old of
        Inl e \<Rightarrow> (Inl (InvalidOld e), ds)
      | Inr _ \<Rightarrow>
     (case validate new of
        Inl e \<Rightarrow> (Inl (InvalidNew e), ds)
      | Inr _ \<Rightarrow>
     (case case_collision lower [] (bt_keys (mf_files new)) of
        Some (a, b) \<Rightarrow> (Inl (CaseCollision a b), ds)
      | None \<Rightarrow>
          (let d = diff old new;
               (wt_del, git_del) = partition_git (md_deleted d);
               (wt_wr, git_wr) = partition_git (md_added d @ md_changed d)
           in io_bind (apply_batch tmp_name get new wt_del wt_wr git_del git_wr) (\<lambda>_.
              io_bind (on_disk (write_file_atomic MANIFEST_JSON (to_json commit))) (\<lambda>_.
              io_return \<lparr>ar_written = wt_wr @ git_wr, ar_deleted = wt_del @ git_del\<rparr>)) ds))))"

definition apply_manifest ::
  "(string \<Rightarrow> string) \<Rightarrow> (manifest \<Rightarrow> bytes) \<Rightarrow> (string \<Rightarrow> string) \<Rightarrow> (string \<Rightarrow> 's \<Rightarrow> ('e, bytes) result \<times> 's)
     \<Rightarrow> manifest \<Rightarrow> manifest \<Rightarrow> disk \<times> 's \<Rightarrow> ('e apply_error, apply_report) result \<times> disk \<times> 's" where
  "apply_manifest lower to_json tmp_name get old new = apply_commit lower to_json tmp_name get old new new"

section \<open>What the actions leave alone\<close>

definition disk_only :: "(disk \<Rightarrow> disk \<Rightarrow> bool) \<Rightarrow> disk \<times> 's \<Rightarrow> disk \<times> 's \<Rightarrow> bool" where
  "disk_only R x y \<longleftrightarrow> R (fst x) (fst y)"

lemma disk_only_refl: "reflp R \<Longrightarrow> reflp (disk_only R)"
  by (auto intro!: reflpI simp: disk_only_def dest: reflpD)

lemma disk_only_trans: "transp R \<Longrightarrow> transp (disk_only R)"
  by (rule transpI) (auto simp: disk_only_def dest: transpD)

lemma keeps_on_disk: "keeps R m \<Longrightarrow> keeps (disk_only R) (on_disk m)"
  by (auto simp: keeps_def disk_only_def on_disk_def split: prod.splits sum.splits) (metis snd_conv)+

lemma keeps_fetch_chunk: "reflp R \<Longrightarrow> keeps (disk_only R) (fetch_chunk get h)"
  by (auto simp: keeps_def disk_only_def fetch_chunk_def split: prod.splits sum.splits dest: reflpD)

lemma keeps_disk_onlyD:
  "keeps (disk_only R) m \<Longrightarrow> m (d, s) = (r, d', s') \<Longrightarrow> R d d'"
  by (drule (1) keepsD) (simp add: disk_only_def)

lemma keeps_write_chunks: "keeps (disk_only (leaves_except {tmp})) (write_chunks get tmp hs)"
proof (induction hs)
  case Nil
  then show ?case by (simp add: keeps_def disk_only_def leaves_except_def)
next
  case (Cons h hs)
  have "keeps (disk_only (leaves_except {tmp}))
      (io_bind (fetch_chunk get h) (\<lambda>data. io_bind (on_disk (write_all data tmp)) (\<lambda>_. write_chunks get tmp hs)))"
    by (intro keeps_io_bind disk_only_trans leaves_except_trans keeps_fetch_chunk leaves_except_refl
        keeps_on_disk file_call_leaves Cons)
  then show ?case by (simp add: keeps_def)
qed

text \<open>A chunk source that only returns what passes \<open>V\<close>, and content made of such chunks.\<close>

definition sound_source :: "(string \<Rightarrow> bytes \<Rightarrow> bool) \<Rightarrow> (string \<Rightarrow> 's \<Rightarrow> ('e, bytes) result \<times> 's) \<Rightarrow> bool" where
  "sound_source V get \<longleftrightarrow> (\<forall>h s x s'. get h s = (Inr x, s') \<longrightarrow> V h x)"

definition content_of :: "(string \<Rightarrow> bytes \<Rightarrow> bool) \<Rightarrow> string list \<Rightarrow> bytes \<Rightarrow> bool" where
  "content_of V hs b \<longleftrightarrow> (\<exists>bs. list_all2 V hs bs \<and> b = concat bs)"

lemma content_of_simps:
  "content_of V [] b \<longleftrightarrow> b = []"
  "V h x \<Longrightarrow> content_of V hs b \<Longrightarrow> content_of V (h # hs) (x @ b)"
  by (auto simp: content_of_def intro: exI [of _ "_ # _"])

text \<open>The file of an entry, and that file with its recorded time.\<close>

definition installed :: "(string \<Rightarrow> bytes \<Rightarrow> bool) \<Rightarrow> file_entry \<Rightarrow> node option \<Rightarrow> bool" where
  "installed V e n \<longleftrightarrow>
     (\<exists>f. n = Some (File f) \<and> content_of V (fe_chunks e) (fn_data f) \<and> fn_mode f = fe_mode e AND 0x1FF)"

definition in_place :: "(string \<Rightarrow> bytes \<Rightarrow> bool) \<Rightarrow> file_entry \<Rightarrow> node option \<Rightarrow> bool" where
  "in_place V e n \<longleftrightarrow>
     (\<exists>f. n = Some (File f) \<and> content_of V (fe_chunks e) (fn_data f) \<and> fn_mode f = fe_mode e AND 0x1FF
        \<and> fn_mtime f = Some (fe_mtime_secs e, clamp_nanos (fe_mtime_nanos e)))"

lemma in_place_installed: "in_place V e n \<Longrightarrow> installed V e n"
  by (auto simp: in_place_def installed_def)

lemma on_disk_ok: "on_disk m (d, s) = (Inr x, ds) \<Longrightarrow> \<exists>d'. ds = (d', s) \<and> m d = (Inr x, d')"
  by (auto simp: on_disk_def split: prod.splits sum.splits)

lemma on_disk_err: "on_disk m (d, s) = (Inl e, ds) \<Longrightarrow> \<exists>d' e'. ds = (d', s) \<and> e = ApplyDisk e' \<and> m d = (Inl e', d')"
  by (auto simp: on_disk_def split: prod.splits sum.splits)

lemma io_bind_ok: "io_bind m f s = (Inr y, s'') \<longleftrightarrow> (\<exists>x s'. m s = (Inr x, s') \<and> f x s' = (Inr y, s''))"
  by (auto simp: io_bind_def split: prod.splits sum.splits)

lemma write_chunks_ok:
  assumes "sound_source V get"
  shows "write_chunks get tmp hs (d, s) = (Inr u, (d', s')) \<Longrightarrow> file_at d tmp = Some f
    \<Longrightarrow> \<exists>b f'. content_of V hs b \<and> file_at d' tmp = Some f' \<and> fn_data f' = fn_data f @ b"
proof (induction hs arbitrary: d s f)
  case Nil
  then show ?case by (auto simp: content_of_simps)
next
  case (Cons h hs)
  from Cons.prems(1) obtain x s1 d2 where step: "get h s = (Inr x, s1)" "write_all x tmp d = (Inr (), d2)"
    "write_chunks get tmp hs (d2, s1) = (Inr u, (d', s'))"
    by (auto simp: io_bind_ok fetch_chunk_def split: prod.splits sum.splits dest!: on_disk_ok)
  obtain f1 where f1: "file_at d2 tmp = Some f1" "fn_data f1 = fn_data f @ x"
    using write_all_ok [OF step(2)] Cons.prems(2) by auto
  obtain b f' where "content_of V hs b" "file_at d' tmp = Some f'" "fn_data f' = fn_data f1 @ b"
    using Cons.IH [OF step(3) f1(1)] by blast
  moreover have "V h x"
    using assms step(1) by (auto simp: sound_source_def)
  ultimately show ?case
    using f1(2) content_of_simps(2) by (metis append.assoc)
qed

section \<open>One file\<close>

definition in_pear :: "fs_path \<Rightarrow> bool" where
  "in_pear p \<longleftrightarrow> (\<exists>q. p = ''.pear'' # q)"

lemma staged_in_pear: "in_pear (STAGING @ q)" "in_pear MANIFEST_JSON" "STAGING @ [x] \<noteq> MANIFEST_JSON"
  by (simp_all add: in_pear_def STAGING_def MANIFEST_JSON_def)

lemma stage_file_leaves: "keeps (disk_only (leaves_except {tmp})) (stage_file get tmp dest e)"
  unfolding stage_file_def set_mode_def
  by (intro keeps_io_bind disk_only_trans leaves_except_trans keeps_on_disk keeps_write_chunks create_private_file_leaves
      file_call_leaves frames_mono(1) [OF ensure_real_ancestors_leaves] frames_mono(1) [OF create_dir_all_leaves])

lemma stage_file_ok:
  assumes "stage_file get tmp dest e (d, s) = (Inr u, (d', s'))" "sound_source V get"
  shows "\<exists>f. file_at d' tmp = Some f \<and> content_of V (fe_chunks e) (fn_data f) \<and> fn_mode f = fe_mode e AND 0x1FF"
proof -
  obtain d1 d2 d3 d4 s2 where step: "create_private_file tmp d = (Inr (), d1)"
    "write_chunks get tmp (fe_chunks e) (d1, s) = (Inr (), (d2, s2))"
    "set_mode (fe_mode e) tmp d2 = (Inr (), d3)" "ensure_real_ancestors dest d3 = (Inr (), d4)"
    "create_dir_all (butlast dest) d4 = (Inr (), d')"
    using assms(1) by (auto simp: stage_file_def io_bind_ok dest!: on_disk_ok)
  obtain f1 where f1: "file_at d1 tmp = Some f1" "fn_data f1 = []"
    using open_truncate_ok step(1) unfolding create_private_file_def by blast
  obtain f2 where f2: "file_at d2 tmp = Some f2" "content_of V (fe_chunks e) (fn_data f2)"
    using write_chunks_ok [OF assms(2) step(2) f1(1)] f1(2) by auto
  obtain f3 where f3: "file_at d3 tmp = Some f3" "content_of V (fe_chunks e) (fn_data f3)" "fn_mode f3 = fe_mode e AND 0x1FF"
    using set_permissions_ok [OF step(3) [unfolded set_mode_def]] f2 by auto
  have "file_at d' tmp = file_at d4 tmp" "file_at d4 tmp = file_at d3 tmp"
    using leaves_except_file [OF keepsD [OF create_dir_all_leaves step(5)]]
      leaves_except_file [OF keepsD [OF ensure_real_ancestors_leaves step(4)]] by simp_all
  then show ?thesis using f3 by simp
qed

lemma write_file_leaves:
  "keeps (disk_only (leaves_except {STAGING @ [tmp_name rel], disk_names rel})) (write_file get tmp_name e rel)"
  unfolding write_file_def Let_def
proof (intro keeps_io_bind disk_only_trans leaves_except_trans keeps_on_disk rename_file_leaves)
  show "keeps (disk_only (leaves_except {STAGING @ [tmp_name rel], disk_names rel}))
      (stage_file get (STAGING @ [tmp_name rel]) (disk_names rel) e)"
    by (rule keeps_mono [OF stage_file_leaves]) (auto simp: disk_only_def leaves_except_def)
  show "keeps (leaves_except {STAGING @ [tmp_name rel], disk_names rel})
      (set_file_mtime (fe_mtime_secs e, clamp_nanos (fe_mtime_nanos e)) (disk_names rel))"
    by (rule keeps_leaves_mono [OF file_call_leaves(3)]) simp
qed

text \<open>The destination changes only by the rename, to the whole new file.\<close>

lemma set_file_mtime_data:
  assumes "set_file_mtime t p d = (r, d')" "file_at d p = Some f"
  shows "\<exists>m. file_at d' p = Some (f\<lparr>fn_mtime := m\<rparr>)"
  using assms unfolding set_file_mtime_def with_file_def syscall_def file_at_tree
  by (auto split: list.splits prod.splits sum.splits node.splits if_splits dest!: lookup_node_Some intro: exI [of _ "fn_mtime f"])

lemma write_file_cases:
  assumes w: "write_file get tmp_name e rel (d, s) = (r, (d', s'))" and V: "sound_source V get"
    and rel: "\<not> in_pear (disk_names rel)"
  shows "leaf d' (disk_names rel) = leaf d (disk_names rel) \<and> (\<exists>x. r = Inl x)
    \<or> installed V e (leaf d' (disk_names rel)) \<and> (r = Inr () \<longrightarrow> in_place V e (leaf d' (disk_names rel)))"
proof -
  let ?tmp = "STAGING @ [tmp_name rel]" and ?dest = "disk_names rel"
  have ne: "?dest \<noteq> ?tmp"
    using rel staged_in_pear(1) by metis
  obtain r1 d1 s1 where st: "stage_file get ?tmp ?dest e (d, s) = (r1, (d1, s1))" by (metis prod.exhaust)
  have d1: "leaf d1 ?dest = leaf d ?dest"
    using keeps_disk_onlyD [OF stage_file_leaves st] ne by (simp add: leaves_except_def)
  show ?thesis
  proof (cases r1)
    case (Inl x)
    then show ?thesis
      using w st d1 by (auto simp: write_file_def Let_def io_bind_def)
  next
    case (Inr u)
    obtain r2 d2 where n: "rename_file ?tmp ?dest d1 = (r2, d2)" by fastforce
    show ?thesis
    proof (cases r2)
      case (Inl x)
      then show ?thesis
        using w st Inr n d1 rename_file_err [OF n [unfolded Inl], of ?dest]
        by (auto simp: write_file_def Let_def io_bind_def on_disk_def)
    next
      case ok: (Inr u2)
      obtain f where f: "file_at d1 ?tmp = Some f" "content_of V (fe_chunks e) (fn_data f)" "fn_mode f = fe_mode e AND 0x1FF"
        using stage_file_ok [OF st [unfolded Inr] V] by blast
      have f2: "file_at d2 ?dest = Some f"
        using rename_file_ok [OF n [unfolded ok] f(1)] .
      obtain r3 d3 where t: "set_file_mtime (fe_mtime_secs e, clamp_nanos (fe_mtime_nanos e)) ?dest d2 = (r3, d3)" by fastforce
      have d': "d' = d3" "is_ok r \<longleftrightarrow> is_ok r3"
        using w st Inr n ok t by (auto simp: write_file_def Let_def io_bind_def on_disk_def split: sum.splits)
      obtain m where m: "file_at d' ?dest = Some (f\<lparr>fn_mtime := m\<rparr>)"
        using set_file_mtime_data [OF t f2] d' by auto
      have "r = Inr () \<Longrightarrow> m = Some (fe_mtime_secs e, clamp_nanos (fe_mtime_nanos e))"
      proof -
        assume "r = Inr ()"
        then obtain u3 where u3: "r3 = Inr u3"
          using d'(2) by (auto simp: is_ok_def split: sum.splits)
        have "f\<lparr>fn_mtime := Some (fe_mtime_secs e, clamp_nanos (fe_mtime_nanos e))\<rparr> = f\<lparr>fn_mtime := m\<rparr>"
          using set_file_mtime_ok [OF t [unfolded u3]] m f2 d'(1) by auto
        from arg_cong [OF this, of fn_mtime] show ?thesis by simp
      qed
      then show ?thesis
        using m f by (auto simp: installed_def in_place_def file_at_leaf)
    qed
  qed
qed

section \<open>The batch, whatever fails\<close>

text \<open>The same file, written back to disk or not.\<close>

definition strip :: "node option \<Rightarrow> node option" where
  "strip n = map_option (\<lambda>n. case n of File f \<Rightarrow> File (f\<lparr>fn_synced := True\<rparr>) | n \<Rightarrow> n) n"

lemma strip_installed: "strip m = strip n \<Longrightarrow> installed V e m \<longleftrightarrow> installed V e n"
proof -
  have "installed V e n \<longleftrightarrow> installed V e (strip n)" for n
    by (cases n) (auto simp: installed_def strip_def split: node.splits)
  then show "strip m = strip n \<Longrightarrow> ?thesis" by metis
qed

lemma strip_in_place: "strip m = strip n \<Longrightarrow> in_place V e m \<longleftrightarrow> in_place V e n"
proof -
  have "in_place V e n \<longleftrightarrow> in_place V e (strip n)" for n
    by (cases n) (auto simp: in_place_def strip_def split: node.splits)
  then show "strip m = strip n \<Longrightarrow> ?thesis" by metis
qed

lemma strip_None [simp]: "strip n = None \<longleftrightarrow> n = None"
  by (simp add: strip_def)

text \<open>At every path of the tree: what was there, nothing if it is being deleted, or the
  whole new file if it is being written; and the manifest pointer as it was.\<close>

definition applying ::
  "(string \<Rightarrow> bytes \<Rightarrow> bool) \<Rightarrow> manifest \<Rightarrow> string list \<Rightarrow> string list \<Rightarrow> disk \<Rightarrow> disk \<Rightarrow> bool" where
  "applying V new dels wrs d d' \<longleftrightarrow>
     (\<forall>p. \<not> in_pear p \<longrightarrow> strip (leaf d' p) = strip (leaf d p)
        \<or> leaf d' p = None \<and> p \<in> disk_names ` set dels
        \<or> (\<exists>rel\<in>set wrs. \<exists>e. p = disk_names rel \<and> entry_at new rel = Some e \<and> installed V e (leaf d' p)))
     \<and> leaf d' MANIFEST_JSON = leaf d MANIFEST_JSON"

lemma applying_refl: "reflp (applying V new dels wrs)"
  by (rule reflpI) (simp add: applying_def)

lemma applying_trans: "transp (applying V new dels wrs)"
proof (rule transpI)
  fix d d1 d2
  assume a: "applying V new dels wrs d d1" "applying V new dels wrs d1 d2"
  show "applying V new dels wrs d d2"
    unfolding applying_def
  proof (intro conjI allI impI)
    show "leaf d2 MANIFEST_JSON = leaf d MANIFEST_JSON"
      using a by (simp add: applying_def)
    fix p
    assume p: "\<not> in_pear p"
    show "strip (leaf d2 p) = strip (leaf d p)
        \<or> leaf d2 p = None \<and> p \<in> disk_names ` set dels
        \<or> (\<exists>rel\<in>set wrs. \<exists>e. p = disk_names rel \<and> entry_at new rel = Some e \<and> installed V e (leaf d2 p))"
    proof (cases "strip (leaf d2 p) = strip (leaf d1 p)")
      case True
      then show ?thesis
        using a(1) p strip_installed [OF True] unfolding applying_def by (metis strip_None)
    next
      case False
      then show ?thesis
        using a(2) p unfolding applying_def by blast
    qed
  qed
qed

lemma leaves_except_applying:
  "leaves_except P d d' \<Longrightarrow> (\<And>p. p \<in> P \<Longrightarrow> in_pear p \<and> p \<noteq> MANIFEST_JSON) \<Longrightarrow> applying V new dels wrs d d'"
  unfolding leaves_except_def applying_def by (metis staged_in_pear(2))

lemma keeps_applying:
  "keeps (leaves_except P) m \<Longrightarrow> (\<And>p. p \<in> P \<Longrightarrow> in_pear p \<and> p \<noteq> MANIFEST_JSON) \<Longrightarrow> keeps (applying V new dels wrs) m"
  unfolding keeps_def using leaves_except_applying by metis

lemma prune_leaves [frames]: "keeps (leaves_except {}) (prune_empty_parents p)"
  unfolding prune_empty_parents_def by (intro keeps_io_ignore leaves_except_each remove_dir_leaves)

lemma delete_file_leaves: "keeps (leaves_except {disk_names rel}) (delete_file rel)"
  unfolding delete_file_def Let_def
proof (intro leaves_except_bind)
  have "leaves_except {disk_names rel} d (snd (case remove_file (disk_names rel) d of (Inl IoNotFound, d) \<Rightarrow> (Inr (), d) | r \<Rightarrow> r))" for d
    using remove_file_leaves [of "disk_names rel"] unfolding keeps_def
    by (cases "remove_file (disk_names rel) d") (auto split: sum.splits io_error.splits elim: allE [of _ d])
  then show "keeps (leaves_except {disk_names rel}) (\<lambda>d. case remove_file (disk_names rel) d of (Inl IoNotFound, d) \<Rightarrow> (Inr (), d) | r \<Rightarrow> r)"
    unfolding keeps_def by blast
qed (auto intro: frames_mono(1) [OF ensure_real_ancestors_leaves] frames_mono(1) [OF prune_leaves])

lemma delete_file_cases:
  assumes "delete_file rel d = (r, d')"
  shows "leaf d' (disk_names rel) = None \<or> (\<exists>x. r = Inl x) \<and> leaf d' (disk_names rel) = leaf d (disk_names rel)"
proof -
  let ?p = "disk_names rel"
  obtain r1 d1 where a: "ensure_real_ancestors ?p d = (r1, d1)" by fastforce
  obtain r2 d2 where b: "remove_file ?p d1 = (r2, d2)" by fastforce
  obtain r3 d3 where c: "prune_empty_parents ?p d2 = (r3, d3)" by fastforce
  have "leaf d1 ?p = leaf d ?p" "leaf d3 ?p = leaf d2 ?p"
    using keepsD [OF ensure_real_ancestors_leaves a] keepsD [OF prune_leaves c] by (simp_all add: leaves_except_def)
  then show ?thesis
    using assms a b c remove_file_cases [OF b]
    by (cases r1; cases r2) (auto simp: delete_file_def Let_def io_bind_def split: io_error.splits)
qed

lemma delete_file_applying:
  assumes "rel \<in> set dels" "\<not> in_pear (disk_names rel)"
  shows "keeps (applying V new dels wrs) (delete_file rel)"
  unfolding keeps_def
proof
  fix d
  obtain r d' where e: "delete_file rel d = (r, d')" by fastforce
  have "leaves_except {disk_names rel} d d'"
    using keepsD [OF delete_file_leaves e] .
  then show "applying V new dels wrs d (snd (delete_file rel d))"
    using e delete_file_cases [OF e] assms staged_in_pear(2) unfolding applying_def leaves_except_def
    by (metis image_eqI singletonD snd_conv)
qed

lemma write_entry_applying:
  assumes "rel \<in> set wrs" "\<not> in_pear (disk_names rel)" "sound_source V get"
  shows "keeps (disk_only (applying V new dels wrs)) (write_entry get tmp_name new rel)"
proof (cases "entry_at new rel")
  case None
  then show ?thesis
    by (simp add: write_entry_def keeps_def io_fail_def disk_only_def applying_def)
next
  case (Some e)
  have "applying V new dels wrs d (fst (snd (write_file get tmp_name e rel (d, s))))" for d s
  proof -
    obtain r d' s' where w: "write_file get tmp_name e rel (d, s) = (r, (d', s'))" by (metis prod.exhaust)
    have l: "leaves_except {STAGING @ [tmp_name rel], disk_names rel} d d'"
      using keeps_disk_onlyD [OF write_file_leaves w] .
    have "leaf d' (disk_names rel) = leaf d (disk_names rel) \<or> installed V e (leaf d' (disk_names rel))"
      using write_file_cases [OF w assms(3,2)] by blast
    moreover have "leaf d' p = leaf d p" if "\<not> in_pear p \<or> p = MANIFEST_JSON" "p \<noteq> disk_names rel" for p
      using l that staged_in_pear unfolding leaves_except_def by (metis insertE singletonD)
    moreover have "disk_names rel \<noteq> MANIFEST_JSON"
      using assms(2) staged_in_pear(2) by metis
    ultimately have "applying V new dels wrs d d'"
      using assms(1) Some unfolding applying_def by metis
    then show ?thesis using w by simp
  qed
  then show ?thesis
    using Some by (auto simp: write_entry_def keeps_def disk_only_def)
qed

lemma flush_written_strip:
  assumes "flush_written rel d = (r, d')"
  shows "strip (leaf d' p) = strip (leaf d p)" "p \<noteq> disk_names rel \<Longrightarrow> leaf d' p = leaf d p"
proof -
  have sync: "strip (leaf d2 q) = strip (leaf d1 q)" if "sync_all q d1 = (r, d2)" for q d1 r d2
  proof -
    show ?thesis
      using with_file_cases [OF that [unfolded sync_all_def]]
      by (auto simp: strip_def leaf_def file_at_tree split: if_splits)
  qed
  have other: "q \<noteq> p \<Longrightarrow> leaf d2 p = leaf d1 p" if "sync_all q d1 = (r, d2)" for q d1 r d2 p
    using keepsD [OF file_call_leaves(4) that] by (simp add: leaves_except_def)
  obtain r1 d1 where a: "read_file (disk_names rel) d = (r1, d1)" by fastforce
  have d1: "leaf d1 q = leaf d q" for q
    using keepsD [OF read_calls_leaves(3) a] by (simp add: leaves_except_def)
  show "p \<noteq> disk_names rel \<Longrightarrow> leaf d' p = leaf d p"
    using assms a d1 other by (auto simp: flush_written_def split: sum.splits io_error.splits)
  then show "strip (leaf d' p) = strip (leaf d p)"
    using assms a d1 sync by (cases "p = disk_names rel") (auto simp: flush_written_def split: sum.splits io_error.splits)
qed

lemma flush_written_applying:
  assumes "\<not> in_pear (disk_names rel)"
  shows "keeps (applying V new dels wrs) (flush_written rel)"
  unfolding keeps_def
proof
  fix d
  obtain r d' where e: "flush_written rel d = (r, d')" by fastforce
  have "disk_names rel \<noteq> MANIFEST_JSON"
    using assms staged_in_pear(2) by metis
  then show "applying V new dels wrs d (snd (flush_written rel d))"
    using flush_written_strip [OF e] e unfolding applying_def by simp
qed

lemma write_manifest_leaves:
  "keeps (leaves_except {p. in_pear p}) (write_file_atomic MANIFEST_JSON b)"
  by (rule keeps_leaves_mono [OF write_file_atomic_leaves])
    (simp add: in_pear_def MANIFEST_JSON_def)

lemma path_ok_not_in_pear: "path_ok p \<Longrightarrow> \<not> in_pear (disk_names p)"
proof -
  assume ok: "path_ok p"
  obtain c cs where seg: "split_on CHR ''/'' p = c # cs" "c \<noteq> ''.''" "\<not> eq_ignore_ascii_case c ''.pear''"
    using path_ok_segments [OF ok] by blast
  then show ?thesis
    using disk_names_ok [OF ok] by (auto simp: in_pear_def eq_ignore_ascii_case_def)
qed

lemma read_dir_entries: "read_dir p d = (Inr qs, d') \<Longrightarrow> q \<in> set qs \<Longrightarrow> length q = Suc (length p) \<and> take (length p) q = p"
  unfolding read_dir_def by (drule atomic_ok) (auto split: sum.splits if_splits)

lemma clean_staging_only: "keeps (leaves_except {p. \<exists>x. p = STAGING @ [x]}) clean_staging"
  (is "keeps (leaves_except ?P) _")
proof -
  have "leaves_except ?P d (snd (io_bind (read_dir STAGING) (io_each (\<lambda>p. io_ignore (remove_file p))) d))" for d
  proof (cases "read_dir STAGING d")
    case (Pair r d1)
    have d1: "leaves_except ?P d d1"
      using leaves_except_mono [OF keepsD [OF read_calls_leaves(2) Pair]] by blast
    show ?thesis
    proof (cases r)
      case (Inl e)
      then show ?thesis using Pair d1 by (simp add: io_bind_def)
    next
      case (Inr qs)
      have "\<exists>x. q = STAGING @ [x]" if "q \<in> set qs" for q
      proof -
        have "length q = 3" "take 2 q = STAGING"
          using read_dir_entries [OF Pair [unfolded Inr] that] by (simp_all add: STAGING_def numeral_2_eq_2)
        then obtain x where "q = STAGING @ [x]"
          by (cases q; cases "tl q"; cases "tl (tl q)") (auto simp: STAGING_def)
        then show ?thesis ..
      qed
      then have "keeps (leaves_except ?P) (io_ignore (remove_file q) :: disk \<Rightarrow> (io_error, unit) result \<times> disk)" if "q \<in> set qs" for q
        using that by (intro keeps_io_ignore keeps_leaves_mono [OF remove_file_leaves]) auto
      then have "keeps (leaves_except ?P) (io_each (\<lambda>p. io_ignore (remove_file p)) qs :: disk \<Rightarrow> (io_error, unit) result \<times> disk)"
        by (intro keeps_io_each leaves_except_refl leaves_except_trans)
      then show ?thesis
        using Pair Inr d1 transpD [OF leaves_except_trans] by (simp add: io_bind_def keeps_def)
    qed
  qed
  then show ?thesis
    unfolding clean_staging_def by (intro keeps_io_ignore) (simp add: keeps_def)
qed

lemma clean_staging_leaves: "keeps (leaves_except {p. in_pear p \<and> p \<noteq> MANIFEST_JSON}) clean_staging"
  by (rule keeps_leaves_mono [OF clean_staging_only]) (use staged_in_pear in auto)

lemma clean_staging_applying: "keeps (applying V new dels wrs) clean_staging"
  by (rule keeps_applying [OF clean_staging_leaves]) simp

lemma apply_batch_applying:
  assumes "sound_source V get" "\<forall>rel\<in>set (wt_del @ git_del @ wt_wr @ git_wr). path_ok rel"
    "set (wt_del @ git_del) \<subseteq> set dels" "set (wt_wr @ git_wr) \<subseteq> set wrs"
  shows "keeps (disk_only (applying V new dels wrs)) (apply_batch tmp_name get new wt_del wt_wr git_del git_wr)"
proof -
  have pear: "rel \<in> set (wt_del @ git_del @ wt_wr @ git_wr) \<Longrightarrow> \<not> in_pear (disk_names rel)" for rel
    using assms(2) path_ok_not_in_pear by blast
  have del: "keeps (disk_only (applying V new dels wrs)) (on_disk (io_each delete_file ds))"
    if "set ds \<subseteq> set (wt_del @ git_del)" for ds
    using that assms(3) pear
    by (intro keeps_on_disk keeps_io_each applying_refl applying_trans delete_file_applying) auto
  have wr: "keeps (disk_only (applying V new dels wrs)) (io_each (write_entry get tmp_name new) ws)"
    if "set ws \<subseteq> set (wt_wr @ git_wr)" for ws
    using that assms(1,4) pear
    by (intro keeps_io_each disk_only_refl disk_only_trans applying_refl applying_trans write_entry_applying) auto
  have fl: "keeps (applying V new dels wrs) (io_each flush_written (wt_wr @ git_wr))"
    using pear by (intro keeps_io_each applying_refl applying_trans flush_written_applying) auto
  show ?thesis
    unfolding apply_batch_def
    by (intro keeps_io_bind disk_only_trans applying_trans keeps_on_disk clean_staging_applying fl del wr
        keeps_applying [OF create_dir_all_leaves] keeps_applying [OF set_private_dir_leaves]) auto
qed

text \<open>What an apply attempts, once its checks have passed.\<close>

lemma apply_commit_batch:
  assumes "apply_commit lower to_json tmp_name get old new commit (d, s) = (r, (d', s'))"
  obtains "d' = d" "s' = s" "\<not> is_ok r"
  | wt_del git_del wt_wr git_wr r1 d1 s1 where
      "validate old = Inr ()" "validate new = Inr ()" "case_collision lower [] (bt_keys (mf_files new)) = None"
      "partition_git (md_deleted (diff old new)) = (wt_del, git_del)"
      "partition_git (md_added (diff old new) @ md_changed (diff old new)) = (wt_wr, git_wr)"
      "apply_batch tmp_name get new wt_del wt_wr git_del git_wr (d, s) = (r1, (d1, s1))"
      "\<not> is_ok r1 \<and> \<not> is_ok r \<and> d' = d1 \<or>
       is_ok r1 \<and> (\<exists>r2. write_file_atomic MANIFEST_JSON (to_json commit) d1 = (r2, d') \<and> (is_ok r \<longleftrightarrow> is_ok r2))
         \<and> (is_ok r \<longrightarrow> r = Inr \<lparr>ar_written = wt_wr @ git_wr, ar_deleted = wt_del @ git_del\<rparr>)"
proof (cases "is_ok (validate old) \<and> is_ok (validate new) \<and> case_collision lower [] (bt_keys (mf_files new)) = None")
  case False
  then show thesis
    using assms that(1) by (auto simp: apply_commit_def is_ok_def split: sum.splits option.splits prod.splits)
next
  case True
  obtain wt_del git_del where pd: "partition_git (md_deleted (diff old new)) = (wt_del, git_del)" by fastforce
  obtain wt_wr git_wr where pw: "partition_git (md_added (diff old new) @ md_changed (diff old new)) = (wt_wr, git_wr)" by fastforce
  obtain r1 d1 s1 where b: "apply_batch tmp_name get new wt_del wt_wr git_del git_wr (d, s) = (r1, (d1, s1))" by (metis prod.exhaust)
  obtain r2 d2 where w: "write_file_atomic MANIFEST_JSON (to_json commit) d1 = (r2, d2)" by fastforce
  have v: "validate old = Inr ()" "validate new = Inr ()" "case_collision lower [] (bt_keys (mf_files new)) = None"
    using True by (auto simp: is_ok_def split: sum.splits)
  have e: "(io_bind (apply_batch tmp_name get new wt_del wt_wr git_del git_wr) (\<lambda>_.
      io_bind (on_disk (write_file_atomic MANIFEST_JSON (to_json commit))) (\<lambda>_.
      io_return \<lparr>ar_written = wt_wr @ git_wr, ar_deleted = wt_del @ git_del\<rparr>)) (d, s)) = (r, (d', s'))"
    using assms v pd pw by (simp add: apply_commit_def)
  have "\<not> is_ok r1 \<and> \<not> is_ok r \<and> d' = d1 \<or>
       is_ok r1 \<and> (\<exists>r2. write_file_atomic MANIFEST_JSON (to_json commit) d1 = (r2, d') \<and> (is_ok r \<longleftrightarrow> is_ok r2))
         \<and> (is_ok r \<longrightarrow> r = Inr \<lparr>ar_written = wt_wr @ git_wr, ar_deleted = wt_del @ git_del\<rparr>)"
  proof (cases r1)
    case (Inl x)
    then show ?thesis using e b by (auto simp: io_bind_def)
  next
    case (Inr u)
    then show ?thesis
      using e b w by (cases r2) (auto simp: io_bind_def on_disk_def io_return_def)
  qed
  then show thesis
    using that(2) v pd pw b by blast
qed

lemma apply_commit_applying:
  assumes "apply_commit lower to_json tmp_name get old new commit (d, s) = (r, (d', s'))" "sound_source V get"
  shows "\<exists>d1. applying V new (md_deleted (diff old new)) (md_added (diff old new) @ md_changed (diff old new)) d d1
     \<and> (\<forall>p. \<not> in_pear p \<longrightarrow> leaf d' p = leaf d1 p)
     \<and> (if is_ok r then \<exists>f. file_at d' MANIFEST_JSON = Some f \<and> fn_data f = to_json commit \<and> fn_synced f
        else leaf d' MANIFEST_JSON = leaf d MANIFEST_JSON)"
  using assms(1)
proof (cases rule: apply_commit_batch)
  case 1
  then show ?thesis
    by (auto simp: applying_def intro!: exI [of _ d])
next
  case (2 wt_del git_del wt_wr git_wr r1 d1 s1)
  let ?wrs = "md_added (diff old new) @ md_changed (diff old new)"
  have sets: "set (wt_del @ git_del) \<subseteq> set (md_deleted (diff old new))" "set (wt_wr @ git_wr) \<subseteq> set ?wrs"
    using 2(4,5) by (auto simp: partition_git_def)
  have "\<forall>rel\<in>set (wt_del @ git_del @ wt_wr @ git_wr). path_ok rel"
  proof
    fix rel assume "rel \<in> set (wt_del @ git_del @ wt_wr @ git_wr)"
    then consider "rel \<in> set (md_deleted (diff old new))" | "rel \<in> set ?wrs"
      using sets by auto
    then have "entry_at old rel \<noteq> None \<or> entry_at new rel \<noteq> None"
      by cases (auto simp: diff_def bt_contains_def)
    then show "path_ok rel"
      using validate_key_ok(1) 2(1,2) by blast
  qed
  from apply_batch_applying [OF assms(2) this sets, THEN keeps_disk_onlyD, OF 2(6)]
  have a: "applying V new (md_deleted (diff old new)) ?wrs d d1" .
  show ?thesis
  proof (cases "is_ok r1")
    case False
    then have "d' = d1" "\<not> is_ok r"
      using 2(7) by auto
    then show ?thesis
      using a by (auto simp: applying_def)
  next
    case True
    then obtain r2 where w: "write_file_atomic MANIFEST_JSON (to_json commit) d1 = (r2, d')" "is_ok r \<longleftrightarrow> is_ok r2"
      using 2(7) by blast
    have "leaf d' p = leaf d1 p" if "\<not> in_pear p" for p
      using keepsD [OF write_manifest_leaves w(1)] that by (simp add: leaves_except_def)
    moreover have "(\<exists>e. r2 = Inl e) \<and> leaf d' MANIFEST_JSON = leaf d1 MANIFEST_JSON
        \<or> r2 = Inr () \<and> (\<exists>f. file_at d' MANIFEST_JSON = Some f \<and> fn_data f = to_json commit \<and> fn_synced f)"
      by (rule write_file_atomic_cases [OF w(1)]) (simp_all add: MANIFEST_JSON_def with_extension_def)
    then have "if is_ok r then \<exists>f. file_at d' MANIFEST_JSON = Some f \<and> fn_data f = to_json commit \<and> fn_synced f
        else leaf d' MANIFEST_JSON = leaf d MANIFEST_JSON"
      using a w(2) by (auto simp: applying_def is_ok_def)
    ultimately show ?thesis
      using a by blast
  qed
qed

text \<open>C15: Whichever call fails, and wherever the batch stops, no file outside the difference of the two
  manifests changes, a file inside it is never torn (it is still the old one, gone if it was to go, or
  the whole new one, made of verified chunks with the setuid bits off), and the manifest pointer
  moves exactly when the apply returns without an error.\<close>

theorem apply_never_torn:
  assumes "apply_commit lower to_json tmp_name get old new commit (d, s) = (r, (d', s'))" "sound_source V get"
  shows "(\<forall>p. \<not> in_pear p \<longrightarrow> strip (leaf d' p) = strip (leaf d p)
        \<or> leaf d' p = None \<and> p \<in> disk_names ` set (md_deleted (diff old new))
        \<or> (\<exists>rel\<in>set (md_added (diff old new) @ md_changed (diff old new)). \<exists>e.
             p = disk_names rel \<and> entry_at new rel = Some e \<and> installed V e (leaf d' p)))
     \<and> (if is_ok r then \<exists>f. file_at d' MANIFEST_JSON = Some f \<and> fn_data f = to_json commit \<and> fn_synced f
        else leaf d' MANIFEST_JSON = leaf d MANIFEST_JSON)"
proof -
  obtain d1 where "applying V new (md_deleted (diff old new)) (md_added (diff old new) @ md_changed (diff old new)) d d1"
    "\<forall>p. \<not> in_pear p \<longrightarrow> leaf d' p = leaf d1 p"
    "if is_ok r then \<exists>f. file_at d' MANIFEST_JSON = Some f \<and> fn_data f = to_json commit \<and> fn_synced f
        else leaf d' MANIFEST_JSON = leaf d MANIFEST_JSON"
    using apply_commit_applying [OF assms] by blast
  then show ?thesis
    by (simp add: applying_def)
qed

section \<open>What a finished batch has done\<close>

lemma io_each_deletes:
  assumes "io_each delete_file ds d = (Inr u, d')"
  shows "leaves_except (disk_names ` set ds) d d' \<and> (\<forall>rel\<in>set ds. leaf d' (disk_names rel) = None)"
  using assms
proof (induction ds arbitrary: d)
  case Nil
  then show ?case by (simp add: leaves_except_def)
next
  case (Cons a ds)
  then obtain d1 where d1: "delete_file a d = (Inr (), d1)" "io_each delete_file ds d1 = (Inr u, d')"
    by (auto simp: io_bind_ok)
  have a: "leaf d1 (disk_names a) = None"
    using delete_file_cases [OF d1(1)] by auto
  have l: "leaves_except {disk_names a} d d1"
    using keepsD [OF delete_file_leaves d1(1)] .
  note ih = Cons.IH [OF d1(2)]
  have "leaf d' (disk_names a) = None"
    using ih a by (cases "disk_names a \<in> disk_names ` set ds") (auto simp: leaves_except_def)
  then show ?case
    using ih l by (auto simp: leaves_except_def)
qed

lemma io_each_writes:
  assumes "io_each (write_entry get tmp_name new) ws (d, s) = (Inr u, (d', s'))" "sound_source V get"
    "\<forall>rel\<in>set ws. \<not> in_pear (disk_names rel)" "inj_on disk_names (set ws)" "distinct ws"
  shows "(\<forall>p. \<not> in_pear p \<longrightarrow> p \<notin> disk_names ` set ws \<longrightarrow> leaf d' p = leaf d p)
    \<and> (\<forall>rel\<in>set ws. \<exists>e. entry_at new rel = Some e \<and> in_place V e (leaf d' (disk_names rel)))"
  using assms(1,3-5)
proof (induction ws arbitrary: d s)
  case Nil
  then show ?case by simp
next
  case (Cons a ws)
  obtain d1 s1 where w: "write_entry get tmp_name new a (d, s) = (Inr (), (d1, s1))"
    "io_each (write_entry get tmp_name new) ws (d1, s1) = (Inr u, (d', s'))"
    using Cons.prems(1) by (auto simp: io_bind_ok)
  obtain e where e: "entry_at new a = Some e" "write_file get tmp_name e a (d, s) = (Inr (), (d1, s1))"
    using w(1) by (auto simp: write_entry_def io_fail_def split: option.splits)
  have a: "in_place V e (leaf d1 (disk_names a))"
    using write_file_cases [OF e(2) assms(2)] Cons.prems(2) by auto
  have l: "leaves_except {STAGING @ [tmp_name a], disk_names a} d d1"
    using keeps_disk_onlyD [OF write_file_leaves e(2)] .
  have ih: "(\<forall>p. \<not> in_pear p \<longrightarrow> p \<notin> disk_names ` set ws \<longrightarrow> leaf d' p = leaf d1 p)
    \<and> (\<forall>rel\<in>set ws. \<exists>e. entry_at new rel = Some e \<and> in_place V e (leaf d' (disk_names rel)))"
    by (rule Cons.IH [OF w(2)]) (use Cons.prems in auto)
  have "disk_names a \<notin> disk_names ` set ws"
    using Cons.prems(3,4) by (auto simp: inj_on_def)
  then have "leaf d' (disk_names a) = leaf d1 (disk_names a)"
    using ih Cons.prems(2) by simp
  moreover have "leaf d1 p = leaf d p" if "\<not> in_pear p" "p \<noteq> disk_names a" for p
    using l that staged_in_pear(1) unfolding leaves_except_def by (metis insertE singletonD)
  ultimately show ?case
    using ih a e(1) by auto
qed

lemma read_file_missing: "read_file p d = (Inl IoNotFound, d') \<Longrightarrow> leaf d' p = None"
  unfolding read_file_def
  by (erule atomic_cases) (auto simp: leaf_def split: sum.splits node.splits dest: lookup_node_None)

lemma flush_written_synced:
  assumes "flush_written rel d = (Inr u, d')" "leaf d' (disk_names rel) = Some (File f)"
  shows "fn_synced f"
proof -
  obtain r1 d1 where rd: "read_file (disk_names rel) d = (r1, d1)" by fastforce
  show ?thesis
  proof (cases "r1 = Inl IoNotFound")
    case True
    then show ?thesis
      using assms rd read_file_missing [of "disk_names rel" d d1] by (auto simp: flush_written_def)
  next
    case False
    then have "sync_all (disk_names rel) d1 = (Inr u, d')"
      using assms(1) rd by (auto simp: flush_written_def split: sum.splits io_error.splits)
    from sync_all_ok [OF this] show ?thesis
      using assms(2) by (auto simp: file_at_leaf)
  qed
qed

lemma strip_flush_mono:
  assumes "flush_written rel d = (r, d')" "leaf d p = Some (File f)" "fn_synced f" "leaf d' p = Some (File g)"
  shows "fn_synced g"
proof (cases "p = disk_names rel")
  case False
  then show ?thesis using flush_written_strip(2) [OF assms(1)] assms by simp
next
  case True
  obtain r1 d1 where rd: "read_file (disk_names rel) d = (r1, d1)" by fastforce
  have d1: "leaf d1 p = leaf d p"
    using keepsD [OF read_calls_leaves(3) rd] by (simp add: leaves_except_def)
  show ?thesis
  proof (cases r1)
    case (Inl e)
    then show ?thesis
      using assms rd d1 by (cases e) (auto simp: flush_written_def)
  next
    case (Inr x)
    then have "sync_all (disk_names rel) d1 = (r, d')"
      using assms(1) rd by (auto simp: flush_written_def)
    from with_file_cases [OF this [unfolded sync_all_def]] show ?thesis
      using assms d1 True by (auto simp: leaf_def file_at_tree split: if_splits)
  qed
qed

lemma io_each_flush:
  assumes "io_each flush_written ws d = (Inr u, d')"
  shows "strip (leaf d' p) = strip (leaf d p)"
    and "(\<exists>rel\<in>set ws. p = disk_names rel) \<or> (\<forall>f. leaf d p = Some (File f) \<longrightarrow> fn_synced f)
      \<Longrightarrow> leaf d' p = Some (File g) \<Longrightarrow> fn_synced g"
  using assms
proof (induction ws arbitrary: d)
  case Nil
  { case 1 then show ?case by simp }
  { case 2 then show ?case by simp }
next
  case (Cons a ws)
  have split: "\<exists>d1. flush_written a d = (Inr (), d1) \<and> io_each flush_written ws d1 = (Inr u, d')"
    if "io_each flush_written (a # ws) d = (Inr u, d')" for d
    using that by (auto simp: io_bind_ok)
  { case 1
    then show ?case
      using split [OF 1] Cons.IH(1) flush_written_strip(1) by metis }
  { case 2
    obtain d1 where d1: "flush_written a d = (Inr (), d1)" "io_each flush_written ws d1 = (Inr u, d')"
      using split [OF 2(3)] by blast
    have "fn_synced f1" if "leaf d1 p = Some (File f1)" "\<not> (\<exists>rel\<in>set ws. p = disk_names rel)" for f1
    proof (cases "p = disk_names a")
      case True
      then show ?thesis using flush_written_synced [OF d1(1)] that(1) by simp
    next
      case False
      then show ?thesis
        using flush_written_strip(2) [OF d1(1) False] 2(1) that by auto
    qed
    then show ?case
      using Cons.IH(2) [OF _ 2(2) d1(2)] by blast }
qed

text \<open>The leaf at every path after a batch that finished.\<close>

lemma apply_batch_ok:
  assumes run: "apply_batch tmp_name get new wt_del wt_wr git_del git_wr (d, s) = (Inr u, (d', s'))"
    and V: "sound_source V get"
    and paths: "\<forall>rel\<in>set (wt_del @ git_del @ wt_wr @ git_wr). path_ok rel"
    and inj: "inj_on disk_names (set (wt_del @ git_del @ wt_wr @ git_wr))"
    and dist: "distinct (wt_wr @ git_wr)" "set (wt_del @ git_del) \<inter> set (wt_wr @ git_wr) = {}"
  shows "rel \<in> set (wt_del @ git_del) \<Longrightarrow> leaf d' (disk_names rel) = None"
    and "rel \<in> set (wt_wr @ git_wr) \<Longrightarrow>
      \<exists>e f. entry_at new rel = Some e \<and> in_place V e (leaf d' (disk_names rel)) \<and> leaf d' (disk_names rel) = Some (File f) \<and> fn_synced f"
    and "\<not> in_pear p \<Longrightarrow> p \<notin> disk_names ` set (wt_del @ git_del @ wt_wr @ git_wr) \<Longrightarrow> strip (leaf d' p) = strip (leaf d p)"
proof -
  have pear: "rel \<in> set (wt_del @ git_del @ wt_wr @ git_wr) \<Longrightarrow> \<not> in_pear (disk_names rel)" for rel
    using paths path_ok_not_in_pear by blast
  obtain dA dB dC sC dD dE where steps:
    "\<forall>p. \<not> in_pear p \<longrightarrow> leaf dA p = leaf d p"
    "io_each delete_file wt_del dA = (Inr (), dB)"
    "io_each (write_entry get tmp_name new) wt_wr (dB, s) = (Inr (), (dC, sC))"
    "io_each delete_file git_del dC = (Inr (), dD)"
    "io_each (write_entry get tmp_name new) git_wr (dD, sC) = (Inr (), (dE, s'))"
    "io_each flush_written (wt_wr @ git_wr) dE = (Inr (), d')"
  proof -
    obtain d1 d2 d3 dA dB dC sC dD dE where x:
      "create_dir_all STAGING d = (Inr (), d1)" "set_private_dir PEAR d1 = (Inr (), d2)"
      "set_private_dir STAGING d2 = (Inr (), d3)" "clean_staging d3 = (Inr (), dA)"
      "io_each delete_file wt_del dA = (Inr (), dB)"
      "io_each (write_entry get tmp_name new) wt_wr (dB, s) = (Inr (), (dC, sC))"
      "io_each delete_file git_del dC = (Inr (), dD)"
      "io_each (write_entry get tmp_name new) git_wr (dD, sC) = (Inr (), (dE, s'))"
      "io_each flush_written (wt_wr @ git_wr) dE = (Inr (), d')"
      using run unfolding apply_batch_def by (auto simp: io_bind_ok dest!: on_disk_ok)
    have "leaves_except {} d d1" "leaves_except {} d1 d2" "leaves_except {} d2 d3"
      using keepsD [OF create_dir_all_leaves x(1)] keepsD [OF set_private_dir_leaves x(2)]
        keepsD [OF set_private_dir_leaves x(3)] .
    moreover have "\<forall>p. \<not> in_pear p \<longrightarrow> leaf dA p = leaf d3 p"
      using keepsD [OF clean_staging_leaves x(4)] by (simp add: leaves_except_def)
    ultimately have "\<forall>p. \<not> in_pear p \<longrightarrow> leaf dA p = leaf d p"
      by (simp add: leaves_except_def)
    then show thesis using that x by blast
  qed
  have inj': "inj_on disk_names (set wt_wr)" "inj_on disk_names (set git_wr)"
    using inj by (auto simp: inj_on_def)
  note wt = io_each_writes [OF steps(3) V _ inj'(1)] and git = io_each_writes [OF steps(5) V _ inj'(2)]
  have names: "disk_names a = disk_names b \<longleftrightarrow> a = b"
    if "a \<in> set (wt_del @ git_del @ wt_wr @ git_wr)" "b \<in> set (wt_del @ git_del @ wt_wr @ git_wr)" for a b
    using inj that by (auto dest: inj_onD)
  have B: "leaves_except (disk_names ` set wt_del) dA dB" "\<forall>rel\<in>set wt_del. leaf dB (disk_names rel) = None"
    using io_each_deletes [OF steps(2)] by auto
  have C: "\<forall>p. \<not> in_pear p \<longrightarrow> p \<notin> disk_names ` set wt_wr \<longrightarrow> leaf dC p = leaf dB p"
    "\<forall>rel\<in>set wt_wr. \<exists>e. entry_at new rel = Some e \<and> in_place V e (leaf dC (disk_names rel))"
    using wt pear dist(1) by auto
  have D: "leaves_except (disk_names ` set git_del) dC dD" "\<forall>rel\<in>set git_del. leaf dD (disk_names rel) = None"
    using io_each_deletes [OF steps(4)] by auto
  have E: "\<forall>p. \<not> in_pear p \<longrightarrow> p \<notin> disk_names ` set git_wr \<longrightarrow> leaf dE p = leaf dD p"
    "\<forall>rel\<in>set git_wr. \<exists>e. entry_at new rel = Some e \<and> in_place V e (leaf dE (disk_names rel))"
    using git pear dist(1) by auto
  note F = io_each_flush(1) [OF steps(6)] and S = io_each_flush(2) [OF steps(6)]
  show "strip (leaf d' p) = strip (leaf d p)"
    if "\<not> in_pear p" "p \<notin> disk_names ` set (wt_del @ git_del @ wt_wr @ git_wr)"
    using that F [of p] E(1) D(1) C(1) B(1) steps(1) by (simp add: leaves_except_def image_Un)
  show "leaf d' (disk_names rel) = None" if rel: "rel \<in> set (wt_del @ git_del)"
  proof -
    have ne: "disk_names rel \<notin> disk_names ` set (wt_wr @ git_wr)"
      using names rel dist(2) by auto
    have "leaf dD (disk_names rel) = None"
    proof (cases "rel \<in> set git_del")
      case True
      then show ?thesis using D(2) by simp
    next
      case False
      then have "leaf dB (disk_names rel) = None" "leaf dC (disk_names rel) = leaf dB (disk_names rel)"
        using rel B(2) C(1) pear ne by (auto simp: image_Un)
      then show ?thesis
        using D by (cases "disk_names rel \<in> disk_names ` set git_del") (auto simp: leaves_except_def)
    qed
    then have "leaf dE (disk_names rel) = None"
      using E(1) ne rel pear by (auto simp: image_Un)
    then show ?thesis
      using F [of "disk_names rel"] by (metis strip_None)
  qed
  show "\<exists>e f. entry_at new rel = Some e \<and> in_place V e (leaf d' (disk_names rel)) \<and> leaf d' (disk_names rel) = Some (File f) \<and> fn_synced f"
    if rel: "rel \<in> set (wt_wr @ git_wr)"
  proof -
    have "\<exists>e. entry_at new rel = Some e \<and> in_place V e (leaf dE (disk_names rel))"
    proof (cases "rel \<in> set git_wr")
      case True
      then show ?thesis using E(2) by simp
    next
      case False
      then have "disk_names rel \<notin> disk_names ` set git_wr" "disk_names rel \<notin> disk_names ` set git_del"
        using rel names dist by auto
      then have "leaf dE (disk_names rel) = leaf dC (disk_names rel)"
        using E(1) D(1) rel pear by (simp add: leaves_except_def)
      then show ?thesis using C(2) rel False by auto
    qed
    then obtain e where e: "entry_at new rel = Some e" "in_place V e (leaf d' (disk_names rel))"
      using strip_in_place [OF F] by blast
    then obtain f where f: "leaf d' (disk_names rel) = Some (File f)"
      by (auto simp: in_place_def)
    have "fn_synced f"
      using S [OF _ f] rel by blast
    then show ?thesis using e f by blast
  qed
qed

text \<open>The tree holds a manifest: every entry's file is in place.\<close>

definition tree_holds :: "(string \<Rightarrow> bytes \<Rightarrow> bool) \<Rightarrow> manifest \<Rightarrow> disk \<Rightarrow> bool" where
  "tree_holds V m d \<longleftrightarrow> (\<forall>rel e. entry_at m rel = Some e \<longrightarrow> in_place V e (leaf d (disk_names rel)))"

lemma partition_git_set: "partition_git ps = (a, b) \<Longrightarrow> set (a @ b) = set ps"
  by (auto simp: partition_git_def)

lemma diff_facts:
  assumes "manifest_wf old" "manifest_wf new"
  shows "distinct (md_added (diff old new) @ md_changed (diff old new))"
    "rel \<in> set (md_added (diff old new) @ md_changed (diff old new)) \<longleftrightarrow> entry_at new rel \<noteq> None \<and> entry_at old rel \<noteq> entry_at new rel"
    "rel \<in> set (md_deleted (diff old new)) \<longleftrightarrow> entry_at old rel \<noteq> None \<and> entry_at new rel = None"
proof -
  have "distinct (bt_keys (mf_files new))"
    using bt_wf_distinct assms by (simp add: manifest_wf_def bt_keys_def)
  then show "distinct (md_added (diff old new) @ md_changed (diff old new))"
    by (auto simp: diff_def)
  have "p \<in> set (bt_keys m) \<longleftrightarrow> bt_get m p \<noteq> None" for p and m :: "(string, file_entry) btree"
    by auto
  then show "rel \<in> set (md_added (diff old new) @ md_changed (diff old new)) \<longleftrightarrow> entry_at new rel \<noteq> None \<and> entry_at old rel \<noteq> entry_at new rel"
    "rel \<in> set (md_deleted (diff old new)) \<longleftrightarrow> entry_at old rel \<noteq> None \<and> entry_at new rel = None"
    unfolding diff_def bt_contains_def by (auto simp del: set_bt_keys split: option.splits)
qed

text \<open>An apply that returns has replaced the one tree by the other: the files of the new manifest
  are in place, what it wrote is on disk for good, what it lost is gone, and nothing else changed.\<close>

lemma apply_commit_ok:
  assumes run: "apply_commit lower to_json tmp_name get old new commit (d, s) = (Inr rep, (d', s'))"
    and V: "sound_source V get" and wf: "manifest_wf old" "manifest_wf new"
    and inj: "inj_on disk_names (dom (entry_at old) \<union> dom (entry_at new))"
    and unchanged: "\<forall>rel e. entry_at old rel = Some e \<and> entry_at new rel = Some e \<longrightarrow> in_place V e (leaf d (disk_names rel))"
  shows "tree_holds V new d'"
    "\<forall>rel\<in>dom (entry_at old) - dom (entry_at new). leaf d' (disk_names rel) = None"
    "\<forall>p. \<not> in_pear p \<longrightarrow> p \<notin> disk_names ` (dom (entry_at old) \<union> dom (entry_at new)) \<longrightarrow> strip (leaf d' p) = strip (leaf d p)"
    "\<forall>rel\<in>set (ar_written rep). \<exists>f. file_at d' (disk_names rel) = Some f \<and> fn_synced f"
    "set (ar_written rep) = {rel. entry_at new rel \<noteq> None \<and> entry_at old rel \<noteq> entry_at new rel}"
    "set (ar_deleted rep) = dom (entry_at old) - dom (entry_at new)"
    "\<exists>f. file_at d' MANIFEST_JSON = Some f \<and> fn_data f = to_json commit \<and> fn_synced f"
proof -
  from run obtain wt_del git_del wt_wr git_wr d1 s1 where b:
    "validate old = Inr ()" "validate new = Inr ()"
    "partition_git (md_deleted (diff old new)) = (wt_del, git_del)"
    "partition_git (md_added (diff old new) @ md_changed (diff old new)) = (wt_wr, git_wr)"
    "apply_batch tmp_name get new wt_del wt_wr git_del git_wr (d, s) = (Inr (), (d1, s1))"
    "write_file_atomic MANIFEST_JSON (to_json commit) d1 = (Inr (), d')"
    "rep = \<lparr>ar_written = wt_wr @ git_wr, ar_deleted = wt_del @ git_del\<rparr>"
  proof (cases rule: apply_commit_batch)
    case (2 wt_del git_del wt_wr git_wr r1 d1 s1)
    then obtain r2 where r2: "is_ok r1" "is_ok r2" "write_file_atomic MANIFEST_JSON (to_json commit) d1 = (r2, d')"
      "rep = \<lparr>ar_written = wt_wr @ git_wr, ar_deleted = wt_del @ git_del\<rparr>"
      by auto
    then have "r1 = Inr ()" "r2 = Inr ()"
      by (auto simp: is_ok_def split: sum.splits)
    then show thesis
      using that [OF 2(1,2,4,5) _ _ r2(4)] 2(6) r2(3) by simp
  qed simp
  let ?wrs = "md_added (diff old new) @ md_changed (diff old new)"
  have "rel \<in> set (wt_del @ git_del) \<longleftrightarrow> entry_at old rel \<noteq> None \<and> entry_at new rel = None"
    "rel \<in> set (wt_wr @ git_wr) \<longleftrightarrow> entry_at new rel \<noteq> None \<and> entry_at old rel \<noteq> entry_at new rel" for rel
    unfolding partition_git_set [OF b(3)] partition_git_set [OF b(4)] diff_facts(2,3) [OF wf] by (rule refl)+
  then have sets: "set (wt_del @ git_del) = dom (entry_at old) - dom (entry_at new)"
    "set (wt_wr @ git_wr) = {rel. entry_at new rel \<noteq> None \<and> entry_at old rel \<noteq> entry_at new rel}"
    by (simp_all only: set_eq_iff mem_Collect_eq Diff_iff domIff) auto
  have dist: "distinct (wt_wr @ git_wr)"
    using b(4) diff_facts(1) [OF wf] by (auto simp: partition_git_def)
  have disj: "set (wt_del @ git_del) \<inter> set (wt_wr @ git_wr) = {}"
    unfolding sets by auto
  have paths: "\<forall>rel\<in>set (wt_del @ git_del @ wt_wr @ git_wr). path_ok rel"
  proof
    fix rel assume "rel \<in> set (wt_del @ git_del @ wt_wr @ git_wr)"
    then have "rel \<in> set (wt_del @ git_del) \<union> set (wt_wr @ git_wr)" by auto
    then have "entry_at old rel \<noteq> None \<or> entry_at new rel \<noteq> None"
      unfolding sets by auto
    then show "path_ok rel"
      using validate_key_ok(1) b(1,2) by blast
  qed
  have all: "set (wt_del @ git_del @ wt_wr @ git_wr) \<subseteq> dom (entry_at old) \<union> dom (entry_at new)"
    using sets by auto
  have inj': "inj_on disk_names (set (wt_del @ git_del @ wt_wr @ git_wr))"
    using inj all by (rule inj_on_subset)
  note ok = apply_batch_ok [OF b(5) V paths inj' dist disj]
  have other: "leaf d' p = leaf d1 p" if "\<not> in_pear p" for p
    using keepsD [OF write_manifest_leaves b(6)] that by (simp add: leaves_except_def)
  have pear: "\<not> in_pear (disk_names rel)" if "entry_at old rel \<noteq> None \<or> entry_at new rel \<noteq> None" for rel
    using that validate_key_ok(1) b(1,2) path_ok_not_in_pear by blast
  have wr: "\<exists>e f. entry_at new rel = Some e \<and> in_place V e (leaf d' (disk_names rel)) \<and> leaf d' (disk_names rel) = Some (File f) \<and> fn_synced f"
    if "rel \<in> set (wt_wr @ git_wr)" for rel
    using ok(2) [OF that] other pear that unfolding sets by auto
  show "tree_holds V new d'"
    unfolding tree_holds_def
  proof (intro allI impI)
    fix rel e assume e: "entry_at new rel = Some e"
    show "in_place V e (leaf d' (disk_names rel))"
    proof (cases "entry_at old rel = Some e")
      case False
      then have "rel \<in> set (wt_wr @ git_wr)"
        unfolding sets using e by auto
      then show ?thesis using wr e by fastforce
    next
      case True
      have "rel \<notin> set (wt_del @ git_del @ wt_wr @ git_wr)"
        using sets e True by auto
      then have "disk_names rel \<notin> disk_names ` set (wt_del @ git_del @ wt_wr @ git_wr)"
        using inj all e by (auto dest!: inj_onD)
      then have "strip (leaf d' (disk_names rel)) = strip (leaf d (disk_names rel))"
        using ok(3) other pear e by simp
      then show ?thesis
        using unchanged e True strip_in_place by blast
    qed
  qed
  show "\<forall>rel\<in>dom (entry_at old) - dom (entry_at new). leaf d' (disk_names rel) = None"
    unfolding sets(1) [symmetric]
  proof
    fix rel assume rel: "rel \<in> set (wt_del @ git_del)"
    then have "entry_at old rel \<noteq> None"
      unfolding sets(1) by auto
    then show "leaf d' (disk_names rel) = None"
      using ok(1) [OF rel] other pear by simp
  qed
  show "\<forall>p. \<not> in_pear p \<longrightarrow> p \<notin> disk_names ` (dom (entry_at old) \<union> dom (entry_at new)) \<longrightarrow> strip (leaf d' p) = strip (leaf d p)"
  proof (intro allI impI)
    fix p assume p: "\<not> in_pear p" "p \<notin> disk_names ` (dom (entry_at old) \<union> dom (entry_at new))"
    then have "p \<notin> disk_names ` set (wt_del @ git_del @ wt_wr @ git_wr)"
      using image_mono [OF all, of disk_names] by blast
    then show "strip (leaf d' p) = strip (leaf d p)"
      using ok(3) other p(1) by simp
  qed
  show "\<forall>rel\<in>set (ar_written rep). \<exists>f. file_at d' (disk_names rel) = Some f \<and> fn_synced f"
    using wr b(7) by (auto simp: file_at_leaf)
  show "set (ar_written rep) = {rel. entry_at new rel \<noteq> None \<and> entry_at old rel \<noteq> entry_at new rel}"
    "set (ar_deleted rep) = dom (entry_at old) - dom (entry_at new)"
    using b(7) sets by simp_all
  show "\<exists>f. file_at d' MANIFEST_JSON = Some f \<and> fn_data f = to_json commit \<and> fn_synced f"
    using write_file_atomic_cases [OF b(6)] by (auto simp: MANIFEST_JSON_def with_extension_def)
qed

text \<open>C16: An apply that returns has replaced the one tree by the other.  If the files that both manifests
  agree on are in place, then every file of the new one is (content, masked mode and time, the written
  ones synced), every file only the old one has is gone, every other file is as it was, and the
  report lists exactly the difference.\<close>

theorem apply_exact:
  assumes "apply_commit lower to_json tmp_name get old new commit (d, s) = (Inr rep, (d', s'))"
    and "sound_source V get" "manifest_wf old" "manifest_wf new"
    and "inj_on disk_names (dom (entry_at old) \<union> dom (entry_at new))" "tree_holds V old d"
  shows "tree_holds V new d'
    \<and> (\<forall>rel\<in>dom (entry_at old) - dom (entry_at new). leaf d' (disk_names rel) = None)
    \<and> (\<forall>p. \<not> in_pear p \<longrightarrow> p \<notin> disk_names ` (dom (entry_at old) \<union> dom (entry_at new)) \<longrightarrow> strip (leaf d' p) = strip (leaf d p))
    \<and> (\<forall>rel\<in>set (ar_written rep). \<exists>f. file_at d' (disk_names rel) = Some f \<and> fn_synced f)
    \<and> set (ar_written rep) = {rel. entry_at new rel \<noteq> None \<and> entry_at old rel \<noteq> entry_at new rel}
    \<and> set (ar_deleted rep) = dom (entry_at old) - dom (entry_at new)"
proof -
  have "\<forall>rel e. entry_at old rel = Some e \<and> entry_at new rel = Some e \<longrightarrow> in_place V e (leaf d (disk_names rel))"
    using assms(6) by (auto simp: tree_holds_def)
  note ok = apply_commit_ok [OF assms(1-5) this]
  show ?thesis
    by (intro conjI ok(1) ok(2) ok(3) ok(4) ok(5) ok(6))
qed


section \<open>Concrete runs\<close>

definition one_file :: manifest where
  "one_file = (manifest_new ''w'')\<lparr>mf_files := [(''d/f'', sample_entry 1)]\<rparr>"

definition hi_source :: "string \<Rightarrow> unit \<Rightarrow> (unit, bytes) result \<times> unit" where
  "hi_source h s = (Inr ''hi'', s)"

definition blank :: "nat option list \<Rightarrow> disk" where
  "blank fs = \<lparr>dk_tree = [], dk_faults = fs\<rparr>"

definition apply_one_file :: "disk \<Rightarrow> (unit apply_error, apply_report) result \<times> disk \<times> unit" where
  "apply_one_file d = apply_commit (\<lambda>s. s) (\<lambda>_. ''j'') (\<lambda>_. ''t'') hi_source (manifest_new ''w'') one_file one_file (d, ())"

lemma hi_source_sound: "sound_source (\<lambda>h b. b = ''hi'') hi_source"
  by (simp add: sound_source_def hi_source_def)

lemma blank_leaf: "leaf (blank fs) p = None"
  by (simp add: leaf_def blank_def)

lemma one_file_facts:
  "manifest_wf (manifest_new ''w'')" "manifest_wf one_file" "tree_holds V (manifest_new ''w'') d"
  "inj_on disk_names (dom (entry_at (manifest_new ''w'')) \<union> dom (entry_at one_file))"
  by (simp_all add: manifest_wf_def manifest_new_def one_file_def tree_holds_def dom_def bt_wf_def)

lemma apply_never_torn_witness:
  "\<not> is_ok (fst (apply_one_file (blank (replicate 10 None @ [Some 0]))))
   \<and> leaf (fst (snd (apply_one_file (blank (replicate 10 None @ [Some 0]))))) MANIFEST_JSON = None"
proof -
  obtain r d' where run: "apply_one_file (blank (replicate 10 None @ [Some 0])) = (r, (d', ()))"
    by (metis prod.exhaust unit.exhaust)
  have no: "\<not> is_ok (fst (apply_one_file (blank (replicate 10 None @ [Some 0]))))"
    by code_simp
  then show ?thesis
    using apply_never_torn [OF run [unfolded apply_one_file_def] hi_source_sound] run by (simp add: blank_leaf)
qed

lemma apply_exact_witness:
  "\<exists>rep d'. apply_one_file (blank []) = (Inr rep, (d', ())) \<and> tree_holds (\<lambda>h b. b = ''hi'') one_file d'
     \<and> set (ar_written rep) = {''d/f''}"
proof -
  have "is_ok (fst (apply_one_file (blank [])))"
    by code_simp
  then obtain rep d' where run: "apply_one_file (blank []) = (Inr rep, (d', ()))"
    by (cases "apply_one_file (blank [])") (auto simp: is_ok_def split: sum.splits)
  have "{rel. entry_at one_file rel \<noteq> None \<and> entry_at (manifest_new ''w'') rel \<noteq> entry_at one_file rel} = {''d/f''}"
    by (auto simp: one_file_def manifest_new_def split: if_splits)
  then show ?thesis
    using apply_exact [OF run [unfolded apply_one_file_def] hi_source_sound one_file_facts(1,2,4,3)] run by simp
qed


end
