(* ===== verification/Materialize.thy ===== *)
theory Materialize
imports Merge Apply
begin

text \<open>
  How a merge reaches the disk (\<open>core/src/converge.rs\<close>, \<open>materialize\<close> and its helpers): first
  every local file that lost its path is copied to its conflict-copy name and synced, then the
  staged apply writes the merged tree.  The theorems say that no byte of a losing local file is
  ever gone from the disk, at whatever system call the run ends, and what a complete run leaves.
\<close>

section \<open>One conflict copy\<close>

text \<open>The destination, with its directories prepared; the copies of \<open>.git\<close> losers are as
  private as the rest of \<open>.pear\<close>.\<close>

definition conflict_dest :: "conflict_copy \<Rightarrow> disk \<Rightarrow> (io_error, fs_path) result \<times> disk" where
  "conflict_dest c =
     (let to = disk_names (cc_copy_path c) in
      io_bind (ensure_real_ancestors to) (\<lambda>_.
      io_bind (create_dir_all (butlast to)) (\<lambda>_.
      io_bind (if cc_local_only c then set_private_dir (disk_names LOCAL_CONFLICT_DIR) else io_return ()) (\<lambda>_.
      io_return to))))"

definition reopen_sync :: "fs_path \<Rightarrow> disk \<Rightarrow> (io_error, unit) result \<times> disk" where
  "reopen_sync p = io_bind (read_file p) (\<lambda>_. sync_all p)"

definition copy_local_loser :: "conflict_copy \<Rightarrow> disk \<Rightarrow> (io_error, unit) result \<times> disk" where
  "copy_local_loser c =
     io_bind (conflict_dest c) (\<lambda>to.
     io_bind (copy_file (disk_names (cc_path c)) to) (\<lambda>_.
     io_bind (set_file_mtime (fe_mtime_secs (cc_entry c), clamp_nanos (fe_mtime_nanos (cc_entry c))) to) (\<lambda>_.
     reopen_sync to)))"

definition assemble_local_copy ::
  "(string \<Rightarrow> 's \<Rightarrow> ('e, bytes) result \<times> 's) \<Rightarrow> conflict_copy \<Rightarrow> disk \<times> 's \<Rightarrow> ('e apply_error, unit) result \<times> disk \<times> 's" where
  "assemble_local_copy get c =
     io_bind (on_disk (conflict_dest c)) (\<lambda>to.
     io_bind (on_disk (create_private_file to)) (\<lambda>_.
     io_bind (write_chunks get to (fe_chunks (cc_entry c))) (\<lambda>_.
     on_disk (sync_all to))))"

definition preserve_copy ::
  "(string \<Rightarrow> 's \<Rightarrow> ('e, bytes) result \<times> 's) \<Rightarrow> conflict_copy \<Rightarrow> disk \<times> 's \<Rightarrow> ('e apply_error, unit) result \<times> disk \<times> 's" where
  "preserve_copy get c =
     (case (cc_local_only c, cc_side c) of
        (True, SideLocal) \<Rightarrow> on_disk (copy_local_loser c)
      | (True, SideRemote) \<Rightarrow> assemble_local_copy get c
      | (False, SideLocal) \<Rightarrow> on_disk (copy_local_loser c)
      | (False, SideRemote) \<Rightarrow> io_return ())"

section \<open>The whole merge\<close>

record materialized =
  mt_written :: "string list"
  mt_deleted :: "string list"
  mt_copies :: "string list"

text \<open>What the tree holds once the copies exist: the scanned tree and the ordinary local losers.\<close>

definition tree_with_copies :: "merge_outcome \<Rightarrow> manifest \<Rightarrow> manifest" where
  "tree_with_copies out local = local\<lparr>mf_files := with_local_copies out (mf_files local)\<rparr>"

definition materialize ::
  "(string \<Rightarrow> string) \<Rightarrow> (manifest \<Rightarrow> bytes) \<Rightarrow> (string \<Rightarrow> string) \<Rightarrow> (string \<Rightarrow> 's \<Rightarrow> ('e, bytes) result \<times> 's)
     \<Rightarrow> manifest \<Rightarrow> manifest \<Rightarrow> merge_outcome \<Rightarrow> disk \<times> 's \<Rightarrow> ('e apply_error, materialized) result \<times> disk \<times> 's" where
  "materialize lower to_json tmp_name get local pre_push_base out =
     io_bind (io_each (preserve_copy get) (mo_conflicts out)) (\<lambda>_.
       (let old = tree_with_copies out local;
            d = diff old (mo_merged out);
            copies = map cc_copy_path (mo_conflicts out)
        in if md_added d = [] \<and> md_changed d = [] \<and> md_deleted d = []
           then io_return \<lparr>mt_written = [], mt_deleted = [], mt_copies = copies\<rparr>
           else io_bind (apply_commit lower to_json tmp_name get old (mo_merged out) pre_push_base) (\<lambda>report.
                io_return \<lparr>mt_written = filter (\<lambda>p. p \<notin> set copies) (ar_written report),
                           mt_deleted = ar_deleted report, mt_copies = copies\<rparr>)))"

section \<open>What the copies leave alone\<close>

lemma conflict_dest_leaves: "keeps (leaves_except {}) (conflict_dest c)"
  unfolding conflict_dest_def Let_def
  by (intro leaves_except_bind keeps_io_return leaves_except_refl)
    (auto intro: frames keeps_io_return leaves_except_refl)

lemma reopen_sync_leaves [frames]: "keeps (leaves_except {p}) (reopen_sync p)"
  unfolding reopen_sync_def by (intro leaves_except_bind) (auto intro: frames frames_mono(1) [OF read_calls_leaves(3)])

lemma conflict_dest_ok: "conflict_dest c d = (Inr to, d') \<Longrightarrow> to = disk_names (cc_copy_path c)"
  by (auto simp: conflict_dest_def Let_def io_bind_ok io_return_def)

section \<open>Paths of copies\<close>

text \<open>A manifest whose keys are written the one canonical way, as a scan writes them.\<close>

definition canonical_key :: "string \<Rightarrow> bool" where
  "canonical_key p \<longleftrightarrow> ''.'' \<notin> set (split_on CHR ''/'' p)"

definition canonical :: "manifest \<Rightarrow> bool" where
  "canonical m \<longleftrightarrow> (\<forall>p. entry_at m p \<noteq> None \<longrightarrow> canonical_key p)"

lemma disk_names_split:
  assumes "'''' \<notin> set (split_on CHR ''/'' p)" "''.'' \<notin> set (split_on CHR ''/'' p)" "''..'' \<notin> set (split_on CHR ''/'' p)"
  shows "disk_names p = split_on CHR ''/'' p"
proof -
  obtain c cs where s: "split_on CHR ''/'' p = c # cs"
    by (cases "split_on CHR ''/'' p") auto
  have seg: "concat (map (\<lambda>c. case c of Normal n \<Rightarrow> [n] | ParentDir \<Rightarrow> [''..''] | _ \<Rightarrow> []) (concat (map segment_component ws))) = ws"
    if "'''' \<notin> set ws" "''.'' \<notin> set ws" "''..'' \<notin> set ws" for ws
    using that by (induction ws) auto
  show ?thesis
    using assms seg [of cs] split_on_abs [of p] unfolding disk_names_def path_components.simps [of p] s by auto
qed

lemma canonical_disk_names: "path_ok p \<Longrightarrow> canonical_key p \<Longrightarrow> disk_names p = split_on CHR ''/'' p"
  by (rule disk_names_split) (auto simp: path_ok_def canonical_key_def Let_def)

lemma local_dest:
  assumes "path_ok n" "canonical_key n"
  shows "disk_names (LOCAL_CONFLICT_DIR @ ''/'' @ n) = [''.pear'', ''conflicts''] @ split_on CHR ''/'' n"
proof -
  have "split_on CHR ''/'' LOCAL_CONFLICT_DIR = [''.pear'', ''conflicts'']"
    by (simp add: LOCAL_CONFLICT_DIR_def)
  then have s: "split_on CHR ''/'' (LOCAL_CONFLICT_DIR @ ''/'' @ n) = [''.pear'', ''conflicts''] @ split_on CHR ''/'' n"
    using split_on_append [of "CHR ''/''" LOCAL_CONFLICT_DIR n] by simp
  show ?thesis
    unfolding s [symmetric]
    by (rule disk_names_split) (unfold s, use assms in \<open>auto simp: path_ok_def canonical_key_def Let_def\<close>)
qed

section \<open>What one copy does\<close>

lemma keeps_bind_val:
  assumes "transp R" "keeps R m" "\<And>x s s'. m s = (Inr x, s') \<Longrightarrow> keeps R (f x)"
  shows "keeps R (io_bind m f)"
  unfolding keeps_def
proof
  fix s
  obtain r s1 where m: "m s = (r, s1)" by fastforce
  have "R s s1" using keepsD [OF assms(2) m] .
  then show "R s (snd (io_bind m f s))"
    using m assms(3) transpD [OF assms(1)] by (cases r) (auto simp: io_bind_def keeps_def)
qed

lemma copy_local_loser_leaves: "keeps (leaves_except {disk_names (cc_copy_path c)}) (copy_local_loser c)"
  unfolding copy_local_loser_def
proof (rule keeps_bind_val [OF leaves_except_trans frames_mono(1) [OF conflict_dest_leaves]])
  fix to d d'
  assume "conflict_dest c d = (Inr to, d')"
  then have "to = disk_names (cc_copy_path c)"
    by (rule conflict_dest_ok)
  then show "keeps (leaves_except {disk_names (cc_copy_path c)})
      (io_bind (copy_file (disk_names (cc_path c)) to) (\<lambda>_.
       io_bind (set_file_mtime (fe_mtime_secs (cc_entry c), clamp_nanos (fe_mtime_nanos (cc_entry c))) to) (\<lambda>_. reopen_sync to)))"
    by (intro leaves_except_bind) (simp_all add: copy_file_leaves file_call_leaves reopen_sync_leaves)
qed

text \<open>A copy that succeeds is whole and on disk for good.\<close>

lemma copy_file_ok:
  assumes "copy_file p q d = (Inr u, d')" "p \<noteq> q"
  shows "\<exists>f g. file_at d p = Some f \<and> file_at d' q = Some g \<and> fn_data g = fn_data f \<and> fn_mode g = fn_mode f"
proof -
  obtain f d1 d2 d3 where s: "read_file p d = (Inr f, d1)" "open_truncate (fn_mode f) q d1 = (Inr (), d2)"
    "set_permissions (fn_mode f) q d2 = (Inr (), d3)" "write_all (fn_data f) q d3 = (Inr (), d')"
    using assms(1) by (auto simp: copy_file_def io_bind_ok)
  obtain g where g: "file_at d2 q = Some g" "fn_data g = []"
    using open_truncate_ok [OF s(2)] by blast
  have "file_at d3 q = Some (g\<lparr>fn_mode := fn_mode f\<rparr>)"
    using set_permissions_ok [OF s(3)] g by auto
  then have "\<exists>h. file_at d' q = Some h \<and> fn_data h = fn_data f \<and> fn_mode h = fn_mode f"
    using write_all_ok [OF s(4)] g by auto
  then show ?thesis
    using read_file_ok [OF s(1)] by blast
qed

definition copied :: "disk \<Rightarrow> disk \<Rightarrow> conflict_copy \<Rightarrow> bool" where
  "copied d d' c \<longleftrightarrow>
     (\<exists>f g. file_at d (disk_names (cc_path c)) = Some f \<and> file_at d' (disk_names (cc_copy_path c)) = Some g
        \<and> fn_data g = fn_data f \<and> fn_mode g = fn_mode f \<and> fn_synced g
        \<and> fn_mtime g = Some (fe_mtime_secs (cc_entry c), clamp_nanos (fe_mtime_nanos (cc_entry c))))"

lemma copy_local_loser_ok:
  assumes "copy_local_loser c d = (Inr u, d')" "disk_names (cc_path c) \<noteq> disk_names (cc_copy_path c)"
  shows "copied d d' c"
proof -
  let ?p = "disk_names (cc_path c)" and ?q = "disk_names (cc_copy_path c)"
  let ?t = "(fe_mtime_secs (cc_entry c), clamp_nanos (fe_mtime_nanos (cc_entry c)))"
  obtain to d1 d2 d3 where s: "conflict_dest c d = (Inr to, d1)" "copy_file ?p to d1 = (Inr (), d2)"
    "set_file_mtime ?t to d2 = (Inr (), d3)" "reopen_sync to d3 = (Inr u, d')"
    using assms(1) by (auto simp: copy_local_loser_def io_bind_ok)
  have to: "to = ?q"
    using conflict_dest_ok [OF s(1)] .
  obtain f g where f: "file_at d1 ?p = Some f" "file_at d2 ?q = Some g" "fn_data g = fn_data f" "fn_mode g = fn_mode f"
    using copy_file_ok [OF s(2)] assms(2) to by blast
  have "file_at d ?p = Some f"
    using leaves_except_file [OF keepsD [OF conflict_dest_leaves s(1)]] f(1) by simp
  moreover have g3: "file_at d3 ?q = Some (g\<lparr>fn_mtime := Some ?t\<rparr>)"
    using set_file_mtime_ok [OF s(3)] f(2) to by auto
  moreover obtain h d4 where r: "read_file ?q d3 = (Inr h, d4)" "sync_all ?q d4 = (Inr u, d')"
    using s(4) to by (auto simp: reopen_sync_def io_bind_ok)
  moreover have "file_at d4 ?q = file_at d3 ?q"
    using leaves_except_file [OF keepsD [OF read_calls_leaves(3) r(1)]] by simp
  moreover obtain k where "file_at d4 ?q = Some k" "file_at d' ?q = Some (k\<lparr>fn_synced := True\<rparr>)"
    using sync_all_ok [OF r(2)] by blast
  ultimately show ?thesis
    using f(3,4) by (auto simp: copied_def)
qed

lemma assemble_local_copy_leaves:
  fixes get :: "string \<Rightarrow> 's \<Rightarrow> ('e, bytes) result \<times> 's"
  shows "keeps (disk_only (leaves_except {disk_names (cc_copy_path c)})) (assemble_local_copy get c)"
  unfolding assemble_local_copy_def
proof (rule keeps_bind_val [OF disk_only_trans [OF leaves_except_trans]
      keeps_on_disk [OF frames_mono(1) [OF conflict_dest_leaves]]])
  fix to and ds ds' :: "disk \<times> 's"
  assume od: "on_disk (conflict_dest c) ds = (Inr to, ds')"
  obtain d s where ds: "ds = (d, s)" by fastforce
  obtain d' where "conflict_dest c d = (Inr to, d')"
    using on_disk_ok [OF od [unfolded ds]] by blast
  then have "to = disk_names (cc_copy_path c)"
    by (rule conflict_dest_ok)
  then show "keeps (disk_only (leaves_except {disk_names (cc_copy_path c)}))
     (io_bind (on_disk (create_private_file to)) (\<lambda>_.
      io_bind (write_chunks get to (fe_chunks (cc_entry c))) (\<lambda>_. on_disk (sync_all to))))"
    by (intro keeps_io_bind disk_only_trans leaves_except_trans)
      (simp_all add: keeps_on_disk create_private_file_leaves keeps_write_chunks file_call_leaves)
qed

lemma preserve_copy_leaves:
  "keeps (disk_only (leaves_except {disk_names (cc_copy_path c)})) (preserve_copy get c)"
  by (auto simp: preserve_copy_def keeps_on_disk copy_local_loser_leaves assemble_local_copy_leaves
      intro!: keeps_io_return disk_only_refl leaves_except_refl split: conflict_side.splits bool.splits)

lemma preserve_copies:
  assumes "io_each (preserve_copy get) cs (d, s) = (r, (d', s'))"
    and "distinct (map (disk_names \<circ> cc_copy_path) cs)"
    and "\<forall>c\<in>set cs. disk_names (cc_path c) \<notin> (disk_names \<circ> cc_copy_path) ` set cs"
  shows "leaves_except ((disk_names \<circ> cc_copy_path) ` set cs) d d'
    \<and> (is_ok r \<longrightarrow> (\<forall>c\<in>set cs. cc_side c = SideLocal \<longrightarrow> copied d d' c))"
  using assms
proof (induction cs arbitrary: d s)
  case Nil
  then show ?case by (auto simp: leaves_except_def)
next
  case (Cons c cs)
  let ?to = "disk_names \<circ> cc_copy_path"
  obtain r1 d1 s1 where p: "preserve_copy get c (d, s) = (r1, (d1, s1))" by (metis prod.exhaust)
  have one: "leaves_except {?to c} d d1"
    using keeps_disk_onlyD [OF preserve_copy_leaves p] by simp
  show ?case
  proof (cases r1)
    case (Inl e)
    then show ?thesis
      using Cons.prems(1) p one leaves_except_mono [of "{?to c}"] by (auto simp: io_bind_def)
  next
    case (Inr u)
    then have rest: "io_each (preserve_copy get) cs (d1, s1) = (r, (d', s'))"
      using Cons.prems(1) p by (simp add: io_bind_def)
    have IH: "leaves_except (?to ` set cs) d1 d'" "is_ok r \<longrightarrow> (\<forall>c\<in>set cs. cc_side c = SideLocal \<longrightarrow> copied d1 d' c)"
      using Cons.IH [OF rest] Cons.prems(2,3) by auto
    have "leaves_except (?to ` set (c # cs)) d d'"
      using one IH(1) by (simp add: leaves_except_def)
    moreover have "copied d d' c" if "cc_side c = SideLocal"
    proof -
      have "copy_local_loser c d = (Inr (), d1)"
        using p Inr that by (cases "cc_local_only c") (auto simp: preserve_copy_def dest!: on_disk_ok)
      then have "copied d d1 c"
        by (rule copy_local_loser_ok) (use Cons.prems(3) in auto)
      moreover have "file_at d' (?to c) = file_at d1 (?to c)"
        using leaves_except_file [OF IH(1)] Cons.prems(2) by auto
      ultimately show ?thesis by (simp add: copied_def)
    qed
    moreover have "copied d d' x" if "is_ok r" "x \<in> set cs" "cc_side x = SideLocal" for x
    proof -
      have "copied d1 d' x"
        using IH(2) that by blast
      moreover have "file_at d1 (disk_names (cc_path x)) = file_at d (disk_names (cc_path x))"
        using leaves_except_file [OF one] Cons.prems(3) that(2) by auto
      ultimately show ?thesis by (simp add: copied_def)
    qed
    ultimately show ?thesis by auto
  qed
qed

section \<open>Where the copies of a merge go\<close>

lemma split_candidate:
  assumes "CHR ''/'' \<notin> set dev" "CHR ''/'' \<notin> set stamp"
  shows "\<exists>r. split_on CHR ''/'' (candidate p dev stamp n) = butlast (split_on CHR ''/'' p) @ [r] \<and> 15 < length r"
proof -
  define r where "r = snd (split_dir (candidate p dev stamp n))"
  have "CHR ''/'' \<notin> set r"
    unfolding r_def by (rule split_dir_name)
  moreover have "15 < length r"
    unfolding r_def candidate_dir(2) [OF assms, of p n] by simp
  moreover have "candidate p dev stamp n = fst (split_dir p) @ r"
    using split_dir_append [of "candidate p dev stamp n"] candidate_dir(1) [OF assms, of p n]
    by (simp add: r_def)
  ultimately show ?thesis
    using split_on_dir_name by metis
qed

lemma canonical_candidate:
  assumes "canonical_key p" "CHR ''/'' \<notin> set dev" "CHR ''/'' \<notin> set stamp"
  shows "canonical_key (candidate p dev stamp n)"
proof -
  obtain r where r: "split_on CHR ''/'' (candidate p dev stamp n) = butlast (split_on CHR ''/'' p) @ [r]" "15 < length r"
    using split_candidate [OF assms(2,3)] by blast
  then show ?thesis
    using assms(1) by (auto simp: canonical_key_def dest: in_set_butlastD)
qed

text \<open>The two sides of a merge as a device meets them.\<close>

definition sides_ok :: "manifest \<Rightarrow> manifest \<Rightarrow> string \<Rightarrow> bool" where
  "sides_ok local remote stamp \<longleftrightarrow>
     validate local = Inr () \<and> validate remote = Inr () \<and> canonical local \<and> canonical remote
     \<and> manifest_wf local \<and> CHR ''/'' \<notin> set stamp"

lemma side_key:
  assumes "sides_ok local remote stamp" "entry_at local p \<noteq> None \<or> entry_at remote p \<noteq> None"
  shows "path_ok p" "canonical_key p" "disk_names p = split_on CHR ''/'' p"
proof -
  show p: "path_ok p" "canonical_key p"
    using assms validate_key_ok(1) by (auto simp: sides_ok_def canonical_def)
  show "disk_names p = split_on CHR ''/'' p"
    using canonical_disk_names [OF p] .
qed

lemma copy_facts:
  assumes ok: "sides_ok local remote stamp" and c: "c \<in> set (mo_conflicts (merge base local remote dev stamp))"
  shows "entry_at local (cc_path c) \<noteq> None" "entry_at remote (cc_path c) \<noteq> None"
    "path_ok (copy_name c)" "canonical_key (copy_name c)" "copy_name c \<notin> set (namespace_new local remote)"
    "disk_names (cc_copy_path c)
       = (if cc_local_only c then [''.pear'', ''conflicts''] else []) @ split_on CHR ''/'' (copy_name c)"
    "cc_side c = SideLocal \<Longrightarrow> entry_at local (cc_path c) = Some (cc_entry c)"
proof -
  obtain w k where w: "decide_at base local remote (cc_path c) = Conflict w (cc_side c) (cc_entry c)"
    "copy_name c = candidate (cc_path c) (copy_label (sanitize_device dev) (cc_side c)) stamp k"
    "copy_name c \<notin> set (namespace_new local remote)"
    "cc_copy_path c = (if cc_local_only c then LOCAL_CONFLICT_DIR @ ''/'' @ copy_name c else copy_name c)"
    using merge_copy_ok [OF c] unfolding copy_ok_def by blast
  note d = decide_conflict [OF w(1) [unfolded decide_at_def]]
  show e: "entry_at local (cc_path c) \<noteq> None" "entry_at remote (cc_path c) \<noteq> None"
    using d by auto
  show "cc_side c = SideLocal \<Longrightarrow> entry_at local (cc_path c) = Some (cc_entry c)"
    using d by auto
  have stamp: "CHR ''/'' \<notin> set stamp"
    using ok by (simp add: sides_ok_def)
  show n: "path_ok (copy_name c)" "canonical_key (copy_name c)"
    using side_key(1,2) [OF ok disjI1 [OF e(1)]] w(2) path_ok_candidate canonical_candidate copy_label_no_slash stamp
    by metis+
  show "copy_name c \<notin> set (namespace_new local remote)"
    by (rule w(3))
  show "disk_names (cc_copy_path c)
       = (if cc_local_only c then [''.pear'', ''conflicts''] else []) @ split_on CHR ''/'' (copy_name c)"
    using w(4) local_dest [OF n] canonical_disk_names [OF n] by simp
qed

lemma copy_dest_new:
  assumes ok: "sides_ok local remote stamp" and c: "c \<in> set (mo_conflicts (merge base local remote dev stamp))"
    and p: "entry_at local p \<noteq> None \<or> entry_at remote p \<noteq> None"
  shows "disk_names p \<noteq> disk_names (cc_copy_path c)"
proof -
  note f = copy_facts [OF ok c]
  show ?thesis
  proof (cases "cc_local_only c")
    case True
    then show ?thesis
      using path_ok_not_in_pear [OF side_key(1) [OF ok p]] f(6) by (auto simp: in_pear_def)
  next
    case False
    have "p \<in> set (namespace_new local remote)"
      using p key_in_namespace by blast
    then have "p \<noteq> copy_name c"
      using f(5) by blast
    then show ?thesis
      using side_key(3) [OF ok p] f(6) False split_on_inj [of "CHR ''/''" p "copy_name c"] by auto
  qed
qed

lemma copy_dests_distinct:
  assumes ok: "sides_ok local remote stamp"
  shows "distinct (map (disk_names \<circ> cc_copy_path) (mo_conflicts (merge base local remote dev stamp)))"
proof -
  let ?cs = "mo_conflicts (merge base local remote dev stamp)"
  have d: "distinct (map copy_name ?cs)"
    using merge_fold_inv [of base local remote dev stamp] by (simp add: merge_inv_def)
  have "c = c'" if c: "c \<in> set ?cs" "c' \<in> set ?cs" and eq: "disk_names (cc_copy_path c) = disk_names (cc_copy_path c')" for c c'
  proof -
    have hd: "hd (split_on CHR ''/'' (copy_name x)) \<noteq> ''.pear''" if "x \<in> set ?cs" for x
      using copy_facts(3) [OF ok that] by (auto simp: path_ok_def Let_def eq_ignore_ascii_case_def)
    have "split_on CHR ''/'' (copy_name c) = split_on CHR ''/'' (copy_name c')"
      using eq copy_facts(6) [OF ok c(1)] copy_facts(6) [OF ok c(2)] hd [OF c(1)] hd [OF c(2)]
      by (auto split: if_splits dest: arg_cong [where f = hd])
    then have "copy_name c = copy_name c'"
      by (rule split_on_inj)
    then show ?thesis
      using d c by (auto simp: distinct_map dest: inj_onD)
  qed
  then show ?thesis
    using d by (auto simp: distinct_map inj_on_def)
qed

section \<open>The apply leaves alone what is not its work\<close>

text \<open>A path an apply has no business at.\<close>

definition apart :: "string set \<Rightarrow> fs_path \<Rightarrow> bool" where
  "apart work q \<longleftrightarrow>
     (\<forall>rel\<in>work. disk_names rel \<noteq> q) \<and> (\<forall>x. STAGING @ [x] \<noteq> q) \<and> q \<noteq> MANIFEST_JSON
     \<and> q \<noteq> butlast MANIFEST_JSON @ [with_extension ''tmp'' (last MANIFEST_JSON)]"

lemma apply_batch_apart:
  fixes get :: "string \<Rightarrow> 's \<Rightarrow> ('e, bytes) result \<times> 's"
  assumes "apart (set (wt_del @ git_del @ wt_wr @ git_wr)) q"
  shows "keeps (disk_only (leaves_except (- {q}))) (apply_batch tmp_name get new wt_del wt_wr git_del git_wr)"
proof -
  have tree: "disk_names rel \<in> - {q}" if "rel \<in> set (wt_del @ git_del @ wt_wr @ git_wr)" for rel
    using assms that by (auto simp: apart_def)
  have stage: "STAGING @ [x] \<in> - {q}" for x
    using assms by (simp add: apart_def)
  have del: "keeps (leaves_except (- {q})) (io_each delete_file ds)" if "set ds \<subseteq> set (wt_del @ git_del)" for ds
  proof (intro leaves_except_each)
    fix rel assume "rel \<in> set ds"
    then show "keeps (leaves_except (- {q})) (delete_file rel)"
      using frames_mono(2) [OF delete_file_leaves] tree that by auto
  qed
  have wr: "keeps (disk_only (leaves_except (- {q}))) (io_each (write_entry get tmp_name new) ws)"
    if "set ws \<subseteq> set (wt_wr @ git_wr)" for ws
  proof (intro keeps_io_each disk_only_refl disk_only_trans leaves_except_refl leaves_except_trans)
    fix rel assume "rel \<in> set ws"
    then have r: "disk_names rel \<in> - {q}"
      using tree that by auto
    show "keeps (disk_only (leaves_except (- {q}))) (write_entry get tmp_name new rel)"
    proof (cases "entry_at new rel")
      case None
      then show ?thesis
        by (simp add: write_entry_def keeps_def io_fail_def disk_only_def leaves_except_def)
    next
      case (Some e)
      have mono: "disk_only (leaves_except (- {q})) x y"
        if "disk_only (leaves_except {STAGING @ [tmp_name rel], disk_names rel}) x y" for x y :: "disk \<times> 's"
        using that leaves_except_mono [of _ _ _ "- {q}"] r stage by (auto simp: disk_only_def)
      have "keeps (disk_only (leaves_except (- {q}))) (write_file get tmp_name e rel)"
        by (rule keeps_mono [OF write_file_leaves]) (rule mono)
      then show ?thesis
        by (simp add: write_entry_def Some)
    qed
  qed
  have fl: "keeps (leaves_except (- {q})) (io_each flush_written (wt_wr @ git_wr))"
  proof (intro leaves_except_each)
    fix rel assume "rel \<in> set (wt_wr @ git_wr)"
    then have "disk_names rel \<in> - {q}"
      using tree by auto
    then have "leaves_except (- {q}) d (snd (flush_written rel d))" for d
      using flush_written_strip(2) [of rel d] unfolding leaves_except_def
      by (cases "flush_written rel d") (metis Compl_iff snd_conv)
    then show "keeps (leaves_except (- {q})) (flush_written rel)"
      by (simp add: keeps_def)
  qed
  have cl: "keeps (leaves_except (- {q})) clean_staging"
    by (rule keeps_leaves_mono [OF clean_staging_only]) (use stage in auto)
  show ?thesis
    unfolding apply_batch_def
    by (intro keeps_io_bind disk_only_trans leaves_except_trans keeps_on_disk cl fl del wr
        frames_mono(1) [OF create_dir_all_leaves] frames_mono(1) [OF set_private_dir_leaves]) auto
qed

lemma apply_commit_apart:
  assumes "apply_commit lower to_json tmp_name get old new commit (d, s) = (r, (d', s'))"
    and "apart (set (md_deleted (diff old new)) \<union> set (md_added (diff old new) @ md_changed (diff old new))) q"
  shows "leaf d' q = leaf d q"
  using assms(1)
proof (cases rule: apply_commit_batch)
  case (2 wt_del git_del wt_wr git_wr r1 d1 s1)
  have "set (wt_del @ git_del @ wt_wr @ git_wr) = set (wt_del @ git_del) \<union> set (wt_wr @ git_wr)"
    by auto
  then have "set (wt_del @ git_del @ wt_wr @ git_wr)
      = set (md_deleted (diff old new)) \<union> set (md_added (diff old new) @ md_changed (diff old new))"
    unfolding partition_git_set [OF 2(4)] partition_git_set [OF 2(5)] .
  then have "leaf d1 q = leaf d q"
    using keeps_disk_onlyD [OF apply_batch_apart 2(6)] assms(2) by (simp add: leaves_except_def)
  moreover have "leaf d' q = leaf d1 q" if "write_file_atomic MANIFEST_JSON b d1 = (r2, d')" for b r2
    using keepsD [OF write_file_atomic_leaves that] assms(2) by (simp add: leaves_except_def apart_def)
  ultimately show ?thesis
    using 2(7) by auto
qed simp

section \<open>What a materialization keeps and makes\<close>

text \<open>The phases of a run: the copies fail, or they are made and the apply is attempted unless
  there is nothing to do.\<close>

lemma materialize_cases:
  assumes "materialize lower to_json tmp_name get local pb out (d, s) = (r, (d', s'))"
  obtains r1 where "\<not> is_ok r" "io_each (preserve_copy get) (mo_conflicts out) (d, s) = (r1, (d', s'))" "\<not> is_ok r1"
  | d1 s1 where "io_each (preserve_copy get) (mo_conflicts out) (d, s) = (Inr (), (d1, s1))"
      "d' = d1" "s' = s1" "is_ok r" "diff (tree_with_copies out local) (mo_merged out) = \<lparr>md_added = [], md_changed = [], md_deleted = []\<rparr>"
  | d1 s1 r2 where "io_each (preserve_copy get) (mo_conflicts out) (d, s) = (Inr (), (d1, s1))"
      "apply_commit lower to_json tmp_name get (tree_with_copies out local) (mo_merged out) pb (d1, s1) = (r2, (d', s'))"
      "is_ok r \<longleftrightarrow> is_ok r2"
proof -
  obtain r0 d1 s1 where c: "io_each (preserve_copy get) (mo_conflicts out) (d, s) = (r0, (d1, s1))" by (metis prod.exhaust)
  show thesis
  proof (cases r0)
    case (Inl e)
    then show thesis
      using assms c that(1) by (auto simp: materialize_def io_bind_def)
  next
    case (Inr u)
    let ?d = "diff (tree_with_copies out local) (mo_merged out)"
    show thesis
    proof (cases "md_added ?d = [] \<and> md_changed ?d = [] \<and> md_deleted ?d = []")
      case True
      then have "?d = \<lparr>md_added = [], md_changed = [], md_deleted = []\<rparr>" by (cases ?d) simp
      then show thesis
        using assms c Inr True that(2) by (auto simp: materialize_def io_bind_def io_return_def Let_def)
    next
      case False
      obtain r2 d2 s2 where a: "apply_commit lower to_json tmp_name get (tree_with_copies out local) (mo_merged out) pb (d1, s1) = (r2, (d2, s2))"
        by (metis prod.exhaust)
      have "d2 = d'" "s2 = s'" "is_ok r \<longleftrightarrow> is_ok r2"
        using assms c Inr False a by (auto simp: materialize_def io_bind_def io_return_def Let_def split: sum.splits)
      then show thesis
        using that(3) c Inr a by simp
    qed
  qed
qed

lemma tree_with_copies_at:
  "entry_at (tree_with_copies (merge base local remote dev stamp) local) q
     = (if q \<in> cc_copy_path ` set (local_copies (merge base local remote dev stamp))
        then entry_at (mo_merged (merge base local remote dev stamp)) q else entry_at local q)"
proof -
  have "bt_get (with_local_copies (merge base local remote dev stamp) (mf_files local)) q
      = (if q \<in> cc_copy_path ` set (local_copies (merge base local remote dev stamp))
         then entry_at (mo_merged (merge base local remote dev stamp)) q else entry_at local q)"
    unfolding with_local_copies_def by (rule fold_copies_get) (rule local_copy_facts(1))
  then show ?thesis
    by (simp add: tree_with_copies_def)
qed

lemma tree_with_copies_wf: "manifest_wf local \<Longrightarrow> manifest_wf (tree_with_copies out local)"
  by (simp add: manifest_wf_def tree_with_copies_def with_local_copies_def fold_copies_wf)

text \<open>Every key of a merge is a key of a side or the name of a copy.\<close>

lemma merged_key:
  assumes ok: "sides_ok local remote stamp"
    and q: "entry_at (mo_merged (merge base local remote dev stamp)) q \<noteq> None
      \<or> entry_at (tree_with_copies (merge base local remote dev stamp) local) q \<noteq> None"
  shows "path_ok q" "disk_names q = split_on CHR ''/'' q"
proof -
  have "entry_at local q \<noteq> None \<or> entry_at (mo_merged (merge base local remote dev stamp)) q \<noteq> None"
    using q unfolding tree_with_copies_at by (auto split: if_splits)
  then have "path_ok q \<and> canonical_key q"
  proof
    assume "entry_at local q \<noteq> None"
    then show ?thesis
      using side_key [OF ok] by blast
  next
    assume "entry_at (mo_merged (merge base local remote dev stamp)) q \<noteq> None"
    then obtain e where e: "entry_at (mo_merged (merge base local remote dev stamp)) q = Some e" by blast
    show ?thesis
      using merge_entry_source [OF e]
    proof (elim disjE bexE)
      fix c assume c: "c \<in> set (mo_conflicts (merge base local remote dev stamp))"
        "\<not> cc_local_only c \<and> cc_copy_path c = q
           \<and> (entry_at local (cc_path c) = Some e \<or> entry_at remote (cc_path c) = Some e)
           \<and> winner_of (decide_at base local remote (cc_path c)) \<noteq> None"
      then show ?thesis
        using copy_facts(3,4) [OF ok c(1)] by (auto simp: copy_name_def)
    qed (use side_key [OF ok] in blast)+
  qed
  then show "path_ok q" "disk_names q = split_on CHR ''/'' q"
    using canonical_disk_names by blast+
qed

lemma merged_inj:
  assumes "sides_ok local remote stamp"
  shows "inj_on disk_names (dom (entry_at (tree_with_copies (merge base local remote dev stamp) local))
    \<union> dom (entry_at (mo_merged (merge base local remote dev stamp))))"
proof (rule inj_onI)
  fix p q
  assume "p \<in> dom (entry_at (tree_with_copies (merge base local remote dev stamp) local))
      \<union> dom (entry_at (mo_merged (merge base local remote dev stamp)))"
    "q \<in> dom (entry_at (tree_with_copies (merge base local remote dev stamp) local))
      \<union> dom (entry_at (mo_merged (merge base local remote dev stamp)))"
    and eq: "disk_names p = disk_names q"
  then have "disk_names p = split_on CHR ''/'' p" "disk_names q = split_on CHR ''/'' q"
    using merged_key(2) [OF assms] by blast+
  then show "p = q"
    using eq split_on_inj [of "CHR ''/''" p q] by simp
qed

text \<open>The copies of a merge, made or interrupted.\<close>

lemma merge_copies_made:
  assumes ok: "sides_ok local remote stamp"
    and run: "io_each (preserve_copy get) (mo_conflicts (merge base local remote dev stamp)) (d, s) = (r, (d1, s1))"
  shows "entry_at local p \<noteq> None \<or> entry_at remote p \<noteq> None \<Longrightarrow> leaf d1 (disk_names p) = leaf d (disk_names p)"
    and "is_ok r \<Longrightarrow> c \<in> set (mo_conflicts (merge base local remote dev stamp)) \<Longrightarrow> cc_side c = SideLocal \<Longrightarrow> copied d d1 c"
proof -
  let ?cs = "mo_conflicts (merge base local remote dev stamp)"
  have fresh: "disk_names p \<notin> (disk_names \<circ> cc_copy_path) ` set ?cs"
    if p: "entry_at local p \<noteq> None \<or> entry_at remote p \<noteq> None" for p
  proof
    assume "disk_names p \<in> (disk_names \<circ> cc_copy_path) ` set ?cs"
    then obtain c where "c \<in> set ?cs" "disk_names p = disk_names (cc_copy_path c)"
      unfolding image_iff comp_def by blast
    then show False
      using copy_dest_new [OF ok _ p] by blast
  qed
  have each: "\<forall>c\<in>set ?cs. disk_names (cc_path c) \<notin> (disk_names \<circ> cc_copy_path) ` set ?cs"
    using fresh copy_facts(1) [OF ok] by blast
  note made = preserve_copies [OF run copy_dests_distinct [OF ok] each]
  show "is_ok r \<Longrightarrow> c \<in> set ?cs \<Longrightarrow> cc_side c = SideLocal \<Longrightarrow> copied d d1 c"
    using made by blast
  assume p: "entry_at local p \<noteq> None \<or> entry_at remote p \<noteq> None"
  show "leaf d1 (disk_names p) = leaf d (disk_names p)"
    using made fresh [OF p] unfolding leaves_except_def by blast
qed

text \<open>An ordinary copy is no work for the apply: it is in both trees with its entry.\<close>

lemma copy_not_in_diff:
  assumes ok: "sides_ok local remote stamp"
    and c: "c \<in> set (mo_conflicts (merge base local remote dev stamp))" "cc_side c = SideLocal" "\<not> cc_local_only c"
    and q: "q \<in> set (md_deleted (diff (tree_with_copies (merge base local remote dev stamp) local) (mo_merged (merge base local remote dev stamp))))
      \<or> q \<in> set (md_added (diff (tree_with_copies (merge base local remote dev stamp) local) (mo_merged (merge base local remote dev stamp)))
          @ md_changed (diff (tree_with_copies (merge base local remote dev stamp) local) (mo_merged (merge base local remote dev stamp))))"
  shows "disk_names q \<noteq> disk_names (cc_copy_path c)"
proof
  assume eq: "disk_names q = disk_names (cc_copy_path c)"
  let ?old = "tree_with_copies (merge base local remote dev stamp) local"
  let ?new = "mo_merged (merge base local remote dev stamp)"
  have l: "c \<in> set (local_copies (merge base local remote dev stamp))"
    using c by (simp add: local_copies_def)
  then have same: "entry_at ?old (cc_copy_path c) = Some (cc_entry c)" "entry_at ?new (cc_copy_path c) = Some (cc_entry c)"
    using local_copy_facts(1) [OF l] unfolding tree_with_copies_at by auto
  have wf: "manifest_wf ?old" "manifest_wf ?new"
    using ok tree_with_copies_wf merge_wf by (auto simp: sides_ok_def)
  have differ: "entry_at ?old q \<noteq> entry_at ?new q" "entry_at ?old q \<noteq> None \<or> entry_at ?new q \<noteq> None"
    using q unfolding diff_facts(2,3) [OF wf] by auto
  then have "q = cc_copy_path c"
    using inj_onD [OF merged_inj [OF ok] eq] same by blast
  then show False
    using differ(1) same by simp
qed

lemma losers_kept:
  assumes ok: "sides_ok local remote stamp"
    and run: "materialize lower to_json tmp_name get local pb (merge base local remote dev stamp) (d, s) = (r, (d', s'))"
    and c: "c \<in> set (mo_conflicts (merge base local remote dev stamp))" "cc_side c = SideLocal"
  shows "leaf d' (disk_names (cc_path c)) = leaf d (disk_names (cc_path c)) \<or> copied d d' c"
    and "is_ok r \<Longrightarrow> copied d d' c"
proof -
  have "(leaf d' (disk_names (cc_path c)) = leaf d (disk_names (cc_path c)) \<or> copied d d' c) \<and> (is_ok r \<longrightarrow> copied d d' c)"
    using run
  proof (cases rule: materialize_cases)
    case (1 r1)
    then show ?thesis
      using merge_copies_made(1) [OF ok 1(2)] copy_facts(1) [OF ok c(1)] by blast
  next
    case (2 d1 s1)
    then show ?thesis
      using merge_copies_made(2) [OF ok 2(1) _ c] by simp
  next
    case (3 d1 s1 r2)
    let ?q = "disk_names (cc_copy_path c)"
    let ?d = "diff (tree_with_copies (merge base local remote dev stamp) local) (mo_merged (merge base local remote dev stamp))"
    have made: "copied d d1 c"
      using merge_copies_made(2) [OF ok 3(1) _ c] by simp
    have work: "disk_names rel \<noteq> ?q" if "rel \<in> set (md_deleted ?d) \<union> set (md_added ?d @ md_changed ?d)" for rel
    proof (cases "cc_local_only c")
      case False
      then show ?thesis
        using copy_not_in_diff [OF ok c] that by blast
    next
      case True
      have "entry_at (mo_merged (merge base local remote dev stamp)) rel \<noteq> None
          \<or> entry_at (tree_with_copies (merge base local remote dev stamp) local) rel \<noteq> None"
        using that by (auto simp: diff_deleted_iff diff_added_iff diff_changed_iff)
      then have "path_ok rel"
        by (rule merged_key(1) [OF ok])
      then show ?thesis
        using path_ok_not_in_pear True copy_facts(6) [OF ok c(1)] by (auto simp: in_pear_def)
    qed
    have "apart (set (md_deleted ?d) \<union> set (md_added ?d @ md_changed ?d)) ?q"
      unfolding apart_def
    proof (intro conjI)
      have "path_ok (copy_name c)" "split_on CHR ''/'' (copy_name c) \<noteq> []"
        using copy_facts(3) [OF ok c(1)] by simp_all
      then have "hd (split_on CHR ''/'' (copy_name c)) \<noteq> ''.pear''"
        by (auto simp: path_ok_def Let_def eq_ignore_ascii_case_def)
      then show "\<forall>x. STAGING @ [x] \<noteq> ?q" "?q \<noteq> MANIFEST_JSON"
        "?q \<noteq> butlast MANIFEST_JSON @ [with_extension ''tmp'' (last MANIFEST_JSON)]"
        unfolding copy_facts(6) [OF ok c(1)]
        by (auto simp: STAGING_def MANIFEST_JSON_def with_extension_def dest: arg_cong [where f = hd])
    qed (use work in blast)
    then have "leaf d' ?q = leaf d1 ?q"
      using apply_commit_apart [OF 3(2)] by blast
    then show ?thesis
      using made by (simp add: copied_def file_at_leaf)
  qed
  then show "leaf d' (disk_names (cc_path c)) = leaf d (disk_names (cc_path c)) \<or> copied d d' c"
    "is_ok r \<Longrightarrow> copied d d' c"
    by blast+
qed

text \<open>C5: No byte of a losing local file is ever lost.  Whatever system call the run ends at, the
  file is still at its path as it was, or its content is at the conflict copy, whole, with its
  mode and recorded time, and written back to disk; and a run that succeeds has made every copy.\<close>

theorem losers_never_lost:
  assumes "sides_ok local remote stamp"
    and "materialize lower to_json tmp_name get local pb (merge base local remote dev stamp) (d, s) = (r, (d', s'))"
    and "c \<in> set (mo_conflicts (merge base local remote dev stamp))" "cc_side c = SideLocal"
  shows "(leaf d' (disk_names (cc_path c)) = leaf d (disk_names (cc_path c)) \<or> copied d d' c)
    \<and> (is_ok r \<longrightarrow> copied d d' c)"
  using losers_kept [OF assms] by blast

lemma copied_in_place:
  assumes "copied d d1 c" "in_place V (cc_entry c) (leaf d (disk_names (cc_path c)))"
  shows "in_place V (cc_entry c) (leaf d1 (disk_names (cc_copy_path c)))"
  using assms by (auto simp: copied_def in_place_def file_at_leaf)

lemma copies_hold:
  assumes ok: "sides_ok local remote stamp" and tree: "tree_holds V local d"
    and run: "io_each (preserve_copy get) (mo_conflicts (merge base local remote dev stamp)) (d, s) = (Inr (), (d1, s1))"
  shows "tree_holds V (tree_with_copies (merge base local remote dev stamp) local) d1"
    and "c \<in> set (mo_conflicts (merge base local remote dev stamp)) \<Longrightarrow> cc_side c = SideLocal
      \<Longrightarrow> in_place V (cc_entry c) (leaf d1 (disk_names (cc_copy_path c)))"
proof -
  let ?out = "merge base local remote dev stamp"
  show copy: "in_place V (cc_entry c) (leaf d1 (disk_names (cc_copy_path c)))"
    if "c \<in> set (mo_conflicts ?out)" "cc_side c = SideLocal" for c
  proof (rule copied_in_place)
    show "copied d d1 c"
      using merge_copies_made(2) [OF ok run _ that] by simp
    show "in_place V (cc_entry c) (leaf d (disk_names (cc_path c)))"
      using tree copy_facts(7) [OF ok that] by (simp add: tree_holds_def)
  qed
  show "tree_holds V (tree_with_copies ?out local) d1"
    unfolding tree_holds_def
  proof (intro allI impI)
    fix q e assume e: "entry_at (tree_with_copies ?out local) q = Some e"
    show "in_place V e (leaf d1 (disk_names q))"
    proof (cases "q \<in> cc_copy_path ` set (local_copies ?out)")
      case True
      then obtain c where c: "c \<in> set (local_copies ?out)" "q = cc_copy_path c" by blast
      have "e = cc_entry c"
        using e True local_copy_facts(1) [OF c(1)] c(2) unfolding tree_with_copies_at by simp
      then show ?thesis
        using copy [of c] c by (simp add: local_copies_def)
    next
      case False
      then have l: "entry_at local q = Some e"
        using e unfolding tree_with_copies_at by simp
      then have "leaf d1 (disk_names q) = leaf d (disk_names q)"
        using merge_copies_made(1) [OF ok run] by blast
      then show ?thesis
        using tree l by (simp add: tree_holds_def)
    qed
  qed
qed

lemma materialized_tree:
  assumes ok: "sides_ok local remote stamp" and tree: "tree_holds V local d" and V: "sound_source V get"
    and run: "materialize lower to_json tmp_name get local pb (merge base local remote dev stamp) (d, s) = (Inr m, (d', s'))"
  shows "tree_holds V (mo_merged (merge base local remote dev stamp)) d'"
    and "rel \<in> dom (entry_at local) - dom (entry_at (mo_merged (merge base local remote dev stamp))) \<Longrightarrow> leaf d' (disk_names rel) = None"
proof -
  let ?out = "merge base local remote dev stamp"
  let ?old = "tree_with_copies ?out local"
  have wf: "manifest_wf ?old" "manifest_wf (mo_merged ?out)"
    using ok tree_with_copies_wf merge_wf by (auto simp: sides_ok_def)
  have gone: "entry_at ?old rel \<noteq> None \<and> entry_at (mo_merged ?out) rel = None"
    if "rel \<in> dom (entry_at local) - dom (entry_at (mo_merged ?out))" for rel
  proof -
    have "rel \<notin> cc_copy_path ` set (local_copies ?out)"
    proof
      assume "rel \<in> cc_copy_path ` set (local_copies ?out)"
      then obtain c where "c \<in> set (local_copies ?out)" "rel = cc_copy_path c" by blast
      then show False
        using local_copy_facts(2) that by auto
    qed
    then show ?thesis
      using that unfolding tree_with_copies_at by auto
  qed
  have "tree_holds V (mo_merged ?out) d' \<and> (\<forall>rel\<in>dom (entry_at local) - dom (entry_at (mo_merged ?out)). leaf d' (disk_names rel) = None)"
    using run
  proof (cases rule: materialize_cases)
    case (2 d1 s1)
    have none: "\<not> (rel \<in> set (md_added (diff ?old (mo_merged ?out)) @ md_changed (diff ?old (mo_merged ?out))))"
      "\<not> (rel \<in> set (md_deleted (diff ?old (mo_merged ?out))))" for rel
      by (simp_all add: 2(5))
    have same: "entry_at (mo_merged ?out) rel = entry_at ?old rel" for rel
      using none(1) [of rel] none(2) [of rel] unfolding diff_facts(2,3) [OF wf] by (cases "entry_at (mo_merged ?out) rel") auto
    have "tree_holds V (mo_merged ?out) d'"
      using copies_hold(1) [OF ok tree 2(1)] 2(2) same unfolding tree_holds_def by metis
    moreover have False if "rel \<in> dom (entry_at local) - dom (entry_at (mo_merged ?out))" for rel
      using gone [OF that] same [of rel] by metis
    ultimately show ?thesis by blast
  next
    case (3 d1 s1 r2)
    then obtain rep where a: "apply_commit lower to_json tmp_name get ?old (mo_merged ?out) pb (d1, s1) = (Inr rep, (d', s'))"
      by (cases r2) auto
    have "\<forall>rel e. entry_at ?old rel = Some e \<and> entry_at (mo_merged ?out) rel = Some e \<longrightarrow> in_place V e (leaf d1 (disk_names rel))"
      using copies_hold(1) [OF ok tree 3(1)] by (auto simp: tree_holds_def)
    note fin = apply_commit_ok(1,2) [OF a V wf merged_inj [OF ok] this]
    show ?thesis
      using fin(1) fin(2) gone by blast
  qed simp
  then show "tree_holds V (mo_merged ?out) d'"
    "rel \<in> dom (entry_at local) - dom (entry_at (mo_merged ?out)) \<Longrightarrow> leaf d' (disk_names rel) = None"
    by blast+
qed

text \<open>C6: A materialization that returns has put the merge on disk: if the scanned tree was there, the
  merged manifest is there entry by entry, every file it lost is gone, and every losing local
  file, those of \<open>.git\<close> included, is in place under its conflict-copy name.\<close>

theorem materialize_exact:
  assumes "sides_ok local remote stamp" "tree_holds V local d" "sound_source V get"
    and "materialize lower to_json tmp_name get local pb (merge base local remote dev stamp) (d, s) = (Inr m, (d', s'))"
  shows "tree_holds V (mo_merged (merge base local remote dev stamp)) d'
    \<and> (\<forall>rel\<in>dom (entry_at local) - dom (entry_at (mo_merged (merge base local remote dev stamp))). leaf d' (disk_names rel) = None)
    \<and> (\<forall>c\<in>set (mo_conflicts (merge base local remote dev stamp)). cc_side c = SideLocal
         \<longrightarrow> in_place V (cc_entry c) (leaf d' (disk_names (cc_copy_path c))))"
proof -
  have "in_place V (cc_entry c) (leaf d' (disk_names (cc_copy_path c)))"
    if c: "c \<in> set (mo_conflicts (merge base local remote dev stamp))" "cc_side c = SideLocal" for c
  proof (rule copied_in_place)
    show "copied d d' c"
      using losers_kept(2) [OF assms(1,4) c] by simp
    show "in_place V (cc_entry c) (leaf d (disk_names (cc_path c)))"
      using assms(2) copy_facts(7) [OF assms(1) c] by (simp add: tree_holds_def)
  qed
  then show ?thesis
    using materialized_tree [OF assms] by blast
qed

section \<open>A concrete run\<close>

text \<open>Both sides added \<open>a\<close>; the remote one is newer.\<close>

definition mine :: manifest where "mine = sample_files [(''a'', sample_file 1 1)]"
definition theirs :: manifest where "theirs = sample_files [(''a'', sample_file 2 2)]"

definition clash :: merge_outcome where
  "clash = merge (manifest_new ''w'') mine theirs ''mac'' ''s''"

definition my_disk :: "nat option list \<Rightarrow> disk" where
  "my_disk fs = \<lparr>dk_tree = [([''a''], File \<lparr>fn_data = ''me'', fn_mode = 420, fn_mtime = Some (1, 0), fn_synced = True\<rparr>)],
     dk_faults = fs\<rparr>"

definition clash_run :: "nat option list \<Rightarrow> (unit apply_error, materialized) result \<times> disk \<times> unit" where
  "clash_run fs = materialize (\<lambda>s. s) (\<lambda>_. ''j'') (\<lambda>_. ''t'') hi_source mine theirs clash (my_disk fs, ())"

lemma clash_sides: "sides_ok mine theirs ''s''"
proof -
  have "validate mine = Inr ()" "validate theirs = Inr ()"
    by code_simp+
  moreover have "canonical mine" "canonical theirs" "manifest_wf mine"
    by (auto simp: canonical_def mine_def theirs_def sample_files_def manifest_new_def canonical_key_def manifest_wf_def
        bt_wf_def split: if_splits)
  ultimately show ?thesis
    by (simp add: sides_ok_def)
qed

lemma clash_copy: "\<exists>c. mo_conflicts clash = [c] \<and> cc_side c = SideLocal \<and> cc_path c = ''a''
    \<and> disk_names (cc_copy_path c) = [''a (conflict from mac s)'']"
proof -
  have "map (\<lambda>c. (cc_side c, cc_path c, disk_names (cc_copy_path c))) (mo_conflicts clash)
      = [(SideLocal, ''a'', [''a (conflict from mac s)''])]"
    by code_simp
  then show ?thesis
    by auto
qed

lemma mine_on_disk: "tree_holds (\<lambda>h b. b = ''hi'' \<or> b = ''me'') mine (my_disk fs)"
  by (auto simp: tree_holds_def mine_def sample_files_def sample_file_def sample_entry_def manifest_new_def my_disk_def
      leaf_def in_place_def content_of_def clamp_nanos_def disk_names_def list_all2_Cons1 split: if_splits)

lemma hi_me_sound: "sound_source (\<lambda>h b. b = ''hi'' \<or> b = ''me'') hi_source"
  by (simp add: sound_source_def hi_source_def)

lemma losers_never_lost_witness:
  "\<not> is_ok (fst (clash_run (replicate 14 None @ [Some 0])))
   \<and> (\<exists>p g. p \<in> {[''a''], [''a (conflict from mac s)'']}
        \<and> file_at (fst (snd (clash_run (replicate 14 None @ [Some 0])))) p = Some g \<and> fn_data g = ''me'')"
proof -
  obtain r d' where run: "clash_run (replicate 14 None @ [Some 0]) = (r, (d', ()))"
    by (metis prod.exhaust unit.exhaust)
  have no: "\<not> is_ok (fst (clash_run (replicate 14 None @ [Some 0])))"
    by code_simp
  obtain c where c: "mo_conflicts clash = [c]" "cc_side c = SideLocal" "disk_names (cc_path c) = [''a'']"
    "disk_names (cc_copy_path c) = [''a (conflict from mac s)'']"
    using clash_copy by (auto simp: disk_names_def)
  have "leaf d' [''a''] = leaf (my_disk (replicate 14 None @ [Some 0])) [''a'']
      \<or> copied (my_disk (replicate 14 None @ [Some 0])) d' c"
    using losers_never_lost [OF clash_sides run [unfolded clash_run_def clash_def], of c] c by (simp add: clash_def)
  moreover have "file_at (my_disk fs) [''a''] = Some \<lparr>fn_data = ''me'', fn_mode = 420, fn_mtime = Some (1, 0), fn_synced = True\<rparr>" for fs
    by (simp add: my_disk_def file_at_def leaf_def)
  ultimately have "\<exists>p g. p \<in> {[''a''], [''a (conflict from mac s)'']} \<and> file_at d' p = Some g \<and> fn_data g = ''me''"
    using c by (auto simp: copied_def file_at_leaf)
  then show ?thesis
    using no run by simp
qed

lemma materialize_exact_witness:
  "\<exists>m d'. clash_run [] = (Inr m, (d', ())) \<and> tree_holds (\<lambda>h b. b = ''hi'' \<or> b = ''me'') (mo_merged clash) d'"
proof -
  have "is_ok (fst (clash_run []))"
    by code_simp
  then obtain m d' where run: "clash_run [] = (Inr m, (d', ()))"
    by (cases "clash_run []") (auto simp: is_ok_def split: sum.splits)
  then show ?thesis
    using materialize_exact [OF clash_sides mine_on_disk hi_me_sound run [unfolded clash_run_def clash_def]]
    by (simp add: clash_def)
qed

end
