(* ===== verification/Fetch.thy ===== *)
theory Fetch
imports Relay_Client
begin

text \<open>
  How a device fetches the chunks a manifest needs (\<open>core/src/sync.rs\<close>, \<open>plan_fetch_batches\<close>
  and the fetch of \<open>pull_inner\<close>, which \<open>core/src/converge.rs\<close> repeats in \<open>fetch_for_apply\<close>): the plan
  of the batches, the presence check, and the verification of every chunk before it is stored.
  The calls of the relay are parameters; the locale \<open>chunk_server\<close> says what is expected of
  them, and this relay's own handlers interpret it.
\<close>

section \<open>The plan\<close>

record fetch_plan =
  fp_batches :: "string list list"
  fp_current :: "string list"
  fp_bytes :: "64 word"
  fp_planned :: "string list"

text \<open>The hashes not planned yet, in order, each once.\<close>

fun take_new :: "string list \<Rightarrow> string list \<Rightarrow> string list \<times> string list" where
  "take_new planned [] = ([], planned)"
| "take_new planned (h # hs) =
     (if h \<in> set planned then take_new planned hs
      else (case take_new (h # planned) hs of (new, planned) \<Rightarrow> (h # new, planned)))"

definition plan_entry :: "string \<times> file_entry \<Rightarrow> fetch_plan \<Rightarrow> fetch_plan" where
  "plan_entry item pl =
     (let entry = snd item;
          (new, planned) = take_new (fp_planned pl) (fe_chunks entry);
          pl = (if fp_current pl \<noteq> []
                   \<and> (GET_MANY_MAX_HASHES < length (fp_current pl) + length new
                      \<or> of_nat GET_MANY_TARGET_BYTES < fp_bytes pl + fe_size entry)
                then pl\<lparr>fp_batches := fp_batches pl @ [fp_current pl], fp_current := [], fp_bytes := 0\<rparr>
                else pl)
      in pl\<lparr>fp_current := fp_current pl @ new, fp_bytes := fp_bytes pl + fe_size entry, fp_planned := planned\<rparr>)"

definition plan_fetch_batches :: "(string \<times> file_entry) list \<Rightarrow> string list list" where
  "plan_fetch_batches needed =
     (let pl = fold plan_entry needed \<lparr>fp_batches = [], fp_current = [], fp_bytes = 0, fp_planned = []\<rparr>
      in fp_batches pl @ (if fp_current pl = [] then [] else [fp_current pl]))"

section \<open>The fetch\<close>

datatype fetch_error =
    FetchStore store_error
  | FetchRelay relay_error
  | FetchMissing "string list"
  | FetchCorrupt string

record fetched =
  ft_chunks :: nat
  ft_bytes :: nat

text \<open>The chunks of one answer, each verified against its name and then stored.\<close>

fun keep_fetched ::
  "(bytes \<Rightarrow> string) \<Rightarrow> (string \<Rightarrow> bool) \<Rightarrow> (string \<Rightarrow> bool) \<Rightarrow> (string \<times> bytes) list \<Rightarrow> fetched \<Rightarrow> store
     \<Rightarrow> (fetch_error, fetched) result \<times> store" where
  "keep_fetched H sync_ok disk_ok [] n st = (Inr n, st)"
| "keep_fetched H sync_ok disk_ok ((hash, data) # es) n st =
     (if H data \<noteq> hash then (Inl (FetchCorrupt hash), st)
      else
        (case store_put H sync_ok (disk_ok hash) hash data st of
           (Inl e, st) \<Rightarrow> (Inl (FetchStore e), st)
         | (Inr stored, st) \<Rightarrow>
             keep_fetched H sync_ok disk_ok es
               \<lparr>ft_chunks = ft_chunks n + (if stored then 1 else 0), ft_bytes = ft_bytes n + length data\<rparr> st))"

fun fetch_batches ::
  "(bytes \<Rightarrow> string) \<Rightarrow> (string \<Rightarrow> bool) \<Rightarrow> (string \<Rightarrow> bool) \<Rightarrow> (string list \<Rightarrow> 'c \<Rightarrow> (relay_error, (string \<times> bytes) list) result \<times> 'c)
     \<Rightarrow> string list \<Rightarrow> string list list \<Rightarrow> fetched \<Rightarrow> store \<times> 'c \<Rightarrow> (fetch_error, fetched) result \<times> store \<times> 'c" where
  "fetch_batches H sync_ok disk_ok get to_fetch [] n (st, c) = (Inr n, (st, c))"
| "fetch_batches H sync_ok disk_ok get to_fetch (batch # batches) n (st, c) =
     (let wanted = filter (\<lambda>h. h \<in> set to_fetch) batch in
      if wanted = [] then fetch_batches H sync_ok disk_ok get to_fetch batches n (st, c)
      else
        (case get wanted c of
           (Inl e, c) \<Rightarrow> (Inl (FetchRelay e), (st, c))
         | (Inr es, c) \<Rightarrow>
             (case keep_fetched H sync_ok disk_ok es n st of
                (Inl e, st) \<Rightarrow> (Inl e, (st, c))
              | (Inr n, st) \<Rightarrow> fetch_batches H sync_ok disk_ok get to_fetch batches n (st, c))))"

definition fetch_needed ::
  "(bytes \<Rightarrow> string) \<Rightarrow> (string \<Rightarrow> bool) \<Rightarrow> (string \<Rightarrow> bool) \<Rightarrow> (string list \<Rightarrow> 'c \<Rightarrow> (relay_error, string list) result \<times> 'c)
     \<Rightarrow> (string list \<Rightarrow> 'c \<Rightarrow> (relay_error, (string \<times> bytes) list) result \<times> 'c)
     \<Rightarrow> (string \<times> file_entry) list \<Rightarrow> store \<times> 'c \<Rightarrow> (fetch_error, fetched) result \<times> store \<times> 'c" where
  "fetch_needed H sync_ok disk_ok missing get needed sc =
     (case sc of (st, c) \<Rightarrow>
      let batches = plan_fetch_batches needed; need = concat batches in
      (case has_many_default store_has st need of
         Inl e \<Rightarrow> (Inl (FetchStore e), (st, c))
       | Inr present \<Rightarrow>
           (let to_fetch = map fst (filter (\<lambda>(h, p). \<not> p) (zip need present)) in
            if to_fetch = [] then (Inr \<lparr>ft_chunks = 0, ft_bytes = 0\<rparr>, (st, c))
            else
              (case missing to_fetch c of
                 (Inl e, c) \<Rightarrow> (Inl (FetchRelay e), (st, c))
               | (Inr ms, c) \<Rightarrow>
                   if ms \<noteq> [] then (Inl (FetchMissing ms), (st, c))
                   else fetch_batches H sync_ok disk_ok get to_fetch batches \<lparr>ft_chunks = 0, ft_bytes = 0\<rparr> (st, c)))))"

section \<open>What the plan holds\<close>

lemma take_new_props:
  "take_new planned hs = (new, planned') \<Longrightarrow>
     set planned' = set planned \<union> set hs \<and> set new = set hs - set planned \<and> distinct new"
proof (induction planned hs arbitrary: new planned' rule: take_new.induct)
  case (2 planned h hs)
  show ?case
  proof (cases "h \<in> set planned")
    case True
    then have "take_new planned hs = (new, planned')"
      using "2.prems" by simp
    from "2.IH"(1) [OF True this] show ?thesis
      using True by auto
  next
    case False
    obtain new0 where n: "take_new (h # planned) hs = (new0, planned')" "new = h # new0"
      using "2.prems" False by (auto split: prod.splits)
    from "2.IH"(2) [OF False n(1)] show ?thesis
      using False n(2) by auto
  qed
qed simp

text \<open>A batch holds chunks of consecutive files, which fit both caps together, unless one file
  fills it alone.\<close>

definition entry_chunks :: "(string \<times> file_entry) list \<Rightarrow> string set" where
  "entry_chunks items = (\<Union>item\<in>set items. set (fe_chunks (snd item)))"

definition sizes :: "(string \<times> file_entry) list \<Rightarrow> nat" where
  "sizes items = (\<Sum>item\<leftarrow>items. unat (fe_size (snd item)))"

definition batch_from :: "(string \<times> file_entry) list \<Rightarrow> string list \<Rightarrow> bool" where
  "batch_from items b \<longleftrightarrow>
     set b \<subseteq> entry_chunks items
     \<and> (length b \<le> GET_MANY_MAX_HASHES \<and> sizes items \<le> GET_MANY_TARGET_BYTES
        \<or> (\<exists>item\<in>set items. set b \<subseteq> set (fe_chunks (snd item))))"

definition batch_fits :: "(string \<times> file_entry) list \<Rightarrow> string list \<Rightarrow> bool" where
  "batch_fits needed b \<longleftrightarrow> (\<exists>pre items suf. needed = pre @ items @ suf \<and> batch_from items b)"

lemma sizes_append [simp]: "sizes (xs @ ys) = sizes xs + sizes ys" "sizes [] = 0"
  "sizes (x # xs) = unat (fe_size (snd x)) + sizes xs"
  by (simp_all add: sizes_def)

lemma entry_chunks_append [simp]:
  "entry_chunks (xs @ ys) = entry_chunks xs \<union> entry_chunks ys" "entry_chunks [] = {}"
  "entry_chunks (x # xs) = set (fe_chunks (snd x)) \<union> entry_chunks xs"
  by (auto simp: entry_chunks_def)

lemma batch_fits_append: "batch_fits xs b \<Longrightarrow> batch_fits (xs @ ys) b"
  unfolding batch_fits_def by (metis append.assoc)

text \<open>The plan after the files \<open>seen\<close>: the open batch has the chunks of the last of them.\<close>

definition plan_inv :: "(string \<times> file_entry) list \<Rightarrow> fetch_plan \<Rightarrow> bool" where
  "plan_inv seen pl \<longleftrightarrow>
     distinct (concat (fp_batches pl) @ fp_current pl)
     \<and> set (fp_planned pl) = entry_chunks seen
     \<and> set (concat (fp_batches pl) @ fp_current pl) = entry_chunks seen
     \<and> (\<forall>b\<in>set (fp_batches pl). b \<noteq> [] \<and> batch_fits seen b)
     \<and> (\<exists>pre items. seen = pre @ items \<and> unat (fp_bytes pl) = sizes items
          \<and> (fp_current pl = [] \<or> batch_from items (fp_current pl)))"

lemma plan_entry_inv:
  assumes inv: "plan_inv seen pl" and small: "sizes seen + unat (fe_size (snd item)) < 2 ^ 64"
  shows "plan_inv (seen @ [item]) (plan_entry item pl)"
proof -
  obtain new planned where n: "take_new (fp_planned pl) (fe_chunks (snd item)) = (new, planned)"
    by fastforce
  note tn = take_new_props [OF n]
  obtain pre items where opened: "seen = pre @ items" "unat (fp_bytes pl) = sizes items"
    "fp_current pl = [] \<or> batch_from items (fp_current pl)"
    using inv unfolding plan_inv_def by blast
  have bytes: "unat (fp_bytes pl + fe_size (snd item)) = sizes items + unat (fe_size (snd item))"
    using small opened by (subst unat_add_lem [THEN iffD1]) auto
  have pl: "distinct (concat (fp_batches pl) @ fp_current pl)" "set (fp_planned pl) = entry_chunks seen"
    "set (concat (fp_batches pl) @ fp_current pl) = entry_chunks seen"
    and each: "\<forall>b\<in>set (fp_batches pl). b \<noteq> [] \<and> batch_fits seen b"
    using inv unfolding plan_inv_def by blast+
  have planned: "set planned = entry_chunks (seen @ [item])"
    using tn pl(2) by simp
  have all: "set (concat (fp_batches pl) @ fp_current pl @ new) = entry_chunks (seen @ [item])"
    using tn pl(2,3) by (metis Un_Diff_cancel append.assoc entry_chunks_append set_append sup_bot.right_neutral)
  have "set new \<inter> set (concat (fp_batches pl) @ fp_current pl) = {}"
    using tn pl(2,3) by (metis Diff_disjoint Int_commute)
  then have dist: "distinct (concat (fp_batches pl) @ fp_current pl @ new)"
    using pl(1) tn by (metis append.assoc distinct_append Int_commute)
  have old: "\<forall>b\<in>set (fp_batches pl). b \<noteq> [] \<and> batch_fits (seen @ [item]) b"
    using each batch_fits_append by blast
  have new: "set new \<subseteq> set (fe_chunks (snd item))"
    using tn by blast
  let ?full = "fp_current pl \<noteq> [] \<and> (GET_MANY_MAX_HASHES < length (fp_current pl) + length new
                      \<or> of_nat GET_MANY_TARGET_BYTES < fp_bytes pl + fe_size (snd item))"
  show ?thesis
  proof (cases ?full)
    case True
    then have pe: "plan_entry item pl = \<lparr>fp_batches = fp_batches pl @ [fp_current pl], fp_current = new,
        fp_bytes = fe_size (snd item), fp_planned = planned\<rparr>"
      by (simp add: plan_entry_def n)
    have "batch_from items (fp_current pl)"
      using True opened(3) by blast
    then have "batch_fits (seen @ [item]) (fp_current pl)"
      unfolding batch_fits_def opened(1) by (metis append.assoc)
    moreover have "batch_from [item] new"
      using new by (simp add: batch_from_def)
    moreover have "\<exists>pre items. seen @ [item] = pre @ items \<and> unat (fe_size (snd item)) = sizes items
        \<and> (new = [] \<or> batch_from items new)"
      using calculation(2) by (intro exI [of _ seen] exI [of _ "[item]"]) simp
    ultimately show ?thesis
      unfolding plan_inv_def pe using dist all planned old True by simp
  next
    case False
    then have pe: "plan_entry item pl = \<lparr>fp_batches = fp_batches pl, fp_current = fp_current pl @ new,
        fp_bytes = fp_bytes pl + fe_size (snd item), fp_planned = planned\<rparr>"
      by (auto simp: plan_entry_def n)
    have "batch_from (items @ [item]) (fp_current pl @ new)" if cur: "fp_current pl \<noteq> []"
    proof -
      have "fp_bytes pl + fe_size (snd item) \<le> of_nat GET_MANY_TARGET_BYTES"
        "length (fp_current pl @ new) \<le> GET_MANY_MAX_HASHES"
        using False cur by auto
      moreover have "unat (of_nat GET_MANY_TARGET_BYTES :: 64 word) = GET_MANY_TARGET_BYTES"
        by (simp add: GET_MANY_TARGET_BYTES_def)
      ultimately have "sizes (items @ [item]) \<le> GET_MANY_TARGET_BYTES"
        using bytes by (metis word_le_nat_alt sizes_append(1,2,3) add.right_neutral)
      then show ?thesis
        using opened(3) cur new \<open>length (fp_current pl @ new) \<le> _\<close> by (auto simp: batch_from_def)
    qed
    moreover have "batch_from (items @ [item]) (fp_current pl @ new)" if "fp_current pl = []"
      using that new by (auto simp: batch_from_def)
    ultimately have "batch_from (items @ [item]) (fp_current pl @ new)"
      by blast
    then have "\<exists>pre is. seen @ [item] = pre @ is \<and> unat (fp_bytes pl + fe_size (snd item)) = sizes is
        \<and> (fp_current pl @ new = [] \<or> batch_from is (fp_current pl @ new))"
      using bytes opened(1) by (intro exI [of _ pre] exI [of _ "items @ [item]"]) simp
    then show ?thesis
      unfolding plan_inv_def pe using dist all planned old by simp
  qed
qed

lemma plan_fold_inv:
  "plan_inv seen pl \<Longrightarrow> sizes (seen @ todo) < 2 ^ 64 \<Longrightarrow> plan_inv (seen @ todo) (fold plan_entry todo pl)"
proof (induction todo arbitrary: seen pl)
  case (Cons item todo)
  then have "plan_inv (seen @ [item]) (plan_entry item pl)"
    by (intro plan_entry_inv) auto
  then show ?case
    using Cons.IH [of "seen @ [item]"] Cons.prems(2) by simp
qed simp

lemma plan_fetch_batches_props:
  assumes "sizes needed < 2 ^ 64"
  shows "distinct (concat (plan_fetch_batches needed))"
    "set (concat (plan_fetch_batches needed)) = entry_chunks needed"
    "b \<in> set (plan_fetch_batches needed) \<Longrightarrow> b \<noteq> [] \<and> batch_fits needed b"
proof -
  let ?pl = "fold plan_entry needed \<lparr>fp_batches = [], fp_current = [], fp_bytes = 0, fp_planned = []\<rparr>"
  have inv: "plan_inv needed ?pl"
    using plan_fold_inv [of "[]" "\<lparr>fp_batches = [], fp_current = [], fp_bytes = 0, fp_planned = []\<rparr>" needed] assms
    by (simp add: plan_inv_def)
  have c: "concat (plan_fetch_batches needed) = concat (fp_batches ?pl) @ fp_current ?pl"
    by (simp add: plan_fetch_batches_def Let_def)
  show "distinct (concat (plan_fetch_batches needed))"
    "set (concat (plan_fetch_batches needed)) = entry_chunks needed"
    unfolding c using inv by (auto simp: plan_inv_def)
  assume b: "b \<in> set (plan_fetch_batches needed)"
  obtain pre items where "needed = pre @ items" "fp_current ?pl = [] \<or> batch_from items (fp_current ?pl)"
    using inv unfolding plan_inv_def by blast
  then have "fp_current ?pl = [] \<or> batch_fits needed (fp_current ?pl)"
    unfolding batch_fits_def by (metis append.right_neutral)
  then show "b \<noteq> [] \<and> batch_fits needed b"
    using b inv by (auto simp: plan_fetch_batches_def Let_def plan_inv_def split: if_splits)
qed

text \<open>C19: The plan loses and repeats nothing: the batches, one after the other, name every
  chunk of the needed files exactly once, none is empty, and each holds chunks of consecutive
  files that fit the hash cap and the byte target together, or the chunks of a single file,
  provided the sizes sum below \<open>2 ^ 64\<close>, where the 64-bit counter does not wrap.\<close>

theorem fetch_plan_exact:
  assumes "sizes needed < 2 ^ 64"
  shows "distinct (concat (plan_fetch_batches needed))
    \<and> set (concat (plan_fetch_batches needed)) = entry_chunks needed
    \<and> (\<forall>b\<in>set (plan_fetch_batches needed). b \<noteq> [] \<and> batch_fits needed b)"
  using plan_fetch_batches_props [OF assms] by blast

lemma fetch_plan_exact_witness:
  "plan_fetch_batches
     [(''a'', \<lparr>fe_size = 20000000, fe_mode = 0, fe_mtime_secs = 0, fe_mtime_nanos = 0, fe_chunks = [''x'', ''y'', ''x'']\<rparr>),
      (''b'', \<lparr>fe_size = 20000000, fe_mode = 0, fe_mtime_secs = 0, fe_mtime_nanos = 0, fe_chunks = [''y'', ''z'']\<rparr>)]
     = [[''x'', ''y''], [''z'']]
   \<and> distinct (concat (plan_fetch_batches
     [(''a'', \<lparr>fe_size = 20000000, fe_mode = 0, fe_mtime_secs = 0, fe_mtime_nanos = 0, fe_chunks = [''x'', ''y'', ''x'']\<rparr>)]))"
proof -
  let ?a = "(''a'', \<lparr>fe_size = 20000000, fe_mode = 0, fe_mtime_secs = 0, fe_mtime_nanos = 0, fe_chunks = [''x'', ''y'', ''x'']\<rparr>)"
  have "distinct (concat (plan_fetch_batches [?a]))"
    using fetch_plan_exact [of "[?a]"] by simp
  moreover have "plan_fetch_batches [?a,
      (''b'', \<lparr>fe_size = 20000000, fe_mode = 0, fe_mtime_secs = 0, fe_mtime_nanos = 0, fe_chunks = [''y'', ''z'']\<rparr>)]
     = [[''x'', ''y''], [''z'']]"
    by (simp add: plan_fetch_batches_def plan_entry_def GET_MANY_MAX_HASHES_def GET_MANY_TARGET_BYTES_def Let_def)
  ultimately show ?thesis
    by blast
qed

section \<open>What a fetch leaves in the store\<close>

lemma has_many_lookup:
  "untorn H st \<Longrightarrow> has_many_default store_has st hs = Inr bs
     \<Longrightarrow> list_all2 (\<lambda>h b. b \<longleftrightarrow> store_lookup H st h \<noteq> None) hs bs"
proof (induction hs arbitrary: bs)
  case (Cons h hs)
  then show ?case
    using has_store_lookup [OF Cons.prems(1)] store_lookup_has
    by (auto simp: rbind_ok_iff)
qed simp

definition grows :: "(bytes \<Rightarrow> string) \<Rightarrow> store \<Rightarrow> store \<Rightarrow> bool" where
  "grows H st st' \<longleftrightarrow>
     untorn H st' \<and> (\<forall>k x. store_lookup H st k = Some x \<longrightarrow> store_lookup H st' k = Some x)"

lemma grows_refl: "untorn H st \<Longrightarrow> grows H st st"
  by (simp add: grows_def)

lemma grows_trans: "grows H st st1 \<Longrightarrow> grows H st1 st2 \<Longrightarrow> grows H st st2"
  by (simp add: grows_def)

lemma grows_lookup: "grows H st st' \<Longrightarrow> store_lookup H st k \<noteq> None \<Longrightarrow> store_lookup H st' k \<noteq> None"
  by (auto simp: grows_def)

lemma store_put_grows:
  "untorn H st \<Longrightarrow> store_put H sync_ok disk_ok h d st = (r, st') \<Longrightarrow> grows H st st'"
  using local_store.put_sound local_store.put_keeps unfolding grows_def by blast

lemma keep_fetched_grows:
  "untorn H st \<Longrightarrow> keep_fetched H sync_ok disk_ok es n st = (r, st')
     \<Longrightarrow> grows H st st' \<and> (\<forall>n'. r = Inr n' \<longrightarrow> (\<forall>h\<in>fst ` set es. store_lookup H st' h \<noteq> None))"
proof (induction es arbitrary: n st)
  case (Cons e es)
  obtain h d where e: "e = (h, d)" by fastforce
  show ?case
  proof (cases "H d = h")
    case True
    obtain r1 st1 where p: "store_put H sync_ok (disk_ok h) h d st = (r1, st1)" by fastforce
    note g = store_put_grows [OF Cons.prems(1) p]
    show ?thesis
    proof (cases r1)
      case (Inl x)
      then show ?thesis
        using Cons.prems(2) True p e g by auto
    next
      case (Inr b)
      have u: "untorn H st1"
        using g by (simp add: grows_def)
      have k: "keep_fetched H sync_ok disk_ok es
          \<lparr>ft_chunks = ft_chunks n + (if b then 1 else 0), ft_bytes = ft_bytes n + length d\<rparr> st1 = (r, st')"
        using Cons.prems(2) True p e Inr by simp
      note rest = Cons.IH [OF u k]
      have "store_lookup H st1 h \<noteq> None"
        using local_store.put_present Cons.prems(1) p Inr by blast
      then have "store_lookup H st' h \<noteq> None"
        using rest grows_lookup by blast
      moreover have "grows H st st'"
        using g rest grows_trans by blast
      ultimately show ?thesis
        using rest e by simp
    qed
  next
    case False
    then show ?thesis
      using Cons.prems e grows_refl by auto
  qed
qed (simp add: grows_refl)

text \<open>What a device expects of the calls: in a state \<open>ok\<close> of the other side, a batch
  call that succeeds answers for the hashes it was asked for, in order.\<close>

locale chunk_server =
  fixes missing :: "string list \<Rightarrow> 'c \<Rightarrow> (relay_error, string list) result \<times> 'c"
    and get :: "string list \<Rightarrow> 'c \<Rightarrow> (relay_error, (string \<times> bytes) list) result \<times> 'c"
    and ok :: "'c \<Rightarrow> bool"
  assumes missing_ok: "ok c \<Longrightarrow> missing hs c = (r, c') \<Longrightarrow> ok c'"
    and get_ok: "ok c \<Longrightarrow> get hs c = (q, c') \<Longrightarrow> ok c'"
    and get_names: "ok c \<Longrightarrow> get hs c = (Inr es, c') \<Longrightarrow> map fst es = hs"
begin

lemma batches_fetched:
  "untorn H st \<Longrightarrow> ok c \<Longrightarrow> fetch_batches H sync_ok disk_ok get to_fetch batches n (st, c) = (r, (st', c'))
     \<Longrightarrow> grows H st st' \<and> (\<forall>n'. r = Inr n' \<longrightarrow>
           (\<forall>h\<in>set (concat batches). h \<in> set to_fetch \<longrightarrow> store_lookup H st' h \<noteq> None))"
proof (induction batches arbitrary: n st c)
  case (Cons b batches)
  let ?w = "filter (\<lambda>h. h \<in> set to_fetch) b"
  show ?case
  proof (cases "?w = []")
    case True
    then show ?thesis
      using Cons.IH [OF Cons.prems(1,2)] Cons.prems(3) by (auto simp: filter_empty_conv)
  next
    case False
    obtain r1 c1 where g: "get ?w c = (r1, c1)" by fastforce
    show ?thesis
    proof (cases r1)
      case (Inl x)
      then show ?thesis
        using Cons.prems g False grows_refl by (auto simp: Let_def)
    next
      case (Inr es)
      have names: "map fst es = ?w"
        using get_names Cons.prems(2) g Inr by blast
      obtain r2 st2 where k: "keep_fetched H sync_ok disk_ok es n st = (r2, st2)" by fastforce
      note kept = keep_fetched_grows [OF Cons.prems(1) k]
      show ?thesis
      proof (cases r2)
        case l: (Inl x)
        then show ?thesis
          using Cons.prems g False Inr k kept by (auto simp: Let_def)
      next
        case r: (Inr n2)
        have rest: "fetch_batches H sync_ok disk_ok get to_fetch batches n2 (st2, c1) = (r, (st', c'))"
          using Cons.prems(3) g False Inr k r by (simp add: Let_def)
        have "untorn H st2" "ok c1"
          using kept get_ok Cons.prems(2) g by (auto simp: grows_def)
        note IH = Cons.IH [OF this rest]
        have "store_lookup H st' h \<noteq> None" if "h \<in> set ?w" for h
        proof -
          have "h \<in> fst ` set es"
            using that names by (metis list.set_map)
          then show ?thesis
            using kept r IH grows_lookup by blast
        qed
        moreover have "grows H st st'"
          using kept IH grows_trans by blast
        ultimately show ?thesis
          using IH by auto
      qed
    qed
  qed
qed (simp add: grows_refl)

lemma needed_fetched:
  assumes u: "untorn H st" and c: "ok c" and small: "sizes needed < 2 ^ 64"
    and run: "fetch_needed H sync_ok disk_ok missing get needed (st, c) = (r, (st', c'))"
  shows "grows H st st' \<and> (\<forall>n. r = Inr n \<longrightarrow> (\<forall>h\<in>entry_chunks needed. store_lookup H st' h \<noteq> None))"
proof -
  let ?need = "concat (plan_fetch_batches needed)"
  have need: "set ?need = entry_chunks needed"
    using plan_fetch_batches_props(2) [OF small] .
  show ?thesis
  proof (cases "has_many_default store_has st ?need")
    case (Inl e)
    then show ?thesis
      using run u grows_refl by (auto simp: fetch_needed_def Let_def)
  next
    case (Inr present)
    then have p: "list_all2 (\<lambda>h b. b \<longleftrightarrow> store_lookup H st h \<noteq> None) ?need present"
      using has_many_lookup [OF u] by blast
    let ?to = "map fst (filter (\<lambda>(h, p). \<not> p) (zip ?need present))"
    have have_or_fetch: "h \<in> set ?to \<or> store_lookup H st h \<noteq> None" if "h \<in> entry_chunks needed" for h
    proof -
      have "h \<in> set ?need"
        unfolding need by (rule that)
      then obtain i where i: "i < length ?need" "?need ! i = h"
        unfolding in_set_conv_nth by blast
      have pi: "length present = length ?need" "present ! i \<longleftrightarrow> store_lookup H st h \<noteq> None"
        using list_all2_lengthD [OF p] list_all2_nthD [OF p i(1)] by (simp_all add: i(2))
      have z: "(h, present ! i) \<in> set (zip ?need present)"
        unfolding in_set_zip using i pi(1) by (intro exI [of _ i]) simp
      have "h \<in> set ?to" if "\<not> present ! i"
        using z that by force
      then show ?thesis
        using pi(2) by blast
    qed
    show ?thesis
    proof (cases "?to = []")
      case True
      then show ?thesis
        using run Inr have_or_fetch u grows_refl by (auto simp: fetch_needed_def Let_def)
    next
      case False
      obtain m c1 where m: "missing ?to c = (m, c1)" by fastforce
      show ?thesis
      proof (cases "m = Inr []")
        case True
        then have f: "fetch_batches H sync_ok disk_ok get ?to (plan_fetch_batches needed)
            \<lparr>ft_chunks = 0, ft_bytes = 0\<rparr> (st, c1) = (r, (st', c'))"
          using run Inr False m by (simp add: fetch_needed_def Let_def)
        note fetched = batches_fetched [OF u missing_ok [OF c m] f]
        have "store_lookup H st' h \<noteq> None" if n: "r = Inr n" and h: "h \<in> entry_chunks needed" for n h
          using have_or_fetch [OF h]
        proof
          assume "h \<in> set ?to"
          then show ?thesis
            using fetched n h unfolding need by blast
        next
          assume "store_lookup H st h \<noteq> None"
          then show ?thesis
            using fetched grows_lookup by blast
        qed
        then show ?thesis
          using fetched by blast
      next
        case bad: False
        then show ?thesis
          using run Inr False m u grows_refl
          by (auto simp: fetch_needed_def Let_def split: sum.splits if_splits)
      qed
    qed
  qed
qed

end

section \<open>This relay answers for what it is asked\<close>

definition blobs_fit :: "relay_env \<Rightarrow> relay \<Rightarrow> bool" where
  "blobs_fit E rl \<longleftrightarrow> (\<forall>h d. store_lookup (re_hash E) (rl_store rl) h = Some d \<longrightarrow> length d < 2 ^ 64)"

lemma relay_get_many_decodes:
  assumes "blobs_fit E rl" "relay_get_many E p ws hs rl = (Inr body, rl')"
  shows "\<exists>es. frame_decode body = Inr es \<and> map fst es = hs
      \<and> (\<forall>(k, b)\<in>set es. store_lookup (re_hash E) (rl_store rl) k = Some b)"
proof -
  have get: "get_many_chunks E p ws hs rl = (Inr body, rl')"
    using assms(2) by (auto simp: relay_get_many_def split: sum.splits prod.splits)
  obtain es where es: "body = frame_encode es" "map fst es = hs" "length hs \<le> GET_MANY_MAX_HASHES"
    "\<forall>(k, b)\<in>set es. store_lookup (re_hash E) (rl_store rl) k = Some b"
    using get_many_ok [OF get] by blast
  have "\<forall>h\<in>set hs. is_chunk_hash h"
    using get by (auto simp: get_many_chunks_def rbind_ok_iff check_hashes_ok split: if_splits sum.splits)
  then have "is_chunk_hash k \<and> length b < 2 ^ 64" if "(k, b) \<in> set es" for k b
    using es(2,4) that assms(1) by (force simp: blobs_fit_def)
  moreover have "length es < 2 ^ 32"
    using es(2,3) by (auto simp: GET_MANY_MAX_HASHES_def)
  ultimately have "frame_ok es"
    by (auto simp: frame_ok_def)
  then show ?thesis
    using es frame.dec_enc by blast
qed

text \<open>A read may drop a corrupt chunk from the pool, so a failed answer may change the
  relay; what reads back afterwards was there before.\<close>

lemma store_get_lookup:
  "store_get H h st = (r, st') \<Longrightarrow> store_lookup H st' k = Some d \<Longrightarrow> store_lookup H st k = Some d"
  by (auto simp: store_get_def store_lookup_Some split: sum.splits option.splits if_splits)

lemma get_entries_lookup:
  "get_entries E ks st = (r, st') \<Longrightarrow> store_lookup (re_hash E) st' k = Some d
     \<Longrightarrow> store_lookup (re_hash E) st k = Some d"
proof (induction ks arbitrary: st r)
  case (Cons h ks)
  obtain r1 st1 where g: "store_get (re_hash E) h st = (r1, st1)" by fastforce
  have "st' = st1 \<or> (\<exists>r2. get_entries E ks st1 = (r2, st'))"
    using Cons.prems(1) g by (auto split: prod.splits sum.splits store_error.splits)
  then show ?case
    using Cons.IH Cons.prems(2) store_get_lookup [OF g] by blast
qed simp

lemma relay_get_many_fits:
  assumes "blobs_fit E rl" "relay_get_many E p ws hs rl = (r, rl')"
  shows "blobs_fit E rl'"
proof -
  obtain q where "get_many_chunks E p ws hs rl = (q, rl')"
    using assms(2) by (auto simp: relay_get_many_def split: sum.splits prod.splits)
  then have "rl' = rl \<or> (\<exists>q st. get_entries E hs (rl_store rl) = (q, st) \<and> rl' = rl\<lparr>rl_store := st\<rparr>)"
    by (auto simp: get_many_chunks_def split: if_splits sum.splits prod.splits)
  then show ?thesis
    using assms(1) get_entries_lookup unfolding blobs_fit_def
    by (elim disjE exE conjE) (simp_all, blast)
qed

text \<open>One exchange of a download, decoded and counted by the client.\<close>

definition get_call ::
  "(string list \<Rightarrow> 's \<Rightarrow> (relay_error, bytes) result \<times> 's) \<Rightarrow> string list \<Rightarrow> 's
     \<Rightarrow> (relay_error, (string \<times> bytes) list) result \<times> 's" where
  "get_call call batch s =
     (case call batch s of
        (Inl e, s) \<Rightarrow> (Inl e, s)
      | (Inr frame, s) \<Rightarrow>
          (case frame_decode frame of
             Inl _ \<Rightarrow> (Inl RTransport, s)
           | Inr entries \<Rightarrow>
               if length entries \<noteq> length batch then (Inl RTransport, s) else (Inr entries, s)))"

lemma get_chunks_calls: "get_chunks call hs s = call_batches (get_call call) (batches_of GET_MANY_MAX_HASHES hs) s"
  unfolding get_chunks_def get_call_def ..

lemma get_call_relay:
  assumes "blobs_fit E rl" "get_call (relay_get_many E p ws) b rl = (r, rl')"
  shows "blobs_fit E rl' \<and> (\<forall>es. r = Inr es \<longrightarrow> map fst es = b)"
proof -
  obtain q where q: "relay_get_many E p ws b rl = (q, rl')"
    using assms(2) by (auto simp: get_call_def split: sum.splits prod.splits if_splits)
  have "map fst es = b" if "r = Inr es" for es
    using assms(2) q that relay_get_many_decodes [OF assms(1), of p ws b _ rl']
    by (auto simp: get_call_def split: sum.splits if_splits)
  then show ?thesis
    using relay_get_many_fits [OF assms(1) q] by blast
qed

interpretation relay_server: chunk_server "client_chunks_missing (relay_missing p ws)" "get_chunks (relay_get_many E p ws)"
    "blobs_fit E"
  for E p ws
proof unfold_locales
  fix c c' hs r
  assume "blobs_fit E c" "client_chunks_missing (relay_missing p ws) hs c = (r, c')"
  then show "blobs_fit E c'"
    using client_missing_relay(1) by blast
next
  fix c c' hs q
  assume ok: "blobs_fit E c" and g: "get_chunks (relay_get_many E p ws) hs c = (q, c')"
  have "blobs_fit E c' \<and> (\<forall>x y :: unit. True \<longrightarrow> True)"
    by (rule call_batches_state [where I = "blobs_fit E" and R = "\<lambda>_ _ _. True", OF g [unfolded get_chunks_calls] ok])
      (use get_call_relay in blast)
  then show "blobs_fit E c'"
    by blast
next
  fix c c' hs es
  assume ok: "blobs_fit E c" and g: "get_chunks (relay_get_many E p ws) hs c = (Inr es, c')"
  have "map fst es = concat (batches_of GET_MANY_MAX_HASHES hs)"
    by (rule call_batches_rel [where I = "blobs_fit E" and R = "\<lambda>_ b es. map fst es = b", OF g [unfolded get_chunks_calls] ok])
      (use get_call_relay in blast, simp_all)
  then show "map fst es = hs"
    using batches_of_props [of GET_MANY_MAX_HASHES hs] by (simp add: GET_MANY_MAX_HASHES_def)
qed

section \<open>A relay that holds the chunks serves them\<close>

lemma call_batches_pure:
  "\<forall>b\<in>set bs. call b s = (Inr (f b), s) \<Longrightarrow> call_batches call bs s = (Inr (concat (map f bs)), s)"
  by (induction bs) auto

lemma chunk_path_ok: "is_chunk_hash h \<Longrightarrow> chunk_path h = Inr (take 2 h, h)"
  using store_has_hash [of h "open_store []"]
  by (cases "chunk_path h") (auto simp: store_has_def, auto simp: chunk_path_def split: if_splits)

lemma has_many_total:
  "\<forall>h\<in>set hs. is_chunk_hash h \<Longrightarrow> \<exists>bs. has_many_default store_has st hs = Inr bs"
proof (induction hs)
  case (Cons h hs)
  then show ?case
    using store_has_hash [of h st] by auto
qed simp

lemma sync_dirs_ok: "sync_dirs (\<lambda>_. True) synced ds = (s, r) \<Longrightarrow> r = None"
  by (induction "\<lambda>_ :: string. True" synced ds rule: sync_dirs.induct) (auto split: if_splits)

lemma store_put_ok:
  assumes "is_chunk_hash h" "H d = h"
  shows "\<exists>b st'. store_put H (\<lambda>_. True) True h d st = (Inr b, st')"
  using assms sync_dirs_ok
  by (auto simp: store_put_def chunk_path_ok store_flush_def flush_batch_def Let_def split: prod.splits option.splits)

lemma keep_fetched_ok:
  "\<forall>(h, d)\<in>set es. is_chunk_hash h \<and> H d = h
     \<Longrightarrow> \<exists>n' st'. keep_fetched H (\<lambda>_. True) (\<lambda>_. True) es n st = (Inr n', st')"
proof (induction es arbitrary: n st)
  case (Cons e es)
  obtain h d where e: "e = (h, d)" by fastforce
  obtain b st1 where p: "store_put H (\<lambda>_. True) True h d st = (Inr b, st1)"
    using store_put_ok Cons.prems e by fastforce
  have "\<forall>(h, d)\<in>set es. is_chunk_hash h \<and> H d = h" "H d = h"
    using Cons.prems e by auto
  then show ?case
    using Cons.IH [of "\<lparr>ft_chunks = ft_chunks n + (if b then 1 else 0), ft_bytes = ft_bytes n + length d\<rparr>" st1]
    by (simp add: e p)
qed simp

text \<open>The reader's view: every one of the hashes is stored, readable and visible to the caller.\<close>

definition serves :: "relay_env \<Rightarrow> principal \<Rightarrow> string \<Rightarrow> relay \<Rightarrow> string set \<Rightarrow> bool" where
  "serves E p ws rl hs \<longleftrightarrow>
     is_ok (require_role (rl_db rl) ws p Reader) \<and> untorn (re_hash E) (rl_store rl) \<and> blobs_fit E rl
     \<and> (\<forall>h\<in>hs. is_chunk_hash h \<and> available rl p h)"

lemma serves_missing:
  assumes "serves E p ws rl (set hs)"
  shows "client_chunks_missing (relay_missing p ws) hs rl = (Inr [], rl)"
proof -
  have c: "concat (batches_of MISSING_BATCH hs) = hs"
    and len: "\<forall>b\<in>set (batches_of MISSING_BATCH hs). length b \<le> MISSING_BATCH"
    using batches_of_props [of MISSING_BATCH hs] by (simp_all add: MISSING_BATCH_def)
  have "relay_missing p ws b rl = (Inr [], rl)" if b: "b \<in> set (batches_of MISSING_BATCH hs)" for b
  proof -
    have sub: "set b \<subseteq> set hs"
      using b by (subst c [symmetric]) auto
    then have each: "\<forall>h\<in>set b. is_chunk_hash h" "filter (\<lambda>h. \<not> available rl p h) b = []"
      using assms by (auto simp: serves_def filter_empty_conv)
    then have "missing_of rl p b = Inr []"
      using missing_of_spec [of b rl p] by simp
    moreover have "check_all check_hash b = Inr ()"
      using assms sub check_hashes_ok by (auto simp: serves_def)
    moreover have "length b \<le> MAX_MISSING_BATCH"
      using len b by (auto simp: MISSING_BATCH_def MAX_MISSING_BATCH_def)
    ultimately show ?thesis
      using assms by (auto simp: relay_missing_def chunks_missing_def serves_def is_ok_def split: sum.splits)
  qed
  then show ?thesis
    using call_batches_pure [of "batches_of MISSING_BATCH hs" "relay_missing p ws" rl "\<lambda>_. []"]
    by (simp add: client_chunks_missing_def)
qed

lemma get_entries_total:
  "\<forall>h\<in>set hs. store_lookup (re_hash E) st h \<noteq> None
     \<Longrightarrow> get_entries E hs st = (Inr (map (\<lambda>h. (h, the (store_lookup (re_hash E) st h))) hs), st)"
proof (induction hs)
  case (Cons h hs)
  then obtain d where "store_lookup (re_hash E) st h = Some d"
    by auto
  then show ?case
    using Cons by (simp add: get_lookup [THEN iffD2])
qed simp

lemma serves_get_many:
  assumes s: "serves E p ws rl (set hs)" and len: "length hs \<le> GET_MANY_MAX_HASHES"
  shows "get_call (relay_get_many E p ws) hs rl
      = (Inr (map (\<lambda>h. (h, the (store_lookup (re_hash E) (rl_store rl) h))) hs), rl)"
proof -
  let ?es = "map (\<lambda>h. (h, the (store_lookup (re_hash E) (rl_store rl) h))) hs"
  have there: "\<forall>h\<in>set hs. store_lookup (re_hash E) (rl_store rl) h \<noteq> None \<and> sees (rl_db rl) p h"
    using s has_store_lookup by (fastforce simp: serves_def available_def)
  have "check_all check_hash hs = Inr ()"
    using s check_hashes_ok by (auto simp: serves_def)
  moreover have "check_all (\<lambda>h. if sees (rl_db rl) p h then Inr () else Inl (NoChunk h)) hs = Inr ()"
    using there by (auto simp: check_all_ok)
  moreover have "get_entries E hs (rl_store rl) = (Inr ?es, rl_store rl)"
    using get_entries_total there by blast
  ultimately have "get_many_chunks E p ws hs rl = (Inr (frame_encode ?es), rl)"
    using s len by (auto simp: get_many_chunks_def serves_def is_ok_def split: sum.splits)
  then have "relay_get_many E p ws hs rl = (Inr (frame_encode ?es), rl)"
    by (simp add: relay_get_many_def)
  moreover obtain es where "frame_decode (frame_encode ?es) = Inr es" "map fst es = hs"
    "\<forall>(k, b)\<in>set es. store_lookup (re_hash E) (rl_store rl) k = Some b"
    using relay_get_many_decodes calculation s unfolding serves_def by blast
  moreover have "es = ?es"
    using calculation(3,4) by (induction es arbitrary: hs) auto
  ultimately show ?thesis
    by (simp add: get_call_def)
qed

lemma serves_get_chunks:
  assumes "serves E p ws rl (set hs)"
  shows "get_chunks (relay_get_many E p ws) hs rl
      = (Inr (map (\<lambda>h. (h, the (store_lookup (re_hash E) (rl_store rl) h))) hs), rl)"
proof -
  let ?f = "map (\<lambda>h. (h, the (store_lookup (re_hash E) (rl_store rl) h)))"
  have b: "concat (batches_of GET_MANY_MAX_HASHES hs) = hs"
    "\<forall>b\<in>set (batches_of GET_MANY_MAX_HASHES hs). length b \<le> GET_MANY_MAX_HASHES"
    using batches_of_props [of GET_MANY_MAX_HASHES hs] by (simp_all add: GET_MANY_MAX_HASHES_def)
  have "get_call (relay_get_many E p ws) b rl = (Inr (?f b), rl)" if "b \<in> set (batches_of GET_MANY_MAX_HASHES hs)" for b
  proof -
    have "set b \<subseteq> set hs"
      using that by (subst b(1) [symmetric]) auto
    then have "serves E p ws rl (set b)"
      using assms by (auto simp: serves_def)
    then show ?thesis
      using serves_get_many b(2) that by blast
  qed
  then have "get_chunks (relay_get_many E p ws) hs rl = (Inr (concat (map ?f (batches_of GET_MANY_MAX_HASHES hs))), rl)"
    unfolding get_chunks_calls by (intro call_batches_pure) blast
  then show ?thesis
    by (metis b(1) map_concat)
qed

lemma serves_batches:
  "serves E p ws rl (set (concat batches)) \<Longrightarrow>
     \<exists>n' st'. fetch_batches (re_hash E) (\<lambda>_. True) (\<lambda>_. True) (get_chunks (relay_get_many E p ws)) to_fetch batches n (st, rl)
       = (Inr n', (st', rl))"
proof (induction batches arbitrary: n st)
  case (Cons b batches)
  let ?w = "filter (\<lambda>h. h \<in> set to_fetch) b"
  let ?es = "map (\<lambda>h. (h, the (store_lookup (re_hash E) (rl_store rl) h))) ?w"
  have rest: "serves E p ws rl (set (concat batches))" and w: "serves E p ws rl (set ?w)"
    using Cons.prems by (auto simp: serves_def)
  have "is_chunk_hash h \<and> re_hash E (the (store_lookup (re_hash E) (rl_store rl) h)) = h" if "h \<in> set ?w" for h
  proof -
    have h: "is_chunk_hash h" "available rl p h" "untorn (re_hash E) (rl_store rl)"
      using w that unfolding serves_def by blast+
    then obtain d where "store_lookup (re_hash E) (rl_store rl) h = Some d"
      using has_store_lookup unfolding available_def by blast
    then show ?thesis
      using h(1) local_store.lookup_verified by simp
  qed
  then have each: "\<forall>(h, d)\<in>set ?es. is_chunk_hash h \<and> re_hash E d = h"
    unfolding set_map by blast
  obtain n1 st1 where k: "keep_fetched (re_hash E) (\<lambda>_. True) (\<lambda>_. True) ?es n st = (Inr n1, st1)"
    using keep_fetched_ok [OF each] by blast
  show ?case
    using Cons.IH [OF rest] serves_get_chunks [OF w] k by (simp add: Let_def)
qed simp

lemma fetch_all:
  assumes "serves E p ws rl (entry_chunks needed)" "sizes needed < 2 ^ 64"
  shows "\<exists>n st'. fetch_needed (re_hash E) (\<lambda>_. True) (\<lambda>_. True) (client_chunks_missing (relay_missing p ws))
      (get_chunks (relay_get_many E p ws)) needed (st, rl) = (Inr n, (st', rl))"
proof -
  let ?need = "concat (plan_fetch_batches needed)"
  have need: "set ?need = entry_chunks needed"
    using plan_fetch_batches_props(2) [OF assms(2)] .
  then obtain present where p: "has_many_default store_has st ?need = Inr present"
    using has_many_total [of ?need st] assms(1) unfolding serves_def by blast
  let ?to = "map fst (filter (\<lambda>(h, p). \<not> p) (zip ?need present))"
  have "set ?to \<subseteq> entry_chunks needed"
    unfolding need [symmetric] by (auto dest: set_zip_leftD)
  then have "serves E p ws rl (set ?to)" "serves E p ws rl (set ?need)"
    using assms(1) unfolding need by (auto simp: serves_def)
  then show ?thesis
    using serves_missing serves_batches p by (fastforce simp: fetch_needed_def Let_def)
qed

definition toy_needed :: "(string \<times> file_entry) list" where
  "toy_needed = [(''a'', \<lparr>fe_size = 2, fe_mode = 0, fe_mtime_secs = 0, fe_mtime_nanos = 0, fe_chunks = [sample_hash]\<rparr>)]"

lemma toy_needed: "entry_chunks toy_needed = {sample_hash}" "sizes toy_needed < 2 ^ 64"
  by (simp_all add: toy_needed_def sizes_def entry_chunks_def)

lemma toy_serves: "serves toy_env (User ''alice'') ''w'' toy_full {sample_hash}"
proof -
  have r: "require_role (rl_db toy_full) ''w'' (User ''alice'') Reader = Inr toy_row"
    using toy_relay_role by (simp add: toy_full_def toy_row_def)
  have f: "st_files (rl_store toy_full) = [((take 2 sample_hash, sample_hash), ''xy'')]"
    by (simp add: toy_full_def open_deferred_def open_store_def)
  have "untorn (re_hash toy_env) (rl_store toy_full)" "blobs_fit toy_env toy_full"
    by (auto simp: untorn_def blobs_fit_def f store_lookup_Some toy_env_def chunk_path_def split: if_splits)
  moreover have "available toy_full (User ''alice'') sample_hash"
  proof -
    have "bt_contains (db_refs (rl_db toy_full)) (''w'', sample_hash)"
      by (simp add: toy_full_def insert_chunk_refs_def bt_contains_def insert_refs_get)
    then show ?thesis
      using role_sees [OF r] by (simp add: available_def store_has_def sample_path f bt_contains_def)
  qed
  ultimately show ?thesis
    using r by (simp add: serves_def sample_hash_ok)
qed

text \<open>C18: A fetch that succeeds leaves every chunk of the needed files readable and verified in the
  store; whatever it returns, and whatever disk or relay failure ends it, the store stays
  untorn and keeps every chunk it could read.\<close>

theorem fetch_serves_apply:
  assumes "untorn H st" "blobs_fit E rl" "sizes needed < 2 ^ 64"
    and "fetch_needed H sync_ok disk_ok (client_chunks_missing (relay_missing p ws))
           (get_chunks (relay_get_many E p ws)) needed (st, rl) = (r, (st', rl'))"
  shows "untorn H st'
    \<and> (\<forall>k x. store_lookup H st k = Some x \<longrightarrow> store_lookup H st' k = Some x)
    \<and> (\<forall>n. r = Inr n \<longrightarrow> (\<forall>h\<in>entry_chunks needed. \<exists>d. store_lookup H st' h = Some d \<and> H d = h))"
proof -
  note f = relay_server.needed_fetched [OF assms]
  have "\<exists>d. store_lookup H st' h = Some d \<and> H d = h" if "r = Inr n" "h \<in> entry_chunks needed" for n h
  proof -
    have "store_lookup H st' h \<noteq> None"
      using f that by blast
    then obtain d where "store_lookup H st' h = Some d"
      by blast
    then show ?thesis
      using local_store.lookup_verified by blast
  qed
  then show ?thesis
    using f unfolding grows_def by blast
qed

lemma fetch_serves_apply_witness:
  "\<exists>n st'. fetch_needed (re_hash toy_env) (\<lambda>_. True) (\<lambda>_. True) (client_chunks_missing (relay_missing (User ''alice'') ''w''))
       (get_chunks (relay_get_many toy_env (User ''alice'') ''w'')) toy_needed (open_store [], toy_full) = (Inr n, (st', toy_full))
     \<and> (\<exists>d. store_lookup (re_hash toy_env) st' sample_hash = Some d)"
proof -
  have "untorn (re_hash toy_env) (open_store [])" "blobs_fit toy_env toy_full"
    using toy_serves by (simp_all add: untorn_def open_store_def serves_def)
  moreover obtain n st' where f: "fetch_needed (re_hash toy_env) (\<lambda>_. True) (\<lambda>_. True)
      (client_chunks_missing (relay_missing (User ''alice'') ''w''))
      (get_chunks (relay_get_many toy_env (User ''alice'') ''w'')) toy_needed (open_store [], toy_full) = (Inr n, (st', toy_full))"
    using fetch_all toy_serves toy_needed by metis
  ultimately show ?thesis
    using fetch_serves_apply [OF _ _ toy_needed(2) f] toy_needed(1) by blast
qed

text \<open>A relay that holds what a head references always serves it: when the caller is a reader
  of the workspace and every needed chunk is in the pool and visible to it, the fetch
  succeeds, provided the device's disk does not fail, and the relay is unchanged.\<close>

theorem fetch_completes:
  assumes "serves E p ws rl (entry_chunks needed)" "sizes needed < 2 ^ 64"
  shows "\<exists>n st'. fetch_needed (re_hash E) (\<lambda>_. True) (\<lambda>_. True) (client_chunks_missing (relay_missing p ws))
      (get_chunks (relay_get_many E p ws)) needed (st, rl) = (Inr n, (st', rl))"
  by (rule fetch_all [OF assms])

lemma fetch_completes_witness:
  "is_ok (fst (fetch_needed (re_hash toy_env) (\<lambda>_. True) (\<lambda>_. True) (client_chunks_missing (relay_missing (User ''alice'') ''w''))
     (get_chunks (relay_get_many toy_env (User ''alice'') ''w'')) toy_needed (open_store [], toy_full)))"
proof -
  have "serves toy_env (User ''alice'') ''w'' toy_full (entry_chunks toy_needed)"
    using toy_serves by (simp only: toy_needed(1))
  from fetch_completes [OF this toy_needed(2), of "open_store []"] show ?thesis
    by (elim exE) (simp only: fst_conv is_ok_simps)
qed

end
