(* ===== verification/Converge.thy ===== *)
theory Converge
imports Materialize Fetch Push
begin

text \<open>
  The bidirectional pass of a writer device (\<open>core/src/converge.rs\<close>): fetch the head, scan and
  upload, merge, fetch and materialize what the merge takes from the relay, publish with the
  compare-and-swap, and on a lost race merge again onto the winner.  The scan, the walk of the
  tree and the relay's calls are fields of \<open>converge_env\<close>, so that any of them may fail and any
  other device may act at each of them; the theorems instantiate them with this relay's handlers.
\<close>

section \<open>The environment and the state\<close>

datatype source_error = FromStore store_error | FromE2e e2e_error

record 'c converge_env =
  ce_client :: client
  ce_codec :: push_codec
  ce_ring :: "keyring option"
  ce_digest :: "bytes \<Rightarrow> string"
  ce_device :: string
  ce_stamp :: string
  ce_lower :: "string \<Rightarrow> string"
  ce_to_json :: "manifest \<Rightarrow> bytes"
  ce_from_json :: "bytes \<Rightarrow> manifest option"
  ce_state_json :: "remote_state \<Rightarrow> bytes"
  ce_tmp_name :: "string \<Rightarrow> string"
  ce_is_dir :: bool
  ce_init :: "(workspace_error, string) result"     \<comment> \<open>\<open>init_workspace\<close> with the client's workspace\<close>
  ce_open_ok :: bool
  ce_sync_ok :: "string \<Rightarrow> bool"
  ce_put_ok :: "string \<Rightarrow> bool"
  ce_started_at :: int
  ce_walk :: "disk \<Rightarrow> (scan_error, scan_outcome) result"
  ce_presence :: "string list \<Rightarrow> uploader \<times> 'c \<Rightarrow> (relay_error, bool list) result \<times> uploader \<times> 'c"
  ce_upload :: "disk \<Rightarrow> string \<Rightarrow> uploader \<times> 'c \<Rightarrow> (relay_error upload_error, string list) result \<times> uploader \<times> 'c"
  ce_flush :: "uploader \<Rightarrow> 'c \<Rightarrow> (relay_error upload_error, unit) result \<times> uploader \<times> 'c"
  ce_flavor :: "'c \<Rightarrow> (relay_error, bool) result \<times> 'c"
  ce_get_head :: "'c \<Rightarrow> (relay_error, head_info option) result \<times> 'c"
  ce_put_head :: "head_put \<Rightarrow> 'c \<Rightarrow> (relay_error, int \<times> string) result \<times> 'c"
  ce_missing :: "string list \<Rightarrow> 'c \<Rightarrow> (relay_error, string list) result \<times> 'c"
  ce_get_chunks :: "string list \<Rightarrow> 'c \<Rightarrow> (relay_error, (string \<times> bytes) list) result \<times> 'c"

record 'c converging =
  cg_disk :: disk
  cg_store :: store
  cg_relay :: 'c

record converge_report =
  cr_pushed :: bool
  cr_head_seq :: int
  cr_materialized :: materialized
  cr_chunks_uploaded :: nat
  cr_bytes_uploaded :: nat
  cr_fetched :: fetched
  cr_attempts :: nat

definition MAX_ATTEMPTS :: nat where "MAX_ATTEMPTS = 32"

section \<open>The head\<close>

text \<open>\<open>fatal\<close> wraps its error in \<open>Other\<close>.\<close>

definition fatal :: push_error where "fatal = PushOther (Some RFatal)"

definition remote_manifest ::
  "push_codec \<Rightarrow> head_info option \<Rightarrow> keyring option \<Rightarrow> string \<Rightarrow> (push_error, manifest) result" where
  "remote_manifest pc head ring workspace_id =
     (case head of
        None \<Rightarrow> Inr (manifest_new workspace_id)
      | Some h \<Rightarrow>
          rbind
            (case (hi_e2e h, ring) of
               (True, Some r) \<Rightarrow>
                 (case hi_manifest_enc h of
                    None \<Rightarrow> Inl fatal
                  | Some enc \<Rightarrow>
                      (case decrypt_manifest (pc_prims pc) (pc_from_slice pc) r enc of
                         Inl _ \<Rightarrow> Inl fatal
                       | Inr m \<Rightarrow> Inr m))
             | (False, None) \<Rightarrow> Inr (hi_manifest h)
             | _ \<Rightarrow> Inl fatal)
            (\<lambda>m. case validate m of
                Inl _ \<Rightarrow> Inl fatal
              | Inr _ \<Rightarrow> if mf_workspace_id m \<noteq> workspace_id then Inl fatal else Inr m))"

definition refuse_forbidden_dotenv :: "client \<Rightarrow> manifest \<Rightarrow> (push_error, unit) result" where
  "refuse_forbidden_dotenv c local =
     (case c_env_forbidden c of
        None \<Rightarrow> Inr ()
      | Some _ \<Rightarrow>
          if filter is_dotenv (bt_keys (mf_files local)) = [] then Inr () else Inl PushClient)"

section \<open>What the apply needs\<close>

text \<open>The paths the apply writes, and the remote losers assembled into local-only copies.
  A path the diff lists is always in the merged manifest (\<open>needed_total\<close> below).\<close>

definition needed_for_apply :: "merge_outcome \<Rightarrow> (string \<times> file_entry) list" where
  "needed_for_apply out =
     concat (map (\<lambda>rel. case entry_at (mo_merged out) rel of Some e \<Rightarrow> [(rel, e)] | None \<Rightarrow> [])
       (md_added (mo_apply_from_remote out) @ md_changed (mo_apply_from_remote out)))
     @ map (\<lambda>c. (cc_copy_path c, cc_entry c))
         (filter (\<lambda>c. cc_local_only c \<and> cc_side c = SideRemote) (mo_conflicts out))"

definition no_fetch :: fetched where "no_fetch = \<lparr>ft_chunks = 0, ft_bytes = 0\<rparr>"

fun push_of_fetch :: "fetch_error \<Rightarrow> push_error" where
  "push_of_fetch (FetchRelay e) = push_from_relay e"
| "push_of_fetch (FetchStore _) = PushOther None"
| "push_of_fetch (FetchMissing _) = PushOther None"
| "push_of_fetch (FetchCorrupt _) = PushOther None"

definition fetch_for_apply ::
  "'c converge_env \<Rightarrow> merge_outcome \<Rightarrow> store \<times> 'c \<Rightarrow> (push_error, fetched) result \<times> store \<times> 'c" where
  "fetch_for_apply E out sc =
     (let needed = needed_for_apply out in
      if needed = [] then (Inr no_fetch, sc)
      else
        (case fetch_needed (ce_digest E) (ce_sync_ok E) (ce_put_ok E) (ce_missing E) (ce_get_chunks E) needed sc of
           (Inl e, sc) \<Rightarrow> (Inl (push_of_fetch e), sc)
         | (Inr n, sc) \<Rightarrow> (Inr n, sc)))"

text \<open>The local store as a chunk source, decrypting under a ring.\<close>

definition chunk_source :: "prims \<Rightarrow> (bytes \<Rightarrow> string) \<Rightarrow> keyring option \<Rightarrow> string \<Rightarrow> store \<Rightarrow> (source_error, bytes) result \<times> store" where
  "chunk_source P H ring h st =
     (case store_get H h st of
        (Inl e, st) \<Rightarrow> (Inl (FromStore e), st)
      | (Inr blob, st) \<Rightarrow>
          (case ring of
             None \<Rightarrow> (Inr blob, st)
           | Some r \<Rightarrow>
               (case decrypting_get P H (Inr blob) r h of
                  Inl e \<Rightarrow> (Inl (FromE2e e), st)
                | Inr x \<Rightarrow> (Inr x, st))))"

section \<open>The commit point\<close>

definition REMOTE_JSON :: fs_path where "REMOTE_JSON = [''.pear'', ''remote.json'']"

text \<open>The dirents of the store, the head this device now holds, then the converged manifest; the
  sweep of dead chunks never fails the pass.\<close>

definition commit_converged ::
  "'c converge_env \<Rightarrow> manifest \<Rightarrow> int \<Rightarrow> string \<Rightarrow> 'c converging \<Rightarrow> (push_error, unit) result \<times> 'c converging" where
  "commit_converged E merged seq hash st =
     (case store_flush (ce_sync_ok E) (cg_store st) of
        (Inl _, store) \<Rightarrow> (Inl (PushOther None), st\<lparr>cg_store := store\<rparr>)
      | (Inr _, store) \<Rightarrow>
          (let state = ce_state_json E \<lparr>rs_seq = seq, rs_hash = hash,
                         rs_fingerprint = Some (pc_fingerprint (ce_codec E) (mf_files merged))\<rparr>
           in case io_bind (write_file_atomic REMOTE_JSON state) (\<lambda>_.
                   write_file_atomic MANIFEST_JSON (ce_to_json E merged)) (cg_disk st) of
                (Inl _, d) \<Rightarrow> (Inl (PushOther None), st\<lparr>cg_store := store, cg_disk := d\<rparr>)
              | (Inr _, d) \<Rightarrow>
                  (Inr (), st\<lparr>cg_store := snd (sweep_unreferenced (manifest_chunks merged) store), cg_disk := d\<rparr>)))"

section \<open>Steps on parts of the state\<close>

definition cg_check :: "('e, 'a) result \<Rightarrow> 's \<Rightarrow> ('e, 'a) result \<times> 's" where
  "cg_check r st = (r, st)"

definition cg_relay_call ::
  "('e \<Rightarrow> 'f) \<Rightarrow> ('c \<Rightarrow> ('e, 'a) result \<times> 'c) \<Rightarrow> 'c converging \<Rightarrow> ('f, 'a) result \<times> 'c converging" where
  "cg_relay_call err f st =
     (case f (cg_relay st) of
        (Inl e, c) \<Rightarrow> (Inl (err e), st\<lparr>cg_relay := c\<rparr>)
      | (Inr x, c) \<Rightarrow> (Inr x, st\<lparr>cg_relay := c\<rparr>))"

definition cg_fetch ::
  "(store \<times> 'c \<Rightarrow> (push_error, 'a) result \<times> store \<times> 'c) \<Rightarrow> 'c converging \<Rightarrow> (push_error, 'a) result \<times> 'c converging" where
  "cg_fetch f st =
     (case f (cg_store st, cg_relay st) of (r, store, c) \<Rightarrow> (r, st\<lparr>cg_store := store, cg_relay := c\<rparr>))"

definition cg_tree ::
  "(disk \<times> store \<Rightarrow> ('e, 'a) result \<times> disk \<times> store) \<Rightarrow> 'c converging \<Rightarrow> (push_error, 'a) result \<times> 'c converging" where
  "cg_tree f st =
     (case f (cg_disk st, cg_store st) of
        (Inl _, d, store) \<Rightarrow> (Inl (PushOther None), st\<lparr>cg_disk := d, cg_store := store\<rparr>)
      | (Inr x, d, store) \<Rightarrow> (Inr x, st\<lparr>cg_disk := d, cg_store := store\<rparr>))"

definition open_local_store :: "'c converge_env \<Rightarrow> 'c converging \<Rightarrow> (push_error, unit) result \<times> 'c converging" where
  "open_local_store E st =
     (if ce_open_ok E then (Inr (), st\<lparr>cg_store := open_deferred (st_files (cg_store st))\<rparr>)
      else (Inl (PushOther None), st))"

definition flush_local_store :: "'c converge_env \<Rightarrow> 'c converging \<Rightarrow> (push_error, unit) result \<times> 'c converging" where
  "flush_local_store E st =
     (case store_flush (ce_sync_ok E) (cg_store st) of
        (Inl _, store) \<Rightarrow> (Inl (PushOther None), st\<lparr>cg_store := store\<rparr>)
      | (Inr _, store) \<Rightarrow> (Inr (), st\<lparr>cg_store := store\<rparr>))"

definition read_outcome_of :: "(io_error, file_node) result \<Rightarrow> bytes read_outcome" where
  "read_outcome_of r =
     (case r of
        Inr f \<Rightarrow> ReadOk (fn_data f)
      | Inl IoNotFound \<Rightarrow> ReadNotFound
      | Inl IoFailed \<Rightarrow> ReadFailed)"

definition load_local_manifest :: "'c converge_env \<Rightarrow> 'c converging \<Rightarrow> (load_error, manifest option) result \<times> 'c converging" where
  "load_local_manifest E st =
     (case read_file MANIFEST_JSON (cg_disk st) of
        (r, d) \<Rightarrow> (load (ce_from_json E) (read_outcome_of r), st\<lparr>cg_disk := d\<rparr>))"

text \<open>The scan of the tree as it is now, its chunks going to the relay.\<close>

definition scan_local ::
  "'c converge_env \<Rightarrow> string \<Rightarrow> 'c converging \<Rightarrow> (push_error, manifest \<times> uploader) result \<times> 'c converging" where
  "scan_local E wid st =
     (case load_local_manifest E st of
        (loaded, st) \<Rightarrow>
          (case scan_build_manifest (ce_started_at E) (Inr wid) loaded (ce_walk E (cg_disk st)) False
                  (ce_presence E) (ce_upload E (cg_disk st)) (uploader_new, cg_relay st) of
             (Inl e, u, c) \<Rightarrow> (Inl (push_from_anyhow (build_cause e)), st\<lparr>cg_relay := c\<rparr>)
           | (Inr b, u, c) \<Rightarrow> (Inr (sb_new b, u), st\<lparr>cg_relay := c\<rparr>)))"

definition flush_uploads ::
  "'c converge_env \<Rightarrow> uploader \<Rightarrow> 'c converging \<Rightarrow> (push_error, uploader) result \<times> 'c converging" where
  "flush_uploads E u st =
     (case ce_flush E u (cg_relay st) of
        (Inl e, u, c) \<Rightarrow> (Inl (push_from_anyhow (upload_cause e)), st\<lparr>cg_relay := c\<rparr>)
      | (Inr _, u, c) \<Rightarrow> (Inr u, st\<lparr>cg_relay := c\<rparr>))"

section \<open>One attempt\<close>

record tally =
  ty_chunks_up :: nat
  ty_bytes_up :: nat
  ty_fetched :: fetched

datatype attempt_end = Converged converge_report | LostRace manifest tally

definition head_seq :: "head_info option \<Rightarrow> int" where
  "head_seq head = (case head of Some h \<Rightarrow> hi_seq h | None \<Rightarrow> 0)"

text \<open>Publish unless the merge already is the head's tree.  A lost race ends the attempt with
  the head that was merged: the common ancestor of the next one.\<close>

definition publish ::
  "'c converge_env \<Rightarrow> head_info option \<Rightarrow> manifest \<Rightarrow> manifest \<Rightarrow> materialized \<Rightarrow> nat \<Rightarrow> tally \<Rightarrow> 'c converging
     \<Rightarrow> (push_error, attempt_end) result \<times> 'c converging" where
  "publish E head remote merged m attempt t st =
     (let report = (\<lambda>pushed seq. Converged \<lparr>cr_pushed = pushed, cr_head_seq = seq, cr_materialized = m,
              cr_chunks_uploaded = ty_chunks_up t, cr_bytes_uploaded = ty_bytes_up t,
              cr_fetched = ty_fetched t, cr_attempts = attempt\<rparr>);
          settled = (if mf_files merged = mf_files remote then head else None)
      in case settled of
           Some h \<Rightarrow>
             io_bind (commit_converged E merged (hi_seq h) (hi_hash h)) (\<lambda>_. io_return (report False (hi_seq h))) st
         | None \<Rightarrow>
             (case ce_put_head E (head_request (ce_codec E) (ce_ring E) (head_seq head) merged) (cg_relay st) of
                (Inr (seq, hash), c) \<Rightarrow>
                  io_bind (commit_converged E merged seq hash) (\<lambda>_. io_return (report True seq)) (st\<lparr>cg_relay := c\<rparr>)
              | (Inl (RHeadConflict _), c) \<Rightarrow> (Inr (LostRace remote t), st\<lparr>cg_relay := c\<rparr>)
              | (Inl e, c) \<Rightarrow> (Inl (push_from_relay e), st\<lparr>cg_relay := c\<rparr>)))"

text \<open>From the merge on.\<close>

definition merge_and_publish ::
  "'c converge_env \<Rightarrow> manifest \<Rightarrow> head_info option \<Rightarrow> manifest \<Rightarrow> manifest \<times> uploader \<Rightarrow> nat \<Rightarrow> tally \<Rightarrow> 'c converging
     \<Rightarrow> (push_error, attempt_end) result \<times> 'c converging" where
  "merge_and_publish E base head remote scanned attempt t =
     (let (local, u) = scanned; out = merge base local remote (ce_device E) (ce_stamp E) in
      io_bind (cg_check (if is_ok (validate (mo_merged out)) then Inr () else Inl (PushOther None))) (\<lambda>_.
      io_bind (cg_fetch (fetch_for_apply E out)) (\<lambda>n.
      io_bind (flush_local_store E) (\<lambda>_.
      io_bind (cg_tree (materialize (ce_lower E) (ce_to_json E) (ce_tmp_name E)
                 (chunk_source (pc_prims (ce_codec E)) (ce_digest E) (ce_ring E)) local remote out)) (\<lambda>m.
      io_bind (flush_uploads E u) (\<lambda>u.
      publish E head remote (mo_merged out) m attempt
        \<lparr>ty_chunks_up = ty_chunks_up t + up_uploaded u, ty_bytes_up = ty_bytes_up t + up_bytes u,
         ty_fetched = \<lparr>ft_chunks = ft_chunks (ty_fetched t) + ft_chunks n,
                       ft_bytes = ft_bytes (ty_fetched t) + ft_bytes n\<rparr>\<rparr>))))))"

definition converge_attempt ::
  "'c converge_env \<Rightarrow> string \<Rightarrow> manifest \<Rightarrow> nat \<Rightarrow> tally \<Rightarrow> 'c converging
     \<Rightarrow> (push_error, attempt_end) result \<times> 'c converging" where
  "converge_attempt E wid base attempt t =
     io_bind (cg_relay_call push_from_relay (ce_get_head E)) (\<lambda>head.
     io_bind (cg_check (remote_manifest (ce_codec E) head (ce_ring E) wid)) (\<lambda>remote.
     io_bind (open_local_store E) (\<lambda>_.
     io_bind (scan_local E wid) (\<lambda>scanned.
     io_bind (cg_check (if mf_workspace_id (fst scanned) = c_workspace (ce_client E) then Inr () else Inl (PushOther None))) (\<lambda>_.
     io_bind (cg_check (refuse_forbidden_dotenv (ce_client E) (fst scanned))) (\<lambda>_.
     merge_and_publish E base head remote scanned attempt t))))))"

section \<open>The pass\<close>

fun converge_attempts ::
  "'c converge_env \<Rightarrow> string \<Rightarrow> nat \<Rightarrow> nat \<Rightarrow> manifest \<Rightarrow> tally \<Rightarrow> 'c converging
     \<Rightarrow> (push_error, converge_report) result \<times> 'c converging" where
  "converge_attempts E wid attempt 0 base t st = (Inl (PushOther None), st)"
| "converge_attempts E wid attempt (Suc left) base t st =
     io_bind (converge_attempt E wid base attempt t) (\<lambda>a.
       case a of
         Converged r \<Rightarrow> io_return r
       | LostRace remote t \<Rightarrow> converge_attempts E wid (Suc attempt) left remote t) st"

text \<open>The flavor of the workspace is pinned: no key for a plain one, no pass without the key for
  an encrypted one.\<close>

definition converge_once :: "'c converge_env \<Rightarrow> 'c converging \<Rightarrow> (push_error, converge_report) result \<times> 'c converging" where
  "converge_once E =
     io_bind (cg_check (if ce_is_dir E then Inr () else Inl (PushOther None))) (\<lambda>_.
     io_bind (cg_check (case ce_init E of Inl _ \<Rightarrow> Inl (PushOther None) | Inr wid \<Rightarrow> Inr wid)) (\<lambda>wid.
     io_bind (\<lambda>st. case load_local_manifest E st of
                 (Inl _, st) \<Rightarrow> (Inl fatal, st) | (Inr m, st) \<Rightarrow> (Inr m, st)) (\<lambda>stored.
     io_bind (cg_relay_call push_from_relay (ce_flavor E)) (\<lambda>e2e.
     io_bind (cg_check (if e2e \<longleftrightarrow> ce_ring E \<noteq> None then Inr () else Inl fatal)) (\<lambda>_.
     converge_attempts E wid 1 MAX_ATTEMPTS
       (case stored of Some m \<Rightarrow> m | None \<Rightarrow> manifest_new wid)
       \<lparr>ty_chunks_up = 0, ty_bytes_up = 0, ty_fetched = no_fetch\<rparr>)))))"

section \<open>What an attempt goes through\<close>

lemma read_file_leaf: "read_file p d = (r, d') \<Longrightarrow> leaf d' q = leaf d q"
  using keepsD [of "leaves_except {}" "read_file p" d r d'] by (simp add: leaves_except_def frames)

lemma cg_check_ok: "cg_check r st = (Inr x, st') \<longleftrightarrow> r = Inr x \<and> st' = st"
  by (auto simp: cg_check_def)

lemma cg_relay_call_ok:
  "cg_relay_call err f st = (Inr x, st') \<Longrightarrow> \<exists>c. f (cg_relay st) = (Inr x, c) \<and> st' = st\<lparr>cg_relay := c\<rparr>"
  by (auto simp: cg_relay_call_def split: prod.splits sum.splits)

lemma cg_fetch_ok:
  "cg_fetch f st = (Inr x, st') \<Longrightarrow> \<exists>s c. f (cg_store st, cg_relay st) = (Inr x, s, c) \<and> st' = st\<lparr>cg_store := s, cg_relay := c\<rparr>"
  by (auto simp: cg_fetch_def split: prod.splits)

lemma cg_tree_ok:
  "cg_tree f st = (Inr x, st') \<Longrightarrow> \<exists>d s. f (cg_disk st, cg_store st) = (Inr x, d, s) \<and> st' = st\<lparr>cg_disk := d, cg_store := s\<rparr>"
  by (auto simp: cg_tree_def split: prod.splits sum.splits)

lemma open_local_store_ok:
  "open_local_store E st = (Inr x, st') \<Longrightarrow> cg_disk st' = cg_disk st \<and> cg_relay st' = cg_relay st"
  by (auto simp: open_local_store_def split: if_splits)

lemma flush_local_store_ok:
  "flush_local_store E st = (Inr x, st') \<Longrightarrow> cg_disk st' = cg_disk st \<and> cg_relay st' = cg_relay st"
  by (auto simp: flush_local_store_def split: prod.splits sum.splits)

lemma scan_local_relay:
  assumes "scan_local E wid st = (r, st')"
  obtains loaded q u where "scan_build_manifest (ce_started_at E) (Inr wid) loaded (ce_walk E (cg_disk st')) False
     (ce_presence E) (ce_upload E (cg_disk st')) (uploader_new, cg_relay st) = (q, u, cg_relay st')"
    "\<And>local u'. r = Inr (local, u') \<Longrightarrow> \<exists>b. q = Inr b \<and> local = sb_new b"
proof -
  obtain loaded st1 where l: "load_local_manifest E st = (loaded, st1)" by fastforce
  then have r1: "cg_relay st1 = cg_relay st"
    by (auto simp: load_local_manifest_def split: prod.splits)
  obtain q u c where b: "scan_build_manifest (ce_started_at E) (Inr wid) loaded (ce_walk E (cg_disk st1)) False
     (ce_presence E) (ce_upload E (cg_disk st1)) (uploader_new, cg_relay st) = (q, u, c)"
    by (metis prod.exhaust)
  have "cg_relay st' = c" "cg_disk st' = cg_disk st1" "r = Inr (local, u') \<Longrightarrow> \<exists>b. q = Inr b \<and> local = sb_new b" for local u'
    using assms l r1 b by (auto simp: scan_local_def split: sum.splits)
  then show thesis
    using that [of loaded q u] b by simp
qed

lemma flush_uploads_relay:
  "flush_uploads E u st = (r, st') \<Longrightarrow> cg_disk st' = cg_disk st \<and> (\<exists>q u'. ce_flush E u (cg_relay st) = (q, u', cg_relay st'))"
  by (auto simp: flush_uploads_def split: prod.splits sum.splits)

text \<open>The stations of an attempt that ends: the head it saw, what it scanned, the disk after the
  materialization, and the state it published from.\<close>

lemma converge_attempt_stations:
  assumes "converge_attempt E wid base n t st = (Inr a, st')"
  obtains head c1 remote st2 local u st3 out k s4 c4 s4' m d5 s5 u' c6 st6 t' q where
    "ce_get_head E (cg_relay st) = (Inr head, c1)"
    "remote_manifest (ce_codec E) head (ce_ring E) wid = Inr remote"
    "cg_relay st2 = c1" "cg_disk st2 = cg_disk st" "scan_local E wid st2 = (Inr (local, u), st3)"
    "mf_workspace_id local = c_workspace (ce_client E)" "refuse_forbidden_dotenv (ce_client E) local = Inr ()"
    "out = merge base local remote (ce_device E) (ce_stamp E)" "is_ok (validate (mo_merged out))"
    "fetch_for_apply E out (cg_store st3, cg_relay st3) = (Inr k, s4, c4)"
    "materialize (ce_lower E) (ce_to_json E) (ce_tmp_name E)
       (chunk_source (pc_prims (ce_codec E)) (ce_digest E) (ce_ring E)) local remote out (cg_disk st3, s4') = (Inr m, d5, s5)"
    "ce_flush E u c4 = (q, u', cg_relay st6)" "cg_disk st6 = d5"
    "publish E head remote (mo_merged out) m n t' st6 = (Inr a, st')"
proof -
  obtain head st1 remote stA local u st3 where 1: "cg_relay_call push_from_relay (ce_get_head E) st = (Inr head, st1)"
    "remote_manifest (ce_codec E) head (ce_ring E) wid = Inr remote" "open_local_store E st1 = (Inr (), stA)"
    "scan_local E wid stA = (Inr (local, u), st3)" "mf_workspace_id local = c_workspace (ce_client E)"
    "refuse_forbidden_dotenv (ce_client E) local = Inr ()"
    "merge_and_publish E base head remote (local, u) n t st3 = (Inr a, st')"
    using assms by (auto simp: converge_attempt_def io_bind_ok cg_check_ok split: if_splits)
  obtain c1 where c1: "ce_get_head E (cg_relay st) = (Inr head, c1)" "cg_relay stA = c1" "cg_disk stA = cg_disk st"
    using cg_relay_call_ok [OF 1(1)] open_local_store_ok [OF 1(3)] by auto
  define out where "out = merge base local remote (ce_device E) (ce_stamp E)"
  obtain k stB stC m stD u' stE t' where 2: "is_ok (validate (mo_merged out))"
    "cg_fetch (fetch_for_apply E out) st3 = (Inr k, stB)" "flush_local_store E stB = (Inr (), stC)"
    "cg_tree (materialize (ce_lower E) (ce_to_json E) (ce_tmp_name E)
             (chunk_source (pc_prims (ce_codec E)) (ce_digest E) (ce_ring E)) local remote out) stC = (Inr m, stD)"
    "flush_uploads E u stD = (Inr u', stE)" "publish E head remote (mo_merged out) m n t' stE = (Inr a, st')"
    using 1(7) by (auto simp: merge_and_publish_def Let_def io_bind_ok cg_check_ok out_def [symmetric] split: if_splits)
  obtain s4 cB where f: "fetch_for_apply E out (cg_store st3, cg_relay st3) = (Inr k, s4, cB)" "cg_relay stB = cB" "cg_disk stB = cg_disk st3"
    using cg_fetch_ok [OF 2(2)] by auto
  obtain d5 s5 where ma: "materialize (ce_lower E) (ce_to_json E) (ce_tmp_name E)
             (chunk_source (pc_prims (ce_codec E)) (ce_digest E) (ce_ring E)) local remote out (cg_disk st3, cg_store stC) = (Inr m, d5, s5)"
    "cg_disk stD = d5" "cg_relay stD = cB"
    using cg_tree_ok [OF 2(4)] flush_local_store_ok [OF 2(3)] f by auto
  obtain q v where fl: "ce_flush E u cB = (q, v, cg_relay stE)" "cg_disk stE = d5"
    using flush_uploads_relay [OF 2(5)] ma by auto
  show thesis
    by (rule that [OF c1(1) 1(2) c1(2) c1(3) 1(4) 1(5) 1(6) out_def 2(1) f(1) ma(1) fl 2(6)])
qed

end
