(* ===== verification/Converge_Head.thy ===== *)
theory Converge_Head
imports Converge Relay_Gc
begin

text \<open>
  What a pass of \<open>core/src/converge.rs\<close> achieves over this relay, with any other requests and
  sweeps between its own: it merges the head it replaces, publishes with nothing in between,
  loses no change, and leaves the tree of the head on disk.
\<close>

section \<open>A pass over this relay, other devices in between\<close>

text \<open>What a chain of calls does to the relay, whatever runs of other requests come between.\<close>

definition second :: "('c \<Rightarrow> 'c \<Rightarrow> bool) \<Rightarrow> 'u \<times> 'c \<Rightarrow> 'u \<times> 'c \<Rightarrow> bool" where
  "second R x y \<longleftrightarrow> R (snd x) (snd y)"

lemma build_files_keeps:
  assumes "reflp R" "transp R" "\<And>p. keeps R (upload p)"
  shows "R s (snd (build_files strict old present upload fs files s))"
proof (induction fs arbitrary: files s)
  case Nil
  then show ?case using assms(1) by (auto dest: reflpD)
next
  case (Cons f fs)
  obtain r s1 where u: "upload (sf_rel_path f) s = (r, s1)" by fastforce
  have one: "R s s1"
    using keepsD [OF assms(3) u] .
  show ?case
    using Cons.IH u one transpD [OF assms(2) one Cons.IH] by (auto split: option.splits sum.splits)
qed

lemma scan_build_keeps:
  assumes "reflp R" "transp R" "\<And>hs. keeps R (has_many hs)" "\<And>p. keeps R (upload p)"
    and "scan_build_manifest started_at workspace loaded scanned strict has_many upload s = (r, s')"
  shows "R s s'"
proof -
  have "s' = s \<or> (\<exists>hs q s1. has_many hs s = (q, s1) \<and> (s' = s1 \<or>
      (\<exists>old present fs. s' = snd (build_files strict old present upload fs [] s1))))"
  proof (cases "workspace")
    case (Inr wid)
    show ?thesis
    proof (cases loaded)
      case l: (Inr stored)
      let ?old = "case stored of Some m \<Rightarrow> m | None \<Rightarrow> manifest_new wid"
      obtain q s1 where h: "has_many (wanted_chunks ?old) s = (q, s1)" by fastforce
      show ?thesis
      proof (cases scanned)
        case sc: (Inr out)
        show ?thesis
        proof (cases q)
          case a: (Inr answers)
          obtain b s2 where b: "build_files strict ?old (present_of (wanted_chunks ?old) answers) upload (so_files out) [] s1 = (b, s2)"
            by fastforce
          have "s' = s \<or> s' = s2"
            using assms(5) Inr l sc h a b by (auto simp: scan_build_manifest_def Let_def split: if_splits sum.splits)
          then show ?thesis
            using h b by (metis snd_conv)
        qed (use assms(5) Inr l sc h in \<open>auto simp: scan_build_manifest_def Let_def split: if_splits\<close>)
      qed (use assms(5) Inr l in \<open>simp add: scan_build_manifest_def\<close>)
    qed (use assms(5) Inr in \<open>simp add: scan_build_manifest_def\<close>)
  qed (use assms(5) in \<open>simp add: scan_build_manifest_def\<close>)
  then show ?thesis
  proof (elim disjE exE conjE)
    assume "s' = s"
    then show ?thesis using assms(1) by (auto dest: reflpD)
  next
    fix hs q s1 assume "has_many hs s = (q, s1)" "s' = s1"
    then show ?thesis using keepsD [OF assms(3)] by blast
  next
    fix hs q s1 old present fs
    assume "has_many hs s = (q, s1)" "s' = snd (build_files strict old present upload fs [] s1)"
    then have "R s s1" "R s1 s'"
      using keepsD [OF assms(3)] build_files_keeps [of R upload, OF assms(1,2)] assms(4) by blast+
    then show ?thesis
      by (rule transpD [OF assms(2)])
  qed
qed

lemma keep_fetched_relay: "fetch_batches H sync_ok disk_ok get to_fetch batches n (st, c) = (r, (st', c'))
   \<Longrightarrow> reflp R \<Longrightarrow> transp R \<Longrightarrow> (\<And>hs. keeps R (get hs)) \<Longrightarrow> R c c'"
proof (induction batches arbitrary: n st c)
  case Nil
  then show ?case by (auto dest: reflpD)
next
  case (Cons b batches)
  let ?w = "filter (\<lambda>h. h \<in> set to_fetch) b"
  obtain q c1 where g: "get ?w c = (q, c1)" by fastforce
  have one: "R c c1"
    using keepsD [OF Cons.prems(4) g] .
  have "(\<exists>n st. fetch_batches H sync_ok disk_ok get to_fetch batches n (st, c) = (r, (st', c'))) \<or> c' = c1
      \<or> (\<exists>n st. fetch_batches H sync_ok disk_ok get to_fetch batches n (st, c1) = (r, (st', c')))"
    using Cons.prems(1) g by (auto simp: Let_def split: if_splits sum.splits prod.splits)
  then show ?case
    using Cons.IH Cons.prems(2-4) one transpD [OF Cons.prems(3) one] by blast
qed

lemma fetch_for_apply_keeps:
  assumes "reflp R" "transp R" "\<And>hs. keeps R (ce_missing E hs)" "\<And>hs. keeps R (ce_get_chunks E hs)"
    and "fetch_for_apply E out (st, c) = (r, st', c')"
  shows "R c c'"
proof -
  have "c' = c \<or> (\<exists>hs q c1. ce_missing E hs c = (q, c1) \<and> (c' = c1 \<or>
     (\<exists>bs n st1 r st2 tf. fetch_batches (ce_digest E) (ce_sync_ok E) (ce_put_ok E) (ce_get_chunks E) tf bs n (st1, c1) = (r, (st2, c')))))"
  proof -
    obtain q s2 c2 where f: "fetch_needed (ce_digest E) (ce_sync_ok E) (ce_put_ok E) (ce_missing E) (ce_get_chunks E)
        (needed_for_apply out) (st, c) = (q, s2, c2)"
      by (metis prod.exhaust)
    have "c' = c \<or> c' = c2"
      using assms(5) f by (auto simp: fetch_for_apply_def Let_def split: if_splits sum.splits)
    moreover have "c2 = c \<or> (\<exists>hs q c1. ce_missing E hs c = (q, c1) \<and> (c2 = c1 \<or>
     (\<exists>bs n st1 r st2 tf. fetch_batches (ce_digest E) (ce_sync_ok E) (ce_put_ok E) (ce_get_chunks E) tf bs n (st1, c1) = (r, (st2, c2)))))"
      using f unfolding fetch_needed_def Let_def by (auto split: if_splits sum.splits prod.splits)
    ultimately show ?thesis by blast
  qed
  then show ?thesis
  proof (elim disjE exE conjE)
    assume "c' = c"
    then show ?thesis using reflpD [OF assms(1)] by simp
  next
    fix hs q c1 assume "ce_missing E hs c = (q, c1)" "c' = c1"
    then show ?thesis using keepsD [OF assms(3)] by blast
  next
    fix hs q c1 bs n st1 r st2 tf
    assume m: "ce_missing E hs c = (q, c1)"
      and f: "fetch_batches (ce_digest E) (ce_sync_ok E) (ce_put_ok E) (ce_get_chunks E) tf bs n (st1, c1) = (r, (st2, c'))"
    have "R c1 c'"
      using keep_fetched_relay [OF f assms(1,2)] assms(4) by blast
    then show ?thesis
      using transpD [OF assms(2)] keepsD [OF assms(3) m] by blast
  qed
qed

text \<open>What a row of the heads table reads as under a ring, the row a manifest is stored as, and
  the tree of the relay's head: empty when it has none.\<close>

definition row_reads :: "relay_env \<Rightarrow> push_codec \<Rightarrow> keyring option \<Rightarrow> string \<Rightarrow> manifest \<Rightarrow> bool" where
  "row_reads RE pc ring raw m \<longleftrightarrow>
     (case ring of
        None \<Rightarrow> re_manifest RE raw = Some m
      | Some r \<Rightarrow> decrypt_manifest (pc_prims pc) (pc_from_slice pc) r (e2e_wire_manifest RE raw) = Inr m)"

definition row_of :: "relay_env \<Rightarrow> (manifest \<Rightarrow> string) \<Rightarrow> push_codec \<Rightarrow> keyring option \<Rightarrow> manifest \<Rightarrow> string" where
  "row_of RE J pc ring m =
     (case ring of
        None \<Rightarrow> J m
      | Some r \<Rightarrow> e2e_stored_manifest RE (encrypt_manifest (pc_prims pc) (pc_to_vec pc) (pc_nonce pc) r m) (manifest_chunk_hashes m))"

definition head_is :: "relay_env \<Rightarrow> push_codec \<Rightarrow> keyring option \<Rightarrow> string \<Rightarrow> string \<Rightarrow> relay \<Rightarrow> manifest \<Rightarrow> bool" where
  "head_is RE pc ring ws wid rl m \<longleftrightarrow>
     current_seq (rl_db rl) ws = 0 \<and> m = manifest_new wid
     \<or> (\<exists>n raw. register (rl_db rl) ws = (n, Some raw) \<and> row_reads RE pc ring raw m)"

lemma register_seq: "register db ws = (n, x) \<Longrightarrow> current_seq db ws = n"
  by (metis fst_conv fst_register)

lemma relay_get_head_read:
  assumes "relay_get_head RE p ws rl = (Inr (Some h), rl')" "remote_manifest pc (Some h) ring wid = Inr m"
  shows "\<exists>raw. register (rl_db rl) ws = (hi_seq h, Some raw) \<and> row_reads RE pc ring raw m"
proof -
  obtain seq hash wire where g: "get_head RE p ws rl = Inr (seq, hash, wire)"
    using assms(1) by (cases "get_head RE p ws rl") (auto simp: relay_get_head_def split: if_splits)
  then obtain w x where w: "current_head ws (rl_db rl) = Some (seq, x)" "wire = wire_of RE w (h_manifest x)"
    by (auto simp: get_head_def rbind_ok_iff split: option.splits)
  have "hi_seq h = seq \<and> row_reads RE pc ring (h_manifest x) m"
    using assms g w(2)
    by (auto simp: relay_get_head_def wire_of_def head_of_body_def remote_manifest_def row_reads_def rbind_ok_iff
        split: if_splits option.splits sum.splits bool.splits)
  then show ?thesis
    using w(1) by (auto simp: register_def)
qed

lemma relay_get_head_same: "relay_get_head RE p ws rl = (r, rl') \<Longrightarrow> rl' = rl"
  by (auto simp: relay_get_head_def split: sum.splits if_splits wire_manifest.splits)

lemma relay_put_head_swap:
  assumes "relay_put_head RE J sync_ok fault p ws dev (head_request pc ring base m) rl = (Inr (seq, hash), rl')"
    "bt_wf (db_heads (rl_db rl))"
  shows "base = current_seq (rl_db rl) ws" "seq = base + 1"
    "register (rl_db rl') ws = (seq, Some (row_of RE J pc ring m))"
proof -
  let ?b = "commit_body_of J (head_request pc ring base m)"
  have fst: "fst ?b = base"
    by (simp add: head_request_def split: option.splits)
  obtain c where put: "put_head RE sync_ok fault p ws (Some dev) base (snd ?b) rl = (Inr c, rl')" "c = (seq, hash)"
    using assms(1) fst by (auto simp: relay_put_head_def split: prod.splits sum.splits)
  from put(1) obtain w d stored refs where r: "c = (base + 1, re_hash RE stored)" "base = current_seq (rl_db rl) ws"
    "commit_payload RE rl ws w p (snd ?b) = Inr (stored, refs)"
    "insert_head fault ws (base + 1) (re_hash RE stored) stored refs (rl_db rl) = (Inr (), rl_db rl')"
    by (cases rule: put_head_cases) auto
  have "stored = row_of RE J pc ring m"
    using r(3) by (auto simp: commit_payload_def head_request_def row_of_def rbind_ok_iff Let_def split: option.splits if_splits)
  then show "base = current_seq (rl_db rl) ws" "seq = base + 1"
    "register (rl_db rl') ws = (seq, Some (row_of RE J pc ring m))"
    using register_commit [OF assms(2), of fault ws "re_hash RE stored" stored refs "()" "rl_db rl'"] r put(2) by auto
qed

lemma relay_put_head_run:
  "relay_put_head RE J sync_ok fault p ws dev req c = (r, c') \<Longrightarrow> relay_run P H RE c c'"
proof -
  assume "relay_put_head RE J sync_ok fault p ws dev req c = (r, c')"
  then obtain r2 base body where "put_head RE sync_ok fault p ws (Some dev) base body c = (r2, c')"
    by (cases "commit_body_of J req") (auto simp: relay_put_head_def split: prod.splits sum.splits)
  then show ?thesis
    using relay_run_one rel_head by blast
qed

text \<open>The environment of a pass over this relay: between any two of its requests, and before each
  of them, any run of other requests and sweeps happens; a request may fail on the way, and the
  answer to a commit may be lost after the relay took it.\<close>

definition over_relay ::
  "prims \<Rightarrow> (string \<Rightarrow> string) \<Rightarrow> relay_env \<Rightarrow> (manifest \<Rightarrow> string) \<Rightarrow> principal \<Rightarrow> string \<Rightarrow> string \<Rightarrow> relay converge_env \<Rightarrow> bool" where
  "over_relay P H RE J p ws dev E \<longleftrightarrow>
     (\<forall>c r c'. ce_get_head E c = (r, c') \<longrightarrow>
        relay_run P H RE c c' \<and> (is_ok r \<longrightarrow> relay_get_head RE p ws c' = (r, c')))
     \<and> (\<forall>req c r c'. ce_put_head E req c = (r, c') \<longrightarrow>
          relay_run P H RE c c' \<and> (r \<noteq> Inl RTransport \<longrightarrow>
            (\<exists>c1 sync_ok fault. relay_run P H RE c c1 \<and> relay_put_head RE J sync_ok fault p ws dev req c1 = (r, c'))))
     \<and> (\<forall>hs. keeps (second (relay_run P H RE)) (ce_presence E hs))
     \<and> (\<forall>d q. keeps (second (relay_run P H RE)) (ce_upload E d q))
     \<and> (\<forall>u c r u' c'. ce_flush E u c = (r, u', c') \<longrightarrow> relay_run P H RE c c')
     \<and> keeps (relay_run P H RE) (ce_flavor E)
     \<and> (\<forall>hs. keeps (relay_run P H RE) (ce_missing E hs))
     \<and> (\<forall>hs. keeps (relay_run P H RE) (ce_get_chunks E hs))"

lemma relay_run_preorder: "reflp (relay_run P H RE)" "transp (relay_run P H RE)"
  by (auto intro: reflpI transpI relay_refl relay_run_trans)

lemma second_preorder: "reflp R \<Longrightarrow> reflp (second R)" "transp R \<Longrightarrow> transp (second R)"
  unfolding second_def by (auto simp: reflp_def transp_def)

section \<open>What a pass publishes\<close>

lemma remote_manifest_none: "remote_manifest pc None ring wid = Inr m \<longleftrightarrow> m = manifest_new wid"
  by (auto simp: remote_manifest_def)

text \<open>The relay of a settled or published pass.\<close>

lemma publish_agreed:
  fixes E :: "relay converge_env"
  assumes over: "over_relay P H RE J p ws dev E" and ok: "pool_ok RE c1" "envelope_law RE"
    and get: "relay_get_head RE p ws c1 = (Inr head, c1)" "remote_manifest (ce_codec E) head (ce_ring E) wid = Inr remote"
    and run: "relay_run P H RE c1 (cg_relay st)"
    and pub: "publish E head remote merged m n t st = (Inr (Converged rep), st')"
  obtains rl where "relay_run P H RE c1 rl" "relay_run P H RE rl (cg_relay st')" "head_is RE (ce_codec E) (ce_ring E) ws wid rl remote"
    "cr_pushed rep \<longrightarrow> cr_head_seq rep = current_seq (rl_db rl) ws + 1
       \<and> register (rl_db (cg_relay st')) ws = (cr_head_seq rep, Some (row_of RE J (ce_codec E) (ce_ring E) merged))"
    "\<not> cr_pushed rep \<longrightarrow> mf_files merged = mf_files remote \<and> cr_head_seq rep = current_seq (rl_db rl) ws"
proof -
  have commit: "commit_converged E merged seq hash x = (Inr u, y) \<Longrightarrow> cg_relay y = cg_relay x" for seq hash x u y
    by (auto simp: commit_converged_def Let_def split: prod.splits sum.splits)
  have read: "\<exists>raw. register (rl_db c1) ws = (hi_seq h, Some raw) \<and> row_reads RE (ce_codec E) (ce_ring E) raw remote"
    if "head = Some h" for h
    using relay_get_head_read get that by blast
  show thesis
  proof (cases "if mf_files merged = mf_files remote then head else None")
    case (Some h)
    then have s: "mf_files merged = mf_files remote" "head = Some h"
      by (auto split: if_splits)
    have q: "\<not> cr_pushed rep" "cr_head_seq rep = hi_seq h" "cg_relay st' = cg_relay st"
      using pub s commit by (auto simp: publish_def Let_def io_bind_ok io_return_def)
    have "relay_run P H RE c1 c1" "relay_run P H RE c1 (cg_relay st')"
      using run q(3) by (auto intro: relay_refl)
    moreover have "head_is RE (ce_codec E) (ce_ring E) ws wid c1 remote" "current_seq (rl_db c1) ws = hi_seq h"
      using read [OF s(2)] register_seq by (auto simp: head_is_def)
    ultimately show thesis
      using that [of c1] q s(1) by simp
  next
    case None
    obtain r c where put: "ce_put_head E (head_request (ce_codec E) (ce_ring E) (head_seq head) merged) (cg_relay st) = (r, c)"
      by fastforce
    then obtain seq hash where r: "r = Inr (seq, hash)" "cr_pushed rep" "cr_head_seq rep = seq" "cg_relay st' = c"
      using pub None commit by (auto simp: publish_def Let_def io_bind_ok io_return_def split: sum.splits relay_error.splits)
    obtain rl sync_ok fault where rl: "relay_run P H RE (cg_relay st) rl"
      "relay_put_head RE J sync_ok fault p ws dev (head_request (ce_codec E) (ce_ring E) (head_seq head) merged) rl = (Inr (seq, hash), c)"
      using over put r(1) unfolding over_relay_def by blast
    have all: "relay_run P H RE c1 rl"
      using relay_run_trans [OF rl(1) run] .
    then have "pool_ok RE rl"
      using pool_ok_run ok by blast
    then have wf: "bt_wf (db_heads (rl_db rl))"
      using reachable_ok by (auto simp: pool_ok_def db_ok_def tables_wf_def)
    note sw = relay_put_head_swap [OF rl(2) wf]
    have "head_is RE (ce_codec E) (ce_ring E) ws wid rl remote"
    proof (cases head)
      case None
      then show ?thesis
        using sw(1) get(2) by (simp add: head_is_def head_seq_def remote_manifest_none)
    next
      case h: (Some h)
      then obtain raw where w: "register (rl_db c1) ws = (hi_seq h, Some raw)" "row_reads RE (ce_codec E) (ce_ring E) raw remote"
        using read by blast
      then have "current_seq (rl_db c1) ws = current_seq (rl_db rl) ws"
        using sw(1) h register_seq by (simp add: head_seq_def)
      then have "register (rl_db rl) ws = (hi_seq h, Some raw)"
        using relay_run_register(2) [OF all ok] w(1) by simp
      then show ?thesis
        using w(2) by (auto simp: head_is_def)
    qed
    moreover have "relay_run P H RE rl c"
      using relay_put_head_run [OF rl(2)] .
    ultimately show thesis
      using that [of rl] all r sw by simp
  qed
qed

text \<open>What a member reading the head at \<open>rl\<close> takes it for.\<close>

definition reads_as :: "relay_env \<Rightarrow> push_codec \<Rightarrow> keyring option \<Rightarrow> principal \<Rightarrow> string \<Rightarrow> string \<Rightarrow> relay \<Rightarrow> manifest \<Rightarrow> bool" where
  "reads_as RE pc ring p ws wid rl m \<longleftrightarrow>
     (\<exists>head. relay_get_head RE p ws rl = (Inr head, rl) \<and> remote_manifest pc head ring wid = Inr m)"

lemma commit_converged_relay: "commit_converged E merged seq hash st = (r, st') \<Longrightarrow> cg_relay st' = cg_relay st"
  by (auto simp: commit_converged_def Let_def split: prod.splits sum.splits)

lemma publish_runs:
  assumes "over_relay P H RE J p ws dev E" "publish E head remote merged m n t st = (r, st')"
  shows "relay_run P H RE (cg_relay st) (cg_relay st')"
    and "r = Inr (LostRace base t') \<Longrightarrow> base = remote"
proof -
  have put: "ce_put_head E req c = (q, c') \<Longrightarrow> relay_run P H RE c c'" for req c q c'
    using assms(1) unfolding over_relay_def by blast
  have bind: "io_bind (commit_converged E merged seq hash) (\<lambda>_. io_return x) y = (r, st') \<Longrightarrow> cg_relay st' = cg_relay y" for seq hash y x
    using commit_converged_relay [of E merged seq hash y]
    by (cases "commit_converged E merged seq hash y") (auto simp: io_bind_def io_return_def split: sum.splits)
  show "relay_run P H RE (cg_relay st) (cg_relay st')"
  proof (cases "if mf_files merged = mf_files remote then head else None")
    case (Some h)
    then show ?thesis
      using assms(2) bind by (auto simp: publish_def Let_def relay_refl)
  next
    case None
    obtain q c where p: "ce_put_head E (head_request (ce_codec E) (ce_ring E) (head_seq head) merged) (cg_relay st) = (q, c)"
      by fastforce
    have "cg_relay st' = c"
      using assms(2) None p bind by (auto simp: publish_def Let_def split: sum.splits relay_error.splits prod.splits)
    then show ?thesis
      using put [OF p] by simp
  qed
  show "base = remote" if "r = Inr (LostRace base t')"
    using assms(2) that by (auto simp: publish_def Let_def io_bind_ok io_return_def
        split: option.splits sum.splits prod.splits relay_error.splits if_splits)
qed

lemma scan_local_runs:
  assumes "over_relay P H RE J p ws dev E" "scan_local E wid st = (r, st')"
  shows "relay_run P H RE (cg_relay st) (cg_relay st')"
proof -
  obtain loaded q u where s: "scan_build_manifest (ce_started_at E) (Inr wid) loaded (ce_walk E (cg_disk st')) False
     (ce_presence E) (ce_upload E (cg_disk st')) (uploader_new, cg_relay st) = (q, u, cg_relay st')"
    using assms(2) by (rule scan_local_relay)
  have k: "keeps (second (relay_run P H RE)) (ce_presence E hs)"
    "keeps (second (relay_run P H RE)) (ce_upload E d x)" for hs d x
    using assms(1) unfolding over_relay_def by blast+
  have "second (relay_run P H RE) (uploader_new, cg_relay st) (u, cg_relay st')"
    by (rule scan_build_keeps [OF second_preorder(1) [OF relay_run_preorder(1)] second_preorder(2) [OF relay_run_preorder(2)] k s])
  then show ?thesis
    by (simp add: second_def)
qed

text \<open>The relay over an attempt, and what it read of it.\<close>

lemma converge_attempt_over:
  fixes E :: "relay converge_env"
  assumes over: "over_relay P H RE J p ws dev E" and att: "converge_attempt E wid base n t st = (Inr a, st')"
  obtains head c1 remote st2 local u st3 k c4 s4 s4' m d5 s5 st6 t' where
    "relay_run P H RE (cg_relay st) c1" "relay_get_head RE p ws c1 = (Inr head, c1)"
    "remote_manifest (ce_codec E) head (ce_ring E) wid = Inr remote"
    "cg_disk st2 = cg_disk st" "scan_local E wid st2 = (Inr (local, u), st3)"
    "is_ok (validate (mo_merged (merge base local remote (ce_device E) (ce_stamp E))))"
    "fetch_for_apply E (merge base local remote (ce_device E) (ce_stamp E)) (cg_store st3, cg_relay st3) = (Inr k, s4, c4)"
    "materialize (ce_lower E) (ce_to_json E) (ce_tmp_name E)
       (chunk_source (pc_prims (ce_codec E)) (ce_digest E) (ce_ring E)) local remote
       (merge base local remote (ce_device E) (ce_stamp E)) (cg_disk st3, s4') = (Inr m, d5, s5)"
    "relay_run P H RE c1 (cg_relay st6)" "cg_disk st6 = d5"
    "publish E head remote (mo_merged (merge base local remote (ce_device E) (ce_stamp E))) m n t' st6 = (Inr a, st')"
proof -
  obtain head c1 remote st2 local u st3 out k s4 c4 s4' m d5 s5 u' st6 t' q where *:
    "ce_get_head E (cg_relay st) = (Inr head, c1)"
    "remote_manifest (ce_codec E) head (ce_ring E) wid = Inr remote"
    "cg_relay st2 = c1" "cg_disk st2 = cg_disk st" "scan_local E wid st2 = (Inr (local, u), st3)"
    "out = merge base local remote (ce_device E) (ce_stamp E)" "is_ok (validate (mo_merged out))"
    "fetch_for_apply E out (cg_store st3, cg_relay st3) = (Inr k, s4, c4)"
    "materialize (ce_lower E) (ce_to_json E) (ce_tmp_name E)
       (chunk_source (pc_prims (ce_codec E)) (ce_digest E) (ce_ring E)) local remote out (cg_disk st3, s4') = (Inr m, d5, s5)"
    "ce_flush E u c4 = (q, u', cg_relay st6)" "cg_disk st6 = d5"
    "publish E head remote (mo_merged out) m n t' st6 = (Inr a, st')"
    using att by (rule converge_attempt_stations) blast
  have g: "relay_run P H RE (cg_relay st) c1" "relay_get_head RE p ws c1 = (Inr head, c1)"
    using over *(1) unfolding over_relay_def by (fastforce simp: is_ok_def)+
  have s: "relay_run P H RE c1 (cg_relay st3)"
    using scan_local_runs [OF over *(5)] *(3) by simp
  have k: "keeps (relay_run P H RE) (ce_missing E hs)" "keeps (relay_run P H RE) (ce_get_chunks E hs)" for hs
    using over unfolding over_relay_def by blast+
  have f: "relay_run P H RE (cg_relay st3) c4"
    by (rule fetch_for_apply_keeps [OF relay_run_preorder k *(8)])
  have "relay_run P H RE c4 (cg_relay st6)"
    using over *(10) unfolding over_relay_def by blast
  then have "relay_run P H RE c1 (cg_relay st6)"
    using s f relay_run_trans by blast
  then show thesis
    using that [OF g *(2,4,5) _ _ _ _ *(11)] *(7,8,9,12) unfolding *(6) by blast
qed

definition ancestor_of ::
  "prims \<Rightarrow> (string \<Rightarrow> string) \<Rightarrow> relay_env \<Rightarrow> push_codec \<Rightarrow> keyring option \<Rightarrow> principal \<Rightarrow> string \<Rightarrow> string \<Rightarrow> manifest \<Rightarrow> relay \<Rightarrow> relay
     \<Rightarrow> manifest \<Rightarrow> bool" where
  "ancestor_of P H RE pc ring p ws wid base0 rl rl' base \<longleftrightarrow>
     base = base0
     \<or> (\<exists>r1. relay_run P H RE rl r1 \<and> relay_run P H RE r1 rl' \<and> reads_as RE pc ring p ws wid r1 base)"

lemma attempt_lost:
  fixes E :: "relay converge_env"
  assumes over: "over_relay P H RE J p ws dev E" and att: "converge_attempt E wid base n t st = (Inr a, st')"
  shows "relay_run P H RE (cg_relay st) (cg_relay st')"
    and "a = LostRace b t' \<Longrightarrow> ancestor_of P H RE (ce_codec E) (ce_ring E) p ws wid base (cg_relay st) (cg_relay st') b"
proof -
  obtain head c1 remote local st6 t2 m where *: "relay_run P H RE (cg_relay st) c1" "relay_get_head RE p ws c1 = (Inr head, c1)"
    "remote_manifest (ce_codec E) head (ce_ring E) wid = Inr remote" "relay_run P H RE c1 (cg_relay st6)"
    "publish E head remote (mo_merged (merge base local remote (ce_device E) (ce_stamp E))) m n t2 st6 = (Inr a, st')"
    using over att by (rule converge_attempt_over) blast
  note pub = publish_runs [OF over *(5)]
  have run: "relay_run P H RE c1 (cg_relay st')"
    using pub(1) *(4) relay_run_trans by blast
  then show "relay_run P H RE (cg_relay st) (cg_relay st')"
    using *(1) relay_run_trans by blast
  show "ancestor_of P H RE (ce_codec E) (ce_ring E) p ws wid base (cg_relay st) (cg_relay st') b" if "a = LostRace b t'"
    using pub(2) that *(1-3) run unfolding ancestor_of_def reads_as_def by blast
qed

lemma publish_attempts: "publish E head remote merged m n t st = (Inr (Converged rep), st') \<Longrightarrow> cr_attempts rep = n"
  by (auto simp: publish_def Let_def io_bind_ok io_return_def
      split: option.splits sum.splits prod.splits relay_error.splits if_splits)

lemma converge_attempts_last:
  fixes E :: "relay converge_env"
  assumes over: "over_relay P H RE J p ws dev E"
  shows "converge_attempts E wid n k base t st = (Inr rep, st') \<Longrightarrow>
     \<exists>base' n' t' st1. converge_attempt E wid base' n' t' st1 = (Inr (Converged rep), st')
       \<and> relay_run P H RE (cg_relay st) (cg_relay st1) \<and> n \<le> n' \<and> n' < n + k
       \<and> ancestor_of P H RE (ce_codec E) (ce_ring E) p ws wid base (cg_relay st) (cg_relay st1) base'"
proof (induction k arbitrary: n base t st)
  case (Suc k)
  obtain a st2 where a: "converge_attempt E wid base n t st = (Inr a, st2)"
    "(case a of Converged r \<Rightarrow> io_return r | LostRace remote t \<Rightarrow> converge_attempts E wid (Suc n) k remote t) st2 = (Inr rep, st')"
    using Suc.prems by (auto simp: io_bind_ok)
  show ?case
  proof (cases a)
    case (Converged r)
    then have "r = rep" "st2 = st'"
      using a(2) by (auto simp: io_return_def)
    then show ?thesis
      using a(1) Converged relay_refl [of P H RE "cg_relay st"]
      by (intro exI [of _ base] exI [of _ n] exI [of _ t] exI [of _ st]) (simp add: ancestor_of_def)
  next
    case (LostRace remote t2)
    have rec: "converge_attempts E wid (Suc n) k remote t2 st2 = (Inr rep, st')"
      using a(2) LostRace by simp
    obtain base' n' t' st1 where r: "converge_attempt E wid base' n' t' st1 = (Inr (Converged rep), st')"
      "relay_run P H RE (cg_relay st2) (cg_relay st1)" "Suc n \<le> n'" "n' < Suc n + k"
      "ancestor_of P H RE (ce_codec E) (ce_ring E) p ws wid remote (cg_relay st2) (cg_relay st1) base'"
      using Suc.IH [OF rec] by blast
    note lost = attempt_lost [OF over a(1)]
    have run: "relay_run P H RE (cg_relay st) (cg_relay st1)"
      using lost(1) r(2) relay_run_trans by blast
    have "ancestor_of P H RE (ce_codec E) (ce_ring E) p ws wid base (cg_relay st) (cg_relay st1) base'"
      using r(5) lost(2) [OF LostRace] lost(1) r(2) relay_run_trans unfolding ancestor_of_def by blast
    then show ?thesis
      using r(1,3,4) run
      by (intro exI [of _ base'] exI [of _ n'] exI [of _ t'] exI [of _ st1]) simp
  qed
qed (simp add: io_fail_def)

lemma load_local_manifest_same:
  "load_local_manifest E st = (l, st') \<Longrightarrow> cg_relay st' = cg_relay st"
  by (auto simp: load_local_manifest_def split: prod.splits)

definition stored_base :: "'c converge_env \<Rightarrow> string \<Rightarrow> 'c converging \<Rightarrow> manifest" where
  "stored_base E wid st =
     (case fst (load_local_manifest E st) of Inr (Some m) \<Rightarrow> m | _ \<Rightarrow> manifest_new wid)"

text \<open>The whole pass: it ends with one attempt, from the stored base or from a head it read.\<close>

lemma converge_once_last:
  fixes E :: "relay converge_env"
  assumes over: "over_relay P H RE J p ws dev E" and con: "converge_once E st = (Inr rep, st')" and wid: "ce_init E = Inr wid"
  obtains base n t st1 where "converge_attempt E wid base n t st1 = (Inr (Converged rep), st')"
    "relay_run P H RE (cg_relay st) (cg_relay st1)" "1 \<le> n" "n \<le> MAX_ATTEMPTS"
    "ancestor_of P H RE (ce_codec E) (ce_ring E) p ws wid (stored_base E wid st) (cg_relay st) (cg_relay st1) base"
proof -
  obtain stored st0 e2e stA t where *: "load_local_manifest E st = (Inr stored, st0)"
    "cg_relay_call push_from_relay (ce_flavor E) st0 = (Inr e2e, stA)"
    "converge_attempts E wid 1 MAX_ATTEMPTS (case stored of Some m \<Rightarrow> m | None \<Rightarrow> manifest_new wid) t stA = (Inr rep, st')"
    using con wid by (auto simp: converge_once_def io_bind_ok cg_check_ok split: if_splits prod.splits sum.splits)
  obtain c where "ce_flavor E (cg_relay st0) = (Inr e2e, c)" "cg_relay stA = c"
    using cg_relay_call_ok [OF *(2)] by auto
  moreover have "keeps (relay_run P H RE) (ce_flavor E)"
    using over unfolding over_relay_def by blast
  ultimately have fl: "relay_run P H RE (cg_relay st) (cg_relay stA)"
    using keepsD load_local_manifest_same [OF *(1)] by metis
  have base: "(case stored of Some m \<Rightarrow> m | None \<Rightarrow> manifest_new wid) = stored_base E wid st"
    using *(1) by (simp add: stored_base_def)
  obtain base' n' t' st1 where r: "converge_attempt E wid base' n' t' st1 = (Inr (Converged rep), st')"
    "relay_run P H RE (cg_relay stA) (cg_relay st1)" "1 \<le> n'" "n' < 1 + MAX_ATTEMPTS"
    "ancestor_of P H RE (ce_codec E) (ce_ring E) p ws wid (stored_base E wid st) (cg_relay stA) (cg_relay st1) base'"
    using converge_attempts_last [OF over *(3)] base by auto
  show thesis
  proof (rule that [OF r(1) _ r(3)])
    show "relay_run P H RE (cg_relay st) (cg_relay st1)"
      using fl r(2) relay_run_trans by blast
    show "n' \<le> MAX_ATTEMPTS"
      using r(4) by simp
    show "ancestor_of P H RE (ce_codec E) (ce_ring E) p ws wid (stored_base E wid st) (cg_relay st) (cg_relay st1) base'"
      using r(5) fl relay_run_trans unfolding ancestor_of_def by blast
  qed
qed

section \<open>The tree after a pass\<close>

lemma write_pear_leaves:
  assumes "write_file_atomic [''.pear'', n] b d = (r, d')" "\<not> in_pear q"
  shows "leaf d' q = leaf d q"
  using keepsD [OF write_file_atomic_leaves assms(1)] assms(2) by (auto simp: leaves_except_def in_pear_def)

lemma commit_converged_disk:
  assumes "commit_converged E merged seq hash st = (r, st')"
  shows "\<not> in_pear q \<Longrightarrow> leaf (cg_disk st') q = leaf (cg_disk st) q"
    and "leaf (cg_disk st') MANIFEST_JSON = leaf (cg_disk st) MANIFEST_JSON \<or> is_ok r"
    and "is_ok r \<Longrightarrow> \<exists>f. file_at (cg_disk st') MANIFEST_JSON = Some f \<and> fn_data f = ce_to_json E merged \<and> fn_synced f"
proof -
  let ?w1 = "write_file_atomic REMOTE_JSON (ce_state_json E \<lparr>rs_seq = seq, rs_hash = hash,
                         rs_fingerprint = Some (pc_fingerprint (ce_codec E) (mf_files merged))\<rparr>)"
  let ?w2 = "write_file_atomic MANIFEST_JSON (ce_to_json E merged)"
  have "cg_disk st' = cg_disk st \<and> \<not> is_ok r
      \<or> (\<exists>r1 d1. ?w1 (cg_disk st) = (r1, d1) \<and> (cg_disk st' = d1 \<and> \<not> is_ok r
          \<or> (\<exists>r2. ?w2 d1 = (r2, cg_disk st') \<and> is_ok r = is_ok r2)))"
    using assms by (auto simp: commit_converged_def Let_def io_bind_def is_ok_def split: prod.splits sum.splits)
  moreover have one: "(\<not> in_pear q \<longrightarrow> leaf d1 q = leaf (cg_disk st) q) \<and> leaf d1 MANIFEST_JSON = leaf (cg_disk st) MANIFEST_JSON"
    if "?w1 (cg_disk st) = (r1, d1)" for r1 d1 q
    using keepsD [OF write_file_atomic_leaves that]
    by (auto simp: leaves_except_def REMOTE_JSON_def MANIFEST_JSON_def in_pear_def with_extension_def)
  moreover have two: "(\<not> in_pear q \<longrightarrow> leaf d2 q = leaf d1 q) \<and>
      (leaf d2 MANIFEST_JSON = leaf d1 MANIFEST_JSON \<and> \<not> is_ok r2
        \<or> is_ok r2 \<and> (\<exists>f. file_at d2 MANIFEST_JSON = Some f \<and> fn_data f = ce_to_json E merged \<and> fn_synced f))"
    if "?w2 d1 = (r2, d2)" for r2 d1 d2 q
  proof -
    have "MANIFEST_JSON \<noteq> []" "with_extension ''tmp'' (last MANIFEST_JSON) \<noteq> last MANIFEST_JSON"
      by (simp_all add: MANIFEST_JSON_def with_extension_def)
    then show ?thesis
      using write_pear_leaves [OF that [unfolded MANIFEST_JSON_def]] write_file_atomic_cases [OF that] by (auto simp: is_ok_def)
  qed
  ultimately show "\<not> in_pear q \<Longrightarrow> leaf (cg_disk st') q = leaf (cg_disk st) q"
    and "leaf (cg_disk st') MANIFEST_JSON = leaf (cg_disk st) MANIFEST_JSON \<or> is_ok r"
    and "is_ok r \<Longrightarrow> \<exists>f. file_at (cg_disk st') MANIFEST_JSON = Some f \<and> fn_data f = ce_to_json E merged \<and> fn_synced f"
    by metis+
qed

lemma publish_disk:
  assumes "publish E head remote merged m n t st = (r, st')"
  shows "\<not> in_pear q \<Longrightarrow> leaf (cg_disk st') q = leaf (cg_disk st) q"
    and "leaf (cg_disk st') MANIFEST_JSON = leaf (cg_disk st) MANIFEST_JSON \<or> (\<exists>rep. r = Inr (Converged rep))"
    and "r = Inr (Converged rep) \<Longrightarrow>
       \<exists>f. file_at (cg_disk st') MANIFEST_JSON = Some f \<and> fn_data f = ce_to_json E merged \<and> fn_synced f"
proof -
  have "cg_disk st' = cg_disk st \<and> (\<forall>rep. r \<noteq> Inr (Converged rep))
    \<or> (\<exists>st1 seq hash q. cg_disk st1 = cg_disk st \<and> commit_converged E merged seq hash st1 = (q, st')
         \<and> (is_ok q \<longleftrightarrow> (\<exists>rep. r = Inr (Converged rep))))"
  proof (cases "if mf_files merged = mf_files remote then head else None")
    case (Some h)
    obtain q y where cm: "commit_converged E merged (hi_seq h) (hi_hash h) st = (q, y)" by fastforce
    then have "y = st'" "is_ok q \<longleftrightarrow> (\<exists>rep. r = Inr (Converged rep))"
      using assms Some by (auto simp: publish_def Let_def io_bind_def io_return_def is_ok_def split: sum.splits)
    then show ?thesis
      using cm by blast
  next
    case None
    obtain p c where put: "ce_put_head E (head_request (ce_codec E) (ce_ring E) (head_seq head) merged) (cg_relay st) = (p, c)"
      by fastforce
    show ?thesis
    proof (cases p)
      case (Inl e)
      then show ?thesis
        using assms None put by (auto simp: publish_def Let_def split: relay_error.splits)
    next
      case (Inr sh)
      obtain q y where cm: "commit_converged E merged (fst sh) (snd sh) (st\<lparr>cg_relay := c\<rparr>) = (q, y)" by fastforce
      then have "y = st'" "is_ok q \<longleftrightarrow> (\<exists>rep. r = Inr (Converged rep))"
        using assms None put Inr by (auto simp: publish_def Let_def io_bind_def io_return_def is_ok_def split_def split: sum.splits)
      then show ?thesis
        using cm by (intro disjI2 exI [of _ "st\<lparr>cg_relay := c\<rparr>"] exI) auto
    qed
  qed
  then show "\<not> in_pear q \<Longrightarrow> leaf (cg_disk st') q = leaf (cg_disk st) q"
    and "leaf (cg_disk st') MANIFEST_JSON = leaf (cg_disk st) MANIFEST_JSON \<or> (\<exists>rep. r = Inr (Converged rep))"
    and "r = Inr (Converged rep) \<Longrightarrow>
       \<exists>f. file_at (cg_disk st') MANIFEST_JSON = Some f \<and> fn_data f = ce_to_json E merged \<and> fn_synced f"
    using commit_converged_disk by metis+
qed

text \<open>A scan that is right about the tree: valid, with plain keys, and every file it lists is there
  with those contents.\<close>

definition faithful_scans :: "(string \<Rightarrow> bytes \<Rightarrow> bool) \<Rightarrow> 'c converge_env \<Rightarrow> bool" where
  "faithful_scans V E \<longleftrightarrow>
     (\<forall>wid x local u y. scan_local E wid x = (Inr (local, u), y) \<longrightarrow>
        validate local = Inr () \<and> canonical local \<and> manifest_wf local \<and> tree_holds V local (cg_disk y))"

lemma remote_manifest_valid: "remote_manifest pc head ring wid = Inr m \<Longrightarrow> validate m = Inr ()"
proof (cases head)
  case None
  then show "remote_manifest pc head ring wid = Inr m \<Longrightarrow> validate m = Inr ()"
    by (simp add: remote_manifest_none validate_def manifest_new_def bt_keys_def)
next
  case (Some h)
  have *: "(case validate x of Inl _ \<Rightarrow> Inl e | Inr _ \<Rightarrow> if c then Inl e else Inr x) = Inr m \<Longrightarrow> validate m = Inr ()"
    for x c and e :: push_error
    by (cases "validate x") (simp_all split: if_splits)
  show "remote_manifest pc head ring wid = Inr m \<Longrightarrow> validate m = Inr ()"
    unfolding remote_manifest_def Some option.case rbind_ok_iff by (elim exE conjE) (rule *)
qed

lemma attempt_tree:
  fixes E :: "relay converge_env"
  assumes over: "over_relay P H RE J p ws dev E" and ok: "pool_ok RE (cg_relay st)" "envelope_law RE"
    and att: "converge_attempt E wid base n t st = (Inr (Converged rep), st')"
  obtains local remote u x y rl c1 where "relay_run P H RE (cg_relay st) c1"
    "reads_as RE (ce_codec E) (ce_ring E) p ws wid c1 remote"
    "cg_disk x = cg_disk st" "scan_local E wid x = (Inr (local, u), y)"
    "relay_run P H RE (cg_relay st) rl" "relay_run P H RE rl (cg_relay st')"
    "head_is RE (ce_codec E) (ce_ring E) ws wid rl remote"
    "cr_pushed rep \<longrightarrow> cr_head_seq rep = current_seq (rl_db rl) ws + 1 \<and> register (rl_db (cg_relay st')) ws
       = (cr_head_seq rep, Some (row_of RE J (ce_codec E) (ce_ring E) (mo_merged (merge base local remote (ce_device E) (ce_stamp E)))))"
    "\<not> cr_pushed rep \<longrightarrow> mf_files (mo_merged (merge base local remote (ce_device E) (ce_stamp E))) = mf_files remote
       \<and> cr_head_seq rep = current_seq (rl_db rl) ws"
    "\<exists>f. file_at (cg_disk st') MANIFEST_JSON = Some f \<and> fn_synced f
       \<and> fn_data f = ce_to_json E (mo_merged (merge base local remote (ce_device E) (ce_stamp E)))"
    "\<And>V. faithful_scans V E \<Longrightarrow> canonical remote \<Longrightarrow> CHR ''/'' \<notin> set (ce_stamp E)
       \<Longrightarrow> sound_source V (chunk_source (pc_prims (ce_codec E)) (ce_digest E) (ce_ring E))
       \<Longrightarrow> tree_holds V (mo_merged (merge base local remote (ce_device E) (ce_stamp E))) (cg_disk st')
         \<and> (\<forall>rel\<in>dom (entry_at local) - dom (entry_at (mo_merged (merge base local remote (ce_device E) (ce_stamp E)))).
              leaf (cg_disk st') (disk_names rel) = None)"
proof -
  obtain head c1 remote x local u y s4' m d5 s5 st6 t' where *:
    "relay_run P H RE (cg_relay st) c1" "relay_get_head RE p ws c1 = (Inr head, c1)"
    "remote_manifest (ce_codec E) head (ce_ring E) wid = Inr remote"
    "cg_disk x = cg_disk st" "scan_local E wid x = (Inr (local, u), y)"
    "is_ok (validate (mo_merged (merge base local remote (ce_device E) (ce_stamp E))))"
    "materialize (ce_lower E) (ce_to_json E) (ce_tmp_name E)
       (chunk_source (pc_prims (ce_codec E)) (ce_digest E) (ce_ring E)) local remote
       (merge base local remote (ce_device E) (ce_stamp E)) (cg_disk y, s4') = (Inr m, d5, s5)"
    "relay_run P H RE c1 (cg_relay st6)" "cg_disk st6 = d5"
    "publish E head remote (mo_merged (merge base local remote (ce_device E) (ce_stamp E))) m n t' st6 = (Inr (Converged rep), st')"
    using over att by (rule converge_attempt_over) blast
  let ?m = "mo_merged (merge base local remote (ce_device E) (ce_stamp E))"
  have c1: "pool_ok RE c1"
    using pool_ok_run [OF *(1)] ok by blast
  obtain rl where rl: "relay_run P H RE c1 rl" "relay_run P H RE rl (cg_relay st')"
    "head_is RE (ce_codec E) (ce_ring E) ws wid rl remote"
    "cr_pushed rep \<longrightarrow> cr_head_seq rep = current_seq (rl_db rl) ws + 1
       \<and> register (rl_db (cg_relay st')) ws = (cr_head_seq rep, Some (row_of RE J (ce_codec E) (ce_ring E) ?m))"
    "\<not> cr_pushed rep \<longrightarrow> mf_files ?m = mf_files remote \<and> cr_head_seq rep = current_seq (rl_db rl) ws"
    using publish_agreed [OF over c1 ok(2) *(2,3,8,10)] .
  have start: "relay_run P H RE (cg_relay st) rl"
    using *(1) rl(1) relay_run_trans by blast
  note pub = publish_disk [OF *(10)]
  have read: "reads_as RE (ce_codec E) (ce_ring E) p ws wid c1 remote"
    using *(2,3) unfolding reads_as_def by blast
  have stored: "\<exists>f. file_at (cg_disk st') MANIFEST_JSON = Some f \<and> fn_synced f \<and> fn_data f = ce_to_json E ?m"
    using pub(3) by blast
  have tree: "tree_holds V ?m (cg_disk st') \<and> (\<forall>rel\<in>dom (entry_at local) - dom (entry_at ?m). leaf (cg_disk st') (disk_names rel) = None)"
    if V: "faithful_scans V E" "canonical remote" "CHR ''/'' \<notin> set (ce_stamp E)"
      "sound_source V (chunk_source (pc_prims (ce_codec E)) (ce_digest E) (ce_ring E))" for V
  proof -
    have l: "validate local = Inr ()" "canonical local" "manifest_wf local" "tree_holds V local (cg_disk y)"
      using V(1) *(5) unfolding faithful_scans_def by blast+
    have sides: "sides_ok local remote (ce_stamp E)"
      using l V(2,3) remote_manifest_valid [OF *(3)] by (simp add: sides_ok_def)
    have val: "validate ?m = Inr ()"
      using *(6) by (auto simp: is_ok_def split: sum.splits)
    have same: "leaf (cg_disk st') (disk_names rel) = leaf d5 (disk_names rel)"
      if "entry_at ?m rel \<noteq> None \<or> entry_at local rel \<noteq> None" for rel
    proof -
      have "path_ok rel"
        using that validate_key_ok(1) [OF val] validate_key_ok(1) [OF l(1)] by blast
      then show ?thesis
        using pub(1) [OF path_ok_not_in_pear] *(9) by simp
    qed
    have t: "tree_holds V ?m d5"
      "rel \<in> dom (entry_at local) - dom (entry_at ?m) \<Longrightarrow> leaf d5 (disk_names rel) = None" for rel
      using materialized_tree [OF sides l(4) V(4) *(7)] by blast+
    have "tree_holds V ?m (cg_disk st')"
      using t(1) same unfolding tree_holds_def by (metis option.distinct(1))
    moreover have "leaf (cg_disk st') (disk_names rel) = None" if "rel \<in> dom (entry_at local) - dom (entry_at ?m)" for rel
      using t(2) [OF that] same [of rel] that by auto
    ultimately show ?thesis
      by blast
  qed
  show thesis
    by (rule that [OF *(1) read *(4,5) start rl(2,3,4,5) stored tree])
qed

lemma reachable_pool: "relay_run P H RE empty_relay rl \<Longrightarrow> envelope_law RE \<Longrightarrow> pool_ok RE rl"
  using pool_ok_run empty_relay_ok by blast

text \<open>What no merge may do to two sides: lose a change either made since the base, or drop a path
  that was not deleted by one side and left alone by the other.\<close>

definition loses_nothing :: "manifest \<Rightarrow> manifest \<Rightarrow> manifest \<Rightarrow> merge_outcome \<Rightarrow> bool" where
  "loses_nothing base local remote out \<longleftrightarrow>
     (\<forall>q e. (entry_at local q = Some e \<or> entry_at remote q = Some e) \<and> entry_at base q \<noteq> Some e \<longrightarrow> survives out q e)
     \<and> (\<forall>q e. entry_at (mo_merged out) q = None \<longrightarrow>
          (entry_at local q = Some e \<longrightarrow> entry_at base q = Some e \<and> entry_at remote q = None)
          \<and> (entry_at remote q = Some e \<longrightarrow> entry_at base q = Some e \<and> entry_at local q = None))"

lemma merge_loses_nothing: "loses_nothing base local remote (merge base local remote dev stamp)"
  unfolding loses_nothing_def
  by (intro conjI allI impI)
    (auto intro: merge_keeps merge_drops [THEN conjunct1] merge_drops [THEN conjunct2])


text \<open>C2: After a pass the device holds the tree of the head: the head's manifest, published by this
  pass or equal to the head's, is what \<open>.pear/manifest.json\<close> records, and every file of it is on
  disk with its contents, permission bits and time; files the scan found and the merge drops are
  gone.  The scans are assumed faithful and the heads read to have plain keys.\<close>

theorem converged_device_holds_head:
  fixes E :: "relay converge_env"
  assumes "over_relay P H RE J p ws dev E" "relay_run P H RE empty_relay (cg_relay st)" "envelope_law RE"
    and "converge_once E st = (Inr rep, st')" "ce_init E = Inr wid"
    and "faithful_scans V E" "sound_source V (chunk_source (pc_prims (ce_codec E)) (ce_digest E) (ce_ring E))"
    and "\<forall>rl m. reads_as RE (ce_codec E) (ce_ring E) p ws wid rl m \<longrightarrow> canonical m" "CHR ''/'' \<notin> set (ce_stamp E)"
  shows "\<exists>m f. tree_holds V m (cg_disk st')
      \<and> file_at (cg_disk st') MANIFEST_JSON = Some f \<and> fn_data f = ce_to_json E m \<and> fn_synced f
      \<and> (if cr_pushed rep
         then register (rl_db (cg_relay st')) ws = (cr_head_seq rep, Some (row_of RE J (ce_codec E) (ce_ring E) m))
         else \<exists>rl remote. relay_run P H RE rl (cg_relay st') \<and> current_seq (rl_db rl) ws = cr_head_seq rep
                \<and> head_is RE (ce_codec E) (ce_ring E) ws wid rl remote \<and> mf_files m = mf_files remote)
      \<and> (\<exists>local u x y. scan_local E wid x = (Inr (local, u), y)
           \<and> (\<forall>rel\<in>dom (entry_at local) - dom (entry_at m). leaf (cg_disk st') (disk_names rel) = None))"
proof -
  obtain base n t st1 where a: "converge_attempt E wid base n t st1 = (Inr (Converged rep), st')"
    "relay_run P H RE (cg_relay st) (cg_relay st1)"
    using assms(1,4,5) by (rule converge_once_last)
  have ok: "pool_ok RE (cg_relay st1)"
    using reachable_pool [OF relay_run_trans [OF a(2) assms(2)] assms(3)] .
  show ?thesis
    using assms(1) ok assms(3) a(1)
  proof (rule attempt_tree)
    fix local remote u x y rl c1
    assume r: "reads_as RE (ce_codec E) (ce_ring E) p ws wid c1 remote" and s: "scan_local E wid x = (Inr (local, u), y)"
      and run: "relay_run P H RE rl (cg_relay st')" "head_is RE (ce_codec E) (ce_ring E) ws wid rl remote"
    let ?m = "mo_merged (merge base local remote (ce_device E) (ce_stamp E))"
    assume pushed: "cr_pushed rep \<longrightarrow> cr_head_seq rep = current_seq (rl_db rl) ws + 1
        \<and> register (rl_db (cg_relay st')) ws = (cr_head_seq rep, Some (row_of RE J (ce_codec E) (ce_ring E) ?m))"
      "\<not> cr_pushed rep \<longrightarrow> mf_files ?m = mf_files remote \<and> cr_head_seq rep = current_seq (rl_db rl) ws"
      and f: "\<exists>f. file_at (cg_disk st') MANIFEST_JSON = Some f \<and> fn_synced f \<and> fn_data f = ce_to_json E ?m"
      and tree: "\<And>V. faithful_scans V E \<Longrightarrow> canonical remote \<Longrightarrow> CHR ''/'' \<notin> set (ce_stamp E)
        \<Longrightarrow> sound_source V (chunk_source (pc_prims (ce_codec E)) (ce_digest E) (ce_ring E))
        \<Longrightarrow> tree_holds V ?m (cg_disk st') \<and> (\<forall>rel\<in>dom (entry_at local) - dom (entry_at ?m). leaf (cg_disk st') (disk_names rel) = None)"
    have "canonical remote"
      using assms(8) r by blast
    note t = tree [OF assms(6) this assms(9,7)]
    obtain g where g: "file_at (cg_disk st') MANIFEST_JSON = Some g" "fn_synced g" "fn_data g = ce_to_json E ?m"
      using f by blast
    have "if cr_pushed rep
         then register (rl_db (cg_relay st')) ws = (cr_head_seq rep, Some (row_of RE J (ce_codec E) (ce_ring E) ?m))
         else \<exists>rl remote. relay_run P H RE rl (cg_relay st') \<and> current_seq (rl_db rl) ws = cr_head_seq rep
                \<and> head_is RE (ce_codec E) (ce_ring E) ws wid rl remote \<and> mf_files ?m = mf_files remote"
      using pushed run by (cases "cr_pushed rep") auto
    then show ?thesis
      using t g s by (intro exI [of _ ?m] exI [of _ g]) blast
  qed
qed

section \<open>A pass that publishes the first head\<close>

unbundle bit_operations_syntax

text \<open>One empty file, a workspace without a head, and no other device.\<close>

definition note_file :: file_node where
  "note_file = \<lparr>fn_data = '''', fn_mode = 420, fn_mtime = Some (1, 0), fn_synced = True\<rparr>"

definition note_entry :: file_entry where
  "note_entry = \<lparr>fe_size = 0, fe_mode = 420, fe_mtime_secs = 1, fe_mtime_nanos = 0, fe_chunks = []\<rparr>"

definition note_tree :: "string \<Rightarrow> manifest" where
  "note_tree wid = (manifest_new wid)\<lparr>mf_scanned_at_secs := 9, mf_files := [(''a'', note_entry)]\<rparr>"

definition note_env :: relay_env where
  "note_env = toy_env\<lparr>re_manifest := (\<lambda>_. Some (note_tree ''w''))\<rparr>"

definition note_disk :: disk where
  "note_disk = \<lparr>dk_tree = [([''.pear''], Dir True), ([''a''], File note_file)], dk_faults = []\<rparr>"

definition note_walk :: "disk \<Rightarrow> (scan_error, scan_outcome) result" where
  "note_walk d =
     Inr (empty_scan (if file_at d [''a''] = Some note_file
       then [\<lparr>sf_rel_path = ''a'', sf_size = 0, sf_mode = 420, sf_mtime_secs = 1, sf_mtime_nanos = 0\<rparr>] else []) [])"

definition note_pass :: "relay converge_env" where
  "note_pass = \<lparr>ce_client = client_new ''u'' ''t'' ''w'' ''d'',
     ce_codec = plain_codec, ce_ring = None, ce_digest = (\<lambda>_. sample_hash), ce_device = ''mac'', ce_stamp = ''s'',
     ce_lower = (\<lambda>s. s), ce_to_json = (\<lambda>_. ''j''), ce_from_json = (\<lambda>_. None), ce_state_json = (\<lambda>_. ''r''),
     ce_tmp_name = (\<lambda>_. ''t''), ce_is_dir = True, ce_init = Inr ''w'', ce_open_ok = True,
     ce_sync_ok = (\<lambda>_. True), ce_put_ok = (\<lambda>_. True), ce_started_at = 9, ce_walk = note_walk,
     ce_presence = (\<lambda>_ s. (Inr [], s)), ce_upload = (\<lambda>_ _ s. (Inr [], s)), ce_flush = (\<lambda>u c. (Inr (), u, c)),
     ce_flavor = (\<lambda>c. (Inr False, c)), ce_get_head = relay_get_head note_env (User ''alice'') ''w'',
     ce_put_head = (\<lambda>req. relay_put_head note_env (\<lambda>_. ''m'') (\<lambda>_. True) False (User ''alice'') ''w'' ''d'' req),
     ce_missing = (\<lambda>_ c. (Inr [], c)), ce_get_chunks = (\<lambda>_ c. (Inr [], c))\<rparr>"

definition note_start :: "relay converging" where
  "note_start = \<lparr>cg_disk = note_disk, cg_store = open_deferred [], cg_relay = plain_relay\<rparr>"


lemma note_fields [simp]:
  "ce_client note_pass = client_new ''u'' ''t'' ''w'' ''d''"
  "ce_codec note_pass = plain_codec"
  "ce_ring note_pass = None"
  "ce_digest note_pass = (\<lambda>_. sample_hash)"
  "ce_device note_pass = ''mac''"
  "ce_stamp note_pass = ''s''"
  "ce_lower note_pass = (\<lambda>s. s)"
  "ce_to_json note_pass = (\<lambda>_. ''j'')"
  "ce_from_json note_pass = (\<lambda>_. None)"
  "ce_state_json note_pass = (\<lambda>_. ''r'')"
  "ce_tmp_name note_pass = (\<lambda>_. ''t'')"
  "ce_is_dir note_pass = True"
  "ce_init note_pass = Inr ''w''"
  "ce_open_ok note_pass = True"
  "ce_sync_ok note_pass = (\<lambda>_. True)"
  "ce_put_ok note_pass = (\<lambda>_. True)"
  "ce_started_at note_pass = 9"
  "ce_walk note_pass = note_walk"
  "ce_presence note_pass = (\<lambda>_ s. (Inr [], s))"
  "ce_upload note_pass = (\<lambda>_ _ s. (Inr [], s))"
  "ce_flush note_pass = (\<lambda>u c. (Inr (), u, c))"
  "ce_flavor note_pass = (\<lambda>c. (Inr False, c))"
  "ce_get_head note_pass = relay_get_head note_env (User ''alice'') ''w''"
  "ce_put_head note_pass = (\<lambda>req. relay_put_head note_env (\<lambda>_. ''m'') (\<lambda>_. True) False (User ''alice'') ''w'' ''d'' req)"
  "ce_missing note_pass = (\<lambda>_ c. (Inr [], c))"
  "ce_get_chunks note_pass = (\<lambda>_ c. (Inr [], c))"
  by (simp_all add: note_pass_def)

lemma note_no_head: "relay_get_head note_env (User ''alice'') ''w'' plain_relay = (Inr None, plain_relay)"
  by code_simp
lemma note_wanted: "wanted_chunks (manifest_new wid) = []"
  by (simp add: wanted_chunks_def manifest_new_def)

definition note_seen :: "string \<Rightarrow> disk \<Rightarrow> manifest" where
  "note_seen wid d = (manifest_new wid)\<lparr>mf_scanned_at_secs := 9,
     mf_files := (if file_at d [''a''] = Some note_file then [(''a'', note_entry)] else [])\<rparr>"

lemma note_build:
  "scan_build_manifest 9 (Inr wid) (Inr None) (note_walk d) False (\<lambda>_ s. (Inr [], s)) (\<lambda>_ s. (Inr [], s)) (uploader_new, c)
     = (Inr \<lparr>sb_old = manifest_new wid, sb_new = note_seen wid d, sb_excluded = []\<rparr>, uploader_new, c)"
  by (simp add: scan_build_manifest_def note_walk_def note_seen_def note_wanted empty_scan_def cached_entry_def entry_of_def
      note_entry_def manifest_new_def FORMAT_VERSION_def retain_unreadable.simps)

lemma build_bad_load: "scan_build_manifest t (Inr wid) (Inl e) sc strict h up s = (Inl BuildLoad, s)"
  by (simp add: scan_build_manifest_def)

lemma note_scan:
  assumes "scan_local note_pass wid x = (Inr (local, u), y)"
  shows "local = note_seen wid (cg_disk y)" "u = uploader_new" "cg_relay y = cg_relay x"
proof -
  obtain r d where rd: "read_file MANIFEST_JSON (cg_disk x) = (r, d)" by fastforce
  have l: "load_local_manifest note_pass x = (load (\<lambda>_. None) (read_outcome_of r), x\<lparr>cg_disk := d\<rparr>)"
    by (simp add: load_local_manifest_def rd)
  have "load (\<lambda>_ :: bytes. None) (read_outcome_of r) = Inr None \<or> (\<exists>e. load (\<lambda>_ :: bytes. None) (read_outcome_of r) = Inl e)"
    by (auto simp: load_def split: read_outcome.splits)
  then show "local = note_seen wid (cg_disk y)" "u = uploader_new" "cg_relay y = cg_relay x"
    using assms by (auto simp: scan_local_def l note_build build_bad_load)
qed

lemma note_scan_run: "scan_local note_pass ''w'' (note_start\<lparr>cg_store := s\<rparr>) = (Inr (note_tree ''w'', uploader_new), note_start\<lparr>cg_store := s\<rparr>)"
proof -
  have "read_file MANIFEST_JSON note_disk = (Inl IoNotFound, note_disk)"
    by code_simp
  moreover have "file_at note_disk [''a''] = Some note_file"
    by code_simp
  ultimately show ?thesis
    by (simp add: scan_local_def load_local_manifest_def load_def read_outcome_of_def note_start_def note_build note_seen_def note_tree_def)
qed
definition note_out :: merge_outcome where
  "note_out = merge (manifest_new ''w'') (note_tree ''w'') (manifest_new ''w'') ''mac'' ''s''"

lemma note_merge: "mo_merged note_out = note_tree ''w''" "mo_conflicts note_out = []" "needed_for_apply note_out = []"
  by code_simp+

lemma note_materialize:
  "materialize (\<lambda>s. s) (\<lambda>_. ''j'') (\<lambda>_. ''t'') get (note_tree ''w'') remote note_out ds
     = (Inr \<lparr>mt_written = [], mt_deleted = [], mt_copies = []\<rparr>, ds)"
proof -
  have "diff (note_tree ''w'') (note_tree ''w'') = \<lparr>md_added = [], md_changed = [], md_deleted = []\<rparr>"
    by code_simp
  moreover have "tree_with_copies note_out (note_tree ''w'') = note_tree ''w''"
    by code_simp
  ultimately show ?thesis
    by (cases ds) (simp add: materialize_def note_merge Let_def io_bind_def io_return_def)
qed

lemma note_put:
  obtains hash rl where "relay_put_head note_env (\<lambda>_. ''m'') (\<lambda>_. True) False (User ''alice'') ''w'' ''d'' (PutPlain 0 (note_tree ''w'')) plain_relay
    = (Inr (1, hash), rl)"
proof -
  have "is_ok (fst (relay_put_head note_env (\<lambda>_. ''m'') (\<lambda>_. True) False (User ''alice'') ''w'' ''d''
      (head_request plain_codec None 0 (note_tree ''w'')) plain_relay))"
    by code_simp
  then obtain seq hash rl where put: "relay_put_head note_env (\<lambda>_. ''m'') (\<lambda>_. True) False (User ''alice'') ''w'' ''d''
      (head_request plain_codec None 0 (note_tree ''w'')) plain_relay = (Inr (seq, hash), rl)"
    by (cases "relay_put_head note_env (\<lambda>_. ''m'') (\<lambda>_. True) False (User ''alice'') ''w'' ''d''
      (head_request plain_codec None 0 (note_tree ''w'')) plain_relay") (auto simp: is_ok_def split: sum.splits)
  then have "seq = 1"
    using relay_put_head_swap(2) [OF put plain_relay_start(2)] by simp
  then show thesis
    using that put by (simp add: head_request_def)
qed

lemma store_flush_empty: "store_flush sync_ok (open_deferred fs) = (Inr (), open_deferred fs)"
  by (simp add: store_flush_def flush_batch_def open_deferred_def open_store_def)

lemma note_commit: "is_ok (fst (io_bind (write_file_atomic REMOTE_JSON ''r'') (\<lambda>_. write_file_atomic MANIFEST_JSON ''j'') note_disk))"
  by code_simp

lemma note_reads:
  "io_bind (cg_relay_call push_from_relay (relay_get_head note_env (User ''alice'') ''w'')) kg note_start = kg None note_start"
  "io_bind (open_local_store note_pass) k note_start = k () note_start"
  "io_bind (scan_local note_pass ''w'') ks note_start = ks (note_tree ''w'', uploader_new) note_start"
  "io_bind (cg_relay_call push_from_relay (Pair (Inr False))) kp note_start = kp False note_start"
proof -
  have st: "note_start\<lparr>cg_store := open_deferred []\<rparr> = note_start" "cg_relay note_start = plain_relay"
    by (simp_all add: note_start_def)
  show "io_bind (cg_relay_call push_from_relay (relay_get_head note_env (User ''alice'') ''w'')) kg note_start = kg None note_start"
    by (simp add: io_bind_def cg_relay_call_def note_no_head st(2)) (simp add: note_start_def)
  show "io_bind (open_local_store note_pass) k note_start = k () note_start"
    by (simp add: io_bind_def open_local_store_def note_start_def open_deferred_def open_store_def)
  show "io_bind (scan_local note_pass ''w'') ks note_start = ks (note_tree ''w'', uploader_new) note_start"
    using note_scan_run [of "open_deferred []"] unfolding st by (simp add: io_bind_def)
  show "io_bind (cg_relay_call push_from_relay (Pair (Inr False))) kp note_start = kp False note_start"
    by (simp add: io_bind_def cg_relay_call_def)
qed

lemma note_checks:
  "remote_manifest pc None ring wid = Inr (manifest_new wid)" "mf_workspace_id (note_tree wid) = wid"
  "c_workspace (client_new b t w d) = w" "refuse_forbidden_dotenv (client_new b t w d) m = Inr ()"
  by (simp_all add: remote_manifest_none note_tree_def manifest_new_def client_new_def refuse_forbidden_dotenv_def)

lemma check_passes: "io_bind (cg_check (Inr x)) k = k x"
  by (simp add: fun_eq_iff io_bind_def cg_check_def)

lemma note_steps:
  "io_bind (flush_local_store note_pass) k note_start = k () note_start"
  "io_bind (cg_fetch (fetch_for_apply note_pass note_out)) kf note_start = kf no_fetch note_start"
  "io_bind (flush_uploads note_pass v) ku note_start = ku v note_start"
  "io_bind (cg_tree (materialize (\<lambda>s. s) (\<lambda>_. ''j'') (\<lambda>_. ''t'') get (note_tree ''w'') (manifest_new ''w'') note_out)) km note_start
     = km \<lparr>mt_written = [], mt_deleted = [], mt_copies = []\<rparr> note_start"
  by (simp_all add: io_bind_def flush_local_store_def cg_fetch_def fetch_for_apply_def note_merge flush_uploads_def
      cg_tree_def note_materialize note_start_def store_flush_empty)

lemma note_converges:
  obtains rep st' where "converge_once note_pass note_start = (Inr rep, st')" "cr_pushed rep" "cr_head_seq rep = 1"
proof -
  obtain hash rl where put: "relay_put_head note_env (\<lambda>_. ''m'') (\<lambda>_. True) False (User ''alice'') ''w'' ''d'' (PutPlain 0 (note_tree ''w'')) plain_relay
    = (Inr (1, hash), rl)"
    by (rule note_put)
  obtain u d where d: "io_bind (write_file_atomic REMOTE_JSON ''r'') (\<lambda>_. write_file_atomic MANIFEST_JSON ''j'') note_disk = (Inr u, d)"
    using note_commit by (cases "io_bind (write_file_atomic REMOTE_JSON ''r'') (\<lambda>_. write_file_atomic MANIFEST_JSON ''j'') note_disk")
      (auto simp: is_ok_def split: sum.splits)
  let ?st = "note_start\<lparr>cg_store := open_deferred []\<rparr>"
  have st: "?st = note_start"
    by (simp add: note_start_def)
  have "\<exists>rep st'. publish note_pass None (manifest_new ''w'') (note_tree ''w'') m n t note_start = (Inr (Converged rep), st')
      \<and> cr_pushed rep \<and> cr_head_seq rep = 1" for m n t
    using put d by (simp add: publish_def Let_def head_request_def head_seq_def commit_converged_def note_start_def
        store_flush_empty io_bind_def io_return_def)
  then obtain rep st' where pub: "publish note_pass None (manifest_new ''w'') (note_tree ''w'')
      \<lparr>mt_written = [], mt_deleted = [], mt_copies = []\<rparr> 1 \<lparr>ty_chunks_up = 0, ty_bytes_up = 0, ty_fetched = no_fetch\<rparr> note_start = (Inr (Converged rep), st')"
    "cr_pushed rep" "cr_head_seq rep = 1"
    by blast
  have "is_ok (validate (note_tree ''w''))"
    by code_simp
  then have mp: "merge_and_publish note_pass (manifest_new ''w'') None (manifest_new ''w'') (note_tree ''w'', uploader_new) 1
      \<lparr>ty_chunks_up = 0, ty_bytes_up = 0, ty_fetched = no_fetch\<rparr> note_start = (Inr (Converged rep), st')"
    using pub(1) by (simp add: merge_and_publish_def Let_def note_out_def [symmetric] note_merge check_passes note_steps
        uploader_new_def no_fetch_def)
  have "converge_attempt note_pass ''w'' (manifest_new ''w'') 1
      \<lparr>ty_chunks_up = 0, ty_bytes_up = 0, ty_fetched = no_fetch\<rparr> note_start = (Inr (Converged rep), st')"
    using mp by (simp add: converge_attempt_def check_passes note_reads note_checks)
  moreover have "read_file MANIFEST_JSON note_disk = (Inl IoNotFound, note_disk)"
    by code_simp
  then have "load_local_manifest note_pass note_start = (Inr None, note_start)"
    by (simp add: load_local_manifest_def load_def read_outcome_of_def note_start_def)
  then have load_bind: "io_bind (\<lambda>st. case load_local_manifest note_pass st of
                 (Inl _, st) \<Rightarrow> (Inl fatal, st) | (Inr m, st) \<Rightarrow> (Inr m, st)) kl note_start = kl None note_start" for kl
    by (simp add: io_bind_def)
  ultimately have "converge_once note_pass note_start = (Inr rep, st')"
    by (simp add: converge_once_def check_passes note_reads load_bind MAX_ATTEMPTS_def numeral_eq_Suc io_return_def) (simp add: io_bind_def io_return_def)
  then show thesis
    using that pub(2,3) by blast
qed

lemma note_relay_reached: "relay_run toy_prims (\<lambda>x. x) note_env empty_relay plain_relay"
proof -
  have "snd (api_create_workspace (User ''alice'') ''w'' ''n'' None False empty_db) = rl_db plain_relay"
    by code_simp
  then have "account_step toy_prims (\<lambda>x. x) (rl_db empty_relay) (rl_db plain_relay)"
    using acc_create_workspace [OF surjective_pairing] by (metis empty_relay_def relay.select_convs(1))
  then have "relay_step toy_prims (\<lambda>x. x) note_env empty_relay (empty_relay\<lparr>rl_db := rl_db plain_relay\<rparr>)"
    by (rule rel_account)
  moreover have "empty_relay\<lparr>rl_db := rl_db plain_relay\<rparr> = plain_relay"
    by (simp add: empty_relay_def plain_relay_def)
  ultimately show ?thesis
    using relay_run_one by metis
qed

lemma note_env_law: "envelope_law note_env"
  using toy_env_law by (simp add: note_env_def envelope_law_def)

lemma note_over: "over_relay toy_prims (\<lambda>x. x) note_env (\<lambda>_. ''m'') (User ''alice'') ''w'' ''d'' note_pass"
proof -
  let ?R = "relay_run toy_prims (\<lambda>x. x) note_env"
  have refl: "?R c c" for c
    by (rule relay_refl)
  have get: "?R c c' \<and> (is_ok r \<longrightarrow> relay_get_head note_env (User ''alice'') ''w'' c' = (r, c'))"
    if "relay_get_head note_env (User ''alice'') ''w'' c = (r, c')" for c r c'
    using relay_get_head_same [OF that] that refl by simp
  have put: "?R c c' \<and> (r \<noteq> Inl RTransport \<longrightarrow> (\<exists>c1 sync_ok fault. ?R c c1
        \<and> relay_put_head note_env (\<lambda>_. ''m'') sync_ok fault (User ''alice'') ''w'' ''d'' req c1 = (r, c')))"
    if "relay_put_head note_env (\<lambda>_. ''m'') (\<lambda>_. True) False (User ''alice'') ''w'' ''d'' req c = (r, c')" for req c r c'
    using relay_put_head_run [OF that] that refl by blast
  have kept: "keeps ?R (Pair x)" "keeps (second ?R) (Pair z)" for x :: 'x and z :: 'z
    by (simp_all add: keeps_def second_def refl)
  show ?thesis
    unfolding over_relay_def note_fields
    by (intro conjI) (use get put in blast, use get put in blast, use kept refl in auto)
qed

lemma note_faithful: "faithful_scans (\<lambda>_ _. True) note_pass"
  unfolding faithful_scans_def
proof (intro allI impI)
  fix wid x local u y
  assume "scan_local note_pass wid x = (Inr (local, u), y)"
  then have l: "local = note_seen wid (cg_disk y)"
    by (rule note_scan)
  have val: "validate (note_tree wid) = Inr ()" "path_ok ''a''" "canonical_key ''a''" "disk_names ''a'' = [''a'']" "(420 :: 32 word) AND 0x1FF = 420"
    by code_simp+
  have "validate (m\<lparr>mf_files := []\<rparr>) = Inr ()" for m
    by (simp add: validate_def bt_keys_def)
  then have "validate local = Inr ()"
    using val(1) by (auto simp: l note_seen_def note_tree_def)
  moreover have "canonical local" "manifest_wf local" "tree_holds (\<lambda>_ _. True) local (cg_disk y)"
    unfolding l note_seen_def using val(2-)
    by (auto simp: canonical_def manifest_wf_def bt_wf_Cons tree_holds_def in_place_def file_at_leaf
        content_of_def note_file_def note_entry_def clamp_nanos_def manifest_new_def split: if_splits)
  ultimately show "validate local = Inr () \<and> canonical local \<and> manifest_wf local \<and> tree_holds (\<lambda>_ _. True) local (cg_disk y)"
    by blast
qed


lemma note_heads_canonical: "reads_as note_env plain_codec None p ''w'' ''w'' rl m \<Longrightarrow> canonical m"
proof -
  assume "reads_as note_env plain_codec None p ''w'' ''w'' rl m"
  then obtain head where h: "relay_get_head note_env p ''w'' rl = (Inr head, rl)" "remote_manifest plain_codec head None ''w'' = Inr m"
    unfolding reads_as_def by blast
  have "m = manifest_new ''w'' \<or> m = note_tree ''w''"
  proof (cases head)
    case None
    then show ?thesis using h(2) by (simp add: remote_manifest_none)
  next
    case (Some x)
    then obtain raw where "row_reads note_env plain_codec None raw m"
      using relay_get_head_read h by blast
    then show ?thesis by (simp add: row_reads_def note_env_def)
  qed
  moreover have "canonical_key ''a''"
    by code_simp
  ultimately show ?thesis
    by (auto simp: canonical_def manifest_new_def note_tree_def split: if_splits)
qed

lemma converged_device_holds_head_witness:
  "\<exists>rep st' f. converge_once note_pass note_start = (Inr rep, st')
     \<and> file_at (cg_disk st') MANIFEST_JSON = Some f \<and> fn_data f = ''j'' \<and> fn_synced f"
proof -
  obtain rep st' where run: "converge_once note_pass note_start = (Inr rep, st')" "cr_pushed rep" "cr_head_seq rep = 1"
    by (rule note_converges)
  have "relay_run toy_prims (\<lambda>x. x) note_env empty_relay (cg_relay note_start)"
    using note_relay_reached by (simp add: note_start_def)
  from converged_device_holds_head [OF note_over this note_env_law run(1) _ note_faithful, of "''w''"]
  have "\<exists>f. file_at (cg_disk st') MANIFEST_JSON = Some f \<and> fn_data f = ''j'' \<and> fn_synced f"
    using note_heads_canonical by (auto simp: sound_source_def)
  then show ?thesis
    using run(1) by blast
qed

end
