(* ===== verification/Converge_Base.thy ===== *)
theory Converge_Base
imports Converge_Head
begin

text \<open>
  The base a pass of \<open>core/src/converge.rs\<close> leaves for the next one, on every error path, proved
  with a triple over its steps; and what a member who loses access mid-pass reads.
\<close>

section \<open>The base a pass leaves, whatever fails\<close>

lemma copy_dest_not_manifest:
  assumes "sides_ok local remote stamp" "c \<in> set (mo_conflicts (merge base local remote dev stamp))"
  shows "disk_names (cc_copy_path c) \<noteq> MANIFEST_JSON"
proof (cases "cc_local_only c")
  case True
  then show ?thesis
    using copy_facts(6) [OF assms] by (simp add: MANIFEST_JSON_def)
next
  case False
  then have "cc_copy_path c = copy_name c"
    by (simp add: copy_name_def)
  then show ?thesis
    using path_ok_not_in_pear [OF copy_facts(3) [OF assms]] by (auto simp: in_pear_def MANIFEST_JSON_def)
qed

lemma materialize_base:
  assumes ok: "sides_ok local remote stamp"
    and run: "materialize lower to_json tmp_name get local pb (merge base local remote dev stamp) (d, s) = (r, (d', s'))"
  shows "leaf d' MANIFEST_JSON = leaf d MANIFEST_JSON
    \<or> (\<exists>f. file_at d' MANIFEST_JSON = Some f \<and> fn_data f = to_json pb \<and> fn_synced f)"
proof -
  let ?cs = "mo_conflicts (merge base local remote dev stamp)"
  have copies: "leaf d1 MANIFEST_JSON = leaf d MANIFEST_JSON"
    if "io_each (preserve_copy get) ?cs (d, s) = (r1, (d1, s1))" for r1 d1 s1
  proof -
    let ?S = "(disk_names \<circ> cc_copy_path) ` set ?cs"
    have one: "keeps (disk_only (leaves_except ?S)) (preserve_copy get c)" if "c \<in> set ?cs" for c
      by (rule keeps_mono [OF preserve_copy_leaves]) (use that in \<open>auto simp: disk_only_def leaves_except_def\<close>)
    have "keeps (disk_only (leaves_except ?S)) (io_each (preserve_copy get) ?cs)"
      by (intro keeps_io_each disk_only_refl disk_only_trans leaves_except_refl leaves_except_trans one)
    from keeps_disk_onlyD [OF this that] have "leaves_except ?S d d1" .
    moreover have "MANIFEST_JSON \<notin> ?S"
    proof
      assume "MANIFEST_JSON \<in> ?S"
      then obtain c where "c \<in> set ?cs" "disk_names (cc_copy_path c) = MANIFEST_JSON"
        unfolding image_iff comp_def by metis
      then show False
        using copy_dest_not_manifest [OF ok] by blast
    qed
    ultimately show ?thesis
      unfolding leaves_except_def by blast
  qed
  from run show ?thesis
  proof (cases rule: materialize_cases)
    case (3 d1 s1 r2)
    have "sound_source (\<lambda>_ _. True) get"
      by (simp add: sound_source_def)
    from apply_commit_applying [OF 3(2) this] show ?thesis
      using copies [OF 3(1)] by (auto split: if_splits)
  qed (use copies in simp_all)
qed

text \<open>A Hoare triple over the steps of a pass: an invariant that also every failure keeps, and what
  the value returned satisfies.\<close>

definition holds :: "('s \<Rightarrow> bool) \<Rightarrow> ('s \<Rightarrow> ('e, 'a) result \<times> 's) \<Rightarrow> ('a \<Rightarrow> bool) \<Rightarrow> bool" where
  "holds I m Q \<longleftrightarrow> (\<forall>st r st'. I st \<longrightarrow> m st = (r, st') \<longrightarrow> I st' \<and> (\<forall>x. r = Inr x \<longrightarrow> Q x))"

lemma holds_bind:
  assumes "holds I m Q" "\<And>x. Q x \<Longrightarrow> holds I (k x) Q'"
  shows "holds I (io_bind m k) Q'"
  unfolding holds_def
proof (intro allI impI)
  fix st r st'
  assume i: "I st" and b: "io_bind m k st = (r, st')"
  obtain q st1 where m: "m st = (q, st1)" by fastforce
  have q: "I st1" "q = Inr x \<Longrightarrow> Q x" for x
    using assms(1) i m unfolding holds_def by blast+
  show "I st' \<and> (\<forall>x. r = Inr x \<longrightarrow> Q' x)"
  proof (cases q)
    case (Inl e)
    then show ?thesis
      using b m q(1) by (auto simp: io_bind_def)
  next
    case (Inr x)
    then have "k x st1 = (r, st')"
      using b m by (simp add: io_bind_def)
    then show ?thesis
      using assms(2) [OF q(2) [OF Inr]] q(1) unfolding holds_def by blast
  qed
qed

lemma holds_check [intro]: "(\<And>x. r = Inr x \<Longrightarrow> Q x) \<Longrightarrow> holds I (cg_check r) Q"
  by (auto simp: holds_def cg_check_def)

lemma holds_return [intro]: "Q x \<Longrightarrow> holds I (io_return x) Q"
  by (auto simp: holds_def io_return_def)

text \<open>What the devices agreed on: the tree of a head some relay of the run served, or served as.\<close>

definition agreed ::
  "prims \<Rightarrow> (string \<Rightarrow> string) \<Rightarrow> relay_env \<Rightarrow> (manifest \<Rightarrow> string) \<Rightarrow> push_codec \<Rightarrow> keyring option \<Rightarrow> principal \<Rightarrow> string \<Rightarrow> string
     \<Rightarrow> relay \<Rightarrow> manifest \<Rightarrow> bool" where
  "agreed P H RE J pc ring p ws wid rl0 m \<longleftrightarrow>
     (\<exists>rl. relay_run P H RE rl0 rl
        \<and> ((\<exists>m'. reads_as RE pc ring p ws wid rl m' \<and> mf_files m' = mf_files m)
           \<or> (\<exists>n. register (rl_db rl) ws = (n, Some (row_of RE J pc ring m)))))"

definition base_agreed ::
  "prims \<Rightarrow> (string \<Rightarrow> string) \<Rightarrow> relay_env \<Rightarrow> (manifest \<Rightarrow> string) \<Rightarrow> principal \<Rightarrow> string \<Rightarrow> string \<Rightarrow> relay converge_env
     \<Rightarrow> relay converging \<Rightarrow> relay converging \<Rightarrow> bool" where
  "base_agreed P H RE J p ws wid E st0 st \<longleftrightarrow>
     leaf (cg_disk st) MANIFEST_JSON = leaf (cg_disk st0) MANIFEST_JSON
     \<or> (\<exists>m f. file_at (cg_disk st) MANIFEST_JSON = Some f \<and> fn_data f = ce_to_json E m \<and> fn_synced f
          \<and> agreed P H RE J (ce_codec E) (ce_ring E) p ws wid (cg_relay st0) m)"

definition pass_inv ::
  "prims \<Rightarrow> (string \<Rightarrow> string) \<Rightarrow> relay_env \<Rightarrow> (manifest \<Rightarrow> string) \<Rightarrow> principal \<Rightarrow> string \<Rightarrow> string \<Rightarrow> relay converge_env
     \<Rightarrow> relay converging \<Rightarrow> relay converging \<Rightarrow> bool" where
  "pass_inv P H RE J p ws wid E st0 st \<longleftrightarrow>
     relay_run P H RE (cg_relay st0) (cg_relay st) \<and> base_agreed P H RE J p ws wid E st0 st"

lemma holds_same_tree:
  assumes "\<And>st r st'. m st = (r, st') \<Longrightarrow> leaf (cg_disk st') MANIFEST_JSON = leaf (cg_disk st) MANIFEST_JSON
      \<and> relay_run P H RE (cg_relay st) (cg_relay st')"
    and "\<And>st x st'. relay_run P H RE (cg_relay st0) (cg_relay st) \<Longrightarrow> m st = (Inr x, st') \<Longrightarrow> Q x"
  shows "holds (pass_inv P H RE J p ws wid E st0) m Q"
  unfolding holds_def
proof (intro allI impI)
  fix st r st'
  assume i: "pass_inv P H RE J p ws wid E st0 st" and m: "m st = (r, st')"
  have l: "leaf (cg_disk st') MANIFEST_JSON = leaf (cg_disk st) MANIFEST_JSON" "relay_run P H RE (cg_relay st) (cg_relay st')"
    using assms(1) [OF m] by blast+
  have c: "relay_run P H RE (cg_relay st0) (cg_relay st)"
    using i by (simp add: pass_inv_def)
  have "base_agreed P H RE J p ws wid E st0 st'"
    using i l(1) by (simp add: pass_inv_def base_agreed_def file_at_leaf)
  then have "pass_inv P H RE J p ws wid E st0 st'"
    using relay_run_trans [OF l(2) c] by (simp add: pass_inv_def)
  moreover have "Q x" if "r = Inr x" for x
    using assms(2) [OF c] m that by blast
  ultimately show "pass_inv P H RE J p ws wid E st0 st' \<and> (\<forall>x. r = Inr x \<longrightarrow> Q x)"
    by blast
qed

lemma fetch_for_apply_runs:
  assumes "over_relay P H RE J p ws dev E" "fetch_for_apply E out (st, c) = (r, st', c')"
  shows "relay_run P H RE c c'"
proof (rule fetch_for_apply_keeps [OF relay_run_preorder _ _ assms(2)])
  show "keeps (relay_run P H RE) (ce_missing E hs)" "keeps (relay_run P H RE) (ce_get_chunks E hs)" for hs
    using assms(1) unfolding over_relay_def by blast+
qed

lemma scan_local_leaf: "scan_local E wid st = (r, st') \<Longrightarrow> leaf (cg_disk st') q = leaf (cg_disk st) q"
  by (auto simp: scan_local_def load_local_manifest_def split: prod.splits sum.splits dest: read_file_leaf)

lemma publish_inv:
  assumes over: "over_relay P H RE J p ws dev E" and i: "pass_inv P H RE J p ws wid E st0 st"
    and read: "\<exists>rl. relay_run P H RE (cg_relay st0) rl \<and> reads_as RE (ce_codec E) (ce_ring E) p ws wid rl remote"
    and ok: "pool_ok RE (cg_relay st0)" "envelope_law RE"
    and pub: "publish E head remote merged m n t st = (r, st')"
  shows "pass_inv P H RE J p ws wid E st0 st'"
proof -
  have run: "relay_run P H RE (cg_relay st0) (cg_relay st')"
    using i publish_runs(1) [OF over pub] relay_run_trans unfolding pass_inv_def by blast
  have ag: "agreed P H RE J (ce_codec E) (ce_ring E) p ws wid (cg_relay st0) merged" if conv: "\<exists>rep. r = Inr (Converged rep)"
  proof (cases "mf_files merged = mf_files remote \<and> head \<noteq> None")
    case True
    then show ?thesis
      using read unfolding agreed_def by metis
  next
    case False
    obtain q c where put: "ce_put_head E (head_request (ce_codec E) (ce_ring E) (head_seq head) merged) (cg_relay st) = (q, c)"
      by fastforce
    have none: "(if mf_files merged = mf_files remote then head else None) = None"
      using False by auto
    obtain rep where rep: "r = Inr (Converged rep)"
      using conv by blast
    obtain seq hash where q: "q = Inr (seq, hash)" "cg_relay st' = c"
      using pub put unfolding publish_def Let_def none rep
      by (auto simp: io_bind_ok io_return_def split: sum.splits relay_error.splits prod.splits dest!: commit_converged_relay)
    obtain c1 sync_ok fault where c1: "relay_run P H RE (cg_relay st) c1"
      "relay_put_head RE J sync_ok fault p ws dev (head_request (ce_codec E) (ce_ring E) (head_seq head) merged) c1 = (Inr (seq, hash), c)"
      using over put q(1) unfolding over_relay_def by blast
    have "pool_ok RE c1"
      using pool_ok_run relay_run_trans c1(1) i ok unfolding pass_inv_def by blast
    then have "bt_wf (db_heads (rl_db c1))"
      using reachable_ok by (auto simp: pool_ok_def db_ok_def tables_wf_def)
    then have "register (rl_db c) ws = (seq, Some (row_of RE J (ce_codec E) (ce_ring E) merged))"
      by (rule relay_put_head_swap(3) [OF c1(2)])
    then show ?thesis
      using run q(2) unfolding agreed_def by blast
  qed
  note d = publish_disk [OF pub]
  have "base_agreed P H RE J p ws wid E st0 st'"
  proof (cases "\<exists>rep. r = Inr (Converged rep)")
    case True
    then show ?thesis
      using d(3) ag unfolding base_agreed_def by blast
  next
    case False
    then have "leaf (cg_disk st') MANIFEST_JSON = leaf (cg_disk st) MANIFEST_JSON"
      using d(2) by blast
    then show ?thesis
      using i by (simp add: pass_inv_def base_agreed_def file_at_leaf)
  qed
  then show ?thesis
    using run by (simp add: pass_inv_def)
qed

lemma holds_relay_call:
  assumes "keeps (relay_run P H RE) f"
    "\<And>c x c'. relay_run P H RE (cg_relay st0) c \<Longrightarrow> f c = (Inr x, c') \<Longrightarrow> Q x"
  shows "holds (pass_inv P H RE J p ws wid E st0) (cg_relay_call err f) Q"
proof (rule holds_same_tree)
  fix st r st'
  assume "cg_relay_call err f st = (r, st')"
  then show "leaf (cg_disk st') MANIFEST_JSON = leaf (cg_disk st) MANIFEST_JSON \<and> relay_run P H RE (cg_relay st) (cg_relay st')"
    using keepsD [OF assms(1)] by (auto simp: cg_relay_call_def split: prod.splits sum.splits)
next
  fix st x st'
  assume c: "relay_run P H RE (cg_relay st0) (cg_relay st)" "cg_relay_call err f st = (Inr x, st')"
  obtain c' where "f (cg_relay st) = (Inr x, c')"
    using cg_relay_call_ok [OF c(2)] by blast
  then show "Q x"
    by (rule assms(2) [OF c(1)])
qed

lemma holds_materialize:
  assumes "sides_ok local remote stamp"
    and read: "\<exists>rl. relay_run P H RE (cg_relay st0) rl \<and> reads_as RE (ce_codec E) (ce_ring E) p ws wid rl remote"
  shows "holds (pass_inv P H RE J p ws wid E st0)
    (cg_tree (materialize lower (ce_to_json E) tmp_name get local remote (merge base local remote dev stamp))) (\<lambda>_. True)"
  unfolding holds_def
proof (intro allI impI conjI)
  fix st r st'
  assume i: "pass_inv P H RE J p ws wid E st0 st"
    and m: "cg_tree (materialize lower (ce_to_json E) tmp_name get local remote (merge base local remote dev stamp)) st = (r, st')"
  obtain r1 where m1: "materialize lower (ce_to_json E) tmp_name get local remote (merge base local remote dev stamp)
      (cg_disk st, cg_store st) = (r1, (cg_disk st', cg_store st'))" "cg_relay st' = cg_relay st"
    using m by (auto simp: cg_tree_def split: prod.splits sum.splits)
  have "agreed P H RE J (ce_codec E) (ce_ring E) p ws wid (cg_relay st0) remote"
    using read unfolding agreed_def by blast
  then have "base_agreed P H RE J p ws wid E st0 st'"
    using materialize_base [OF assms(1) m1(1)] i unfolding pass_inv_def base_agreed_def file_at_leaf by metis
  then show "pass_inv P H RE J p ws wid E st0 st'"
    using i m1(2) by (simp add: pass_inv_def)
qed simp

lemma holds_scan:
  assumes over: "over_relay P H RE J p ws dev E" and "faithful_scans V E"
  shows "holds (pass_inv P H RE J p ws wid E st0) (scan_local E wid)
    (\<lambda>s. validate (fst s) = Inr () \<and> canonical (fst s) \<and> manifest_wf (fst s))"
proof (rule holds_same_tree)
  fix st r st' assume s: "scan_local E wid st = (r, st')"
  show "leaf (cg_disk st') MANIFEST_JSON = leaf (cg_disk st) MANIFEST_JSON \<and> relay_run P H RE (cg_relay st) (cg_relay st')"
    using scan_local_leaf [OF s] scan_local_runs [OF over s] by blast
next
  fix st x st' assume "scan_local E wid st = (Inr x, st')"
  then show "validate (fst x) = Inr () \<and> canonical (fst x) \<and> manifest_wf (fst x)"
    using assms(2) unfolding faithful_scans_def by (cases x) auto
qed

lemma holds_merge_and_publish:
  fixes E :: "relay converge_env"
  assumes over: "over_relay P H RE J p ws dev E" and ok: "pool_ok RE (cg_relay st0)" "envelope_law RE"
    and sides: "sides_ok (fst scanned) remote (ce_stamp E)"
    and read: "\<exists>rl. relay_run P H RE (cg_relay st0) rl \<and> reads_as RE (ce_codec E) (ce_ring E) p ws wid rl remote"
  shows "holds (pass_inv P H RE J p ws wid E st0) (merge_and_publish E base head remote scanned n t) (\<lambda>_. True)"
proof -
  obtain local u where sc: "scanned = (local, u)" by fastforce
  let ?I = "pass_inv P H RE J p ws wid E st0"
  have fetch: "holds ?I (cg_fetch (fetch_for_apply E out)) (\<lambda>_. True)" for out
    by (rule holds_same_tree) (auto simp: cg_fetch_def split: prod.splits dest: fetch_for_apply_runs [OF over])
  have flush: "holds ?I (flush_local_store E) (\<lambda>_. True)"
    by (rule holds_same_tree) (auto simp: flush_local_store_def relay_refl split: prod.splits sum.splits)
  have up: "holds ?I (flush_uploads E v) (\<lambda>_. True)" for v
  proof (rule holds_same_tree)
    fix st r st' assume "flush_uploads E v st = (r, st')"
    then show "leaf (cg_disk st') MANIFEST_JSON = leaf (cg_disk st) MANIFEST_JSON \<and> relay_run P H RE (cg_relay st) (cg_relay st')"
      using flush_uploads_relay over unfolding over_relay_def by metis
  qed simp
  have pub: "holds ?I (publish E head remote merged m n t) (\<lambda>_. True)" for merged m t
    unfolding holds_def using publish_inv [OF over _ read ok] by blast
  show ?thesis
    unfolding merge_and_publish_def sc Let_def prod.case
    by (intro holds_bind [OF holds_check] holds_bind [OF fetch] holds_bind [OF flush] holds_bind [OF up] pub
        holds_bind [OF holds_materialize [OF _ read]]) (use sides sc in simp_all)
qed

lemma holds_attempt:
  fixes E :: "relay converge_env"
  assumes over: "over_relay P H RE J p ws dev E" and ok: "pool_ok RE (cg_relay st0)" "envelope_law RE"
    and scans: "faithful_scans V E" and stamp: "CHR ''/'' \<notin> set (ce_stamp E)"
    and heads: "\<forall>rl m. reads_as RE (ce_codec E) (ce_ring E) p ws wid rl m \<longrightarrow> canonical m"
  shows "holds (pass_inv P H RE J p ws wid E st0) (converge_attempt E wid base n t) (\<lambda>_. True)"
proof -
  let ?I = "pass_inv P H RE J p ws wid E st0"
  have get: "holds ?I (cg_relay_call push_from_relay (ce_get_head E))
      (\<lambda>head. \<exists>rl. relay_run P H RE (cg_relay st0) rl \<and> relay_get_head RE p ws rl = (Inr head, rl))"
  proof (rule holds_relay_call)
    show "keeps (relay_run P H RE) (ce_get_head E)"
      using over unfolding over_relay_def keeps_def by (metis prod.collapse)
    fix c head c' assume "relay_run P H RE (cg_relay st0) c" "ce_get_head E c = (Inr head, c')"
    moreover from this(2) have "relay_run P H RE c c'" "relay_get_head RE p ws c' = (Inr head, c')"
      using over unfolding over_relay_def is_ok_def by fastforce+
    ultimately show "\<exists>rl. relay_run P H RE (cg_relay st0) rl \<and> relay_get_head RE p ws rl = (Inr head, rl)"
      using relay_run_trans by blast
  qed
  have opn: "holds ?I (open_local_store E) (\<lambda>_. True)"
    by (rule holds_same_tree) (auto simp: open_local_store_def relay_refl split: if_splits)
  show ?thesis
    unfolding converge_attempt_def
  proof (rule holds_bind [OF get], elim exE conjE)
    fix head rl assume g: "relay_run P H RE (cg_relay st0) rl" "relay_get_head RE p ws rl = (Inr head, rl)"
    show "holds ?I (io_bind (cg_check (remote_manifest (ce_codec E) head (ce_ring E) wid)) (\<lambda>remote.
      io_bind (open_local_store E) (\<lambda>_.
      io_bind (scan_local E wid) (\<lambda>scanned.
      io_bind (cg_check (if mf_workspace_id (fst scanned) = c_workspace (ce_client E) then Inr () else Inl (PushOther None))) (\<lambda>_.
      io_bind (cg_check (refuse_forbidden_dotenv (ce_client E) (fst scanned))) (\<lambda>_.
      merge_and_publish E base head remote scanned n t)))))) (\<lambda>_. True)"
    proof (rule holds_bind [OF holds_check], assumption)
      fix remote assume r: "remote_manifest (ce_codec E) head (ce_ring E) wid = Inr remote"
      then have read: "reads_as RE (ce_codec E) (ce_ring E) p ws wid rl remote"
        using g(2) unfolding reads_as_def by blast
      show "holds ?I (io_bind (open_local_store E) (\<lambda>_.
        io_bind (scan_local E wid) (\<lambda>scanned.
        io_bind (cg_check (if mf_workspace_id (fst scanned) = c_workspace (ce_client E) then Inr () else Inl (PushOther None))) (\<lambda>_.
        io_bind (cg_check (refuse_forbidden_dotenv (ce_client E) (fst scanned))) (\<lambda>_.
        merge_and_publish E base head remote scanned n t))))) (\<lambda>_. True)"
        by (intro holds_bind [OF opn] holds_bind [OF holds_scan [OF over scans]] holds_bind [OF holds_check]
            holds_merge_and_publish [OF over ok])
          (use read g(1) heads stamp remote_manifest_valid [OF r] in \<open>auto simp: sides_ok_def\<close>)
    qed
  qed
qed

lemma holds_then: "(\<And>x. r = Inr x \<Longrightarrow> holds I (k x) Q) \<Longrightarrow> holds I (io_bind (cg_check r) k) Q"
  by (rule holds_bind [OF holds_check])

lemma holds_attempts:
  fixes E :: "relay converge_env"
  assumes "\<And>base n t. holds I (converge_attempt E wid base n t) (\<lambda>_. True)"
  shows "holds I (converge_attempts E wid n k base t) (\<lambda>_. True)"
proof (induction k arbitrary: n base t)
  case 0
  then show ?case by (auto simp: holds_def)
next
  case (Suc k)
  show ?case
    unfolding fun_eq_iff holds_def
  proof (intro allI impI)
    fix st r st' assume i: "I st" and run: "converge_attempts E wid n (Suc k) base t st = (r, st')"
    have "holds I (io_bind (converge_attempt E wid base n t) (\<lambda>a. case a of
        Converged r \<Rightarrow> io_return r | LostRace remote t \<Rightarrow> converge_attempts E wid (Suc n) k remote t)) (\<lambda>_. True)"
      by (rule holds_bind [OF assms]) (auto split: attempt_end.splits intro: Suc.IH holds_return)
    then show "I st' \<and> (\<forall>x. r = Inr x \<longrightarrow> True)"
      using i run unfolding holds_def by auto
  qed
qed

lemma pass_starts: "pass_inv P H RE J p ws wid E st st"
  by (simp add: pass_inv_def base_agreed_def relay_refl)


section \<open>A member who loses access\<close>

text \<open>Every path the apply works on is in the merged manifest.\<close>

lemma needed_total:
  assumes "manifest_wf local" "out = merge base local remote dev stamp"
    "rel \<in> set (md_added (mo_apply_from_remote out)) \<union> set (md_changed (mo_apply_from_remote out))"
  shows "entry_at (mo_merged out) rel \<noteq> None"
proof -
  have "set (md_added (mo_apply_from_remote out)) \<subseteq> set (md_added (diff local (mo_merged out)))"
    "md_changed (mo_apply_from_remote out) = md_changed (diff local (mo_merged out))"
    unfolding assms(2) merge_def Let_def by auto
  then have "rel \<in> set (md_added (diff local (mo_merged out)) @ md_changed (diff local (mo_merged out)))"
    using assms(3) by auto
  moreover have "manifest_wf (mo_merged out)"
    unfolding assms(2) by (rule merge_wf)
  ultimately show ?thesis
    using diff_facts(2) [OF assms(1)] by blast
qed


section \<open>Sample passes\<close>



end
