(* ===== verification/Pull.thy ===== *)
theory Pull
imports Converge
begin

unbundle bit_operations_syntax

text \<open>
  The mirror cycle (\<open>pull_inner\<close> of \<open>core/src/sync.rs\<close>): the idle checks, the flavor pinning, the
  head with its modes masked, the fetch, the apply, the record of the head and the sweep.  It
  works on the device's state of \<open>Converge\<close>; the calls of the relay are fields of \<open>pull_env\<close>.
\<close>

section \<open>The environment\<close>

record 'c pull_env =
  pe_client :: client
  pe_codec :: push_codec
  pe_ring :: "keyring option"
  pe_digest :: "bytes \<Rightarrow> string"
  pe_lower :: "string \<Rightarrow> string"
  pe_to_json :: "manifest \<Rightarrow> bytes"
  pe_from_json :: "bytes \<Rightarrow> manifest option"
  pe_state_json :: "remote_state \<Rightarrow> bytes"
  pe_state_parse :: "bytes \<Rightarrow> remote_state option"
  pe_tmp_name :: "string \<Rightarrow> string"
  pe_dir_ok :: bool                             \<comment> \<open>the mirror's own directory is made and resolved\<close>
  pe_init :: "(workspace_error, string) result"
  pe_open_ok :: bool
  pe_sync_ok :: "string \<Rightarrow> bool"
  pe_put_ok :: "string \<Rightarrow> bool"
  pe_workspace :: "'c \<Rightarrow> (relay_error, workspace_info) result \<times> 'c"
  pe_get_head :: "'c \<Rightarrow> (relay_error, head_info option) result \<times> 'c"
  pe_missing :: "string list \<Rightarrow> 'c \<Rightarrow> (relay_error, string list) result \<times> 'c"
  pe_get_chunks :: "string list \<Rightarrow> 'c \<Rightarrow> (relay_error, (string \<times> bytes) list) result \<times> 'c"

text \<open>A cycle fails with the relay error its chain of causes holds, if any.\<close>

type_synonym pull_error = "relay_error option"

abbreviation pull_fatal :: pull_error where "pull_fatal \<equiv> Some RFatal"

record pull_report =
  pl_head_seq :: int
  pl_changed :: bool
  pl_written :: "string list"
  pl_deleted :: "string list"
  pl_fetched :: fetched

definition pull_idle :: "int \<Rightarrow> pull_report" where
  "pull_idle seq = \<lparr>pl_head_seq = seq, pl_changed = False, pl_written = [], pl_deleted = [], pl_fetched = no_fetch\<rparr>"

section \<open>What the mirror has\<close>

definition load_remote_state :: "'c pull_env \<Rightarrow> 'c converging \<Rightarrow> remote_state option \<times> 'c converging" where
  "load_remote_state E st =
     (case read_file REMOTE_JSON (cg_disk st) of
        (Inl _, d) \<Rightarrow> (None, st\<lparr>cg_disk := d\<rparr>)
      | (Inr f, d) \<Rightarrow> (pe_state_parse E (fn_data f), st\<lparr>cg_disk := d\<rparr>))"

text \<open>An unreadable manifest is \<open>Fatal\<close>: no retry heals it.\<close>

definition load_mirror_manifest :: "'c pull_env \<Rightarrow> 'c converging \<Rightarrow> (pull_error, manifest option) result \<times> 'c converging" where
  "load_mirror_manifest E st =
     (case read_file MANIFEST_JSON (cg_disk st) of
        (r, d) \<Rightarrow>
          (case load (pe_from_json E) (read_outcome_of r) of
             Inl _ \<Rightarrow> (Inl pull_fatal, st\<lparr>cg_disk := d\<rparr>)
           | Inr m \<Rightarrow> (Inr m, st\<lparr>cg_disk := d\<rparr>)))"

text \<open>Whether the mirror already holds a head: its number and hash recorded, and a manifest there.\<close>

definition holds_head :: "'c pull_env \<Rightarrow> int \<Rightarrow> string option \<Rightarrow> 'c converging \<Rightarrow> (pull_error, bool) result \<times> 'c converging" where
  "holds_head E seq hash st =
     (case load_remote_state E st of
        (None, st) \<Rightarrow> (Inr False, st)
      | (Some s, st) \<Rightarrow>
          if rs_seq s = seq \<and> hash = Some (rs_hash s)
          then io_bind (load_mirror_manifest E) (\<lambda>m. io_return (m \<noteq> None)) st
          else (Inr False, st))"

section \<open>The head\<close>

definition head_manifest :: "push_codec \<Rightarrow> keyring option \<Rightarrow> head_info \<Rightarrow> string \<Rightarrow> (pull_error, manifest) result" where
  "head_manifest pc ring h wid =
     rbind
       (case ring of
          Some r \<Rightarrow>
            (case hi_manifest_enc h of
               None \<Rightarrow> Inl pull_fatal
             | Some enc \<Rightarrow>
                 (case decrypt_manifest (pc_prims pc) (pc_from_slice pc) r enc of
                    Inl _ \<Rightarrow> Inl pull_fatal
                  | Inr m \<Rightarrow> Inr m))
        | None \<Rightarrow> Inr (hi_manifest h))
       (\<lambda>m. case validate m of
              Inl _ \<Rightarrow> Inl pull_fatal
            | Inr _ \<Rightarrow> if mf_workspace_id m \<noteq> wid then Inl pull_fatal else Inr m)"

text \<open>Only permission bits are mirrored; the mirror diffs and records what it can have on disk.\<close>

definition mask_modes :: "manifest \<Rightarrow> manifest" where
  "mask_modes m = m\<lparr>mf_files := map (\<lambda>(p, e). (p, e\<lparr>fe_mode := fe_mode e AND 0x1FF\<rparr>)) (mf_files m)\<rparr>"

section \<open>Fetch, apply, record\<close>

fun pull_of_fetch :: "fetch_error \<Rightarrow> pull_error" where
  "pull_of_fetch (FetchRelay e) = Some e"
| "pull_of_fetch (FetchStore _) = None"
| "pull_of_fetch (FetchMissing _) = None"
| "pull_of_fetch (FetchCorrupt _) = None"

fun pull_of_apply :: "'e apply_error \<Rightarrow> pull_error" where
  "pull_of_apply (CaseCollision a b) = pull_fatal"
| "pull_of_apply (InvalidOld e) = None"
| "pull_of_apply (InvalidNew e) = None"
| "pull_of_apply (ApplyDisk e) = None"
| "pull_of_apply (ApplyChunk e) = None"
| "pull_of_apply (NoEntry p) = None"

definition pull_needed :: "manifest \<Rightarrow> manifest \<Rightarrow> (string \<times> file_entry) list" where
  "pull_needed local wire =
     concat (map (\<lambda>rel. case entry_at wire rel of Some e \<Rightarrow> [(rel, e)] | None \<Rightarrow> [])
       (md_added (diff local wire) @ md_changed (diff local wire)))"

definition pull_fetch :: "'c pull_env \<Rightarrow> manifest \<Rightarrow> manifest \<Rightarrow> 'c converging \<Rightarrow> (pull_error, fetched) result \<times> 'c converging" where
  "pull_fetch E local wire st =
     (if pe_open_ok E then
        (case fetch_needed (pe_digest E) (pe_sync_ok E) (pe_put_ok E) (pe_missing E) (pe_get_chunks E) (pull_needed local wire)
                (open_deferred (st_files (cg_store st)), cg_relay st) of
           (Inl e, store, c) \<Rightarrow> (Inl (pull_of_fetch e), st\<lparr>cg_store := store, cg_relay := c\<rparr>)
         | (Inr n, store, c) \<Rightarrow>
             (case store_flush (pe_sync_ok E) store of
                (Inl _, store) \<Rightarrow> (Inl None, st\<lparr>cg_store := store, cg_relay := c\<rparr>)
              | (Inr _, store) \<Rightarrow> (Inr n, st\<lparr>cg_store := store, cg_relay := c\<rparr>)))
      else (Inl None, st))"

definition pull_apply :: "'c pull_env \<Rightarrow> manifest \<Rightarrow> manifest \<Rightarrow> 'c converging \<Rightarrow> (pull_error, apply_report) result \<times> 'c converging" where
  "pull_apply E local wire st =
     (case apply_manifest (pe_lower E) (pe_to_json E) (pe_tmp_name E)
             (chunk_source (pc_prims (pe_codec E)) (pe_digest E) (pe_ring E)) local wire (cg_disk st, cg_store st) of
        (Inl e, d, store) \<Rightarrow> (Inl (pull_of_apply e), st\<lparr>cg_disk := d, cg_store := store\<rparr>)
      | (Inr r, d, store) \<Rightarrow> (Inr r, st\<lparr>cg_disk := d, cg_store := store\<rparr>))"

definition pull_record :: "'c pull_env \<Rightarrow> head_info \<Rightarrow> 'c converging \<Rightarrow> (pull_error, unit) result \<times> 'c converging" where
  "pull_record E h st =
     (case write_file_atomic REMOTE_JSON
             (pe_state_json E \<lparr>rs_seq = hi_seq h, rs_hash = hi_hash h, rs_fingerprint = None\<rparr>) (cg_disk st) of
        (Inl _, d) \<Rightarrow> (Inl None, st\<lparr>cg_disk := d\<rparr>)
      | (Inr _, d) \<Rightarrow> (Inr (), st\<lparr>cg_disk := d\<rparr>))"

definition pull_sweep :: "bool \<Rightarrow> manifest \<Rightarrow> 'c converging \<Rightarrow> (pull_error, unit) result \<times> 'c converging" where
  "pull_sweep due wire st =
     (Inr (), if due then st\<lparr>cg_store := snd (sweep_unreferenced (manifest_chunks wire) (cg_store st))\<rparr> else st)"

text \<open>A store kept over nothing new is not swept.\<close>

definition pull_changes ::
  "'c pull_env \<Rightarrow> head_info \<Rightarrow> manifest \<Rightarrow> manifest \<Rightarrow> 'c converging \<Rightarrow> (pull_error, pull_report) result \<times> 'c converging" where
  "pull_changes E h local wire =
     io_bind (pull_fetch E local wire) (\<lambda>n.
     io_bind (pull_apply E local wire) (\<lambda>r.
     io_bind (pull_record E h) (\<lambda>_.
     io_bind (pull_sweep (ar_written r \<noteq> [] \<or> ar_deleted r \<noteq> [] \<or> 0 < ft_chunks n) wire) (\<lambda>_.
     io_return \<lparr>pl_head_seq = hi_seq h, pl_changed = (ar_written r \<noteq> [] \<or> ar_deleted r \<noteq> []),
                pl_written = ar_written r, pl_deleted = ar_deleted r, pl_fetched = n\<rparr>))))"

text \<open>From a head that was read.\<close>

definition pull_head :: "'c pull_env \<Rightarrow> string \<Rightarrow> head_info \<Rightarrow> 'c converging \<Rightarrow> (pull_error, pull_report) result \<times> 'c converging" where
  "pull_head E wid h =
     io_bind (cg_check (head_manifest (pe_codec E) (pe_ring E) h wid)) (\<lambda>m.
     io_bind (load_mirror_manifest E) (\<lambda>stored.
     io_bind (\<lambda>st. if stored = None then (Inr None, st) else case load_remote_state E st of (s, st) \<Rightarrow> (Inr s, st)) (\<lambda>known.
     if (case known of Some s \<Rightarrow> rs_seq s = hi_seq h \<and> rs_hash s = hi_hash h | None \<Rightarrow> False)
     then io_return (pull_idle (hi_seq h))
     else
       pull_changes E h (case stored of Some l \<Rightarrow> l | None \<Rightarrow> manifest_new wid) (mask_modes m))))"

definition pull_inner :: "'c pull_env \<Rightarrow> 'c converging \<Rightarrow> (pull_error, pull_report) result \<times> 'c converging" where
  "pull_inner E =
     io_bind (cg_check (if pe_dir_ok E then Inr () else Inl None)) (\<lambda>_.
     io_bind (cg_check (case pe_init E of Inl _ \<Rightarrow> Inl None | Inr wid \<Rightarrow> Inr wid)) (\<lambda>wid.
     io_bind (cg_check (if wid \<noteq> c_workspace (pe_client E) then Inl pull_fatal else Inr ())) (\<lambda>_.
     io_bind (cg_relay_call Some (pe_workspace E)) (\<lambda>ws.
     io_bind (cg_check (if wi_e2e ws \<longleftrightarrow> pe_ring E \<noteq> None then Inr () else Inl pull_fatal)) (\<lambda>_.
     if wi_head_seq ws = 0 then
       io_bind (\<lambda>st. case load_remote_state E st of (s, st) \<Rightarrow> (Inr s, st)) (\<lambda>known.
       if known \<noteq> None then io_fail None else io_return (pull_idle 0))
     else
       io_bind (holds_head E (wi_head_seq ws) (wi_head_hash ws)) (\<lambda>idle.
       if idle then io_return (pull_idle (wi_head_seq ws))
       else
         io_bind (cg_relay_call Some (pe_get_head E)) (\<lambda>head.
         case head of
           None \<Rightarrow> io_fail None
         | Some h \<Rightarrow> pull_head E wid h)))))))"

section \<open>What a cycle does to the mirror\<close>

definition same_tree_on :: "'c converging \<Rightarrow> 'c converging \<Rightarrow> bool" where
  "same_tree_on st st' \<longleftrightarrow> (\<forall>p. leaf (cg_disk st') p = leaf (cg_disk st) p)"

lemma same_tree_preorder: "reflp same_tree_on" "transp same_tree_on"
  by (auto simp: same_tree_on_def intro!: reflpI transpI)

lemma load_remote_state_same: "load_remote_state E st = (s, st') \<Longrightarrow> same_tree_on st st'"
  by (auto simp: load_remote_state_def same_tree_on_def split: prod.splits sum.splits dest: read_file_leaf)

lemma load_mirror_manifest_same: "keeps same_tree_on (load_mirror_manifest E)"
  by (auto simp: keeps_def load_mirror_manifest_def same_tree_on_def split: prod.splits sum.splits dest: read_file_leaf)

lemma load_mirror_manifest_ok:
  assumes "load_mirror_manifest E st = (Inr (Some m), st')"
  shows "\<exists>f. file_at (cg_disk st) MANIFEST_JSON = Some f \<and> pe_from_json E (fn_data f) = Some m"
proof -
  obtain r d where r: "read_file MANIFEST_JSON (cg_disk st) = (r, d)" by fastforce
  then have "load (pe_from_json E) (read_outcome_of r) = Inr (Some m)"
    using assms by (auto simp: load_mirror_manifest_def split: sum.splits)
  then obtain f where "r = Inr f" "pe_from_json E (fn_data f) = Some m"
    by (auto simp: load_def read_outcome_of_def split: sum.splits io_error.splits option.splits)
  then show ?thesis
    using read_file_ok r by blast
qed

lemma relay_call_same: "keeps same_tree_on (cg_relay_call err f)"
  by (auto simp: keeps_def cg_relay_call_def same_tree_on_def split: prod.splits sum.splits)

lemma check_same: "keeps same_tree_on (cg_check r)"
  by (simp add: keeps_def cg_check_def same_tree_on_def)

lemma holds_head_same: "keeps same_tree_on (holds_head E seq hash)"
  unfolding keeps_def
proof
  fix st
  obtain s st1 where l: "load_remote_state E st = (s, st1)" by fastforce
  have "keeps same_tree_on (io_bind (load_mirror_manifest E) (\<lambda>m. io_return (m \<noteq> None)))"
    by (intro keeps_io_bind same_tree_preorder load_mirror_manifest_same keeps_io_return)
  then have "same_tree_on st1 (snd (io_bind (load_mirror_manifest E) (\<lambda>m. io_return (m \<noteq> None)) st1))"
    by (simp add: keeps_def)
  then show "same_tree_on st (snd (holds_head E seq hash st))"
    using load_remote_state_same [OF l] transpD [OF same_tree_preorder(2)]
    by (auto simp: holds_head_def l split: option.splits)
qed

lemma pull_fetch_same: "pull_fetch E local wire st = (r, st') \<Longrightarrow> same_tree_on st st'"
  by (auto simp: pull_fetch_def same_tree_on_def split: if_splits prod.splits sum.splits)

text \<open>What a cycle that applied a head went through.\<close>

lemma pull_head_cases:
  assumes "pull_head E wid h st = (Inr rep, st')"
  obtains (idle) m where "head_manifest (pe_codec E) (pe_ring E) h wid = Inr m" "same_tree_on st st'" "rep = pull_idle (hi_seq h)"
  | (applied) m stored local st1 st2 r st3 where "head_manifest (pe_codec E) (pe_ring E) h wid = Inr m"
      "\<And>l. stored = Some l \<Longrightarrow> \<exists>f. file_at (cg_disk st) MANIFEST_JSON = Some f \<and> pe_from_json E (fn_data f) = Some l"
      "local = (case stored of Some l \<Rightarrow> l | None \<Rightarrow> manifest_new wid)" "same_tree_on st st1"
      "pull_apply E local (mask_modes m) st1 = (Inr r, st2)" "pull_record E h st2 = (Inr (), st3)" "cg_disk st' = cg_disk st3"
      "pl_head_seq rep = hi_seq h" "pl_written rep = ar_written r" "pl_deleted rep = ar_deleted r"
      "pl_changed rep \<longleftrightarrow> ar_written r \<noteq> [] \<or> ar_deleted r \<noteq> []"
proof -
  obtain m stored stA known stB where a: "head_manifest (pe_codec E) (pe_ring E) h wid = Inr m"
    "load_mirror_manifest E st = (Inr stored, stA)"
    "(if stored = None then (Inr None :: (pull_error, remote_state option) result, stA)
      else case load_remote_state E stA of (s, st) \<Rightarrow> (Inr s, st)) = (Inr known, stB)"
    "(if (case known of Some s \<Rightarrow> rs_seq s = hi_seq h \<and> rs_hash s = hi_hash h | None \<Rightarrow> False)
     then io_return (pull_idle (hi_seq h))
     else pull_changes E h (case stored of Some l \<Rightarrow> l | None \<Rightarrow> manifest_new wid) (mask_modes m)) stB = (Inr rep, st')"
    using assms by (auto simp: pull_head_def io_bind_ok cg_check_ok)
  have sA: "same_tree_on st stA"
    using keepsD [OF load_mirror_manifest_same a(2)] .
  have sB: "same_tree_on stA stB"
    using a(3) load_remote_state_same reflpD [OF same_tree_preorder(1)] by (auto split: if_splits prod.splits)
  have s: "same_tree_on st stB"
    using sA sB transpD [OF same_tree_preorder(2)] by blast
  show thesis
  proof (cases "case known of Some s \<Rightarrow> rs_seq s = hi_seq h \<and> rs_hash s = hi_hash h | None \<Rightarrow> False")
    case True
    then have "st' = stB" "rep = pull_idle (hi_seq h)"
      using a(4) by (auto simp: io_return_def)
    then show thesis
      using idle [OF a(1)] s by blast
  next
    case False
    define local where "local = (case stored of Some l \<Rightarrow> l | None \<Rightarrow> manifest_new wid)"
    obtain n st1 r st2 st3 where b: "pull_fetch E local (mask_modes m) stB = (Inr n, st1)"
      "pull_apply E local (mask_modes m) st1 = (Inr r, st2)" "pull_record E h st2 = (Inr (), st3)"
      "pull_sweep (ar_written r \<noteq> [] \<or> ar_deleted r \<noteq> [] \<or> 0 < ft_chunks n) (mask_modes m) st3 = (Inr (), st')"
      "rep = \<lparr>pl_head_seq = hi_seq h, pl_changed = (ar_written r \<noteq> [] \<or> ar_deleted r \<noteq> []),
          pl_written = ar_written r, pl_deleted = ar_deleted r, pl_fetched = n\<rparr>"
      using a(4) False by (simp add: pull_changes_def io_bind_ok io_return_def local_def) blast
    have "cg_disk st' = cg_disk st3"
      using b(4) by (auto simp: pull_sweep_def split: if_splits)
    have "same_tree_on st st1"
      using s pull_fetch_same [OF b(1)] transpD [OF same_tree_preorder(2)] by blast
    then show thesis
      using applied [OF a(1) _ local_def _ b(2,3)] load_mirror_manifest_ok [of E st] a(2) b(5) \<open>cg_disk st' = cg_disk st3\<close> by simp
  qed
qed

section \<open>The mirror holds the head\<close>

lemma map_of_map_snd: "map_of (map (\<lambda>(p, e). (p, f e)) xs) q = map_option f (map_of xs q)"
  by (induction xs) auto

lemma mask_modes_at: "entry_at (mask_modes m) q = map_option (\<lambda>e. e\<lparr>fe_mode := fe_mode e AND 0x1FF\<rparr>) (entry_at m q)"
  by (simp add: mask_modes_def map_of_map_snd)

lemma mask_modes_wf: "manifest_wf (mask_modes m) = manifest_wf m"
  by (simp add: manifest_wf_def bt_wf_def mask_modes_def split_def comp_def)

lemma mask_modes_canonical: "canonical (mask_modes m) = canonical m"
  by (simp add: canonical_def mask_modes_at)

text \<open>What the mirror recorded is what it holds.\<close>

definition mirror_recorded :: "(string \<Rightarrow> bytes \<Rightarrow> bool) \<Rightarrow> (bytes \<Rightarrow> manifest option) \<Rightarrow> disk \<Rightarrow> bool" where
  "mirror_recorded V from_json d \<longleftrightarrow>
     (\<forall>f m. file_at d MANIFEST_JSON = Some f \<and> from_json (fn_data f) = Some m
        \<longrightarrow> manifest_wf m \<and> canonical m \<and> tree_holds V m d)"

lemma canonical_inj:
  assumes "validate a = Inr ()" "validate b = Inr ()" "canonical a" "canonical b"
  shows "inj_on disk_names (dom (entry_at a) \<union> dom (entry_at b))"
proof (rule inj_onI)
  fix p q
  assume p: "p \<in> dom (entry_at a) \<union> dom (entry_at b)" and q: "q \<in> dom (entry_at a) \<union> dom (entry_at b)"
    and eq: "disk_names p = disk_names q"
  have "disk_names x = split_on CHR ''/'' x" if "x \<in> dom (entry_at a) \<union> dom (entry_at b)" for x
    using that validate_key_ok(1) [OF assms(1)] validate_key_ok(1) [OF assms(2)] assms(3,4)
    by (intro canonical_disk_names) (auto simp: canonical_def)
  then show "p = q"
    using p q eq split_on_inj by metis
qed

lemma pull_record_disk:
  assumes "pull_record E h st = (r, st')"
  shows "\<not> in_pear q \<Longrightarrow> leaf (cg_disk st') q = leaf (cg_disk st) q"
    and "leaf (cg_disk st') MANIFEST_JSON = leaf (cg_disk st) MANIFEST_JSON"
    and "is_ok r \<Longrightarrow> \<exists>g. file_at (cg_disk st') REMOTE_JSON = Some g \<and> fn_synced g
       \<and> fn_data g = pe_state_json E \<lparr>rs_seq = hi_seq h, rs_hash = hi_hash h, rs_fingerprint = None\<rparr>"
proof -
  obtain r1 where w: "write_file_atomic REMOTE_JSON
      (pe_state_json E \<lparr>rs_seq = hi_seq h, rs_hash = hi_hash h, rs_fingerprint = None\<rparr>) (cg_disk st) = (r1, cg_disk st')"
    "is_ok r = is_ok r1"
    using assms by (auto simp: pull_record_def split: prod.splits sum.splits)
  show "\<not> in_pear q \<Longrightarrow> leaf (cg_disk st') q = leaf (cg_disk st) q"
    and "leaf (cg_disk st') MANIFEST_JSON = leaf (cg_disk st) MANIFEST_JSON"
    using keepsD [OF write_file_atomic_leaves w(1)]
    by (auto simp: leaves_except_def REMOTE_JSON_def MANIFEST_JSON_def in_pear_def with_extension_def)
  show "is_ok r \<Longrightarrow> \<exists>g. file_at (cg_disk st') REMOTE_JSON = Some g \<and> fn_synced g
       \<and> fn_data g = pe_state_json E \<lparr>rs_seq = hi_seq h, rs_hash = hi_hash h, rs_fingerprint = None\<rparr>"
    using write_file_atomic_cases [OF w(1)] w(2) by (auto simp: REMOTE_JSON_def with_extension_def is_ok_def)
qed

lemma pull_inner_cases:
  assumes "pull_inner E st = (Inr rep, st')" "pe_init E = Inr wid"
  obtains (idle) "same_tree_on st st'" "\<not> pl_changed rep"
  | (head) h c c' st1 where "pe_get_head E c = (Inr (Some h), c')" "same_tree_on st st1" "pull_head E wid h st1 = (Inr rep, st')"
proof -
  obtain ws st1 where a: "cg_relay_call Some (pe_workspace E) st = (Inr ws, st1)"
    "(if wi_head_seq ws = 0 then
       io_bind (\<lambda>st. case load_remote_state E st of (s, st) \<Rightarrow> (Inr s, st)) (\<lambda>known.
       if known \<noteq> None then io_fail None else io_return (pull_idle 0))
     else
       io_bind (holds_head E (wi_head_seq ws) (wi_head_hash ws)) (\<lambda>idle.
       if idle then io_return (pull_idle (wi_head_seq ws))
       else
         io_bind (cg_relay_call Some (pe_get_head E)) (\<lambda>head.
         case head of
           None \<Rightarrow> io_fail None
         | Some h \<Rightarrow> pull_head E wid h))) st1 = (Inr rep, st')"
    using assms by (auto simp: pull_inner_def io_bind_ok cg_check_ok)
  have s1: "same_tree_on st st1"
    using keepsD [OF relay_call_same a(1)] .
  show thesis
  proof (cases "wi_head_seq ws = 0")
    case True
    then have "load_remote_state E st1 = (None, st')" "rep = pull_idle 0"
      using a(2) by (auto simp: io_bind_ok io_return_def io_fail_def split: prod.splits if_splits)
    then show thesis
      using idle s1 load_remote_state_same transpD [OF same_tree_preorder(2)] by (metis pull_idle_def pull_report.select_convs(2))
  next
    case False
    then obtain b st2 where b: "holds_head E (wi_head_seq ws) (wi_head_hash ws) st1 = (Inr b, st2)"
      "(if b then io_return (pull_idle (wi_head_seq ws))
       else io_bind (cg_relay_call Some (pe_get_head E)) (\<lambda>head.
         case head of None \<Rightarrow> io_fail None | Some h \<Rightarrow> pull_head E wid h)) st2 = (Inr rep, st')"
      using a(2) by (auto simp: io_bind_ok)
    have s2: "same_tree_on st st2"
      using keepsD [OF holds_head_same b(1)] s1 transpD [OF same_tree_preorder(2)] by blast
    show thesis
    proof (cases b)
      case True
      then show thesis
        using b(2) s2 idle by (auto simp: io_return_def pull_idle_def)
    next
      case False
      then obtain hd st3 where g: "cg_relay_call Some (pe_get_head E) st2 = (Inr hd, st3)"
        "(case hd of None \<Rightarrow> io_fail None | Some h \<Rightarrow> pull_head E wid h) st3 = (Inr rep, st')"
        using b(2) by (auto simp: io_bind_ok)
      obtain h where h: "hd = Some h"
        using g(2) by (cases hd) (auto simp: io_fail_def)
      obtain c' where "pe_get_head E (cg_relay st2) = (Inr (Some h), c')"
        using cg_relay_call_ok [OF g(1)] h by blast
      moreover have "same_tree_on st st3"
        using keepsD [OF relay_call_same g(1)] s2 transpD [OF same_tree_preorder(2)] by blast
      ultimately show thesis
        using head g(2) h by simp
    qed
  qed
qed

lemma manifest_new_facts: "manifest_wf (manifest_new w)" "canonical (manifest_new w)" "tree_holds V (manifest_new w) d"
  by (simp_all add: manifest_wf_def manifest_new_def tree_holds_def canonical_def bt_wf_def)

lemma same_tree_recorded:
  assumes "same_tree_on st st'" "mirror_recorded V from_json (cg_disk st)"
  shows "mirror_recorded V from_json (cg_disk st')"
  using assms by (simp add: same_tree_on_def mirror_recorded_def tree_holds_def file_at_leaf)

text \<open>One applied head.\<close>

lemma pull_apply_holds:
  assumes ap: "pull_apply E local new st = (Inr r, st')" and V: "sound_source V (chunk_source (pc_prims (pe_codec E)) (pe_digest E) (pe_ring E))"
    and loc: "manifest_wf local" "canonical local" "tree_holds V local (cg_disk st)"
    and new: "manifest_wf new" "canonical new"
  shows "tree_holds V new (cg_disk st')"
    "\<exists>f. file_at (cg_disk st') MANIFEST_JSON = Some f \<and> fn_data f = pe_to_json E new \<and> fn_synced f"
    "set (ar_deleted r) = dom (entry_at local) - dom (entry_at new)"
    "\<forall>rel\<in>dom (entry_at local) - dom (entry_at new). leaf (cg_disk st') (disk_names rel) = None"
    "validate local = Inr ()" "validate new = Inr ()"
proof -
  have run: "apply_commit (pe_lower E) (pe_to_json E) (pe_tmp_name E) (chunk_source (pc_prims (pe_codec E)) (pe_digest E) (pe_ring E))
      local new new (cg_disk st, cg_store st) = (Inr r, (cg_disk st', cg_store st'))"
    using ap by (auto simp: pull_apply_def apply_manifest_def split: prod.splits sum.splits)
  then have val: "validate local = Inr ()" "validate new = Inr ()"
    by (cases rule: apply_commit_batch; simp)+
  have un: "\<forall>rel e. entry_at local rel = Some e \<and> entry_at new rel = Some e \<longrightarrow> in_place V e (leaf (cg_disk st) (disk_names rel))"
    using loc(3) by (simp add: tree_holds_def)
  note ok = apply_commit_ok [OF run V loc(1) new(1) canonical_inj [OF val loc(2) new(2)] un]
  show "tree_holds V new (cg_disk st')"
    "\<exists>f. file_at (cg_disk st') MANIFEST_JSON = Some f \<and> fn_data f = pe_to_json E new \<and> fn_synced f"
    "set (ar_deleted r) = dom (entry_at local) - dom (entry_at new)"
    "\<forall>rel\<in>dom (entry_at local) - dom (entry_at new). leaf (cg_disk st') (disk_names rel) = None"
    "validate local = Inr ()" "validate new = Inr ()"
    using ok(1,2,6,7) val by blast+
qed

lemma pull_record_tree:
  assumes "pull_record E h st = (r, st')" "validate m = Inr ()"
  shows "tree_holds V m (cg_disk st') = tree_holds V m (cg_disk st)"
proof -
  have "leaf (cg_disk st') (disk_names rel) = leaf (cg_disk st) (disk_names rel)" if "entry_at m rel = Some e" for rel e
    using pull_record_disk(1) [OF assms(1)] path_ok_not_in_pear validate_key_ok(1) [OF assms(2)] that by blast
  then show ?thesis
    by (auto simp: tree_holds_def)
qed


section \<open>A concrete cycle\<close>

definition pull_head_sample :: manifest where
  "pull_head_sample = (manifest_new ''w'')\<lparr>mf_files := [(''d/f'', (sample_entry 1)\<lparr>fe_mode := 0x9ED\<rparr>)]\<rparr>"

definition pull_pass :: "unit pull_env" where
  "pull_pass = \<lparr>pe_client = client_new ''u'' ''t'' ''w'' ''d'', pe_codec = plain_codec, pe_ring = None,
     pe_digest = (\<lambda>b. if b = ''x'' then sample_hash else ''''), pe_lower = (\<lambda>s. s),
     pe_to_json = (\<lambda>m. if m = mask_modes pull_head_sample then ''j'' else ''''),
     pe_from_json = (\<lambda>b. if b = ''j'' then Some (mask_modes pull_head_sample) else None),
     pe_state_json = (\<lambda>_. ''r''), pe_state_parse = (\<lambda>_. None), pe_tmp_name = (\<lambda>_. ''t''), pe_dir_ok = True,
     pe_init = Inr ''w'', pe_open_ok = True, pe_sync_ok = (\<lambda>_. True), pe_put_ok = (\<lambda>_. True),
     pe_workspace = (\<lambda>c. (Inr \<lparr>wi_id = ''w'', wi_name = ''n'', wi_head_seq = 1, wi_head_hash = Some ''m'',
        wi_team_id = None, wi_e2e = False\<rparr>, c)),
     pe_get_head = (\<lambda>c. (Inr (Some \<lparr>hi_seq = 1, hi_hash = ''m'', hi_manifest = pull_head_sample, hi_manifest_enc = None,
        hi_e2e = False\<rparr>), c)),
     pe_missing = (\<lambda>_ c. (Inr [], c)), pe_get_chunks = (\<lambda>_ c. (Inr [(sample_hash, ''x'')], c))\<rparr>"

definition pull_start :: "unit converging" where
  "pull_start = \<lparr>cg_disk = blank [], cg_store = open_deferred [], cg_relay = ()\<rparr>"

lemma pull_wire: "is_ok (validate pull_head_sample)" "(is_ok (validate (mask_modes pull_head_sample)))"
  by code_simp+

lemma pull_plan: "plan_fetch_batches (pull_needed (manifest_new ''w'') (mask_modes pull_head_sample)) = [[sample_hash]]"
proof -
  have "pull_needed (manifest_new ''w'') (mask_modes pull_head_sample) = [(''d/f'', (sample_entry 1)\<lparr>fe_mode := 0x1ED\<rparr>)]"
    by code_simp
  then show ?thesis
    by (simp add: plan_fetch_batches_def plan_entry_def sample_entry_def Let_def)
qed

definition pull_stored :: store where
  "pull_stored = snd (store_put (pe_digest pull_pass) (\<lambda>_. True) True sample_hash ''x'' (open_deferred []))"

lemma pull_put: "store_put (pe_digest pull_pass) (\<lambda>_. True) True sample_hash ''x'' (open_deferred []) = (Inr True, pull_stored)"
proof -
  have "fst (store_put (pe_digest pull_pass) (\<lambda>_. True) True sample_hash ''x'' (open_deferred [])) = Inr True"
    by code_simp
  then show ?thesis
    by (simp add: pull_stored_def prod_eq_iff)
qed

lemma pull_flush: "is_ok (fst (store_flush (\<lambda>_. True) pull_stored))"
  by code_simp

lemma pull_none: "store_has (open_deferred []) sample_hash = Inr False"
  by code_simp

definition pull_filled :: "unit converging" where
  "pull_filled = pull_start\<lparr>cg_store := snd (store_flush (\<lambda>_. True) pull_stored)\<rparr>"

lemma pull_fetch_runs:
  "pull_fetch pull_pass (manifest_new ''w'') (mask_modes pull_head_sample) pull_start = (Inr \<lparr>ft_chunks = 1, ft_bytes = 1\<rparr>, pull_filled)"
proof -
  have digest: "pe_digest pull_pass ''x'' = sample_hash"
    by (simp add: pull_pass_def)
  have fields: "pe_open_ok pull_pass" "pe_sync_ok pull_pass = (\<lambda>_. True)" "pe_put_ok pull_pass = (\<lambda>_. True)"
      "pe_missing pull_pass = (\<lambda>_ c. (Inr [], c))" "pe_get_chunks pull_pass = (\<lambda>_ c. (Inr [(sample_hash, ''x'')], c))"
    by (simp_all add: pull_pass_def)
  have start: "open_deferred (st_files (cg_store pull_start)) = open_deferred []" "cg_relay pull_start = ()"
    by (simp_all add: pull_start_def open_deferred_def open_store_def)
  obtain store where fl: "store_flush (\<lambda>_. True) pull_stored = (Inr (), store)"
    using pull_flush by (cases "store_flush (\<lambda>_. True) pull_stored") (auto simp: is_ok_def split: sum.splits)
  show ?thesis
    by (simp add: pull_fetch_def fields start fetch_needed_def pull_plan pull_none digest pull_put fl Let_def pull_filled_def)
qed

text \<open>The store of the cycle as a source, read only once the chunk is named.\<close>

fun pull_get :: "string \<Rightarrow> store \<Rightarrow> (source_error, bytes) result \<times> store" where
  "pull_get [] st = chunk_source toy_prims (\<lambda>b. if b = ''x'' then sample_hash else '''') None [] st"
| "pull_get (a # h) st = chunk_source toy_prims (\<lambda>b. if b = ''x'' then sample_hash else '''') None (a # h) st"

lemma pull_get_source: "chunk_source (pc_prims (pe_codec pull_pass)) (pe_digest pull_pass) (pe_ring pull_pass) = pull_get"
proof (intro ext)
  show "chunk_source (pc_prims (pe_codec pull_pass)) (pe_digest pull_pass) (pe_ring pull_pass) h st = pull_get h st" for h st
    by (cases h) (simp_all add: pull_pass_def plain_codec_def)
qed

definition pull_tree :: "(source_error apply_error, apply_report) result \<times> disk \<times> store" where
  "pull_tree = apply_manifest (\<lambda>s. s) (\<lambda>_. ''j'') (\<lambda>_. ''t'') pull_get (manifest_new ''w'') (mask_modes pull_head_sample)
     (blank [], \<lparr>st_files = [((''aa'', sample_hash), ''x'')], st_deferred = True, st_pending = []\<rparr>)"

lemma pull_tree_runs: "case fst pull_tree of Inl _ \<Rightarrow> False | Inr r \<Rightarrow> ar_written r = [''d/f'']"
  by code_simp

lemma pull_record_runs: "is_ok (fst (write_file_atomic REMOTE_JSON ''r'' (fst (snd pull_tree))))"
  by code_simp

lemma pull_applies:
  obtains r d s where "pull_apply pull_pass (manifest_new ''w'') (mask_modes pull_head_sample) pull_filled
      = (Inr r, pull_filled\<lparr>cg_disk := d, cg_store := s\<rparr>)" "ar_written r = [''d/f'']" "is_ok (fst (write_file_atomic REMOTE_JSON ''r'' d))"
proof -
  have filled: "cg_disk pull_filled = blank []" "cg_store pull_filled = \<lparr>st_files = [((''aa'', sample_hash), ''x'')], st_deferred = True, st_pending = []\<rparr>"
    unfolding pull_filled_def pull_start_def by code_simp+
  have tree: "apply_manifest (pe_lower pull_pass) (pe_to_json pull_pass) (pe_tmp_name pull_pass) pull_get (manifest_new ''w'')
      (mask_modes pull_head_sample) (cg_disk pull_filled, cg_store pull_filled) = pull_tree"
    by (simp add: pull_tree_def filled apply_manifest_def apply_commit_def pull_pass_def)
  obtain r d s where t: "pull_tree = (Inr r, d, s)" "ar_written r = [''d/f'']"
  proof (cases "fst pull_tree")
    case (Inr r)
    then show thesis
      using pull_tree_runs that [of r "fst (snd pull_tree)" "snd (snd pull_tree)"] by (simp add: prod_eq_iff)
  qed (use pull_tree_runs in simp)
  have "pull_apply pull_pass (manifest_new ''w'') (mask_modes pull_head_sample) pull_filled
      = (Inr r, pull_filled\<lparr>cg_disk := d, cg_store := s\<rparr>)"
    by (simp add: pull_apply_def pull_get_source tree t(1))
  then show thesis
    using that t(2) pull_record_runs [unfolded t(1) prod.sel] by blast
qed

lemma pull_loads: "load_mirror_manifest pull_pass pull_start = (Inr None, pull_start)"
  "load_remote_state pull_pass pull_start = (None, pull_start)"
proof -
  have "read_file MANIFEST_JSON (blank []) = (Inl IoNotFound, blank [])" "read_file REMOTE_JSON (blank []) = (Inl IoNotFound, blank [])"
    by code_simp+
  then show "load_mirror_manifest pull_pass pull_start = (Inr None, pull_start)" "load_remote_state pull_pass pull_start = (None, pull_start)"
    by (simp_all add: load_mirror_manifest_def load_remote_state_def pull_start_def load_def read_outcome_of_def)
qed

lemma pull_runs:
  obtains rep st' where "pull_inner pull_pass pull_start = (Inr rep, st')" "pl_changed rep"
proof -
  obtain r d s where ap: "pull_apply pull_pass (manifest_new ''w'') (mask_modes pull_head_sample) pull_filled
      = (Inr r, pull_filled\<lparr>cg_disk := d, cg_store := s\<rparr>)" "ar_written r = [''d/f'']" "is_ok (fst (write_file_atomic REMOTE_JSON ''r'' d))"
    by (rule pull_applies)
  obtain d' where w: "write_file_atomic REMOTE_JSON ''r'' d = (Inr (), d')"
    using ap(3) by (cases "write_file_atomic REMOTE_JSON ''r'' d") (auto simp: is_ok_def split: sum.splits)
  have fields: "pe_dir_ok pull_pass" "pe_init pull_pass = Inr ''w''" "c_workspace (pe_client pull_pass) = ''w''" "pe_ring pull_pass = None"
      "pe_state_json pull_pass = (\<lambda>_. ''r'')" "mf_workspace_id pull_head_sample = ''w''" "validate pull_head_sample = Inr ()"
    using pull_wire(1) by (auto simp: pull_pass_def client_new_def pull_head_sample_def manifest_new_def is_ok_def split: sum.splits)
  have calls: "cg_relay_call Some (pe_workspace pull_pass) pull_start = (Inr \<lparr>wi_id = ''w'', wi_name = ''n'', wi_head_seq = 1,
        wi_head_hash = Some ''m'', wi_team_id = None, wi_e2e = False\<rparr>, pull_start)"
    "cg_relay_call Some (pe_get_head pull_pass) pull_start = (Inr (Some \<lparr>hi_seq = 1, hi_hash = ''m'', hi_manifest = pull_head_sample,
        hi_manifest_enc = None, hi_e2e = False\<rparr>), pull_start)"
    by (simp_all add: cg_relay_call_def pull_pass_def)
  have "\<exists>rep st'. pull_changes pull_pass h (manifest_new ''w'') (mask_modes pull_head_sample) pull_start = (Inr rep, st') \<and> pl_changed rep" for h
    by (simp add: pull_changes_def io_bind_def pull_fetch_runs ap(1,2) pull_record_def fields w pull_sweep_def io_return_def)
  then obtain rep st' where ch: "pull_changes pull_pass \<lparr>hi_seq = 1, hi_hash = ''m'', hi_manifest = pull_head_sample,
        hi_manifest_enc = None, hi_e2e = False\<rparr> (manifest_new ''w'') (mask_modes pull_head_sample) pull_start = (Inr rep, st')" "pl_changed rep"
    by blast
  have "pull_inner pull_pass pull_start = (Inr rep, st')"
    by (simp add: pull_inner_def io_bind_def cg_check_def fields calls holds_head_def pull_loads pull_head_def head_manifest_def ch(1))
  then show thesis
    using that ch(2) by blast
qed

lemma pull_source_sound: "sound_source (\<lambda>h b. h = sample_hash \<longrightarrow> b = ''x'')
    (chunk_source (pc_prims (pe_codec pull_pass)) (pe_digest pull_pass) (pe_ring pull_pass))"
  by (auto simp: sound_source_def chunk_source_def store_get_def pull_pass_def sample_hash_def numeral_eq_Suc
      split: sum.splits option.splits if_splits prod.splits)


end
