(* ===== verification/Snapshot.thy ===== *)
theory Snapshot
imports Pull
begin

text \<open>
  Snapshots (\<open>core/src/snapshot.rs\<close>): the strict capture of a tree into a snapshot of the relay, and
  the clone of a snapshot into a fresh directory under a new workspace id, with its refusals, its
  fetch, its apply, its provenance and the clean-up of a failed one.
\<close>

section \<open>Taking a snapshot\<close>

record snapshot_report =
  sr_id :: int
  sr_created_at :: int
  sr_files :: nat
  sr_excluded :: "string list"

datatype ('p, 'e) snapshot_error =
    SnNotDir | SnNoWorkspace | SnOtherWorkspace
  | SnBuild "('p, 'e) build_error" | SnUpload 'e | SnRelay relay_error

text \<open>What is sent: the plain manifest, or the sealed one with its chunk list.\<close>

definition snapshot_content :: "push_codec \<Rightarrow> keyring option \<Rightarrow> manifest \<Rightarrow> manifest + string \<times> string list" where
  "snapshot_content pc ring m =
     (case ring of
        Some r \<Rightarrow> Inr (encrypt_manifest (pc_prims pc) (pc_to_vec pc) (pc_nonce pc) r m, manifest_chunk_hashes m)
      | None \<Rightarrow> Inl m)"

definition push_snapshot_inner ::
  "push_codec \<Rightarrow> client \<Rightarrow> keyring option \<Rightarrow> bool \<Rightarrow> int \<Rightarrow> (workspace_error, workspace_meta option) result
     \<Rightarrow> (load_error, manifest option) result \<Rightarrow> (scan_error, scan_outcome) result
     \<Rightarrow> (string list \<Rightarrow> 's \<Rightarrow> ('p, bool list) result \<times> 's)
     \<Rightarrow> (string \<Rightarrow> 's \<Rightarrow> ('e, string list) result \<times> 's)
     \<Rightarrow> ('s \<Rightarrow> ('e, unit) result \<times> 's)
     \<Rightarrow> (string option \<Rightarrow> manifest + string \<times> string list \<Rightarrow> 's \<Rightarrow> (relay_error, int \<times> int) result \<times> 's)
     \<Rightarrow> string option \<Rightarrow> 's \<Rightarrow> (('p, 'e) snapshot_error, snapshot_report) result \<times> 's" where
  "push_snapshot_inner pc c ring is_dir started_at workspace loaded scanned has_many upload flush create name s =
     (if \<not> is_dir then (Inl SnNotDir, s)
      else
        (case workspace of
           Inl _ \<Rightarrow> (Inl SnNoWorkspace, s)
         | Inr None \<Rightarrow> (Inl SnNoWorkspace, s)
         | Inr (Some meta) \<Rightarrow>
             if wm_id meta \<noteq> c_workspace c then (Inl SnOtherWorkspace, s)
             else
               (case scan_build_manifest started_at (Inr (wm_id meta)) loaded scanned True has_many upload s of
                  (Inl e, s) \<Rightarrow> (Inl (SnBuild e), s)
                | (Inr b, s) \<Rightarrow>
                    (case flush s of
                       (Inl e, s) \<Rightarrow> (Inl (SnUpload e), s)
                     | (Inr _, s) \<Rightarrow>
                         (case create name (snapshot_content pc ring (sb_new b)) s of
                            (Inl e, s) \<Rightarrow> (Inl (SnRelay e), s)
                          | (Inr (i, at), s) \<Rightarrow>
                              (Inr \<lparr>sr_id = i, sr_created_at = at, sr_files = length (mf_files (sb_new b)),
                                    sr_excluded = sb_excluded b\<rparr>, s))))))"

text \<open>What was sent captures the whole scan: nothing skipped, every scanned file with its size, mode and time.\<close>

lemma snapshot_complete:
  assumes "push_snapshot_inner pc c ring is_dir started_at workspace loaded (Inr out) has_many upload flush create name s = (Inr rep, s')"
    and "distinct (map sf_rel_path (so_files out))"
  shows "\<exists>(b :: scan_built) s1 at. create name (snapshot_content pc ring (sb_new b)) s1 = (Inr (sr_id rep, at), s')
    \<and> so_unreadable out = [] \<and> so_skipped out = []
    \<and> (\<forall>f\<in>set (so_files out). \<exists>cs. entry_at (sb_new b) (sf_rel_path f) = Some (entry_of f cs))"
proof -
  obtain wid b s0 s1 at where *: "scan_build_manifest started_at (Inr wid) loaded (Inr out) True has_many upload s = (Inr b, s0)"
    "create name (snapshot_content pc ring (sb_new b)) s1 = (Inr (sr_id rep, at), s')"
    using assms(1) by (auto simp: push_snapshot_inner_def split: if_splits sum.splits option.splits prod.splits)
  have "so_unreadable out = [] \<and> so_skipped out = []
    \<and> (\<forall>f\<in>set (so_files out). \<exists>cs. entry_at (sb_new b) (sf_rel_path f) = Some (entry_of f cs))"
    using strict_capture_complete [OF *(1) assms(2)] by simp
  with *(2) show ?thesis
    by blast
qed

section \<open>The environment of a clone\<close>

record clone_origin =
  co_workspace :: string
  co_snapshot :: int
  co_name :: "string option"
  co_cloned_at :: int

text \<open>
  Making the directory, minting its workspace and keeping the ring are actions on the disk, modelled
  in their own theories.
\<close>

record 'c clone_env =
  cn_client :: client
  cn_codec :: push_codec
  cn_ring :: "keyring option"
  cn_digest :: "bytes \<Rightarrow> string"
  cn_lower :: "string \<Rightarrow> string"
  cn_to_json :: "manifest \<Rightarrow> bytes"
  cn_origin_json :: "clone_origin \<Rightarrow> bytes"
  cn_meta_parse :: "bytes \<Rightarrow> workspace_meta option"
  cn_tmp_name :: "string \<Rightarrow> string"
  cn_now :: int
  cn_make_dir :: "disk \<Rightarrow> (io_error, unit) result \<times> disk"
  cn_init :: "disk \<Rightarrow> (workspace_error, string) result \<times> disk"
  cn_keep_ring :: "keyring \<Rightarrow> disk \<Rightarrow> (io_error, unit) result \<times> disk"
  cn_open_ok :: bool
  cn_sync_ok :: "string \<Rightarrow> bool"
  cn_put_ok :: "string \<Rightarrow> bool"
  cn_get_snapshot :: "int \<Rightarrow> 'c \<Rightarrow> (relay_error, snapshot) result \<times> 'c"
  cn_missing :: "string list \<Rightarrow> 'c \<Rightarrow> (relay_error, string list) result \<times> 'c"
  cn_get_chunk :: "string \<Rightarrow> 'c \<Rightarrow> (relay_error, bytes) result \<times> 'c"

record clone_report =
  cl_workspace :: string
  cl_written :: nat
  cl_fetched :: fetched

datatype clone_error =
    CloneSnapshot relay_error | CloneFlavor | CloneSealed | CloneInvalid | CloneForeign | CloneLoad | CloneExists | CloneNotEmpty
  | CloneDir | CloneInit | CloneRing | CloneStore "store_error option" | CloneRelay relay_error | CloneMissing "string list"
  | CloneCorrupt string | CloneApply "source_error apply_error" | CloneOrigin

section \<open>What is cloned\<close>

text \<open>The flavor is that of the key at hand; the manifest is validated and must be the client's workspace's.\<close>

definition snapshot_tree :: "'c clone_env \<Rightarrow> snapshot \<Rightarrow> (clone_error, manifest) result" where
  "snapshot_tree E s =
     rbind
       (case (sn_manifest_enc s, cn_ring E) of
          (Some _, None) \<Rightarrow> Inl CloneFlavor
        | (None, Some _) \<Rightarrow> Inl CloneFlavor
        | (Some enc, Some r) \<Rightarrow>
            (case decrypt_manifest (pc_prims (cn_codec E)) (pc_from_slice (cn_codec E)) r enc of
               Inl _ \<Rightarrow> Inl CloneSealed
             | Inr m \<Rightarrow> Inr m)
        | (None, None) \<Rightarrow> Inr (sn_manifest s))
       (\<lambda>m. case validate m of
              Inl _ \<Rightarrow> Inl CloneInvalid
            | Inr _ \<Rightarrow> if mf_workspace_id m \<noteq> c_workspace (cn_client E) then Inl CloneForeign else Inr m)"

definition cloned :: "string \<Rightarrow> manifest \<Rightarrow> manifest" where
  "cloned wid m = mask_modes (m\<lparr>mf_workspace_id := wid\<rparr>)"

section \<open>The clone\<close>

definition WORKSPACE_JSON :: fs_path where "WORKSPACE_JSON = [''.pear'', ''workspace.json'']"
definition ORIGIN_JSON :: fs_path where "ORIGIN_JSON = [''.pear'', ''origin.json'']"

definition clone_disk :: "(disk \<Rightarrow> ('e, 'a) result \<times> disk) \<Rightarrow> clone_error \<Rightarrow> 'c converging \<Rightarrow> (clone_error, 'a) result \<times> 'c converging" where
  "clone_disk m err st = (case m (cg_disk st) of (Inl _, d) \<Rightarrow> (Inl err, st\<lparr>cg_disk := d\<rparr>) | (Inr x, d) \<Rightarrow> (Inr x, st\<lparr>cg_disk := d\<rparr>))"

text \<open>Neither a workspace nor a directory with content is cloned into.\<close>

definition clone_target_fresh :: "'c clone_env \<Rightarrow> 'c converging \<Rightarrow> (clone_error, unit) result \<times> 'c converging" where
  "clone_target_fresh E st =
     (case read_file WORKSPACE_JSON (cg_disk st) of
        (r, d) \<Rightarrow>
          (case load_workspace (cn_meta_parse E) (read_outcome_of r) of
             Inl _ \<Rightarrow> (Inl CloneLoad, st\<lparr>cg_disk := d\<rparr>)
           | Inr (Some _) \<Rightarrow> (Inl CloneExists, st\<lparr>cg_disk := d\<rparr>)
           | Inr None \<Rightarrow>
               (case read_dir [] d of
                  (Inr (q # qs), d) \<Rightarrow> (Inl CloneNotEmpty, st\<lparr>cg_disk := d\<rparr>)
                | (_, d) \<Rightarrow> (Inr (), st\<lparr>cg_disk := d\<rparr>))))"

fun fetch_each ::
  "(bytes \<Rightarrow> string) \<Rightarrow> (string \<Rightarrow> bool) \<Rightarrow> (string \<Rightarrow> bool) \<Rightarrow> (string \<Rightarrow> 'c \<Rightarrow> (relay_error, bytes) result \<times> 'c)
     \<Rightarrow> string list \<Rightarrow> fetched \<Rightarrow> store \<times> 'c \<Rightarrow> (clone_error, fetched) result \<times> store \<times> 'c" where
  "fetch_each H sync_ok disk_ok get [] n (st, c) = (Inr n, (st, c))"
| "fetch_each H sync_ok disk_ok get (h # hs) n (st, c) =
     (case get h c of
        (Inl e, c) \<Rightarrow> (Inl (CloneRelay e), (st, c))
      | (Inr data, c) \<Rightarrow>
          if H data \<noteq> h then (Inl (CloneCorrupt h), (st, c))
          else
            (case store_put H sync_ok (disk_ok h) h data st of
               (Inl e, st) \<Rightarrow> (Inl (CloneStore (Some e)), (st, c))
             | (Inr stored, st) \<Rightarrow>
                 fetch_each H sync_ok disk_ok get hs
                   \<lparr>ft_chunks = ft_chunks n + (if stored then 1 else 0), ft_bytes = ft_bytes n + length data\<rparr> (st, c)))"

definition clone_fetch :: "'c clone_env \<Rightarrow> manifest \<Rightarrow> store \<times> 'c \<Rightarrow> (clone_error, fetched) result \<times> store \<times> 'c" where
  "clone_fetch E wire sc =
     (case sc of (st, c) \<Rightarrow>
        let need = wanted_chunks wire in
        (case has_many_default store_has st need of
           Inl e \<Rightarrow> (Inl (CloneStore (Some e)), (st, c))
         | Inr present \<Rightarrow>
             (let to_fetch = map fst (filter (\<lambda>(h, p). \<not> p) (zip need present)) in
              if to_fetch = [] then (Inr no_fetch, (st, c))
              else
                (case cn_missing E to_fetch c of
                   (Inl e, c) \<Rightarrow> (Inl (CloneRelay e), (st, c))
                 | (Inr (m # ms), c) \<Rightarrow> (Inl (CloneMissing (m # ms)), (st, c))
                 | (Inr [], c) \<Rightarrow> fetch_each (cn_digest E) (cn_sync_ok E) (cn_put_ok E) (cn_get_chunk E) to_fetch no_fetch (st, c)))))"

definition clone_fetched :: "'c clone_env \<Rightarrow> manifest \<Rightarrow> 'c converging \<Rightarrow> (clone_error, fetched) result \<times> 'c converging" where
  "clone_fetched E wire st =
     (if cn_open_ok E then
        (case clone_fetch E wire (open_store (st_files (cg_store st)), cg_relay st) of
           (r, store, c) \<Rightarrow> (r, st\<lparr>cg_store := store, cg_relay := c\<rparr>))
      else (Inl (CloneStore None), st))"

definition clone_tree :: "'c clone_env \<Rightarrow> string \<Rightarrow> manifest \<Rightarrow> 'c converging \<Rightarrow> (clone_error, apply_report) result \<times> 'c converging" where
  "clone_tree E wid wire st =
     (case apply_manifest (cn_lower E) (cn_to_json E) (cn_tmp_name E)
             (chunk_source (pc_prims (cn_codec E)) (cn_digest E) (cn_ring E)) (manifest_new wid) (cloned wid wire)
             (cg_disk st, cg_store st) of
        (Inl e, d, store) \<Rightarrow> (Inl (CloneApply e), st\<lparr>cg_disk := d, cg_store := store\<rparr>)
      | (Inr r, d, store) \<Rightarrow> (Inr r, st\<lparr>cg_disk := d, cg_store := store\<rparr>))"

definition clone_origin_of :: "'c clone_env \<Rightarrow> snapshot_info \<Rightarrow> clone_origin" where
  "clone_origin_of E info =
     \<lparr>co_workspace = c_workspace (cn_client E), co_snapshot = si_id info, co_name = si_name info, co_cloned_at = cn_now E\<rparr>"

definition clone_apply ::
  "'c clone_env \<Rightarrow> manifest \<Rightarrow> snapshot_info \<Rightarrow> string \<Rightarrow> 'c converging \<Rightarrow> (clone_error, clone_report) result \<times> 'c converging" where
  "clone_apply E wire info wid =
     io_bind (clone_fetched E wire) (\<lambda>n.
     io_bind (clone_tree E wid wire) (\<lambda>r.
     io_bind (clone_disk (write_file_atomic ORIGIN_JSON (cn_origin_json E (clone_origin_of E info))) CloneOrigin) (\<lambda>_.
     io_return \<lparr>cl_workspace = wid, cl_written = length (ar_written r), cl_fetched = n\<rparr>)))"

text \<open>\<open>fs::remove_dir_all\<close>: children before their directory, up to the first error.\<close>

definition below :: "fs_path \<Rightarrow> disk \<Rightarrow> fs_path list" where
  "below p d = rev (filter (\<lambda>q. take (length p) q = p) (bt_keys (dk_tree d)))"

definition remove_entry :: "fs_path \<Rightarrow> disk \<Rightarrow> (io_error, unit) result \<times> disk" where
  "remove_entry p d = (case bt_get (dk_tree d) p of Some (Dir _) \<Rightarrow> remove_dir p d | _ \<Rightarrow> remove_file p d)"

definition remove_dir_all :: "fs_path \<Rightarrow> disk \<Rightarrow> (io_error, unit) result \<times> disk" where
  "remove_dir_all p d = io_each remove_entry (below p d) d"

definition clear_target :: "disk \<Rightarrow> disk" where
  "clear_target d =
     (case read_dir [] d of
        (Inl _, d) \<Rightarrow> d
      | (Inr ps, d) \<Rightarrow>
          fold (\<lambda>p d. snd (case bt_get (dk_tree d) p of Some (Dir _) \<Rightarrow> remove_dir_all p d | _ \<Rightarrow> remove_file p d)) ps d)"

text \<open>The directory was empty before: everything in it goes, the chunk store below \<open>.pear\<close> with it.\<close>

definition clear_clone :: "'c converging \<Rightarrow> 'c converging" where
  "clear_clone st = st\<lparr>cg_disk := clear_target (cg_disk st), cg_store := open_store []\<rparr>"

definition clone_into ::
  "'c clone_env \<Rightarrow> snapshot_info \<Rightarrow> manifest \<Rightarrow> 'c converging \<Rightarrow> (clone_error, clone_report) result \<times> 'c converging" where
  "clone_into E info wire =
     io_bind (clone_disk (cn_make_dir E) CloneDir) (\<lambda>_.
     io_bind (clone_disk (cn_init E) CloneInit) (\<lambda>wid.
     io_bind (case cn_ring E of Some r \<Rightarrow> clone_disk (cn_keep_ring E r) CloneRing | None \<Rightarrow> io_return ()) (\<lambda>_.
     (\<lambda>st. case clone_apply E wire info wid st of
             (Inl e, st) \<Rightarrow> (Inl e, clear_clone st)
           | (Inr rep, st) \<Rightarrow> (Inr rep, st)))))"

definition clone_inner :: "'c clone_env \<Rightarrow> int \<Rightarrow> 'c converging \<Rightarrow> (clone_error, clone_report) result \<times> 'c converging" where
  "clone_inner E i =
     io_bind (cg_relay_call CloneSnapshot (cn_get_snapshot E i)) (\<lambda>s.
     io_bind (cg_check (snapshot_tree E s)) (\<lambda>wire.
     io_bind (clone_target_fresh E) (\<lambda>_.
     clone_into E (sn_info s) wire)))"

section \<open>What a clone leaves\<close>

lemma clone_disk_ok: "clone_disk m err st = (Inr x, st') \<longleftrightarrow> (\<exists>d. m (cg_disk st) = (Inr x, d) \<and> st' = st\<lparr>cg_disk := d\<rparr>)"
  by (auto simp: clone_disk_def split: prod.splits sum.splits)

lemma clone_into_ok:
  assumes "clone_into E info wire st = (Inr rep, st')"
  obtains wid d1 d2 st3 where "cn_init E d1 = (Inr wid, d2)" "clone_apply E wire info wid st3 = (Inr rep, st')"
proof -
  obtain wid d1 d2 st3 where "cn_init E d1 = (Inr wid, d2)"
    and "(case clone_apply E wire info wid st3 of (Inl e, st) \<Rightarrow> (Inl e, clear_clone st) | (Inr rep, st) \<Rightarrow> (Inr rep, st)) = (Inr rep, st')"
    using assms unfolding clone_into_def io_bind_ok clone_disk_ok by blast
  with that show thesis
    by (auto split: prod.splits sum.splits)
qed

lemma clone_target_fresh_tree:
  assumes "clone_target_fresh E st = (r, st')"
  shows "dk_tree (cg_disk st') = dk_tree (cg_disk st)"
proof -
  have keep: "read_file p d = (x, d1) \<Longrightarrow> dk_tree d1 = dk_tree d" "read_dir q d = (y, d1) \<Longrightarrow> dk_tree d1 = dk_tree d" for p q d x y d1
    unfolding read_file_def read_dir_def by (erule atomic_cases; auto split: sum.splits node.splits if_splits)+
  obtain r1 d1 where f: "read_file WORKSPACE_JSON (cg_disk st) = (r1, d1)" by fastforce
  obtain r2 d2 where g: "read_dir [] d1 = (r2, d2)" by fastforce
  show ?thesis
    using assms keep(1) [OF f] keep(2) [OF g]
    by (auto simp: clone_target_fresh_def f g split: sum.splits option.splits list.splits)
qed

definition clone_refusals :: "clone_error set" where
  "clone_refusals = {CloneFlavor, CloneSealed, CloneInvalid, CloneForeign, CloneLoad, CloneExists, CloneNotEmpty} \<union> range CloneSnapshot"

lemma no_refusal:
  "clone_fetched E wire st = (Inl e, st') \<Longrightarrow> e \<notin> clone_refusals"
  "clone_tree E wid wire st = (Inl e, st') \<Longrightarrow> e \<notin> clone_refusals"
proof -
  have each: "fetch_each H s d get hs n sc = (Inl e, sc') \<Longrightarrow> e \<notin> clone_refusals" for H s d and get :: "string \<Rightarrow> 'c \<Rightarrow> _" and hs n sc sc'
    by (induction H s d get hs n sc rule: fetch_each.induct) (auto simp: clone_refusals_def split: prod.splits sum.splits if_splits)
  show "clone_fetched E wire st = (Inl e, st') \<Longrightarrow> e \<notin> clone_refusals"
    by (auto simp: clone_fetched_def clone_fetch_def clone_refusals_def Let_def
        split: if_splits prod.splits sum.splits list.splits dest!: each)
  show "clone_tree E wid wire st = (Inl e, st') \<Longrightarrow> e \<notin> clone_refusals"
    by (auto simp: clone_tree_def clone_refusals_def split: prod.splits sum.splits)
qed

lemma io_bind_err:
  "io_bind m f s = (Inl e, s') \<longleftrightarrow> m s = (Inl e, s') \<or> (\<exists>x s1. m s = (Inr x, s1) \<and> f x s1 = (Inl e, s'))"
  by (auto simp: io_bind_def split: prod.splits sum.splits)

lemma clone_disk_err: "clone_disk m err st = (Inl e, st') \<Longrightarrow> e = err"
  by (auto simp: clone_disk_def split: prod.splits sum.splits)

lemma clone_apply_no_refusal: "clone_apply E wire info wid st = (Inl e, st') \<Longrightarrow> e \<notin> clone_refusals"
  unfolding clone_apply_def io_bind_err
  by (elim disjE exE conjE) (auto simp: io_return_def clone_refusals_def dest: no_refusal clone_disk_err)

lemma clone_into_no_refusal: "clone_into E info wire st = (Inl e, st') \<Longrightarrow> e \<notin> clone_refusals"
  unfolding clone_into_def io_bind_err
  by (elim disjE exE conjE)
    (auto simp: io_return_def clone_refusals_def dest: clone_apply_no_refusal clone_disk_err split: option.splits prod.splits sum.splits)

text \<open>A refused clone has touched nothing.\<close>

lemma clone_refused_untouched:
  assumes "clone_inner E i st = (Inl e, st')" "e \<in> clone_refusals"
  shows "dk_tree (cg_disk st') = dk_tree (cg_disk st)"
proof -
  obtain r1 st1 where a: "cg_relay_call CloneSnapshot (cn_get_snapshot E i) st = (r1, st1)" by fastforce
  then have d1: "cg_disk st1 = cg_disk st"
    by (auto simp: cg_relay_call_def split: prod.splits sum.splits)
  show ?thesis
  proof (cases r1)
    case (Inl e1)
    then show ?thesis
      using assms(1) a d1 by (simp add: clone_inner_def io_bind_def)
  next
    case (Inr s)
    show ?thesis
    proof (cases "snapshot_tree E s")
      case (Inl e1)
      then show ?thesis
        using assms(1) a d1 Inr by (simp add: clone_inner_def io_bind_def cg_check_def)
    next
      case tree: (Inr wire)
      obtain r2 st2 where b: "clone_target_fresh E st1 = (r2, st2)" by fastforce
      have d2: "dk_tree (cg_disk st2) = dk_tree (cg_disk st)"
        using clone_target_fresh_tree [OF b] d1 by simp
      show ?thesis
      proof (cases r2)
        case (Inl e1)
        then show ?thesis
          using assms(1) a d2 Inr tree b by (simp add: clone_inner_def io_bind_def cg_check_def)
      next
        case fresh: (Inr u)
        have "clone_into E (sn_info s) wire st2 = (Inl e, st')"
          using assms(1) a Inr tree b fresh by (simp add: clone_inner_def io_bind_def cg_check_def)
        then have "e \<notin> clone_refusals"
          by (rule clone_into_no_refusal)
        then show ?thesis
          using assms(2) by blast
      qed
    qed
  qed
qed

lemma cloned_facts: "manifest_wf m \<Longrightarrow> manifest_wf (cloned wid m)" "canonical m \<Longrightarrow> canonical (cloned wid m)"
proof -
  let ?m = "m\<lparr>mf_workspace_id := wid\<rparr>"
  have "manifest_wf ?m = manifest_wf m" "canonical ?m = canonical m"
    by (simp_all add: manifest_wf_def canonical_def)
  then show "manifest_wf m \<Longrightarrow> manifest_wf (cloned wid m)" "canonical m \<Longrightarrow> canonical (cloned wid m)"
    by (simp_all add: cloned_def mask_modes_wf mask_modes_canonical)
qed

lemma clone_fetched_disk: "clone_fetched E wire st = (r, st') \<Longrightarrow> cg_disk st' = cg_disk st"
  by (auto simp: clone_fetched_def split: if_splits prod.splits)

lemma clone_tree_holds:
  assumes "clone_tree E wid wire st = (Inr r, st')" "sound_source V (chunk_source (pc_prims (cn_codec E)) (cn_digest E) (cn_ring E))"
    and "manifest_wf wire" "canonical wire"
  shows "tree_holds V (cloned wid wire) (cg_disk st')"
    "\<exists>f. file_at (cg_disk st') MANIFEST_JSON = Some f \<and> fn_data f = cn_to_json E (cloned wid wire)"
    "validate (cloned wid wire) = Inr ()"
proof -
  let ?new = "cloned wid wire"
  have run: "apply_commit (cn_lower E) (cn_to_json E) (cn_tmp_name E) (chunk_source (pc_prims (cn_codec E)) (cn_digest E) (cn_ring E))
      (manifest_new wid) ?new ?new (cg_disk st, cg_store st) = (Inr r, (cg_disk st', cg_store st'))"
    using assms(1) by (auto simp: clone_tree_def apply_manifest_def split: prod.splits sum.splits)
  then have val: "validate (manifest_new wid) = Inr ()" "validate ?new = Inr ()"
    by (cases rule: apply_commit_batch; simp)+
  have un: "\<forall>rel e. entry_at (manifest_new wid) rel = Some e \<and> entry_at ?new rel = Some e \<longrightarrow> in_place V e (leaf (cg_disk st) (disk_names rel))"
    by (simp add: manifest_new_def)
  note ok = apply_commit_ok [OF run assms(2) manifest_new_facts(1) cloned_facts(1) [OF assms(3)]
      canonical_inj [OF val manifest_new_facts(2) cloned_facts(2) [OF assms(4)]] un]
  show "tree_holds V ?new (cg_disk st')"
    "\<exists>f. file_at (cg_disk st') MANIFEST_JSON = Some f \<and> fn_data f = cn_to_json E ?new" "validate ?new = Inr ()"
    using ok(1,7) val(2) by blast+
qed

lemma clone_apply_holds:
  assumes "clone_apply E wire info wid st = (Inr rep, st')" "sound_source V (chunk_source (pc_prims (cn_codec E)) (cn_digest E) (cn_ring E))"
    and "manifest_wf wire" "canonical wire"
  shows "cl_workspace rep = wid" "tree_holds V (cloned wid wire) (cg_disk st')"
    "\<exists>f. file_at (cg_disk st') MANIFEST_JSON = Some f \<and> fn_data f = cn_to_json E (cloned wid wire)"
    "\<exists>g. file_at (cg_disk st') ORIGIN_JSON = Some g \<and> fn_data g = cn_origin_json E (clone_origin_of E info)"
proof -
  obtain n st1 r st2 d where a: "clone_fetched E wire st = (Inr n, st1)" "clone_tree E wid wire st1 = (Inr r, st2)"
    "write_file_atomic ORIGIN_JSON (cn_origin_json E (clone_origin_of E info)) (cg_disk st2) = (Inr (), d)"
    "st' = st2\<lparr>cg_disk := d\<rparr>" "cl_workspace rep = wid"
    using assms(1) by (auto simp: clone_apply_def io_bind_ok io_return_def clone_disk_ok)
  note t = clone_tree_holds [OF a(2) assms(2-4)]
  have kept: "leaf d p = leaf (cg_disk st2) p" if "\<not> in_pear p \<or> p = MANIFEST_JSON" for p
    using keepsD [OF write_file_atomic_leaves a(3)] that
    by (auto simp: leaves_except_def ORIGIN_JSON_def MANIFEST_JSON_def in_pear_def with_extension_def)
  show "cl_workspace rep = wid"
    by (rule a(5))
  have "\<not> in_pear (disk_names rel)" if "entry_at (cloned wid wire) rel = Some e" for rel e
    using path_ok_not_in_pear validate_key_ok(1) [OF t(3)] that by blast
  then show "tree_holds V (cloned wid wire) (cg_disk st')"
    using t(1) kept by (auto simp: tree_holds_def a(4))
  show "\<exists>f. file_at (cg_disk st') MANIFEST_JSON = Some f \<and> fn_data f = cn_to_json E (cloned wid wire)"
    using t(2) kept by (simp add: a(4) file_at_leaf)
  show "\<exists>g. file_at (cg_disk st') ORIGIN_JSON = Some g \<and> fn_data g = cn_origin_json E (clone_origin_of E info)"
    using write_file_atomic_cases [OF a(3)] by (auto simp: a(4) ORIGIN_JSON_def with_extension_def)
qed


section \<open>A concrete clone\<close>

definition clone_sample :: manifest where
  "clone_sample = (manifest_new ''w'')\<lparr>mf_files := [(''d/f'', (sample_entry 0)\<lparr>fe_chunks := [], fe_size := 0, fe_mode := 0x9ED\<rparr>)]\<rparr>"

definition clone_pass :: "unit clone_env" where
  "clone_pass = \<lparr>cn_client = client_new ''u'' ''t'' ''w'' ''d'', cn_codec = plain_codec, cn_ring = None,
     cn_digest = (\<lambda>b. if b = ''x'' then sample_hash else ''''), cn_lower = (\<lambda>s. s), cn_to_json = (\<lambda>_. ''j''),
     cn_origin_json = (\<lambda>_. ''o''), cn_meta_parse = (\<lambda>_. None), cn_tmp_name = (\<lambda>_. ''t''), cn_now = 7,
     cn_make_dir = (\<lambda>d. (Inr (), d)), cn_init = (\<lambda>d. (Inr ''w2'', d)), cn_keep_ring = (\<lambda>_ d. (Inr (), d)),
     cn_open_ok = True, cn_sync_ok = (\<lambda>_. True), cn_put_ok = (\<lambda>_. True),
     cn_get_snapshot = (\<lambda>i c. (Inr \<lparr>sn_info = \<lparr>si_id = i, si_name = None, si_kind = ''manual'', si_device = ''d'', si_created_at = 1\<rparr>,
        sn_manifest = clone_sample, sn_manifest_enc = None, sn_e2e = False\<rparr>, c)),
     cn_missing = (\<lambda>_ c. (Inr [], c)), cn_get_chunk = (\<lambda>_ c. (Inr ''x'', c))\<rparr>"

definition clone_run :: "(source_error apply_error, apply_report) result \<times> disk \<times> store" where
  "clone_run = apply_manifest (\<lambda>s. s) (\<lambda>_. ''j'') (\<lambda>_. ''t'') pull_get (manifest_new ''w2'') (cloned ''w2'' clone_sample)
     (blank [], open_store [])"

lemma clone_run_ok: "is_ok (fst clone_run)" "is_ok (fst (write_file_atomic ORIGIN_JSON ''o'' (fst (snd clone_run))))"
  by code_simp+

lemma clone_wire: "is_ok (validate clone_sample)" "wanted_chunks clone_sample = []"
  by code_simp+

lemma clone_source: "chunk_source (pc_prims (cn_codec clone_pass)) (cn_digest clone_pass) (cn_ring clone_pass) = pull_get"
  using pull_get_source by (simp add: clone_pass_def pull_pass_def)

lemma clone_runs:
  obtains rep st' where "clone_inner clone_pass 3 pull_start = (Inr rep, st')"
proof -
  obtain r d s where t: "clone_run = (Inr r, d, s)"
    using clone_run_ok(1) that by (auto simp: is_ok_def prod_eq_iff split: sum.splits)
  obtain d' where w: "write_file_atomic ORIGIN_JSON ''o'' d = (Inr (), d')"
    using clone_run_ok(2) [unfolded t prod.sel] by (cases "write_file_atomic ORIGIN_JSON ''o'' d") (auto simp: is_ok_def split: sum.splits)
  have fields: "cn_open_ok clone_pass" "cn_ring clone_pass = None" "cn_origin_json clone_pass = (\<lambda>_. ''o'')"
      "cn_init clone_pass = (\<lambda>d. (Inr ''w2'', d))" "cn_make_dir clone_pass = (\<lambda>d. (Inr (), d))" "cn_lower clone_pass = (\<lambda>s. s)"
      "cn_to_json clone_pass = (\<lambda>_. ''j'')" "cn_tmp_name clone_pass = (\<lambda>_. ''t'')" "c_workspace (cn_client clone_pass) = ''w''"
      "mf_workspace_id clone_sample = ''w''" "validate clone_sample = Inr ()"
    using clone_wire(1) by (auto simp: clone_pass_def client_new_def clone_sample_def manifest_new_def is_ok_def split: sum.splits)
  have start: "cg_disk pull_start = blank []" "open_store (st_files (cg_store pull_start)) = open_store []" "cg_relay pull_start = ()"
    by (simp_all add: pull_start_def open_deferred_def open_store_def)
  have none: "read_file WORKSPACE_JSON (blank []) = (Inl IoNotFound, blank [])" "read_dir [] (blank []) = (Inr [], blank [])"
    by code_simp+
  have fresh: "clone_target_fresh clone_pass pull_start = (Inr (), pull_start)"
    using none by (simp add: clone_target_fresh_def pull_start_def load_workspace_def read_outcome_of_def)
  have fetched: "clone_fetched clone_pass clone_sample pull_start = (Inr no_fetch, pull_start\<lparr>cg_store := open_store []\<rparr>)"
    by (simp add: clone_fetched_def clone_fetch_def fields start clone_wire(2) Let_def)
  have tree: "clone_tree clone_pass ''w2'' clone_sample (pull_start\<lparr>cg_store := open_store []\<rparr>)
      = (Inr r, pull_start\<lparr>cg_disk := d, cg_store := s\<rparr>)"
    using t by (simp add: clone_tree_def fields clone_source [unfolded fields(2)] start clone_run_def)
  have "\<exists>rep st'. clone_apply clone_pass clone_sample info ''w2'' pull_start = (Inr rep, st')" for info
    by (simp add: clone_apply_def io_bind_def fetched tree clone_disk_def fields w io_return_def)
  then obtain rep st' where ap: "clone_apply clone_pass clone_sample \<lparr>si_id = 3, si_name = None, si_kind = ''manual'', si_device = ''d'',
      si_created_at = 1\<rparr> ''w2'' pull_start = (Inr rep, st')"
    by blast
  have into: "clone_into clone_pass \<lparr>si_id = 3, si_name = None, si_kind = ''manual'', si_device = ''d'', si_created_at = 1\<rparr>
      clone_sample pull_start = (Inr rep, st')"
    by (simp add: clone_into_def io_bind_def clone_disk_def fields io_return_def ap)
  have get: "cg_relay_call CloneSnapshot (cn_get_snapshot clone_pass 3) pull_start
      = (Inr \<lparr>sn_info = \<lparr>si_id = 3, si_name = None, si_kind = ''manual'', si_device = ''d'', si_created_at = 1\<rparr>,
          sn_manifest = clone_sample, sn_manifest_enc = None, sn_e2e = False\<rparr>, pull_start)"
    by (simp add: cg_relay_call_def clone_pass_def)
  have "clone_inner clone_pass 3 pull_start = (Inr rep, st')"
    by (simp add: clone_inner_def io_bind_def get cg_check_def snapshot_tree_def fields fresh into)
  then show thesis
    by (rule that)
qed


end
