(* ===== verification/Watch.thy ===== *)
theory Watch
imports Disk
begin

text \<open>
  The watch loop (\<open>core/src/watch.rs\<close>) as a state machine over its one channel of triggers: the
  debounce of file-system events, external kicks, the drain before a cycle and the retry timer.
  A cycle, the clock and the notifications are moves of the environment.
\<close>

section \<open>Triggers\<close>

text \<open>Milliseconds.\<close>

definition DEBOUNCE :: nat where "DEBOUNCE = 500"
definition MAX_COALESCE :: nat where "MAX_COALESCE = 2000"
definition RETRY_AFTER :: nat where "RETRY_AFTER = 5000"

text \<open>A notification: the paths of an event, or the watcher's error.\<close>

datatype fs_event = FsPaths "fs_path list" | FsError

datatype trigger = FsTrigger fs_event | External

definition path_starts_with :: "fs_path \<Rightarrow> fs_path \<Rightarrow> bool" where
  "path_starts_with p pre \<longleftrightarrow> take (length pre) p = pre"

fun is_pear_only :: "fs_path \<Rightarrow> fs_event \<Rightarrow> bool" where
  "is_pear_only pear (FsPaths ps) = (ps \<noteq> [] \<and> list_all (\<lambda>p. path_starts_with p pear) ps)"
| "is_pear_only pear FsError = False"

text \<open>Whether a trigger asks for a cycle.\<close>

fun wants :: "fs_path \<Rightarrow> trigger \<Rightarrow> bool" where
  "wants pear (FsTrigger ev) = (\<not> is_pear_only pear ev)"
| "wants pear External = True"

section \<open>The loop\<close>

text \<open>How a cycle ends, its error looked through for \<open>StopWatching\<close>.\<close>

datatype 'e cycle_result = CycleOk | CycleStop 'e | CycleFailed

datatype 'e watch_end = SourceGone | Disconnected | Stopped 'e

datatype 'e phase =
    Top                       \<comment> \<open>the head of the loop: is the source still there?\<close>
  | Waiting                   \<comment> \<open>for the first trigger, or the retry timer\<close>
  | Coalescing bool nat       \<comment> \<open>whether a cycle is wanted, and the age of the window\<close>
  | Running                   \<comment> \<open>a cycle\<close>
  | Ended "'e watch_end"

text \<open>
  \<open>wt_cycles\<close> counts the cycles begun and \<open>wt_due\<close> says that a trigger asking for a cycle arrived
  since the last one began: both are for the statements only, the loop never reads them.
\<close>

record 'e watching =
  wt_queue :: "trigger list"
  wt_phase :: "'e phase"
  wt_retry :: bool
  wt_cycles :: nat
  wt_due :: bool

definition watch_start :: "'e watching" where
  "watch_start = \<lparr>wt_queue = [], wt_phase = Running, wt_retry = False, wt_cycles = 1, wt_due = False\<rparr>"

text \<open>What is queued is covered by the cycle that begins: the tree is scanned after this point.\<close>

definition begin_cycle :: "'e watching \<Rightarrow> 'e watching" where
  "begin_cycle s = s\<lparr>wt_queue := [], wt_phase := Running, wt_cycles := Suc (wt_cycles s), wt_due := False\<rparr>"

definition end_window :: "bool \<Rightarrow> 'e watching \<Rightarrow> 'e watching" where
  "end_window wanted s = (if wanted then begin_cycle s else s\<lparr>wt_phase := Top\<rparr>)"

definition first_trigger :: "fs_path \<Rightarrow> trigger \<Rightarrow> 'e watching \<Rightarrow> 'e watching" where
  "first_trigger pear t s =
     (case t of
        FsTrigger ev \<Rightarrow> s\<lparr>wt_phase := Coalescing (\<not> is_pear_only pear ev) 0\<rparr>
      | External \<Rightarrow> begin_cycle s)"

definition next_trigger :: "fs_path \<Rightarrow> trigger \<Rightarrow> bool \<Rightarrow> nat \<Rightarrow> 'e watching \<Rightarrow> 'e watching" where
  "next_trigger pear t wanted age s =
     (let wanted = (case t of FsTrigger ev \<Rightarrow> wanted \<or> \<not> is_pear_only pear ev | External \<Rightarrow> True)
      in if MAX_COALESCE \<le> age then end_window wanted s else s\<lparr>wt_phase := Coalescing wanted age\<rparr>)"

text \<open>The moves: a trigger arrives; the source is looked at; a trigger is received after some
  milliseconds; the wait for one runs out; the senders are gone; the cycle ends.\<close>

datatype 'e move =
    Arrive trigger
  | Look bool
  | Take nat
  | TimesOut
  | Hangup
  | CycleEnds "'e cycle_result"

fun watch_step :: "fs_path \<Rightarrow> 'e move \<Rightarrow> 'e watching \<Rightarrow> 'e watching option" where
  "watch_step pear (Arrive t) s =
     (case wt_phase s of
        Ended _ \<Rightarrow> None
      | _ \<Rightarrow> Some (s\<lparr>wt_queue := wt_queue s @ [t], wt_due := wt_due s \<or> wants pear t\<rparr>))"
| "watch_step pear (Look there) s =
     (case wt_phase s of
        Top \<Rightarrow> Some (s\<lparr>wt_phase := (if there then Waiting else Ended SourceGone)\<rparr>)
      | _ \<Rightarrow> None)"
| "watch_step pear (Take ms) s =
     (case wt_queue s of
        [] \<Rightarrow> None
      | t # q \<Rightarrow>
          (case wt_phase s of
             Waiting \<Rightarrow> (if wt_retry s \<and> RETRY_AFTER < ms then None else Some (first_trigger pear t (s\<lparr>wt_queue := q\<rparr>)))
           | Coalescing wanted age \<Rightarrow>
               (if DEBOUNCE < ms then None else Some (next_trigger pear t wanted (age + ms) (s\<lparr>wt_queue := q\<rparr>)))
           | _ \<Rightarrow> None))"
| "watch_step pear TimesOut s =
     (if wt_queue s \<noteq> [] then None
      else
        (case wt_phase s of
           Waiting \<Rightarrow> (if wt_retry s then Some (begin_cycle s) else None)
         | Coalescing wanted _ \<Rightarrow> Some (end_window wanted s)
         | _ \<Rightarrow> None))"
| "watch_step pear Hangup s =
     (if wt_queue s \<noteq> [] then None
      else
        (case wt_phase s of
           Waiting \<Rightarrow> Some (s\<lparr>wt_phase := Ended Disconnected\<rparr>)
         | Coalescing _ _ \<Rightarrow> Some (s\<lparr>wt_phase := Ended Disconnected\<rparr>)
         | _ \<Rightarrow> None))"
| "watch_step pear (CycleEnds r) s =
     (case wt_phase s of
        Running \<Rightarrow>
          Some (case r of
                  CycleOk \<Rightarrow> s\<lparr>wt_phase := Top, wt_retry := False\<rparr>
                | CycleStop e \<Rightarrow> s\<lparr>wt_phase := Ended (Stopped e)\<rparr>
                | CycleFailed \<Rightarrow> s\<lparr>wt_phase := Top, wt_retry := True\<rparr>)
      | _ \<Rightarrow> None)"

inductive watch_run :: "fs_path \<Rightarrow> 'e watching \<Rightarrow> 'e watching \<Rightarrow> bool" for pear where
  run_none: "watch_run pear s s"
| run_move: "watch_run pear s s' \<Longrightarrow> watch_step pear m s' = Some s'' \<Longrightarrow> watch_run pear s s''"

abbreviation watch_reached :: "fs_path \<Rightarrow> 'e watching \<Rightarrow> bool" where
  "watch_reached pear \<equiv> watch_run pear watch_start"

lemma watch_run_trans: "watch_run pear s' s'' \<Longrightarrow> watch_run pear s s' \<Longrightarrow> watch_run pear s s''"
  by (induction rule: watch_run.induct) (auto intro: run_move)

lemma watch_run_one: "watch_step pear m s = Some s' \<Longrightarrow> watch_run pear s s'"
  by (rule run_move [OF run_none])

section \<open>No trigger is lost\<close>

text \<open>A cycle is due exactly as long as something in the queue or in the window asks for it.\<close>

definition asked :: "fs_path \<Rightarrow> 'e watching \<Rightarrow> bool" where
  "asked pear s \<longleftrightarrow> list_ex (wants pear) (wt_queue s) \<or> (\<exists>age. wt_phase s = Coalescing True age)"

definition watch_inv :: "fs_path \<Rightarrow> 'e watching \<Rightarrow> bool" where
  "watch_inv pear s \<longleftrightarrow>
     ((\<forall>e. wt_phase s \<noteq> Ended e) \<longrightarrow> (wt_due s \<longleftrightarrow> asked pear s))
     \<and> (\<forall>wanted age. wt_phase s = Coalescing wanted age \<longrightarrow> age < MAX_COALESCE)
     \<and> 1 \<le> wt_cycles s"

lemma watch_inv_start: "watch_inv pear watch_start"
  by (simp add: watch_inv_def watch_start_def asked_def)

lemma watch_inv_step: "watch_inv pear s \<Longrightarrow> watch_step pear m s = Some s' \<Longrightarrow> watch_inv pear s'"
  by (cases m)
    (auto simp: watch_inv_def asked_def begin_cycle_def end_window_def first_trigger_def next_trigger_def Let_def MAX_COALESCE_def
      split: phase.splits list.splits if_splits trigger.splits cycle_result.splits)

lemma watch_inv_reached: "watch_reached pear s \<Longrightarrow> watch_inv pear s"
proof (induction "watch_start :: 'a watching" s rule: watch_run.induct)
  case run_none
  then show ?case by (rule watch_inv_start)
next
  case (run_move s' m s'')
  then show ?case using watch_inv_step by blast
qed

section \<open>Every trigger gets its cycle\<close>

fun phase_rank :: "'e phase \<Rightarrow> nat" where
  "phase_rank (Coalescing _ _) = 3"
| "phase_rank Top = 2"
| "phase_rank Waiting = 1"
| "phase_rank Running = 0"
| "phase_rank (Ended _) = 0"

text \<open>
  The loop left to itself: the source stays, nothing more arrives, and every wait for a trigger
  that is not there runs out.  It comes to rest in a cycle or waiting on an empty queue.
\<close>

function watch_settle :: "fs_path \<Rightarrow> 'e watching \<Rightarrow> 'e watching" where
  "watch_settle pear s =
     (case wt_phase s of
        Top \<Rightarrow> watch_settle pear (s\<lparr>wt_phase := Waiting\<rparr>)
      | Waiting \<Rightarrow>
          (case wt_queue s of
             [] \<Rightarrow> if wt_retry s then begin_cycle s else s
           | t # q \<Rightarrow> watch_settle pear (first_trigger pear t (s\<lparr>wt_queue := q\<rparr>)))
      | Coalescing wanted age \<Rightarrow>
          (case wt_queue s of
             [] \<Rightarrow> watch_settle pear (end_window wanted s)
           | t # q \<Rightarrow> watch_settle pear (next_trigger pear t wanted age (s\<lparr>wt_queue := q\<rparr>)))
      | _ \<Rightarrow> s)"
  by pat_completeness auto

termination
  by (relation "measures [\<lambda>(pear, s). length (wt_queue s), \<lambda>(pear, s). phase_rank (wt_phase s)]")
    (auto simp: first_trigger_def next_trigger_def end_window_def begin_cycle_def Let_def split: trigger.splits)

declare watch_settle.simps [simp del]

lemma settle_moves: "watch_run pear s (watch_settle pear s)"
proof (induction pear s rule: watch_settle.induct)
  case (1 pear s)
  show ?case
  proof (cases "wt_phase s")
    case Top
    then have "watch_run pear s (s\<lparr>wt_phase := Waiting\<rparr>)"
      by (intro watch_run_one [where m = "Look True"]) simp
    then show ?thesis
      using 1(1) [OF Top] watch_run_trans Top by (subst watch_settle.simps) auto
  next
    case Waiting
    show ?thesis
    proof (cases "wt_queue s")
      case Nil
      then have "wt_retry s \<Longrightarrow> watch_run pear s (begin_cycle s)"
        using Waiting by (intro watch_run_one [where m = TimesOut]) simp
      then show ?thesis
        using Waiting Nil by (subst watch_settle.simps) (auto intro: run_none)
    next
      case (Cons t q)
      then have "watch_run pear s (first_trigger pear t (s\<lparr>wt_queue := q\<rparr>))"
        using Waiting by (intro watch_run_one [where m = "Take 0"]) simp
      then show ?thesis
        using 1(2) [OF Waiting Cons] watch_run_trans Waiting Cons by (subst watch_settle.simps) auto
    qed
  next
    case (Coalescing wanted age)
    show ?thesis
    proof (cases "wt_queue s")
      case Nil
      then have "watch_run pear s (end_window wanted s)"
        using Coalescing by (intro watch_run_one [where m = TimesOut]) simp
      then show ?thesis
        using 1(3) [OF Coalescing Nil] watch_run_trans Coalescing Nil by (subst watch_settle.simps) auto
    next
      case (Cons t q)
      then have "watch_run pear s (next_trigger pear t wanted age (s\<lparr>wt_queue := q\<rparr>))"
        using Coalescing by (intro watch_run_one [where m = "Take 0"]) simp
      then show ?thesis
        using 1(4) [OF Coalescing Cons] watch_run_trans Coalescing Cons by (subst watch_settle.simps) auto
    qed
  qed (subst watch_settle.simps; simp add: run_none)+
qed

text \<open>Whether a cycle comes is decided by what is asked and by the retry flag, and it is one.\<close>

definition settled_as :: "'e watching \<Rightarrow> 'e watching \<Rightarrow> bool \<Rightarrow> bool" where
  "settled_as s s' due \<longleftrightarrow>
     (if wt_phase s = Running \<or> (\<exists>e. wt_phase s = Ended e) then s' = s
      else wt_queue s' = [] \<and> wt_retry s' = wt_retry s
        \<and> (if due then wt_phase s' = Running \<and> wt_cycles s' = Suc (wt_cycles s)
           else wt_phase s' = Waiting \<and> wt_cycles s' = wt_cycles s))"

lemma settle_result: "settled_as s (watch_settle pear s) (asked pear s \<or> wt_retry s)"
proof (induction pear s rule: watch_settle.induct)
  case (1 pear s)
  show ?case
  proof (cases "wt_phase s")
    case Top
    then show ?thesis
      using 1(1) [OF Top] by (subst watch_settle.simps) (simp add: settled_as_def asked_def)
  next
    case Waiting
    show ?thesis
    proof (cases "wt_queue s")
      case Nil
      then show ?thesis
        using Waiting by (subst watch_settle.simps) (simp add: settled_as_def asked_def begin_cycle_def)
    next
      case (Cons t q)
      show ?thesis
        using 1(2) [OF Waiting Cons] Waiting Cons
        by (subst watch_settle.simps)
          (cases t; auto simp: settled_as_def asked_def first_trigger_def begin_cycle_def watch_settle.simps split: if_splits)
    qed
  next
    case (Coalescing wanted age)
    show ?thesis
    proof (cases "wt_queue s")
      case Nil
      then show ?thesis
        using 1(3) [OF Coalescing Nil] Coalescing
        by (subst watch_settle.simps)
          (auto simp: settled_as_def asked_def end_window_def begin_cycle_def watch_settle.simps split: if_splits)
    next
      case (Cons t q)
      show ?thesis
        using 1(4) [OF Coalescing Cons] Coalescing Cons
        by (subst watch_settle.simps)
          (cases t; auto simp: settled_as_def asked_def next_trigger_def end_window_def begin_cycle_def watch_settle.simps Let_def split: if_splits)
    qed
  qed (subst watch_settle.simps; simp add: settled_as_def)+
qed

text \<open>C34: Once the watch loop is left alone, every trigger that asked for a cycle, whenever it arrived, and
  every failed cycle is answered by exactly one cycle, however many triggers were queued; with
  neither, no cycle runs and the loop waits on an empty queue.
\<close>

theorem every_trigger_gets_its_cycle:
  assumes "watch_reached pear s" "wt_phase s \<noteq> Running" "\<forall>e. wt_phase s \<noteq> Ended e"
  shows "watch_run pear s (watch_settle pear s) \<and> wt_queue (watch_settle pear s) = []
    \<and> (if wt_due s \<or> wt_retry s then wt_phase (watch_settle pear s) = Running \<and> wt_cycles (watch_settle pear s) = Suc (wt_cycles s)
       else wt_phase (watch_settle pear s) = Waiting \<and> wt_cycles (watch_settle pear s) = wt_cycles s)"
proof -
  have "wt_due s \<longleftrightarrow> asked pear s"
    using watch_inv_reached [OF assms(1)] assms(3) by (simp add: watch_inv_def)
  then show ?thesis
    using settle_result [of s pear] settle_moves [of pear s] assms(2,3) by (simp add: settled_as_def)
qed

section \<open>Activity cannot starve a cycle\<close>

fun watch_moves :: "fs_path \<Rightarrow> 'e move list \<Rightarrow> 'e watching \<Rightarrow> 'e watching option" where
  "watch_moves pear [] s = Some s"
| "watch_moves pear (m # ms) s =
     (case watch_step pear m s of None \<Rightarrow> None | Some s' \<Rightarrow> watch_moves pear ms s')"

fun took :: "'e move \<Rightarrow> nat" where
  "took (Take ms) = ms"
| "took _ = 0"

definition fs_activity :: "'e move \<Rightarrow> bool" where
  "fs_activity m \<longleftrightarrow> (\<exists>t. m = Arrive t) \<or> (\<exists>ms. m = Take ms)"

lemma watch_moves_run: "watch_moves pear ms s = Some s' \<Longrightarrow> watch_run pear s s'"
proof (induction ms arbitrary: s)
  case Nil
  then show ?case by (simp add: run_none)
next
  case (Cons m ms)
  then show ?case
    using watch_run_trans watch_run_one by (fastforce split: option.splits)
qed

lemma activity_cycles:
  "watch_moves pear ms s = Some s' \<Longrightarrow> \<forall>m\<in>set ms. fs_activity m \<Longrightarrow> wt_phase s = Running \<Longrightarrow> wt_cycles s' = wt_cycles s"
proof (induction ms arbitrary: s)
  case (Cons m ms)
  then obtain t where "m = Arrive t"
    by (auto simp: fs_activity_def split: option.splits list.splits)
  then show ?case
    using Cons by (auto split: option.splits)
qed simp

lemma window_closes:
  "watch_moves pear ms s = Some s' \<Longrightarrow> \<forall>m\<in>set ms. fs_activity m \<Longrightarrow> wt_phase s = Coalescing True age
     \<Longrightarrow> age < MAX_COALESCE \<Longrightarrow> MAX_COALESCE \<le> age + sum_list (map took ms) \<Longrightarrow> wt_cycles s' = Suc (wt_cycles s)"
proof (induction ms arbitrary: s age)
  case (Cons m ms)
  from Cons.prems(2) consider t where "m = Arrive t" | k where "m = Take k"
    by (auto simp: fs_activity_def)
  then show ?case
  proof cases
    case 1
    then show ?thesis
      using Cons.prems Cons.IH by (fastforce split: option.splits)
  next
    case (2 k)
    obtain t q where q: "wt_queue s = t # q"
      using Cons.prems(1,3) 2 by (auto split: list.splits option.splits)
    let ?s = "next_trigger pear t True (age + k) (s\<lparr>wt_queue := q\<rparr>)"
    have rest: "watch_moves pear ms ?s = Some s'"
      using Cons.prems(1,3) 2 q by (simp split: if_splits)
    show ?thesis
    proof (cases "MAX_COALESCE \<le> age + k")
      case True
      then have "wt_phase ?s = Running" "wt_cycles ?s = Suc (wt_cycles s)"
        by (cases t; simp add: next_trigger_def end_window_def begin_cycle_def)+
      then show ?thesis
        using activity_cycles [OF rest] Cons.prems(2) by simp
    next
      case False
      then have "wt_phase ?s = Coalescing True (age + k)" "wt_cycles ?s = wt_cycles s"
        by (cases t; simp add: next_trigger_def)+
      then show ?thesis
        using Cons.IH [OF rest] Cons.prems(2,5) False 2 by simp
    qed
  qed
qed simp

text \<open>Sustained file-system activity cannot starve convergence: however triggers keep arriving, once
  the window of a wanted cycle has been open for two seconds the cycle has begun, and one only.
\<close>

theorem activity_cannot_starve:
  assumes "watch_reached pear s" "wt_phase s = Coalescing True age" "watch_moves pear ms s = Some s'"
    and "\<forall>m\<in>set ms. fs_activity m" "MAX_COALESCE \<le> age + sum_list (map took ms)"
  shows "wt_cycles s' = Suc (wt_cycles s)"
proof -
  have "age < MAX_COALESCE"
    using watch_inv_reached [OF assms(1)] assms(2) unfolding watch_inv_def by blast
  then show ?thesis
    by (rule window_closes [OF assms(3,4,2) _ assms(5)])
qed

section \<open>Concrete runs\<close>

definition busy :: "unit watching" where
  "busy = the (watch_moves [''.pear''] [CycleEnds CycleOk, Look True, Arrive (FsTrigger (FsPaths [[''a'']])), Take 0] watch_start)"

lemma busy_value: "busy = \<lparr>wt_queue = [], wt_phase = Coalescing True 0, wt_retry = False, wt_cycles = 1, wt_due = True\<rparr>"
  by code_simp

lemma busy_reached: "watch_reached [''.pear''] busy"
proof -
  have "watch_moves [''.pear''] [CycleEnds CycleOk, Look True, Arrive (FsTrigger (FsPaths [[''a'']])), Take 0] watch_start = Some busy"
    unfolding busy_value by code_simp
  then show ?thesis
    by (rule watch_moves_run)
qed

lemma every_trigger_gets_its_cycle_witness: "wt_cycles (watch_settle [''.pear''] busy) = 2"
  using every_trigger_gets_its_cycle [OF busy_reached] by (simp add: busy_value)

lemma activity_cannot_starve_witness:
  "\<exists>s'. watch_moves [''.pear''] (concat (replicate 4 [Arrive External, Take 500])) busy = Some s' \<and> wt_cycles s' = 2"
proof -
  have "watch_moves [''.pear''] (concat (replicate 4 [Arrive External, Take 500])) busy \<noteq> None"
    unfolding busy_value by code_simp
  then obtain s' where s': "watch_moves [''.pear''] (concat (replicate 4 [Arrive External, Take 500])) busy = Some s'"
    by blast
  from activity_cannot_starve [OF busy_reached _ this, of 0] have "wt_cycles s' = 2"
    by (simp add: busy_value numeral_eq_Suc fs_activity_def MAX_COALESCE_def)
  then show ?thesis
    using s' by blast
qed

end
