(* ===== verification/Sync_Cycle.thy ===== *)
theory Sync_Cycle
imports Pull Watch
begin

text \<open>
  The one-machine cycle between two directories (\<open>sync_cycle\<close> of \<open>core/src/sync.rs\<close>): the containment
  check, the scan with its chunks put into the store of the target, the group flush, the apply, both
  manifests and the sweep.
\<close>

section \<open>The two directories\<close>

text \<open>
  A path that may not exist yet: its nearest existing ancestor is resolved and the rest appended; a
  missing last component \<open>..\<close> has no name to append.
\<close>

function canonicalize_lenient :: "(fs_path \<Rightarrow> (io_error, fs_path) result) \<Rightarrow> fs_path \<Rightarrow> (io_error, fs_path) result" where
  "canonicalize_lenient resolve p =
     (case resolve p of
        Inr base \<Rightarrow> Inr base
      | Inl e \<Rightarrow>
          if e = IoNotFound \<and> p \<noteq> [] \<and> last p \<noteq> ''..'' then
            rbind (canonicalize_lenient resolve (butlast p)) (\<lambda>base. Inr (base @ [last p]))
          else Inl e)"
  by pat_completeness auto

termination
  by (relation "measure (\<lambda>(resolve, p). length p)") auto

declare canonicalize_lenient.simps [simp del]

definition contained :: "fs_path \<Rightarrow> fs_path \<Rightarrow> bool" where
  "contained source target \<longleftrightarrow> source = target \<or> path_starts_with target source \<or> path_starts_with source target"

text \<open>Paths are resolved by the file system the two directories are on; the source is scanned by the walker.\<close>

record cycle_env =
  sy_is_dir :: bool
  sy_source :: "fs_path option"
  sy_resolve :: "fs_path \<Rightarrow> (io_error, fs_path) result"
  sy_target :: "fs_path option"                  \<comment> \<open>absolute\<close>
  sy_make_ok :: bool
  sy_open_ok :: bool
  sy_started_at :: int
  sy_workspace :: "(workspace_error, string) result"
  sy_scanned :: "(scan_error, scan_outcome) result"
  sy_cutter :: "string \<Rightarrow> bytes option list option"
  sy_digest :: "bytes \<Rightarrow> string"
  sy_sync_ok :: "string \<Rightarrow> bool"
  sy_put_ok :: bool
  sy_lower :: "string \<Rightarrow> string"
  sy_to_json :: "manifest \<Rightarrow> bytes"
  sy_from_json :: "bytes \<Rightarrow> manifest option"
  sy_tmp_name :: "string \<Rightarrow> string"

record syncing =
  sg_source :: disk
  sg_target :: disk
  sg_direct :: direct

record cycle_report =
  yr_written :: "string list"
  yr_deleted :: "string list"
  yr_uploaded :: nat
  yr_bytes :: nat

datatype cycle_error =
    SyncNotDir | SyncCanonicalize | SyncContained | SyncCreate | SyncStore
  | SyncBuild "(store_error, direct_error) build_error" | SyncFlush | SyncLoad | SyncApply "store_error apply_error" | SyncRecord

section \<open>The cycle\<close>

definition sync_paths :: "cycle_env \<Rightarrow> (cycle_error, unit) result" where
  "sync_paths E =
     (if \<not> sy_is_dir E then Inl SyncNotDir
      else
        (case sy_source E of
           None \<Rightarrow> Inl SyncCanonicalize
         | Some source \<Rightarrow>
             (case sy_target E of
                None \<Rightarrow> Inl SyncCanonicalize
              | Some path \<Rightarrow>
                  (case canonicalize_lenient (sy_resolve E) path of
                     Inl _ \<Rightarrow> Inl SyncCanonicalize
                   | Inr target \<Rightarrow> if contained source target then Inl SyncContained
                                   else if sy_make_ok E then Inr () else Inl SyncCreate))))"

definition load_disk :: "cycle_env \<Rightarrow> disk \<Rightarrow> (load_error, manifest option) result \<times> disk" where
  "load_disk E d = (case read_file MANIFEST_JSON d of (r, d) \<Rightarrow> (load (sy_from_json E) (read_outcome_of r), d))"

definition direct_start :: "store \<Rightarrow> direct" where
  "direct_start st = \<lparr>dr_seen = {}, dr_uploaded = 0, dr_bytes = 0, dr_store = open_deferred (st_files st)\<rparr>"

definition sync_build :: "cycle_env \<Rightarrow> syncing \<Rightarrow> (cycle_error, scan_built) result \<times> syncing" where
  "sync_build E st =
     (if \<not> sy_open_ok E then (Inl SyncStore, st)
      else
        (case load_disk E (sg_source st) of
           (loaded, source) \<Rightarrow>
             (case scan_build_manifest (sy_started_at E) (sy_workspace E) loaded (sy_scanned E) False direct_has_many
                     (direct_upload (sy_digest E) (sy_sync_ok E) (sy_put_ok E) (sy_cutter E)) (direct_start (dr_store (sg_direct st))) of
                (Inl e, d) \<Rightarrow> (Inl (SyncBuild e), st\<lparr>sg_source := source, sg_direct := d\<rparr>)
              | (Inr b, d) \<Rightarrow> (Inr b, st\<lparr>sg_source := source, sg_direct := d\<rparr>))))"

definition sync_flush :: "cycle_env \<Rightarrow> syncing \<Rightarrow> (cycle_error, unit) result \<times> syncing" where
  "sync_flush E st =
     (case store_flush (sy_sync_ok E) (dr_store (sg_direct st)) of
        (Inl _, store) \<Rightarrow> (Inl SyncFlush, st\<lparr>sg_direct := (sg_direct st)\<lparr>dr_store := store\<rparr>\<rparr>)
      | (Inr _, store) \<Rightarrow> (Inr (), st\<lparr>sg_direct := (sg_direct st)\<lparr>dr_store := store\<rparr>\<rparr>))"

text \<open>The target records what it can have on disk, the source what it has.\<close>

definition sync_apply :: "cycle_env \<Rightarrow> scan_built \<Rightarrow> syncing \<Rightarrow> (cycle_error, apply_report) result \<times> syncing" where
  "sync_apply E b st =
     (case load_disk E (sg_target st) of
        (Inl _, d) \<Rightarrow> (Inl SyncLoad, st\<lparr>sg_target := d\<rparr>)
      | (Inr stored, d) \<Rightarrow>
          (case apply_manifest (sy_lower E) (sy_to_json E) (sy_tmp_name E) (store_get (sy_digest E))
                  (case stored of Some m \<Rightarrow> m | None \<Rightarrow> manifest_new (mf_workspace_id (sb_new b))) (mask_modes (sb_new b))
                  (d, dr_store (sg_direct st)) of
             (Inl e, d, store) \<Rightarrow> (Inl (SyncApply e), st\<lparr>sg_target := d, sg_direct := (sg_direct st)\<lparr>dr_store := store\<rparr>\<rparr>)
           | (Inr r, d, store) \<Rightarrow> (Inr r, st\<lparr>sg_target := d, sg_direct := (sg_direct st)\<lparr>dr_store := store\<rparr>\<rparr>)))"

definition sync_record :: "cycle_env \<Rightarrow> scan_built \<Rightarrow> syncing \<Rightarrow> (cycle_error, unit) result \<times> syncing" where
  "sync_record E b st =
     (case write_file_atomic MANIFEST_JSON (sy_to_json E (sb_new b)) (sg_source st) of
        (Inl _, d) \<Rightarrow> (Inl SyncRecord, st\<lparr>sg_source := d\<rparr>)
      | (Inr _, d) \<Rightarrow> (Inr (), st\<lparr>sg_source := d\<rparr>))"

definition sync_sweep :: "scan_built \<Rightarrow> apply_report \<Rightarrow> syncing \<Rightarrow> (cycle_error, unit) result \<times> syncing" where
  "sync_sweep b r st =
     (Inr (),
      if ar_written r \<noteq> [] \<or> ar_deleted r \<noteq> [] \<or> 0 < dr_uploaded (sg_direct st)
      then st\<lparr>sg_direct := (sg_direct st)\<lparr>dr_store :=
             snd (sweep_unreferenced (manifest_chunks (mask_modes (sb_new b))) (dr_store (sg_direct st)))\<rparr>\<rparr>
      else st)"

definition cycle_done :: "apply_report \<Rightarrow> syncing \<Rightarrow> (cycle_error, cycle_report) result \<times> syncing" where
  "cycle_done r st =
     (Inr \<lparr>yr_written = ar_written r, yr_deleted = ar_deleted r,
           yr_uploaded = dr_uploaded (sg_direct st), yr_bytes = dr_bytes (sg_direct st)\<rparr>, st)"

definition sync_cycle :: "cycle_env \<Rightarrow> syncing \<Rightarrow> (cycle_error, cycle_report) result \<times> syncing" where
  "sync_cycle E =
     io_bind (cg_check (sync_paths E)) (\<lambda>_.
     io_bind (sync_build E) (\<lambda>b.
     io_bind (sync_flush E) (\<lambda>_.
     io_bind (sync_apply E b) (\<lambda>r.
     io_bind (sync_record E b) (\<lambda>_.
     io_bind (sync_sweep b r) (\<lambda>_.
     cycle_done r))))))"

section \<open>Containment\<close>

lemma canonicalize_lenient_ok:
  "canonicalize_lenient resolve p = Inr q \<Longrightarrow> \<exists>n base. n \<le> length p \<and> resolve (take n p) = Inr base \<and> q = base @ drop n p"
proof (induction resolve p arbitrary: q rule: canonicalize_lenient.induct)
  case (1 resolve p)
  show ?case
  proof (cases "resolve p")
    case (Inr base)
    then show ?thesis
      using "1.prems" by (intro exI [of _ "length p"]) (simp add: canonicalize_lenient.simps [of resolve p])
  next
    case (Inl e)
    then have c: "e = IoNotFound \<and> p \<noteq> [] \<and> last p \<noteq> ''..''"
      using "1.prems" by (auto simp: canonicalize_lenient.simps [of resolve p] split: if_splits)
    then obtain b where b: "canonicalize_lenient resolve (butlast p) = Inr b" "q = b @ [last p]"
      using "1.prems" Inl by (auto simp: canonicalize_lenient.simps [of resolve p] rbind_def split: sum.splits)
    obtain n base where n: "n \<le> length (butlast p)" "resolve (take n (butlast p)) = Inr base" "b = base @ drop n (butlast p)"
      using "1.IH" [OF Inl c b(1)] by blast
    obtain ys y where p: "p = ys @ [y]"
      using c by (metis rev_exhaust)
    show ?thesis
      using n b(2) by (intro exI [of _ n]) (auto simp: p)
  qed
qed

text \<open>A refused cycle has touched neither directory.\<close>

lemma refused_cycle_untouched: "sync_paths E = Inl e \<Longrightarrow> sync_cycle E st = (Inl e, st)"
  by (simp add: sync_cycle_def io_bind_def cg_check_def)

section \<open>The target holds the scan\<close>

lemma load_disk_leaf: "load_disk E d = (r, d') \<Longrightarrow> leaf d' p = leaf d p"
  by (auto simp: load_disk_def split: prod.splits dest: read_file_leaf)

lemma load_disk_ok:
  assumes "load_disk E d = (Inr (Some m), d')"
  shows "\<exists>f. file_at d MANIFEST_JSON = Some f \<and> sy_from_json E (fn_data f) = Some m"
proof -
  obtain r d1 where r: "read_file MANIFEST_JSON d = (r, d1)" by fastforce
  then have "load (sy_from_json E) (read_outcome_of r) = Inr (Some m)"
    using assms by (simp add: load_disk_def)
  then obtain f where "r = Inr f" "sy_from_json E (fn_data f) = Some m"
    by (auto simp: load_def read_outcome_of_def split: sum.splits io_error.splits option.splits)
  then show ?thesis
    using read_file_ok r by blast
qed

lemma sync_build_ok:
  assumes "sync_build E st = (Inr b, st')"
  shows "manifest_wf (sb_new b)" "sg_target st' = sg_target st"
    "\<exists>loaded d d'. scan_build_manifest (sy_started_at E) (sy_workspace E) loaded (sy_scanned E) False direct_has_many
       (direct_upload (sy_digest E) (sy_sync_ok E) (sy_put_ok E) (sy_cutter E)) d = (Inr b, d')"
proof -
  obtain loaded src d where s: "scan_build_manifest (sy_started_at E) (sy_workspace E) loaded (sy_scanned E) False direct_has_many
       (direct_upload (sy_digest E) (sy_sync_ok E) (sy_put_ok E) (sy_cutter E)) (direct_start (dr_store (sg_direct st))) = (Inr b, d)"
    "st' = st\<lparr>sg_source := src, sg_direct := d\<rparr>"
    using assms by (auto simp: sync_build_def split: if_splits prod.splits sum.splits)
  then show "manifest_wf (sb_new b)" "sg_target st' = sg_target st"
    "\<exists>loaded d d'. scan_build_manifest (sy_started_at E) (sy_workspace E) loaded (sy_scanned E) False direct_has_many
       (direct_upload (sy_digest E) (sy_sync_ok E) (sy_put_ok E) (sy_cutter E)) d = (Inr b, d')"
    using built_manifest_wf by auto
qed

lemma sync_apply_ok:
  assumes run: "sync_apply E b st = (Inr r, st')" and V: "sound_source V (store_get (sy_digest E))"
    and rec: "mirror_recorded V (sy_from_json E) (sg_target st)" and new: "manifest_wf (sb_new b)" "canonical (sb_new b)"
  shows "tree_holds V (mask_modes (sb_new b)) (sg_target st')"
    "\<exists>f. file_at (sg_target st') MANIFEST_JSON = Some f \<and> fn_data f = sy_to_json E (mask_modes (sb_new b))"
    "sg_source st' = sg_source st"
proof -
  let ?new = "mask_modes (sb_new b)"
  obtain stored d where l: "load_disk E (sg_target st) = (Inr stored, d)"
    using run by (cases "load_disk E (sg_target st)") (auto simp: sync_apply_def split: sum.splits)
  define old where "old = (case stored of Some m \<Rightarrow> m | None \<Rightarrow> manifest_new (mf_workspace_id (sb_new b)))"
  have run': "apply_commit (sy_lower E) (sy_to_json E) (sy_tmp_name E) (store_get (sy_digest E)) old ?new ?new (d, dr_store (sg_direct st))
      = (Inr r, (sg_target st', dr_store (sg_direct st')))" and src: "sg_source st' = sg_source st"
    using run by (auto simp: sync_apply_def l old_def apply_manifest_def split: prod.splits sum.splits)
  have val: "validate old = Inr ()" "validate ?new = Inr ()"
    using run' by (cases rule: apply_commit_batch; simp)+
  have good: "manifest_wf ?new" "canonical ?new"
    using new by (simp_all add: mask_modes_wf mask_modes_canonical)
  have old: "manifest_wf old" "canonical old" "tree_holds V old d"
    using rec load_disk_ok [of E "sg_target st"] l load_disk_leaf [OF l] manifest_new_facts
    by (auto simp: old_def mirror_recorded_def tree_holds_def split: option.splits)
  have un: "\<forall>rel e. entry_at old rel = Some e \<and> entry_at ?new rel = Some e \<longrightarrow> in_place V e (leaf d (disk_names rel))"
    using old(3) by (simp add: tree_holds_def)
  note ok = apply_commit_ok [OF run' V old(1) good(1) canonical_inj [OF val old(2) good(2)] un]
  show "tree_holds V ?new (sg_target st')"
    "\<exists>f. file_at (sg_target st') MANIFEST_JSON = Some f \<and> fn_data f = sy_to_json E ?new" "sg_source st' = sg_source st"
    using ok(1,7) src by blast+
qed


section \<open>A concrete cycle\<close>

definition cycle_file :: scanned_file where
  "cycle_file = \<lparr>sf_rel_path = ''d/f'', sf_size = 0, sf_mode = 0x9ED, sf_mtime_secs = 1, sf_mtime_nanos = 0\<rparr>"

definition cycle_manifest :: manifest where
  "cycle_manifest = \<lparr>mf_version = FORMAT_VERSION, mf_workspace_id = ''w'', mf_scanned_at_secs = 9,
     mf_files = [(''d/f'', entry_of cycle_file [])]\<rparr>"

definition cycle_scan :: scan_outcome where
  "cycle_scan = \<lparr>so_files = [cycle_file], so_unreadable = [], so_unreadable_ignored = [], so_skipped = [], so_excluded = []\<rparr>"

definition cycle_sample :: cycle_env where
  "cycle_sample = \<lparr>sy_is_dir = True, sy_source = Some [''a''], sy_resolve = (\<lambda>p. if p = [] then Inr [] else Inl IoNotFound),
     sy_target = Some [''b''], sy_make_ok = True, sy_open_ok = True, sy_started_at = 9, sy_workspace = Inr ''w'',
     sy_scanned = Inr cycle_scan, sy_cutter = (\<lambda>_. Some []), sy_digest = (\<lambda>_. ''h''), sy_sync_ok = (\<lambda>_. True), sy_put_ok = True,
     sy_lower = (\<lambda>s. s), sy_to_json = (\<lambda>m. if m = mask_modes cycle_manifest then ''j'' else ''s''),
     sy_from_json = (\<lambda>b. if b = ''j'' then Some (mask_modes cycle_manifest) else None), sy_tmp_name = (\<lambda>_. ''t'')\<rparr>"

definition cycle_start :: syncing where
  "cycle_start = \<lparr>sg_source = \<lparr>dk_tree = [([''.pear''], Dir True)], dk_faults = []\<rparr>, sg_target = blank [],
     sg_direct = direct_start (open_deferred [])\<rparr>"

lemma cycle_builds:
  assumes "loaded = Inr None \<or> loaded = Inr (Some (manifest_new ''w''))"
  shows "scan_build_manifest 9 (Inr ''w'') loaded (Inr cycle_scan) False direct_has_many (direct_upload H sync_ok ok (\<lambda>_. Some [])) d
   = (Inr \<lparr>sb_old = manifest_new ''w'', sb_new = cycle_manifest, sb_excluded = []\<rparr>, d)"
  using assms
  by (auto simp: scan_build_manifest_def Let_def wanted_chunks_def manifest_new_def direct_has_many_def present_of_def direct_upload_def
      chunk_reader_def cached_entry_def cycle_manifest_def cycle_file_def cycle_scan_def)

definition cycle_tree :: "(store_error apply_error, apply_report) result \<times> disk \<times> store" where
  "cycle_tree = apply_manifest (\<lambda>s. s) (\<lambda>_. ''j'') (\<lambda>_. ''t'') (store_get (\<lambda>_. ''h'')) (manifest_new ''w'') (mask_modes cycle_manifest)
     (blank [], open_deferred [])"

lemma cycle_tree_runs: "is_ok (fst cycle_tree)" "is_ok (fst (write_file_atomic MANIFEST_JSON ''s'' (sg_source cycle_start)))"
  by code_simp+

lemma cycle_canonical: "canonical cycle_manifest"
proof -
  have "canonical_key ''d/f''"
    by code_simp
  then show ?thesis
    by (auto simp: canonical_def cycle_manifest_def cycle_file_def split: if_splits)
qed

lemma retain_none: "retain_unreadable present [] es files = files"
  by (induction es arbitrary: files) (auto simp: under_any_def)

text \<open>Whatever manifest the source had, only the scanned file is in the new one.\<close>

lemma cycle_scan_canonical:
  assumes "scan_build_manifest n w loaded (Inr cycle_scan) strict direct_has_many (direct_upload H sync_ok ok (\<lambda>_. Some [])) d = (Inr b, d')"
  shows "canonical (sb_new b)"
proof -
  have "canonical_key ''d/f''"
    by code_simp
  moreover have "\<exists>cs. mf_files (sb_new b) = [(''d/f'', entry_of cycle_file cs)]"
    using assms
    by (auto simp: scan_build_manifest_def Let_def direct_has_many_def direct_upload_def chunk_reader_def cycle_scan_def cycle_file_def
        retain_none split: sum.splits option.splits if_splits)
  ultimately show ?thesis
    by (auto simp: canonical_def split: if_splits)
qed

lemma cycle_runs:
  obtains rep st' where "sync_cycle cycle_sample cycle_start = (Inr rep, st')"
proof -
  obtain r d s where t: "cycle_tree = (Inr r, d, s)"
    using cycle_tree_runs(1) that by (auto simp: is_ok_def prod_eq_iff split: sum.splits)
  obtain src where w: "write_file_atomic MANIFEST_JSON ''s'' (sg_source cycle_start) = (Inr (), src)"
    using cycle_tree_runs(2) by (cases "write_file_atomic MANIFEST_JSON ''s'' (sg_source cycle_start)") (auto simp: is_ok_def split: sum.splits)
  have none: "read_file MANIFEST_JSON (sg_source cycle_start) = (Inl IoNotFound, sg_source cycle_start)"
    "read_file MANIFEST_JSON (blank []) = (Inl IoNotFound, blank [])" "mask_modes cycle_manifest \<noteq> cycle_manifest"
    by code_simp+
  have fields: "sy_open_ok cycle_sample" "sy_sync_ok cycle_sample = (\<lambda>_. True)" "sy_lower cycle_sample = (\<lambda>s. s)"
      "sy_tmp_name cycle_sample = (\<lambda>_. ''t'')" "sy_cutter cycle_sample = (\<lambda>_. Some [])" "sy_started_at cycle_sample = 9"
      "sy_workspace cycle_sample = Inr ''w''" "sy_scanned cycle_sample = Inr cycle_scan" "sy_digest cycle_sample = (\<lambda>_. ''h'')"
      "sy_to_json cycle_sample (mask_modes cycle_manifest) = ''j''" "sy_to_json cycle_sample cycle_manifest = ''s''"
    using none(3) by (auto simp: cycle_sample_def)
  have paths: "sync_paths cycle_sample = Inr ()"
    by (simp add: sync_paths_def cycle_sample_def canonicalize_lenient.simps contained_def path_starts_with_def)
  have load: "load_disk cycle_sample (sg_source cycle_start) = (Inr None, sg_source cycle_start)" "load_disk cycle_sample (blank []) = (Inr None, blank [])"
    using none(1,2) by (simp_all add: load_disk_def load_def read_outcome_of_def)
  have direct: "direct_start (dr_store (sg_direct cycle_start)) = sg_direct cycle_start" "dr_store (sg_direct cycle_start) = open_deferred []"
    "cycle_start\<lparr>sg_direct := direct_start (open_deferred [])\<rparr> = cycle_start"
    by (simp_all add: cycle_start_def direct_start_def open_deferred_def open_store_def)
  let ?b = "\<lparr>sb_old = manifest_new ''w'', sb_new = cycle_manifest, sb_excluded = []\<rparr>"
  have build: "sync_build cycle_sample cycle_start = (Inr ?b, cycle_start)"
    by (simp add: sync_build_def fields load direct cycle_builds)
  have flush: "sync_flush cycle_sample cycle_start = (Inr (), cycle_start)"
    by (simp add: sync_flush_def fields direct store_flush_def flush_batch_def) (simp add: cycle_start_def direct_start_def open_deferred_def open_store_def)
  have tree: "apply_manifest (\<lambda>s. s) (sy_to_json cycle_sample) (\<lambda>_. ''t'') (store_get (\<lambda>_. ''h'')) (manifest_new ''w'') (mask_modes cycle_manifest)
      (blank [], open_deferred []) = cycle_tree"
    unfolding cycle_tree_def apply_manifest_def apply_commit_def fields(10) ..
  have target: "sg_target cycle_start = blank []" "mf_workspace_id cycle_manifest = ''w''"
    by (simp_all add: cycle_start_def cycle_manifest_def)
  obtain st1 where apply_: "sync_apply cycle_sample ?b cycle_start = (Inr r, st1)" "sg_source st1 = sg_source cycle_start"
    by (simp add: sync_apply_def target load fields direct tree t)
  obtain st2 where wrote: "sync_record cycle_sample ?b st1 = (Inr (), st2)"
    using w by (simp add: sync_record_def apply_(2) fields)
  obtain st3 where sweep: "sync_sweep ?b r st2 = (Inr (), st3)"
    by (simp add: sync_sweep_def)
  obtain rep where "cycle_done r st3 = (Inr rep, st3)"
    by (simp add: cycle_done_def)
  then have "sync_cycle cycle_sample cycle_start = (Inr rep, st3)"
    by (simp add: sync_cycle_def io_bind_def cg_check_def paths build flush apply_(1) wrote sweep)
  then show thesis
    by (rule that)
qed


end
