(* ===== verification/Loops.thy ===== *)
theory Loops
imports Sync_Cycle Converge_Head
begin

text \<open>
  The loop bodies of \<open>cli/src/loops.rs\<close>: the supervision seam \<open>LoopControl\<close>, one turn of the
  converge loop and of the mirror loop with their classification of errors, the companion thread
  that turns head hints into kicks, and the registration of a workspace.  Printing and sleeping
  are not modelled, the words of an error are a \<open>loop_error\<close>.
\<close>

section \<open>Supervision\<close>

text \<open>Milliseconds.\<close>

definition POLL_INTERVAL :: nat where "POLL_INTERVAL = 2000"
definition POLL_INTERVAL_WS :: nat where "POLL_INTERVAL_WS = 300000"
definition EXIT_FATAL :: nat where "EXIT_FATAL = 3"

datatype loop_error = ConvergeFatal push_error | MirrorFatal pull_error | LoopReturned | NotResumed

record loop_control =
  lc_stop :: bool
  lc_in_cycle :: bool
  lc_error :: "loop_error option"
  lc_head_seq :: int
  lc_exit_on_fatal :: bool

definition loop_control_new :: "bool \<Rightarrow> loop_control" where
  "loop_control_new exit_on_fatal =
     \<lparr>lc_stop = False, lc_in_cycle = False, lc_error = None, lc_head_seq = 0, lc_exit_on_fatal = exit_on_fatal\<rparr>"

definition lc_foreground :: loop_control where "lc_foreground = loop_control_new True"
definition lc_worker :: loop_control where "lc_worker = loop_control_new False"

definition lc_stopping :: "loop_control \<Rightarrow> loop_control" where
  "lc_stopping lc = lc\<lparr>lc_stop := True\<rparr>"

definition set_head_seq :: "int \<Rightarrow> loop_control \<Rightarrow> loop_control" where
  "set_head_seq seq lc = lc\<lparr>lc_head_seq := seq\<rparr>"

text \<open>The first error wins.\<close>

definition record_error :: "loop_error \<Rightarrow> loop_control \<Rightarrow> loop_control" where
  "record_error e lc = (if lc_error lc = None then lc\<lparr>lc_error := Some e\<rparr> else lc)"

text \<open>The foreground ends the process with a code, a worker records the error.\<close>

definition lc_fatal :: "loop_error \<Rightarrow> loop_control \<Rightarrow> nat option \<times> loop_control" where
  "lc_fatal e lc = (if lc_exit_on_fatal lc then (Some EXIT_FATAL, lc) else (None, record_error e lc))"

text \<open>Whether \<open>park_if_done\<close> parks its thread for good.\<close>

definition parks :: "loop_control \<Rightarrow> bool" where
  "parks lc \<longleftrightarrow> \<not> lc_exit_on_fatal lc \<and> (lc_stop lc \<or> lc_error lc \<noteq> None)"

definition enter_cycle :: "loop_control \<Rightarrow> loop_control" where
  "enter_cycle lc = lc\<lparr>lc_in_cycle := True\<rparr>"

definition leave_cycle :: "loop_control \<Rightarrow> loop_control" where
  "leave_cycle lc = lc\<lparr>lc_in_cycle := False\<rparr>"

section \<open>A turn of the converge loop\<close>

text \<open>What the watch loop gets back, or that the thread parks or the process exits meanwhile.\<close>

datatype 'r turn = TurnOk 'r | TurnDemoted | TurnFailed push_error | TurnParked | TurnExits nat

definition converge_turn ::
  "'c converge_env \<Rightarrow> loop_control \<times> 'c converging \<Rightarrow> converge_report turn \<times> loop_control \<times> 'c converging" where
  "converge_turn E s =
     (case s of (lc, st) \<Rightarrow>
        if parks lc then (TurnParked, lc, st)
        else
          (let lc = enter_cycle lc in
           case converge_once E st of
             (Inr rep, st) \<Rightarrow> (TurnOk rep, leave_cycle (set_head_seq (cr_head_seq rep) lc), st)
           | (Inl PushForbidden, st) \<Rightarrow> (TurnDemoted, leave_cycle lc, st)
           | (Inl PushClient, st) \<Rightarrow>
               (case lc_fatal (ConvergeFatal PushClient) lc of
                  (Some code, lc) \<Rightarrow> (TurnExits code, lc, st)
                | (None, lc) \<Rightarrow> (TurnParked, lc, st))
           | (Inl e, st) \<Rightarrow> (TurnFailed e, leave_cycle lc, st)))"

text \<open>How the watch loop sees a turn; a thread that parks or a process that exits makes no move.\<close>

fun cycle_of_turn :: "'r turn \<Rightarrow> unit cycle_result option" where
  "cycle_of_turn (TurnOk r) = Some CycleOk"
| "cycle_of_turn TurnDemoted = Some (CycleStop ())"
| "cycle_of_turn (TurnFailed e) = Some CycleFailed"
| "cycle_of_turn TurnParked = None"
| "cycle_of_turn (TurnExits c) = None"

section \<open>A turn of the mirror loop\<close>

text \<open>Which errors end the loop.\<close>

text \<open>One turn of a local watch; \<open>None\<close> when it parks.\<close>

definition watch_local_turn :: "cycle_env \<Rightarrow> loop_control \<times> syncing \<Rightarrow> (cycle_error, cycle_report) result option \<times> loop_control \<times> syncing" where
  "watch_local_turn E s =
     (case s of (lc, st) \<Rightarrow>
        if parks lc then (None, lc, st)
        else (case sync_cycle E st of (r, st) \<Rightarrow> (Some r, leave_cycle (enter_cycle lc), st)))"


fun mirror_fatal :: "pull_error \<Rightarrow> bool" where
  "mirror_fatal (Some (RHttp st)) = (st = 401 \<or> st = 403)"
| "mirror_fatal (Some RNotFound) = True"
| "mirror_fatal (Some RFatal) = True"
| "mirror_fatal _ = False"

datatype mirror_end = MirrorPulled pull_report | MirrorRetries pull_error | MirrorReturns | MirrorExits nat

definition mirror_turn :: "'c pull_env \<Rightarrow> loop_control \<times> 'c converging \<Rightarrow> mirror_end \<times> loop_control \<times> 'c converging" where
  "mirror_turn E s =
     (case s of (lc, st) \<Rightarrow>
        if lc_stop lc then (MirrorReturns, lc, st)
        else
          (let lc = enter_cycle lc in
           case pull_inner E st of
             (Inr rep, st) \<Rightarrow> (MirrorPulled rep, leave_cycle (set_head_seq (pl_head_seq rep) lc), st)
           | (Inl e, st) \<Rightarrow>
               if mirror_fatal e then
                 (case lc_fatal (MirrorFatal e) lc of
                    (Some code, lc) \<Rightarrow> (MirrorExits code, lc, st)
                  | (None, lc) \<Rightarrow> (MirrorReturns, leave_cycle lc, st))
               else (MirrorRetries e, leave_cycle lc, st)))"

section \<open>Hints\<close>

text \<open>The feed of head hints: whether it is connected; a relay without one has none.\<close>

definition poll_wait :: "bool option \<Rightarrow> nat" where
  "poll_wait feed = (case feed of Some True \<Rightarrow> POLL_INTERVAL_WS | _ \<Rightarrow> POLL_INTERVAL)"

datatype watcher_turn = WatcherEnds | KeepsWaiting | Kicks

text \<open>One round of the companion thread: \<open>hint\<close> is what the feed gave within the wait, if anything.\<close>

definition head_watcher_turn :: "loop_control \<Rightarrow> bool option \<Rightarrow> int option \<Rightarrow> bool \<Rightarrow> watcher_turn" where
  "head_watcher_turn lc feed hint receiver =
     (if lc_stop lc then WatcherEnds
      else if feed \<noteq> None \<and> (case hint of Some seq \<Rightarrow> seq \<le> lc_head_seq lc | None \<Rightarrow> False) then KeepsWaiting
      else if receiver then Kicks else WatcherEnds)"

section \<open>Registration\<close>

record workspace_facts =
  wf_e2e :: bool
  wf_existed :: bool

datatype register_error = RegisterRelay relay_error | NoSuchTeam | FlavorImmutable

definition find_team :: "('c \<Rightarrow> (relay_error, team_info list) result \<times> 'c) \<Rightarrow> string \<Rightarrow> 'c \<Rightarrow> (register_error, team_info) result \<times> 'c" where
  "find_team ask name c =
     (case ask c of
        (Inl e, c) \<Rightarrow> (Inl (RegisterRelay e), c)
      | (Inr ts, c) \<Rightarrow>
          (case List.find (\<lambda>t. ti_name t = name) ts of
             None \<Rightarrow> (Inl NoSuchTeam, c)
           | Some t \<Rightarrow> (Inr t, c)))"

record 'c register_calls =
  rg_workspace :: "'c \<Rightarrow> (relay_error, workspace_info) result \<times> 'c"
  rg_list_teams :: "'c \<Rightarrow> (relay_error, team_info list) result \<times> 'c"
  rg_create :: "string \<Rightarrow> string option \<Rightarrow> bool \<Rightarrow> 'c \<Rightarrow> (relay_error, unit) result \<times> 'c"
  rg_attach :: "string \<Rightarrow> 'c \<Rightarrow> (relay_error, unit) result \<times> 'c"

definition team_to_attach :: "'c register_calls \<Rightarrow> string option \<Rightarrow> 'c \<Rightarrow> (register_error, string option) result \<times> 'c" where
  "team_to_attach R team c =
     (case team of
        None \<Rightarrow> (Inr None, c)
      | Some name \<Rightarrow>
          (case find_team (rg_list_teams R) name c of
             (Inl e, c) \<Rightarrow> (Inl e, c)
           | (Inr t, c) \<Rightarrow> (Inr (Some (ti_id t)), c)))"

definition adopt_or_create ::
  "'c register_calls \<Rightarrow> string \<Rightarrow> string option \<Rightarrow> bool \<Rightarrow> 'c \<Rightarrow> (register_error, workspace_facts) result \<times> 'c" where
  "adopt_or_create R name team_id e2e c =
     (case rg_workspace R c of
        (Inr ws, c) \<Rightarrow>
          if e2e \<and> \<not> wi_e2e ws then (Inl FlavorImmutable, c)
          else (Inr \<lparr>wf_e2e = wi_e2e ws, wf_existed = True\<rparr>, c)
      | (Inl RNotFound, c) \<Rightarrow>
          (case rg_create R name team_id e2e c of
             (Inl e, c) \<Rightarrow> (Inl (RegisterRelay e), c)
           | (Inr _, c) \<Rightarrow> (Inr \<lparr>wf_e2e = e2e, wf_existed = False\<rparr>, c))
      | (Inl e, c) \<Rightarrow> (Inl (RegisterRelay e), c))"

text \<open>A failed attachment is printed, not raised.\<close>

definition attach_if_needed :: "'c register_calls \<Rightarrow> string option \<Rightarrow> 'c \<Rightarrow> (register_error, unit) result \<times> 'c" where
  "attach_if_needed R team_id c =
     (case team_id of
        None \<Rightarrow> (Inr (), c)
      | Some t \<Rightarrow>
          (case rg_workspace R c of
             (Inl e, c) \<Rightarrow> (Inl (RegisterRelay e), c)
           | (Inr ws, c) \<Rightarrow> if wi_team_id ws = Some t then (Inr (), c) else (Inr (), snd (rg_attach R t c))))"

definition register_workspace ::
  "'c register_calls \<Rightarrow> string \<Rightarrow> string option \<Rightarrow> bool \<Rightarrow> 'c \<Rightarrow> (register_error, workspace_facts) result \<times> 'c" where
  "register_workspace R name team e2e =
     io_bind (team_to_attach R team) (\<lambda>team_id.
     io_bind (adopt_or_create R name team_id e2e) (\<lambda>facts.
     io_bind (attach_if_needed R team_id) (\<lambda>_.
     io_return facts)))"

text \<open>The \<open>.env\<close> policy of the attached team, pinned on the client when it forbids.\<close>

definition learn_env_policy :: "'c register_calls \<Rightarrow> client \<Rightarrow> 'c \<Rightarrow> (relay_error, client) result \<times> 'c" where
  "learn_env_policy R cl c =
     (case rg_workspace R c of
        (Inl e, c) \<Rightarrow> (Inl e, c)
      | (Inr ws, c) \<Rightarrow>
          (case wi_team_id ws of
             None \<Rightarrow> (Inr cl, c)
           | Some tid \<Rightarrow>
               (case rg_list_teams R c of
                  (Inl e, c) \<Rightarrow> (Inl e, c)
                | (Inr ts, c) \<Rightarrow>
                    (case List.find (\<lambda>t. ti_id t = tid \<and> \<not> ti_sync_env t) ts of
                       None \<Rightarrow> (Inr cl, c)
                     | Some t \<Rightarrow> (Inr (cl\<lparr>c_env_forbidden := Some (ti_name t)\<rparr>), c)))))"

section \<open>Turns one after the other\<close>

fun converge_turns ::
  "nat \<Rightarrow> 'c converge_env \<Rightarrow> loop_control \<times> 'c converging \<Rightarrow> converge_report turn \<times> loop_control \<times> 'c converging" where
  "converge_turns 0 E s = converge_turn E s"
| "converge_turns (Suc n) E s = (case converge_turns n E s of (_, s) \<Rightarrow> converge_turn E s)"

lemma lc_frames [simp]:
  "parks (enter_cycle lc) = parks lc" "parks (leave_cycle lc) = parks lc" "parks (set_head_seq n lc) = parks lc"
  "lc_stop (enter_cycle lc) = lc_stop lc" "lc_in_cycle (enter_cycle lc)" "lc_exit_on_fatal (enter_cycle lc) = lc_exit_on_fatal lc"
  "lc_error (enter_cycle lc) = lc_error lc"
  by (simp_all add: parks_def enter_cycle_def leave_cycle_def set_head_seq_def)

text \<open>Every way a turn can end.\<close>

lemma converge_turn_cases:
  assumes "converge_turn E (lc, st) = (t, lc', st')"
  obtains (parked) "parks lc" "t = TurnParked" "lc' = lc" "st' = st"
  | (ok) rep where "\<not> parks lc" "converge_once E st = (Inr rep, st')" "t = TurnOk rep" "\<not> lc_in_cycle lc'" "lc_head_seq lc' = cr_head_seq rep"
  | (demoted) "\<not> parks lc" "converge_once E st = (Inl PushForbidden, st')" "t = TurnDemoted" "\<not> lc_in_cycle lc'"
  | (client) "\<not> parks lc" "converge_once E st = (Inl PushClient, st')" "lc_in_cycle lc'"
      "t = (if lc_exit_on_fatal lc then TurnExits EXIT_FATAL else TurnParked)"
      "\<not> lc_exit_on_fatal lc \<Longrightarrow> parks lc' \<and> lc_error lc' \<noteq> None"
  | (failed) e where "\<not> parks lc" "converge_once E st = (Inl e, st')" "t = TurnFailed e" "\<not> lc_in_cycle lc'" "parks lc' = parks lc"
proof (cases "parks lc")
  case True
  then have "t = TurnParked" "lc' = lc" "st' = st"
    using assms by (simp_all add: converge_turn_def)
  then show thesis
    using parked True by blast
next
  case False
  obtain r st1 where run: "converge_once E st = (r, st1)" by fastforce
  show thesis
  proof (cases r)
    case (Inr rep)
    then have "t = TurnOk rep" "lc' = leave_cycle (set_head_seq (cr_head_seq rep) (enter_cycle lc))" "st' = st1"
      using assms False run by (simp_all add: converge_turn_def Let_def)
    then show thesis
      using ok [OF False, of rep] run Inr by (simp add: leave_cycle_def set_head_seq_def)
  next
    case (Inl e)
    show thesis
    proof (cases e)
      case PushForbidden
      then have "t = TurnDemoted" "lc' = leave_cycle (enter_cycle lc)" "st' = st1"
        using assms False run Inl by (simp_all add: converge_turn_def Let_def)
      then show thesis
        using demoted [OF False] run Inl PushForbidden by (simp add: leave_cycle_def)
    next
      case PushClient
      then have c: "lc' = snd (lc_fatal (ConvergeFatal PushClient) (enter_cycle lc))" "st' = st1"
          "t = (if lc_exit_on_fatal lc then TurnExits EXIT_FATAL else TurnParked)"
        using assms False run Inl by (auto simp: converge_turn_def Let_def lc_fatal_def split: if_splits)
      have "lc_in_cycle lc'" "\<not> lc_exit_on_fatal lc \<Longrightarrow> parks lc' \<and> lc_error lc' \<noteq> None"
        by (auto simp: c(1) lc_fatal_def record_error_def parks_def enter_cycle_def)
      then show thesis
        using client [OF False] c run Inl PushClient by blast
    next
      case (PushConflict n)
      have "t = TurnFailed e" "lc' = leave_cycle (enter_cycle lc)" "st' = st1"
        using assms False run Inl PushConflict by (simp_all add: converge_turn_def Let_def)
      then show thesis
        using failed [OF False, of e] run Inl by (simp add: leave_cycle_def parks_def enter_cycle_def)
    next
      case (PushOther w)
      have "t = TurnFailed e" "lc' = leave_cycle (enter_cycle lc)" "st' = st1"
        using assms False run Inl PushOther by (simp_all add: converge_turn_def Let_def)
      then show thesis
        using failed [OF False, of e] run Inl by (simp add: leave_cycle_def parks_def enter_cycle_def)
    qed
  qed
qed

section \<open>Errors that no retry heals\<close>

lemma wrong_flavor_fatal:
  assumes "ce_is_dir E" "ce_init E = Inr wid" "\<forall>c. fst (ce_flavor E c) = Inr e2e" "e2e \<longleftrightarrow> ce_ring E = None"
  shows "fst (converge_once E st) = Inl fatal"
proof -
  obtain r st1 where l: "load_local_manifest E st = (r, st1)" by fastforce
  obtain c where f: "ce_flavor E (cg_relay st1) = (Inr e2e, c)"
    using assms(3) by (metis prod.collapse)
  have "(e2e \<longleftrightarrow> ce_ring E \<noteq> None) = False"
    using assms(4) by blast
  then show ?thesis
    using assms(1,2,4) l f
    by (cases r; cases "ce_ring E") (simp_all add: converge_once_def io_bind_def cg_check_def cg_relay_call_def)
qed

text \<open>C35: A device whose key does not match the flavor of its workspace gets the error that the code calls
  deterministic and fatal from every pass, yet its converge loop takes each as a failure to retry:
  it never ends, never records an error and never stops to ask the relay.  The mirror loop ends on
  the same error at its first turn.
\<close>

theorem wrong_flavor_retried_forever:
  assumes "ce_is_dir E" "ce_init E = Inr wid" "\<forall>c. fst (ce_flavor E c) = Inr e2e" "e2e \<longleftrightarrow> ce_ring E = None"
    and "\<not> parks lc"
  shows "fst (converge_turns n E (lc, st)) = TurnFailed fatal
    \<and> cycle_of_turn (fst (converge_turns n E (lc, st))) = Some CycleFailed
    \<and> lc_error (fst (snd (converge_turns n E (lc, st)))) = lc_error lc
    \<and> (pull_inner F sp = (Inl pull_fatal, sp') \<and> \<not> lc_stop ml \<longrightarrow> fst (mirror_turn F (ml, sp)) \<in> {MirrorReturns, MirrorExits EXIT_FATAL})"
proof -
  have one: "fst (converge_turn E (l, s)) = TurnFailed fatal \<and> \<not> parks (fst (snd (converge_turn E (l, s))))
      \<and> lc_error (fst (snd (converge_turn E (l, s)))) = lc_error l" if "\<not> parks l" for l s
    using wrong_flavor_fatal [OF assms(1-4), of s] that
    by (cases "converge_once E s") (simp add: converge_turn_def Let_def fatal_def leave_cycle_def parks_def enter_cycle_def)
  have "fst (converge_turns n E (lc, st)) = TurnFailed fatal \<and> \<not> parks (fst (snd (converge_turns n E (lc, st))))
      \<and> lc_error (fst (snd (converge_turns n E (lc, st)))) = lc_error lc"
  proof (induction n)
    case 0
    then show ?case using one [OF assms(5)] by simp
  next
    case (Suc n)
    obtain t l s where t: "converge_turns n E (lc, st) = (t, l, s)"
      by (metis prod.collapse)
    then show ?case
      using Suc one [of l s] by simp
  qed
  moreover have "pull_inner F sp = (Inl pull_fatal, sp') \<and> \<not> lc_stop ml \<longrightarrow> fst (mirror_turn F (ml, sp)) \<in> {MirrorReturns, MirrorExits EXIT_FATAL}"
    by (auto simp: mirror_turn_def Let_def lc_fatal_def)
  ultimately show ?thesis
    by simp
qed

lemma wrong_flavor_retried_forever_witness:
  "fst (converge_turns 9 (note_pass\<lparr>ce_flavor := (\<lambda>c. (Inr True, c))\<rparr>) (lc_worker, note_start)) = TurnFailed fatal"
  by (rule wrong_flavor_retried_forever [where wid = "''w''" and e2e = True, THEN conjunct1])
    (simp_all add: lc_worker_def loop_control_new_def parks_def)

section \<open>Registration\<close>

text \<open>A loop asked for an encrypted workspace never goes on with a plain one.\<close>

lemma register_keeps_flavor:
  assumes "register_workspace R name team e2e c = (Inr facts, c')"
  shows "e2e \<longrightarrow> wf_e2e facts" "\<not> wf_existed facts \<longrightarrow> wf_e2e facts = e2e"
    "\<exists>c1 r c2. rg_workspace R c1 = (r, c2) \<and> (if wf_existed facts then \<exists>ws. r = Inr ws \<and> wi_e2e ws = wf_e2e facts else r = Inl RNotFound)"
proof -
  obtain tid c1 c2 where a: "adopt_or_create R name tid e2e c1 = (Inr facts, c2)"
    using assms by (auto simp: register_workspace_def io_bind_ok io_return_def)
  obtain r c3 where r: "rg_workspace R c1 = (r, c3)" by fastforce
  have "(e2e \<longrightarrow> wf_e2e facts) \<and> (\<not> wf_existed facts \<longrightarrow> wf_e2e facts = e2e)
      \<and> (if wf_existed facts then \<exists>ws. r = Inr ws \<and> wi_e2e ws = wf_e2e facts else r = Inl RNotFound)"
    using a by (auto simp: adopt_or_create_def r split: sum.splits relay_error.splits if_splits prod.splits)
  then show "e2e \<longrightarrow> wf_e2e facts" "\<not> wf_existed facts \<longrightarrow> wf_e2e facts = e2e"
    "\<exists>c1 r c2. rg_workspace R c1 = (r, c2) \<and> (if wf_existed facts then \<exists>ws. r = Inr ws \<and> wi_e2e ws = wf_e2e facts else r = Inl RNotFound)"
    using r by blast+
qed

section \<open>Echoes\<close>

text \<open>After a pass the hint of its own commit, or of an older one, wakes nothing; a newer one does.\<close>

lemma own_commit_is_no_hint:
  assumes "converge_turn E (lc, st) = (TurnOk rep, lc', st')"
  shows "seq \<le> cr_head_seq rep \<Longrightarrow> head_watcher_turn lc' (Some up) (Some seq) receiver \<noteq> Kicks"
    and "cr_head_seq rep < seq \<Longrightarrow> \<not> lc_stop lc' \<Longrightarrow> head_watcher_turn lc' (Some up) (Some seq) True = Kicks"
  using assms by (cases rule: converge_turn_cases; simp add: head_watcher_turn_def split: if_splits)+

end
