(* ===== verification/Daemon_Json.thy ===== *)
theory Daemon_Json
imports Prelude
begin

text \<open>
  The values the daemon exchanges and keeps (\<open>cli/src/daemon.rs\<close>): requests, responses, status entries
  and persisted registrations as JSON values, with their parsers.  Paths are UTF-8 strings; the text
  form of JSON and the socket are not modelled.
\<close>

section \<open>JSON fields\<close>

datatype json = JNull | JBool bool | JInt int | JFloat | JStr string | JArr "json list" | JObj "(string \<times> json) list"

datatype field_error = MissingField string | BadField string | UnknownTag string | MissingTag | NoWorkspaces | NoOk
  | FileUnreadable | FileUnparsable

fun json_get :: "json \<Rightarrow> string \<Rightarrow> json option" where
  "json_get (JObj kvs) k = map_of kvs k"
| "json_get _ k = None"

definition opt_str :: "json \<Rightarrow> string \<Rightarrow> (field_error, string option) result" where
  "opt_str v k =
     (case json_get v k of
        None \<Rightarrow> Inr None
      | Some JNull \<Rightarrow> Inr None
      | Some (JStr s) \<Rightarrow> Inr (Some s)
      | Some _ \<Rightarrow> Inl (BadField k))"

definition req_str :: "json \<Rightarrow> string \<Rightarrow> (field_error, string) result" where
  "req_str v k = rbind (opt_str v k) (\<lambda>s. case s of None \<Rightarrow> Inl (MissingField k) | Some s \<Rightarrow> Inr s)"

definition opt_bool :: "json \<Rightarrow> string \<Rightarrow> (field_error, bool) result" where
  "opt_bool v k =
     (case json_get v k of
        None \<Rightarrow> Inr False
      | Some JNull \<Rightarrow> Inr False
      | Some (JBool b) \<Rightarrow> Inr b
      | Some _ \<Rightarrow> Inl (BadField k))"

definition opt_u64 :: "json \<Rightarrow> string \<Rightarrow> (field_error, int) result" where
  "opt_u64 v k =
     (case json_get v k of
        None \<Rightarrow> Inr 0
      | Some JNull \<Rightarrow> Inr 0
      | Some (JInt n) \<Rightarrow> if 0 \<le> n \<and> n < 2 ^ 64 then Inr n else Inl (BadField k)
      | Some _ \<Rightarrow> Inl (BadField k))"

fun j_opt :: "string option \<Rightarrow> json" where
  "j_opt None = JNull"
| "j_opt (Some s) = JStr s"

section \<open>Requests\<close>

datatype request_kind =
    AddWatch string string                          \<comment> \<open>path, target\<close>
  | AddConverge string string string "string option" "string option" "string option" bool "string option" "string option"
      \<comment> \<open>path, relay, token, workspace, device, team, e2e, name, CA\<close>
  | AddMirror string string string string "string option" "string option"
      \<comment> \<open>path, workspace, relay, token, name, CA\<close>
  | ListAll
  | RemovePath string
  | StatusOf "string option"
  | Shutdown

fun request_to_json :: "request_kind \<Rightarrow> json" where
  "request_to_json (AddWatch p t) = JObj [(''type'', JStr ''add_watch''), (''path'', JStr p), (''target'', JStr t)]"
| "request_to_json (AddConverge p r tok w d tm e n ca) =
     JObj [(''type'', JStr ''add_converge''), (''path'', JStr p), (''relay'', JStr r), (''token'', JStr tok),
       (''workspace'', j_opt w), (''device'', j_opt d), (''team'', j_opt tm), (''e2e'', JBool e), (''name'', j_opt n),
       (''tls_ca_cert'', j_opt ca)]"
| "request_to_json (AddMirror p w r tok n ca) =
     JObj [(''type'', JStr ''add_mirror''), (''path'', JStr p), (''workspace'', JStr w), (''relay'', JStr r),
       (''token'', JStr tok), (''name'', j_opt n), (''tls_ca_cert'', j_opt ca)]"
| "request_to_json ListAll = JObj [(''type'', JStr ''list'')]"
| "request_to_json (RemovePath p) = JObj [(''type'', JStr ''remove''), (''path'', JStr p)]"
| "request_to_json (StatusOf p) = JObj [(''type'', JStr ''status''), (''path'', j_opt p)]"
| "request_to_json Shutdown = JObj [(''type'', JStr ''shutdown'')]"

definition parse_add_converge :: "json \<Rightarrow> (field_error, request_kind) result" where
  "parse_add_converge v =
     rbind (req_str v ''path'') (\<lambda>p. rbind (req_str v ''relay'') (\<lambda>r. rbind (req_str v ''token'') (\<lambda>tok.
     rbind (opt_str v ''workspace'') (\<lambda>w. rbind (opt_str v ''device'') (\<lambda>d. rbind (opt_str v ''team'') (\<lambda>tm.
     rbind (opt_bool v ''e2e'') (\<lambda>e. rbind (opt_str v ''name'') (\<lambda>n. rbind (opt_str v ''tls_ca_cert'') (\<lambda>ca.
       Inr (AddConverge p r tok w d tm e n ca))))))))))"

definition parse_add_mirror :: "json \<Rightarrow> (field_error, request_kind) result" where
  "parse_add_mirror v =
     rbind (req_str v ''path'') (\<lambda>p. rbind (req_str v ''workspace'') (\<lambda>w. rbind (req_str v ''relay'') (\<lambda>r.
     rbind (req_str v ''token'') (\<lambda>tok. rbind (opt_str v ''name'') (\<lambda>n. rbind (opt_str v ''tls_ca_cert'') (\<lambda>ca.
       Inr (AddMirror p w r tok n ca)))))))"

definition request_from_json :: "json \<Rightarrow> (field_error, request_kind) result" where
  "request_from_json v =
     rbind (opt_str v ''type'') (\<lambda>t.
       case t of
         None \<Rightarrow> Inl MissingTag
       | Some tag \<Rightarrow>
           if tag = ''add_watch'' then
             rbind (req_str v ''path'') (\<lambda>p. rbind (req_str v ''target'') (\<lambda>tg. Inr (AddWatch p tg)))
           else if tag = ''add_converge'' then parse_add_converge v
           else if tag = ''add_mirror'' then parse_add_mirror v
           else if tag = ''list'' then Inr ListAll
           else if tag = ''remove'' then rbind (req_str v ''path'') (\<lambda>p. Inr (RemovePath p))
           else if tag = ''status'' then rbind (opt_str v ''path'') (\<lambda>p. Inr (StatusOf p))
           else if tag = ''shutdown'' then Inr Shutdown
           else Inl (UnknownTag tag))"

section \<open>Responses\<close>

record response =
  rs_result :: "json option"
  rs_error :: "string option"

definition response_ok :: "json \<Rightarrow> response" where "response_ok v = \<lparr>rs_result = Some v, rs_error = None\<rparr>"
definition response_err :: "string \<Rightarrow> response" where "response_err m = \<lparr>rs_result = None, rs_error = Some m\<rparr>"

definition response_to_json :: "response \<Rightarrow> json" where
  "response_to_json r =
     (case rs_error r of
        Some e \<Rightarrow> JObj [(''ok'', JBool False), (''error'', JStr e)]
      | None \<Rightarrow> JObj [(''ok'', JBool True), (''result'', case rs_result r of Some v \<Rightarrow> v | None \<Rightarrow> JNull)])"

definition response_from_json :: "json \<Rightarrow> (field_error, response) result" where
  "response_from_json v =
     (case json_get v ''ok'' of
        Some (JBool True) \<Rightarrow> Inr \<lparr>rs_result = json_get v ''result'', rs_error = None\<rparr>
      | Some (JBool False) \<Rightarrow> rbind (req_str v ''error'') (\<lambda>e. Inr \<lparr>rs_result = None, rs_error = Some e\<rparr>)
      | _ \<Rightarrow> Inl NoOk)"

definition into_result :: "response \<Rightarrow> (string, json) result" where
  "into_result r = (case rs_error r of Some e \<Rightarrow> Inl e | None \<Rightarrow> Inr (case rs_result r of Some v \<Rightarrow> v | None \<Rightarrow> JNull))"

section \<open>Status entries\<close>

record entry_info =
  ei_path :: string
  ei_role :: string
  ei_target :: "string option"
  ei_relay :: "string option"
  ei_workspace :: "string option"
  ei_state :: string
  ei_head_seq :: int
  ei_error :: "string option"

definition entry_to_json :: "entry_info \<Rightarrow> json" where
  "entry_to_json e =
     JObj [(''path'', JStr (ei_path e)), (''role'', JStr (ei_role e)), (''target'', j_opt (ei_target e)),
       (''relay'', j_opt (ei_relay e)), (''workspace'', j_opt (ei_workspace e)), (''state'', JStr (ei_state e)),
       (''head_seq'', JInt (ei_head_seq e)), (''error'', j_opt (ei_error e))]"

definition entry_from_json :: "json \<Rightarrow> (field_error, entry_info) result" where
  "entry_from_json v =
     rbind (req_str v ''path'') (\<lambda>p. rbind (req_str v ''role'') (\<lambda>r. rbind (opt_str v ''target'') (\<lambda>t.
     rbind (opt_str v ''relay'') (\<lambda>rl. rbind (opt_str v ''workspace'') (\<lambda>w. rbind (req_str v ''state'') (\<lambda>s.
     rbind (opt_u64 v ''head_seq'') (\<lambda>n. rbind (opt_str v ''error'') (\<lambda>e.
       Inr \<lparr>ei_path = p, ei_role = r, ei_target = t, ei_relay = rl, ei_workspace = w, ei_state = s, ei_head_seq = n, ei_error = e\<rparr>))))))))"

fun parse_all :: "(json \<Rightarrow> (field_error, 'a) result) \<Rightarrow> json list \<Rightarrow> (field_error, 'a list) result" where
  "parse_all f [] = Inr []"
| "parse_all f (v # vs) = rbind (f v) (\<lambda>x. rbind (parse_all f vs) (\<lambda>xs. Inr (x # xs)))"

definition list_from_json :: "json \<Rightarrow> (field_error, entry_info list) result" where
  "list_from_json v =
     (case json_get v ''workspaces'' of
        Some (JArr vs) \<Rightarrow> parse_all entry_from_json vs
      | _ \<Rightarrow> Inl NoWorkspaces)"

section \<open>Registrations\<close>

datatype registration =
    RegConverge string string "string option" "string option" "string option" bool "string option" "string option"
      \<comment> \<open>path, relay, workspace, device, team, e2e, name, CA\<close>
  | RegWatch string string                          \<comment> \<open>path, target\<close>
  | RegMirror string string string "string option" "string option"
      \<comment> \<open>path, workspace, relay, name, CA\<close>

fun reg_path :: "registration \<Rightarrow> string" where
  "reg_path (RegConverge p _ _ _ _ _ _ _) = p"
| "reg_path (RegWatch p _) = p"
| "reg_path (RegMirror p _ _ _ _) = p"

definition reg_key :: "registration \<Rightarrow> string" where "reg_key r = reg_path r"

fun reg_role :: "registration \<Rightarrow> string" where
  "reg_role (RegConverge _ _ _ _ _ _ _ _) = ''sync''"
| "reg_role (RegWatch _ _) = ''watch''"
| "reg_role (RegMirror _ _ _ _ _) = ''mirror''"

fun needs_token :: "registration \<Rightarrow> bool" where
  "needs_token (RegWatch _ _) = False"
| "needs_token _ = True"

fun reg_to_json :: "registration \<Rightarrow> json" where
  "reg_to_json (RegConverge p r w d tm e n ca) =
     JObj [(''role'', JStr ''sync''), (''path'', JStr p), (''relay'', JStr r), (''workspace'', j_opt w), (''device'', j_opt d),
       (''team'', j_opt tm), (''e2e'', JBool e), (''name'', j_opt n), (''tls_ca_cert'', j_opt ca)]"
| "reg_to_json (RegWatch p t) = JObj [(''role'', JStr ''watch''), (''path'', JStr p), (''target'', JStr t)]"
| "reg_to_json (RegMirror p w r n ca) =
     JObj [(''role'', JStr ''mirror''), (''path'', JStr p), (''workspace'', JStr w), (''relay'', JStr r), (''name'', j_opt n),
       (''tls_ca_cert'', j_opt ca)]"

definition reg_from_json :: "json \<Rightarrow> (field_error, registration) result" where
  "reg_from_json v =
     rbind (opt_str v ''role'') (\<lambda>t.
       case t of
         None \<Rightarrow> Inl MissingTag
       | Some tag \<Rightarrow>
           if tag = ''sync'' then
             rbind (req_str v ''path'') (\<lambda>p. rbind (req_str v ''relay'') (\<lambda>r. rbind (opt_str v ''workspace'') (\<lambda>w.
             rbind (opt_str v ''device'') (\<lambda>d. rbind (opt_str v ''team'') (\<lambda>tm. rbind (opt_bool v ''e2e'') (\<lambda>e.
             rbind (opt_str v ''name'') (\<lambda>n. rbind (opt_str v ''tls_ca_cert'') (\<lambda>ca.
               Inr (RegConverge p r w d tm e n ca)))))))))
           else if tag = ''watch'' then
             rbind (req_str v ''path'') (\<lambda>p. rbind (req_str v ''target'') (\<lambda>tg. Inr (RegWatch p tg)))
           else if tag = ''mirror'' then
             rbind (req_str v ''path'') (\<lambda>p. rbind (req_str v ''workspace'') (\<lambda>w. rbind (req_str v ''relay'') (\<lambda>r.
             rbind (opt_str v ''name'') (\<lambda>n. rbind (opt_str v ''tls_ca_cert'') (\<lambda>ca. Inr (RegMirror p w r n ca))))))
           else Inl (UnknownTag tag))"

section \<open>The state file\<close>

definition state_doc :: "registration list \<Rightarrow> json" where
  "state_doc rs = JObj [(''workspaces'', JArr (map reg_to_json rs))]"

text \<open>The file as it is read and parsed; no file is an empty list.\<close>

definition load_state :: "(field_error, json option) result \<Rightarrow> (field_error, registration list) result" where
  "load_state data =
     rbind data (\<lambda>doc.
       case doc of
         None \<Rightarrow> Inr []
       | Some v \<Rightarrow>
           (case json_get v ''workspaces'' of
              Some (JArr vs) \<Rightarrow> parse_all reg_from_json vs
            | _ \<Rightarrow> Inl NoWorkspaces))"

section \<open>Round trips\<close>

lemma json_fields [simp]:
  "json_get (JObj kvs) k = Some (JStr s) \<Longrightarrow> opt_str (JObj kvs) k = Inr (Some s)"
  "json_get (JObj kvs) k = Some (j_opt x) \<Longrightarrow> opt_str (JObj kvs) k = Inr x"
  "json_get (JObj kvs) k = Some (JBool b) \<Longrightarrow> opt_bool (JObj kvs) k = Inr b"
  by (cases x; simp add: opt_str_def opt_bool_def)+

lemma request_roundtrip: "request_from_json (request_to_json q) = Inr q"
  by (cases q) (simp_all add: request_from_json_def parse_add_converge_def parse_add_mirror_def req_str_def)

lemma reg_roundtrip: "reg_from_json (reg_to_json r) = Inr r"
  by (cases r) (simp_all add: reg_from_json_def req_str_def)

lemma parse_all_map: "(\<And>x. x \<in> set xs \<Longrightarrow> f (g x) = Inr x) \<Longrightarrow> parse_all f (map g xs) = Inr xs"
  by (induction xs) auto

lemma state_roundtrip: "load_state (Inr (Some (state_doc rs))) = Inr rs"
  by (simp add: load_state_def state_doc_def parse_all_map reg_roundtrip)

lemma entry_roundtrip: "0 \<le> ei_head_seq e \<Longrightarrow> ei_head_seq e < 2 ^ 64 \<Longrightarrow> entry_from_json (entry_to_json e) = Inr e"
  by (simp add: entry_from_json_def entry_to_json_def req_str_def opt_u64_def)

lemma response_roundtrip: "rbind (response_from_json (response_to_json r)) (\<lambda>r. Inr (into_result r)) = Inr (into_result r)"
  by (auto simp: response_from_json_def response_to_json_def into_result_def req_str_def split: option.splits)

end
