(* ===== verification/Feed.thy ===== *)
theory Feed
imports Relay_Gc Loops Daemon_Json
begin

text \<open>
  The feed of head hints: the fan-out of the relay (\<open>relay/src/lib.rs\<close>, \<open>ws_subscribe\<close> and \<open>ws_fanout\<close> of
  \<open>relay/src/routes.rs\<close>) and the listener of the client with its reconnects (\<open>core/src/relay.rs\<close>).  A frame is
  the JSON it holds; the WebSocket library and TLS are the moves of the environment.
\<close>

section \<open>Hints\<close>

definition head_now_message :: "string \<Rightarrow> int \<Rightarrow> json" where
  "head_now_message ws seq = JObj [(''type'', JStr ''head_now''), (''workspace'', JStr ws), (''seq'', JInt seq)]"

definition head_changed_message :: "string \<Rightarrow> int \<Rightarrow> json" where
  "head_changed_message ws seq = JObj [(''type'', JStr ''head_changed''), (''workspace'', JStr ws), (''seq'', JInt seq)]"

text \<open>The fields of the derived \<open>Deserialize\<close>: exactly one of each name, others ignored; an array holds them in order.\<close>

definition only_field :: "(string \<times> json) list \<Rightarrow> string \<Rightarrow> json option" where
  "only_field kvs k = (case filter (\<lambda>(k', v). k' = k) kvs of [(_, v)] \<Rightarrow> Some v | _ \<Rightarrow> None)"

definition hint_fields :: "json \<Rightarrow> (json \<times> json \<times> json) option" where
  "hint_fields v =
     (case v of
        JObj kvs \<Rightarrow>
          (case (only_field kvs ''type'', only_field kvs ''workspace'', only_field kvs ''seq'') of
             (Some k, Some w, Some n) \<Rightarrow> Some (k, w, n)
           | _ \<Rightarrow> None)
      | JArr [k, w, n] \<Rightarrow> Some (k, w, n)
      | _ \<Rightarrow> None)"

text \<open>\<open>None\<close> is text that is not JSON.\<close>

definition parse_head_hint :: "json option \<Rightarrow> string \<Rightarrow> int option" where
  "parse_head_hint v ws =
     (case Option.bind v hint_fields of
        Some (JStr kind, JStr w, JInt seq) \<Rightarrow>
          if 0 \<le> seq \<and> seq < 2 ^ 64 \<and> kind \<in> {''head_now'', ''head_changed''} \<and> w = ws then Some seq else None
      | _ \<Rightarrow> None)"

lemma hint_parses [simp]:
  "0 \<le> seq \<Longrightarrow> seq < 2 ^ 64 \<Longrightarrow> parse_head_hint (Some (head_now_message ws seq)) ws = Some seq"
  "0 \<le> seq \<Longrightarrow> seq < 2 ^ 64 \<Longrightarrow> parse_head_hint (Some (head_changed_message ws seq)) ws = Some seq"
  "w \<noteq> ws \<Longrightarrow> parse_head_hint (Some (head_changed_message w seq)) ws = None"
  by (simp_all add: parse_head_hint_def hint_fields_def head_now_message_def head_changed_message_def only_field_def)

section \<open>The fan-out of the relay\<close>

definition HEAD_BROADCAST_CAPACITY :: nat where "HEAD_BROADCAST_CAPACITY = 8"

text \<open>A receiver of the broadcast channel: what it has not received yet, of which only the newest stay, and whether it lags.\<close>

record receiver =
  rc_queue :: "json list"
  rc_lagged :: bool

definition broadcast_send :: "json \<Rightarrow> receiver \<Rightarrow> receiver" where
  "broadcast_send m r =
     (let q = rc_queue r @ [m]
      in r\<lparr>rc_queue := drop (length q - HEAD_BROADCAST_CAPACITY) q, rc_lagged := rc_lagged r \<or> HEAD_BROADCAST_CAPACITY < length q\<rparr>)"

text \<open>
  A connection: the task of the relay with its receiver while it runs, the frames under way, and the
  sequence numbers the client has got from it.
\<close>

datatype frame = TextFrame "json option" | CloseFrame | OtherFrame

record feed_conn =
  fc_workspace :: string
  fc_principal :: principal
  fc_task :: "receiver option"
  fc_wire :: "frame list"
  fc_seqs :: "int list"

text \<open>
  \<open>fs_channels\<close> are the workspaces that have a channel.  \<open>fs_notify\<close> are the commits whose handler has not
  sent its hint yet, \<open>fs_dropped\<close> those whose handler was dropped before it could.
\<close>

record feed_sys =
  fs_relay :: relay
  fs_channels :: "string list"
  fs_conns :: "feed_conn list"
  fs_notify :: "(string \<times> int) list"
  fs_dropped :: "(string \<times> int) list"

definition feed_start :: feed_sys where
  "feed_start = \<lparr>fs_relay = empty_relay, fs_channels = [], fs_conns = [], fs_notify = [], fs_dropped = []\<rparr>"

definition subscribe_head :: "string \<Rightarrow> feed_sys \<Rightarrow> receiver \<times> feed_sys" where
  "subscribe_head ws s = (\<lparr>rc_queue = [], rc_lagged = False\<rparr>, s\<lparr>fs_channels := List.insert ws (fs_channels s)\<rparr>)"

text \<open>The role check, the subscription and the head are read under one lock.\<close>

definition ws_subscribe :: "principal \<Rightarrow> string \<Rightarrow> feed_sys \<Rightarrow> (api_error, feed_sys) result" where
  "ws_subscribe p ws s =
     rbind (require_role (rl_db (fs_relay s)) ws p Reader) (\<lambda>_.
       case subscribe_head ws s of
         (rx, s) \<Rightarrow>
           Inr (s\<lparr>fs_conns := fs_conns s @ [\<lparr>fc_workspace = ws, fc_principal = p, fc_task = Some rx,
             fc_wire = [TextFrame (Some (head_now_message ws (current_seq (rl_db (fs_relay s)) ws)))], fc_seqs = []\<rparr>]\<rparr>))"

definition listens :: "string \<Rightarrow> feed_conn \<Rightarrow> bool" where
  "listens ws c \<longleftrightarrow> fc_workspace c = ws \<and> fc_task c \<noteq> None"

definition notify_head_changed :: "string \<Rightarrow> int \<Rightarrow> feed_sys \<Rightarrow> feed_sys" where
  "notify_head_changed ws seq s =
     (if ws \<notin> set (fs_channels s) then s
      else if \<not> list_ex (listens ws) (fs_conns s) then s\<lparr>fs_channels := removeAll ws (fs_channels s)\<rparr>
      else s\<lparr>fs_conns := map (\<lambda>c. if listens ws c then c\<lparr>fc_task := map_option (broadcast_send (head_changed_message ws seq)) (fc_task c)\<rparr>
                                  else c) (fs_conns s)\<rparr>)"

text \<open>The task of a connection: a hint or a lag from its channel, the periodic check of the role.\<close>

definition fanout_hint :: "feed_conn \<Rightarrow> feed_conn option" where
  "fanout_hint c =
     (case fc_task c of
        None \<Rightarrow> None
      | Some r \<Rightarrow>
          if rc_lagged r then Some (c\<lparr>fc_task := None, fc_wire := fc_wire c @ [CloseFrame]\<rparr>)
          else
            (case rc_queue r of
               [] \<Rightarrow> None
             | m # q \<Rightarrow> Some (c\<lparr>fc_task := Some (r\<lparr>rc_queue := q\<rparr>), fc_wire := fc_wire c @ [TextFrame (Some m)]\<rparr>)))"

definition fanout_recheck :: "db \<Rightarrow> feed_conn \<Rightarrow> feed_conn" where
  "fanout_recheck db c =
     (if fc_task c = None then c
      else
        (case require_role db (fc_workspace c) (fc_principal c) Reader of
           Inl Forbidden \<Rightarrow> c\<lparr>fc_task := None, fc_wire := fc_wire c @ [CloseFrame]\<rparr>
         | Inl (NoWorkspace _) \<Rightarrow> c\<lparr>fc_task := None, fc_wire := fc_wire c @ [CloseFrame]\<rparr>
         | _ \<Rightarrow> c))"

section \<open>The listener of the client\<close>

text \<open>Milliseconds.\<close>

definition WS_RECONNECT_MIN :: nat where "WS_RECONNECT_MIN = 1000"
definition WS_RECONNECT_MAX :: nat where "WS_RECONNECT_MAX = 30000"
definition WS_RECONNECT_RESET :: nat where "WS_RECONNECT_RESET = 90000"
definition WS_KEEPALIVE :: nat where "WS_KEEPALIVE = 45000"

definition next_backoff :: "nat \<Rightarrow> bool \<Rightarrow> nat" where
  "next_backoff current was_stable = (if was_stable then WS_RECONNECT_MIN else min (current * 2) WS_RECONNECT_MAX)"

datatype feed_exit = FeedDead | FeedOrphaned

text \<open>The shared end of the feed: whether it is connected, the hints queued, whether someone reads them.\<close>

record head_feed =
  hf_connected :: bool
  hf_hints :: "int list"
  hf_reader :: bool

datatype read_result = Received frame | Silence | ReadFails

text \<open>One read of an open socket; \<open>ping_ok\<close> says whether a ping can be sent.  A close is a frame, and then the read fails.\<close>

definition listen_step :: "string \<Rightarrow> bool \<Rightarrow> read_result \<Rightarrow> bool \<times> head_feed \<Rightarrow> feed_exit option \<times> bool \<times> head_feed" where
  "listen_step ws ping_ok r pf =
     (case pf of (ping, f) \<Rightarrow>
        (case r of
           Received (TextFrame v) \<Rightarrow>
             (case parse_head_hint v ws of
                Some seq \<Rightarrow>
                  if hf_reader f then (None, False, f\<lparr>hf_hints := hf_hints f @ [seq]\<rparr>) else (Some FeedOrphaned, False, f)
              | None \<Rightarrow> (None, False, f))
         | Received _ \<Rightarrow> (None, False, f)
         | Silence \<Rightarrow> if ping \<or> \<not> ping_ok then (Some FeedDead, ping, f) else (None, True, f)
         | ReadFails \<Rightarrow> (Some FeedDead, ping, f)))"

fun listen_reads :: "string \<Rightarrow> (bool \<times> read_result) list \<Rightarrow> bool \<times> head_feed \<Rightarrow> feed_exit option \<times> bool \<times> head_feed" where
  "listen_reads ws [] pf = (None, pf)"
| "listen_reads ws ((ping_ok, r) # rs) pf =
     (case listen_step ws ping_ok r pf of
        (Some x, pf) \<Rightarrow> (Some x, pf)
      | (None, pf) \<Rightarrow> listen_reads ws rs pf)"

text \<open>One attempt: \<open>opened\<close> says whether the socket opened with its time-out set; it always ends disconnected.\<close>

definition ws_listen_keepalive :: "string \<Rightarrow> bool \<Rightarrow> (bool \<times> read_result) list \<Rightarrow> head_feed \<Rightarrow> feed_exit option \<times> head_feed" where
  "ws_listen_keepalive ws opened rs f =
     (if \<not> opened then (Some FeedDead, f\<lparr>hf_connected := False\<rparr>)
      else
        (case listen_reads ws rs (False, f\<lparr>hf_connected := True\<rparr>) of
           (Some x, _, f) \<Rightarrow> (Some x, f\<lparr>hf_connected := False\<rparr>)
         | (None, _, f) \<Rightarrow> (None, f)))"

text \<open>The supervisor over the ages its dead attempts reached: the delays it sleeps, which count towards the age.\<close>

fun ws_listen :: "nat \<Rightarrow> nat list \<Rightarrow> nat list" where
  "ws_listen backoff [] = []"
| "ws_listen backoff (age # ages) = backoff # ws_listen (next_backoff backoff (WS_RECONNECT_RESET \<le> age + backoff)) ages"

definition feed_drain :: "head_feed \<Rightarrow> head_feed" where
  "feed_drain f = f\<lparr>hf_hints := []\<rparr>"

text \<open>A wait for a hint that comes, if at all, after \<open>after\<close> milliseconds: a dead listener waits the time out too.\<close>

definition feed_recv_timeout :: "nat \<Rightarrow> nat option \<Rightarrow> nat \<times> bool" where
  "feed_recv_timeout dur after =
     (case after of Some ms \<Rightarrow> if ms \<le> dur then (ms, True) else (dur, False) | None \<Rightarrow> (dur, False))"

section \<open>Runs\<close>

text \<open>
  Requests and sweeps of the relay, commits with their hint sent later or never, subscriptions, the
  tasks of the connections, and their clients.
\<close>

inductive feed_run :: "prims \<Rightarrow> (string \<Rightarrow> string) \<Rightarrow> relay_env \<Rightarrow> feed_sys \<Rightarrow> bool" for P H E where
  feed_begins: "feed_run P H E feed_start"
| feed_request: "feed_run P H E s \<Longrightarrow> relay_step P H E (fs_relay s) rl
    \<Longrightarrow> \<forall>ws. current_seq (rl_db rl) ws = current_seq (rl_db (fs_relay s)) ws \<Longrightarrow> feed_run P H E (s\<lparr>fs_relay := rl\<rparr>)"
| feed_commit: "feed_run P H E s \<Longrightarrow> put_head E sync_ok fault p ws device base req (fs_relay s) = (Inr (seq, hash), rl) \<Longrightarrow> seq < 2 ^ 63
    \<Longrightarrow> feed_run P H E (s\<lparr>fs_relay := rl, fs_notify := fs_notify s @ [(ws, seq)]\<rparr>)"
| feed_notify: "feed_run P H E s \<Longrightarrow> fs_notify s = a @ (ws, seq) # b
    \<Longrightarrow> feed_run P H E (notify_head_changed ws seq (s\<lparr>fs_notify := a @ b\<rparr>))"
| feed_drop: "feed_run P H E s \<Longrightarrow> fs_notify s = a @ (ws, seq) # b
    \<Longrightarrow> feed_run P H E (s\<lparr>fs_notify := a @ b, fs_dropped := (ws, seq) # fs_dropped s\<rparr>)"
| feed_subscribe: "feed_run P H E s \<Longrightarrow> ws_subscribe p ws s = Inr s' \<Longrightarrow> feed_run P H E s'"
| feed_hint: "feed_run P H E s \<Longrightarrow> i < length (fs_conns s) \<Longrightarrow> fanout_hint (fs_conns s ! i) = Some c
    \<Longrightarrow> feed_run P H E (s\<lparr>fs_conns := (fs_conns s)[i := c]\<rparr>)"
| feed_recheck: "feed_run P H E s \<Longrightarrow> i < length (fs_conns s)
    \<Longrightarrow> feed_run P H E (s\<lparr>fs_conns := (fs_conns s)[i := fanout_recheck (rl_db (fs_relay s)) (fs_conns s ! i)]\<rparr>)"
| feed_hangup: "feed_run P H E s \<Longrightarrow> i < length (fs_conns s)
    \<Longrightarrow> feed_run P H E (s\<lparr>fs_conns := (fs_conns s)[i := (fs_conns s ! i)\<lparr>fc_task := None, fc_wire := []\<rparr>]\<rparr>)"
| feed_read: "feed_run P H E s \<Longrightarrow> i < length (fs_conns s) \<Longrightarrow> c = fs_conns s ! i \<Longrightarrow> fc_wire c = m # w
    \<Longrightarrow> listen_step (fc_workspace c) ping_ok (Received m) (ping, f) = (None, ping', f')
    \<Longrightarrow> hf_hints f' = hf_hints f @ got
    \<Longrightarrow> feed_run P H E (s\<lparr>fs_conns := (fs_conns s)[i := c\<lparr>fc_wire := w, fc_seqs := fc_seqs c @ got\<rparr>]\<rparr>)"

section \<open>No commit goes unhinted\<close>

definition hint_of :: "string \<Rightarrow> frame \<Rightarrow> int option" where
  "hint_of ws m = (case m of TextFrame v \<Rightarrow> parse_head_hint v ws | _ \<Rightarrow> None)"

text \<open>The sequence numbers a connection has been told, or will be.\<close>

definition told :: "feed_sys \<Rightarrow> feed_conn \<Rightarrow> receiver \<Rightarrow> int set" where
  "told s c r =
     set (fc_seqs c) \<union> {n. \<exists>m\<in>set (fc_wire c). hint_of (fc_workspace c) m = Some n}
     \<union> {n. \<exists>v\<in>set (rc_queue r). parse_head_hint (Some v) (fc_workspace c) = Some n}
     \<union> {n. (fc_workspace c, n) \<in> set (fs_notify s) \<union> set (fs_dropped s)}"

definition conn_ok :: "feed_sys \<Rightarrow> feed_conn \<Rightarrow> bool" where
  "conn_ok s c \<longleftrightarrow>
     (\<forall>r. fc_task c = Some r \<longrightarrow>
        fc_workspace c \<in> set (fs_channels s)
        \<and> (rc_lagged r \<or> (\<exists>n\<in>told s c r. current_seq (rl_db (fs_relay s)) (fc_workspace c) \<le> n)))"

definition seqs_ok :: "feed_sys \<Rightarrow> bool" where
  "seqs_ok s \<longleftrightarrow> (\<forall>ws. 0 \<le> current_seq (rl_db (fs_relay s)) ws \<and> current_seq (rl_db (fs_relay s)) ws < 2 ^ 63)
     \<and> (\<forall>(ws, n)\<in>set (fs_notify s). 0 \<le> n \<and> n < 2 ^ 63)"

definition feed_inv :: "feed_sys \<Rightarrow> bool" where
  "feed_inv s \<longleftrightarrow> seqs_ok s \<and> (\<forall>c\<in>set (fs_conns s). conn_ok s c)"

lemma conn_okD:
  "conn_ok s c \<Longrightarrow> fc_task c = Some r \<Longrightarrow> fc_workspace c \<in> set (fs_channels s)"
  "conn_ok s c \<Longrightarrow> fc_task c = Some r \<Longrightarrow> \<not> rc_lagged r \<Longrightarrow> \<exists>n\<in>told s c r. current_seq (rl_db (fs_relay s)) (fc_workspace c) \<le> n"
  by (auto simp: conn_ok_def)

lemma conn_ok_ended: "fc_task c = None \<Longrightarrow> conn_ok s c"
  by (simp add: conn_ok_def)

text \<open>What a step does to a connection: it stays as well informed as it was.\<close>

lemma conn_ok_mono:
  assumes "conn_ok s c" "fc_workspace c' = fc_workspace c"
    "fc_task c' \<noteq> None \<Longrightarrow> fc_workspace c \<in> set (fs_channels s) \<Longrightarrow> fc_workspace c \<in> set (fs_channels s')"
    and "\<And>r'. fc_task c' = Some r' \<Longrightarrow> \<exists>r. fc_task c = Some r \<and> (rc_lagged r \<longrightarrow> rc_lagged r')
      \<and> (rc_lagged r' \<or> told s c r \<subseteq> told s' c' r')"
    and "current_seq (rl_db (fs_relay s')) (fc_workspace c) = current_seq (rl_db (fs_relay s)) (fc_workspace c)"
  shows "conn_ok s' c'"
  unfolding conn_ok_def
proof (intro allI impI)
  fix r'
  assume t: "fc_task c' = Some r'"
  then obtain r where r: "fc_task c = Some r" "rc_lagged r \<longrightarrow> rc_lagged r'" "rc_lagged r' \<or> told s c r \<subseteq> told s' c' r'"
    using assms(4) by blast
  show "fc_workspace c' \<in> set (fs_channels s')
      \<and> (rc_lagged r' \<or> (\<exists>n\<in>told s' c' r'. current_seq (rl_db (fs_relay s')) (fc_workspace c') \<le> n))"
    using conn_okD [OF assms(1) r(1)] r(2,3) assms(2,3,5) t by auto
qed

lemma feed_inv_update:
  assumes "feed_inv s" "i < length (fs_conns s)" "conn_ok (s\<lparr>fs_conns := (fs_conns s)[i := c]\<rparr>) c"
  shows "feed_inv (s\<lparr>fs_conns := (fs_conns s)[i := c]\<rparr>)"
proof -
  have "conn_ok (s\<lparr>fs_conns := cs\<rparr>) d = conn_ok s d" for cs d
    by (simp add: conn_ok_def told_def)
  then show ?thesis
    using assms set_update_subset_insert [of "fs_conns s" i c] by (auto simp: feed_inv_def seqs_ok_def)
qed

lemma put_head_seqs:
  assumes "bt_wf (db_heads (rl_db rl))" "put_head E sync_ok fault p ws device base req rl = (Inr (seq, hash), rl')"
  shows "current_seq (rl_db rl') = (current_seq (rl_db rl))(ws := seq)" "seq = current_seq (rl_db rl) ws + 1"
proof -
  have "register (rl_db rl') = (register (rl_db rl))(ws := (seq, snd (register (rl_db rl') ws))) \<and> seq = current_seq (rl_db rl) ws + 1"
    using assms(2)
  proof (cases rule: put_head_cases)
    case (committed w d stored refs)
    then show ?thesis
      using register_commit [OF assms(1), of fault ws "re_hash E stored" stored refs "()" "rl_db rl'"] by auto
  qed auto
  then have reg: "register (rl_db rl') = (register (rl_db rl))(ws := (seq, snd (register (rl_db rl') ws)))"
    and seq: "seq = current_seq (rl_db rl) ws + 1"
    by blast+
  show "seq = current_seq (rl_db rl) ws + 1"
    by (rule seq)
  have "fst (register (rl_db rl') w) = (if w = ws then seq else fst (register (rl_db rl) w))" for w
    by (subst reg) simp
  then show "current_seq (rl_db rl') = (current_seq (rl_db rl))(ws := seq)"
    by (intro ext) simp
qed

lemma notify_frames [simp]:
  "fs_relay (notify_head_changed ws seq s) = fs_relay s" "fs_notify (notify_head_changed ws seq s) = fs_notify s"
  "fs_dropped (notify_head_changed ws seq s) = fs_dropped s"
  by (simp_all add: notify_head_changed_def)

lemma subscribe_frames:
  assumes "ws_subscribe p ws s = Inr s'"
  shows "fs_relay s' = fs_relay s" "fs_notify s' = fs_notify s" "fs_dropped s' = fs_dropped s"
    "set (fs_channels s') = insert ws (set (fs_channels s))"
    "fs_conns s' = fs_conns s @ [\<lparr>fc_workspace = ws, fc_principal = p, fc_task = Some \<lparr>rc_queue = [], rc_lagged = False\<rparr>,
       fc_wire = [TextFrame (Some (head_now_message ws (current_seq (rl_db (fs_relay s)) ws)))], fc_seqs = []\<rparr>]"
  using assms by (auto simp: ws_subscribe_def subscribe_head_def rbind_def split: sum.splits)

lemma feed_relay: "feed_run P H E s \<Longrightarrow> relay_run P H E empty_relay (fs_relay s)"
proof (induction rule: feed_run.induct)
  case feed_begins
  then show ?case by (simp add: feed_start_def relay_refl)
next
  case (feed_request s rl)
  then show ?case using relay_more by simp
next
  case (feed_commit s sync_ok fault p ws device base req seq hash rl)
  then show ?case using relay_more [OF feed_commit.IH rel_head] by fastforce
next
  case (feed_subscribe s p ws s')
  then show ?case using subscribe_frames(1) by metis
qed simp_all

text \<open>A hint sent to the receivers of its workspace is not forgotten.\<close>

lemma told_broadcast:
  assumes "0 \<le> seq" "seq < 2 ^ 63" "fs_notify s = a @ (ws, seq) # b" "fc_workspace c = ws"
    and "\<not> rc_lagged (broadcast_send (head_changed_message ws seq) r)"
  shows "told s c r \<subseteq> told (s\<lparr>fs_notify := a @ b\<rparr>) c (broadcast_send (head_changed_message ws seq) r)"
proof -
  have "rc_queue (broadcast_send (head_changed_message ws seq) r) = rc_queue r @ [head_changed_message ws seq]"
    using assms(5) by (auto simp: broadcast_send_def Let_def)
  then show ?thesis
    using assms(1-4) by (auto simp: told_def)
qed

lemma told_notify: "told (notify_head_changed ws seq s) c r = told s c r"
  by (simp add: told_def)

lemma feed_inv_notify:
  assumes "feed_inv s" "fs_notify s = a @ (ws, seq) # b"
  shows "feed_inv (notify_head_changed ws seq (s\<lparr>fs_notify := a @ b\<rparr>))"
proof -
  let ?t = "s\<lparr>fs_notify := a @ b\<rparr>" and ?m = "head_changed_message ws seq"
  let ?s = "notify_head_changed ws seq ?t"
  have seq: "0 \<le> seq" "seq < 2 ^ 63" and ok: "\<And>c. c \<in> set (fs_conns s) \<Longrightarrow> conn_ok s c"
    using assms by (auto simp: feed_inv_def seqs_ok_def)
  have quiet: "conn_ok ?s c" if c: "c \<in> set (fs_conns s)" "\<not> listens ws c" for c
  proof (rule conn_ok_mono [OF ok [OF c(1)] refl])
    show "\<exists>r. fc_task c = Some r \<and> (rc_lagged r \<longrightarrow> rc_lagged r') \<and> (rc_lagged r' \<or> told s c r \<subseteq> told ?s c r')"
      if "fc_task c = Some r'" for r'
      using that c(2) assms(2) by (auto simp: told_notify listens_def) (auto simp: told_def)
  qed (use c in \<open>auto simp: notify_head_changed_def listens_def\<close>)
  have heard: "conn_ok ?s (c\<lparr>fc_task := map_option (broadcast_send ?m) (fc_task c)\<rparr>)"
    if c: "c \<in> set (fs_conns s)" "listens ws c" "list_ex (listens ws) (fs_conns s)" "ws \<in> set (fs_channels s)" for c
  proof (rule conn_ok_mono [OF ok [OF c(1)]])
    show "\<exists>r. fc_task c = Some r \<and> (rc_lagged r \<longrightarrow> rc_lagged r')
        \<and> (rc_lagged r' \<or> told s c r \<subseteq> told ?s (c\<lparr>fc_task := map_option (broadcast_send ?m) (fc_task c)\<rparr>) r')"
      if task: "fc_task (c\<lparr>fc_task := map_option (broadcast_send ?m) (fc_task c)\<rparr>) = Some r'" for r'
    proof -
      obtain r where r: "fc_task c = Some r" "r' = broadcast_send ?m r"
        using task by auto
      have "rc_lagged r \<longrightarrow> rc_lagged r'"
        by (simp add: r(2) broadcast_send_def Let_def)
      moreover have "told s c r \<subseteq> told ?t c r'" if "\<not> rc_lagged r'"
        using told_broadcast [OF seq assms(2)] c(2) that r(2) by (simp add: listens_def)
      moreover have "told ?s (c\<lparr>fc_task := x\<rparr>) r' = told ?t c r'" for x
        by (simp add: told_def)
      ultimately show ?thesis
        using r(1) by metis
    qed
  qed (use c in \<open>auto simp: notify_head_changed_def\<close>)
  have "conn_ok ?s c" if "c \<in> set (fs_conns ?s)" for c
  proof (cases "ws \<in> set (fs_channels s) \<and> list_ex (listens ws) (fs_conns s)")
    case True
    then have "fs_conns ?s = map (\<lambda>c. if listens ws c then c\<lparr>fc_task := map_option (broadcast_send ?m) (fc_task c)\<rparr> else c) (fs_conns s)"
      by (simp add: notify_head_changed_def)
    then show ?thesis
      using that True heard quiet by (auto split: if_splits)
  next
    case False
    then have "fs_conns ?s = fs_conns s"
      by (auto simp: notify_head_changed_def)
    moreover have "\<not> listens ws c" if "c \<in> set (fs_conns s)"
      using False that ok [OF that] by (auto simp: listens_def list_ex_iff conn_ok_def)
    ultimately show ?thesis
      using that quiet by simp
  qed
  moreover have "seqs_ok ?s"
    using assms by (auto simp: feed_inv_def seqs_ok_def)
  ultimately show ?thesis
    by (simp add: feed_inv_def)
qed

lemma feed_inv_subscribe:
  assumes "feed_inv s" "ws_subscribe p ws s = Inr s'"
  shows "feed_inv s'"
proof -
  note fr = subscribe_frames [OF assms(2)]
  have "conn_ok s' c" if "c \<in> set (fs_conns s)" for c
  proof (rule conn_ok_mono [where s = s and c = c])
    show "conn_ok s c"
      using assms(1) that by (simp add: feed_inv_def)
  qed (auto simp: fr told_def)
  moreover have "conn_ok s' \<lparr>fc_workspace = ws, fc_principal = p, fc_task = Some \<lparr>rc_queue = [], rc_lagged = False\<rparr>,
       fc_wire = [TextFrame (Some (head_now_message ws (current_seq (rl_db (fs_relay s)) ws)))], fc_seqs = []\<rparr>"
  proof -
    have "0 \<le> current_seq (rl_db (fs_relay s)) ws \<and> current_seq (rl_db (fs_relay s)) ws < 2 ^ 63"
      using assms(1) by (simp add: feed_inv_def seqs_ok_def)
    then have "0 \<le> current_seq (rl_db (fs_relay s)) ws" "current_seq (rl_db (fs_relay s)) ws < 2 ^ 64"
      by simp_all
    then show ?thesis
      by (simp add: conn_ok_def fr told_def hint_of_def)
  qed
  ultimately show ?thesis
    using assms(1) by (auto simp: feed_inv_def seqs_ok_def fr)
qed

lemma feed_inv_commit:
  assumes "feed_inv s" "bt_wf (db_heads (rl_db (fs_relay s)))" "seq < 2 ^ 63"
    and "put_head E sync_ok fault p ws device base req (fs_relay s) = (Inr (seq, hash), rl)"
  shows "feed_inv (s\<lparr>fs_relay := rl, fs_notify := fs_notify s @ [(ws, seq)]\<rparr>)"
proof -
  let ?s = "s\<lparr>fs_relay := rl, fs_notify := fs_notify s @ [(ws, seq)]\<rparr>"
  note seqs = put_head_seqs [OF assms(2,4)]
  have pos: "0 \<le> seq"
    using assms(1) seqs(2) by (simp add: feed_inv_def seqs_ok_def add_increasing2)
  have "conn_ok ?s c" if c: "c \<in> set (fs_conns s)" for c
  proof (cases "fc_workspace c = ws")
    case True
    have "seq \<in> told ?s c r" for r
      using True by (simp add: told_def)
    then show ?thesis
      using assms(1) c True by (auto simp: conn_ok_def feed_inv_def seqs(1))
  next
    case False
    show ?thesis
      by (rule conn_ok_mono [where s = s and c = c])
        (use assms(1) c False in \<open>auto simp: feed_inv_def seqs(1) told_def\<close>)
  qed
  then show ?thesis
    using assms(1,3) pos by (auto simp: feed_inv_def seqs_ok_def seqs(1))
qed

text \<open>The steps of one connection.\<close>

lemma fanout_hint_ok:
  assumes "conn_ok s c" "fanout_hint c = Some c'"
  shows "conn_ok (s\<lparr>fs_conns := cs\<rparr>) c'"
proof (cases "fc_task c'")
  case None
  then show ?thesis by (rule conn_ok_ended)
next
  case (Some r')
  then obtain r m where r: "fc_task c = Some r" "\<not> rc_lagged r" "rc_queue r = m # rc_queue r'" "rc_lagged r' = rc_lagged r"
    "c' = c\<lparr>fc_task := Some r', fc_wire := fc_wire c @ [TextFrame (Some m)]\<rparr>"
    using assms(2) by (auto simp: fanout_hint_def split: option.splits list.splits if_splits)
  have "told s c r \<subseteq> told (s\<lparr>fs_conns := cs\<rparr>) c' r'"
    unfolding r(5) by (auto simp: told_def r(3) hint_of_def)
  then show ?thesis
    by (intro conn_ok_mono [OF assms(1)]) (use r Some in auto)
qed

lemma read_ok:
  assumes "conn_ok s c" "fc_wire c = m # w" "listen_step (fc_workspace c) ping_ok (Received m) (ping, f) = (None, ping', f')"
    "hf_hints f' = hf_hints f @ got"
  shows "conn_ok (s\<lparr>fs_conns := cs\<rparr>) (c\<lparr>fc_wire := w, fc_seqs := fc_seqs c @ got\<rparr>)"
proof (rule conn_ok_mono [OF assms(1)])
  have "set got = {n. hint_of (fc_workspace c) m = Some n}"
    using assms(3,4) by (cases m) (auto simp: listen_step_def hint_of_def split: option.splits if_splits)
  then have "told s c r \<subseteq> told (s\<lparr>fs_conns := cs\<rparr>) (c\<lparr>fc_wire := w, fc_seqs := fc_seqs c @ got\<rparr>) r" for r
    using assms(2) by (auto simp: told_def)
  then show "\<exists>r. fc_task c = Some r \<and> (rc_lagged r \<longrightarrow> rc_lagged r')
      \<and> (rc_lagged r' \<or> told s c r \<subseteq> told (s\<lparr>fs_conns := cs\<rparr>) (c\<lparr>fc_wire := w, fc_seqs := fc_seqs c @ got\<rparr>) r')"
    if "fc_task (c\<lparr>fc_wire := w, fc_seqs := fc_seqs c @ got\<rparr>) = Some r'" for r'
    using that by auto
qed simp_all

lemma recheck_ok: "conn_ok s c \<Longrightarrow> conn_ok (s\<lparr>fs_conns := cs\<rparr>) (fanout_recheck db c)"
proof -
  assume ok: "conn_ok s c"
  have "fanout_recheck db c = c \<or> fc_task (fanout_recheck db c) = None"
    by (auto simp: fanout_recheck_def split: sum.splits api_error.splits)
  then show ?thesis
    using ok conn_ok_ended by (auto simp: conn_ok_def told_def)
qed

lemma feed_run_inv:
  assumes "feed_run P H E s" "envelope_law E"
  shows "feed_inv s"
  using assms(1)
proof (induction rule: feed_run.induct)
  case feed_begins
  then show ?case
    by (simp add: feed_inv_def seqs_ok_def feed_start_def empty_relay_def current_seq_def current_head_def empty_db_def)
next
  case (feed_request s rl)
  have "conn_ok (s\<lparr>fs_relay := rl\<rparr>) c" if "conn_ok s c" for c
    by (rule conn_ok_mono [OF that]) (use feed_request.hyps in \<open>auto simp: told_def\<close>)
  then show ?case
    using feed_request by (simp add: feed_inv_def seqs_ok_def)
next
  case (feed_commit s sync_ok fault p ws device base req seq hash rl)
  have "pool_ok E (fs_relay s)"
    using pool_ok_run [OF feed_relay [OF feed_commit.hyps(1)] empty_relay_ok assms(2)] .
  then have "bt_wf (db_heads (rl_db (fs_relay s)))"
    using reachable_ok by (auto simp: pool_ok_def db_ok_def tables_wf_def)
  then show ?case
    using feed_inv_commit feed_commit by blast
next
  case (feed_notify s a ws seq b)
  then show ?case using feed_inv_notify by blast
next
  case (feed_drop s a ws seq b)
  have "conn_ok (s\<lparr>fs_notify := a @ b, fs_dropped := (ws, seq) # fs_dropped s\<rparr>) c" if "conn_ok s c" for c
    by (rule conn_ok_mono [OF that]) (use feed_drop.hyps in \<open>auto simp: told_def\<close>)
  then show ?case
    using feed_drop by (auto simp: feed_inv_def seqs_ok_def)
next
  case (feed_subscribe s p ws s')
  then show ?case using feed_inv_subscribe by blast
next
  case (feed_hint s i c)
  then show ?case
    by (intro feed_inv_update fanout_hint_ok [where c = "fs_conns s ! i"]) (auto simp: feed_inv_def)
next
  case (feed_recheck s i)
  then show ?case
    by (intro feed_inv_update recheck_ok) (auto simp: feed_inv_def)
next
  case (feed_hangup s i)
  then show ?case
    by (intro feed_inv_update conn_ok_ended) auto
next
  case (feed_read s i c m w ping_ok ping f ping' f' got)
  then show ?case
    by (intro feed_inv_update read_ok) (auto simp: feed_inv_def)
qed

text \<open>C32: A head feed that is open and quiet is up to date: whatever commits, sweeps, subscriptions and
  disconnections came in whatever order, once the hints of all commits are sent and nothing is under
  way, an open connection that does not lag has given its client the number of the present head or a
  later one, unless the handler of a commit was dropped before it could send its hint.
\<close>

theorem quiet_feed_is_current:
  assumes "feed_run P H E s" "envelope_law E" "c \<in> set (fs_conns s)"
    and "fc_task c = Some r" "\<not> rc_lagged r" "rc_queue r = []" "fc_wire c = []"
    and "fc_workspace c \<notin> fst ` set (fs_notify s)" "fc_workspace c \<notin> fst ` set (fs_dropped s)"
  shows "\<exists>n\<in>set (fc_seqs c). current_seq (rl_db (fs_relay s)) (fc_workspace c) \<le> n"
proof -
  have "conn_ok s c"
    using feed_run_inv [OF assms(1,2)] assms(3) by (simp add: feed_inv_def)
  moreover have "told s c r = set (fc_seqs c)"
    using assms(6-9) by (force simp: told_def)
  ultimately show ?thesis
    using conn_okD(2) assms(4,5) by metis
qed

section \<open>A concrete feed\<close>

lemma toy_relay_step: "relay_step toy_prims (\<lambda>x. x) toy_env empty_relay toy_relay"
proof -
  have "snd (api_create_workspace (User ''alice'') ''w'' ''n'' None True empty_db) = rl_db toy_relay"
    by code_simp
  then have "account_step toy_prims (\<lambda>x. x) (rl_db empty_relay) (rl_db toy_relay)"
    using acc_create_workspace [OF surjective_pairing] by (metis empty_relay_def relay.select_convs(1))
  then have "relay_step toy_prims (\<lambda>x. x) toy_env empty_relay (empty_relay\<lparr>rl_db := rl_db toy_relay\<rparr>)"
    by (rule rel_account)
  moreover have "empty_relay\<lparr>rl_db := rl_db toy_relay\<rparr> = toy_relay"
    by (simp add: empty_relay_def toy_relay_def)
  ultimately show ?thesis
    by simp
qed

lemma toy_heads: "db_heads (rl_db toy_relay) = []" "db_heads (rl_db empty_relay) = []"
  by (simp_all add: toy_relay_def empty_relay_def empty_db_def)

lemma toy_seqs: "current_seq (rl_db toy_relay) ws = 0" "current_seq (rl_db empty_relay) ws = 0"
  by (simp_all add: current_seq_def current_head_def toy_heads)

lemma toy_empty_commit:
  obtains hash rl where "put_head toy_env (\<lambda>_. True) False (User ''alice'') ''w'' (Some ''d'') 0 (toy_commit []) toy_relay = (Inr (1, hash), rl)"
proof -
  have dev: "check_device ''d'' = Inr ()"
    by code_simp
  have ins: "fst (insert_head False ''w'' 1 h m hs (rl_db toy_relay)) = Inr ()" for h m hs
    by (simp add: insert_head_def with_tx_def toy_heads bt_contains_def Let_def)
  have role: "require_role (rl_db toy_relay) ''w'' (User ''alice'') least = Inr toy_row" for least
    using toy_relay_role by (simp add: toy_row_def)
  obtain r rl where put: "put_head toy_env (\<lambda>_. True) False (User ''alice'') ''w'' (Some ''d'') 0 (toy_commit []) toy_relay = (r, rl)"
    by fastforce
  have "is_ok (fst (put_head toy_env (\<lambda>_. True) False (User ''alice'') ''w'' (Some ''d'') 0 (toy_commit []) toy_relay))"
    using role dev toy_relay_payload toy_seqs ins store_flush_all_ok [of "rl_store toy_relay"]
    by (simp add: put_head_def Let_def split_def)
  then obtain v where "r = Inr v"
    using put by (auto simp: is_ok_def split: sum.splits)
  moreover have "bt_wf (db_heads (rl_db toy_relay))"
    by (simp add: toy_heads)
  ultimately show thesis
    using that put_head_seqs(2) put by (cases v) (fastforce simp: toy_seqs)
qed

definition toy_conn :: "receiver \<Rightarrow> frame list \<Rightarrow> int list \<Rightarrow> feed_conn" where
  "toy_conn r w ns = \<lparr>fc_workspace = ''w'', fc_principal = User ''alice'', fc_task = Some r, fc_wire = w, fc_seqs = ns\<rparr>"

definition idle :: receiver where "idle = \<lparr>rc_queue = [], rc_lagged = False\<rparr>"

definition toy_feed :: "relay \<Rightarrow> feed_conn \<Rightarrow> (string \<times> int) list \<Rightarrow> (string \<times> int) list \<Rightarrow> feed_sys" where
  "toy_feed rl c ns ds = \<lparr>fs_relay = rl, fs_channels = [''w''], fs_conns = [c], fs_notify = ns, fs_dropped = ds\<rparr>"

text \<open>Alice subscribes, is told of head 0, and commits head 1.\<close>

lemma toy_committed:
  obtains rl where "feed_run toy_prims (\<lambda>x. x) toy_env (toy_feed rl (toy_conn idle [] [0]) [(''w'', 1)] [])"
    "current_seq (rl_db rl) ''w'' = 1"
proof -
  have a: "feed_run toy_prims (\<lambda>x. x) toy_env (feed_start\<lparr>fs_relay := toy_relay\<rparr>)"
    by (rule feed_request [OF feed_begins]) (simp_all add: feed_start_def toy_relay_step toy_seqs)
  have "ws_subscribe (User ''alice'') ''w'' (feed_start\<lparr>fs_relay := toy_relay\<rparr>)
      = Inr (toy_feed toy_relay (toy_conn idle [TextFrame (Some (head_now_message ''w'' 0))] []) [] [])"
    using toy_relay_role by (simp add: ws_subscribe_def subscribe_head_def feed_start_def toy_feed_def toy_conn_def idle_def toy_seqs)
  from feed_subscribe [OF a this]
  have b: "feed_run toy_prims (\<lambda>x. x) toy_env (toy_feed toy_relay (toy_conn idle [TextFrame (Some (head_now_message ''w'' 0))] []) [] [])" .
  have step: "listen_step ''w'' True (Received (TextFrame (Some (head_now_message ''w'' 0)))) (False, \<lparr>hf_connected = True, hf_hints = [], hf_reader = True\<rparr>)
      = (None, False, \<lparr>hf_connected = True, hf_hints = [0], hf_reader = True\<rparr>)"
    by (simp add: listen_step_def)
  have c: "feed_run toy_prims (\<lambda>x. x) toy_env (toy_feed toy_relay (toy_conn idle [] [0]) [] [])"
    using feed_read [OF b, of 0 _ _ _ True False "\<lparr>hf_connected = True, hf_hints = [], hf_reader = True\<rparr>" False _ "[0]"] step
    by (simp add: toy_feed_def toy_conn_def)
  obtain hash rl where p: "put_head toy_env (\<lambda>_. True) False (User ''alice'') ''w'' (Some ''d'') 0 (toy_commit []) toy_relay = (Inr (1, hash), rl)"
    by (rule toy_empty_commit)
  have "feed_run toy_prims (\<lambda>x. x) toy_env (toy_feed rl (toy_conn idle [] [0]) [(''w'', 1)] [])"
    using feed_commit [OF c, of "\<lambda>_. True" False "User ''alice''" "''w''" "Some ''d''" 0 "toy_commit []" 1 hash rl] p
    by (simp add: toy_feed_def)
  moreover have "bt_wf (db_heads (rl_db toy_relay))"
    by (simp add: toy_heads)
  ultimately show thesis
    using that put_head_seqs(1) [OF _ p] by simp
qed

text \<open>
  A commit can go unhinted: when its client hangs up between the commit and the hint, the handler is
  dropped, every open feed stays quiet on the old head, and the devices wait for the long poll.
\<close>

lemma dropped_commit_unhinted:
  "\<exists>s c r. feed_run toy_prims (\<lambda>x. x) toy_env s \<and> fs_conns s = [c] \<and> fs_notify s = [] \<and> fc_task c = Some r \<and> \<not> rc_lagged r
     \<and> rc_queue r = [] \<and> fc_wire c = [] \<and> fc_seqs c = [0] \<and> current_seq (rl_db (fs_relay s)) (fc_workspace c) = 1"
proof -
  obtain rl where rl: "feed_run toy_prims (\<lambda>x. x) toy_env (toy_feed rl (toy_conn idle [] [0]) [(''w'', 1)] [])"
    "current_seq (rl_db rl) ''w'' = 1"
    by (rule toy_committed)
  have "feed_run toy_prims (\<lambda>x. x) toy_env (toy_feed rl (toy_conn idle [] [0]) [] [(''w'', 1)])"
    using feed_drop [OF rl(1), of "[]" "''w''" 1 "[]"] by (simp add: toy_feed_def)
  then show ?thesis
    using rl(2) by (intro exI [of _ "toy_feed rl (toy_conn idle [] [0]) [] [(''w'', 1)]"] exI [of _ "toy_conn idle [] [0]"] exI [of _ idle])
      (simp add: toy_feed_def toy_conn_def idle_def)
qed

lemma quiet_feed_is_current_witness:
  "\<exists>s c. feed_run toy_prims (\<lambda>x. x) toy_env s \<and> fs_conns s = [c] \<and> current_seq (rl_db (fs_relay s)) ''w'' = 1 \<and> (\<exists>n\<in>set (fc_seqs c). 1 \<le> n)"
proof -
  let ?m = "head_changed_message ''w'' 1"
  obtain rl where rl: "feed_run toy_prims (\<lambda>x. x) toy_env (toy_feed rl (toy_conn idle [] [0]) [(''w'', 1)] [])"
    "current_seq (rl_db rl) ''w'' = 1"
    by (rule toy_committed)
  have a: "feed_run toy_prims (\<lambda>x. x) toy_env (toy_feed rl (toy_conn (idle\<lparr>rc_queue := [?m]\<rparr>) [] [0]) [] [])"
    using feed_notify [OF rl(1), of "[]" "''w''" 1 "[]"]
    by (simp add: toy_feed_def notify_head_changed_def listens_def toy_conn_def broadcast_send_def idle_def HEAD_BROADCAST_CAPACITY_def)
  have b: "feed_run toy_prims (\<lambda>x. x) toy_env (toy_feed rl (toy_conn idle [TextFrame (Some ?m)] [0]) [] [])"
    using feed_hint [OF a, of 0 "toy_conn idle [TextFrame (Some ?m)] [0]"]
    by (simp add: toy_feed_def fanout_hint_def toy_conn_def idle_def)
  have step: "listen_step ''w'' True (Received (TextFrame (Some ?m))) (False, \<lparr>hf_connected = True, hf_hints = [], hf_reader = True\<rparr>)
      = (None, False, \<lparr>hf_connected = True, hf_hints = [1], hf_reader = True\<rparr>)"
    by (simp add: listen_step_def)
  have c: "feed_run toy_prims (\<lambda>x. x) toy_env (toy_feed rl (toy_conn idle [] [0, 1]) [] [])"
    using feed_read [OF b, of 0 _ _ _ True False "\<lparr>hf_connected = True, hf_hints = [], hf_reader = True\<rparr>" False _ "[1]"] step
    by (simp add: toy_feed_def toy_conn_def)
  have "\<exists>n\<in>set (fc_seqs (toy_conn idle [] [0, 1])).
      current_seq (rl_db (fs_relay (toy_feed rl (toy_conn idle [] [0, 1]) [] []))) (fc_workspace (toy_conn idle [] [0, 1])) \<le> n"
    by (rule quiet_feed_is_current [OF c toy_env_law, where r = idle]) (simp_all add: toy_feed_def toy_conn_def idle_def)
  then have "\<exists>n\<in>set (fc_seqs (toy_conn idle [] [0, 1])). 1 \<le> n"
    using rl(2) by (simp add: toy_feed_def toy_conn_def)
  then show ?thesis
    using c rl(2) by (intro exI [of _ "toy_feed rl (toy_conn idle [] [0, 1]) [] []"] exI [of _ "toy_conn idle [] [0, 1]"]) (simp add: toy_feed_def)
qed

section \<open>Reconnects\<close>

lemma next_backoff_bounds: "WS_RECONNECT_MIN \<le> b \<Longrightarrow> b \<le> WS_RECONNECT_MAX \<Longrightarrow>
    WS_RECONNECT_MIN \<le> next_backoff b was \<and> next_backoff b was \<le> WS_RECONNECT_MAX"
  by (auto simp: next_backoff_def WS_RECONNECT_MIN_def WS_RECONNECT_MAX_def)

text \<open>Attempts are never closer than a second and never further apart than half a minute.\<close>

lemma ws_listen_bounds:
  "WS_RECONNECT_MIN \<le> b \<Longrightarrow> b \<le> WS_RECONNECT_MAX \<Longrightarrow> d \<in> set (ws_listen b ages) \<Longrightarrow> WS_RECONNECT_MIN \<le> d \<and> d \<le> WS_RECONNECT_MAX"
proof (induction b ages rule: ws_listen.induct)
  case (2 b age ages)
  then show ?case
    using next_backoff_bounds [OF 2(2,3)] by auto
qed simp

text \<open>While attempts stay short the delays double up to the cap.\<close>

lemma ws_listen_doubles:
  assumes "\<forall>age\<in>set ages. age + WS_RECONNECT_MAX < WS_RECONNECT_RESET" "i < length ages"
  shows "ws_listen (min (WS_RECONNECT_MIN * 2 ^ k) WS_RECONNECT_MAX) ages ! i = min (WS_RECONNECT_MIN * 2 ^ (k + i)) WS_RECONNECT_MAX"
  using assms
proof (induction ages arbitrary: k i)
  case (Cons age ages)
  have "\<not> WS_RECONNECT_RESET \<le> age + min (WS_RECONNECT_MIN * 2 ^ k) WS_RECONNECT_MAX"
    using Cons.prems(1) by (simp add: min_def split: if_splits)
  then have "next_backoff (min (WS_RECONNECT_MIN * 2 ^ k) WS_RECONNECT_MAX) (WS_RECONNECT_RESET \<le> age + min (WS_RECONNECT_MIN * 2 ^ k) WS_RECONNECT_MAX)
      = min (WS_RECONNECT_MIN * 2 ^ Suc k) WS_RECONNECT_MAX"
    by (auto simp: next_backoff_def WS_RECONNECT_MAX_def)
  then show ?case
    using Cons.IH [of "i - 1" "Suc k"] Cons.prems by (cases i) auto
qed simp

text \<open>An attempt counts its own back-off: one of a minute that never connected resets the schedule.\<close>

lemma slow_attempt_resets: "ws_listen 30000 [60000, 0] = [30000, 1000]"
  by (simp add: next_backoff_def WS_RECONNECT_RESET_def WS_RECONNECT_MIN_def WS_RECONNECT_MAX_def)

text \<open>A relay that goes silent is noticed after two silent waits; every attempt that ends leaves the feed disconnected.\<close>

lemma silent_relay_noticed:
  "listen_reads ws rs pf = (None, pf') \<Longrightarrow> fst (listen_reads ws (rs @ [(ok1, Silence), (ok2, Silence)]) pf) = Some FeedDead"
proof (induction ws rs pf rule: listen_reads.induct)
  case (1 ws pf)
  then show ?case
    by (cases pf) (auto simp: listen_step_def split: option.splits)
next
  case (2 ws ok r rs pf)
  then show ?case
    by (auto split: option.splits prod.splits)
qed

lemma attempt_ends_disconnected: "ws_listen_keepalive ws opened rs f = (Some x, f') \<Longrightarrow> \<not> hf_connected f'"
  by (auto simp: ws_listen_keepalive_def split: if_splits option.splits prod.splits)

end
