(* ===== verification/Daemon.thy ===== *)
theory Daemon
imports Loops Daemon_Json
begin

text \<open>
  The registry of the daemon (\<open>cli/src/bin/peard.rs\<close>): add, remove, list, restore and shutdown over the
  registered workers, each a registration with the \<open>LoopControl\<close> of its thread.  A spawned thread is
  recorded with the token it was given.  The hash map is kept in key order.
\<close>

section \<open>The registry\<close>

record worker =
  wk_registration :: registration
  wk_control :: loop_control

record daemon =
  dm_workers :: "(string, worker) btree"
  dm_state :: "json option"                               \<comment> \<open>\<open>daemon.json\<close>\<close>
  dm_threads :: "(registration \<times> string option) list"    \<comment> \<open>spawned, with their tokens\<close>
  dm_detached :: "worker list"                            \<comment> \<open>removed, their threads told to stop\<close>

text \<open>The world around it: paths as the file system resolves them, whether the state file can be
  written, the words of a loop's error.\<close>

record daemon_env =
  de_canonical :: "string \<Rightarrow> string option"
  de_absolute :: "string \<Rightarrow> string option"
  de_persist_ok :: bool
  de_words :: "loop_error \<Rightarrow> string"

datatype daemon_error =
    BadPath string | NoRelayUrl | NoToken | NoWorkspaceId | AlreadyRegistered string | NotRegistered string
  | PersistFailed | StateUnreadable field_error

definition daemon_new :: "json option \<Rightarrow> daemon" where
  "daemon_new doc = \<lparr>dm_workers = [], dm_state = doc, dm_threads = [], dm_detached = []\<rparr>"

fun reg_target :: "registration \<Rightarrow> string option \<times> string option \<times> string option" where
  "reg_target (RegConverge _ r w _ _ _ _ _) = (None, Some r, w)"
| "reg_target (RegWatch _ t) = (Some t, None, None)"
| "reg_target (RegMirror _ w r _ _) = (None, Some r, Some w)"

definition entry_info_of :: "daemon_env \<Rightarrow> registration \<Rightarrow> loop_control \<Rightarrow> entry_info" where
  "entry_info_of D r lc =
     (case reg_target r of (t, rl, w) \<Rightarrow>
        \<lparr>ei_path = reg_path r, ei_role = reg_role r, ei_target = t, ei_relay = rl, ei_workspace = w,
         ei_state = (if lc_error lc \<noteq> None then ''error'' else if lc_stop lc then ''stopped'' else ''running''),
         ei_head_seq = lc_head_seq lc, ei_error = map_option (de_words D) (lc_error lc)\<rparr>)"

definition registered :: "daemon \<Rightarrow> registration list" where
  "registered dm = map (\<lambda>(k, w). wk_registration w) (dm_workers dm)"

definition persist :: "daemon_env \<Rightarrow> daemon \<Rightarrow> (daemon_error, unit) result \<times> daemon" where
  "persist D dm =
     (if de_persist_ok D then (Inr (), dm\<lparr>dm_state := Some (state_doc (registered dm))\<rparr>) else (Inl PersistFailed, dm))"

definition spawn_worker :: "registration \<Rightarrow> string option \<Rightarrow> daemon \<Rightarrow> daemon" where
  "spawn_worker r token dm = dm\<lparr>dm_threads := dm_threads dm @ [(r, token)]\<rparr>"

definition start_worker :: "daemon_env \<Rightarrow> registration \<Rightarrow> string option \<Rightarrow> daemon \<Rightarrow> (daemon_error, entry_info) result \<times> daemon" where
  "start_worker D r token dm =
     (if bt_contains (dm_workers dm) (reg_key r) then (Inl (AlreadyRegistered (reg_path r)), dm)
      else
        (Inr (entry_info_of D r lc_worker),
         (spawn_worker r token dm)\<lparr>dm_workers := bt_insert (reg_key r) \<lparr>wk_registration = r, wk_control = lc_worker\<rparr> (dm_workers dm)\<rparr>))"

definition start_and_persist :: "daemon_env \<Rightarrow> registration \<Rightarrow> string option \<Rightarrow> daemon \<Rightarrow> (daemon_error, entry_info) result \<times> daemon" where
  "start_and_persist D r token =
     io_bind (start_worker D r token) (\<lambda>entry. io_bind (persist D) (\<lambda>_. io_return entry))"

definition canonical_path :: "daemon_env \<Rightarrow> string \<Rightarrow> daemon \<Rightarrow> (daemon_error, string) result \<times> daemon" where
  "canonical_path D p dm = (case de_canonical D p of None \<Rightarrow> (Inl (BadPath p), dm) | Some q \<Rightarrow> (Inr q, dm))"

definition add_watch :: "daemon_env \<Rightarrow> string \<Rightarrow> string \<Rightarrow> daemon \<Rightarrow> (daemon_error, entry_info) result \<times> daemon" where
  "add_watch D p target = io_bind (canonical_path D p) (\<lambda>p. start_and_persist D (RegWatch p target) None)"

definition add_converge ::
  "daemon_env \<Rightarrow> string \<Rightarrow> string \<Rightarrow> string \<Rightarrow> string option \<Rightarrow> string option \<Rightarrow> string option \<Rightarrow> bool \<Rightarrow> string option
     \<Rightarrow> string option \<Rightarrow> daemon \<Rightarrow> (daemon_error, entry_info) result \<times> daemon" where
  "add_converge D p relay token w d tm e n ca =
     io_bind (canonical_path D p) (\<lambda>p.
       if relay = '''' then io_fail NoRelayUrl
       else if token = '''' then io_fail NoToken
       else start_and_persist D (RegConverge p relay w d tm e n ca) (Some token))"

definition add_mirror ::
  "daemon_env \<Rightarrow> string \<Rightarrow> string \<Rightarrow> string \<Rightarrow> string \<Rightarrow> string option \<Rightarrow> string option \<Rightarrow> daemon
     \<Rightarrow> (daemon_error, entry_info) result \<times> daemon" where
  "add_mirror D p w relay token n ca =
     io_bind (canonical_path D p) (\<lambda>p.
       if w = '''' then io_fail NoWorkspaceId
       else if token = '''' then io_fail NoToken
       else start_and_persist D (RegMirror p w relay n ca) (Some token))"

text \<open>Canonical when the path exists, absolute otherwise.\<close>

definition key_of :: "daemon_env \<Rightarrow> string \<Rightarrow> string" where
  "key_of D p = (case de_canonical D p of Some q \<Rightarrow> q | None \<Rightarrow> (case de_absolute D p of Some q \<Rightarrow> q | None \<Rightarrow> p))"

definition remove_worker :: "daemon_env \<Rightarrow> string \<Rightarrow> daemon \<Rightarrow> (daemon_error, unit) result \<times> daemon" where
  "remove_worker D p dm =
     (case bt_get (dm_workers dm) (key_of D p) of
        None \<Rightarrow> (Inl (NotRegistered p), dm)
      | Some w \<Rightarrow>
          persist D (dm\<lparr>dm_workers := bt_remove (key_of D p) (dm_workers dm),
            dm_detached := dm_detached dm @ [w\<lparr>wk_control := lc_stopping (wk_control w)\<rparr>]\<rparr>))"

definition entries :: "daemon_env \<Rightarrow> string option \<Rightarrow> daemon \<Rightarrow> json" where
  "entries D p dm =
     JObj [(''workspaces'', JArr (map (\<lambda>w. entry_to_json (entry_info_of D (wk_registration w) (wk_control w)))
       (case p of
          Some p \<Rightarrow> (case bt_get (dm_workers dm) (key_of D p) of Some w \<Rightarrow> [w] | None \<Rightarrow> [])
        | None \<Rightarrow> map snd (dm_workers dm))))]"

text \<open>A relay workspace resumes only with a token at hand.\<close>

definition restore_one :: "string option \<Rightarrow> registration \<Rightarrow> daemon \<Rightarrow> daemon" where
  "restore_one token r dm =
     (if bt_contains (dm_workers dm) (reg_key r) then dm
      else
        (let (lc, dm) =
           (if needs_token r then
              (case token of
                 Some t \<Rightarrow> (lc_worker, spawn_worker r (Some t) dm)
               | None \<Rightarrow> (record_error NotResumed lc_worker, dm))
            else (lc_worker, spawn_worker r None dm))
         in dm\<lparr>dm_workers := bt_insert (reg_key r) \<lparr>wk_registration = r, wk_control = lc\<rparr> (dm_workers dm)\<rparr>))"

text \<open>An unreadable or unparsable file is an error of \<open>load_state\<close>; here the file is the one last written.\<close>

definition restore :: "string option \<Rightarrow> daemon \<Rightarrow> (daemon_error, unit) result \<times> daemon" where
  "restore token dm =
     (case load_state (Inr (dm_state dm)) of
        Inl e \<Rightarrow> (Inl (StateUnreadable e), dm)
      | Inr rs \<Rightarrow> (Inr (), fold (restore_one token) rs dm))"

section \<open>Requests\<close>

text \<open>\<open>None\<close> is a shutdown, answered before it is done.\<close>

fun dispatch :: "daemon_env \<Rightarrow> request_kind \<Rightarrow> daemon \<Rightarrow> (daemon_error, json) result option \<times> daemon" where
  "dispatch D (AddWatch p t) dm = (case add_watch D p t dm of (r, dm) \<Rightarrow> (Some (map_sum id entry_to_json r), dm))"
| "dispatch D (AddConverge p rl tok w d tm e n ca) dm =
     (case add_converge D p rl tok w d tm e n ca dm of (r, dm) \<Rightarrow> (Some (map_sum id entry_to_json r), dm))"
| "dispatch D (AddMirror p w rl tok n ca) dm =
     (case add_mirror D p w rl tok n ca dm of (r, dm) \<Rightarrow> (Some (map_sum id entry_to_json r), dm))"
| "dispatch D ListAll dm = (Some (Inr (entries D None dm)), dm)"
| "dispatch D (RemovePath p) dm =
     (case remove_worker D p dm of (r, dm) \<Rightarrow> (Some (map_sum id (\<lambda>_. JObj [(''removed'', JBool True)]) r), dm))"
| "dispatch D (StatusOf p) dm = (Some (Inr (entries D p dm)), dm)"
| "dispatch D Shutdown dm = (None, dm)"

text \<open>One connection: \<open>line\<close> is the JSON of the request, \<open>None\<close> when it does not parse.\<close>

definition serve_conn ::
  "daemon_env \<Rightarrow> (daemon_error \<Rightarrow> string) \<Rightarrow> (field_error option \<Rightarrow> string) \<Rightarrow> json option \<Rightarrow> daemon \<Rightarrow> response \<times> bool \<times> daemon" where
  "serve_conn D words bad line dm =
     (case line of
        None \<Rightarrow> (response_err (bad None), False, dm)
      | Some v \<Rightarrow>
          (case request_from_json v of
             Inl e \<Rightarrow> (response_err (bad (Some e)), False, dm)
           | Inr q \<Rightarrow>
               (case dispatch D q dm of
                  (None, dm) \<Rightarrow> (response_ok (JObj []), True, dm)
                | (Some (Inl e), dm) \<Rightarrow> (response_err (words e), False, dm)
                | (Some (Inr v), dm) \<Rightarrow> (response_ok v, False, dm))))"

section \<open>Shutdown\<close>

text \<open>Milliseconds.\<close>

definition SHUTDOWN_DRAIN :: nat where "SHUTDOWN_DRAIN = 60000"
definition DRAIN_POLL :: nat where "DRAIN_POLL = 25"

definition stop_all :: "daemon \<Rightarrow> daemon" where
  "stop_all dm = dm\<lparr>dm_workers := map (\<lambda>(k, w). (k, w\<lparr>wk_control := lc_stopping (wk_control w)\<rparr>)) (dm_workers dm)\<rparr>"

text \<open>The drain polls the controls, as the threads have them by then, until none is in a cycle or the
  time is up; it gives how long it took and whether it gave up.\<close>

function drain_wait :: "(nat \<Rightarrow> loop_control list) \<Rightarrow> nat \<Rightarrow> nat \<times> bool" where
  "drain_wait controls ms =
     (if \<forall>lc\<in>set (controls ms). \<not> lc_in_cycle lc then (ms, False)
      else if SHUTDOWN_DRAIN \<le> ms then (ms, True)
      else drain_wait controls (ms + DRAIN_POLL))"
  by pat_completeness auto

termination
  by (relation "measure (\<lambda>(controls, ms). SHUTDOWN_DRAIN - ms)") (auto simp: SHUTDOWN_DRAIN_def DRAIN_POLL_def)

declare drain_wait.simps [simp del]

section \<open>Invariant\<close>

definition daemon_inv :: "daemon \<Rightarrow> bool" where
  "daemon_inv dm \<longleftrightarrow> bt_wf (dm_workers dm) \<and> (\<forall>(k, w)\<in>set (dm_workers dm). k = reg_key (wk_registration w))"

lemma daemon_inv_new: "daemon_inv (daemon_new doc)"
  by (simp add: daemon_inv_def daemon_new_def)

lemma set_bt_insert: "set (bt_insert k v m) \<subseteq> insert (k, v) (set m)"
  by (induction k v m rule: bt_insert.induct) auto

lemma daemon_inv_insert:
  "daemon_inv dm \<Longrightarrow> dm_workers dm' = bt_insert (reg_key r) \<lparr>wk_registration = r, wk_control = lc\<rparr> (dm_workers dm) \<Longrightarrow> daemon_inv dm'"
  using set_bt_insert [of "reg_key r" "\<lparr>wk_registration = r, wk_control = lc\<rparr>" "dm_workers dm"]
  by (fastforce simp: daemon_inv_def)

lemma persist_frame: "persist D dm = (r, dm') \<Longrightarrow> dm_workers dm' = dm_workers dm"
  by (auto simp: persist_def split: if_splits)

lemma daemon_inv_workers: "dm_workers dm' = dm_workers dm \<Longrightarrow> daemon_inv dm' = daemon_inv dm"
  by (simp add: daemon_inv_def)

text \<open>Every add goes through one of these.\<close>

lemma start_and_persist_cases:
  assumes "start_and_persist D r token dm = (x, dm')"
  obtains (refused) "bt_contains (dm_workers dm) (reg_key r)" "x = Inl (AlreadyRegistered (reg_path r))" "dm' = dm"
  | (started) dm1 y where "\<not> bt_contains (dm_workers dm) (reg_key r)"
      "dm_workers dm1 = bt_insert (reg_key r) \<lparr>wk_registration = r, wk_control = lc_worker\<rparr> (dm_workers dm)"
      "dm_threads dm1 = dm_threads dm @ [(r, token)]" "dm_state dm1 = dm_state dm" "dm_detached dm1 = dm_detached dm"
      "persist D dm1 = (y, dm')" "x = (case y of Inl e \<Rightarrow> Inl e | Inr _ \<Rightarrow> Inr (entry_info_of D r lc_worker))"
proof (cases "bt_contains (dm_workers dm) (reg_key r)")
  case True
  then have "x = Inl (AlreadyRegistered (reg_path r))" "dm' = dm"
    using assms by (simp_all add: start_and_persist_def start_worker_def io_bind_def)
  then show thesis
    using refused True by blast
next
  case False
  define dm1 where "dm1 = (spawn_worker r token dm)\<lparr>dm_workers :=
    bt_insert (reg_key r) \<lparr>wk_registration = r, wk_control = lc_worker\<rparr> (dm_workers dm)\<rparr>"
  obtain y dm2 where p: "persist D dm1 = (y, dm2)" by fastforce
  have "x = (case y of Inl e \<Rightarrow> Inl e | Inr _ \<Rightarrow> Inr (entry_info_of D r lc_worker))" "dm2 = dm'"
    using assms False p
    by (auto simp: start_and_persist_def start_worker_def io_bind_def io_return_def dm1_def [symmetric] split: sum.splits)
  then show thesis
    using started [OF False, of dm1 y] p by (simp add: dm1_def spawn_worker_def)
qed

lemma start_and_persist_inv: "daemon_inv dm \<Longrightarrow> start_and_persist D r token dm = (x, dm') \<Longrightarrow> daemon_inv dm'"
  by (erule start_and_persist_cases) (use daemon_inv_insert daemon_inv_workers persist_frame in blast)+

text \<open>An answered add or remove has written the state file.\<close>

definition recorded :: "daemon \<Rightarrow> bool" where
  "recorded dm \<longleftrightarrow> dm_state dm = Some (state_doc (registered dm))"

lemma persist_recorded: "persist D dm = (Inr u, dm') \<Longrightarrow> recorded dm'"
  by (auto simp: persist_def recorded_def registered_def split: if_splits)

lemma start_and_persist_recorded: "start_and_persist D r token dm = (Inr e, dm') \<Longrightarrow> recorded dm'"
  by (erule start_and_persist_cases) (auto split: sum.splits dest: persist_recorded)

fun changes :: "request_kind \<Rightarrow> bool" where
  "changes (AddWatch _ _) = True"
| "changes (AddConverge _ _ _ _ _ _ _ _ _) = True"
| "changes (AddMirror _ _ _ _ _ _) = True"
| "changes (RemovePath _) = True"
| "changes _ = False"

text \<open>The registration and the token a request starts a worker with.\<close>

fun started_as :: "daemon_env \<Rightarrow> request_kind \<Rightarrow> (daemon_error, registration \<times> string option) result" where
  "started_as D (AddWatch p t) = (case de_canonical D p of None \<Rightarrow> Inl (BadPath p) | Some p \<Rightarrow> Inr (RegWatch p t, None))"
| "started_as D (AddConverge p rl tok w d tm e n ca) =
     (case de_canonical D p of None \<Rightarrow> Inl (BadPath p) | Some p \<Rightarrow>
        if rl = '''' then Inl NoRelayUrl else if tok = '''' then Inl NoToken
        else Inr (RegConverge p rl w d tm e n ca, Some tok))"
| "started_as D (AddMirror p w rl tok n ca) =
     (case de_canonical D p of None \<Rightarrow> Inl (BadPath p) | Some p \<Rightarrow>
        if w = '''' then Inl NoWorkspaceId else if tok = '''' then Inl NoToken
        else Inr (RegMirror p w rl n ca, Some tok))"
| "started_as D _ = Inl (NotRegistered '''')"

lemma dispatch_add:
  assumes "changes q" "\<forall>p. q \<noteq> RemovePath p"
  shows "dispatch D q dm =
    (case started_as D q of
       Inl e \<Rightarrow> (Some (Inl e), dm)
     | Inr (r, token) \<Rightarrow> (case start_and_persist D r token dm of (x, dm) \<Rightarrow> (Some (map_sum id entry_to_json x), dm)))"
  using assms
  by (cases q) (auto simp: add_watch_def add_converge_def add_mirror_def canonical_path_def io_bind_def io_fail_def
      split: option.splits prod.splits sum.splits)

lemma remove_worker_inv:
  assumes "remove_worker D p dm = (x, dm')" "daemon_inv dm"
  shows "daemon_inv dm'" "x = Inr u \<Longrightarrow> recorded dm'"
proof -
  have "daemon_inv (dm\<lparr>dm_workers := bt_remove k (dm_workers dm), dm_detached := l\<rparr>)" for k l
    using assms(2) by (auto simp: daemon_inv_def bt_remove_def)
  then show "daemon_inv dm'" "x = Inr u \<Longrightarrow> recorded dm'"
    using assms(1) daemon_inv_workers [OF persist_frame] assms(2)
    by (auto simp: remove_worker_def split: option.splits dest: persist_recorded)
qed

lemma dispatch_inv:
  assumes "dispatch D q dm = (x, dm')" "daemon_inv dm"
  shows "daemon_inv dm'" "changes q \<Longrightarrow> x = Some (Inr v) \<Longrightarrow> recorded dm'"
proof -
  have "daemon_inv dm' \<and> (changes q \<longrightarrow> x = Some (Inr v) \<longrightarrow> recorded dm')"
  proof (cases "changes q \<and> (\<forall>p. q \<noteq> RemovePath p)")
    case True
    then have add: "dispatch D q dm = (case started_as D q of
       Inl e \<Rightarrow> (Some (Inl e), dm)
     | Inr (r, token) \<Rightarrow> (case start_and_persist D r token dm of (x, dm) \<Rightarrow> (Some (map_sum id entry_to_json x), dm)))"
      by (intro dispatch_add) auto
    show ?thesis
    proof (cases "started_as D q")
      case (Inl e)
      then show ?thesis
        using add assms by simp
    next
      case (Inr rt)
      obtain r token where rt: "rt = (r, token)" by fastforce
      obtain y dm1 where y: "start_and_persist D r token dm = (y, dm1)" by fastforce
      then have "x = Some (map_sum id entry_to_json y)" "dm' = dm1"
        using add Inr rt assms(1) by simp_all
      then show ?thesis
        using start_and_persist_inv [OF assms(2) y] start_and_persist_recorded y by (cases y) auto
    qed
  next
    case False
    then show ?thesis
      using assms remove_worker_inv [OF _ assms(2)]
      by (cases q) (auto split: prod.splits sum.splits simp: map_sum_def)
  qed
  then show "daemon_inv dm'" "changes q \<Longrightarrow> x = Some (Inr v) \<Longrightarrow> recorded dm'"
    by blast+
qed

text \<open>The daemon's life: requests under whatever the file system does, and threads that change their controls.\<close>

inductive daemon_run :: "daemon \<Rightarrow> bool" where
  dm_fresh: "daemon_run (daemon_new None)"
| dm_request: "daemon_run dm \<Longrightarrow> dispatch D q dm = (x, dm') \<Longrightarrow> daemon_run dm'"
| dm_thread: "daemon_run dm \<Longrightarrow> bt_get (dm_workers dm) k = Some w
    \<Longrightarrow> daemon_run (dm\<lparr>dm_workers := bt_insert k (w\<lparr>wk_control := lc\<rparr>) (dm_workers dm)\<rparr>)"

lemma daemon_run_inv: "daemon_run dm \<Longrightarrow> daemon_inv dm"
proof (induction rule: daemon_run.induct)
  case dm_fresh
  then show ?case by (rule daemon_inv_new)
next
  case (dm_request dm D q x dm')
  then show ?case using dispatch_inv(1) by blast
next
  case (dm_thread dm k w lc)
  have "k = reg_key (wk_registration w)"
    using dm_thread map_of_SomeD [of "dm_workers dm" k w] by (auto simp: daemon_inv_def)
  then have "dm_workers (dm\<lparr>dm_workers := bt_insert k (w\<lparr>wk_control := lc\<rparr>) (dm_workers dm)\<rparr>)
      = bt_insert (reg_key (wk_registration w)) \<lparr>wk_registration = wk_registration w, wk_control = lc\<rparr> (dm_workers dm)"
    by (cases w) simp
  then show ?case
    by (rule daemon_inv_insert [OF dm_thread.IH])
qed

section \<open>A restart\<close>

lemma restore_one_fresh:
  assumes "\<forall>k\<in>fst ` set (dm_workers dm). k < reg_key r" "bt_wf (dm_workers dm)"
  shows "dm_workers (restore_one token r dm) = dm_workers dm @ [(reg_key r, \<lparr>wk_registration = r,
    wk_control = (if needs_token r \<and> token = None then record_error NotResumed lc_worker else lc_worker)\<rparr>)]"
    and "dm_threads (restore_one token r dm) = dm_threads dm @ (if needs_token r \<and> token = None then [] else [(r, if needs_token r then token else None)])"
proof -
  have "\<not> bt_contains (dm_workers dm) (reg_key r)"
    using assms(1) by (auto simp: bt_contains_def map_of_eq_None_iff)
  then show "dm_workers (restore_one token r dm) = dm_workers dm @ [(reg_key r, \<lparr>wk_registration = r,
    wk_control = (if needs_token r \<and> token = None then record_error NotResumed lc_worker else lc_worker)\<rparr>)]"
    and "dm_threads (restore_one token r dm) = dm_threads dm @ (if needs_token r \<and> token = None then [] else [(r, if needs_token r then token else None)])"
    using bt_insert_last [OF assms(2,1)] by (auto simp: restore_one_def spawn_worker_def Let_def split: option.splits)
qed

text \<open>What a restart makes of a registration.\<close>

definition resumed :: "string option \<Rightarrow> registration \<Rightarrow> worker" where
  "resumed token r = \<lparr>wk_registration = r,
     wk_control = (if needs_token r \<and> token = None then record_error NotResumed lc_worker else lc_worker)\<rparr>"

definition respawned :: "string option \<Rightarrow> registration list \<Rightarrow> (registration \<times> string option) list" where
  "respawned token rs = map (\<lambda>r. (r, if needs_token r then token else None)) (filter (\<lambda>r. needs_token r \<longrightarrow> token \<noteq> None) rs)"

lemma restore_all:
  "sorted_wrt (<) (map fst (dm_workers dm) @ map reg_key rs) \<Longrightarrow>
     dm_workers (fold (restore_one token) rs dm) = dm_workers dm @ map (\<lambda>r. (reg_key r, resumed token r)) rs
     \<and> dm_threads (fold (restore_one token) rs dm) = dm_threads dm @ respawned token rs"
proof (induction rs arbitrary: dm)
  case Nil
  then show ?case by (simp add: respawned_def)
next
  case (Cons r rs)
  have "\<forall>k\<in>fst ` set (dm_workers dm). k < reg_key r" "bt_wf (dm_workers dm)"
    using Cons.prems by (auto simp: sorted_wrt_append bt_wf_def)
  note one = restore_one_fresh [OF this, of token]
  have "sorted_wrt (<) (map fst (dm_workers (restore_one token r dm)) @ map reg_key rs)"
    using Cons.prems by (simp add: one(1))
  from Cons.IH [OF this] show ?case
    by (auto simp: one resumed_def respawned_def)
qed

text \<open>C36: A daemon restarted after an answered add or remove has exactly the registrations it had: local
  watches run again, and a relay workspace runs with the token at hand or reports that it has none.
\<close>

theorem restart_restores_registrations:
  assumes "daemon_run dm" "dispatch D q dm = (Some (Inr v), dm')" "changes q"
  shows "fst (restore token (daemon_new (dm_state dm'))) = Inr ()
    \<and> dm_workers (snd (restore token (daemon_new (dm_state dm')))) =
        map (\<lambda>(k, w). (k, resumed token (wk_registration w))) (dm_workers dm')
    \<and> dm_threads (snd (restore token (daemon_new (dm_state dm')))) = respawned token (registered dm')"
proof -
  have inv: "daemon_inv dm'" and rec: "recorded dm'"
    using dispatch_inv [OF assms(2) daemon_run_inv [OF assms(1)]] assms(3) by blast+
  have keys: "map reg_key (registered dm') = map fst (dm_workers dm')"
    using inv by (auto simp: registered_def daemon_inv_def split_def)
  have "sorted_wrt (<) (map fst (dm_workers (daemon_new (dm_state dm'))) @ map reg_key (registered dm'))"
    using inv by (simp add: keys daemon_inv_def bt_wf_def daemon_new_def)
  note all = restore_all [OF this, of token]
  have "map (\<lambda>r. (reg_key r, resumed token r)) (registered dm') = map (\<lambda>(k, w). (k, resumed token (wk_registration w))) (dm_workers dm')"
    using inv by (auto simp: registered_def daemon_inv_def split_def)
  then show ?thesis
    using all rec by (simp add: restore_def recorded_def state_roundtrip daemon_new_def)
qed

section \<open>Tokens\<close>

fun retoken :: "string \<Rightarrow> request_kind \<Rightarrow> request_kind" where
  "retoken t (AddConverge p r tok w d tm e n ca) = AddConverge p r t w d tm e n ca"
| "retoken t (AddMirror p w r tok n ca) = AddMirror p w r t n ca"
| "retoken t q = q"


section \<open>Winding down\<close>

lemma drain_gives_up:
  "\<forall>ms. \<exists>lc\<in>set (controls ms). lc_in_cycle lc \<Longrightarrow> ms \<le> SHUTDOWN_DRAIN \<Longrightarrow> ms mod DRAIN_POLL = 0
     \<Longrightarrow> drain_wait controls ms = (SHUTDOWN_DRAIN, True)"
proof (induction controls ms rule: drain_wait.induct)
  case (1 controls ms)
  have busy: "\<not> (\<forall>lc\<in>set (controls ms). \<not> lc_in_cycle lc)"
    using 1(2) by blast
  show ?case
  proof (cases "SHUTDOWN_DRAIN \<le> ms")
    case True
    then show ?thesis
      using busy 1(3) by (subst drain_wait.simps) auto
  next
    case False
    then have "ms + DRAIN_POLL \<le> SHUTDOWN_DRAIN"
      using 1(4) unfolding SHUTDOWN_DRAIN_def DRAIN_POLL_def by presburger
    then show ?thesis
      using 1(1) [OF busy False] 1(2,4) busy False by (subst drain_wait.simps) auto
  qed
qed

text \<open>The drain ends, however the threads behave.\<close>

lemma drain_bounded: "ms \<le> SHUTDOWN_DRAIN \<Longrightarrow> fst (drain_wait controls ms) < SHUTDOWN_DRAIN + DRAIN_POLL"
proof (induction controls ms rule: drain_wait.induct)
  case (1 controls ms)
  show ?case
  proof (cases "(\<forall>lc\<in>set (controls ms). \<not> lc_in_cycle lc) \<or> SHUTDOWN_DRAIN \<le> ms")
    case True
    then show ?thesis
      using 1(2) by (subst drain_wait.simps) (auto simp: DRAIN_POLL_def)
  next
    case False
    show ?thesis
    proof (cases "ms + DRAIN_POLL \<le> SHUTDOWN_DRAIN")
      case True
      then show ?thesis
        using 1(1) False by (subst drain_wait.simps) auto
    next
      case over: False
      then have "fst (drain_wait controls (ms + DRAIN_POLL)) = ms + DRAIN_POLL"
        by (subst drain_wait.simps) simp
      then show ?thesis
        using False by (subst drain_wait.simps) auto
    qed
  qed
qed

text \<open>C38: A converge worker whose pass the relay refuses for good parks inside its cycle: its status shows
  the error, but it stays marked as in flight for ever, so a shutdown of the daemon waits the whole
  minute for it and then exits with a cycle reported in flight.
\<close>

theorem parked_worker_delays_shutdown:
  assumes "converge_once E st = (Inl PushClient, st')" "\<not> parks lc" "\<not> lc_exit_on_fatal lc"
  shows "fst (converge_turns n E (lc, st)) = TurnParked
    \<and> lc_error (fst (snd (converge_turns n E (lc, st)))) \<noteq> None
    \<and> lc_in_cycle (fst (snd (converge_turns n E (lc, st))))
    \<and> drain_wait (\<lambda>ms. [lc_stopping (fst (snd (converge_turns (turns ms) E (lc, st))))]) 0 = (SHUTDOWN_DRAIN, True)"
proof -
  have parked: "fst (converge_turns n E (lc, st)) = TurnParked
    \<and> parks (fst (snd (converge_turns n E (lc, st))))
    \<and> lc_error (fst (snd (converge_turns n E (lc, st)))) \<noteq> None
    \<and> lc_in_cycle (fst (snd (converge_turns n E (lc, st))))" for n
  proof (induction n)
    case 0
    then show ?case
      using assms by (simp add: converge_turn_def Let_def lc_fatal_def record_error_def parks_def enter_cycle_def)
  next
    case (Suc n)
    obtain t l s where t: "converge_turns n E (lc, st) = (t, l, s)"
      by (metis prod.collapse)
    then show ?case
      using Suc by (simp add: converge_turn_def)
  qed
  have "drain_wait (\<lambda>ms. [lc_stopping (fst (snd (converge_turns (turns ms) E (lc, st))))]) 0 = (SHUTDOWN_DRAIN, True)"
    by (rule drain_gives_up) (simp_all add: lc_stopping_def parked)
  then show ?thesis
    using parked by blast
qed

text \<open>A removed worker may be in a cycle when its directory is registered again: two loops on one directory.\<close>

lemma readd_while_in_cycle:
  assumes "daemon_inv dm" "bt_get (dm_workers dm) p = Some w" "lc_in_cycle (wk_control w)" "de_canonical D p = Some p" "de_persist_ok D"
  shows "\<exists>dm1 dm2 e. dispatch D (RemovePath p) dm = (Some (Inr (JObj [(''removed'', JBool True)])), dm1)
    \<and> dispatch D (AddWatch p t) dm1 = (Some (Inr e), dm2)
    \<and> (RegWatch p t, None) \<in> set (dm_threads dm2) \<and> (\<exists>w'\<in>set (dm_detached dm2). lc_in_cycle (wk_control w'))"
proof -
  define dm1 where "dm1 = snd (remove_worker D p dm)"
  have rm: "remove_worker D p dm = (Inr (), dm1)" "dm_workers dm1 = bt_remove p (dm_workers dm)"
    "dm_detached dm1 = dm_detached dm @ [w\<lparr>wk_control := lc_stopping (wk_control w)\<rparr>]"
    using assms by (simp_all add: dm1_def remove_worker_def key_of_def persist_def)
  have new: "\<not> bt_contains (dm_workers dm1) p"
    by (simp add: rm(2) bt_contains_def)
  show ?thesis
    using rm new assms(3-5)
    by (auto simp: add_watch_def canonical_path_def io_bind_def start_and_persist_def start_worker_def persist_def spawn_worker_def
        io_return_def reg_key_def lc_stopping_def)
qed

section \<open>What a client reads\<close>

definition infos :: "daemon_env \<Rightarrow> daemon \<Rightarrow> entry_info list" where
  "infos D dm = map (\<lambda>(k, w). entry_info_of D (wk_registration w) (wk_control w)) (dm_workers dm)"

lemma entry_info_fields:
  "ei_path (entry_info_of D r lc) = reg_path r" "ei_head_seq (entry_info_of D r lc) = lc_head_seq lc"
  "ei_role (entry_info_of D r lc) \<in> {''sync'', ''watch'', ''mirror''}" "ei_state (entry_info_of D r lc) \<in> {''running'', ''stopped'', ''error''}"
  "ei_error (entry_info_of D r lc) = None \<longleftrightarrow> ei_state (entry_info_of D r lc) \<noteq> ''error''"
  by (cases r; simp add: entry_info_of_def)+

lemma infos_paths: "daemon_inv dm \<Longrightarrow> map ei_path (infos D dm) = map fst (dm_workers dm)"
  by (auto simp: infos_def daemon_inv_def entry_info_fields reg_key_def)

text \<open>C39: Whatever requests and threads did to the daemon, its answer to a list parses as the client's
  entries, one per registered path, each with a role and a state of the protocol, and with an error
  exactly in the state that says so.
\<close>

theorem list_answer_typed:
  assumes "daemon_run dm" "\<forall>(k, w)\<in>set (dm_workers dm). 0 \<le> lc_head_seq (wk_control w) \<and> lc_head_seq (wk_control w) < 2 ^ 64"
  shows "\<exists>v es. dispatch D ListAll dm = (Some (Inr v), dm) \<and> list_from_json v = Inr es
    \<and> map ei_path es = map fst (dm_workers dm) \<and> distinct (map ei_path es)
    \<and> (\<forall>e\<in>set es. ei_role e \<in> {''sync'', ''watch'', ''mirror''} \<and> ei_state e \<in> {''running'', ''stopped'', ''error''}
        \<and> (ei_error e = None \<longleftrightarrow> ei_state e \<noteq> ''error''))"
proof -
  have inv: "daemon_inv dm"
    by (rule daemon_run_inv [OF assms(1)])
  have "list_from_json (entries D None dm) = parse_all entry_from_json (map entry_to_json (infos D dm))"
    by (simp add: list_from_json_def entries_def infos_def split_def comp_def)
  also have "\<dots> = Inr (infos D dm)"
    by (rule parse_all_map, rule entry_roundtrip) (use assms(2) in \<open>auto simp: infos_def entry_info_fields\<close>)
  finally have "list_from_json (entries D None dm) = Inr (infos D dm)" .
  moreover have "distinct (map fst (dm_workers dm))"
    using inv bt_wf_distinct by (auto simp: daemon_inv_def)
  moreover have "\<forall>e\<in>set (infos D dm). ei_role e \<in> {''sync'', ''watch'', ''mirror''} \<and> ei_state e \<in> {''running'', ''stopped'', ''error''}
        \<and> (ei_error e = None \<longleftrightarrow> ei_state e \<noteq> ''error'')"
    unfolding infos_def set_map using entry_info_fields(3-5) by (intro ballI, elim imageE, hypsubst) (simp only: split_def)
  ultimately show ?thesis
    using infos_paths [OF inv] by simp
qed

section \<open>Concrete runs\<close>

definition one_env :: daemon_env where
  "one_env = \<lparr>de_canonical = Some, de_absolute = Some, de_persist_ok = True, de_words = (\<lambda>_. ''e'')\<rparr>"

definition one_request :: request_kind where
  "one_request = AddConverge ''/w'' ''r'' ''secret'' None None None False None None"

lemma one_answered: "\<exists>v dm'. dispatch one_env one_request (daemon_new None) = (Some (Inr v), dm')
   \<and> dm_workers dm' = [(''/w'', \<lparr>wk_registration = RegConverge ''/w'' ''r'' None None None False None None, wk_control = lc_worker\<rparr>)]"
  by (simp add: one_env_def one_request_def daemon_new_def add_converge_def canonical_path_def io_bind_def start_and_persist_def
      start_worker_def persist_def spawn_worker_def io_return_def bt_contains_def reg_key_def)

lemma restart_restores_registrations_witness:
  "\<exists>v dm'. dispatch one_env one_request (daemon_new None) = (Some (Inr v), dm')
     \<and> map fst (dm_workers (snd (restore (Some ''t'') (daemon_new (dm_state dm'))))) = [''/w'']"
proof -
  obtain v dm' where d: "dispatch one_env one_request (daemon_new None) = (Some (Inr v), dm')"
    "dm_workers dm' = [(''/w'', \<lparr>wk_registration = RegConverge ''/w'' ''r'' None None None False None None, wk_control = lc_worker\<rparr>)]"
    using one_answered by blast
  then show ?thesis
    using restart_restores_registrations [OF dm_fresh d(1), of "Some ''t''"] by (simp add: one_request_def)
qed


lemma refused_pass: "\<exists>st'. converge_once (note_pass\<lparr>ce_flavor := (\<lambda>c. (Inl (RHttp 401), c))\<rparr>) note_start = (Inl PushClient, st')"
proof -
  have "read_file MANIFEST_JSON note_disk = (Inl IoNotFound, note_disk)"
    by code_simp
  then have "load_local_manifest (note_pass\<lparr>ce_flavor := (\<lambda>c. (Inl (RHttp 401), c))\<rparr>) note_start = (Inr None, note_start)"
    by (simp add: load_local_manifest_def load_def read_outcome_of_def note_start_def)
  then show ?thesis
    by (simp add: converge_once_def io_bind_def cg_check_def cg_relay_call_def)
qed

lemma parked_worker_delays_shutdown_witness:
  "drain_wait (\<lambda>ms. [lc_stopping (fst (snd (converge_turns ms (note_pass\<lparr>ce_flavor := (\<lambda>c. (Inl (RHttp 401), c))\<rparr>)
     (lc_worker, note_start))))]) 0 = (60000, True)"
proof -
  have fresh: "\<not> parks lc_worker" "\<not> lc_exit_on_fatal lc_worker"
    by (simp_all add: lc_worker_def loop_control_new_def parks_def)
  obtain st' where "converge_once (note_pass\<lparr>ce_flavor := (\<lambda>c. (Inl (RHttp 401), c))\<rparr>) note_start = (Inl PushClient, st')"
    using refused_pass by blast
  from parked_worker_delays_shutdown [OF this fresh, of 0 "\<lambda>ms. ms"]
  have "drain_wait (\<lambda>ms. [lc_stopping (fst (snd (converge_turns ms (note_pass\<lparr>ce_flavor := (\<lambda>c. (Inl (RHttp 401), c))\<rparr>)
     (lc_worker, note_start))))]) 0 = (SHUTDOWN_DRAIN, True)"
    by (elim conjE)
  then show ?thesis
    unfolding SHUTDOWN_DRAIN_def .
qed

lemma list_answer_typed_witness:
  "\<exists>dm v es. dispatch one_env ListAll dm = (Some (Inr v), dm) \<and> list_from_json v = Inr es \<and> map ei_path es = [''/w'']"
proof -
  obtain v dm where d: "dispatch one_env one_request (daemon_new None) = (Some (Inr v), dm)"
    "dm_workers dm = [(''/w'', \<lparr>wk_registration = RegConverge ''/w'' ''r'' None None None False None None, wk_control = lc_worker\<rparr>)]"
    using one_answered by blast
  have "\<forall>(k, w)\<in>set (dm_workers dm). 0 \<le> lc_head_seq (wk_control w) \<and> lc_head_seq (wk_control w) < 2 ^ 64"
    by (simp add: d(2) lc_worker_def loop_control_new_def)
  from list_answer_typed [OF dm_request [OF dm_fresh d(1)] this, of one_env] obtain v' es
    where "dispatch one_env ListAll dm = (Some (Inr v'), dm)" "list_from_json v' = Inr es" "map ei_path es = map fst (dm_workers dm)"
    by (elim exE conjE)
  then show ?thesis
    by (intro exI [of _ dm] exI [of _ v'] exI [of _ es]) (simp add: d(2))
qed

end
