(* ===== verification/Spec2Isabelle.thy ===== *)
theory Spec2Isabelle
imports Calendar Merge Wrapping Relay_Gc Push Converge_Base Pull Snapshot Feed Daemon
begin

text \<open>
  A model of pear, which keeps directories of several devices in sync through a relay, optionally end-to-end
  encrypted.  The theories follow the crates of the workspace: \<open>pear-core\<close> (\<open>crates/core/src\<close>, written
  \<open>core/\<close> here), the relay server (\<open>crates/relay/src\<close>, \<open>relay/\<close>) and the command line with its daemon
  (\<open>crates/cli/src\<close>, \<open>cli/\<close>).

  \<^bold>\<open>The program.\<close>  A workspace is a directory with a \<open>.pear\<close> inside.  A scan (\<open>scan.rs\<close>) decides what is captured;
  each file is cut into chunks (\<open>chunk.rs\<close>), which are content addressed and go to the chunk pool of the relay,
  in an encrypted workspace as ciphertext (\<open>crypto.rs\<close>); the manifest (\<open>manifest.rs\<close>) names every file with its
  chunks.  A head of the relay is a numbered manifest, committed by a compare-and-swap on its number.  A writer
  device runs converge passes: head, scan, three-way merge against the last agreed manifest (\<open>merge.rs\<close>), fetch,
  materialization on the disk (\<open>apply.rs\<close>), upload, commit, and a retry when another device was first.  A reader
  mirrors the head.  The relay authenticates, keeps users, teams, workspaces, heads, snapshots and wrapped keys
  in SQLite, and sweeps chunks nothing refers to.  The loops (\<open>watch.rs\<close>, \<open>loops.rs\<close>) decide when a pass runs, and
  the daemon supervises them.

  \<^bold>\<open>Vocabulary.\<close>
  \<^item> \<open>Prelude\<close>: results as sums with the error on the left, \<open>rbind\<close> for the question mark operator, and the ordered
    maps (\<open>BTreeMap\<close>) as association lists with \<open>bt_wf\<close>; the locale \<open>map_ops\<close> is their contract.
  \<^item> \<open>Strings\<close>, \<open>Utf8\<close>, \<open>Decimal\<close>, \<open>Calendar\<close>: what the code uses of \<open>str\<close>, \<open>char\<close>, \<open>format!\<close> and its own calendar.
    A string is a list of bytes; a path component or a character is a substring.
  \<^item> \<open>Codec\<close>: the locales \<open>lossless_codec\<close> and \<open>canonical_codec\<close> of an encoder with its decoder, interpreted for hex,
    base64, URL segments and the chunk frame.

  \<^bold>\<open>Data and cryptography.\<close>
  \<^item> \<open>Manifest\<close> (\<open>core/manifest.rs\<close>, \<open>core/lib.rs\<close>): manifests, their difference, validation, workspace identity.
    C29 characterises \<open>validate\<close>.
  \<^item> \<open>Merge\<close> (\<open>core/merge.rs\<close>): \<open>decide\<close> is the table of one path, \<open>claim\<close> the name of a conflict copy, \<open>merge\<close> the fold over
    all paths.  C23 to C25: the merge is its table, loses no change, and lists what has to be applied; C40: the
    search for a free name ends.
  \<^item> \<open>Chunk_Frame\<close> (\<open>core/chunk_frame.rs\<close>): the frame of batched transfers (C30).
  \<^item> \<open>Encoding\<close>, \<open>Crypto\<close>, \<open>Key_Files\<close> (\<open>core/crypto.rs\<close>): hex and base64; HMAC and HKDF over a hash; the envelopes, sealed
    boxes and signed bundles; the key files.  SHA-256, BLAKE3, AES-GCM, X25519 and Ed25519 are fields of the
    record \<open>prims\<close>, with their documented laws in \<open>prims_ok\<close>; \<open>toy_prims\<close> shows that the laws can hold.
  \<^item> \<open>Keyring\<close>, \<open>Wrapping\<close> (\<open>core/known_keys.rs\<close>, \<open>core/e2e.rs\<close>): pinned identities, rings of key generations at 32 bits,
    the sealed manifest, and the passes that wrap the ring for members and rotate it (C27, C28).

  \<^bold>\<open>The relay.\<close>
  \<^item> \<open>Relay_Db\<close> (\<open>relay/db.rs\<close>): one map per table, one function per method, transactions that fail as a whole.
  \<^item> \<open>Relay_Auth\<close>, \<open>Relay_Teams\<close>, \<open>Relay_Chunks\<close> (\<open>relay/routes.rs\<close>, \<open>relay/error.rs\<close>): the gates and one function per handler,
    over the record \<open>relay\<close> (database, chunk pool).  C26 is about single requests.
  \<^item> \<open>Relay_Gc\<close> (\<open>relay/gc.rs\<close>): mark, rebuild and sweep (C11, C12), and \<open>relay_step\<close>, any request or sweep at any time, with
    the properties of all interleavings: retained heads stay fetchable (C8) and the head log refines a
    compare-and-swap register (C9).

  \<^bold>\<open>A device.\<close>
  \<^item> \<open>Store\<close> (\<open>core/store.rs\<close>): the local chunk store; the locale \<open>chunk_store\<close> is the map it implements.
  \<^item> \<open>Disk\<close> (\<open>core/fsutil.rs\<close>, the atomic write of \<open>core/manifest.rs\<close>): a tree of files, directories and links.  Every system
    call takes the next entry of a list of faults, so a run with a fault at any call, or cut short at any call, is
    a run of the model.
  \<^item> \<open>Apply\<close> (\<open>core/apply.rs\<close>): refusals, staging, order of the batch, commit point.  C15 to C17: never torn, exact, resumable.
  \<^item> \<open>Scan\<close>, \<open>Scan_Build\<close> (\<open>core/scan.rs\<close>, \<open>scan_build_manifest\<close>): C20, C22.  The locale \<open>file_writer\<close> is the upload of one file,
    interpreted for the relay and for a local store.
  \<^item> \<open>Relay_Client\<close>, \<open>Client_Calls\<close> (\<open>core/relay.rs\<close>): addresses, statuses and batching of each request.  One exchange
    is a parameter; composed with the handlers it is the relay of this development.
  \<^item> \<open>Uploader\<close>, \<open>Push\<close> (\<open>core/sync.rs\<close>): the upload buffers over the locale \<open>chunk_sink\<close>, the writer cycle, its commit and
    the recovery of a lost answer (C13, C14, C21).
  \<^item> \<open>Fetch\<close> (\<open>core/sync.rs\<close>): the planned and verified fetch over the locale \<open>chunk_server\<close> (C10, C18, C19).
  \<^item> \<open>Pull\<close> (\<open>pull_inner\<close> of \<open>core/sync.rs\<close>): the mirror cycle (C4).
  \<^item> \<open>Converge\<close>, \<open>Materialize\<close> (\<open>core/converge.rs\<close>): the pass of a writer, step by step over \<open>converging\<close> (disk, store, relay).
    \<open>Converge_Head\<close> runs it against this relay with any other requests between its calls (C1, C2); \<open>Converge_Base\<close>
    follows its base on every error path by Hoare triples (C3, C7); C5 and C6 are the materialization.
  \<^item> \<open>Snapshot\<close> (\<open>core/snapshot.rs\<close>): the strict capture and the clone (C31).

  \<^bold>\<open>The processes.\<close>
  \<^item> \<open>Watch\<close> (\<open>core/watch.rs\<close>): the trigger loop as a state machine; no trigger is lost (C34).
  \<^item> \<open>Sync_Cycle\<close> (\<open>sync_cycle\<close> of \<open>core/sync.rs\<close>): the cycle between two directories of one machine (C33).
  \<^item> \<open>Loops\<close> (\<open>cli/loops.rs\<close>): \<open>loop_control\<close>, one turn of the converge and of the mirror loop with its verdict on every
    error (C35), the hint watcher, and the registration at start.
  \<^item> \<open>Feed\<close> (the head feed of \<open>relay/lib.rs\<close> and \<open>relay/routes.rs\<close>, its listener in \<open>core/relay.rs\<close>): the fan-out of commits
    to bounded queues, the session that closes when it lags, the listener with its keep-alive and back-off (C32).
  \<^item> \<open>Daemon_Json\<close>, \<open>Daemon\<close> (\<open>cli/daemon.rs\<close>, \<open>cli/bin/peard.rs\<close>): the protocol, the state file and the registry (C36 to C39).

  \<^bold>\<open>Bounds.\<close>  A converge pass makes at most \<open>MAX_ATTEMPTS\<close> = 32 attempts, as the code does, and the recursion is on that
  number.  \<open>claim_from\<close> recurs on the taken candidates at or after its number, \<open>drain_wait\<close> on the time left of
  \<open>SHUTDOWN_DRAIN\<close>, \<open>watch_settle\<close> on the queue and then the phase, walks of a tree and loops over lists on their
  argument, \<open>canonicalize_lenient\<close> on the length of its path; none needs fuel.  Sizes and sequence numbers are \<open>int\<close> or \<open>nat\<close> where the code checks their range and
  words where it wraps (key generations, modes).

  \<^bold>\<open>Parameters.\<close>  Code outside the repository is an argument: the cryptographic primitives, JSON and TOML texts, FastCDC,
  the gitignore walker, case folding, random names and nonces, the clock, and the notifications of the file system.
  Laws a property needs of them are its hypotheses (\<open>prims_ok\<close>, \<open>digest_law\<close>, \<open>cut_law\<close>, \<open>sound_source\<close>, a JSON text that
  parses back to what was written), and each such property has a run that meets them.

  \<^bold>\<open>Not modelled.\<close>  The command line (\<open>cli/main.rs\<close>: argument parsing and printing around operations modelled here); the
  start of the relay (\<open>relay/main.rs\<close>, \<open>relay/lib.rs\<close>: configuration, TLS, the routing table, the timers that call the
  sweep and the flush); the transport under the head feed (the WebSocket frames and TLS); sockets, threads and their
  memory model (an operation under a lock is one step); the messages of errors; variants for other systems than
  Unix; the schema migrations of the database.
\<close>

end
